(* ===== verification/Prelude.thy ===== *)
theory Prelude
  imports Main "HOL-Library.Word" "HOL-Library.Monad_Syntax"
begin

text \<open>
  Shared vocabulary of the development: the C integer types as words, the \<open>MASK\<close> macro of
  \<^verbatim>\<open>src/src/memory/mmu.h\<close>, the \<open>assert\<close> macro of \<^verbatim>\<open>src/src/libk/debug.h\<close>, the error numbers of
  \<^verbatim>\<open>src/src/libk/errno.h\<close>, counted C loops with their total-correctness rule, and generic facts
  on words that the components use through the collections below.

  A C function that can reach \<open>abort\<close> (through \<open>assert\<close>) or undefined behaviour (a null
  dereference, an index outside an array) is a function into \<open>option\<close>; \<open>None\<close> is that
  outcome, and \<open>Some\<close> is a normal return. Code is chained with the \<open>do\<close> notation of \<open>option\<close>.
\<close>

unbundle bit_operations_syntax

named_theorems kernel_defs \<open>unfolding of the small accessors of the kernel state\<close>
named_theorems wbits \<open>facts that reduce word equations to statements on single bits\<close>

section \<open>Integer types and the MASK macro\<close>

type_synonym u8 = "8 word"
type_synonym u16 = "16 word"
type_synonym u32 = "32 word"
type_synonym u64 = "64 word"

definition MASK_range :: "nat \<Rightarrow> nat \<Rightarrow> u64" where
  "MASK_range f t = (if f = 63 then 0 else push_bit (f + 1) 1) - push_bit t 1"

definition MASK :: "nat \<Rightarrow> nat \<Rightarrow> u64" where
  "MASK f t = (if f < t then MASK_range t f else MASK_range f t)"

text \<open>A conversion \<open>(int) x\<close> of a 64-bit value keeps the low 32 bits, read as two's complement.\<close>

definition int_of_u64 :: "u64 \<Rightarrow> int" where
  "int_of_u64 r = sint (ucast r :: u32)"

section \<open>Assertions\<close>

definition assert :: "bool \<Rightarrow> unit option" where
  "assert c = (if c then Some () else None)"

lemma assert_True [simp]: "assert True = Some ()"
  by (simp add: assert_def)

lemma assert_False [simp]: "assert False = None"
  by (simp add: assert_def)

lemma assert_eq_Some [simp]: "assert c = Some u \<longleftrightarrow> c"
  by (simp add: assert_def)

lemma assert_bind: "(assert c \<bind> f) = (if c then f () else None)"
  by (simp add: assert_def)

section \<open>Error numbers\<close>

text \<open>
  \<open>errno_t\<close> is a C enum, which \<open>exit\<close> fills from a raw register: any 32-bit value can occur, so
  the model keeps it as a word and names the enumerators.
\<close>

type_synonym errno_t = u32

abbreviation (input) OK :: errno_t where "OK \<equiv> 0"
abbreviation (input) STACK_OVERFLOW :: errno_t where "STACK_OVERFLOW \<equiv> 1"
abbreviation (input) SEG_FAULT :: errno_t where "SEG_FAULT \<equiv> 3"
abbreviation (input) MAX_PROC_REACHED :: errno_t where "MAX_PROC_REACHED \<equiv> 14"
abbreviation (input) TOO_HIGH_CHILD_PRIORITY :: errno_t where "TOO_HIGH_CHILD_PRIORITY \<equiv> 15"
abbreviation (input) NO_CHILD :: errno_t where "NO_CHILD \<equiv> 16"
abbreviation (input) INVALID_PID :: errno_t where "INVALID_PID \<equiv> 17"
abbreviation (input) TARGET_NOT_LISTENING :: errno_t where "TARGET_NOT_LISTENING \<equiv> 18"
abbreviation (input) SOURCE_ALREADY_ACKNOWLEDGED :: errno_t where "SOURCE_ALREADY_ACKNOWLEDGED \<equiv> 19"
abbreviation (input) SEND_DATA_TOO_LARGE :: errno_t where "SEND_DATA_TOO_LARGE \<equiv> 20"

record err_t =
  err_no :: errno_t
  err_data :: u64

section \<open>Counted loops\<close>

text \<open>\<open>for_range a b body\<close> is the loop \<open>for (i = a; i < b; i++) body(i)\<close> over a state.\<close>

primrec for_loop :: "nat \<Rightarrow> nat \<Rightarrow> (nat \<Rightarrow> 's \<Rightarrow> 's option) \<Rightarrow> 's \<Rightarrow> 's option" where
  "for_loop i 0 body s = Some s"
| "for_loop i (Suc n) body s = (body i s \<bind> for_loop (Suc i) n body)"

definition for_range :: "nat \<Rightarrow> nat \<Rightarrow> (nat \<Rightarrow> 's \<Rightarrow> 's option) \<Rightarrow> 's \<Rightarrow> 's option" where
  "for_range a b body s = for_loop a (b - a) body s"

lemma for_loop_total:
  assumes "P i s"
    and "\<And>k s. i \<le> k \<Longrightarrow> k < i + n \<Longrightarrow> P k s \<Longrightarrow> \<exists>s'. body k s = Some s' \<and> P (Suc k) s'"
  shows "\<exists>s'. for_loop i n body s = Some s' \<and> P (i + n) s'"
  using assms
proof (induction n arbitrary: i s)
  case 0
  then show ?case by simp
next
  case (Suc n)
  from Suc.prems(1) Suc.prems(2) [of i s] obtain s1 where s1: "body i s = Some s1" "P (Suc i) s1"
    by auto
  have "\<exists>s'. for_loop (Suc i) n body s1 = Some s' \<and> P (Suc i + n) s'"
    using s1(2) Suc.prems(2) by (intro Suc.IH) auto
  with s1(1) show ?case by auto
qed

text \<open>Total correctness: a body that always succeeds and keeps the invariant ends in it.\<close>

lemma for_range_total:
  assumes "P a s" and "a \<le> b"
    and "\<And>k s. a \<le> k \<Longrightarrow> k < b \<Longrightarrow> P k s \<Longrightarrow> \<exists>s'. body k s = Some s' \<and> P (Suc k) s'"
  shows "\<exists>s'. for_range a b body s = Some s' \<and> P b s'"
  using for_loop_total [of P a s "b - a" body] assms by (auto simp: for_range_def)

lemma for_range_empty [simp]: "b \<le> a \<Longrightarrow> for_range a b body s = Some s"
  by (simp add: for_range_def)

lemma for_range_step: "a < b \<Longrightarrow> for_range a b body s = (body a s \<bind> for_range (Suc a) b body)"
  by (simp add: for_range_def [abs_def] Suc_diff_Suc [symmetric])

section \<open>Word facts\<close>

lemma MASK_eq_push_mask:
  assumes "t \<le> f" and "f < 64"
  shows "MASK f t = push_bit t (mask (Suc f - t))"
proof -
  have "(2::u64) ^ Suc f = 2 ^ (Suc f - t) * 2 ^ t"
    using assms by (simp flip: power_add)
  moreover have "(if f = 63 then 0 else push_bit (f + 1) 1) = (2::u64) ^ Suc f"
    by (simp add: push_bit_eq_mult)
  ultimately show ?thesis
    using assms by (simp add: MASK_def MASK_range_def push_bit_eq_mult mask_eq_exp_minus_1 algebra_simps)
qed

lemma bit_MASK [simp, wbits]:
  "t \<le> f \<Longrightarrow> f < 64 \<Longrightarrow> bit (MASK f t) n \<longleftrightarrow> t \<le> n \<and> n \<le> f"
  by (auto simp: MASK_eq_push_mask bit_simps)

lemma and_MASK_low: "f < 63 \<Longrightarrow> x AND MASK f 0 = x mod 2 ^ Suc f"
  by (simp add: MASK_eq_push_mask take_bit_eq_mod flip: take_bit_eq_mask)

lemma mult8_eq_push_bit: "8 * (x::u64) = push_bit 3 x"
  by (simp add: push_bit_eq_mult)

lemma bit_less_power:
  fixes x :: "'a::len word"
  assumes "unat x < 2 ^ n" and "bit x k"
  shows "k < n"
proof -
  have "take_bit n (unat x) = unat x" using assms(1) by (simp add: take_bit_nat_eq_self_iff)
  moreover have "bit (unat x) k" using assms(2) by (simp add: bit_simps)
  ultimately show ?thesis by (metis bit_take_bit_iff)
qed

lemma unat_two_power:
  assumes "k < 64"
  shows "unat (2 ^ k :: u64) = 2 ^ k"
proof -
  have "(2::nat) ^ k < 2 ^ 64" using assms by (intro power_strict_increasing) auto
  moreover have "(2::u64) ^ k = of_nat (2 ^ k)" by simp
  ultimately show ?thesis by (simp only: unat_of_nat) simp
qed

lemma sint_small:
  fixes x :: u32
  assumes "unat x < 2 ^ 31"
  shows "sint x = int (unat x)"
proof -
  have "unat x < 2147483648" using assms by simp
  then have "uint x < 2147483648" "- 2147483648 \<le> uint x" using uint_nat [of x] uint_ge_0 [of x] by linarith+
  then have "sint x = uint x" unfolding sint_uint by (intro signed_take_bit_int_eq_self) simp_all
  then show ?thesis by (simp only: uint_nat)
qed

lemma scast_small:
  fixes x :: u32
  assumes "unat x < 2 ^ 31"
  shows "scast x = (of_nat (unat x) :: u64)"
  by (simp only: scast_eq sint_small [OF assms] of_int_of_nat_eq)

lemma small_casts:
  assumes "unat (b :: u64) < 2 ^ 31"
  shows "unat (ucast b :: u32) = unat b" "scast (ucast b :: u32) = b"
proof -
  show u: "unat (ucast b :: u32) = unat b" using assms by (simp add: unsigned_ucast_eq take_bit_nat_eq_self)
  show "scast (ucast b :: u32) = b" using scast_small [of "ucast b"] u assms by simp
qed

lemma cast_back: "ucast (scast (x :: u32) :: u64) = x"
  by (rule bit_word_eqI) (auto simp: bit_simps)

end
