(* ===== verification/Ring.thy ===== *)
theory Ring
  imports Prelude
begin

text \<open>
  Circular doubly linked lists. \<^verbatim>\<open>src/src/proc/proc.c\<close> keeps two families of them inside the
  process table: the runnable processes of one priority (\<open>next_same_prio\<close>, \<open>prev_same_prio\<close>,
  maintained by \<open>change_state\<close>) and the children of one process (\<open>next_sibling\<close>,
  \<open>prev_sibling\<close>, maintained by \<open>add_child\<close> and \<open>remove_child\<close>). Both use the same pointer
  surgery. \<open>ring\<close> relates such a structure to the list of its elements, first element first;
  the locale \<open>ring_fields\<close> states what the surgery needs of a pair of link fields, and proves
  insertion, removal and rotation once for both families.
\<close>

section \<open>The abstraction\<close>

definition linked :: "('p \<Rightarrow> 'p option) \<Rightarrow> ('p \<Rightarrow> 'p option) \<Rightarrow> 'p \<Rightarrow> 'p \<Rightarrow> bool" where
  "linked nxt prv a b \<longleftrightarrow> nxt a = Some b \<and> prv b = Some a"

definition ring :: "('p \<Rightarrow> 'p option) \<Rightarrow> ('p \<Rightarrow> 'p option) \<Rightarrow> 'p list \<Rightarrow> bool" where
  "ring nxt prv xs \<longleftrightarrow> distinct xs \<and>
     (xs = [] \<or> successively (linked nxt prv) xs \<and> linked nxt prv (last xs) (hd xs))"

text \<open>The pointer the code keeps to a ring: its first element, \<open>NULL\<close> when it is empty.\<close>

definition head_ptr :: "'p list \<Rightarrow> 'p option" where
  "head_ptr xs = (case xs of [] \<Rightarrow> None | x # _ \<Rightarrow> Some x)"

lemma head_ptr_simps [simp]: "head_ptr [] = None" "head_ptr (x # xs) = Some x"
  by (simp_all add: head_ptr_def)

lemma head_ptr_None [simp]: "head_ptr xs = None \<longleftrightarrow> xs = []"
  by (cases xs) auto

lemma head_ptr_Some: "head_ptr xs = Some x \<longleftrightarrow> xs \<noteq> [] \<and> x = hd xs"
  by (cases xs) auto

lemma ring_Nil [simp]: "ring nxt prv []"
  by (simp add: ring_def)

lemma ring_distinct: "ring nxt prv xs \<Longrightarrow> distinct xs"
  by (simp add: ring_def)

lemma ring_rotate: "ring nxt prv (xs @ ys) \<Longrightarrow> ring nxt prv (ys @ xs)"
  by (cases "xs = []"; cases "ys = []") (auto simp: ring_def successively_append_iff)

lemma ring_singleton: "ring nxt prv [x] \<longleftrightarrow> nxt x = Some x \<and> prv x = Some x"
  by (auto simp: ring_def linked_def)

lemma ring_Cons:
  "ys \<noteq> [] \<Longrightarrow> ring nxt prv (x # ys) \<longleftrightarrow>
     x \<notin> set ys \<and> distinct ys \<and> linked nxt prv x (hd ys) \<and>
     successively (linked nxt prv) ys \<and> linked nxt prv (last ys) x"
  by (auto simp: ring_def successively_Cons)

lemma ring_hd_links:
  assumes "ring nxt prv (x # ys)"
  shows "nxt x = Some (if ys = [] then x else hd ys)"
    and "prv x = Some (if ys = [] then x else last ys)"
  using assms by (cases "ys = []"; auto simp: ring_singleton ring_Cons linked_def)+

lemma successively_linked_cong:
  assumes "\<And>p. p \<in> set xs \<Longrightarrow> p \<noteq> last xs \<Longrightarrow> nxt' p = nxt p"
    and "\<And>p. p \<in> set xs \<Longrightarrow> p \<noteq> hd xs \<Longrightarrow> prv' p = prv p"
    and "distinct xs"
  shows "successively (linked nxt' prv') xs \<longleftrightarrow> successively (linked nxt prv) xs"
  using assms
proof (induction xs rule: induct_list012)
  case (3 x y zs)
  have "x \<noteq> last (x # y # zs)"
    using "3.prems"(3) by auto
  then have "nxt' x = nxt x" and "prv' y = prv y"
    using "3.prems" by auto
  moreover have "successively (linked nxt' prv') (y # zs) \<longleftrightarrow> successively (linked nxt prv) (y # zs)"
    using "3.prems" by (intro "3.IH"(2)) auto
  ultimately show ?case by (simp add: linked_def)
qed simp_all

text \<open>Links outside a ring do not matter to it.\<close>

lemma ring_frame:
  assumes "\<And>p. p \<in> set xs \<Longrightarrow> nxt' p = nxt p \<and> prv' p = prv p"
  shows "ring nxt' prv' xs \<longleftrightarrow> ring nxt prv xs"
proof -
  have "successively (linked nxt' prv') xs \<longleftrightarrow> successively (linked nxt prv) xs"
    using assms by (intro successively_cong) (auto simp: linked_def)
  then show ?thesis using assms by (auto simp: ring_def linked_def)
qed

section \<open>Every element can be brought to the front\<close>

lemma ring_to_front:
  assumes "ring nxt prv xs" and "x \<in> set xs"
  obtains as bs where "xs = as @ x # bs" and "ring nxt prv (x # bs @ as)"
    and "remove1 x xs = as @ bs"
proof -
  from assms(2) obtain as bs where xs: "xs = as @ x # bs" and "x \<notin> set as"
    by (meson split_list_first)
  moreover from assms(1) xs have "ring nxt prv (x # bs @ as)"
    using ring_rotate [of nxt prv as "x # bs"] by simp
  ultimately show ?thesis
    by (intro that) (simp_all add: remove1_append)
qed

lemma ring_links_in:
  assumes "ring nxt prv xs" and "x \<in> set xs"
  obtains n p where "nxt x = Some n" and "prv x = Some p" and "n \<in> set xs" and "p \<in> set xs"
proof -
  from assms obtain as bs where xs: "xs = as @ x # bs" and r: "ring nxt prv (x # bs @ as)"
    by (rule ring_to_front)
  from ring_hd_links [OF r] show ?thesis
    by (cases "bs @ as = []") (auto simp: xs hd_append last_append intro!: that split: if_splits)
qed

text \<open>The first element after a removal, as the code computes it from the removed element's link.\<close>

lemma ring_head_remove:
  assumes "ring nxt prv xs" and "x \<in> set xs" and "nxt x = Some n"
  shows "head_ptr (remove1 x xs) =
           (if head_ptr xs = Some x then if n = x then None else Some n else head_ptr xs)"
proof (cases xs)
  case (Cons y ys)
  show ?thesis
  proof (cases "y = x")
    case True
    with assms Cons have "n = (if ys = [] then x else hd ys)" and "x \<notin> set ys"
      using ring_hd_links(1) [of nxt prv x ys] by (auto dest: ring_distinct)
    with True Cons show ?thesis by (cases ys) auto
  qed (use Cons in simp)
qed (use assms in simp)

section \<open>A ring is determined by one element\<close>

lemma chain_unique:
  assumes "successively (linked nxt prv) (a # xs @ [z])" and "successively (linked nxt prv) (a # ys @ [z])"
    and "z \<notin> set xs" and "z \<notin> set ys"
  shows "xs = ys"
  using assms
proof (induction xs arbitrary: a ys)
  case Nil
  then show ?case by (cases ys) (auto simp: linked_def)
next
  case (Cons x xs)
  then obtain y zs where ys: "ys = y # zs"
    by (cases ys) (auto simp: linked_def)
  with Cons.prems have "x = y"
    by (auto simp: linked_def)
  with Cons ys show ?case by auto
qed

lemma ring_chain: "ring nxt prv (x # xs) \<Longrightarrow> successively (linked nxt prv) (x # xs @ [x])"
  by (cases "xs = []") (auto simp: ring_Cons ring_singleton linked_def successively_append_iff successively_Cons)

lemma ring_unique:
  assumes "ring nxt prv (x # xs)" and "ring nxt prv (x # ys)"
  shows "xs = ys"
  using chain_unique [OF ring_chain [OF assms(1)] ring_chain [OF assms(2)]]
    ring_distinct [OF assms(1)] ring_distinct [OF assms(2)] by simp

lemma ring_disjoint:
  assumes "ring nxt prv xs" and "ring nxt prv ys" and "q \<in> set xs" and "q \<in> set ys"
  shows "set xs = set ys"
proof -
  from ring_to_front [OF assms(1,3)] obtain xs' where "ring nxt prv (q # xs')" "set xs = set (q # xs')"
    by (metis (no_types, lifting) list.simps(15) set_append Un_insert_right sup_commute)
  moreover from ring_to_front [OF assms(2,4)] obtain ys' where "ring nxt prv (q # ys')" "set ys = set (q # ys')"
    by (metis (no_types, lifting) list.simps(15) set_append Un_insert_right sup_commute)
  ultimately show ?thesis
    using ring_unique by fastforce
qed

section \<open>Pointer surgery on a pair of link fields\<close>

locale ring_fields =
  fixes nxt :: "'s \<Rightarrow> 'p \<Rightarrow> 'p option"
    and prv :: "'s \<Rightarrow> 'p \<Rightarrow> 'p option"
    and set_nxt :: "'p \<Rightarrow> 'p option \<Rightarrow> 's \<Rightarrow> 's"
    and set_prv :: "'p \<Rightarrow> 'p option \<Rightarrow> 's \<Rightarrow> 's"
  assumes nxt_set_nxt: "nxt (set_nxt p v s) = (nxt s)(p := v)"
    and prv_set_nxt: "prv (set_nxt p v s) = prv s"
    and nxt_set_prv: "nxt (set_prv p v s) = nxt s"
    and prv_set_prv: "prv (set_prv p v s) = (prv s)(p := v)"
begin

lemmas field_laws = nxt_set_nxt prv_set_nxt nxt_set_prv prv_set_prv

text \<open>Insertion into an empty ring: both links of the element point to itself.\<close>

lemma ring_insert_empty:
  "ring (nxt (set_prv y (Some y) (set_nxt y (Some y) s)))
        (prv (set_prv y (Some y) (set_nxt y (Some y) s))) [y]"
  by (simp add: ring_singleton field_laws)

text \<open>
  Insertion before the first element \<open>h\<close>, whose predecessor is the last element: the four
  stores of the code, in its order.
\<close>

lemma ring_insert:
  assumes r: "ring (nxt s) (prv s) xs" and h: "head_ptr xs = Some h" and y: "y \<notin> set xs"
    and l: "prv s h = Some l"
    and t: "t = set_nxt l (Some y) (set_prv h (Some y) (set_prv y (Some l) (set_nxt y (Some h) s)))"
  shows "ring (nxt t) (prv t) (y # xs)"
proof -
  from h obtain zs where xs: "xs = h # zs" by (cases xs) auto
  from r have dist: "distinct xs" by (rule ring_distinct)
  from r l have last: "l = last xs"
    using ring_hd_links(2) [of "nxt s" "prv s" h zs] by (auto simp: xs)
  have "successively (linked (nxt s) (prv s)) xs"
    using r by (simp add: ring_def xs)
  then have "successively (linked (nxt t) (prv t)) xs"
    using y last dist
    by (subst successively_linked_cong [where nxt = "nxt s" and prv = "prv s"])
       (auto simp: t field_laws xs)
  moreover have "linked (nxt t) (prv t) y (hd xs)"
    using y last by (auto simp: t linked_def field_laws xs)
  moreover have "linked (nxt t) (prv t) (last xs) y"
    using y last by (auto simp: t linked_def field_laws xs)
  ultimately show ?thesis
    using y dist xs by (subst ring_Cons) auto
qed

text \<open>Removal of an element: its predecessor and successor are linked together.\<close>

lemma ring_remove:
  assumes r: "ring (nxt s) (prv s) xs" and x: "x \<in> set xs"
    and n: "nxt s x = Some n" and p: "prv s x = Some p"
    and t: "t = set_prv n (Some p) (set_nxt p (Some n) s)"
  shows "ring (nxt t) (prv t) (remove1 x xs)"
proof -
  from r x obtain as bs where front: "ring (nxt s) (prv s) (x # bs @ as)"
    and rem: "remove1 x xs = as @ bs"
    by (rule ring_to_front)
  have "ring (nxt t) (prv t) (bs @ as)"
  proof (cases "bs @ as = []")
    case True
    then show ?thesis by simp
  next
    case False
    with front have links: "x \<notin> set (bs @ as)" "distinct (bs @ as)"
      "successively (linked (nxt s) (prv s)) (bs @ as)"
      and ends: "n = hd (bs @ as)" "p = last (bs @ as)"
      using n p by (auto simp: ring_Cons linked_def)
    have "successively (linked (nxt t) (prv t)) (bs @ as)"
      using links ends
      by (subst successively_linked_cong [where nxt = "nxt s" and prv = "prv s"])
         (auto simp: t field_laws)
    moreover have "linked (nxt t) (prv t) (last (bs @ as)) (hd (bs @ as))"
      using ends by (auto simp: t linked_def field_laws)
    ultimately show ?thesis
      using False links(2) by (simp add: ring_def)
  qed
  then show ?thesis
    unfolding rem by (rule ring_rotate)
qed

end

end
