(* ===== verification/Timer.thy ===== *)
theory Timer
  imports Prelude
begin

text \<open>
  \<^verbatim>\<open>src/src/interrupt/timer.c\<close>: the countdown of the BCM2837 timer and the pseudo-random choice
  the scheduler makes. The memory-mapped registers are a map from their addresses to 32-bit
  values; the system registers the code writes are fields; the physical counter \<open>CNTPCT_EL0\<close>
  is an argument of the operations that read it.
\<close>

section \<open>Registers and state\<close>

definition BASE :: u64 where "BASE = 0x3f000000"
definition INTERRUPT_BASE :: u64 where "INTERRUPT_BASE = BASE + 0xb000"
definition IRQ_BASIC_PENDING :: u64 where "IRQ_BASIC_PENDING = INTERRUPT_BASE + 0x0200"
definition ENABLE_BASIC_IRQ :: u64 where "ENABLE_BASIC_IRQ = INTERRUPT_BASE + 0x0218"
definition TIMER_BASE :: u64 where "TIMER_BASE = BASE + 0xb400"
definition TIMER_LOAD :: u64 where "TIMER_LOAD = TIMER_BASE + 0x0000"
definition TIMER_VALUE :: u64 where "TIMER_VALUE = TIMER_BASE + 0x0004"
definition TIMER_CTRL :: u64 where "TIMER_CTRL = TIMER_BASE + 0x0008"
definition TIMER_IRQ_CLEAR_ACK :: u64 where "TIMER_IRQ_CLEAR_ACK = TIMER_BASE + 0x000C"
definition TIMER_RAW_IRQ :: u64 where "TIMER_RAW_IRQ = TIMER_BASE + 0x0010"
definition TIMER_PRE_DIV :: u64 where "TIMER_PRE_DIV = TIMER_BASE + 0x001C"

lemmas timer_registers =
  BASE_def INTERRUPT_BASE_def IRQ_BASIC_PENDING_def ENABLE_BASIC_IRQ_def TIMER_BASE_def
  TIMER_LOAD_def TIMER_VALUE_def TIMER_CTRL_def TIMER_IRQ_CLEAR_ACK_def TIMER_RAW_IRQ_def
  TIMER_PRE_DIV_def

definition SECOND :: u32 where "SECOND = 2040816"
definition EPSILON :: u32 where "EPSILON = 200"
definition QUANTUM :: u32 where "QUANTUM = SECOND div 1"

lemmas timer_constants = SECOND_def EPSILON_def QUANTUM_def

record timer_state =
  timer_on :: bool
  mmio32 :: "u64 \<Rightarrow> u32"
  daif :: u64
  cntkctl_el1 :: u64

definition AT32 :: "timer_state \<Rightarrow> u64 \<Rightarrow> u32" where
  "AT32 s a = mmio32 s a"

definition AT32_store :: "u64 \<Rightarrow> u32 \<Rightarrow> timer_state \<Rightarrow> timer_state" where
  "AT32_store a v s = s\<lparr>mmio32 := (mmio32 s)(a := v)\<rparr>"

lemma AT32_load_store [simp]: "AT32 (AT32_store a v s) b = (if b = a then v else AT32 s b)"
  by (simp add: AT32_def AT32_store_def)

lemma AT32_frame [simp]:
  "timer_on (AT32_store a v s) = timer_on s"
  "AT32 (s\<lparr>timer_on := b\<rparr>) c = AT32 s c"
  by (simp_all add: AT32_def AT32_store_def)

section \<open>Operations\<close>

text \<open>Bits 1, 7 and 5 of the control register: 23-bit counter, enable, interrupt enable.\<close>

definition ctrl_enable_bits :: u32 where
  "ctrl_enable_bits = (push_bit 1 1 OR push_bit 7 1) OR push_bit 5 1"

definition init_timer_irq :: "timer_state \<Rightarrow> timer_state" where
  "init_timer_irq s =
     (let s1 = AT32_store ENABLE_BASIC_IRQ (AT32 s ENABLE_BASIC_IRQ OR 1) s;
          s2 = s1\<lparr>daif := daif s1 OR push_bit 7 1\<rparr>;
          s3 = AT32_store TIMER_PRE_DIV 0x7d s2
      in s3\<lparr>cntkctl_el1 := cntkctl_el1 s3 OR 1\<rparr>)"

definition start_countdown :: "u32 \<Rightarrow> timer_state \<Rightarrow> timer_state" where
  "start_countdown countdown s =
     (let s1 = AT32_store TIMER_CTRL 0 (s\<lparr>timer_on := True\<rparr>);
          s2 = (if countdown > QUANTUM \<or> countdown < EPSILON
                then AT32_store TIMER_LOAD EPSILON s1
                else AT32_store TIMER_LOAD countdown s1);
          s3 = AT32_store TIMER_VALUE 0xFFFFFFFF s2
      in AT32_store TIMER_CTRL (AT32 s3 TIMER_CTRL OR ctrl_enable_bits) s3)"

definition is_timer_irq :: "timer_state \<Rightarrow> u32" where
  "is_timer_irq s = AT32 s IRQ_BASIC_PENDING AND 1"

definition is_countdown_finished :: "timer_state \<Rightarrow> u32" where
  "is_countdown_finished s = AT32 s TIMER_RAW_IRQ AND 1"

definition mask_timer_irq :: "timer_state \<Rightarrow> timer_state" where
  "mask_timer_irq s = AT32_store TIMER_CTRL (AT32 s TIMER_CTRL AND NOT (push_bit 5 1)) s"

definition get_curr_timer_value :: "timer_state \<Rightarrow> u32" where
  "get_curr_timer_value s = (if is_countdown_finished s \<noteq> 0 then 0 else AT32 s TIMER_VALUE)"

definition clear_ack_timer_irq :: "timer_state \<Rightarrow> timer_state" where
  "clear_ack_timer_irq s =
     AT32_store TIMER_CTRL 0 (AT32_store TIMER_IRQ_CLEAR_ACK 0 (s\<lparr>timer_on := False\<rparr>))"

definition restart_timer :: "timer_state \<Rightarrow> timer_state" where
  "restart_timer s =
     (if \<not> timer_on s then s
      else let value = AT32 s TIMER_VALUE;
               s1 = AT32_store TIMER_CTRL 0 s;
               s2 = (if value > QUANTUM \<or> value < EPSILON \<or> is_countdown_finished s1 \<noteq> 0
                     then AT32_store TIMER_LOAD EPSILON s1 else s1)
           in AT32_store TIMER_CTRL (AT32 s2 TIMER_CTRL OR ctrl_enable_bits) s2)"

text \<open>The six values \<open>print_timer_status\<close> prints, in its order.\<close>

definition print_timer_status :: "timer_state \<Rightarrow> u64 list" where
  "print_timer_status s =
     [ucast (is_timer_irq s), ucast (is_countdown_finished s), ucast (get_curr_timer_value s),
      drop_bit 7 (daif s AND push_bit 7 1),
      ucast (drop_bit 5 (AT32 s TIMER_CTRL AND 5)), ucast (drop_bit 7 (AT32 s TIMER_CTRL AND 7))]"

section \<open>Random choice\<close>

text \<open>
  \<open>random\<close> takes the value of the physical counter modulo the bound. The hardware's unsigned
  remainder by zero is the dividend itself, which is also what \<open>mod\<close> gives on words.
\<close>

definition random :: "u64 \<Rightarrow> u64 \<Rightarrow> u64" where
  "random cntpct bound = cntpct mod bound"

definition law_total :: "u32 list \<Rightarrow> u64" where
  "law_total law = foldl (\<lambda>total w. total + ucast w) 0 law"

fun law_pick :: "u64 \<Rightarrow> u64 \<Rightarrow> nat \<Rightarrow> u32 list \<Rightarrow> nat" where
  "law_pick val acc i [] = i - 1"
| "law_pick val acc i (w # ws) =
     (let acc' = acc + ucast w in if acc' > val then i else law_pick val acc' (Suc i) ws)"

definition random_law :: "u64 \<Rightarrow> u32 list \<Rightarrow> nat" where
  "random_law cntpct law = law_pick (random cntpct (law_total law)) 0 0 law"

section \<open>The law is the one given\<close>

definition weight :: "u32 list \<Rightarrow> nat" where
  "weight law = sum_list (map unat law)"

lemma weight_simps [simp]: "weight [] = 0" "weight (w # ws) = unat w + weight ws"
  by (simp_all add: weight_def)

lemma weight_bound: "weight law \<le> length law * (2 ^ 32 - 1)"
proof (induction law)
  case (Cons w law)
  have "unat w \<le> 2 ^ 32 - 1"
    using unsigned_less [of w, where 'a = nat] by simp
  with Cons show ?case by simp
qed simp

lemma unat_add_weight:
  assumes "unat acc + unat w < 2 ^ 64"
  shows "unat (acc + ucast (w :: u32) :: u64) = unat acc + unat w"
  using assms by (subst unat_add_lem [THEN iffD1]) (simp_all add: unsigned_ucast_eq take_bit_nat_eq_self)

lemma law_total_weight_acc:
  "unat acc + weight law < 2 ^ 64 \<Longrightarrow>
     unat (foldl (\<lambda>total w. total + ucast w) (acc :: u64) law) = unat acc + weight law"
  by (induction law arbitrary: acc) (simp_all add: unat_add_weight)

lemma law_total_weight: "weight law < 2 ^ 64 \<Longrightarrow> unat (law_total law) = weight law"
  using law_total_weight_acc [of 0 law] by (simp add: law_total_def)

lemma law_pick_spec:
  assumes "unat acc + weight ws < 2 ^ 64" and "unat acc \<le> unat val"
    and "unat val < unat acc + weight ws"
  shows "\<exists>k<length ws. law_pick val acc i ws = i + k \<and>
           unat acc + weight (take k ws) \<le> unat val \<and>
           unat val < unat acc + weight (take k ws) + unat (ws ! k)"
  using assms
proof (induction ws arbitrary: acc i)
  case (Cons w ws)
  have acc': "unat (acc + ucast w) = unat acc + unat w"
    using Cons.prems by (intro unat_add_weight) simp
  show ?case
  proof (cases "acc + ucast w > val")
    case True
    then have "unat val < unat acc + unat w"
      by (simp add: word_less_nat_alt acc')
    with True Cons.prems show ?thesis
      by (intro exI [of _ 0]) simp
  next
    case False
    then have "unat acc + unat w \<le> unat val"
      by (simp add: word_less_nat_alt acc')
    then obtain k where "k < length ws" "law_pick val (acc + ucast w) (Suc i) ws = Suc i + k"
      "unat acc + unat w + weight (take k ws) \<le> unat val"
      "unat val < unat acc + unat w + weight (take k ws) + unat (ws ! k)"
      using Cons.IH [of "acc + ucast w" "Suc i"] Cons.prems by (auto simp: acc')
    with False show ?thesis
      by (intro exI [of _ "Suc k"]) simp
  qed
qed simp


lemma weight_take_Suc: "i < length law \<Longrightarrow> weight (take (Suc i) law) = weight (take i law) + unat (law ! i)"
  by (simp add: take_Suc_conv_app_nth weight_def)

lemma weight_take_mono: "i \<le> j \<Longrightarrow> weight (take i law) \<le> weight (take j law)"
proof (induction law arbitrary: i j)
  case (Cons w law)
  then show ?case by (cases i; cases j) auto
qed simp

lemma weight_take_le: "weight (take i law) \<le> weight law"
  using weight_take_mono [of i "max i (length law)" law] by simp

lemma random_law_interval:
  assumes "weight law < 2 ^ 64" and "v < weight law" and "i < length law"
  shows "random_law (of_nat v) law = i \<longleftrightarrow>
           weight (take i law) \<le> v \<and> v < weight (take (Suc i) law)"
proof -
  have v: "unat (of_nat v :: u64) = v"
    using assms by (simp add: unat_of_nat take_bit_nat_eq_self)
  then have "of_nat v < law_total law"
    using assms by (simp add: word_less_nat_alt law_total_weight)
  then have "random_law (of_nat v) law = law_pick (of_nat v) 0 0 law"
    by (simp add: random_law_def random_def mod_word_less)
  moreover obtain k where k: "k < length law" "law_pick (of_nat v) 0 0 law = k"
    "weight (take k law) \<le> v" "v < weight (take (Suc k) law)"
    using law_pick_spec [of 0 law "of_nat v" 0] assms by (auto simp: v weight_take_Suc)
  moreover have "k = i" if "weight (take i law) \<le> v" "v < weight (take (Suc i) law)"
  proof (rule linorder_cases [of k i])
    assume "k < i"
    then have "weight (take (Suc k) law) \<le> weight (take i law)"
      by (intro weight_take_mono) simp
    with that k show ?thesis by simp
  next
    assume "i < k"
    then have "weight (take (Suc i) law) \<le> weight (take k law)"
      by (intro weight_take_mono) simp
    with that k show ?thesis by simp
  qed
  ultimately show ?thesis by auto
qed

lemma random_law_positive:
  assumes "weight law < 2 ^ 64" and "0 < weight law"
  shows "random_law cntpct law < length law \<and> 0 < unat (law ! random_law cntpct law)"
proof -
  have "unat (random cntpct (law_total law)) < weight law"
    using assms by (simp add: random_def unat_mod_distrib law_total_weight)
  with assms obtain k where "k < length law" "random_law cntpct law = k"
    "weight (take k law) \<le> unat (random cntpct (law_total law))"
    "unat (random cntpct (law_total law)) < weight (take k law) + unat (law ! k)"
    using law_pick_spec [of 0 law "random cntpct (law_total law)" 0]
    by (auto simp: random_law_def)
  then show ?thesis by auto
qed

text \<open>
  The random choice of the scheduler follows the law it is given exactly: of the
  \<open>weight law\<close> equally likely values the counter can take modulo the total, precisely
  \<open>law ! i\<close> make \<open>random_law\<close> return \<open>i\<close> (so an entry of weight zero is never returned).
\<close>

theorem random_law_exact:
  assumes "weight law < 2 ^ 64" and "i < length law"
  shows "card {v. v < weight law \<and> random_law (of_nat v) law = i} = unat (law ! i)"
proof -
  have "v < weight law \<and> random_law (of_nat v) law = i \<longleftrightarrow>
        v \<in> {weight (take i law)..<weight (take (Suc i) law)}" for v
    using random_law_interval [of law v i] weight_take_le [of "Suc i" law] assms by auto
  then have "{v. v < weight law \<and> random_law (of_nat v) law = i} =
        {weight (take i law)..<weight (take (Suc i) law)}"
    by blast
  then show ?thesis
    using assms by (simp add: weight_take_Suc)
qed

theorem random_law_exact_witness:
  "weight [0, 5, 0, 11] < 2 ^ 64 \<and> 3 < length [0, 5, 0, 11 :: u32] \<and>
   card {v. v < weight [0, 5, 0, 11] \<and> random_law (of_nat v) [0, 5, 0, 11] = 3} = 11"
  using random_law_exact [of "[0, 5, 0, 11]" 3] by simp

end
