(* ===== verification/Proc_State.thy ===== *)
theory Proc_State
  imports Ring Timer
begin

text \<open>
  The process table of \<^verbatim>\<open>src/src/proc/proc.h\<close> and the operations of \<^verbatim>\<open>src/src/proc/proc.c\<close> that
  maintain its linked structures. A pointer to a descriptor is always the address of a slot of
  \<open>sys_state.procs\<close>: it is modelled by the slot's index, \<open>None\<close> being \<open>NULL\<close>. An array index that
  comes from a \<open>priority\<close> is checked against the array's bounds, with \<open>None\<close> outside of them.
\<close>

section \<open>Data\<close>

abbreviation (input) MAX_PROC :: nat where "MAX_PROC \<equiv> 32"
abbreviation (input) N_REG :: nat where "N_REG \<equiv> 31"
abbreviation (input) MAX_PRIO :: nat where "MAX_PRIO \<equiv> 15"
abbreviation (input) BUFF_SIZE :: u64 where "BUFF_SIZE \<equiv> 1024"
abbreviation (input) KERNEL_PID :: nat where "KERNEL_PID \<equiv> 0"
abbreviation (input) INIT_PID :: nat where "INIT_PID \<equiv> 1"
abbreviation (input) MEM_MANAGER_PID :: nat where "MEM_MANAGER_PID \<equiv> 2"
abbreviation (input) IO_MANAGER_PID :: nat where "IO_MANAGER_PID \<equiv> 3"
abbreviation (input) FS_MANAGER_PID :: nat where "FS_MANAGER_PID \<equiv> 4"

datatype proc_state =
    FREE | RUNNABLE | WAITING | ZOMBIE | SENDING_CH | LISTENING_CH | WAIT_LISTENER | KERNEL

record sched_conf_t =
  time_left :: u32
  preempt :: bool

record context_t =
  registers :: "nat \<Rightarrow> u64"
  pc :: u64
  sp :: u64
  pstate :: u64
  sctlr_el1 :: u64

record mem_conf_t =
  ttbr0_el1 :: u64
  conf_heap_begin :: u64
  conf_end_offset :: u32
  conf_global_base :: u64

record sender_data_t =
  target_pid :: int
  send_size :: u64
  ack_data :: u64
  ack_size :: u64
  acknowledged :: bool

record receiver_data_t =
  source_pid :: nat
  receive_size :: u64
  receive_data :: u64
  return_code :: int

record buffer_t =
  buff :: "nat \<Rightarrow> u8"
  used_size :: u64
  write_addr :: u64

record proc_descriptor =
  pid :: nat
  parent_pid :: nat
  priority :: int
  state :: proc_state
  sched_conf :: sched_conf_t
  initialized :: bool
  saved_context :: context_t
  mem_conf :: mem_conf_t
  proc_err :: err_t
  child :: "nat option"
  next_sibling :: "nat option"
  prev_sibling :: "nat option"
  buffer :: buffer_t
  sender_data :: sender_data_t
  receiver_data :: receiver_data_t
  next_same_prio :: "nat option"
  prev_same_prio :: "nat option"

record system_state =
  curr_pid :: nat
  last_pid :: nat
  procs :: "nat \<Rightarrow> proc_descriptor"
  prio_proc_n :: "nat \<Rightarrow> u32"
  n_runnable_procs :: u32
  prio_proc :: "nat \<Rightarrow> nat option"

section \<open>Stores into a descriptor\<close>

definition proc_upd :: "nat \<Rightarrow> (proc_descriptor \<Rightarrow> proc_descriptor) \<Rightarrow> system_state \<Rightarrow> system_state" where
  "proc_upd p f s = s\<lparr>procs := (procs s)(p := f (procs s p))\<rparr>"

lemma proc_upd_simps [simp]:
  "procs (proc_upd p f s) = (procs s)(p := f (procs s p))"
  "curr_pid (proc_upd p f s) = curr_pid s"
  "last_pid (proc_upd p f s) = last_pid s"
  "prio_proc_n (proc_upd p f s) = prio_proc_n s"
  "n_runnable_procs (proc_upd p f s) = n_runnable_procs s"
  "prio_proc (proc_upd p f s) = prio_proc s"
  by (simp_all add: proc_upd_def)

definition set_next_same_prio :: "nat \<Rightarrow> nat option \<Rightarrow> system_state \<Rightarrow> system_state" where
  [kernel_defs]: "set_next_same_prio p v = proc_upd p (next_same_prio_update (\<lambda>_. v))"

definition set_prev_same_prio :: "nat \<Rightarrow> nat option \<Rightarrow> system_state \<Rightarrow> system_state" where
  [kernel_defs]: "set_prev_same_prio p v = proc_upd p (prev_same_prio_update (\<lambda>_. v))"

definition set_next_sibling :: "nat \<Rightarrow> nat option \<Rightarrow> system_state \<Rightarrow> system_state" where
  [kernel_defs]: "set_next_sibling p v = proc_upd p (next_sibling_update (\<lambda>_. v))"

definition set_prev_sibling :: "nat \<Rightarrow> nat option \<Rightarrow> system_state \<Rightarrow> system_state" where
  [kernel_defs]: "set_prev_sibling p v = proc_upd p (prev_sibling_update (\<lambda>_. v))"

definition set_child :: "nat \<Rightarrow> nat option \<Rightarrow> system_state \<Rightarrow> system_state" where
  [kernel_defs]: "set_child p v = proc_upd p (child_update (\<lambda>_. v))"

definition set_state :: "nat \<Rightarrow> proc_state \<Rightarrow> system_state \<Rightarrow> system_state" where
  [kernel_defs]: "set_state p v = proc_upd p (state_update (\<lambda>_. v))"

definition set_reg0 :: "nat \<Rightarrow> u64 \<Rightarrow> system_state \<Rightarrow> system_state" where
  [kernel_defs]: "set_reg0 p v = proc_upd p (saved_context_update (registers_update (\<lambda>r. r(0 := v))))"

definition set_err_no :: "nat \<Rightarrow> errno_t \<Rightarrow> system_state \<Rightarrow> system_state" where
  [kernel_defs]: "set_err_no p v = proc_upd p (proc_err_update (err_no_update (\<lambda>_. v)))"

definition set_prio_proc :: "nat \<Rightarrow> nat option \<Rightarrow> system_state \<Rightarrow> system_state" where
  [kernel_defs]: "set_prio_proc k v s = s\<lparr>prio_proc := (prio_proc s)(k := v)\<rparr>"

text \<open>The failing return of a system call: \<open>err.no\<close> is set and register 0 holds -1.\<close>

definition syscall_fail :: "nat \<Rightarrow> errno_t \<Rightarrow> system_state \<Rightarrow> system_state" where
  "syscall_fail p e s = set_reg0 p (-1) (set_err_no p e s)"

definition reg :: "system_state \<Rightarrow> nat \<Rightarrow> nat \<Rightarrow> u64" where
  "reg s p i = registers (saved_context (procs s p)) i"

section \<open>New descriptors\<close>

definition new_el0_pstate :: u64 where
  "new_el0_pstate = 0"

definition STACK_BEGIN :: u64 where
  "STACK_BEGIN = 0x3F200000"

definition new_proc_descriptor :: "nat \<Rightarrow> nat \<Rightarrow> int \<Rightarrow> u64 \<Rightarrow> proc_descriptor" where
  "new_proc_descriptor p parent prio entry =
     \<lparr>pid = p, parent_pid = parent, priority = prio, state = FREE,
      sched_conf = \<lparr>time_left = QUANTUM, preempt = False\<rparr>, initialized = False,
      saved_context = \<lparr>registers = (\<lambda>_. 0), pc = entry, sp = STACK_BEGIN,
                       pstate = new_el0_pstate, sctlr_el1 = 0xc00801\<rparr>,
      mem_conf = \<lparr>ttbr0_el1 = 0, conf_heap_begin = 0, conf_end_offset = 0, conf_global_base = 0\<rparr>,
      proc_err = \<lparr>err_no = OK, err_data = 0\<rparr>,
      child = None, next_sibling = None, prev_sibling = None,
      buffer = \<lparr>buff = (\<lambda>_. 0), used_size = 0, write_addr = 0\<rparr>,
      sender_data = \<lparr>target_pid = 0, send_size = 0, ack_data = 0, ack_size = 0, acknowledged = True\<rparr>,
      receiver_data = \<lparr>source_pid = 0, receive_size = 0, receive_data = 0, return_code = 0\<rparr>,
      next_same_prio = None, prev_same_prio = None\<rparr>"

definition make_child_proc_descriptor :: "nat \<Rightarrow> nat \<Rightarrow> int \<Rightarrow> system_state \<Rightarrow> system_state" where
  "make_child_proc_descriptor c parent prio s =
     (let pd = procs s parent; pctx = saved_context pd;
          new = new_proc_descriptor c (pid pd) prio (pc pctx);
          ctx = (saved_context new)\<lparr>pstate := pstate pctx, sp := sp pctx, pc := pc pctx,
                  registers := (\<lambda>i. if 1 \<le> i \<and> i < N_REG then registers pctx i else 0)\<rparr>;
          d = new\<lparr>sched_conf := (sched_conf new)\<lparr>preempt := preempt (sched_conf pd)\<rparr>,
                  saved_context := ctx, proc_err := proc_err pd, mem_conf := mem_conf pd,
                  sender_data := (sender_data new)\<lparr>acknowledged := True\<rparr>\<rparr>
      in s\<lparr>procs := (procs s)(c := d)\<rparr>)"

section \<open>Process utility\<close>

text \<open>\<open>find_free_proc\<close>: the first free slot from 2 on; \<open>None\<close> is the code's -1.\<close>

definition find_free_proc :: "system_state \<Rightarrow> nat option" where
  "find_free_proc s = List.find (\<lambda>i. state (procs s i) = FREE) [2..<MAX_PROC]"

definition prio_index :: "int \<Rightarrow> nat option" where
  "prio_index prio = (if 0 \<le> prio \<and> prio \<le> int MAX_PRIO then Some (nat prio) else None)"

definition change_state :: "nat \<Rightarrow> proc_state \<Rightarrow> system_state \<Rightarrow> system_state option" where
  "change_state p new_state s =
     (let prio = priority (procs s p) in
      if state (procs s p) = RUNNABLE \<and> new_state \<noteq> RUNNABLE then
        do { k \<leftarrow> prio_index prio;
             next \<leftarrow> next_same_prio (procs s p);
             prev \<leftarrow> prev_same_prio (procs s p);
             let s1 = (if prio_proc s k = Some p
                       then set_prio_proc k (if next = p then None else Some next) s else s);
             let s2 = set_next_same_prio prev (Some next) s1;
             let s3 = set_prev_same_prio next (Some prev) s2;
             let s4 = s3\<lparr>n_runnable_procs := n_runnable_procs s3 - 1,
                         prio_proc_n := (prio_proc_n s3)(k := prio_proc_n s3 k - 1)\<rparr>;
             Some (set_state p new_state s4) }
      else if state (procs s p) \<noteq> RUNNABLE \<and> new_state = RUNNABLE then
        do { k \<leftarrow> prio_index prio;
             s1 \<leftarrow> (case prio_proc s k of
                       None \<Rightarrow> Some (set_prev_same_prio p (Some p) (set_next_same_prio p (Some p) s))
                     | Some h \<Rightarrow>
                         do { prev \<leftarrow> prev_same_prio (procs s h);
                              Some (set_next_same_prio prev (Some p)
                                     (set_prev_same_prio h (Some p)
                                       (set_prev_same_prio p (Some prev)
                                         (set_next_same_prio p (Some h) s)))) });
             let s2 = set_prio_proc k (Some p) s1;
             let s3 = s2\<lparr>n_runnable_procs := n_runnable_procs s2 + 1,
                         prio_proc_n := (prio_proc_n s2)(k := prio_proc_n s2 k + 1)\<rparr>;
             Some (set_state p new_state s3) }
      else Some (set_state p new_state s))"

definition add_child :: "nat \<Rightarrow> nat \<Rightarrow> system_state \<Rightarrow> system_state option" where
  "add_child parent c s =
     do { s1 \<leftarrow> (case child (procs s parent) of
                    None \<Rightarrow> Some (set_prev_sibling c (Some c) (set_next_sibling c (Some c) s))
                  | Some h \<Rightarrow>
                      do { prev \<leftarrow> prev_sibling (procs s h);
                           Some (set_next_sibling prev (Some c)
                                  (set_prev_sibling h (Some c)
                                    (set_prev_sibling c (Some prev)
                                      (set_next_sibling c (Some h) s)))) });
          Some (set_child parent (Some c) s1) }"

definition remove_child :: "nat \<Rightarrow> nat \<Rightarrow> system_state \<Rightarrow> system_state option" where
  "remove_child parent c s =
     do { prev \<leftarrow> prev_sibling (procs s c);
          let s1 = set_next_sibling prev (next_sibling (procs s c)) s;
          next \<leftarrow> next_sibling (procs s1 c);
          let s2 = set_prev_sibling next (prev_sibling (procs s1 c)) s1;
          let s3 = (if child (procs s2 parent) = Some c
                    then set_child parent (if next_sibling (procs s2 c) = Some c then None
                                           else next_sibling (procs s2 c)) s2
                    else s2);
          Some s3 }"

text \<open>
  Walks of \<open>print_children\<close> and \<open>print_prio_lists\<close> (both compiled in, \<open>PROC_VERBOSE\<close> being
  defined): the former counts the children, the latter checks two assertions per element. A
  walk gets \<open>MAX_PROC\<close> steps, enough for any list of distinct slots.
\<close>

fun children_walk :: "nat \<Rightarrow> system_state \<Rightarrow> nat \<Rightarrow> nat \<Rightarrow> nat option" where
  "children_walk 0 s h c = None"
| "children_walk (Suc fuel) s h c =
     do { n \<leftarrow> next_sibling (procs s c);
          if n = h then Some 1 else map_option Suc (children_walk fuel s h n) }"

definition print_children :: "nat \<Rightarrow> system_state \<Rightarrow> nat option" where
  "print_children parent s =
     (case child (procs s parent) of None \<Rightarrow> Some 0 | Some h \<Rightarrow> children_walk MAX_PROC s h h)"

fun prio_walk :: "nat \<Rightarrow> system_state \<Rightarrow> nat \<Rightarrow> nat \<Rightarrow> nat \<Rightarrow> unit option" where
  "prio_walk 0 s prio h p = None"
| "prio_walk (Suc fuel) s prio h p =
     do { assert (priority (procs s p) = int prio);
          assert (state (procs s p) = RUNNABLE);
          n \<leftarrow> next_same_prio (procs s p);
          if n = h then Some () else prio_walk fuel s prio h n }"

definition print_prio_lists :: "system_state \<Rightarrow> unit option" where
  "print_prio_lists s =
     for_range 0 (Suc MAX_PRIO) (\<lambda>prio _. case prio_proc s prio of
        None \<Rightarrow> Some () | Some h \<Rightarrow> prio_walk MAX_PROC s prio h h) ()"

definition get_lvl2_address_from_sys_state :: "system_state \<Rightarrow> nat \<Rightarrow> u64" where
  "get_lvl2_address_from_sys_state s p = ttbr0_el1 (mem_conf (procs s p)) AND MASK 47 1"

definition get_parent_pid :: "system_state \<Rightarrow> nat \<Rightarrow> nat" where
  "get_parent_pid s p = parent_pid (procs s p)"

section \<open>The two families of rings\<close>

interpretation prio_ring: ring_fields
  "\<lambda>s p. next_same_prio (procs s p)" "\<lambda>s p. prev_same_prio (procs s p)"
  set_next_same_prio set_prev_same_prio
  by unfold_locales (auto simp: kernel_defs)

interpretation sibling_ring: ring_fields
  "\<lambda>s p. next_sibling (procs s p)" "\<lambda>s p. prev_sibling (procs s p)"
  set_next_sibling set_prev_sibling
  by unfold_locales (auto simp: kernel_defs)

end
