(* ===== verification/Ready_Queue.thy ===== *)
theory Ready_Queue
  imports Proc_State
begin

text \<open>
  The abstract scheduler state: for every priority, the list of the runnable processes, the
  next one to run first. \<open>sched_rel\<close> says that the linked lists, heads and counters of
  \<open>system_state\<close> implement such queues; \<open>change_state\<close> is shown to implement enqueueing and
  removal, and to touch nothing else.
\<close>

section \<open>The queues and what implements them\<close>

type_synonym ready_queues = "nat \<Rightarrow> nat list"

definition rq_change :: "nat \<Rightarrow> nat \<Rightarrow> proc_state \<Rightarrow> proc_state \<Rightarrow> ready_queues \<Rightarrow> ready_queues" where
  "rq_change p k old new rq =
     (if old = RUNNABLE \<and> new \<noteq> RUNNABLE then rq(k := remove1 p (rq k))
      else if old \<noteq> RUNNABLE \<and> new = RUNNABLE then rq(k := p # rq k)
      else rq)"

definition sched_ring :: "system_state \<Rightarrow> nat list \<Rightarrow> bool" where
  "sched_ring s = ring (\<lambda>p. next_same_prio (procs s p)) (\<lambda>p. prev_same_prio (procs s p))"

definition prio_ok :: "int \<Rightarrow> bool" where
  "prio_ok prio \<longleftrightarrow> 0 \<le> prio \<and> prio \<le> int MAX_PRIO"

definition queue_ok :: "nat list \<Rightarrow> nat \<Rightarrow> system_state \<Rightarrow> bool" where
  "queue_ok xs k s \<longleftrightarrow>
     sched_ring s xs \<and> prio_proc s k = head_ptr xs \<and> prio_proc_n s k = of_nat (length xs) \<and>
     (\<forall>p. p \<in> set xs \<longleftrightarrow>
        p < MAX_PROC \<and> state (procs s p) = RUNNABLE \<and> priority (procs s p) = int k)"

definition sched_rel :: "ready_queues \<Rightarrow> system_state \<Rightarrow> bool" where
  "sched_rel rq s \<longleftrightarrow>
     (\<forall>k\<le>MAX_PRIO. queue_ok (rq k) k s) \<and>
     (\<forall>p<MAX_PROC. state (procs s p) = RUNNABLE \<longrightarrow> prio_ok (priority (procs s p))) \<and>
     n_runnable_procs s = of_nat (\<Sum>k\<le>MAX_PRIO. length (rq k))"

lemma sched_relD:
  assumes "sched_rel rq s" and "k \<le> MAX_PRIO"
  shows "sched_ring s (rq k)" and "prio_proc s k = head_ptr (rq k)"
    and "prio_proc_n s k = of_nat (length (rq k))"
    and "p \<in> set (rq k) \<longleftrightarrow>
           p < MAX_PROC \<and> state (procs s p) = RUNNABLE \<and> priority (procs s p) = int k"
  using assms by (simp_all add: sched_rel_def queue_ok_def)

lemma prio_index_ok: "prio_ok prio \<Longrightarrow> prio_index prio = Some (nat prio)"
  by (simp add: prio_index_def prio_ok_def)

lemma prio_okD: "prio_ok prio \<Longrightarrow> nat prio \<le> MAX_PRIO \<and> int (nat prio) = prio"
  by (auto simp: prio_ok_def)

text \<open>The queues see only four fields of a descriptor.\<close>

lemma queue_ok_cong:
  assumes "queue_ok xs k s"
    and "\<And>q. q \<in> set xs \<Longrightarrow> next_same_prio (procs t q) = next_same_prio (procs s q) \<and>
                            prev_same_prio (procs t q) = prev_same_prio (procs s q)"
    and "\<And>q. q < MAX_PROC \<Longrightarrow> priority (procs t q) = int k \<and> state (procs t q) = RUNNABLE
                  \<longleftrightarrow> priority (procs s q) = int k \<and> state (procs s q) = RUNNABLE"
    and "prio_proc t k = prio_proc s k" and "prio_proc_n t k = prio_proc_n s k"
  shows "queue_ok xs k t"
proof -
  have "sched_ring t xs"
    using assms(1,2) unfolding queue_ok_def sched_ring_def
    by (subst ring_frame [where nxt = "\<lambda>p. next_same_prio (procs s p)"
          and prv = "\<lambda>p. prev_same_prio (procs s p)"]) auto
  moreover have "q \<in> set xs \<longleftrightarrow>
      q < MAX_PROC \<and> state (procs t q) = RUNNABLE \<and> priority (procs t q) = int k" for q
    using assms(1) assms(3) [of q] unfolding queue_ok_def by blast
  ultimately show ?thesis
    using assms by (simp add: queue_ok_def)
qed

lemma sched_rel_cong:
  assumes "sched_rel rq s"
    and "\<And>q. next_same_prio (procs t q) = next_same_prio (procs s q)"
    and "\<And>q. prev_same_prio (procs t q) = prev_same_prio (procs s q)"
    and "\<And>q. state (procs t q) = state (procs s q)"
    and "\<And>q. priority (procs t q) = priority (procs s q)"
    and "prio_proc t = prio_proc s" "prio_proc_n t = prio_proc_n s"
    and "n_runnable_procs t = n_runnable_procs s"
  shows "sched_rel rq t"
  using assms unfolding sched_rel_def
  by (auto intro: queue_ok_cong [where s = s])

section \<open>Bounds\<close>

lemma queue_length_le:
  assumes "sched_rel rq s" and "k \<le> MAX_PRIO"
  shows "length (rq k) \<le> MAX_PROC"
proof -
  have "distinct (rq k)" and "set (rq k) \<subseteq> {..<MAX_PROC}"
    using sched_relD [OF assms] by (auto simp: sched_ring_def dest: ring_distinct)
  then have "length (rq k) = card (set (rq k))" and "card (set (rq k)) \<le> card {..<MAX_PROC}"
    using card_mono [of "{..<MAX_PROC}" "set (rq k)"] by (auto simp: distinct_card)
  then show ?thesis by simp
qed

lemma total_length_le:
  assumes "sched_rel rq s"
  shows "(\<Sum>k\<le>MAX_PRIO. length (rq k)) \<le> 16 * MAX_PROC"
proof -
  have "(\<Sum>k\<le>MAX_PRIO. length (rq k)) \<le> (\<Sum>k\<le>MAX_PRIO. MAX_PROC)"
    using queue_length_le [OF assms] by (intro sum_mono) simp
  then show ?thesis by simp
qed

lemma unat_prio_proc_n:
  assumes "sched_rel rq s" and "k \<le> MAX_PRIO"
  shows "unat (prio_proc_n s k) = length (rq k)"
  using sched_relD(3) [OF assms] queue_length_le [OF assms]
  by (simp add: unat_of_nat take_bit_nat_eq_self)

lemma unat_n_runnable:
  assumes "sched_rel rq s"
  shows "unat (n_runnable_procs s) = (\<Sum>k\<le>MAX_PRIO. length (rq k))"
  using assms total_length_le [OF assms]
  by (simp add: sched_rel_def unat_of_nat take_bit_nat_eq_self del: of_nat_sum)

section \<open>Frame of a state change\<close>

text \<open>\<open>change_state\<close> writes the scheduling links and the state of \<open>p\<close>, and nothing else.\<close>

definition proc_core :: "proc_descriptor \<Rightarrow> proc_descriptor" where
  "proc_core d = d\<lparr>state := FREE, next_same_prio := None, prev_same_prio := None\<rparr>"

lemma proc_core_stores [simp]:
  "proc_core (procs (set_next_same_prio p v s) q) = proc_core (procs s q)"
  "proc_core (procs (set_prev_same_prio p v s) q) = proc_core (procs s q)"
  "proc_core (procs (set_state p st s) q) = proc_core (procs s q)"
  by (simp_all add: proc_core_def kernel_defs)

lemma sched_stores [simp]:
  "state (procs (set_next_same_prio p v s) q) = state (procs s q)"
  "state (procs (set_prev_same_prio p v s) q) = state (procs s q)"
  "state (procs (set_state p st s) q) = (if q = p then st else state (procs s q))"
  "priority (procs (set_next_same_prio p v s) q) = priority (procs s q)"
  "priority (procs (set_prev_same_prio p v s) q) = priority (procs s q)"
  "priority (procs (set_state p st s) q) = priority (procs s q)"
  "next_same_prio (procs (set_next_same_prio p v s) q) = (if q = p then v else next_same_prio (procs s q))"
  "next_same_prio (procs (set_prev_same_prio p v s) q) = next_same_prio (procs s q)"
  "next_same_prio (procs (set_state p st s) q) = next_same_prio (procs s q)"
  "prev_same_prio (procs (set_prev_same_prio p v s) q) = (if q = p then v else prev_same_prio (procs s q))"
  "prev_same_prio (procs (set_next_same_prio p v s) q) = prev_same_prio (procs s q)"
  "prev_same_prio (procs (set_state p st s) q) = prev_same_prio (procs s q)"
  "prio_proc (set_next_same_prio p v s) = prio_proc s" "prio_proc (set_prev_same_prio p v s) = prio_proc s"
  "prio_proc (set_state p st s) = prio_proc s" "prio_proc (set_prio_proc k w s) = (prio_proc s)(k := w)"
  "prio_proc_n (set_next_same_prio p v s) = prio_proc_n s" "prio_proc_n (set_prev_same_prio p v s) = prio_proc_n s"
  "prio_proc_n (set_state p st s) = prio_proc_n s" "prio_proc_n (set_prio_proc k w s) = prio_proc_n s"
  "n_runnable_procs (set_next_same_prio p v s) = n_runnable_procs s"
  "n_runnable_procs (set_prev_same_prio p v s) = n_runnable_procs s"
  "n_runnable_procs (set_state p st s) = n_runnable_procs s"
  "n_runnable_procs (set_prio_proc k w s) = n_runnable_procs s"
  "procs (set_prio_proc k w s) = procs s"
  "curr_pid (set_next_same_prio p v s) = curr_pid s" "last_pid (set_next_same_prio p v s) = last_pid s"
  "curr_pid (set_prev_same_prio p v s) = curr_pid s" "last_pid (set_prev_same_prio p v s) = last_pid s"
  "curr_pid (set_state p st s) = curr_pid s" "last_pid (set_state p st s) = last_pid s"
  "curr_pid (set_prio_proc k v s) = curr_pid s" "last_pid (set_prio_proc k v s) = last_pid s"
  by (simp_all add: kernel_defs)

lemma change_state_core:
  assumes "change_state p new s = Some t"
  shows "proc_core (procs t q) = proc_core (procs s q) \<and>
         state (procs t q) = (if q = p then new else state (procs s q)) \<and>
         curr_pid t = curr_pid s \<and> last_pid t = last_pid s"
  using assms
  by (auto simp: change_state_def Let_def bind_eq_Some_conv split: if_splits option.splits)

lemma proc_core_fields:
  assumes "proc_core d = proc_core e"
  shows "priority d = priority e" "pid d = pid e" "parent_pid d = parent_pid e"
    "sched_conf d = sched_conf e" "initialized d = initialized e" "saved_context d = saved_context e"
    "mem_conf d = mem_conf e" "proc_err d = proc_err e" "child d = child e"
    "next_sibling d = next_sibling e" "prev_sibling d = prev_sibling e" "buffer d = buffer e"
    "sender_data d = sender_data e" "receiver_data d = receiver_data e"
  using assms by (cases d; cases e; simp add: proc_core_def)+

lemma change_state_fields:
  assumes "change_state p new s = Some t"
  shows "state (procs t q) = (if q = p then new else state (procs s q))"
    and "curr_pid t = curr_pid s" and "last_pid t = last_pid s"
    and "proc_core (procs t q) = proc_core (procs s q)"
  using change_state_core [OF assms, of q] by auto

section \<open>State changes implement the queue operations\<close>

lemma sched_rel_other_queue:
  assumes rel: "sched_rel rq s" and j: "j \<le> MAX_PRIO" and jk: "j \<noteq> k"
    and prio: "priority (procs s p) = int k"
    and links: "\<And>q. q \<noteq> p \<Longrightarrow> q \<notin> set (rq k) \<Longrightarrow>
       next_same_prio (procs t q) = next_same_prio (procs s q) \<and>
       prev_same_prio (procs t q) = prev_same_prio (procs s q)"
    and same: "\<And>q. priority (procs t q) = priority (procs s q)"
      "\<And>q. q \<noteq> p \<Longrightarrow> state (procs t q) = state (procs s q)"
      "prio_proc t j = prio_proc s j" "prio_proc_n t j = prio_proc_n s j"
    and k: "k \<le> MAX_PRIO"
  shows "queue_ok (rq j) j t"
proof (rule queue_ok_cong [where s = s])
  show "queue_ok (rq j) j s"
    using rel j by (simp add: sched_rel_def)
  show "next_same_prio (procs t q) = next_same_prio (procs s q) \<and>
        prev_same_prio (procs t q) = prev_same_prio (procs s q)" if "q \<in> set (rq j)" for q
  proof (rule links)
    have "priority (procs s q) = int j"
      using that by (simp add: sched_relD(4) [OF rel j])
    then show "q \<noteq> p" and "q \<notin> set (rq k)"
      using jk prio by (auto simp: sched_relD(4) [OF rel k])
  qed
  show "priority (procs t q) = int j \<and> state (procs t q) = RUNNABLE \<longleftrightarrow>
        priority (procs s q) = int j \<and> state (procs s q) = RUNNABLE" if "q < MAX_PROC" for q
    using jk prio same by (cases "q = p") auto
  show "prio_proc t j = prio_proc s j" "prio_proc_n t j = prio_proc_n s j"
    by (rule same)+
qed

lemma sched_rel_update:
  assumes rel: "sched_rel rq s" and k: "k \<le> MAX_PRIO"
    and others: "\<And>j. j \<le> MAX_PRIO \<Longrightarrow> j \<noteq> k \<Longrightarrow> queue_ok (rq j) j t"
    and this_queue: "queue_ok xs k t"
    and prios: "\<And>q. q < MAX_PROC \<Longrightarrow> state (procs t q) = RUNNABLE \<Longrightarrow> prio_ok (priority (procs t q))"
    and count: "n_runnable_procs t + of_nat (length (rq k)) = n_runnable_procs s + of_nat (length xs)"
  shows "sched_rel (rq(k := xs)) t"
proof -
  have "(\<Sum>j\<le>MAX_PRIO. length (rq j)) + length xs =
        (\<Sum>j\<le>MAX_PRIO. length ((rq(k := xs)) j)) + length (rq k)"
    using k by (simp add: sum.remove [of "{..MAX_PRIO}" k])
  then have "of_nat (\<Sum>j\<le>MAX_PRIO. length (rq j)) + of_nat (length xs) =
        of_nat (\<Sum>j\<le>MAX_PRIO. length ((rq(k := xs)) j)) + (of_nat (length (rq k)) :: u32)"
    by (metis of_nat_add)
  then have "n_runnable_procs t = of_nat (\<Sum>j\<le>MAX_PRIO. length ((rq(k := xs)) j))"
    using rel count unfolding sched_rel_def by (metis add_right_cancel)
  then show ?thesis
    using others this_queue prios by (simp add: sched_rel_def)
qed

lemma change_state_dequeue:
  assumes rel: "sched_rel rq s" and p: "p < MAX_PROC"
    and run: "state (procs s p) = RUNNABLE" and new: "new \<noteq> RUNNABLE"
    and k: "k = nat (priority (procs s p))"
  shows "\<exists>t. change_state p new s = Some t \<and> sched_rel (rq(k := remove1 p (rq k))) t"
proof -
  have ok: "prio_ok (priority (procs s p))"
    using rel p run by (simp add: sched_rel_def)
  then have kk: "k \<le> MAX_PRIO" "priority (procs s p) = int k" "prio_index (priority (procs s p)) = Some k"
    using prio_okD [OF ok] prio_index_ok [OF ok] by (auto simp: k)
  note Q = sched_relD [OF rel kk(1)]
  have mem: "p \<in> set (rq k)"
    using p run kk by (simp add: Q(4))
  note R = Q(1) [unfolded sched_ring_def]
  obtain n v where n: "next_same_prio (procs s p) = Some n" "n \<in> set (rq k)"
    and v: "prev_same_prio (procs s p) = Some v" "v \<in> set (rq k)"
    using ring_links_in [OF R mem] by metis
  define s1 where "s1 = (if prio_proc s k = Some p
     then set_prio_proc k (if n = p then None else Some n) s else s)"
  define u where "u = set_prev_same_prio n (Some v) (set_next_same_prio v (Some n) s1)"
  define t where "t = set_state p new (u\<lparr>n_runnable_procs := n_runnable_procs u - 1,
     prio_proc_n := (prio_proc_n u)(k := prio_proc_n u k - 1)\<rparr>)"
  have code: "change_state p new s = Some t"
    using run new kk n v by (simp add: change_state_def t_def u_def s1_def)
  have s1: "procs s1 = procs s" "prio_proc_n s1 = prio_proc_n s" "n_runnable_procs s1 = n_runnable_procs s"
    and heads: "prio_proc s1 = (prio_proc s)(k := head_ptr (remove1 p (rq k)))"
    using ring_head_remove [OF R mem n(1)] Q(2) by (auto simp: s1_def fun_eq_iff)
  have ring_u: "sched_ring u (remove1 p (rq k))"
    using prio_ring.ring_remove [of s1, OF _ mem _ _ u_def] R n v by (simp add: sched_ring_def s1)
  have len: "length (rq k) = Suc (length (remove1 p (rq k)))"
    using mem length_pos_if_in_set [OF mem] by (simp add: length_remove1)
  have "queue_ok (remove1 p (rq k)) k t"
    using ring_u len new ring_distinct [OF R] Q(3) kk(2)
    by (auto simp: queue_ok_def sched_ring_def t_def u_def s1 heads Q(4) set_remove1_eq)
  moreover have "queue_ok (rq j) j t" if "j \<le> MAX_PRIO" "j \<noteq> k" for j
    using that n v
    by (intro sched_rel_other_queue [OF rel that kk(2) _ _ _ _ _ kk(1)])
       (auto simp: t_def u_def s1 heads)
  moreover have "prio_ok (priority (procs t q))" if "q < MAX_PROC" "state (procs t q) = RUNNABLE" for q
    using rel that new by (auto simp: sched_rel_def t_def u_def s1 split: if_splits)
  moreover have "n_runnable_procs t + of_nat (length (rq k)) =
      n_runnable_procs s + of_nat (length (remove1 p (rq k)))"
    by (simp add: t_def u_def s1 len)
  ultimately have "sched_rel (rq(k := remove1 p (rq k))) t"
    by (intro sched_rel_update [OF rel kk(1)])
  with code show ?thesis by blast
qed

lemma change_state_enqueue:
  assumes rel: "sched_rel rq s" and p: "p < MAX_PROC"
    and notrun: "state (procs s p) \<noteq> RUNNABLE" and ok: "prio_ok (priority (procs s p))"
    and k: "k = nat (priority (procs s p))"
  shows "\<exists>t. change_state p RUNNABLE s = Some t \<and> sched_rel (rq(k := p # rq k)) t"
proof -
  have kk: "k \<le> MAX_PRIO" "priority (procs s p) = int k" "prio_index (priority (procs s p)) = Some k"
    using prio_okD [OF ok] prio_index_ok [OF ok] by (auto simp: k)
  note Q = sched_relD [OF rel kk(1)]
  have notin: "p \<notin> set (rq k)"
    using notrun by (simp add: Q(4))
  note R = Q(1) [unfolded sched_ring_def]
  obtain u where u: "(case prio_proc s k of
        None \<Rightarrow> Some (set_prev_same_prio p (Some p) (set_next_same_prio p (Some p) s))
      | Some h \<Rightarrow> do { prev \<leftarrow> prev_same_prio (procs s h);
            Some (set_next_same_prio prev (Some p) (set_prev_same_prio h (Some p)
                   (set_prev_same_prio p (Some prev) (set_next_same_prio p (Some h) s)))) }) = Some u"
    and ring_u: "sched_ring u (p # rq k)"
    and same: "\<And>q. state (procs u q) = state (procs s q)" "\<And>q. priority (procs u q) = priority (procs s q)"
      "prio_proc u = prio_proc s" "prio_proc_n u = prio_proc_n s" "n_runnable_procs u = n_runnable_procs s"
    and links: "\<And>q. q \<noteq> p \<Longrightarrow> q \<notin> set (rq k) \<Longrightarrow>
       next_same_prio (procs u q) = next_same_prio (procs s q) \<and>
       prev_same_prio (procs u q) = prev_same_prio (procs s q)"
  proof (cases "rq k")
    case Nil
    with Q(2) show ?thesis
      using prio_ring.ring_insert_empty [of p s]
      by (intro that [of "set_prev_same_prio p (Some p) (set_next_same_prio p (Some p) s)"])
         (simp_all add: sched_ring_def)
  next
    case (Cons h zs)
    then have hin: "h \<in> set (rq k)" and hp: "head_ptr (rq k) = Some h" by simp_all
    obtain l where l: "prev_same_prio (procs s h) = Some l" "l \<in> set (rq k)"
      using ring_links_in [OF R hin] by metis
    then show ?thesis
      using Q(2) hp hin prio_ring.ring_insert [OF R hp notin l(1) refl]
      by (intro that [of "set_next_same_prio l (Some p) (set_prev_same_prio h (Some p)
             (set_prev_same_prio p (Some l) (set_next_same_prio p (Some h) s)))"])
         (auto simp: sched_ring_def)
  qed
  define t where "t = set_state p RUNNABLE ((set_prio_proc k (Some p) u)\<lparr>n_runnable_procs := n_runnable_procs u + 1,
     prio_proc_n := (prio_proc_n u)(k := prio_proc_n u k + 1)\<rparr>)"
  have code: "change_state p RUNNABLE s = Some t"
    using notrun kk u by (simp add: change_state_def t_def)
  have "queue_ok (p # rq k) k t"
    using ring_u p Q(3) kk(2)
    by (auto simp: queue_ok_def sched_ring_def t_def same Q(4))
  moreover have "queue_ok (rq j) j t" if "j \<le> MAX_PRIO" "j \<noteq> k" for j
    using that links
    by (intro sched_rel_other_queue [OF rel that kk(2) _ _ _ _ _ kk(1)])
       (auto simp: t_def same)
  moreover have "prio_ok (priority (procs t q))" if "q < MAX_PROC" "state (procs t q) = RUNNABLE" for q
    using rel that ok by (auto simp: sched_rel_def t_def same split: if_splits)
  moreover have "n_runnable_procs t + of_nat (length (rq k)) =
      n_runnable_procs s + of_nat (length (p # rq k))"
    by (simp add: t_def same)
  ultimately have "sched_rel (rq(k := p # rq k)) t"
    by (intro sched_rel_update [OF rel kk(1)])
  with code show ?thesis by blast
qed

lemma change_state_neutral:
  assumes "sched_rel rq s" and "(state (procs s p) = RUNNABLE) = (new = RUNNABLE)"
  shows "\<exists>t. change_state p new s = Some t \<and> sched_rel rq t"
proof -
  have "queue_ok (rq k) k (set_state p new s)" if "k \<le> MAX_PRIO" for k
  proof (rule queue_ok_cong [where s = s])
    show "queue_ok (rq k) k s"
      using assms(1) that by (simp add: sched_rel_def)
    show "priority (procs (set_state p new s) q) = int k \<and> state (procs (set_state p new s) q) = RUNNABLE \<longleftrightarrow>
          priority (procs s q) = int k \<and> state (procs s q) = RUNNABLE" for q
      using assms(2) by simp
  qed simp_all
  then have "sched_rel rq (set_state p new s)"
    using assms by (simp add: sched_rel_def)
  then show ?thesis
    using assms(2) by (auto simp: change_state_def)
qed

lemma change_state_rq:
  assumes "sched_rel rq s" and "p < MAX_PROC" and "new = RUNNABLE \<Longrightarrow> prio_ok (priority (procs s p))"
  shows "\<exists>t. change_state p new s = Some t \<and>
           sched_rel (rq_change p (nat (priority (procs s p))) (state (procs s p)) new rq) t"
  using assms change_state_dequeue [OF assms(1,2) _ _ refl] change_state_enqueue [OF assms(1,2) _ _ refl]
    change_state_neutral [OF assms(1), of p new]
  by (cases "state (procs s p) = RUNNABLE"; cases "new = RUNNABLE") (auto simp: rq_change_def)

text \<open>
  C18. \<open>change_state\<close> implements the abstract ready queues: from any state whose linked lists
  represent \<open>rq\<close>, it returns normally (no null link is followed, no array bound is passed) and
  the resulting lists, heads and counters represent \<open>rq\<close> with the process inserted in front of,
  or removed from, the queue of its priority, and unchanged when its runnability does not change.
\<close>

theorem change_state_refines:
  assumes "sched_rel rq s" and "p < MAX_PROC" and "new = RUNNABLE \<Longrightarrow> prio_ok (priority (procs s p))"
  shows "\<exists>t. change_state p new s = Some t \<and>
           sched_rel (rq_change p (nat (priority (procs s p))) (state (procs s p)) new rq) t"
  using assms by (rule change_state_rq)

theorem change_state_refines_witness:
  "sched_rel (\<lambda>_. []) \<lparr>curr_pid = 0, last_pid = 0, procs = (\<lambda>q. new_proc_descriptor q q 15 0),
       prio_proc_n = (\<lambda>_. 0), n_runnable_procs = 0, prio_proc = (\<lambda>_. None)\<rparr> \<and>
   (\<exists>t. change_state 1 RUNNABLE \<lparr>curr_pid = 0, last_pid = 0, procs = (\<lambda>q. new_proc_descriptor q q 15 0),
       prio_proc_n = (\<lambda>_. 0), n_runnable_procs = 0, prio_proc = (\<lambda>_. None)\<rparr> = Some t \<and>
     sched_rel ((\<lambda>_. [])(15 := [1])) t)"
proof -
  define s where "s = \<lparr>curr_pid = 0, last_pid = 0, procs = (\<lambda>q. new_proc_descriptor q q 15 0),
       prio_proc_n = (\<lambda>_. 0), n_runnable_procs = 0, prio_proc = (\<lambda>_. None)\<rparr>"
  have "sched_rel (\<lambda>_. []) s"
    by (simp add: s_def sched_rel_def queue_ok_def sched_ring_def new_proc_descriptor_def)
  then show ?thesis
    using change_state_refines [of "\<lambda>_. []" s 1 RUNNABLE]
    by (simp add: s_def [symmetric]) (simp add: s_def new_proc_descriptor_def prio_ok_def rq_change_def)
qed

end
