(* ===== verification/Process_Tree.thy ===== *)
theory Process_Tree
  imports Ready_Queue
begin

text \<open>
  The process tree. Every process from slot 2 on lies in a ring of siblings; the \<open>child\<close> pointer
  of a live process leads to the ring of its children, whose \<open>parent_pid\<close> names it. \<open>tree_on\<close>
  states this for the processes of a set \<open>L\<close> and names the lists of children; \<open>add_child\<close> and
  \<open>remove_child\<close> are shown to be insertion in front of and removal from those lists. A process
  whose parent has exited keeps its ring, which no live process points to any more.
\<close>

section \<open>Sibling rings\<close>

definition sring :: "system_state \<Rightarrow> nat list \<Rightarrow> bool" where
  "sring s = ring (\<lambda>p. next_sibling (procs s p)) (\<lambda>p. prev_sibling (procs s p))"

definition user_proc :: "system_state \<Rightarrow> nat \<Rightarrow> bool" where
  "user_proc s q \<longleftrightarrow> 2 \<le> q \<and> q < MAX_PROC \<and> state (procs s q) \<noteq> FREE"

definition live :: "system_state \<Rightarrow> nat \<Rightarrow> bool" where
  "live s p \<longleftrightarrow> p < MAX_PROC \<and> state (procs s p) \<noteq> FREE \<and> state (procs s p) \<noteq> ZOMBIE"

definition kids :: "system_state \<Rightarrow> nat \<Rightarrow> nat list \<Rightarrow> bool" where
  "kids s p xs \<longleftrightarrow> sring s xs \<and> child (procs s p) = head_ptr xs \<and>
     (\<forall>q\<in>set xs. user_proc s q \<and> parent_pid (procs s q) = p)"

definition tree_on :: "nat set \<Rightarrow> (nat \<Rightarrow> nat list) \<Rightarrow> system_state \<Rightarrow> bool" where
  "tree_on L K s \<longleftrightarrow>
     (\<forall>c. user_proc s c \<longrightarrow> (\<exists>xs. sring s (c # xs) \<and> (\<forall>q\<in>set xs. user_proc s q))) \<and>
     (\<forall>p\<in>L. kids s p (K p)) \<and>
     (\<forall>c. user_proc s c \<longrightarrow> parent_pid (procs s c) < MAX_PROC)"

lemma tree_onD:
  assumes "tree_on L K s"
  shows "user_proc s c \<Longrightarrow> \<exists>xs. sring s (c # xs) \<and> (\<forall>q\<in>set xs. user_proc s q)"
    and "p \<in> L \<Longrightarrow> kids s p (K p)"
    and "user_proc s c \<Longrightarrow> parent_pid (procs s c) < MAX_PROC"
  using assms unfolding tree_on_def by blast+

lemma sring_length:
  assumes "sring s xs" and "\<forall>q\<in>set xs. user_proc s q"
  shows "length xs \<le> 30"
proof -
  have "distinct xs" using assms(1) by (simp add: sring_def ring_distinct)
  then have "length xs = card (set xs)" by (simp add: distinct_card)
  also have "\<dots> \<le> card {2..<MAX_PROC}"
    using assms(2) by (intro card_mono) (auto simp: user_proc_def)
  finally show ?thesis by simp
qed

lemma children_walk_ring:
  assumes "successively (linked (\<lambda>p. next_sibling (procs s p)) (\<lambda>p. prev_sibling (procs s p))) (c # bs @ [h])"
    and "h \<notin> set bs" and "length bs < fuel"
  shows "children_walk fuel s h c = Some (Suc (length bs))"
  using assms
proof (induction bs arbitrary: c fuel)
  case Nil
  then show ?case by (cases fuel) (auto simp: linked_def)
next
  case (Cons b bs)
  then obtain n where "fuel = Suc n" by (cases fuel) auto
  with Cons show ?case by (auto simp: linked_def)
qed

lemma kids_length: "kids s p xs \<Longrightarrow> length xs \<le> 30"
  by (rule sring_length) (auto simp: kids_def)

lemma print_children_kids:
  assumes "kids s p xs"
  shows "print_children p s = Some (length xs)"
proof (cases xs)
  case (Cons h ys)
  with assms have r: "sring s (h # ys)" by (simp add: kids_def)
  have "children_walk MAX_PROC s h h = Some (Suc (length ys))"
    using r kids_length [OF assms] Cons
    by (intro children_walk_ring ring_chain) (auto simp: sring_def dest: ring_distinct)
  with Cons assms show ?thesis by (simp add: print_children_def kids_def)
qed (use assms in \<open>simp add: print_children_def kids_def\<close>)

lemma sring_cong:
  assumes "\<And>q. q \<in> set xs \<Longrightarrow> next_sibling (procs t q) = next_sibling (procs s q) \<and>
       prev_sibling (procs t q) = prev_sibling (procs s q)"
  shows "sring t xs = sring s xs"
  unfolding sring_def by (rule ring_frame) (use assms in auto)

lemma tree_on_cong:
  assumes "tree_on L K s" and "L' \<subseteq> L"
    and "\<And>q. next_sibling (procs t q) = next_sibling (procs s q)"
    and "\<And>q. prev_sibling (procs t q) = prev_sibling (procs s q)"
    and "\<And>q. user_proc t q = user_proc s q"
    and "\<And>q. parent_pid (procs t q) = parent_pid (procs s q)"
    and "\<And>q. q \<in> L' \<Longrightarrow> child (procs t q) = child (procs s q)"
  shows "tree_on L' K t"
proof -
  have "sring t = sring s" using assms(3,4) by (simp add: sring_def)
  then show ?thesis
    using assms(1,2,7) unfolding tree_on_def kids_def assms(3-6) by fastforce
qed

text \<open>Removal of one element from the family of rings.\<close>

lemma sring_remove:
  assumes s: "sring s (c # cs)" and "sring s xs"
    and n: "next_sibling (procs s c) = Some n" and v: "prev_sibling (procs s c) = Some v"
    and t: "\<And>q. next_sibling (procs t q) = (if q = v then Some n else next_sibling (procs s q))"
      "\<And>q. prev_sibling (procs t q) = (if q = n then Some v else prev_sibling (procs s q))"
  shows "sring t (remove1 c xs)"
proof (cases "c \<in> set xs")
  case True
  define u where "u = set_prev_sibling n (Some v) (set_next_sibling v (Some n) s)"
  have "sring u (remove1 c xs)"
    using sibling_ring.ring_remove [of s xs c n v u] assms(2) True n v by (simp add: sring_def u_def)
  moreover have "sring t (remove1 c xs) = sring u (remove1 c xs)"
    by (rule sring_cong) (auto simp: t u_def kernel_defs)
  ultimately show ?thesis by simp
next
  case False
  have "n \<in> set (c # cs)" "v \<in> set (c # cs)"
    using ring_links_in [OF s [unfolded sring_def], of c] n v by auto
  then have "n \<notin> set xs" "v \<notin> set xs"
    using False ring_disjoint [OF s [unfolded sring_def] assms(2) [unfolded sring_def]] by auto
  then have "sring t xs = sring s xs"
    by (intro sring_cong) (auto simp: t)
  with False assms(2) show ?thesis by (simp add: remove1_idem)
qed

lemma tree_on_remove:
  assumes tree: "tree_on L K s" and c: "user_proc s c" and par: "parent_pid (procs s c) = parent"
    and n: "next_sibling (procs s c) = Some n" and v: "prev_sibling (procs s c) = Some v"
    and t: "\<And>q. next_sibling (procs t q) = (if q = v then Some n else next_sibling (procs s q))"
      "\<And>q. prev_sibling (procs t q) = (if q = n then Some v else prev_sibling (procs s q))"
      "\<And>q. user_proc t q = (user_proc s q \<and> q \<noteq> c)"
      "\<And>q. parent_pid (procs t q) = parent_pid (procs s q)"
      "\<And>q. q \<noteq> parent \<Longrightarrow> child (procs t q) = child (procs s q)"
      "child (procs t parent) = (if child (procs s parent) = Some c
          then if n = c then None else Some n else child (procs s parent))"
  shows "tree_on L (K(parent := remove1 c (K parent))) t"
proof -
  obtain cs where cs: "sring s (c # cs)"
    using tree_onD(1) [OF tree c] by auto
  note rem = sring_remove [OF cs _ n v t(1,2)]
  have "kids t p ((K(parent := remove1 c (K parent))) p)" if p: "p \<in> L" for p
  proof (cases "c \<in> set (K p)")
    case True
    have k: "kids s p (K p)" and r: "sring s (K p)"
      using tree_onD(2) [OF tree p] by (auto simp: kids_def)
    have pp: "p = parent" using True k par by (auto simp: kids_def)
    have "child (procs t p) = head_ptr (remove1 c (K p))"
      using ring_head_remove [OF r [unfolded sring_def] True, of n] n k pp
      by (simp add: kids_def t(6))
    moreover have "q \<in> set (remove1 c (K p)) \<Longrightarrow> q \<in> set (K p) \<and> q \<noteq> c" for q
      using ring_distinct [OF r [unfolded sring_def]] by (auto simp: set_remove1_eq)
    ultimately show ?thesis
      using rem [OF r] k unfolding kids_def t(3,4) pp fun_upd_same by blast
  next
    case False
    have k: "kids s p (K p)" and r: "sring s (K p)"
      using tree_onD(2) [OF tree p] by (auto simp: kids_def)
    have "child (procs s p) \<noteq> Some c" using k False by (cases "K p") (auto simp: kids_def)
    then have "child (procs t p) = child (procs s p)" by (cases "p = parent") (simp_all add: t(5,6))
    then show ?thesis
      using rem [OF r] k False unfolding kids_def t(3,4) by (auto simp: remove1_idem)
  qed
  moreover have "\<exists>xs. sring t (d # xs) \<and> (\<forall>q\<in>set xs. user_proc t q)" if "user_proc t d" for d
  proof -
    from that t(3) have d: "user_proc s d" "d \<noteq> c" by auto
    from tree_onD(1) [OF tree d(1)] obtain xs where xs: "sring s (d # xs)" "\<forall>q\<in>set xs. user_proc s q"
      by auto
    from rem [OF xs(1)] d(2) have "sring t (d # remove1 c xs)" by simp
    moreover have "distinct xs" using xs(1) by (auto simp: sring_def dest: ring_distinct)
    ultimately show ?thesis
      using xs(2) by (auto simp: set_remove1_eq t(3) intro!: exI [of _ "remove1 c xs"])
  qed
  moreover have "parent_pid (procs t d) < MAX_PROC" if "user_proc t d" for d
    using tree_onD(3) [OF tree, of d] that by (simp add: t)
  ultimately show ?thesis
    unfolding tree_on_def by blast
qed

section \<open>Insertion\<close>

lemma sring_insert:
  assumes k: "kids s p xs" and c: "\<not> user_proc s c"
    and code: "add_child p c s = Some t"
  shows "sring t (c # xs)" and "\<lbrakk>sring s ys; \<forall>q\<in>set ys. user_proc s q; set ys \<inter> set xs = {}\<rbrakk> \<Longrightarrow> sring t ys"
proof -
  from k c have cx: "c \<notin> set xs" and r: "sring s xs" by (auto simp: kids_def)
  have "sring t (c # xs) \<and> (\<forall>q. q \<noteq> c \<and> q \<notin> set xs \<longrightarrow>
      next_sibling (procs t q) = next_sibling (procs s q) \<and>
      prev_sibling (procs t q) = prev_sibling (procs s q))"
  proof (cases xs)
    case Nil
    then show ?thesis
      using k code by (auto simp: kids_def add_child_def sring_def ring_singleton kernel_defs)
  next
    case (Cons h zs)
    with k have h: "child (procs s p) = Some h" by (simp add: kids_def)
    obtain l where l: "prev_sibling (procs s h) = Some l" "l \<in> set xs"
      using ring_links_in [OF r [unfolded sring_def], of h] Cons by (metis list.set_intros(1))
    define u where "u = set_next_sibling l (Some c) (set_prev_sibling h (Some c)
        (set_prev_sibling c (Some l) (set_next_sibling c (Some h) s)))"
    have t: "t = set_child p (Some c) u"
      using code h l by (simp add: add_child_def u_def)
    have "sring u (c # xs)"
      using sibling_ring.ring_insert [OF r [unfolded sring_def] _ cx l(1) u_def] Cons
      by (simp add: sring_def)
    moreover have "sring t (c # xs) = sring u (c # xs)"
      by (rule sring_cong) (simp add: t kernel_defs)
    moreover have "next_sibling (procs t q) = next_sibling (procs s q) \<and>
        prev_sibling (procs t q) = prev_sibling (procs s q)" if "q \<noteq> c" "q \<notin> set xs" for q
      using that l(2) Cons by (auto simp: t u_def kernel_defs)
    ultimately show ?thesis by blast
  qed
  then show "sring t (c # xs)"
    and "\<lbrakk>sring s ys; \<forall>q\<in>set ys. user_proc s q; set ys \<inter> set xs = {}\<rbrakk> \<Longrightarrow> sring t ys"
    using c by (simp, subst sring_cong [of ys t s]) auto
qed

lemma add_child_total:
  assumes "kids s p xs"
  shows "\<exists>t. add_child p c s = Some t"
proof (cases xs)
  case (Cons h zs)
  with assms obtain l where "prev_sibling (procs s h) = Some l"
    by (auto simp: kids_def sring_def elim: ring_links_in [where x = h])
  with assms Cons show ?thesis
    by (auto simp: kids_def add_child_def)
qed (use assms in \<open>simp add: kids_def add_child_def\<close>)

lemma add_child_fields:
  assumes "add_child p c s = Some t"
  shows "child (procs t q) = (if q = p then Some c else child (procs s q))"
    and "state (procs t q) = state (procs s q)" and "parent_pid (procs t q) = parent_pid (procs s q)"
    and "last_pid t = last_pid s" and "curr_pid t = curr_pid s"
    and "pid (procs t q) = pid (procs s q)"
  using assms by (auto simp: add_child_def bind_eq_Some_conv kernel_defs split: option.splits)

text \<open>
  A new child: the slot \<open>c\<close> was not in use, \<open>add_child\<close> links it in, and only then does its state
  change. \<open>t\<close> is any state with the links that \<open>add_child\<close> leaves.
\<close>

lemma tree_on_insert:
  assumes tree: "tree_on L K s" and p: "p \<in> L" "p < MAX_PROC" and c: "\<not> user_proc s c" "2 \<le> c" "c < MAX_PROC" "c \<notin> L"
    and par: "parent_pid (procs s c) = p" and code: "add_child p c s = Some u"
    and t: "\<And>q. next_sibling (procs t q) = next_sibling (procs u q)"
      "\<And>q. prev_sibling (procs t q) = prev_sibling (procs u q)"
      "\<And>q. child (procs t q) = child (procs u q)"
      "\<And>q. parent_pid (procs t q) = parent_pid (procs u q)"
      "\<And>q. user_proc t q \<longleftrightarrow> user_proc s q \<or> q = c"
    and cc: "child (procs s c) = None"
  shows "tree_on (insert c L) (K(p := c # K p, c := [])) t"
proof -
  have pc: "p \<noteq> c" using p c by auto
  have tu: "sring t = sring u" by (simp add: sring_def t(1,2))
  note fields = add_child_fields [OF code]
  define xs where "xs = K p"
  have xs: "kids s p xs" using tree_onD(2) [OF tree p(1)] by (simp add: xs_def)
  then have r: "sring s xs" by (simp add: kids_def)
  note new = sring_insert(1) [OF xs c(1) code] and old = sring_insert(2) [OF xs c(1) code]
  have kp: "kids t p (c # xs)"
    using new xs par by (auto simp: kids_def tu t fields)
  have kq: "kids t q ((K(p := c # K p, c := [])) q)" if q: "q \<in> insert c L" for q
  proof (cases "q = p \<or> q = c")
    case True
    moreover have "kids t c []"
      using cc pc by (simp add: kids_def t fields sring_def)
    ultimately show ?thesis
      using kp pc by (auto simp: xs_def)
  next
    case False
    with q have ys: "kids s q (K q)" using tree_onD(2) [OF tree, of q] by auto
    have "set (K q) \<inter> set xs = {}" using xs ys False by (auto simp: kids_def)
    then have "sring u (K q)" using old [of "K q"] ys by (auto simp: kids_def)
    then show ?thesis using ys False by (auto simp: kids_def tu t fields)
  qed
  have rings: "\<exists>ys. sring t (d # ys) \<and> (\<forall>q\<in>set ys. user_proc t q)" if d: "user_proc t d" for d
  proof (cases "d \<in> set (c # xs)")
    case True
    from kp have "sring t (c # xs)" "\<forall>q\<in>set (c # xs). user_proc t q" by (auto simp: kids_def)
    then show ?thesis
      using ring_to_front [OF _ True] unfolding sring_def
      by (metis Un_iff list.set_intros(2) set_append)
  next
    case False
    with d t(5) have "user_proc s d" by auto
    with tree_onD(1) [OF tree] obtain ys where ys: "sring s (d # ys)" "\<forall>q\<in>set ys. user_proc s q" by blast
    have "set (d # ys) \<inter> set xs = {}"
    proof (rule ccontr)
      assume "\<not> ?thesis"
      then obtain q where "q \<in> set (d # ys)" "q \<in> set xs" by auto
      from ring_disjoint [OF ys(1) [unfolded sring_def] r [unfolded sring_def] this] False show False
        by auto
    qed
    then have "sring u (d # ys)" using old [of "d # ys"] ys \<open>user_proc s d\<close> by auto
    then show ?thesis using ys(2) t(5) tu by auto
  qed
  have "parent_pid (procs t d) < MAX_PROC" if "user_proc t d" for d
    using that t(5) tree_onD(3) [OF tree, of d] par p(2) by (auto simp: t(4) fields)
  then show ?thesis
    using kq rings unfolding tree_on_def by blast
qed

end
