(* ===== verification/Syscalls.thy ===== *)
theory Syscalls
  imports Process_Tree
begin

text \<open>
  The system calls of \<^verbatim>\<open>src/src/proc/proc.c\<close> that work on the process table alone: \<open>exit\<close>, \<open>wait\<close>,
  and the rendezvous channels (\<open>send\<close>, \<open>receive\<close>, \<open>acknowledge\<close>). Each handler works for the
  process \<open>last_pid\<close>, whose registers hold the arguments; results are written to saved registers
  and to the message buffers of the descriptors. \<open>fork\<close>, which also builds an address space, is
  in the theory \<open>Kernel_State\<close>.
\<close>

section \<open>Buffers\<close>

text \<open>\<open>memmove\<close> of \<open>n\<close> bytes between two distinct buffers.\<close>

definition buf_move :: "(nat \<Rightarrow> u8) \<Rightarrow> (nat \<Rightarrow> u8) \<Rightarrow> u64 \<Rightarrow> nat \<Rightarrow> u8" where
  "buf_move dst src n = (\<lambda>i. if i < unat n then src i else dst i)"

text \<open>
  The 16 bytes of an \<open>err_t\<close>: the 32-bit number, four bytes of padding (taken as zero, no reader
  looks at them), the 64-bit datum, all little endian.
\<close>

definition err_bytes :: "err_t \<Rightarrow> nat \<Rightarrow> u8" where
  "err_bytes e i =
     (if i < 4 then ucast (drop_bit (8 * i) (err_no e))
      else if i < 8 then 0
      else ucast (drop_bit (8 * (i - 8)) (err_data e)))"

abbreviation (input) sizeof_err_t :: u64 where "sizeof_err_t \<equiv> 16"

definition upd_buffer :: "nat \<Rightarrow> (buffer_t \<Rightarrow> buffer_t) \<Rightarrow> system_state \<Rightarrow> system_state" where
  [kernel_defs]: "upd_buffer p f = proc_upd p (buffer_update f)"

definition upd_sender :: "nat \<Rightarrow> (sender_data_t \<Rightarrow> sender_data_t) \<Rightarrow> system_state \<Rightarrow> system_state" where
  [kernel_defs]: "upd_sender p f = proc_upd p (sender_data_update f)"

definition upd_receiver :: "nat \<Rightarrow> (receiver_data_t \<Rightarrow> receiver_data_t) \<Rightarrow> system_state \<Rightarrow> system_state" where
  [kernel_defs]: "upd_receiver p f = proc_upd p (receiver_data_update f)"

section \<open>wait and exit\<close>

definition handle_zombie_child :: "nat \<Rightarrow> nat \<Rightarrow> system_state \<Rightarrow> system_state option" where
  "handle_zombie_child parent c s =
     (let ret_status_addr = reg s parent 0;
          s1 = set_reg0 parent (of_nat (pid (procs s c))) s;
          s2 = (if ret_status_addr \<noteq> 0
                then upd_buffer parent (\<lambda>b. b\<lparr>write_addr := ret_status_addr,
                       buff := buf_move (buff b) (err_bytes (proc_err (procs s1 c))) sizeof_err_t,
                       used_size := sizeof_err_t\<rparr>) s1
                else s1)
      in do { s3 \<leftarrow> remove_child parent c s2;
              s4 \<leftarrow> change_state c FREE s3;
              change_state parent RUNNABLE s4 })"

text \<open>The \<open>do\<close> loop of \<open>syscall_wait\<close>: the next sibling, until a zombie or the end of the ring.\<close>

fun wait_walk :: "nat \<Rightarrow> system_state \<Rightarrow> nat \<Rightarrow> nat \<Rightarrow> nat option" where
  "wait_walk 0 s h c = None"
| "wait_walk (Suc fuel) s h c =
     do { n \<leftarrow> next_sibling (procs s c);
          if state (procs s n) \<noteq> ZOMBIE \<and> next_sibling (procs s n) \<noteq> Some h
          then wait_walk fuel s h n else Some n }"

definition syscall_wait :: "system_state \<Rightarrow> system_state option" where
  "syscall_wait s =
     (let parent = last_pid s in
      do { print_children parent s;
           case child (procs s parent) of
             None \<Rightarrow> Some (syscall_fail parent NO_CHILD s)
           | Some h \<Rightarrow>
               if state (procs s h) = ZOMBIE then handle_zombie_child parent h s
               else do { c \<leftarrow> wait_walk MAX_PROC s h h;
                         if state (procs s c) = ZOMBIE then handle_zombie_child parent c s
                         else change_state parent WAITING s } })"

text \<open>The loop of \<open>syscall_exit\<close> that gives the children of the process to \<open>init\<close>.\<close>

fun reparent_walk :: "nat \<Rightarrow> nat \<Rightarrow> nat \<Rightarrow> system_state \<Rightarrow> system_state option" where
  "reparent_walk 0 h c s = None"
| "reparent_walk (Suc fuel) h c s =
     (let s1 = proc_upd c (parent_pid_update (\<lambda>_. 1)) s in
      do { n \<leftarrow> next_sibling (procs s1 c);
           if n = h then Some s1 else reparent_walk fuel h n s1 })"

definition syscall_exit :: "system_state \<Rightarrow> system_state option" where
  "syscall_exit s =
     (let p = last_pid s;
          s1 = proc_upd p (proc_err_update (\<lambda>_. \<lparr>err_no = ucast (reg s p 0), err_data = reg s p 1\<rparr>)) s
      in do { s2 \<leftarrow> (case child (procs s1 p) of
                        None \<Rightarrow> Some s1 | Some h \<Rightarrow> reparent_walk MAX_PROC h h s1);
              let parent = parent_pid (procs s2 p);
              if state (procs s2 parent) = WAITING then handle_zombie_child parent p s2
              else change_state p ZOMBIE s2 })"

section \<open>Channels\<close>

definition handle_channel_connection :: "nat \<Rightarrow> nat \<Rightarrow> system_state \<Rightarrow> system_state option" where
  "handle_channel_connection sender receiver s =
     (if receive_size (receiver_data (procs s receiver)) < send_size (sender_data (procs s sender))
      then Some (syscall_fail sender SEND_DATA_TOO_LARGE s)
      else
        let s1 = upd_sender sender (\<lambda>d. d\<lparr>acknowledged := False\<rparr>) s in
        do { assert (used_size (buffer (procs s1 sender)) \<le> BUFF_SIZE);
             assert (used_size (buffer (procs s1 sender))
                       \<le> receive_size (receiver_data (procs s1 receiver)));
             let n = used_size (buffer (procs s1 sender));
             let s2 = upd_buffer receiver (\<lambda>b. b\<lparr>used_size := n,
                        write_addr := receive_data (receiver_data (procs s1 receiver))\<rparr>) s1;
             let s3 = upd_buffer receiver (\<lambda>b. b\<lparr>buff :=
                        buf_move (buff b) (buff (buffer (procs s2 sender)))
                                 (used_size (buffer (procs s2 sender)))\<rparr>) s2;
             let s4 = upd_buffer sender (\<lambda>b. b\<lparr>used_size := 0\<rparr>) s3;
             let s5 = upd_receiver receiver (\<lambda>d. d\<lparr>source_pid := pid (procs s4 sender)\<rparr>) s4;
             let s6 = set_reg0 receiver (of_nat (pid (procs s5 sender))) s5;
             s7 \<leftarrow> change_state sender SENDING_CH s6;
             change_state receiver RUNNABLE s7 })"

definition syscall_send :: "system_state \<Rightarrow> system_state option" where
  "syscall_send s =
     (let p = last_pid s;
          target = int_of_u64 (reg s p 0);
          wait_for_listen = (reg s p 5 \<noteq> 0);
          size = reg s p 2
      in if target < 0 \<or> target \<ge> int MAX_PROC then Some (syscall_fail p INVALID_PID s)
         else if state (procs s (nat target)) \<noteq> LISTENING_CH \<and> \<not> wait_for_listen
         then Some (syscall_fail p TARGET_NOT_LISTENING s)
         else if size > BUFF_SIZE then Some (syscall_fail p SEND_DATA_TOO_LARGE s)
         else
           let s1 = upd_sender p (\<lambda>d. d\<lparr>target_pid := int_of_u64 (reg s p 0), send_size := reg s p 2,
                                        ack_data := reg s p 3, ack_size := reg s p 4\<rparr>) s
           in if state (procs s1 (nat target)) = LISTENING_CH
              then handle_channel_connection p (nat target) s1
              else change_state p WAIT_LISTENER s1)"

definition waiting_sender :: "system_state \<Rightarrow> nat \<Rightarrow> nat option" where
  "waiting_sender s receiver =
     List.find (\<lambda>i. state (procs s i) = WAIT_LISTENER \<and>
                    target_pid (sender_data (procs s i)) = int (pid (procs s receiver))) [0..<MAX_PROC]"

definition syscall_receive :: "system_state \<Rightarrow> system_state option" where
  "syscall_receive s =
     (let p = last_pid s;
          s1 = upd_receiver p (\<lambda>d. d\<lparr>receive_data := reg s p 0, receive_size := reg s p 1\<rparr>) s
      in do { s2 \<leftarrow> change_state p LISTENING_CH s1;
              case waiting_sender s2 p of
                None \<Rightarrow> Some s2
              | Some i \<Rightarrow> handle_channel_connection i p s2 })"

definition handle_channel_ack :: "nat \<Rightarrow> nat \<Rightarrow> system_state \<Rightarrow> system_state option" where
  "handle_channel_ack receiver sender s =
     (if acknowledged (sender_data (procs s sender)) \<or> state (procs s sender) \<noteq> SENDING_CH
      then Some (syscall_fail receiver SOURCE_ALREADY_ACKNOWLEDGED s)
      else
        do { assert (target_pid (sender_data (procs s sender)) = int (pid (procs s receiver)));
             let s1 = set_reg0 receiver 0 s;
             assert (used_size (buffer (procs s1 receiver)) \<le> BUFF_SIZE);
             let n = (if ack_size (sender_data (procs s1 sender)) < used_size (buffer (procs s1 receiver))
                      then ack_size (sender_data (procs s1 sender))
                      else used_size (buffer (procs s1 receiver)));
             let s2 = upd_buffer sender (\<lambda>b. b\<lparr>used_size := n\<rparr>) s1;
             let s3 = upd_buffer sender (\<lambda>b. b\<lparr>buff :=
                        buf_move (buff b) (buff (buffer (procs s2 receiver)))
                                 (used_size (buffer (procs s2 sender)))\<rparr>) s2;
             let s4 = upd_buffer sender (\<lambda>b. b\<lparr>write_addr := ack_data (sender_data (procs s3 sender))\<rparr>) s3;
             let s5 = upd_buffer receiver (\<lambda>b. b\<lparr>used_size := 0\<rparr>) s4;
             let s6 = set_reg0 sender (word_of_int (return_code (receiver_data (procs s5 receiver)))) s5;
             change_state sender RUNNABLE s6 })"

definition syscall_acknowledge :: "system_state \<Rightarrow> system_state option" where
  "syscall_acknowledge s =
     (let p = last_pid s;
          size = reg s p 2
      in if size > BUFF_SIZE then Some (syscall_fail p SEND_DATA_TOO_LARGE s)
         else
           let s1 = upd_receiver p (\<lambda>d. d\<lparr>return_code := int_of_u64 (reg s p 0)\<rparr>) s
           in handle_channel_ack p (source_pid (receiver_data (procs s1 p))) s1)"

end
