(* ===== verification/Mmu_Tables.thy ===== *)
theory Mmu_Tables
  imports Prelude
begin

text \<open>
  Translation tables of \<^verbatim>\<open>src/src/memory/mmu.c\<close>: the state of the memory management code, the
  entries of the tables, the table walk and \<open>bind_address\<close>.

  Physical memory is split by the type of the accesses the code makes to it: 64-bit words (the
  translation tables, macro \<open>AT\<close>), 32-bit words (the map of free pages), bytes (the bind counters)
  and whole page frames (the contents of user pages). The linker script puts tables, map and
  counters into disjoint regions, so that no access of one kind meets one of another. The TLB and
  the caches are not part of the state: their maintenance instructions do nothing here.
\<close>

section \<open>State\<close>

abbreviation (input) GRANULE :: u64 where "GRANULE \<equiv> 0x1000"
abbreviation (input) N_TABLE_ENTRIES :: u64 where "N_TABLE_ENTRIES \<equiv> 512"
abbreviation (input) RAM_SIZE :: u64 where "RAM_SIZE \<equiv> 1073741824"
abbreviation (input) GPIO_BASE :: u64 where "GPIO_BASE \<equiv> 0x3F200000"
abbreviation (input) TIMER_IRQ_PAGE :: u64 where "TIMER_IRQ_PAGE \<equiv> 0x3f00b000"

text \<open>Bits of \<open>enum block_perm_config\<close> and of \<open>enum block_cache_config\<close>.\<close>

abbreviation (input) ACCESS_FLAG_SET :: u64 where "ACCESS_FLAG_SET \<equiv> 0b10000"
abbreviation (input) KERNEL_PAGE :: u64 where "KERNEL_PAGE \<equiv> 0b00000"
abbreviation (input) USER_PAGE :: u64 where "USER_PAGE \<equiv> 0b00001"
abbreviation (input) CODE_PAGE :: u64 where "CODE_PAGE \<equiv> 0b00011"
abbreviation (input) FORKED_PAGE :: u64 where "FORKED_PAGE \<equiv> 0b00011"
abbreviation (input) IO_PAGE :: u64 where "IO_PAGE \<equiv> 0b01001"
abbreviation (input) DATA_PAGE :: u64 where "DATA_PAGE \<equiv> 0b01001"
abbreviation (input) DEVICE :: u64 where "DEVICE \<equiv> 0"
abbreviation (input) NORMAL_WT_NT :: u64 where "NORMAL_WT_NT \<equiv> 1"

record block_attributes_sg1 =
  UXN :: u64
  PXN :: u64
  ContinuousBit :: u64
  DirtyBit :: u64
  NotGlobal :: u64
  AccessFlag :: u64
  Shareability :: u64
  AccessPermission :: u64
  NonSecure :: u64
  AttrIndex :: u64

record table_attributes_sg1 =
  NSTable :: u64
  APTable :: u64
  UXNTable :: u64
  PXNTable :: u64

record physical_memory_map_t =
  pm_map :: u64
  pm_head :: u32
  pm_size :: u32
  bind_counter_offset :: u64
  bind_counter :: u64

record mmu_state =
  mem64 :: "u64 \<Rightarrow> u64"
  mem32 :: "u64 \<Rightarrow> u32"
  mem8 :: "u64 \<Rightarrow> u8"
  frame :: "u64 \<Rightarrow> nat \<Rightarrow> u8"
  lvl2_table_address :: u64
  id_paging_size :: u64
  physical_memory_map :: physical_memory_map_t
  TTBR0_EL1 :: u64
  MAIR_EL1 :: u64
  TCR_EL1 :: u64

definition AT :: "mmu_state \<Rightarrow> u64 \<Rightarrow> u64" where
  "AT m a = mem64 m a"

definition AT_store :: "u64 \<Rightarrow> u64 \<Rightarrow> mmu_state \<Rightarrow> mmu_state" where
  "AT_store a v m = m\<lparr>mem64 := (mem64 m)(a := v)\<rparr>"

section \<open>Entries\<close>

definition new_block_attributes_sg1 :: "u64 \<Rightarrow> u64 \<Rightarrow> block_attributes_sg1" where
  "new_block_attributes_sg1 perm_config cache_config =
     \<lparr>UXN = drop_bit 3 perm_config AND 1,
      PXN = drop_bit 2 perm_config AND 1,
      ContinuousBit = 0, DirtyBit = 0,
      NotGlobal = (if perm_config AND MASK 3 0 = KERNEL_PAGE \<or> perm_config AND MASK 3 0 = IO_PAGE then 0 else 1),
      AccessFlag = drop_bit 4 perm_config AND 1,
      Shareability = 0,
      AccessPermission = perm_config AND 0b11,
      NonSecure = 1,
      AttrIndex = cache_config\<rparr>"

definition attribute_bits :: "block_attributes_sg1 \<Rightarrow> u64" where
  "attribute_bits bas1 =
     push_bit 54 (UXN bas1 AND 1) OR push_bit 53 (PXN bas1 AND 1) OR
     push_bit 52 (ContinuousBit bas1 AND 1) OR push_bit 51 (DirtyBit bas1 AND 1) OR
     push_bit 11 (NotGlobal bas1 AND 1) OR push_bit 10 (AccessFlag bas1 AND 1) OR
     push_bit 8 (Shareability bas1 AND 3) OR push_bit 6 (AccessPermission bas1 AND 3) OR
     push_bit 5 (NonSecure bas1 AND 1) OR push_bit 2 (AttrIndex bas1 AND 1) OR 3"

definition set_block_and_page_attributes_sg1 :: "u64 \<Rightarrow> block_attributes_sg1 \<Rightarrow> mmu_state \<Rightarrow> mmu_state" where
  "set_block_and_page_attributes_sg1 a bas1 m =
     AT_store a ((AT m a AND MASK 47 12) OR attribute_bits bas1) m"

definition init_block_and_page_entry_sg1 :: "u64 \<Rightarrow> u64 \<Rightarrow> block_attributes_sg1 \<Rightarrow> mmu_state \<Rightarrow> mmu_state" where
  "init_block_and_page_entry_sg1 entry_addr inner_addr ba m =
     set_block_and_page_attributes_sg1 entry_addr ba
       (AT_store entry_addr ((AT m entry_addr AND (MASK 63 48 OR MASK 11 0)) OR (inner_addr AND MASK 35 0)) m)"

definition set_entry_dirty_bit :: "u64 \<Rightarrow> mmu_state \<Rightarrow> mmu_state" where
  "set_entry_dirty_bit a m = AT_store a (AT m a OR push_bit 51 1) m"

definition set_entry_access_flag :: "u64 \<Rightarrow> mmu_state \<Rightarrow> mmu_state" where
  "set_entry_access_flag a m = AT_store a (AT m a OR push_bit 10 1) m"

definition clear_entry_access_flag :: "u64 \<Rightarrow> mmu_state \<Rightarrow> mmu_state" where
  "clear_entry_access_flag a m = AT_store a (AT m a AND NOT (push_bit 10 1)) m"

definition set_invalid_entry :: "u64 \<Rightarrow> mmu_state \<Rightarrow> mmu_state" where
  "set_invalid_entry a m = AT_store a (AT m a AND MASK 63 1) m"

definition set_identifier_table_entry :: "u64 \<Rightarrow> mmu_state \<Rightarrow> mmu_state" where
  "set_identifier_table_entry a m = AT_store a (AT m a OR 0b11) m"

definition new_table_attributes_sg1 :: table_attributes_sg1 where
  "new_table_attributes_sg1 = \<lparr>NSTable = 1, APTable = 0, UXNTable = 0, PXNTable = 0\<rparr>"

definition set_table_attributes_sg1 :: "u64 \<Rightarrow> table_attributes_sg1 \<Rightarrow> mmu_state \<Rightarrow> mmu_state" where
  "set_table_attributes_sg1 a ta1 m =
     AT_store a ((AT m a AND MASK 58 0) OR push_bit 63 (NSTable ta1 AND 1) OR push_bit 61 (APTable ta1 AND 3) OR
                 push_bit 60 (UXNTable ta1 AND 1) OR push_bit 59 (PXNTable ta1 AND 1) OR 3) m"

definition init_table_entry_sg1 :: "u64 \<Rightarrow> u64 \<Rightarrow> mmu_state \<Rightarrow> mmu_state" where
  "init_table_entry_sg1 entry_addr inner_addr m =
     set_table_attributes_sg1 entry_addr new_table_attributes_sg1
       (AT_store entry_addr ((AT m entry_addr AND (MASK 63 48 OR MASK 11 0)) OR (inner_addr AND MASK 35 0)) m)"

definition get_address_sg1 :: "mmu_state \<Rightarrow> u64 \<Rightarrow> u64" where
  "get_address_sg1 m entry_addr = AT m entry_addr AND MASK 47 12"

definition is_block_entry :: "u64 \<Rightarrow> int \<Rightarrow> bool" where
  "is_block_entry e lvl \<longleftrightarrow> lvl < 3 \<and> e AND MASK 1 0 = 1 \<or> lvl = 3 \<and> e AND MASK 1 0 = 3"

definition is_table_entry :: "u64 \<Rightarrow> bool" where
  "is_table_entry e \<longleftrightarrow> e AND MASK 1 0 = 3"

section \<open>The table walk\<close>

text \<open>An address is returned with an error code in its low three bits, 0 for none.\<close>

definition get_lvl2_table_entry_phys_address :: "mmu_state \<Rightarrow> u64 \<Rightarrow> u64" where
  "get_lvl2_table_entry_phys_address m virtual_addr =
     (if virtual_addr AND MASK 47 30 \<noteq> 0 then 2
      else if virtual_addr AND MASK 63 48 = MASK 63 48 then 1
      else if virtual_addr AND MASK 63 48 \<noteq> 0 then 1
      else if lvl2_table_address m AND MASK 16 0 \<noteq> 0 then 3
      else let lvl2_index = drop_bit 21 (virtual_addr AND MASK 29 21) in
           lvl2_table_address m + 8 * lvl2_index)"

definition get_lvl3_entry_phys_address :: "mmu_state \<Rightarrow> u64 \<Rightarrow> u64" where
  "get_lvl3_entry_phys_address m virtual_addr =
     (let lvl2_table_entry_phys_address = get_lvl2_table_entry_phys_address m virtual_addr in
      if lvl2_table_entry_phys_address AND MASK 2 0 \<noteq> 0 then lvl2_table_entry_phys_address
      else if \<not> is_table_entry (AT m lvl2_table_entry_phys_address) then 5
      else let lvl3_table_addr = get_address_sg1 m lvl2_table_entry_phys_address;
               lvl3_index = drop_bit 12 (virtual_addr AND MASK 20 12)
           in lvl3_table_addr + 8 * lvl3_index)"

definition set_invalid_page :: "u64 \<Rightarrow> mmu_state \<Rightarrow> mmu_state option" where
  "set_invalid_page virtual_addr m =
     (let e = get_lvl3_entry_phys_address m virtual_addr in
      do { assert (e AND MASK 2 0 = 0); Some (set_invalid_entry e m) })"

definition set_page_access_flag :: "u64 \<Rightarrow> mmu_state \<Rightarrow> mmu_state option" where
  "set_page_access_flag virtual_addr m =
     (let e = get_lvl3_entry_phys_address m virtual_addr in
      do { assert (e AND MASK 2 0 = 0); Some (set_entry_access_flag e m) })"

definition init_new_lvl3_table :: "u64 \<Rightarrow> mmu_state \<Rightarrow> mmu_state option" where
  "init_new_lvl3_table lvl2_entry_phys_address m =
     (let m1 = set_identifier_table_entry lvl2_entry_phys_address m in
      do { assert (is_table_entry (AT m1 lvl2_entry_phys_address));
           for_range 0 512 (\<lambda>i m. Some (set_invalid_entry
             (get_address_sg1 m lvl2_entry_phys_address + of_nat i * 8) m)) m1 })"

section \<open>Bind counters\<close>

definition get_bind_counter_address :: "mmu_state \<Rightarrow> u64 \<Rightarrow> u64" where
  "get_bind_counter_address m physical_addr =
     bind_counter (physical_memory_map m) + physical_addr div GRANULE - bind_counter_offset (physical_memory_map m)"

definition get_bind_counter :: "mmu_state \<Rightarrow> u64 \<Rightarrow> int" where
  "get_bind_counter m physical_addr = uint (mem8 m (get_bind_counter_address m physical_addr))"

definition set_bind_counter :: "u64 \<Rightarrow> int \<Rightarrow> mmu_state \<Rightarrow> mmu_state" where
  "set_bind_counter physical_addr v m =
     m\<lparr>mem8 := (mem8 m)(get_bind_counter_address m physical_addr := word_of_int v)\<rparr>"

definition increment_bind_counter :: "u64 \<Rightarrow> mmu_state \<Rightarrow> mmu_state option" where
  "increment_bind_counter physical_addr m =
     do { assert (get_bind_counter_address m physical_addr < id_paging_size m);
          Some (m\<lparr>mem8 := (mem8 m)(get_bind_counter_address m physical_addr :=
                   mem8 m (get_bind_counter_address m physical_addr) + 1)\<rparr>) }"

definition decrement_bind_counter :: "u64 \<Rightarrow> mmu_state \<Rightarrow> mmu_state" where
  "decrement_bind_counter physical_addr m =
     m\<lparr>mem8 := (mem8 m)(get_bind_counter_address m physical_addr :=
        mem8 m (get_bind_counter_address m physical_addr) - 1)\<rparr>"

section \<open>Binding an address\<close>

text \<open>
  The code calls itself after it has initialised a table; that this ends is a property of the
  tables, not of the text of the function.
\<close>

partial_function (option) bind_address ::
    "u64 \<Rightarrow> u64 \<Rightarrow> block_attributes_sg1 \<Rightarrow> mmu_state \<Rightarrow> (int \<times> mmu_state) option" where
  "bind_address virtual_addr physical_addr ba m =
     (if physical_addr AND MASK 11 0 \<noteq> 0 then Some (4, m)
      else
        let lvl3_entry_phys_address = get_lvl3_entry_phys_address m virtual_addr;
            error_code = lvl3_entry_phys_address AND MASK 2 0
        in if error_code = 0 then
             let m1 = init_block_and_page_entry_sg1 lvl3_entry_phys_address physical_addr ba m in
             (if physical_addr \<ge> id_paging_size m1
              then increment_bind_counter physical_addr m1 \<bind> (\<lambda>m2. Some (0, m2))
              else Some (0, m1))
           else if error_code = 5 then
             init_new_lvl3_table (get_lvl2_table_entry_phys_address m virtual_addr) m
               \<bind> (\<lambda>m1. bind_address virtual_addr physical_addr ba m1)
           else Some (int_of_u64 lvl3_entry_phys_address, m))"

definition get_physical_address :: "mmu_state \<Rightarrow> u64 \<Rightarrow> u64 option" where
  "get_physical_address m virtual_addr =
     (let lvl3_entry_phys_addr = get_lvl3_entry_phys_address m virtual_addr in
      do { assert (lvl3_entry_phys_addr AND MASK 2 0 = 0);
           Some (get_address_sg1 m lvl3_entry_phys_addr + (virtual_addr AND MASK 11 0)) })"

section \<open>Selecting the table\<close>

definition get_ASID_from_TTBR0 :: "u64 \<Rightarrow> u64" where
  "get_ASID_from_TTBR0 ttbr0_el1 = drop_bit 48 (ttbr0_el1 AND MASK 63 48)"

definition get_lvl2_table_address_from_TTBR0 :: "u64 \<Rightarrow> u64" where
  "get_lvl2_table_address_from_TTBR0 ttbr0_el1 = ttbr0_el1 AND MASK 47 1"

definition set_lvl2_address :: "u64 \<Rightarrow> mmu_state \<Rightarrow> mmu_state" where
  "set_lvl2_address lvl2_addr m = m\<lparr>lvl2_table_address := lvl2_addr\<rparr>"

definition set_lvl2_address_from_TTBR0_EL1 :: "mmu_state \<Rightarrow> mmu_state" where
  "set_lvl2_address_from_TTBR0_EL1 m = m\<lparr>lvl2_table_address := TTBR0_EL1 m AND MASK 47 1\<rparr>"

end
