(* ===== verification/Mmu_Walk.thy ===== *)
theory Mmu_Walk
  imports Mmu_Tables
begin

text \<open>
  What the translation tables mean. \<open>pt\<close> reads the two levels of tables as a partial function
  from the pair of table indices of a virtual page to the descriptor of a page; \<open>walk_ok\<close> says that the
  tables of an address space lie in pages of their own. \<open>bind_address\<close> is shown to return, and to
  change \<open>pt\<close> at the page of its argument only, also when it first has to initialise a table.
\<close>

section \<open>Aligned addresses\<close>

definition aligned :: "u64 \<Rightarrow> bool" where
  "aligned a \<longleftrightarrow> a AND MASK 11 0 = 0"

lemma bit_aligned: "aligned a \<Longrightarrow> bit a n \<Longrightarrow> 12 \<le> n"
proof (rule ccontr)
  assume a: "aligned a" "bit a n" "\<not> 12 \<le> n"
  then have "bit (a AND MASK 11 0) n" by (simp add: bit_and_iff)
  with a(1) show False by (simp add: aligned_def)
qed

lemma aligned_mask [simp]: "aligned (e AND MASK 47 12)"
  unfolding aligned_def by (rule bit_word_eqI) (auto simp: bit_simps)

lemma entry_bits: "(i::u64) < 512 \<Longrightarrow> bit i n \<Longrightarrow> n < 9"
  by (rule bit_less_power) (simp_all add: word_less_nat_alt)

lemma aligned_entry:
  assumes "aligned a" and "i < 512"
  shows "a + 8 * i = a OR push_bit 3 i"
  unfolding mult8_eq_push_bit
  by (rule disjunctive_add_eq_or)
     (auto intro!: bit_word_eqI simp: bit_simps dest!: entry_bits [OF assms(2)] bit_aligned [OF assms(1)])

lemma entry_page:
  assumes "aligned a" and "i < 512"
  shows "(a + 8 * i) AND MASK 63 12 = a" and "(a + 8 * i) AND MASK 11 0 = 8 * i"
    and "(a + 8 * i) AND MASK 2 0 = 0"
proof -
  note b = entry_bits [OF assms(2)] bit_aligned [OF assms(1)]
  show "(a + 8 * i) AND MASK 63 12 = a"
    unfolding aligned_entry [OF assms] by (rule bit_word_eqI) (auto simp: bit_simps dest: b)
  show "(a + 8 * i) AND MASK 11 0 = 8 * i"
    unfolding aligned_entry [OF assms] unfolding mult8_eq_push_bit
    by (rule bit_word_eqI) (auto simp: bit_simps dest: b)
  show "(a + 8 * i) AND MASK 2 0 = 0"
    unfolding aligned_entry [OF assms] by (rule bit_word_eqI) (auto simp: bit_simps dest: b)
qed

lemma entry_inject:
  assumes "aligned a" "aligned b" "i < 512" "j < 512"
  shows "a + 8 * i = b + 8 * j \<longleftrightarrow> a = b \<and> i = j"
proof
  assume eq: "a + 8 * i = b + 8 * j"
  have "a = b" using entry_page(1) assms eq by metis
  moreover have "8 * i = 8 * j" using entry_page(2) assms eq by metis
  then have "push_bit 3 i = push_bit 3 j" by (simp add: mult8_eq_push_bit)
  then have "drop_bit 3 (push_bit 3 i) = drop_bit 3 (push_bit 3 j)" by simp
  moreover have "drop_bit 3 (push_bit 3 k) = k" if "k < 512" for k :: u64
    using that by (intro bit_word_eqI) (auto simp: bit_simps dest: entry_bits)
  ultimately show "a = b \<and> i = j" using assms by simp
qed simp

section \<open>Indices of an address\<close>

definition idx2 :: "u64 \<Rightarrow> u64" where "idx2 va = drop_bit 21 (va AND MASK 29 21)"
definition idx3 :: "u64 \<Rightarrow> u64" where "idx3 va = drop_bit 12 (va AND MASK 20 12)"

lemma take_bit_9_less: "take_bit 9 (x::u64) < 512"
  using take_bit_nat_less_exp [of 9 "unat x"] by (simp add: word_less_nat_alt unsigned_take_bit_eq)

lemma idx_bound [simp]: "idx2 va < 512" "idx3 va < 512"
proof -
  have "idx2 va = take_bit 9 (idx2 va)" "idx3 va = take_bit 9 (idx3 va)"
    by (rule bit_word_eqI; auto simp: idx2_def idx3_def bit_simps)+
  then show "idx2 va < 512" "idx3 va < 512"
    using take_bit_9_less by metis+
qed

section \<open>The address space that tables describe\<close>

definition lvl2_entry :: "mmu_state \<Rightarrow> u64 \<Rightarrow> u64" where
  "lvl2_entry m i = AT m (lvl2_table_address m + 8 * i)"

definition lvl3_table :: "mmu_state \<Rightarrow> u64 \<Rightarrow> u64" where
  "lvl3_table m i = lvl2_entry m i AND MASK 47 12"

definition pt :: "mmu_state \<Rightarrow> u64 \<Rightarrow> u64 \<Rightarrow> u64 option" where
  "pt m i j =
     (if is_table_entry (lvl2_entry m i)
      then let e = AT m (lvl3_table m i + 8 * j) in if is_block_entry e 3 then Some e else None
      else None)"

text \<open>The tables of an address space lie in pages of their own.\<close>

definition walk_ok :: "mmu_state \<Rightarrow> bool" where
  "walk_ok m \<longleftrightarrow> lvl2_table_address m AND MASK 16 0 = 0 \<and>
     (\<forall>i<511. lvl3_table m i \<noteq> lvl2_table_address m) \<and>
     (\<forall>i<511. \<forall>j<511. lvl3_table m i = lvl3_table m j \<longrightarrow> i = j)"

definition valid_va :: "u64 \<Rightarrow> bool" where
  "valid_va va \<longleftrightarrow> va AND MASK 47 30 = 0 \<and> va AND MASK 63 48 = 0 \<and> idx2 va < 511"

lemma walk_ok_aligned:
  assumes "walk_ok m"
  shows "aligned (lvl2_table_address m)"
proof -
  have a: "lvl2_table_address m AND MASK 16 0 = 0" using assms by (simp add: walk_ok_def)
  have "lvl2_table_address m AND MASK 11 0 = (lvl2_table_address m AND MASK 16 0) AND MASK 11 0"
    by (rule bit_word_eqI) (auto simp: bit_simps)
  then show ?thesis by (simp add: a aligned_def)
qed

lemma aligned_lvl3_table [simp]: "aligned (lvl3_table m i)"
  by (simp add: lvl3_table_def)

lemma MASK_63_48: "MASK 63 48 \<noteq> 0"
  by (simp add: MASK_def MASK_range_def)

lemma get_lvl2_entry_valid:
  assumes "walk_ok m" and "valid_va va"
  shows "get_lvl2_table_entry_phys_address m va = lvl2_table_address m + 8 * idx2 va"
  using assms MASK_63_48
  by (auto simp: get_lvl2_table_entry_phys_address_def valid_va_def walk_ok_def idx2_def)

lemma get_lvl3_entry_valid:
  assumes "walk_ok m" and "valid_va va"
  shows "get_lvl3_entry_phys_address m va =
     (if is_table_entry (lvl2_entry m (idx2 va)) then lvl3_table m (idx2 va) + 8 * idx3 va else 5)"
proof -
  have "aligned (lvl2_table_address m)" using assms(1) by (rule walk_ok_aligned)
  then show ?thesis
    using entry_page(3) [of "lvl2_table_address m" "idx2 va"]
    by (simp add: get_lvl3_entry_phys_address_def get_lvl2_entry_valid [OF assms] lvl2_entry_def
          lvl3_table_def get_address_sg1_def Let_def) (simp add: idx3_def)
qed

lemma AT_store_simps [simp]:
  "AT (AT_store a v m) b = (if b = a then v else AT m b)"
  "lvl2_table_address (AT_store a v m) = lvl2_table_address m"
  "id_paging_size (AT_store a v m) = id_paging_size m"
  "physical_memory_map (AT_store a v m) = physical_memory_map m"
  "mem8 (AT_store a v m) = mem8 m" "mem32 (AT_store a v m) = mem32 m" "frame (AT_store a v m) = frame m"
  "TTBR0_EL1 (AT_store a v m) = TTBR0_EL1 m"
  by (simp_all add: AT_store_def AT_def)

text \<open>A store into a level 3 table changes one page of the address space.\<close>

lemma lvl3_store:
  assumes ok: "walk_ok m" and i: "i < 511" and j: "j < 512" and a: "a = lvl3_table m i + 8 * j"
  shows "k < 512 \<Longrightarrow> lvl2_entry (AT_store a v m) k = lvl2_entry m k"
    and "walk_ok (AT_store a v m)"
    and "k < 511 \<Longrightarrow> l < 512 \<Longrightarrow> pt (AT_store a v m) k l =
      (if k = i \<and> l = j then if is_table_entry (lvl2_entry m i) \<and> is_block_entry v 3 then Some v else None
       else pt m k l)"
proof -
  have al: "aligned (lvl2_table_address m)" using ok by (rule walk_ok_aligned)
  have ne: "lvl3_table m i \<noteq> lvl2_table_address m" using ok i by (simp add: walk_ok_def)
  have e2: "lvl2_entry (AT_store a v m) k = lvl2_entry m k" if "k < 512" for k
    using that j al ne entry_inject [of "lvl2_table_address m" "lvl3_table m i" k j]
    by (auto simp: lvl2_entry_def a)
  then show "k < 512 \<Longrightarrow> lvl2_entry (AT_store a v m) k = lvl2_entry m k" .
  have lt: "k < 512" if "k < 511" for k :: u64 using that by (rule less_trans) simp
  have t3: "lvl3_table (AT_store a v m) k = lvl3_table m k" if "k < 511" for k
    using e2 [OF lt [OF that]] by (simp add: lvl3_table_def)
  show "walk_ok (AT_store a v m)"
    using ok t3 unfolding walk_ok_def by simp
  show "pt (AT_store a v m) k l =
      (if k = i \<and> l = j then if is_table_entry (lvl2_entry m i) \<and> is_block_entry v 3 then Some v else None
       else pt m k l)" if k: "k < 511" and l: "l < 512"
  proof -
    have "lvl3_table m k = lvl3_table m i \<longleftrightarrow> k = i" using ok k i by (auto simp: walk_ok_def)
    then have "lvl3_table m k + 8 * l = a \<longleftrightarrow> k = i \<and> l = j"
      using entry_inject [of "lvl3_table m k" "lvl3_table m i" l j] l j by (simp add: a)
    then show ?thesis
      unfolding pt_def t3 [OF k] e2 [OF lt [OF k]] by (auto simp: Let_def)
  qed
qed


lemma bit_three: "bit (3::u64) n \<longleftrightarrow> n = 0 \<or> n = 1"
  by (cases n; cases "n - 1") (auto simp: bit_simps)

lemma is_entry_bits:
  "is_table_entry e \<longleftrightarrow> bit e 0 \<and> bit e 1" "is_block_entry e 3 \<longleftrightarrow> bit e 0 \<and> bit e 1"
proof -
  have "e AND MASK 1 0 = 3 \<longleftrightarrow> bit e 0 \<and> bit e 1"
  proof
    assume "e AND MASK 1 0 = 3"
    then have "bit (e AND MASK 1 0) 0" "bit (e AND MASK 1 0) 1" by simp_all
    then show "bit e 0 \<and> bit e 1" by (simp_all add: bit_and_iff)
  next
    assume "bit e 0 \<and> bit e 1"
    then show "e AND MASK 1 0 = 3"
      by (intro bit_word_eqI) (unfold bit_and_iff bit_three, auto simp: le_Suc_eq)
  qed
  then show "is_table_entry e \<longleftrightarrow> bit e 0 \<and> bit e 1" "is_block_entry e 3 \<longleftrightarrow> bit e 0 \<and> bit e 1"
    by (simp_all add: is_table_entry_def is_block_entry_def)
qed

lemma is_entry_invalid [simp]: "\<not> is_block_entry (e AND MASK 63 1) 3" "\<not> is_table_entry (e AND MASK 63 1)"
  by (simp_all add: is_entry_bits bit_simps)

lemmas is_entry_invalid_Suc [simp] = is_entry_invalid [unfolded One_nat_def]

text \<open>The entry that \<open>bind_address\<close> writes.\<close>

definition page_entry :: "u64 \<Rightarrow> block_attributes_sg1 \<Rightarrow> u64" where
  "page_entry pa ba = (pa AND MASK 35 12) OR attribute_bits ba"

lemma attribute_bits_low:
  "bit (attribute_bits ba) 0" "bit (attribute_bits ba) 1"
  "12 \<le> n \<Longrightarrow> n \<le> 47 \<Longrightarrow> \<not> bit (attribute_bits ba) n"
  unfolding attribute_bits_def bit_or_iff bit_push_bit_iff bit_and_iff bit_three bit_1_iff by auto

lemma init_entry:
  assumes "pa AND MASK 11 0 = 0"
  shows "init_block_and_page_entry_sg1 a pa ba m = AT_store a (page_entry pa ba) m"
proof -
  have "((AT m a AND (MASK 63 48 OR MASK 11 0)) OR (pa AND MASK 35 0)) AND MASK 47 12 = pa AND MASK 35 12"
    by (rule bit_word_eqI) (auto simp: bit_simps)
  then show ?thesis
    by (simp add: init_block_and_page_entry_sg1_def set_block_and_page_attributes_sg1_def page_entry_def AT_store_def AT_def)
qed

lemma page_entry_block [simp]: "is_block_entry (page_entry pa ba) 3"
  using attribute_bits_low(1,2) [of ba] by (simp add: is_entry_bits page_entry_def bit_or_iff)

lemma page_entry_address: "page_entry pa ba AND MASK 47 12 = pa AND MASK 35 12"
  by (rule bit_word_eqI) (auto simp: page_entry_def bit_simps attribute_bits_low)


definition tables_only :: "mmu_state \<Rightarrow> mmu_state \<Rightarrow> bool" where
  "tables_only m m' \<longleftrightarrow> m' = m\<lparr>mem64 := mem64 m'\<rparr>"

lemma tables_only_refl [simp]: "tables_only m m"
  by (simp add: tables_only_def)

lemma tables_only_store [simp]: "tables_only m m' \<Longrightarrow> tables_only m (AT_store a v m')"
  unfolding tables_only_def AT_store_def by (cases m; cases m') simp

lemma tables_only_trans: "tables_only m m' \<Longrightarrow> tables_only m' m'' \<Longrightarrow> tables_only m m''"
  unfolding tables_only_def by (cases m; cases m'; cases m'') simp

lemma tables_onlyD:
  assumes "tables_only m m'"
  shows "lvl2_table_address m' = lvl2_table_address m" "id_paging_size m' = id_paging_size m"
    "physical_memory_map m' = physical_memory_map m" "mem8 m' = mem8 m" "mem32 m' = mem32 m"
    "frame m' = frame m" "TTBR0_EL1 m' = TTBR0_EL1 m"
  using assms unfolding tables_only_def by (cases m; cases m'; simp)+

text \<open>Making an invalid level 2 entry valid, with an empty table behind it.\<close>

lemma lvl2_identify:
  assumes ok: "walk_ok m" and i: "i < 511" and m1: "m1 = set_identifier_table_entry (lvl2_table_address m + 8 * i) m"
  shows "lvl2_entry m1 i = lvl2_entry m i OR 3"
    and "k < 511 \<Longrightarrow> k \<noteq> i \<Longrightarrow> lvl2_entry m1 k = lvl2_entry m k"
    and "k < 511 \<Longrightarrow> lvl3_table m1 k = lvl3_table m k"
    and "walk_ok m1"
    and "k < 511 \<Longrightarrow> k \<noteq> i \<Longrightarrow> l < 512 \<Longrightarrow> pt m1 k l = pt m k l"
proof -
  have al: "aligned (lvl2_table_address m)" using ok by (rule walk_ok_aligned)
  have lt: "k < 512" if "k < 511" for k :: u64 using that by (rule less_trans) simp
  show e1: "lvl2_entry m1 i = lvl2_entry m i OR 3"
    by (simp add: m1 set_identifier_table_entry_def lvl2_entry_def)
  show e2: "lvl2_entry m1 k = lvl2_entry m k" if "k < 511" "k \<noteq> i" for k
    using entry_inject [OF al al lt lt, of k i] that i
    by (simp add: m1 set_identifier_table_entry_def lvl2_entry_def)
  have or3: "(e OR 3) AND MASK 47 12 = e AND MASK 47 12" for e :: u64
    by (rule bit_word_eqI) (unfold bit_and_iff bit_or_iff bit_three, auto)
  show t3: "lvl3_table m1 k = lvl3_table m k" if "k < 511" for k
    using e1 e2 [OF that] by (cases "k = i") (simp_all add: lvl3_table_def or3)
  have l2: "lvl2_table_address m1 = lvl2_table_address m" by (simp add: m1 set_identifier_table_entry_def)
  show "walk_ok m1"
    using ok t3 unfolding walk_ok_def l2 by simp
  show "pt m1 k l = pt m k l" if k: "k < 511" "k \<noteq> i" and l: "l < 512" for k l
  proof -
    have "lvl3_table m k \<noteq> lvl2_table_address m" using ok k by (simp add: walk_ok_def)
    then have "lvl3_table m k + 8 * l \<noteq> lvl2_table_address m + 8 * i"
      using entry_inject [OF _ al l lt [OF i], of "lvl3_table m k"] by simp
    then have "AT m1 (lvl3_table m k + 8 * l) = AT m (lvl3_table m k + 8 * l)"
      by (simp add: m1 set_identifier_table_entry_def)
    then show ?thesis unfolding pt_def e2 [OF k] t3 [OF k(1)] by simp
  qed
qed

lemma init_new_lvl3_table_spec:
  assumes ok: "walk_ok m" and i: "i < 511" and inv: "\<not> is_table_entry (lvl2_entry m i)"
  obtains m' where "init_new_lvl3_table (lvl2_table_address m + 8 * i) m = Some m'"
    and "walk_ok m'" and "is_table_entry (lvl2_entry m' i)" and "tables_only m m'"
    and "\<And>k l. k < 511 \<Longrightarrow> l < 512 \<Longrightarrow> pt m' k l = pt m k l"
    and "\<And>k. k < 511 \<Longrightarrow> lvl3_table m' k = lvl3_table m k"
proof -
  define e where "e = lvl2_table_address m + 8 * i"
  define m1 where "m1 = set_identifier_table_entry e m"
  note I = lvl2_identify [OF ok i m1_def [unfolded e_def]]
  have to1: "tables_only m m1" by (simp add: m1_def set_identifier_table_entry_def)
  have l21: "lvl2_table_address m1 = lvl2_table_address m" using tables_onlyD(1) [OF to1] .
  have tab: "is_table_entry (AT m1 e)" and tab': "is_table_entry (lvl2_entry m1 i)"
  proof -
    have "bit (lvl2_entry m i OR 3) 0 \<and> bit (lvl2_entry m i OR 3) 1"
      unfolding bit_or_iff bit_three by simp
    then show "is_table_entry (lvl2_entry m1 i)" by (simp add: is_entry_bits I(1))
    then show "is_table_entry (AT m1 e)" by (simp add: lvl2_entry_def e_def l21)
  qed
  have lt: "k < 512" if "k < 511" for k :: u64 using that by (rule less_trans) simp
  define P where "P n m' \<longleftrightarrow> walk_ok m' \<and> tables_only m m' \<and>
      (\<forall>k<511. lvl2_entry m' k = lvl2_entry m1 k) \<and>
      (\<forall>k<511. \<forall>l<512. pt m' k l = (if k = i \<and> unat l < n then None else pt m1 k l))" for n m'
  have "\<exists>m'. for_range 0 512 (\<lambda>n m. Some (set_invalid_entry (get_address_sg1 m e + of_nat n * 8) m)) m1 = Some m' \<and> P 512 m'"
  proof (rule for_range_total)
    show "P 0 m1" using I(4) to1 by (simp add: P_def)
    fix n m2 assume n: "n < 512" and P: "P n m2"
    define w where "w = (of_nat n :: u64)"
    have w: "w < 512" "unat w = n"
      using n by (simp_all add: w_def word_less_nat_alt unat_of_nat take_bit_nat_eq_self)
    define m3 where "m3 = set_invalid_entry (get_address_sg1 m2 e + of_nat n * 8) m2"
    have l22: "lvl2_table_address m2 = lvl2_table_address m" using P tables_onlyD(1) by (auto simp: P_def)
    then have adr: "get_address_sg1 m2 e + of_nat n * 8 = lvl3_table m2 i + 8 * w"
      by (simp add: get_address_sg1_def lvl3_table_def lvl2_entry_def e_def w_def mult.commute)
    then have m3: "m3 = AT_store (lvl3_table m2 i + 8 * w) (AT m2 (lvl3_table m2 i + 8 * w) AND MASK 63 1) m2"
      by (simp add: m3_def set_invalid_entry_def)
    have ok2: "walk_ok m2" using P by (simp add: P_def)
    note L = lvl3_store [OF ok2 i w(1) refl]
    have "P (Suc n) m3"
      unfolding P_def m3
    proof (intro conjI allI impI)
      show "walk_ok (AT_store (lvl3_table m2 i + 8 * w) (AT m2 (lvl3_table m2 i + 8 * w) AND MASK 63 1) m2)"
        by (rule L(2))
      show "tables_only m (AT_store (lvl3_table m2 i + 8 * w) (AT m2 (lvl3_table m2 i + 8 * w) AND MASK 63 1) m2)"
        using P by (simp add: P_def)
      fix k :: u64 assume k: "k < 511"
      show "lvl2_entry (AT_store (lvl3_table m2 i + 8 * w) (AT m2 (lvl3_table m2 i + 8 * w) AND MASK 63 1) m2) k = lvl2_entry m1 k"
        using L(1) [OF lt [OF k]] P k by (simp add: P_def)
      fix l :: u64 assume l: "l < 512"
      have "unat l < Suc n \<longleftrightarrow> unat l < n \<or> l = w"
        using w(2) by (auto simp: less_Suc_eq dest: word_unat_eq_iff [THEN iffD2])
      then show "pt (AT_store (lvl3_table m2 i + 8 * w) (AT m2 (lvl3_table m2 i + 8 * w) AND MASK 63 1) m2) k l =
          (if k = i \<and> unat l < Suc n then None else pt m1 k l)"
        unfolding L(3) [OF k l] using P k l by (auto simp: P_def)
    qed
    then show "\<exists>m'. Some (set_invalid_entry (get_address_sg1 m2 e + of_nat n * 8) m2) = Some m' \<and> P (Suc n) m'"
      by (simp add: m3_def)
  qed simp
  then obtain m' where m': "for_range 0 512 (\<lambda>n m. Some (set_invalid_entry (get_address_sg1 m e + of_nat n * 8) m)) m1 = Some m'"
    and P: "P 512 m'" by blast
  show ?thesis
  proof (rule that)
    show "init_new_lvl3_table (lvl2_table_address m + 8 * i) m = Some m'"
      using m' tab by (simp add: init_new_lvl3_table_def m1_def flip: e_def)
    show "walk_ok m'" "tables_only m m'" using P by (simp_all add: P_def)
    show "is_table_entry (lvl2_entry m' i)" using P i tab' by (simp add: P_def)
    show "pt m' k l = pt m k l" if "k < 511" "l < 512" for k l
    proof (cases "k = i")
      case True
      then show ?thesis using P that inv by (simp add: P_def word_less_nat_alt) (simp add: pt_def)
    next
      case False
      then show ?thesis using P that I(5) [of k l] by (simp add: P_def)
    qed
    show "lvl3_table m' k = lvl3_table m k" if "k < 511" for k
      using P that I(3) [OF that] by (simp add: P_def lvl3_table_def)
  qed
qed


section \<open>bind_address\<close>

text \<open>What the code may write besides the tables: one bind counter.\<close>

definition counted :: "u64 \<Rightarrow> mmu_state \<Rightarrow> (u64 \<Rightarrow> u8) \<Rightarrow> u64 \<Rightarrow> u8" where
  "counted pa m c = (if id_paging_size m \<le> pa then c(get_bind_counter_address m pa := c (get_bind_counter_address m pa) + 1) else c)"

lemma walk_ok_mem8 [simp]:
  "walk_ok (m\<lparr>mem8 := c\<rparr>) = walk_ok m" "pt (m\<lparr>mem8 := c\<rparr>) i j = pt m i j"
  "lvl3_table (m\<lparr>mem8 := c\<rparr>) i = lvl3_table m i" "lvl2_entry (m\<lparr>mem8 := c\<rparr>) i = lvl2_entry m i"
  by (simp_all add: walk_ok_def pt_def lvl3_table_def lvl2_entry_def AT_def)

definition counter_ok :: "u64 \<Rightarrow> mmu_state \<Rightarrow> bool" where
  "counter_ok pa m \<longleftrightarrow> (id_paging_size m \<le> pa \<longrightarrow> get_bind_counter_address m pa < id_paging_size m)"

lemma bind_address_present:
  assumes ok: "walk_ok m" and va: "valid_va va" and pa: "pa AND MASK 11 0 = 0" and cnt: "counter_ok pa m"
    and tab: "is_table_entry (lvl2_entry m (idx2 va))"
  shows "bind_address va pa ba m =
     Some (0, (AT_store (lvl3_table m (idx2 va) + 8 * idx3 va) (page_entry pa ba) m)\<lparr>mem8 := counted pa m (mem8 m)\<rparr>)"
proof -
  have "lvl3_table m (idx2 va) + 8 * idx3 va AND MASK 2 0 = 0"
    by (rule entry_page(3)) simp_all
  then show ?thesis
    using tab cnt pa
    by (subst bind_address.simps)
       (auto simp: get_lvl3_entry_valid [OF ok va] Let_def init_entry [OF pa] increment_bind_counter_def
          counted_def counter_ok_def get_bind_counter_address_def AT_store_def)
qed

text \<open>\<open>bind_address\<close> returns, and changes the address space at one page only.\<close>

lemma bind_address_spec:
  assumes ok: "walk_ok m" and va: "valid_va va" and pa: "pa AND MASK 11 0 = 0" and cnt: "counter_ok pa m"
  obtains m' where "bind_address va pa ba m = Some (0, m')" and "walk_ok m'"
    and "tables_only (m\<lparr>mem8 := counted pa m (mem8 m)\<rparr>) m'"
    and "\<And>k l. k < 511 \<Longrightarrow> l < 512 \<Longrightarrow>
           pt m' k l = (if k = idx2 va \<and> l = idx3 va then Some (page_entry pa ba) else pt m k l)"
    and "\<And>k. k < 511 \<Longrightarrow> lvl3_table m' k = lvl3_table m k"
proof -
  note result = that
  have i: "idx2 va < 511" using va by (simp add: valid_va_def)
  have present: thesis if ok1: "walk_ok m1" and tab: "is_table_entry (lvl2_entry m1 (idx2 va))"
    and to: "tables_only m m1" and same: "\<And>k l. k < 511 \<Longrightarrow> l < 512 \<Longrightarrow> pt m1 k l = pt m k l"
    and tabs: "\<And>k. k < 511 \<Longrightarrow> lvl3_table m1 k = lvl3_table m k"
    and bind: "bind_address va pa ba m = bind_address va pa ba m1" for m1
  proof -
    note T = tables_onlyD [OF to]
    have cm: "counted pa m1 = counted pa m" "counter_ok pa m1"
      using cnt by (simp_all add: counted_def counter_ok_def get_bind_counter_address_def T fun_eq_iff)
    define a where "a = lvl3_table m1 (idx2 va) + 8 * idx3 va"
    note L = lvl3_store [OF ok1 i _ a_def, simplified]
    have lt: "k < 512" if "k < 511" for k :: u64 using that by (rule less_trans) simp
    show thesis
    proof (rule result)
      show "bind_address va pa ba m = Some (0, (AT_store a (page_entry pa ba) m1)\<lparr>mem8 := counted pa m (mem8 m)\<rparr>)"
        unfolding bind bind_address_present [OF ok1 va pa cm(2) tab] a_def by (simp add: cm(1) T)
      show "walk_ok ((AT_store a (page_entry pa ba) m1)\<lparr>mem8 := counted pa m (mem8 m)\<rparr>)"
        by (simp add: L(2))
      show "tables_only (m\<lparr>mem8 := counted pa m (mem8 m)\<rparr>) ((AT_store a (page_entry pa ba) m1)\<lparr>mem8 := counted pa m (mem8 m)\<rparr>)"
        using to unfolding tables_only_def AT_store_def by (cases m; cases m1) simp
      show "pt ((AT_store a (page_entry pa ba) m1)\<lparr>mem8 := counted pa m (mem8 m)\<rparr>) k l =
          (if k = idx2 va \<and> l = idx3 va then Some (page_entry pa ba) else pt m k l)" if "k < 511" "l < 512" for k l
        using L(3) [OF that] tab same [OF that] by simp
      show "lvl3_table ((AT_store a (page_entry pa ba) m1)\<lparr>mem8 := counted pa m (mem8 m)\<rparr>) k = lvl3_table m k" if "k < 511" for k
        using L(1) [OF lt [OF that]] tabs [OF that] by (simp add: lvl3_table_def)
    qed
  qed
  show thesis
  proof (cases "is_table_entry (lvl2_entry m (idx2 va))")
    case True
    then show thesis by (intro present [of m] ok) simp_all
  next
    case False
    from init_new_lvl3_table_spec [OF ok i False] obtain m1 where
      m1: "init_new_lvl3_table (lvl2_table_address m + 8 * idx2 va) m = Some m1"
      "walk_ok m1" "is_table_entry (lvl2_entry m1 (idx2 va))" "tables_only m m1"
      "\<And>k l. k < 511 \<Longrightarrow> l < 512 \<Longrightarrow> pt m1 k l = pt m k l"
      "\<And>k. k < 511 \<Longrightarrow> lvl3_table m1 k = lvl3_table m k" by blast
    have five: "(5::u64) AND MASK 2 0 = 5" by (simp add: MASK_def MASK_range_def)
    have "bind_address va pa ba m = bind_address va pa ba m1"
      by (subst bind_address.simps)
         (simp add: pa get_lvl3_entry_valid [OF ok va] False five get_lvl2_entry_valid [OF ok va] m1(1))
    then show thesis using m1 by (intro present [of m1]) simp_all
  qed
qed

section \<open>Translation\<close>

definition translate :: "mmu_state \<Rightarrow> u64 \<Rightarrow> u64 option" where
  "translate m va = map_option (\<lambda>e. (e AND MASK 47 12) + (va AND MASK 11 0)) (pt m (idx2 va) (idx3 va))"

definition page_of :: "u64 \<Rightarrow> u64" where
  "page_of va = va AND MASK 63 12"

lemma valid_va_bits:
  assumes "valid_va va" and "bit va n"
  shows "n < 30"
proof (rule ccontr)
  assume "\<not> n < 30"
  moreover have "n < 64" using assms(2) by (rule bit_imp_le_length [of va n, simplified])
  ultimately have "bit (va AND MASK 47 30) n \<or> bit (va AND MASK 63 48) n"
    using assms(2) by (simp add: bit_and_iff) linarith
  with assms(1) show False by (simp add: valid_va_def)
qed

lemma bit_idx: "bit (idx2 va) n \<longleftrightarrow> n < 9 \<and> bit va (21 + n)" "bit (idx3 va) n \<longleftrightarrow> n < 9 \<and> bit va (12 + n)"
  by (auto simp: idx2_def idx3_def bit_simps)

lemma bit_page_of: "bit (page_of va) n \<longleftrightarrow> 12 \<le> n \<and> bit va n"
  by (auto simp: page_of_def bit_and_iff dest: bit_imp_le_length)

lemma same_page_idx:
  assumes "valid_va va" and "valid_va va'"
  shows "idx2 va' = idx2 va \<and> idx3 va' = idx3 va \<longleftrightarrow> page_of va' = page_of va"
proof
  assume eq: "idx2 va' = idx2 va \<and> idx3 va' = idx3 va"
  show "page_of va' = page_of va"
  proof (rule bit_word_eqI)
    fix n :: nat
    consider "n < 12" | "12 \<le> n" "n < 21" | "21 \<le> n" "n < 30" | "30 \<le> n" by linarith
    then show "bit (page_of va') n = bit (page_of va) n"
    proof cases
      case 2
      then have "n - 12 < 9" by linarith
      with 2 show ?thesis
        using eq bit_idx(2) [of va "n - 12"] bit_idx(2) [of va' "n - 12"] by (simp add: bit_page_of)
    next
      case 3
      then have "n - 21 < 9" by linarith
      with 3 show ?thesis
        using eq bit_idx(1) [of va "n - 21"] bit_idx(1) [of va' "n - 21"] by (simp add: bit_page_of)
    next
      case 4
      then show ?thesis
        using valid_va_bits [OF assms(1), of n] valid_va_bits [OF assms(2), of n] by (auto simp: bit_page_of)
    qed (simp add: bit_page_of)
  qed
next
  assume "page_of va' = page_of va"
  then have "bit va' n = bit va n" if "12 \<le> n" for n
    using that bit_page_of [of va n] bit_page_of [of va' n] by simp
  then show "idx2 va' = idx2 va \<and> idx3 va' = idx3 va"
    by (auto intro!: bit_word_eqI simp: bit_idx)
qed

lemma translate_physical:
  assumes "walk_ok m" and "valid_va va" and "translate m va = Some pa"
  shows "get_physical_address m va = Some pa"
proof -
  have "lvl3_table m (idx2 va) + 8 * idx3 va AND MASK 2 0 = 0"
    by (rule entry_page(3)) simp_all
  then show ?thesis
    using assms(3)
    by (auto simp: translate_def pt_def get_physical_address_def get_lvl3_entry_valid [OF assms(1,2)]
          get_address_sg1_def Let_def split: if_splits)
qed

lemma translate_eqI:
  assumes "\<And>k l. k < 511 \<Longrightarrow> l < 512 \<Longrightarrow> pt m' k l = (if k = idx2 va \<and> l = idx3 va then e else pt m k l)"
    and "valid_va va" and "valid_va va'"
  shows "translate m' va' = (if page_of va' = page_of va
           then map_option (\<lambda>e. (e AND MASK 47 12) + (va' AND MASK 11 0)) e else translate m va')"
  using assms(1) [of "idx2 va'" "idx3 va'"] assms(3) same_page_idx [OF assms(2,3)]
  by (auto simp: translate_def valid_va_def)

lemma aligned_page:
  assumes "pa AND MASK 35 12 = pa"
  shows "pa AND MASK 11 0 = 0"
proof -
  have "(pa AND MASK 35 12) AND MASK 11 0 = 0" by (rule bit_word_eqI) (auto simp: bit_simps)
  then show ?thesis using assms by simp
qed

section \<open>Properties\<close>

text \<open>
  C19. \<open>bind_address\<close> of a valid virtual address to an aligned page returns 0 and makes the address
  space translate every address of that virtual page to the physical page, while the translation of
  every other page stays as it was; the tables stay well formed, and \<open>get_physical_address\<close> reads
  the new binding back.
\<close>

theorem bind_address_maps:
  assumes "walk_ok m" and "valid_va va" and "pa AND MASK 35 12 = pa" and "counter_ok pa m"
  shows "\<exists>m'. bind_address va pa ba m = Some (0, m') \<and> walk_ok m' \<and>
     get_physical_address m' va = Some (pa + (va AND MASK 11 0)) \<and>
     (\<forall>va'. valid_va va' \<longrightarrow> translate m' va' =
        (if page_of va' = page_of va then Some (pa + (va' AND MASK 11 0)) else translate m va'))"
proof -
  have pa: "pa AND MASK 11 0 = 0"
    using assms(3) by (rule aligned_page)
  obtain m' where m': "bind_address va pa ba m = Some (0, m')" "walk_ok m'"
    and "tables_only (m\<lparr>mem8 := counted pa m (mem8 m)\<rparr>) m'"
    and pt: "\<And>k l. k < 511 \<Longrightarrow> l < 512 \<Longrightarrow>
           pt m' k l = (if k = idx2 va \<and> l = idx3 va then Some (page_entry pa ba) else pt m k l)"
    and "\<And>k. k < 511 \<Longrightarrow> lvl3_table m' k = lvl3_table m k"
    by (rule bind_address_spec [OF assms(1,2) pa assms(4), of ba]) (rule that)
  have tr: "translate m' va' = (if page_of va' = page_of va then Some (pa + (va' AND MASK 11 0)) else translate m va')"
    if "valid_va va'" for va'
    using translate_eqI [OF pt assms(2) that] assms(3) by (simp add: page_entry_address)
  then have "get_physical_address m' va = Some (pa + (va AND MASK 11 0))"
    using translate_physical [OF m'(2) assms(2)] assms(2) by simp
  with m' tr show ?thesis by blast
qed

end
