(* ===== verification/Page_Pool.thy ===== *)
theory Page_Pool
  imports Mmu_Walk
begin

text \<open>
  Physical pages of \<^verbatim>\<open>src/src/memory/mmu.c\<close>: the stack of free pages (\<open>physical_memory_map\<close>), the
  counters of the bindings of each page, and the allocation of new pages.
\<close>

section \<open>Operations\<close>

definition map_entry :: "mmu_state \<Rightarrow> u32 \<Rightarrow> u32" where
  "map_entry m i = mem32 m (pm_map (physical_memory_map m) + 4 * ucast i)"

definition set_map_entry :: "u32 \<Rightarrow> u32 \<Rightarrow> mmu_state \<Rightarrow> mmu_state" where
  "set_map_entry i v m = m\<lparr>mem32 := (mem32 m)(pm_map (physical_memory_map m) + 4 * ucast i := v)\<rparr>"

definition set_pm_head :: "u32 \<Rightarrow> mmu_state \<Rightarrow> mmu_state" where
  "set_pm_head h m = m\<lparr>physical_memory_map := (physical_memory_map m)\<lparr>pm_head := h\<rparr>\<rparr>"

definition get_unbound_physical_page :: "mmu_state \<Rightarrow> (u64 \<times> mmu_state) option" where
  "get_unbound_physical_page m =
     (let h = pm_head (physical_memory_map m) in
      do { assert (h < pm_size (physical_memory_map m));
           Some (ucast (map_entry m h), set_pm_head (h + 1) m) })"

definition get_new_page :: "u64 \<Rightarrow> u64 \<Rightarrow> u64 \<Rightarrow> mmu_state \<Rightarrow> (int \<times> mmu_state) option" where
  "get_new_page virtual_address block_perm cache_config m =
     do { (physical_address, m1) \<leftarrow> get_unbound_physical_page m;
          bind_address virtual_address physical_address (new_block_attributes_sg1 block_perm cache_config) m1 }"

definition free_physical_page :: "u64 \<Rightarrow> mmu_state \<Rightarrow> mmu_state option" where
  "free_physical_page physical_addr m =
     (let h = pm_head (physical_memory_map m) in
      do { assert (h > 0);
           assert (physical_addr mod GRANULE = 0);
           assert (get_bind_counter m physical_addr = 0);
           Some (set_map_entry (h - 1) (ucast physical_addr) (set_pm_head (h - 1) m)) })"

definition decr_and_free_physical_page :: "u64 \<Rightarrow> mmu_state \<Rightarrow> mmu_state option" where
  "decr_and_free_physical_page physical_address m =
     (let m1 = decrement_bind_counter physical_address m in
      if get_bind_counter m1 physical_address = 0 then free_physical_page physical_address m1 else Some m1)"

text \<open>
  \<open>free_virtual_page\<close> reads and writes the entry before it looks at the status of the walk: with an
  error code instead of an address that is an access to an unaligned address, which the model
  treats as undefined. The TLB and cache instructions that follow have no effect on the state.
\<close>

definition free_virtual_page :: "u64 \<Rightarrow> mmu_state \<Rightarrow> (int \<times> mmu_state) option" where
  "free_virtual_page virtual_addr m =
     (let lvl3_entry_phys_address = get_lvl3_entry_phys_address m virtual_addr in
      do { assert (lvl3_entry_phys_address AND MASK 2 0 = 0);
           let physical_address = get_address_sg1 m lvl3_entry_phys_address;
           let m1 = set_invalid_entry lvl3_entry_phys_address m;
           assert (physical_address \<ge> id_paging_size m1);
           m2 \<leftarrow> (if physical_address \<ge> id_paging_size m1
                  then decr_and_free_physical_page physical_address m1 else Some m1);
           Some (int_of_u64 (lvl3_entry_phys_address AND MASK 2 0), m2) })"

section \<open>The stack of free pages\<close>

text \<open>
  \<open>pool n m\<close> lists the free pages, the next one first, when the map has \<open>n\<close> entries.
\<close>

definition pool :: "nat \<Rightarrow> mmu_state \<Rightarrow> u64 list" where
  "pool n m = map (\<lambda>i. ucast (map_entry m (of_nat i))) [unat (pm_head (physical_memory_map m))..<n]"

text \<open>
  The interface of the page allocator for the code that uses it: allocation takes the first page
  of the pool, and freeing puts a page back in front of it.
\<close>

locale page_stack =
  fixes pages :: "'m \<Rightarrow> u64 list"
    and ok :: "'m \<Rightarrow> bool"
    and alloc_page :: "'m \<Rightarrow> (u64 \<times> 'm) option"
    and free_page :: "u64 \<Rightarrow> 'm \<Rightarrow> 'm option"
    and freeable :: "u64 \<Rightarrow> 'm \<Rightarrow> bool"
  assumes alloc_law: "ok m \<Longrightarrow> pages m = p # ps \<Longrightarrow>
      \<exists>m'. alloc_page m = Some (p, m') \<and> pages m' = ps \<and> ok m'"
    and free_law: "ok m \<Longrightarrow> freeable p m \<Longrightarrow> \<exists>m'. free_page p m = Some m' \<and> pages m' = p # pages m \<and> ok m'"
begin

lemma free_then_alloc:
  assumes "ok m" and "freeable p m"
  shows "\<exists>m1 m2. free_page p m = Some m1 \<and> alloc_page m1 = Some (p, m2) \<and> pages m2 = pages m"
  using free_law [OF assms] alloc_law by metis

lemma alloc_distinct:
  assumes "ok m" and "distinct (pages m)" and "pages m = p # q # ps"
  shows "\<exists>m1 m2. alloc_page m = Some (p, m1) \<and> alloc_page m1 = Some (q, m2) \<and> p \<noteq> q"
  using alloc_law [OF assms(1,3)] alloc_law [of _ q ps] assms(2,3) by force

lemma alloc_removes:
  assumes "ok m" and "distinct (pages m)" and "pages m \<noteq> []" and "alloc_page m = Some (p, m')"
  shows "p \<in> set (pages m)" and "p \<notin> set (pages m')" and "distinct (pages m')"
    and "set (pages m) = insert p (set (pages m'))"
proof -
  obtain q qs where qs: "pages m = q # qs" using assms(3) by (cases "pages m") auto
  with alloc_law [OF assms(1) qs] assms(4) have "p = q" "pages m' = qs" by auto
  with qs assms(2) show "p \<in> set (pages m)" and "p \<notin> set (pages m')" and "distinct (pages m')"
    and "set (pages m) = insert p (set (pages m'))" by auto
qed

end

section \<open>The code implements the stack\<close>

definition pool_wf :: "nat \<Rightarrow> mmu_state \<Rightarrow> bool" where
  "pool_wf n m \<longleftrightarrow> unat (pm_head (physical_memory_map m)) \<le> n \<and> n \<le> unat (pm_size (physical_memory_map m))"

definition pool_freeable :: "u64 \<Rightarrow> mmu_state \<Rightarrow> bool" where
  "pool_freeable p m \<longleftrightarrow> pm_head (physical_memory_map m) > 0 \<and> p mod GRANULE = 0 \<and>
     get_bind_counter m p = 0 \<and> p < 2 ^ 32"

lemma unat_size_32: "unat (x::u32) < 2 ^ 32"
proof -
  have "unat x < 2 ^ LENGTH(32)" by (rule unsigned_less)
  then show ?thesis by simp
qed

lemma pool_simps [simp]:
  "map_entry (set_pm_head h m) i = map_entry m i"
  "physical_memory_map (set_pm_head h m) = (physical_memory_map m)\<lparr>pm_head := h\<rparr>"
  "physical_memory_map (set_map_entry i v m) = physical_memory_map m"
  by (simp_all add: map_entry_def set_pm_head_def set_map_entry_def)

lemma map_address_inject: "a + 4 * ucast (i::u32) = a + 4 * (ucast j :: u64) \<longleftrightarrow> i = j"
proof
  assume "a + 4 * ucast i = a + 4 * (ucast j :: u64)"
  then have "push_bit 2 (ucast i :: u64) = push_bit 2 (ucast j)" by (simp add: push_bit_eq_mult mult.commute)
  then have *: "bit (push_bit 2 (ucast i :: u64)) (n + 2) = bit (push_bit 2 (ucast j :: u64)) (n + 2)" for n by simp
  have "bit i n = bit j n" if "n < 32" for n using that * [of n] by (simp add: bit_simps)
  then show "i = j" by (intro bit_word_eqI) simp
qed simp

lemma map_entry_set: "map_entry (set_map_entry i v m) j = (if j = i then v else map_entry m j)"
  using map_address_inject [of "pm_map (physical_memory_map m)" j i]
  by (auto simp: map_entry_def set_map_entry_def)

lemma pool_pop:
  assumes "pool_wf n m" and "pool n m = p # ps"
  shows "\<exists>m'. get_unbound_physical_page m = Some (p, m') \<and> pool n m' = ps \<and> pool_wf n m'"
proof -
  define h where "h = pm_head (physical_memory_map m)"
  have h: "unat h < n" using assms(2) by (cases "unat h < n") (simp_all add: pool_def h_def)
  then have hs: "h < pm_size (physical_memory_map m)"
    using assms(1) by (simp add: pool_wf_def h_def word_less_nat_alt)
  have suc: "unat (h + 1) = Suc (unat h)"
    using hs unat_size_32 [of "pm_size (physical_memory_map m)"]
    by (simp add: unat_word_ariths(1) word_less_nat_alt)
  have "[unat h..<n] = unat h # [Suc (unat h)..<n]" using h by (rule upt_conv_Cons)
  then have "p = ucast (map_entry m h)" "ps = map (\<lambda>i. ucast (map_entry m (of_nat i))) [Suc (unat h)..<n]"
    using assms(2) by (auto simp: pool_def h_def)
  then show ?thesis
    using hs suc h assms(1)
    by (simp add: get_unbound_physical_page_def Let_def pool_def pool_wf_def flip: h_def)
qed

lemma pool_push:
  assumes "pool_wf n m" and "pool_freeable p m"
  shows "\<exists>m'. free_physical_page p m = Some m' \<and> pool n m' = p # pool n m \<and> pool_wf n m'"
proof -
  define h where "h = pm_head (physical_memory_map m)"
  have h: "0 < h" "unat h \<le> n" and p: "p mod GRANULE = 0" "get_bind_counter m p = 0" "p < 2 ^ 32"
    using assms by (simp_all add: pool_wf_def pool_freeable_def h_def)
  have pre: "unat (h - 1) = unat h - 1" "0 < unat h"
  proof -
    have "h \<noteq> 0" using h(1) by auto
    then show "unat (h - 1) = unat h - 1" by (rule unat_minus_one)
    show "0 < unat h" using h(1) by (simp add: word_less_nat_alt)
  qed
  define m' where "m' = set_map_entry (h - 1) (ucast p) (set_pm_head (h - 1) m)"
  have code: "free_physical_page p m = Some m'"
    using h p by (simp add: free_physical_page_def Let_def m'_def flip: h_def)
  have same: "map_entry m' (of_nat i) = map_entry m (of_nat i)" if "unat h \<le> i" "i < n" for i
  proof -
    have "n < 2 ^ 32" using assms(1) unat_size_32 [of "pm_size (physical_memory_map m)"] by (simp add: pool_wf_def)
    then have "unat (of_nat i :: u32) = i" using that by (simp add: unat_of_nat take_bit_nat_eq_self)
    then have "of_nat i \<noteq> h - 1" using that pre by (metis One_nat_def diff_less not_le zero_less_one)
    then show ?thesis by (simp add: m'_def map_entry_set)
  qed
  have ucp: "ucast (ucast p :: u32) = p"
  proof (rule bit_word_eqI)
    have "unat p < 2 ^ 32" using p(3) by (simp add: word_less_nat_alt)
    then show "bit (ucast (ucast p :: u32) :: u64) k = bit p k" for k
      using bit_less_power [of p 32 k] by (auto simp: bit_simps)
  qed
  have "[unat h - 1..<n] = (unat h - 1) # [unat h..<n]"
    using pre h(2) by (subst upt_conv_Cons) auto
  moreover have "of_nat (unat h - 1) = h - 1" unfolding pre(1) [symmetric] by simp
  ultimately have "pool n m' = p # pool n m"
    using same pre by (simp add: pool_def m'_def map_entry_set ucp flip: h_def)
  then show ?thesis
    using code pre assms(1) by (auto simp: pool_wf_def m'_def simp flip: h_def)
qed

interpretation page_pool: page_stack "pool n" "pool_wf n" get_unbound_physical_page free_physical_page pool_freeable
  for n
  by unfold_locales (rule pool_pop, assumption+, rule pool_push, assumption+)

section \<open>New pages\<close>

lemma head_simps [simp]:
  "walk_ok (set_pm_head h m) = walk_ok m" "pt (set_pm_head h m) i j = pt m i j"
  "lvl3_table (set_pm_head h m) i = lvl3_table m i" "lvl2_entry (set_pm_head h m) i = lvl2_entry m i"
  "get_bind_counter_address (set_pm_head h m) pa = get_bind_counter_address m pa"
  "id_paging_size (set_pm_head h m) = id_paging_size m" "mem8 (set_pm_head h m) = mem8 m"
  "counter_ok pa (set_pm_head h m) = counter_ok pa m" "counted pa (set_pm_head h m) = counted pa m"
  by (simp_all add: set_pm_head_def walk_ok_def pt_def lvl3_table_def lvl2_entry_def AT_def
       get_bind_counter_address_def counter_ok_def counted_def fun_eq_iff)

lemma pool_cong:
  "mem32 m' = mem32 m \<Longrightarrow> physical_memory_map m' = physical_memory_map m \<Longrightarrow> pool n m' = pool n m"
  by (simp add: pool_def map_entry_def)

lemma get_new_page_spec:
  assumes "pool_wf n m" and "pool n m = p # ps" and "walk_ok m" and "valid_va va"
    and "p AND MASK 35 12 = p" and "counter_ok p m"
  shows "\<exists>m'. get_new_page va perm cache m = Some (0, m') \<and> pool_wf n m' \<and> pool n m' = ps \<and> walk_ok m' \<and>
     mem8 m' = counted p m (mem8 m) \<and> id_paging_size m' = id_paging_size m \<and>
     bind_counter_offset (physical_memory_map m') = bind_counter_offset (physical_memory_map m) \<and>
     bind_counter (physical_memory_map m') = bind_counter (physical_memory_map m) \<and>
     pm_head (physical_memory_map m') = pm_head (physical_memory_map m) + 1 \<and>
     (\<forall>k<511. \<forall>l<512. pt m' k l = (if k = idx2 va \<and> l = idx3 va
        then Some (page_entry p (new_block_attributes_sg1 perm cache)) else pt m k l))"
proof -
  have pa: "p AND MASK 11 0 = 0"
    using assms(5) by (rule aligned_page)
  from pool_pop [OF assms(1,2)] obtain m1 where m1: "get_unbound_physical_page m = Some (p, m1)"
    "pool n m1 = ps" "pool_wf n m1" by blast
  then have m1_def: "m1 = set_pm_head (pm_head (physical_memory_map m) + 1) m"
    by (auto simp: get_unbound_physical_page_def Let_def bind_eq_Some_conv)
  have ok1: "walk_ok m1" and c1: "counter_ok p m1" using assms(3,6) by (simp_all add: m1_def)
  obtain m' where m': "bind_address va p (new_block_attributes_sg1 perm cache) m1 = Some (0, m')" "walk_ok m'"
    and to: "tables_only (m1\<lparr>mem8 := counted p m1 (mem8 m1)\<rparr>) m'"
    and pt: "\<And>k l. k < 511 \<Longrightarrow> l < 512 \<Longrightarrow>
           pt m' k l = (if k = idx2 va \<and> l = idx3 va then Some (page_entry p (new_block_attributes_sg1 perm cache)) else pt m1 k l)"
    and "\<And>k. k < 511 \<Longrightarrow> lvl3_table m' k = lvl3_table m1 k"
    by (rule bind_address_spec [OF ok1 assms(4) pa c1, of "new_block_attributes_sg1 perm cache"]) (rule that)
  note T = tables_onlyD [OF to]
  have "pool n m' = ps" using pool_cong [of m' m1] T m1(2) by simp
  moreover have "pool_wf n m'" using m1(3) T by (simp add: pool_wf_def)
  ultimately show ?thesis
    using m' m1(1) pt T by (simp add: get_new_page_def m1_def)
qed

section \<open>Freeing pages\<close>

lemma map_simps [simp]:
  "walk_ok (set_map_entry j v m) = walk_ok m" "pt (set_map_entry j v m) k l = pt m k l"
  "mem8 (set_map_entry j v m) = mem8 m"
  by (simp_all add: set_map_entry_def walk_ok_def pt_def lvl3_table_def lvl2_entry_def AT_def)

lemma aligned_mod: "aligned a \<longleftrightarrow> a mod GRANULE = 0"
  using and_MASK_low [of 11 a] by (simp add: aligned_def)

lemma free_virtual_page_spec:
  assumes pool: "pool_wf n m" and ok: "walk_ok m" and va: "valid_va va"
    and e: "pt m (idx2 va) (idx3 va) = Some e" and pa: "pa = e AND MASK 47 12" "id_paging_size m \<le> pa"
    and a: "a = get_bind_counter_address m pa"
    and last: "mem8 m a = 1 \<Longrightarrow> pm_head (physical_memory_map m) > 0 \<and> pa < 2 ^ 32"
  shows "\<exists>m'. free_virtual_page va m = Some (0, m') \<and> walk_ok m' \<and> pool_wf n m' \<and>
     mem8 m' = (mem8 m)(a := mem8 m a - 1) \<and>
     pool n m' = (if mem8 m a = 1 then pa # pool n m else pool n m) \<and>
     (\<forall>k<511. \<forall>l<512. pt m' k l = (if k = idx2 va \<and> l = idx3 va then None else pt m k l))"
proof -
  define w where "w = lvl3_table m (idx2 va) + 8 * idx3 va"
  have i: "idx2 va < 511" using va by (simp add: valid_va_def)
  have tab: "is_table_entry (lvl2_entry m (idx2 va))" and ew: "AT m w = e"
    using e by (auto simp: pt_def w_def Let_def split: if_splits)
  have walk: "get_lvl3_entry_phys_address m va = w"
    using tab by (simp add: get_lvl3_entry_valid [OF ok va] w_def)
  have w0: "w AND MASK 2 0 = 0" unfolding w_def by (rule entry_page(3)) simp_all
  define m1 where "m1 = AT_store w (e AND MASK 63 1) m"
  define m2 where "m2 = m1\<lparr>mem8 := (mem8 m)(a := mem8 m a - 1)\<rparr>"
  note L = lvl3_store [OF ok i _ w_def, simplified]
  have ok2: "walk_ok m2" using L(2) by (simp add: m2_def m1_def)
  have pt2: "pt m2 k l = (if k = idx2 va \<and> l = idx3 va then None else pt m k l)" if "k < 511" "l < 512" for k l
    using L(3) [OF that] by (simp add: m2_def m1_def)
  have p2: "pool n m2 = pool n m" "pool_wf n m2"
    using pool pool_cong [of m2 m] by (simp_all add: m2_def m1_def pool_wf_def)
  have cnt: "get_bind_counter_address m1 pa = a" "get_bind_counter_address m2 pa = a"
    by (simp_all add: get_bind_counter_address_def m1_def m2_def a)
  have dec: "decrement_bind_counter pa m1 = m2"
    by (simp add: decrement_bind_counter_def cnt m2_def) (simp add: m1_def)
  have m1': "set_invalid_entry w m = m1" and adr: "get_address_sg1 m w = pa"
    and id1: "id_paging_size m1 = id_paging_size m" and z: "int_of_u64 0 = 0"
    by (simp_all add: m1_def set_invalid_entry_def ew get_address_sg1_def pa(1) int_of_u64_def)
  have c2: "get_bind_counter m2 pa = 0 \<longleftrightarrow> mem8 m a - 1 = 0"
    unfolding get_bind_counter_def cnt uint_0_iff by (simp add: m2_def)
  have code: "free_virtual_page va m =
      (if mem8 m a - 1 = 0 then free_physical_page pa m2 else Some m2) \<bind> (\<lambda>m'. Some (0, m'))"
    unfolding free_virtual_page_def walk Let_def adr m1' id1 decr_and_free_physical_page_def dec c2 w0 z
    using pa(2) by simp
  show ?thesis
  proof (cases "mem8 m a = 1")
    case True
    have "aligned pa" by (simp add: pa(1))
    then have "pool_freeable pa m2"
      using last [OF True] True
      by (simp add: pool_freeable_def aligned_mod get_bind_counter_def cnt) (simp add: m2_def m1_def)
    from pool_push [OF p2(2) this] obtain m3 where m3: "free_physical_page pa m2 = Some m3"
      "pool n m3 = pa # pool n m2" "pool_wf n m3" by blast
    then have "m3 = set_map_entry (pm_head (physical_memory_map m2) - 1) (ucast pa)
        (set_pm_head (pm_head (physical_memory_map m2) - 1) m2)"
      by (auto simp: free_physical_page_def Let_def bind_eq_Some_conv)
    then show ?thesis
      using True m3 ok2 pt2 p2 by (simp add: code) (simp add: m2_def)
  next
    case False
    then have "mem8 m a - 1 \<noteq> 0" by simp
    then show ?thesis
      using False ok2 pt2 p2 by (simp add: code) (simp add: m2_def)
  qed
qed

section \<open>Properties\<close>

text \<open>
  C21. \<open>get_new_page\<close> followed by \<open>free_virtual_page\<close> of the same address: both calls return 0, the free
  pages are those of the beginning, in the same order, every bind counter has its old value, and the
  page of the address ends unmapped while every other page is translated as before. So when the
  address was not mapped, every translation is restored; a page that was mapped there before is no longer
  reachable, and stays counted.
\<close>

theorem new_page_free_page:
  assumes "pool_wf n m" and "pool n m = p # ps" and "walk_ok m" and "valid_va va"
    and "p AND MASK 35 12 = p" and "counter_ok p m" and "id_paging_size m \<le> p"
    and "mem8 m (get_bind_counter_address m p) = 0"
  shows "\<exists>m1 m2. get_new_page va perm cache m = Some (0, m1) \<and>
     translate m1 va = Some (p + (va AND MASK 11 0)) \<and>
     free_virtual_page va m1 = Some (0, m2) \<and> walk_ok m2 \<and> pool n m2 = pool n m \<and> mem8 m2 = mem8 m \<and>
     (\<forall>va'. valid_va va' \<longrightarrow> translate m2 va' = (if page_of va' = page_of va then None else translate m va')) \<and>
     (translate m va = None \<longrightarrow> (\<forall>va'. valid_va va' \<longrightarrow> translate m2 va' = translate m va'))"
proof -
  define e where "e = page_entry p (new_block_attributes_sg1 perm cache)"
  define a where "a = get_bind_counter_address m p"
  obtain m1 where m1: "get_new_page va perm cache m = Some (0, m1)" "pool_wf n m1" "pool n m1 = ps" "walk_ok m1"
    and c1: "mem8 m1 = counted p m (mem8 m)" and id1: "id_paging_size m1 = id_paging_size m"
    and pm1: "bind_counter_offset (physical_memory_map m1) = bind_counter_offset (physical_memory_map m)"
      "bind_counter (physical_memory_map m1) = bind_counter (physical_memory_map m)"
      "pm_head (physical_memory_map m1) = pm_head (physical_memory_map m) + 1"
    and pt1: "\<forall>k<511. \<forall>l<512. pt m1 k l = (if k = idx2 va \<and> l = idx3 va then Some e else pt m k l)"
    using get_new_page_spec [OF assms(1-6), of perm cache] unfolding e_def by blast
  have i: "idx2 va < 511" using assms(4) by (simp add: valid_va_def)
  have e1: "pt m1 (idx2 va) (idx3 va) = Some e" using pt1 i by simp
  have pe: "p = e AND MASK 47 12" using assms(5) by (simp add: e_def page_entry_address)
  have a1: "a = get_bind_counter_address m1 p"
    using pm1 by (simp add: a_def get_bind_counter_address_def)
  have p32: "p < 2 ^ 32"
  proof -
    have "p \<in> set (pool n m)" using assms(2) by simp
    then obtain x :: u32 where "p = ucast x" by (auto simp: pool_def)
    then show ?thesis using unat_size_32 [of x] by (simp add: word_less_nat_alt unsigned_ucast_eq take_bit_nat_eq_self)
  qed
  have "pm_head (physical_memory_map m) < pm_size (physical_memory_map m)"
    using pool_pop [OF assms(1,2)] by (auto simp: get_unbound_physical_page_def Let_def bind_eq_Some_conv)
  then have h1: "pm_head (physical_memory_map m1) > 0"
    using unat_size_32 [of "pm_size (physical_memory_map m)"]
    by (simp add: pm1 word_less_nat_alt unat_word_ariths(1))
  obtain m2 where m2: "free_virtual_page va m1 = Some (0, m2)" "walk_ok m2"
    and c2: "mem8 m2 = (mem8 m1)(a := mem8 m1 a - 1)"
    and p2: "pool n m2 = (if mem8 m1 a = 1 then p # pool n m1 else pool n m1)"
    and pt2: "\<forall>k<511. \<forall>l<512. pt m2 k l = (if k = idx2 va \<and> l = idx3 va then None else pt m1 k l)"
    using free_virtual_page_spec [OF m1(2,4) assms(4) e1 pe _ a1] assms(7) id1 h1 p32 by auto
  have c: "mem8 m1 = (mem8 m)(a := 1)"
    using assms(7,8) by (simp add: c1 counted_def a_def)
  then have "mem8 m2 = mem8 m" using c2 assms(8) by (auto simp: a_def)
  moreover have "pool n m2 = pool n m" using p2 c m1(3) assms(2) by simp
  moreover have "translate m1 va = Some (p + (va AND MASK 11 0))"
    using e1 by (simp add: translate_def pe [symmetric])
  moreover have "translate m2 va' = (if page_of va' = page_of va then None else translate m va')" if "valid_va va'" for va'
    using translate_eqI [of m2 va None m, OF _ assms(4) that] pt1 pt2 by simp
  moreover have "translate m va' = None" if "translate m va = None" "valid_va va'" "page_of va' = page_of va" for va'
    using that same_page_idx [OF assms(4) that(2)] by (simp add: translate_def)
  ultimately show ?thesis using m1(1) m2 by (intro exI [of _ m1] exI [of _ m2]) simp
qed

end
