(* ===== verification/Mmu_Init.thy ===== *)
theory Mmu_Init
  imports Page_Pool Proc_State
begin

text \<open>
  Construction of address spaces in \<^verbatim>\<open>src/src/memory/mmu.c\<close>: the tables of the kernel and of \<open>init\<close>
  (identity paging), those of a forked process (copy on write), and the map of free physical pages.
  The addresses that the linker script defines are an argument, \<open>link_layout\<close>. Where the code only
  logs a status it is dropped; an \<open>abort\<close> is \<open>None\<close>.
\<close>

section \<open>Addresses\<close>

record link_layout =
  data_start :: u64
  mmu_tables_start :: u64
  physical_memory_map_addr :: u64
  end_addr :: u64

abbreviation (input) STACK_END :: u64 where "STACK_END \<equiv> GPIO_BASE - 2 * GRANULE"
abbreviation (input) STACK_PAGE_1 :: u64 where "STACK_PAGE_1 \<equiv> GPIO_BASE - 1 * GRANULE"
abbreviation (input) STACK_PAGE_2 :: u64 where "STACK_PAGE_2 \<equiv> GPIO_BASE - 2 * GRANULE"
abbreviation (input) PAGE_RES_1 :: u64 where "PAGE_RES_1 \<equiv> GPIO_BASE - 3 * GRANULE"
abbreviation (input) PAGE_RES_2 :: u64 where "PAGE_RES_2 \<equiv> GPIO_BASE - 4 * GRANULE"

text \<open>
  The layout that \<^verbatim>\<open>src/src/linker.ld\<close> produces for a kernel whose data section starts at \<open>ds\<close> and
  ends at \<open>de\<close>.
\<close>

definition align_up :: "u64 \<Rightarrow> u64 \<Rightarrow> u64" where
  "align_up k a = (a + (k - 1)) div k * k"

definition linker_symbols :: "u64 \<Rightarrow> u64 \<Rightarrow> link_layout" where
  "linker_symbols ds de =
     (let tables = align_up 0x200000 de; pmap = tables + 0x4000000
      in \<lparr>data_start = ds, mmu_tables_start = tables, physical_memory_map_addr = pmap,
          end_addr = align_up 0x200000 (pmap + 0x100000 + 0x40000)\<rparr>)"

text \<open>\<open>for (p = a; p < b; p += GRANULE)\<close>, for bounds that do not wrap around.\<close>

definition for_pages :: "u64 \<Rightarrow> u64 \<Rightarrow> (u64 \<Rightarrow> 's \<Rightarrow> 's option) \<Rightarrow> 's \<Rightarrow> 's option" where
  "for_pages a b body = for_range 0 ((unat b - unat a + 4095) div 4096) (\<lambda>i. body (a + of_nat i * GRANULE))"

section \<open>Identity paging\<close>

definition populate_lvl2_table :: "u64 \<Rightarrow> mmu_state \<Rightarrow> mmu_state option" where
  "populate_lvl2_table lvl3_address m =
     do { assert (lvl2_table_address m mod GRANULE = 0);
          assert (lvl3_address mod GRANULE = 0);
          for_range 0 511 (\<lambda>i m. Some (init_table_entry_sg1
            (lvl2_table_address m + of_nat i * 8) (lvl3_address + of_nat i * GRANULE) m)) m }"

definition check_identity_paging :: "mmu_state \<Rightarrow> unit option" where
  "check_identity_paging m =
     for_pages 0 (id_paging_size m) (\<lambda>physical_pnt _.
       let e = get_lvl3_entry_phys_address m physical_pnt in
       do { assert (e AND MASK 2 0 = 0);
            assert (is_block_entry (AT m e) 3);
            pa \<leftarrow> get_physical_address m physical_pnt;
            assert (pa = physical_pnt) }) ()"

definition map_peripheral_pages :: "mmu_state \<Rightarrow> mmu_state option" where
  "map_peripheral_pages m =
     (let ba = new_block_attributes_sg1 (IO_PAGE OR ACCESS_FLAG_SET) DEVICE in
      do { (_, m1) \<leftarrow> bind_address GPIO_BASE GPIO_BASE ba m;
           (_, m2) \<leftarrow> bind_address (GPIO_BASE + 0x1000) (GPIO_BASE + 0x1000) ba m1;
           (_, m3) \<leftarrow> bind_address (GPIO_BASE + 0x15000) (GPIO_BASE + 0x15000) ba m2;
           let ba = new_block_attributes_sg1 (KERNEL_PAGE OR ACCESS_FLAG_SET) DEVICE;
           (_, m4) \<leftarrow> bind_address TIMER_IRQ_PAGE TIMER_IRQ_PAGE ba m3;
           Some m4 })"

definition map_table_zone :: "link_layout \<Rightarrow> block_attributes_sg1 \<Rightarrow> mmu_state \<Rightarrow> mmu_state option" where
  "map_table_zone ll ba m =
     (let start = mmu_tables_start ll; n_pages = (id_paging_size m - start) div GRANULE in
      do { assert (n_pages mod 512 = 0);
           (_, m') \<leftarrow> for_pages start (id_paging_size m) (\<lambda>physical_pnt (ba, m).
              let ba1 = (if (physical_pnt - start) div GRANULE > 16 * (n_pages div 16)
                         then ba\<lparr>ContinuousBit := 0\<rparr> else ba)
              in do { (_, m1) \<leftarrow> bind_address physical_pnt physical_pnt ba1 m; Some (ba1, m1) })
              (ba\<lparr>ContinuousBit := 1\<rparr>, m);
           Some m' })"

definition bind_identity :: "u64 \<Rightarrow> u64 \<Rightarrow> block_attributes_sg1 \<Rightarrow> mmu_state \<Rightarrow> mmu_state option" where
  "bind_identity a b ba =
     for_pages a b (\<lambda>physical_pnt m. map_option snd (bind_address physical_pnt physical_pnt ba m))"

definition identity_paging :: "link_layout \<Rightarrow> mmu_state \<Rightarrow> mmu_state option" where
  "identity_paging ll m =
     (let kernel_ba = new_block_attributes_sg1 (KERNEL_PAGE OR ACCESS_FLAG_SET) NORMAL_WT_NT;
          code_ba = new_block_attributes_sg1 (CODE_PAGE OR ACCESS_FLAG_SET) NORMAL_WT_NT;
          data_ba = new_block_attributes_sg1 (DATA_PAGE OR ACCESS_FLAG_SET) NORMAL_WT_NT
      in do { m1 \<leftarrow> bind_identity 0 (data_start ll) code_ba m;
              m2 \<leftarrow> bind_identity (data_start ll) (mmu_tables_start ll) data_ba m1;
              m3 \<leftarrow> map_table_zone ll kernel_ba m2;
              let current_table_index = (id_paging_size m3 div GRANULE) mod 512;
              let first = id_paging_size m3 div (GRANULE * 512) + (if current_table_index = 0 then 0 else 1);
              m4 \<leftarrow> for_range (unat first) 512 (\<lambda>i m.
                      Some (set_invalid_entry (lvl2_table_address m + of_nat i * 8) m)) m3;
              if current_table_index \<noteq> 0
              then for_range 0 (512 - unat current_table_index)
                     (\<lambda>i m. set_invalid_page (id_paging_size m + of_nat i * GRANULE) m) m4
              else Some m4 })"

section \<open>The map of free pages\<close>

abbreviation (input) SKIPPED_PAGES :: u64 where "SKIPPED_PAGES \<equiv> 3"

definition init_physical_memory_map :: "link_layout \<Rightarrow> mmu_state \<Rightarrow> mmu_state option" where
  "init_physical_memory_map ll m =
     (let id = id_paging_size m; memmap_addr = physical_memory_map_addr ll;
          m1 = m\<lparr>physical_memory_map := \<lparr>pm_map = memmap_addr, pm_head = 0, pm_size = 0x100000,
                  bind_counter_offset = id div GRANULE, bind_counter = memmap_addr + 0x100000\<rparr>\<rparr>
      in do { m2 \<leftarrow> for_range (unat (id div GRANULE)) (512 * 512)
                      (\<lambda>i m. Some (set_bind_counter (of_nat i * GRANULE) 0 m)) m1;
              (_, m3) \<leftarrow> for_range 0 (unat ((RAM_SIZE - id) div GRANULE - SKIPPED_PAGES)) (\<lambda>i (delta, m).
                 let page = (\<lambda>d::u32. ucast ((of_nat i + d) * 0x1000) + id);
                     delta1 = (if page delta \<in> {GPIO_BASE, GPIO_BASE + 0x1000, GPIO_BASE + 0x15000, TIMER_IRQ_PAGE}
                               then delta + 1 else delta)
                 in Some (delta1, set_map_entry (pm_head (physical_memory_map m) + of_nat i)
                                    (ucast (page delta1)) m)) (0, m2);
              Some m3 })"

definition init_cache :: "mmu_state \<Rightarrow> mmu_state" where
  "init_cache m =
     (let mair = push_bit (8 * 1) 0b10111011 OR push_bit (8 * 2) 0b00110011 OR push_bit (8 * 3) 0b11111111 OR
                 push_bit (8 * 4) 0b01110111 OR push_bit (8 * 5) 0b01000100;
          config = 0b10;
          tcr = TCR_EL1 m AND NOT (MASK 27 26) AND NOT (MASK 25 24) AND NOT (MASK 11 10) AND NOT (MASK 9 8)
      in m\<lparr>MAIR_EL1 := mair,
           TCR_EL1 := tcr OR push_bit 26 config OR push_bit 24 config OR push_bit 10 config OR push_bit 8 config\<rparr>)"

section \<open>Copy on write\<close>

text \<open>
  The copy of a page through two virtual addresses, which the hardware translates with the table in
  \<open>TTBR0_EL1\<close>; an address that is not mapped there is a fault in the kernel, outside the model.
\<close>

definition hw_page :: "mmu_state \<Rightarrow> u64 \<Rightarrow> u64 option" where
  "hw_page m va = map_option page_of (translate (set_lvl2_address_from_TTBR0_EL1 m) va)"

definition copy_page :: "u64 \<Rightarrow> u64 \<Rightarrow> mmu_state \<Rightarrow> mmu_state option" where
  "copy_page dst src m =
     do { d \<leftarrow> hw_page m dst;
          s \<leftarrow> hw_page m src;
          Some (m\<lparr>frame := (frame m)(d := frame m s)\<rparr>) }"

definition copy_forked_page :: "link_layout \<Rightarrow> system_state \<Rightarrow> u64 \<Rightarrow> mmu_state \<Rightarrow> mmu_state option" where
  "copy_forked_page ll sys page m =
     do { assert (page mod GRANULE = 0);
          phys_address \<leftarrow> get_physical_address m page;
          assert (get_bind_counter m phys_address = 2);
          let m1 = decrement_bind_counter phys_address m;
          let kernel_lvl2_table_addr = get_lvl2_address_from_sys_state sys KERNEL_PID;
          assert (mmu_tables_start ll = kernel_lvl2_table_addr);
          let backup_lvl2_table_addr = lvl2_table_address m1;
          let m2 = m1\<lparr>lvl2_table_address := kernel_lvl2_table_addr\<rparr>;
          let kernel_ba = new_block_attributes_sg1 (KERNEL_PAGE OR ACCESS_FLAG_SET) NORMAL_WT_NT;
          (status, m3) \<leftarrow> bind_address PAGE_RES_1 phys_address kernel_ba m2;
          assert (status = 0);
          (status, m4) \<leftarrow> get_new_page PAGE_RES_2 (KERNEL_PAGE OR ACCESS_FLAG_SET) NORMAL_WT_NT m3;
          assert (status = 0);
          new_phys_address \<leftarrow> get_physical_address m4 PAGE_RES_2;
          m5 \<leftarrow> copy_page PAGE_RES_2 PAGE_RES_1 m4;
          let usr_ba = new_block_attributes_sg1 (USER_PAGE OR ACCESS_FLAG_SET) NORMAL_WT_NT;
          let m6 = decrement_bind_counter new_phys_address (decrement_bind_counter phys_address m5);
          m7 \<leftarrow> set_invalid_page PAGE_RES_1 m6;
          m8 \<leftarrow> set_invalid_page PAGE_RES_2 m7;
          let m9 = m8\<lparr>lvl2_table_address := backup_lvl2_table_addr\<rparr>;
          (_, m10) \<leftarrow> bind_address page new_phys_address usr_ba m9;
          Some m10 }"

text \<open>One entry of the level 3 tables in the inner loop of \<open>process_init_copy_and_write\<close>.\<close>

definition copy_entry :: "u64 \<Rightarrow> u64 \<Rightarrow> nat \<Rightarrow> nat \<Rightarrow> mmu_state \<Rightarrow> mmu_state option" where
  "copy_entry parent_lvl2_entry_addr lvl2_entry_addr i j m =
     (let parent_lvl3_entry_addr = get_address_sg1 m parent_lvl2_entry_addr + of_nat j * 8;
          lvl3_entry_addr = get_address_sg1 m lvl2_entry_addr + of_nat j * 8;
          virtual_addr = GRANULE * (of_nat i * N_TABLE_ENTRIES + of_nat j);
          forked_page = new_block_attributes_sg1 (FORKED_PAGE OR ACCESS_FLAG_SET) NORMAL_WT_NT
      in if \<not> is_block_entry (AT m parent_lvl3_entry_addr) 3 then Some (set_invalid_entry lvl3_entry_addr m)
         else if virtual_addr = TIMER_IRQ_PAGE then Some m
         else
           let m1 = (if virtual_addr \<noteq> STACK_PAGE_1 \<and> virtual_addr \<noteq> STACK_PAGE_2
                     then set_block_and_page_attributes_sg1 parent_lvl3_entry_addr forked_page m else m);
               m2 = AT_store lvl3_entry_addr (AT m1 parent_lvl3_entry_addr) m1
           in increment_bind_counter (get_address_sg1 m2 lvl3_entry_addr) m2)"

definition process_init_copy_and_write :: "link_layout \<Rightarrow> system_state \<Rightarrow> nat \<Rightarrow> mmu_state \<Rightarrow> mmu_state option" where
  "process_init_copy_and_write ll sys p m =
     (let parent_lvl2_table_addr = get_lvl2_address_from_sys_state sys (get_parent_pid sys p);
          zone = GRANULE * N_TABLE_ENTRIES
      in do { assert (id_paging_size m mod zone = 0);
              assert (mmu_tables_start ll mod zone = 0);
              let n_kernel_tables = unat ((if p = MEM_MANAGER_PID then mmu_tables_start ll else id_paging_size m) div zone);
              assert (GPIO_BASE mod zone = 0);
              let n_available_tables = unat (GPIO_BASE div zone);
              m1 \<leftarrow> for_range 0 n_kernel_tables (\<lambda>i m. Some (AT_store (lvl2_table_address m + of_nat i * 8)
                      (AT m (parent_lvl2_table_addr + of_nat i * 8)) m)) m;
              m2 \<leftarrow> (if p = MEM_MANAGER_PID
                     then map_table_zone ll (new_block_attributes_sg1 (DATA_PAGE OR ACCESS_FLAG_SET) NORMAL_WT_NT) m1
                     else Some m1);
              let n_kernel_tables = unat (id_paging_size m2 div zone);
              m3 \<leftarrow> for_range n_kernel_tables n_available_tables (\<lambda>i m.
                 let parent_lvl2_entry_addr = parent_lvl2_table_addr + of_nat i * 8;
                     lvl2_entry_addr = lvl2_table_address m + of_nat i * 8
                 in if \<not> is_table_entry (AT m parent_lvl2_entry_addr) then Some (set_invalid_entry lvl2_entry_addr m)
                    else for_range 0 512 (copy_entry parent_lvl2_entry_addr lvl2_entry_addr i) m) m2;
              m4 \<leftarrow> copy_forked_page ll sys STACK_PAGE_1 m3;
              copy_forked_page ll sys STACK_PAGE_2 m4 })"

section \<open>c_init_mmu\<close>

definition c_init_mmu :: "link_layout \<Rightarrow> system_state \<Rightarrow> nat \<Rightarrow> mmu_state \<Rightarrow> (u64 \<times> mmu_state) option" where
  "c_init_mmu ll sys p m =
     do { assert (p < 32);
          let m1 = m\<lparr>id_paging_size := end_addr ll,
                     lvl2_table_address := mmu_tables_start ll + of_nat p * N_TABLE_ENTRIES * GRANULE\<rparr>;
          m2 \<leftarrow> populate_lvl2_table (lvl2_table_address m1 + GRANULE) m1;
          m3 \<leftarrow> (if p = KERNEL_PID \<or> p = INIT_PID then
                   do { m3 \<leftarrow> (if p = KERNEL_PID then map_option init_cache (init_physical_memory_map ll m2) else Some m2);
                        m4 \<leftarrow> identity_paging ll m3;
                        check_identity_paging m4;
                        (_, m5) \<leftarrow> get_new_page STACK_PAGE_1 (DATA_PAGE OR ACCESS_FLAG_SET) NORMAL_WT_NT m4;
                        (_, m6) \<leftarrow> get_new_page STACK_PAGE_2 (KERNEL_PAGE OR ACCESS_FLAG_SET) NORMAL_WT_NT m5;
                        Some m6 }
                 else process_init_copy_and_write ll sys p m2);
          m7 \<leftarrow> map_peripheral_pages m3;
          Some (lvl2_table_address m7, m7) }"

end
