(* ===== verification/Identity_Paging.thy ===== *)
theory Identity_Paging
  imports Mmu_Init
begin

text \<open>
  The tables of the kernel and of \<open>init\<close>: \<open>populate_lvl2_table\<close> gives every process tables in pages
  of their own, whatever the memory contained before, and \<open>identity_paging\<close> maps exactly the
  addresses below \<open>id_paging_size\<close>, each to itself.
\<close>

section \<open>Addresses as numbers\<close>

lemma unat_64: "unat (x::u64) < 2 ^ 64"
proof -
  have "unat x < 2 ^ LENGTH(64)" by (rule unsigned_less)
  then show ?thesis by simp
qed

lemma unat_take_bits: "(\<And>n. bit (x::u64) n \<Longrightarrow> n < k) \<Longrightarrow> unat x < 2 ^ k"
proof -
  assume "\<And>n. bit x n \<Longrightarrow> n < k"
  then have "take_bit k x = x" by (intro bit_word_eqI) (auto simp: bit_simps)
  then have "take_bit k (unat x) = unat x" by (simp flip: unsigned_take_bit_eq)
  then show ?thesis by (metis take_bit_nat_less_exp)
qed

lemma unat_idx2:
  assumes "unat va < 2 ^ 30"
  shows "unat (idx2 va) = unat va div 0x200000"
proof -
  have "idx2 va = drop_bit 21 va"
    by (rule bit_word_eqI) (auto simp: bit_idx bit_simps dest: bit_less_power [OF assms])
  then show ?thesis by (simp add: drop_bit_eq_div unat_div_distrib)
qed

lemma valid_va_iff: "valid_va va \<longleftrightarrow> va < 0x3FE00000"
proof -
  note i = unat_idx2 [of va]
  show ?thesis
  proof
    assume v: "valid_va va"
    then have "unat va < 2 ^ 30" by (intro unat_take_bits valid_va_bits)
    moreover have "unat (idx2 va) < 511" using v by (simp add: valid_va_def word_less_nat_alt)
    ultimately show "va < 0x3FE00000" using i by (simp add: word_less_nat_alt)
  next
    assume "va < 0x3FE00000"
    then have u: "unat va < 0x3FE00000" by (simp add: word_less_nat_alt)
    then have u30: "unat va < 2 ^ 30" by simp
    have "va AND MASK 47 30 = 0" "va AND MASK 63 48 = 0"
      by (rule bit_word_eqI; auto simp: bit_simps dest: bit_less_power [OF u30])+
    moreover have "idx2 va < 511" using i [OF u30] u by (simp add: word_less_nat_alt)
    ultimately show "valid_va va" by (simp add: valid_va_def)
  qed
qed

lemma unat_page_of: "unat (page_of va) = unat va div 4096 * 4096"
proof -
  have "page_of va = push_bit 12 (drop_bit 12 va)"
    by (rule bit_word_eqI) (auto simp: bit_page_of bit_simps)
  then have "unat (page_of va) = take_bit 64 (push_bit 12 (drop_bit 12 (unat va)))"
    by (simp add: unsigned_push_bit_eq unat_drop_bit_eq)
  also have "push_bit 12 (drop_bit 12 (unat va)) = unat va div 4096 * 4096"
    by (simp add: push_bit_eq_mult drop_bit_eq_div)
  also have "take_bit 64 (unat va div 4096 * 4096) = unat va div 4096 * 4096"
    using unat_64 [of va] by (intro take_bit_nat_eq_self) (simp add: le_less_trans [OF div_times_less_eq_dividend])
  finally show ?thesis .
qed

lemma unat_offset: "unat (va AND MASK 11 0) = unat va mod 4096"
  by (simp add: and_MASK_low unat_mod_distrib)

lemma page_split: "page_of va + (va AND MASK 11 0) = va"
  using unat_64 [of va] by (simp add: word_unat_eq_iff unat_word_ariths(1) unat_page_of unat_offset)

lemma aligned_unat: "aligned p \<longleftrightarrow> unat p mod 4096 = 0"
  using unat_offset [of p] by (simp add: aligned_def word_unat_eq_iff)

lemma page_of_iff:
  assumes "aligned p"
  shows "page_of va = p \<longleftrightarrow> unat p \<le> unat va \<and> unat va < unat p + 4096"
proof -
  obtain c where c: "unat p = 4096 * c" using assms by (auto simp: aligned_unat)
  have "u div 4096 = c \<longleftrightarrow> 4096 * c \<le> u \<and> u < 4096 * c + 4096" for u :: nat
    using div_mult_mod_eq [of u 4096] mod_less_divisor [of 4096 u] by (auto intro!: div_nat_eqI)
  moreover have "page_of va = p \<longleftrightarrow> unat (page_of va) = unat p" by (rule word_unat_eq_iff)
  ultimately show ?thesis
    unfolding unat_page_of c by simp
qed

lemma page_number:
  assumes "aligned a" and "unat a + 4096 * n < 2 ^ 64"
  shows "unat (a + of_nat n * GRANULE) = unat a + 4096 * n" and "aligned (a + of_nat n * GRANULE)"
proof -
  show "unat (a + of_nat n * GRANULE) = unat a + 4096 * n"
    using assms(2) by (simp add: unat_word_ariths unat_of_nat mult.commute)
  then show "aligned (a + of_nat n * GRANULE)"
    using assms(1) by (simp add: aligned_unat)
qed

lemma page_mask:
  assumes "aligned a" and "unat a < 2 ^ 36"
  shows "a AND MASK 35 12 = a"
  by (rule bit_word_eqI) (auto simp: bit_simps dest: bit_less_power [OF assms(2)] bit_aligned [OF assms(1)])

section \<open>Loops that bind pages to themselves\<close>

text \<open>
  A loop over the state \<open>'s\<close> whose body binds one page after the other; \<open>M\<close> is the memory state in it.
\<close>

lemma bind_pages_loop:
  fixes M :: "'s \<Rightarrow> mmu_state" and f :: "nat \<Rightarrow> 's \<Rightarrow> 's option"
  assumes body: "\<And>i s. i < n \<Longrightarrow> f i s =
      map_option (\<lambda>r. g i s (snd r)) (bind_address (a + of_nat i * GRANULE) (a + of_nat i * GRANULE) (B i s) (M s))"
    and Mg: "\<And>i s m'. M (g i s m') = m'"
    and ok: "walk_ok (M s)" and a: "aligned a" and b: "unat a + 4096 * n \<le> unat (id_paging_size (M s))"
    and id: "unat (id_paging_size (M s)) \<le> 0x3FE00000"
  shows "\<exists>s'. for_range 0 n f s = Some s' \<and> walk_ok (M s') \<and> tables_only (M s) (M s') \<and>
     (\<forall>k<511. lvl3_table (M s') k = lvl3_table (M s) k) \<and>
     (\<forall>va. valid_va va \<longrightarrow> translate (M s') va =
        (if unat a \<le> unat va \<and> unat va < unat a + 4096 * n then Some va else translate (M s) va))"
proof -
  define P where "P k s' \<longleftrightarrow> walk_ok (M s') \<and> tables_only (M s) (M s') \<and>
     (\<forall>k<511. lvl3_table (M s') k = lvl3_table (M s) k) \<and>
     (\<forall>va. valid_va va \<longrightarrow> translate (M s') va =
        (if unat a \<le> unat va \<and> unat va < unat a + 4096 * k then Some va else translate (M s) va))" for k s'
  have "\<exists>s'. for_range 0 n f s = Some s' \<and> P n s'"
  proof (rule for_range_total)
    show "P 0 s" using ok by (auto simp: P_def)
    fix k t assume k: "k < n" and P: "P k t"
    define p where "p = a + of_nat k * GRANULE"
    have up: "unat p = unat a + 4096 * k" and ap: "aligned p"
      using page_number [OF a, of k] k b id by (simp_all add: p_def)
    have ids: "id_paging_size (M t) = id_paging_size (M s)" using P tables_onlyD(2) by (auto simp: P_def)
    have lt: "p < id_paging_size (M t)" using up k b by (simp add: ids word_less_nat_alt)
    have vp: "valid_va p" using up k b id by (simp add: valid_va_iff word_less_nat_alt)
    have p12: "p AND MASK 35 12 = p" using up k b id by (intro page_mask ap) simp
    have cnt: "counter_ok p (M t)" "counted p (M t) = (\<lambda>c. c)"
      using lt by (auto simp: counter_ok_def counted_def fun_eq_iff)
    have okt: "walk_ok (M t)" using P by (simp add: P_def)
    obtain m' where m': "bind_address p p (B k t) (M t) = Some (0, m')" "walk_ok m'"
      and to: "tables_only ((M t)\<lparr>mem8 := counted p (M t) (mem8 (M t))\<rparr>) m'"
      and pt: "\<And>i l. i < 511 \<Longrightarrow> l < 512 \<Longrightarrow>
           pt m' i l = (if i = idx2 p \<and> l = idx3 p then Some (page_entry p (B k t)) else pt (M t) i l)"
      and tabs: "\<And>i. i < 511 \<Longrightarrow> lvl3_table m' i = lvl3_table (M t) i"
      by (rule bind_address_spec [OF okt vp aligned_page [OF p12] cnt(1), of "B k t"]) (rule that)
    have tr: "translate m' va = (if page_of va = p then Some va else translate (M t) va)" if "valid_va va" for va
    proof -
      have "page_of p = p" using ap by (simp add: page_of_iff)
      moreover have "p + (va AND MASK 11 0) = va" if "page_of va = p" using page_split [of va] that by simp
      ultimately show ?thesis
        using translate_eqI [OF pt vp that] p12 by (simp add: page_entry_address)
    qed
    have "P (Suc k) (g k t m')"
      unfolding P_def Mg
    proof (intro conjI allI impI)
      show "walk_ok m'" by (rule m'(2))
      show "tables_only (M s) m'"
        using to P by (simp add: cnt(2) P_def) (metis tables_only_trans)
      show "lvl3_table m' i = lvl3_table (M s) i" if "i < 511" for i
        using tabs [OF that] P that by (simp add: P_def)
      show "translate m' va = (if unat a \<le> unat va \<and> unat va < unat a + 4096 * Suc k then Some va else translate (M s) va)"
        if va: "valid_va va" for va
        using tr [OF va] P va by (auto simp: P_def page_of_iff [OF ap] up)
    qed
    then show "\<exists>s'. f k t = Some s' \<and> P (Suc k) s'"
      using body [OF k, of t] m'(1) by (simp add: p_def)
  qed simp
  then show ?thesis by (simp add: P_def)
qed


lemma page_count:
  assumes "aligned a" and "aligned b" and "a \<le> b"
  shows "4096 * ((unat b - unat a + 4095) div 4096) = unat b - unat a"
proof -
  obtain c where c: "unat a = 4096 * c" using assms(1) by (auto simp: aligned_unat)
  obtain d where d: "unat b = 4096 * d" using assms(2) by (auto simp: aligned_unat)
  have "c \<le> d" using assms(3) c d by (simp add: word_le_nat_alt)
  then have "unat b - unat a = 4096 * (d - c)" by (simp add: c d right_diff_distrib')
  moreover have "(4096 * n + 4095) div 4096 = n" for n :: nat by simp
  ultimately show ?thesis by simp
qed

definition identity_range :: "u64 \<Rightarrow> u64 \<Rightarrow> mmu_state \<Rightarrow> mmu_state \<Rightarrow> bool" where
  "identity_range a b m m' \<longleftrightarrow> walk_ok m' \<and> tables_only m m' \<and>
     (\<forall>k<511. lvl3_table m' k = lvl3_table m k) \<and>
     (\<forall>va. valid_va va \<longrightarrow> translate m' va = (if a \<le> va \<and> va < b then Some va else translate m va))"

lemma bind_identity_spec:
  assumes "walk_ok m" and "aligned a" and "aligned b" and "a \<le> b" and "b \<le> id_paging_size m"
    and "unat (id_paging_size m) \<le> 0x3FE00000"
  shows "\<exists>m'. bind_identity a b ba m = Some m' \<and> identity_range a b m m'"
proof -
  note pc = page_count [OF assms(2-4)]
  have "\<exists>m'. for_range 0 ((unat b - unat a + 4095) div 4096)
      (\<lambda>i m. map_option snd (bind_address (a + of_nat i * GRANULE) (a + of_nat i * GRANULE) ba m)) m = Some m' \<and>
      walk_ok m' \<and> tables_only m m' \<and> (\<forall>k<511. lvl3_table m' k = lvl3_table m k) \<and>
     (\<forall>va. valid_va va \<longrightarrow> translate m' va =
        (if unat a \<le> unat va \<and> unat va < unat a + 4096 * ((unat b - unat a + 4095) div 4096)
         then Some va else translate m va))"
    by (rule bind_pages_loop [where M = "\<lambda>m. m" and g = "\<lambda>_ _ m'. m'" and B = "\<lambda>_ _. ba"])
       (use assms pc in \<open>simp_all add: word_le_nat_alt\<close>)
  then show ?thesis
    using pc assms(4)
    by (simp add: bind_identity_def for_pages_def identity_range_def word_le_nat_alt word_less_nat_alt)
qed

lemma map_table_zone_spec:
  assumes "walk_ok m" and "aligned (mmu_tables_start ll)" and "mmu_tables_start ll \<le> id_paging_size m"
    and "aligned (id_paging_size m)" and "unat (id_paging_size m) \<le> 0x3FE00000"
    and "(id_paging_size m - mmu_tables_start ll) div GRANULE mod 512 = 0"
  shows "\<exists>m'. map_table_zone ll ba m = Some m' \<and> identity_range (mmu_tables_start ll) (id_paging_size m) m m'"
proof -
  define a where "a = mmu_tables_start ll"
  define n_pages where "n_pages = (id_paging_size m - a) div GRANULE"
  define step where "step = (\<lambda>physical_pnt (ba :: block_attributes_sg1). if (physical_pnt - a) div GRANULE > 16 * (n_pages div 16)
                         then ba\<lparr>ContinuousBit := 0\<rparr> else ba)"
  define f where "f = (\<lambda>physical_pnt (ba, m). let ba1 = step physical_pnt ba in
      do { (_, m1) \<leftarrow> bind_address physical_pnt physical_pnt ba1 m; Some (ba1, m1) })"
  have fe: "f p s = map_option (\<lambda>r. (step p (fst s), snd r)) (bind_address p p (step p (fst s)) (snd s))" for p s
    by (cases s; cases "bind_address p p (step p (fst s)) (snd s)") (auto simp: f_def)
  note pc = page_count [OF assms(2,4,3), folded a_def]
  have "\<exists>s'. for_range 0 ((unat (id_paging_size m) - unat a + 4095) div 4096) (\<lambda>i. f (a + of_nat i * GRANULE))
      (ba\<lparr>ContinuousBit := 1\<rparr>, m) = Some s' \<and>
      walk_ok (snd s') \<and> tables_only (snd (ba\<lparr>ContinuousBit := 1\<rparr>, m)) (snd s') \<and>
      (\<forall>k<511. lvl3_table (snd s') k = lvl3_table (snd (ba\<lparr>ContinuousBit := 1\<rparr>, m)) k) \<and>
     (\<forall>va. valid_va va \<longrightarrow> translate (snd s') va =
        (if unat a \<le> unat va \<and> unat va < unat a + 4096 * ((unat (id_paging_size m) - unat a + 4095) div 4096)
         then Some va else translate (snd (ba\<lparr>ContinuousBit := 1\<rparr>, m)) va))"
    by (rule bind_pages_loop [where M = snd and g = "\<lambda>i s m'. (step (a + of_nat i * GRANULE) (fst s), m')"
          and B = "\<lambda>i s. step (a + of_nat i * GRANULE) (fst s)"])
       (use assms pc in \<open>simp_all add: fe word_le_nat_alt a_def\<close>)
  then obtain ba' m' where "for_range 0 ((unat (id_paging_size m) - unat a + 4095) div 4096) (\<lambda>i. f (a + of_nat i * GRANULE))
      (ba\<lparr>ContinuousBit := 1\<rparr>, m) = Some (ba', m')" and ir: "identity_range a (id_paging_size m) m m'"
    using pc assms(3) by (auto simp: identity_range_def word_le_nat_alt word_less_nat_alt a_def)
  then have "map_table_zone ll ba m = Some m'"
    using assms(6) unfolding map_table_zone_def Let_def for_pages_def f_def step_def n_pages_def a_def by simp
  with ir show ?thesis by (auto simp: a_def)
qed


section \<open>Stores into the level 2 table\<close>

lemma lvl2_store:
  assumes ok: "walk_ok m" and i: "i < 512" and a: "a = lvl2_table_address m + 8 * i"
    and v: "v AND MASK 47 12 = lvl2_entry m i AND MASK 47 12"
  shows "walk_ok (AT_store a v m)"
    and "k < 511 \<Longrightarrow> lvl2_entry (AT_store a v m) k = (if k = i then v else lvl2_entry m k)"
    and "k < 511 \<Longrightarrow> lvl3_table (AT_store a v m) k = lvl3_table m k"
    and "k < 511 \<Longrightarrow> l < 512 \<Longrightarrow> k \<noteq> i \<Longrightarrow> pt (AT_store a v m) k l = pt m k l"
proof -
  have al: "aligned (lvl2_table_address m)" using ok by (rule walk_ok_aligned)
  have lt: "k < 512" if "k < 511" for k :: u64 using that by (rule less_trans) simp
  show e: "lvl2_entry (AT_store a v m) k = (if k = i then v else lvl2_entry m k)" if "k < 511" for k
    using entry_inject [OF al al lt [OF that] i] by (auto simp: lvl2_entry_def a)
  show t3: "lvl3_table (AT_store a v m) k = lvl3_table m k" if "k < 511" for k
    using e [OF that] v by (auto simp: lvl3_table_def)
  show "walk_ok (AT_store a v m)" using ok t3 by (simp add: walk_ok_def)
  show "pt (AT_store a v m) k l = pt m k l" if k: "k < 511" and l: "l < 512" and ki: "k \<noteq> i" for k l
  proof -
    have "lvl3_table m k \<noteq> lvl2_table_address m" using ok k by (simp add: walk_ok_def)
    then have "lvl3_table m k + 8 * l \<noteq> a"
      using entry_inject [OF _ al l i, of "lvl3_table m k"] by (simp add: a)
    then show ?thesis unfolding pt_def e [OF k] t3 [OF k] using ki by simp
  qed
qed

lemma word_index:
  assumes "n < 512"
  shows "unat (of_nat n :: u64) = n" and "(of_nat n :: u64) < 512"
  using assms by (simp_all add: word_less_nat_alt unat_of_nat take_bit_nat_eq_self)

lemma invalidate_lvl2_loop:
  assumes ok: "walk_ok m" and f: "first \<le> 512"
  shows "\<exists>m'. for_range first 512 (\<lambda>i m. Some (set_invalid_entry (lvl2_table_address m + of_nat i * 8) m)) m = Some m' \<and>
     walk_ok m' \<and> tables_only m m' \<and> (\<forall>k<511. lvl3_table m' k = lvl3_table m k) \<and>
     (\<forall>k<511. \<forall>l<512. pt m' k l = (if first \<le> unat k then None else pt m k l))"
proof -
  define P where "P n m' \<longleftrightarrow> walk_ok m' \<and> tables_only m m' \<and> (\<forall>k<511. lvl3_table m' k = lvl3_table m k) \<and>
     (\<forall>k<511. \<forall>l<512. pt m' k l = (if first \<le> unat k \<and> unat k < n then None else pt m k l))" for n m'
  have "\<exists>m'. for_range first 512 (\<lambda>i m. Some (set_invalid_entry (lvl2_table_address m + of_nat i * 8) m)) m = Some m' \<and> P 512 m'"
  proof (rule for_range_total)
    show "P first m" using ok by (auto simp: P_def)
    fix n m1 assume n: "first \<le> n" "n < 512" and P: "P n m1"
    define i where "i = (of_nat n :: u64)"
    have i: "unat i = n" "i < 512" using word_index [OF n(2)] by (simp_all add: i_def)
    define a where "a = lvl2_table_address m1 + 8 * i"
    define v where "v = AT m1 a AND MASK 63 1"
    have ok1: "walk_ok m1" using P by (simp add: P_def)
    have vm: "v AND MASK 47 12 = lvl2_entry m1 i AND MASK 47 12"
      unfolding v_def lvl2_entry_def a_def by (rule bit_word_eqI) (auto simp: bit_simps)
    note S = lvl2_store [OF ok1 i(2) a_def vm]
    have "P (Suc n) (AT_store a v m1)"
      unfolding P_def
    proof (intro conjI allI impI)
      show "walk_ok (AT_store a v m1)" by (rule S(1))
      show "tables_only m (AT_store a v m1)" using P by (simp add: P_def)
      show "lvl3_table (AT_store a v m1) k = lvl3_table m k" if "k < 511" for k
        using S(3) [OF that] P that by (simp add: P_def)
      show "pt (AT_store a v m1) k l = (if first \<le> unat k \<and> unat k < Suc n then None else pt m k l)"
        if k: "k < 511" and l: "l < 512" for k l
      proof (cases "k = i")
        case True
        then show ?thesis using S(2) [OF k] i n by (simp add: pt_def v_def)
      next
        case False
        then have "unat k \<noteq> n" using i(1) by (metis word_unat_eq_iff)
        then show ?thesis using S(4) [OF k l False] P k l by (auto simp: P_def less_Suc_eq)
      qed
    qed
    then show "\<exists>m'. Some (set_invalid_entry (lvl2_table_address m1 + of_nat n * 8) m1) = Some m' \<and> P (Suc n) m'"
      by (simp add: set_invalid_entry_def a_def v_def i_def mult.commute)
  qed (use f in simp)
  then show ?thesis by (auto simp: P_def word_less_nat_alt)
qed

section \<open>Identity paging\<close>

definition layout_ok :: "link_layout \<Rightarrow> bool" where
  "layout_ok ll \<longleftrightarrow> aligned (data_start ll) \<and> data_start ll \<le> mmu_tables_start ll \<and>
     mmu_tables_start ll \<le> end_addr ll \<and> mmu_tables_start ll mod 0x200000 = 0 \<and>
     end_addr ll mod 0x200000 = 0 \<and> end_addr ll \<le> 0x3FE00000"

lemma layout_nat:
  assumes "layout_ok ll"
  obtains t e where "unat (mmu_tables_start ll) = 0x200000 * t" and "unat (end_addr ll) = 0x200000 * e"
    and "t \<le> e" and "e \<le> 511" and "aligned (mmu_tables_start ll)" and "aligned (end_addr ll)"
proof -
  have d: "unat x mod 0x200000 = 0" if "x mod 0x200000 = 0" for x :: u64
    using unat_mod_distrib [of x "0x200000"] that by simp
  obtain t where t: "unat (mmu_tables_start ll) = 0x200000 * t"
    using d [of "mmu_tables_start ll"] assms by (auto simp: layout_ok_def)
  obtain e where e: "unat (end_addr ll) = 0x200000 * e"
    using d [of "end_addr ll"] assms by (auto simp: layout_ok_def)
  have "t \<le> e" "e \<le> 511" using assms t e by (simp_all add: layout_ok_def word_le_nat_alt)
  moreover have "0x200000 * k mod 4096 = 0" for k :: nat
  proof -
    have "0x200000 * k = 4096 * (512 * k)" by simp
    then show ?thesis by (metis mod_mult_self1_is_0)
  qed
  then have "aligned (mmu_tables_start ll)" "aligned (end_addr ll)" by (simp_all add: aligned_unat t e)
  ultimately show thesis using that t e by blast
qed

lemma identity_paging_spec:
  assumes ok: "walk_ok m" and lay: "layout_ok ll" and id: "id_paging_size m = end_addr ll"
  shows "\<exists>m'. identity_paging ll m = Some m' \<and> walk_ok m' \<and> tables_only m m' \<and>
     (\<forall>k<511. lvl3_table m' k = lvl3_table m k) \<and>
     (\<forall>va. valid_va va \<longrightarrow> translate m' va = (if va < end_addr ll then Some va else None))"
proof -
  obtain t e where t: "unat (mmu_tables_start ll) = 0x200000 * t" and e: "unat (end_addr ll) = 0x200000 * e"
    and te: "t \<le> e" "e \<le> 511" and al: "aligned (mmu_tables_start ll)" "aligned (end_addr ll)"
    using layout_nat [OF lay] .
  have al0: "aligned 0" "aligned (data_start ll)" using lay by (simp_all add: aligned_def layout_ok_def)
  have le: "data_start ll \<le> mmu_tables_start ll" "mmu_tables_start ll \<le> end_addr ll" "data_start ll \<le> end_addr ll"
    and small: "unat (end_addr ll) \<le> 0x3FE00000"
    using lay e te by (auto simp: layout_ok_def)
  obtain m1 where m1: "bind_identity 0 (data_start ll) (new_block_attributes_sg1 (CODE_PAGE OR ACCESS_FLAG_SET) NORMAL_WT_NT) m = Some m1"
    "identity_range 0 (data_start ll) m m1"
    using bind_identity_spec [OF ok al0, of "new_block_attributes_sg1 (CODE_PAGE OR ACCESS_FLAG_SET) NORMAL_WT_NT"]
      le small id by auto
  then have ok1: "walk_ok m1" and id1: "id_paging_size m1 = end_addr ll"
    using tables_onlyD(2) [of m m1] id by (simp_all add: identity_range_def)
  obtain m2 where m2: "bind_identity (data_start ll) (mmu_tables_start ll)
        (new_block_attributes_sg1 (DATA_PAGE OR ACCESS_FLAG_SET) NORMAL_WT_NT) m1 = Some m2"
    "identity_range (data_start ll) (mmu_tables_start ll) m1 m2"
    using bind_identity_spec [OF ok1 al0(2) al(1), of "new_block_attributes_sg1 (DATA_PAGE OR ACCESS_FLAG_SET) NORMAL_WT_NT"]
      le small id1 by auto
  then have ok2: "walk_ok m2" and id2: "id_paging_size m2 = end_addr ll"
    using tables_onlyD(2) [of m1 m2] id1 by (simp_all add: identity_range_def)
  have np: "(end_addr ll - mmu_tables_start ll) div GRANULE mod 512 = 0"
  proof -
    have "unat ((end_addr ll - mmu_tables_start ll) div GRANULE mod 512) = (0x200000 * e - 0x200000 * t) div 4096 mod 512"
      using le(2) t e by (simp add: unat_mod_distrib unat_div_distrib unat_sub)
    also have "0x200000 * e - 0x200000 * t = 4096 * (512 * (e - t))" by (simp add: right_diff_distrib')
    finally show ?thesis by (simp add: word_unat_eq_iff)
  qed
  obtain m3 where m3: "map_table_zone ll (new_block_attributes_sg1 (KERNEL_PAGE OR ACCESS_FLAG_SET) NORMAL_WT_NT) m2 = Some m3"
    "identity_range (mmu_tables_start ll) (end_addr ll) m2 m3"
    using map_table_zone_spec [OF ok2 al(1), of "new_block_attributes_sg1 (KERNEL_PAGE OR ACCESS_FLAG_SET) NORMAL_WT_NT"]
      le al small np by (auto simp: id2)
  then have ok3: "walk_ok m3" and id3: "id_paging_size m3 = end_addr ll"
    using tables_onlyD(2) [of m2 m3] id2 by (simp_all add: identity_range_def)
  have cti: "end_addr ll div GRANULE mod 512 = 0" and first: "unat (end_addr ll div (GRANULE * 512)) = e"
    using e by (simp_all add: word_unat_eq_iff unat_mod_distrib unat_div_distrib)
  obtain m4 where m4: "for_range e 512 (\<lambda>i m. Some (set_invalid_entry (lvl2_table_address m + of_nat i * 8) m)) m3 = Some m4"
    "walk_ok m4" "tables_only m3 m4" "\<forall>k<511. lvl3_table m4 k = lvl3_table m3 k"
    "\<forall>k<511. \<forall>l<512. pt m4 k l = (if e \<le> unat k then None else pt m3 k l)"
    using invalidate_lvl2_loop [OF ok3, of e] te by auto
  have "identity_paging ll m = Some m4"
    using m1(1) m2(1) m3(1) m4(1) cti first by (simp add: identity_paging_def Let_def id3)
  moreover have "tables_only m m4"
    using m1(2) m2(2) m3(2) m4(3) unfolding identity_range_def by (metis tables_only_trans)
  moreover have "\<forall>k<511. lvl3_table m4 k = lvl3_table m k"
    using m1(2) m2(2) m3(2) m4(4) by (simp add: identity_range_def)
  moreover have "translate m4 va = (if va < end_addr ll then Some va else None)" if va: "valid_va va" for va
  proof -
    have "unat va < 2 ^ 30" using va by (simp add: valid_va_iff word_less_nat_alt)
    then have "e \<le> unat (idx2 va) \<longleftrightarrow> \<not> va < end_addr ll"
      by (simp add: unat_idx2 word_less_nat_alt e) (simp add: less_eq_div_iff_mult_less_eq not_less mult.commute)
    moreover have "translate m3 va = Some va" if "va < end_addr ll"
      using m1(2) m2(2) m3(2) va that by (auto simp: identity_range_def not_le)
    ultimately show ?thesis
      using m4(5) va by (auto simp: translate_def valid_va_def)
  qed
  ultimately show ?thesis using m4(2) by blast
qed


section \<open>Fresh tables\<close>

definition table_word :: "u64 \<Rightarrow> u64 \<Rightarrow> u64" where
  "table_word old inner = ((((old AND (MASK 63 48 OR MASK 11 0)) OR (inner AND MASK 35 0)) AND MASK 58 0)
      OR push_bit 63 1 OR 3)"

lemma init_table_entry: "init_table_entry_sg1 a inner m = AT_store a (table_word (AT m a) inner) m"
  by (simp add: init_table_entry_sg1_def set_table_attributes_sg1_def new_table_attributes_sg1_def
        table_word_def AT_store_def AT_def)

lemma table_word_facts:
  "is_table_entry (table_word old inner)" "table_word old inner AND MASK 47 12 = inner AND MASK 35 12"
proof -
  have "bit (table_word old inner) 0" "bit (table_word old inner) 1"
    unfolding table_word_def bit_or_iff bit_three by simp_all
  then show "is_table_entry (table_word old inner)" by (simp add: is_entry_bits)
  show "table_word old inner AND MASK 47 12 = inner AND MASK 35 12"
    unfolding table_word_def
    by (rule bit_word_eqI) (unfold bit_and_iff bit_or_iff bit_three bit_push_bit_iff bit_1_iff, auto)
qed

text \<open>An address where a process can keep its tables: they fit below the 36 bits of an entry.\<close>

definition table_base :: "u64 \<Rightarrow> bool" where
  "table_base L \<longleftrightarrow> unat L mod 0x200000 = 0 \<and> unat L + 0x200000 \<le> 2 ^ 36"

lemma table_base_aligned:
  assumes "table_base L"
  shows "L AND MASK 16 0 = 0" and "aligned L" and "aligned (L + GRANULE)"
proof -
  have "unat (L AND MASK 16 0) = unat L mod 0x20000"
    by (simp add: and_MASK_low unat_mod_distrib)
  moreover obtain c where c: "unat L = 0x200000 * c" using assms by (auto simp: table_base_def)
  have "0x200000 * c = 0x20000 * (16 * c)" "0x200000 * c = 4096 * (512 * c)" by simp_all
  then have "unat L mod 0x20000 = 0" and m: "unat L mod 4096 = 0"
    unfolding c by (metis mod_mult_self1_is_0)+
  ultimately show "L AND MASK 16 0 = 0" by (simp add: word_unat_eq_iff)
  show al: "aligned L" using m by (simp add: aligned_unat)
  show "aligned (L + GRANULE)"
    using page_number(2) [OF al, of 1] assms by (simp add: table_base_def)
qed


text \<open>Only the table in the page \<open>T\<close> may differ.\<close>

definition same_off_tables :: "u64 \<Rightarrow> mmu_state \<Rightarrow> mmu_state \<Rightarrow> bool" where
  "same_off_tables T m m' \<longleftrightarrow> (\<forall>T' j. aligned T' \<longrightarrow> T' \<noteq> T \<longrightarrow> j < 512 \<longrightarrow> AT m' (T' + 8 * j) = AT m (T' + 8 * j))"

lemma same_off_tables_store:
  assumes "aligned T" and "i < 512" and "same_off_tables T m m'"
  shows "same_off_tables T m (AT_store (T + 8 * i) v m')"
  using assms(3) entry_inject [OF _ assms(1) _ assms(2)] by (simp add: same_off_tables_def)

lemma populate_lvl2_table_spec:
  assumes L: "table_base (lvl2_table_address m)"
  shows "\<exists>m'. populate_lvl2_table (lvl2_table_address m + GRANULE) m = Some m' \<and> walk_ok m' \<and> tables_only m m' \<and>
     (\<forall>k<511. is_table_entry (lvl2_entry m' k) \<and> lvl3_table m' k = lvl2_table_address m + GRANULE + k * GRANULE) \<and>
     same_off_tables (lvl2_table_address m) m m'"
proof -
  define L where "L = lvl2_table_address m"
  note al = table_base_aligned [OF L, folded L_def]
  have bound: "unat L + 0x200000 \<le> 2 ^ 36" using L by (simp add: table_base_def L_def)
  have tab: "unat (L + GRANULE + k * GRANULE) = unat L + 4096 * Suc (unat k)" "aligned (L + GRANULE + k * GRANULE)"
    if "k < 511" for k
  proof -
    have k: "unat k < 511" using that by (simp add: word_less_nat_alt)
    have eq: "L + GRANULE + k * GRANULE = L + of_nat (Suc (unat k)) * GRANULE" by (simp add: algebra_simps)
    show "unat (L + GRANULE + k * GRANULE) = unat L + 4096 * Suc (unat k)" "aligned (L + GRANULE + k * GRANULE)"
      unfolding eq using k bound by (intro page_number al(2); simp)+
  qed
  define P where "P n m' \<longleftrightarrow> tables_only m m' \<and> same_off_tables L m m' \<and>
     (\<forall>k. unat k < n \<longrightarrow> is_table_entry (lvl2_entry m' k) \<and> lvl3_table m' k = L + GRANULE + k * GRANULE)" for n m'
  have "\<exists>m'. for_range 0 511 (\<lambda>i m. Some (init_table_entry_sg1 (lvl2_table_address m + of_nat i * 8)
          (L + GRANULE + of_nat i * GRANULE) m)) m = Some m' \<and> P 511 m'"
  proof (rule for_range_total)
    show "P 0 m" by (simp add: P_def same_off_tables_def)
    fix n m1 assume n: "n < 511" and P: "P n m1"
    define i where "i = (of_nat n :: u64)"
    have i: "unat i = n" "i < 512" "i < 511" using word_index [of n] n by (simp_all add: i_def word_less_nat_alt)
    have l2: "lvl2_table_address m1 = L" using P tables_onlyD(1) by (auto simp: P_def L_def)
    define v where "v = table_word (AT m1 (L + 8 * i)) (L + GRANULE + i * GRANULE)"
    have "v AND MASK 47 12 = L + GRANULE + i * GRANULE"
      using page_mask [OF tab(2) [OF i(3)]] tab(1) [OF i(3)] bound i(1) n by (simp add: v_def table_word_facts)
    then have new: "lvl3_table (AT_store (L + 8 * i) v m1) i = L + GRANULE + i * GRANULE"
        "is_table_entry (lvl2_entry (AT_store (L + 8 * i) v m1) i)"
      by (simp_all add: lvl3_table_def lvl2_entry_def l2 v_def table_word_facts)
    have old: "lvl2_entry (AT_store (L + 8 * i) v m1) k = lvl2_entry m1 k" if "unat k < n" for k
    proof -
      have "k < 512" "k \<noteq> i" using that i n by (auto simp: word_less_nat_alt)
      then show ?thesis using entry_inject [OF al(2) al(2) _ i(2)] by (simp add: lvl2_entry_def l2)
    qed
    have "P (Suc n) (AT_store (L + 8 * i) v m1)"
      unfolding P_def
    proof (intro conjI allI impI)
      show "tables_only m (AT_store (L + 8 * i) v m1)" using P by (simp add: P_def)
      show "same_off_tables L m (AT_store (L + 8 * i) v m1)" using P same_off_tables_store [OF al(2) i(2)] by (simp add: P_def)
      fix k :: u64 assume "unat k < Suc n"
      then consider "k = i" | "unat k < n" using i(1) by (auto simp: less_Suc_eq word_unat_eq_iff)
      then show "is_table_entry (lvl2_entry (AT_store (L + 8 * i) v m1) k)"
        "lvl3_table (AT_store (L + 8 * i) v m1) k = L + GRANULE + k * GRANULE"
        using P old new by (cases; simp add: P_def lvl3_table_def)+
    qed
    then show "\<exists>m'. Some (init_table_entry_sg1 (lvl2_table_address m1 + of_nat n * 8) (L + GRANULE + of_nat n * GRANULE) m1) = Some m' \<and> P (Suc n) m'"
      by (simp add: init_table_entry l2 v_def i_def mult.commute)
  qed simp
  then obtain m' where m': "for_range 0 511 (\<lambda>i m. Some (init_table_entry_sg1 (lvl2_table_address m + of_nat i * 8)
          (L + GRANULE + of_nat i * GRANULE) m)) m = Some m'" and P: "P 511 m'" by blast
  have fin: "is_table_entry (lvl2_entry m' k)" "lvl3_table m' k = L + GRANULE + k * GRANULE" if "k < 511" for k
    using P that by (simp_all add: P_def word_less_nat_alt)
  have l2: "lvl2_table_address m' = L" using P tables_onlyD(1) by (auto simp: P_def L_def)
  have "walk_ok m'"
    unfolding walk_ok_def l2
  proof (intro conjI allI impI)
    show "L AND MASK 16 0 = 0" by (rule al(1))
    show "lvl3_table m' i \<noteq> L" if "i < 511" for i
      using fin(2) [OF that] tab(1) [OF that] by (simp add: word_unat_eq_iff)
    show "i = j" if "i < 511" "j < 511" "lvl3_table m' i = lvl3_table m' j" for i j
      using that fin(2) tab(1) by (simp add: word_unat_eq_iff)
  qed
  moreover have "populate_lvl2_table (lvl2_table_address m + GRANULE) m = Some m'"
    using m' al(2,3) by (simp add: populate_lvl2_table_def aligned_mod flip: L_def)
  ultimately show ?thesis using P fin by (auto simp: P_def L_def)
qed

lemma check_identity_paging_spec:
  assumes ok: "walk_ok m" and al: "aligned (id_paging_size m)" and small: "unat (id_paging_size m) \<le> 0x3FE00000"
    and tr: "\<And>va. valid_va va \<Longrightarrow> va < id_paging_size m \<Longrightarrow> translate m va = Some va"
  shows "check_identity_paging m = Some ()"
proof -
  have a0: "aligned 0" by (simp add: aligned_def)
  have pc: "4096 * ((unat (id_paging_size m) + 4095) div 4096) = unat (id_paging_size m)"
    using page_count [OF a0 al] by simp
  have "\<exists>u. for_range 0 ((unat (id_paging_size m) + 4095) div 4096) (\<lambda>i _.
       let e = get_lvl3_entry_phys_address m (0 + of_nat i * GRANULE) in
       do { assert (e AND MASK 2 0 = 0);
            assert (is_block_entry (AT m e) 3);
            pa \<leftarrow> get_physical_address m (0 + of_nat i * GRANULE);
            assert (pa = 0 + of_nat i * GRANULE) }) () = Some u \<and> True"
  proof (rule for_range_total [where P = "\<lambda>_ _. True"])
    fix k :: nat and s assume k: "k < (unat (id_paging_size m) + 4095) div 4096"
    define p where "p = (0::u64) + of_nat k * GRANULE"
    have "unat p = 4096 * k" using page_number(1) [OF a0, of k] k pc small by (simp add: p_def)
    then have lt: "p < id_paging_size m" and vp: "valid_va p"
      using k pc small by (simp_all add: word_less_nat_alt valid_va_iff)
    have t: "translate m p = Some p" using tr [OF vp lt] .
    then have tab: "is_table_entry (lvl2_entry m (idx2 p))"
      "is_block_entry (AT m (lvl3_table m (idx2 p) + 8 * idx3 p)) 3"
      by (auto simp: translate_def pt_def Let_def split: if_splits)
    have e: "get_lvl3_entry_phys_address m p = lvl3_table m (idx2 p) + 8 * idx3 p"
      using tab by (simp add: get_lvl3_entry_valid [OF ok vp])
    have e0: "(lvl3_table m (idx2 p) + 8 * idx3 p) AND MASK 2 0 = 0" by (rule entry_page(3)) simp_all
    show "\<exists>s'. (let e = get_lvl3_entry_phys_address m (0 + of_nat k * GRANULE) in
       do { assert (e AND MASK 2 0 = 0);
            assert (is_block_entry (AT m e) 3);
            pa \<leftarrow> get_physical_address m (0 + of_nat k * GRANULE);
            assert (pa = 0 + of_nat k * GRANULE) }) = Some s' \<and> True"
      unfolding p_def [symmetric] Let_def e using e0 tab translate_physical [OF ok vp t] by simp
  qed simp_all
  then show ?thesis by (auto simp: check_identity_paging_def for_pages_def)
qed

end
