(* ===== verification/Free_Pages.thy ===== *)
theory Free_Pages
  imports Identity_Paging
begin

text \<open>
  The map of free pages after \<open>init_physical_memory_map\<close>: the pages from \<open>id_paging_size\<close> to the end
  of the memory in ascending order, without three pages of peripherals.
\<close>

section \<open>Page numbers\<close>

definition page_addr :: "nat \<Rightarrow> u64" where "page_addr q = of_nat q * GRANULE"

lemma unat_page_addr: "q < 2 ^ 52 \<Longrightarrow> unat (page_addr q) = 4096 * q"
  using page_number(1) [of 0 q] by (simp add: page_addr_def aligned_def)

text \<open>Enumerating an interval without three of its elements.\<close>

definition skips :: "nat \<Rightarrow> nat \<Rightarrow> nat \<Rightarrow> nat \<Rightarrow> nat" where
  "skips t g h i = (if i < t then 0 else if Suc i < g then 1 else if Suc (Suc i) < h then 2 else 3)"

lemma skips_mono: "t < g \<Longrightarrow> Suc g < h \<Longrightarrow> i < j \<Longrightarrow> i + skips t g h i < j + skips t g h j"
  by (simp add: skips_def)

lemma skip_list:
  assumes "b \<le> t" "t < g" "Suc g < h" "h < n"
  shows "map (\<lambda>i. i + skips t g h i) [b..<n - 3] = filter (\<lambda>q. q \<notin> {t, g, h}) [b..<n]"
proof (rule sorted_distinct_set_unique)
  have "sorted_wrt (<) (map (\<lambda>i. i + skips t g h i) [b..<n - 3])"
    unfolding sorted_wrt_map
    by (rule sorted_wrt_mono_rel [OF _ sorted_wrt_upt]) (use assms in \<open>simp add: skips_mono\<close>)
  then show "sorted (map (\<lambda>i. i + skips t g h i) [b..<n - 3])" "distinct (map (\<lambda>i. i + skips t g h i) [b..<n - 3])"
    by (simp_all add: strict_sorted_iff)
  show "sorted (filter (\<lambda>q. q \<notin> {t, g, h}) [b..<n])" "distinct (filter (\<lambda>q. q \<notin> {t, g, h}) [b..<n])"
    by (simp_all add: sorted_wrt_filter)
  show "set (map (\<lambda>i. i + skips t g h i) [b..<n - 3]) = set (filter (\<lambda>q. q \<notin> {t, g, h}) [b..<n])"
  proof (intro set_eqI iffI)
    fix q assume "q \<in> set (map (\<lambda>i. i + skips t g h i) [b..<n - 3])"
    then show "q \<in> set (filter (\<lambda>q. q \<notin> {t, g, h}) [b..<n])"
      using assms by (auto simp: skips_def split: if_splits)
  next
    fix q assume "q \<in> set (filter (\<lambda>q. q \<notin> {t, g, h}) [b..<n])"
    then have q: "b \<le> q" "q < n" "q \<noteq> t" "q \<noteq> g" "q \<noteq> h" by auto
    define i where "i = (if q < t then q else if q < g then q - 1 else if q < h then q - 2 else q - 3)"
    have "b \<le> i" "i < n - 3" "q = i + skips t g h i"
      using q assms by (auto simp: i_def skips_def)
    then show "q \<in> set (map (\<lambda>i. i + skips t g h i) [b..<n - 3])" by auto
  qed
qed


text \<open>The first loop: all counters are zero.\<close>

definition same_but_counters :: "mmu_state \<Rightarrow> mmu_state \<Rightarrow> bool" where
  "same_but_counters m m' \<longleftrightarrow> m' = m\<lparr>mem8 := mem8 m'\<rparr>"

lemma clear_counters_loop:
  assumes "b \<le> 0x40000"
  shows "\<exists>m'. for_range b 0x40000 (\<lambda>i m. Some (set_bind_counter (of_nat i * GRANULE) 0 m)) m = Some m' \<and>
     same_but_counters m m' \<and> (\<forall>q. b \<le> q \<and> q < 0x40000 \<longrightarrow> mem8 m' (get_bind_counter_address m (page_addr q)) = 0)"
proof -
  have "\<exists>m'. for_range b 0x40000 (\<lambda>i m. Some (set_bind_counter (of_nat i * GRANULE) 0 m)) m = Some m' \<and>
     (same_but_counters m m' \<and> (\<forall>q. b \<le> q \<and> q < 0x40000 \<longrightarrow> mem8 m' (get_bind_counter_address m (page_addr q)) = 0))"
  proof (rule for_range_total [where P = "\<lambda>i m'. same_but_counters m m' \<and>
        (\<forall>q. b \<le> q \<and> q < i \<longrightarrow> mem8 m' (get_bind_counter_address m (page_addr q)) = 0)"])
    fix k m1 assume "same_but_counters m m1 \<and>
        (\<forall>q. b \<le> q \<and> q < k \<longrightarrow> mem8 m1 (get_bind_counter_address m (page_addr q)) = 0)"
    then have s: "same_but_counters m m1" and z: "\<And>q. b \<le> q \<Longrightarrow> q < k \<Longrightarrow> mem8 m1 (get_bind_counter_address m (page_addr q)) = 0"
      by auto
    have pm: "physical_memory_map m1 = physical_memory_map m"
      using s unfolding same_but_counters_def by (cases m; cases m1) simp
    then have adr: "get_bind_counter_address m1 x = get_bind_counter_address m x" for x
      by (simp add: get_bind_counter_address_def)
    have "same_but_counters m (set_bind_counter (page_addr k) 0 m1)"
      using s unfolding same_but_counters_def set_bind_counter_def by (cases m; cases m1) simp
    then show "\<exists>s'. Some (set_bind_counter (of_nat k * GRANULE) 0 m1) = Some s' \<and> same_but_counters m s' \<and>
        (\<forall>q. b \<le> q \<and> q < Suc k \<longrightarrow> mem8 s' (get_bind_counter_address m (page_addr q)) = 0)"
      using z by (auto simp: page_addr_def set_bind_counter_def adr less_Suc_eq)
  qed (use assms in \<open>auto simp: same_but_counters_def\<close>)
  then show ?thesis by simp
qed

text \<open>The second loop: the entries of the map.\<close>

lemma map_page:
  assumes "unat e0 = 4096 * b" and "i + d < 0x40000 - b"
  shows "ucast ((of_nat i + of_nat d :: u32) * 0x1000) + e0 = page_addr (i + d + b)"
    and "ucast (ucast (page_addr (i + d + b)) :: u32) = page_addr (i + d + b)"
proof -
  have s: "i + d + b < 0x40000" using assms(2) by simp
  have w: "(of_nat i + of_nat d :: u32) * 0x1000 = of_nat (4096 * (i + d))" by (simp add: algebra_simps)
  have "unat ((of_nat i + of_nat d :: u32) * 0x1000) = 4096 * (i + d)"
    unfolding w using s by (simp only: unat_of_nat) simp
  then have "unat (ucast ((of_nat i + of_nat d :: u32) * 0x1000) + e0) = 4096 * (i + d + b)"
    using s assms(1) by (simp add: unat_word_ariths(1) unsigned_ucast_eq take_bit_nat_eq_self)
  then show "ucast ((of_nat i + of_nat d :: u32) * 0x1000) + e0 = page_addr (i + d + b)"
    using s by (simp add: word_unat_eq_iff unat_page_addr)
  have lt: "unat (page_addr (i + d + b)) < 2 ^ 32" using s by (simp add: unat_page_addr)
  show "ucast (ucast (page_addr (i + d + b)) :: u32) = page_addr (i + d + b)"
    by (intro bit_word_eqI) (auto simp: bit_simps dest: bit_less_power [OF lt])
qed


definition pmap_step :: "u64 \<Rightarrow> nat \<Rightarrow> u32 \<times> mmu_state \<Rightarrow> (u32 \<times> mmu_state) option" where
  "pmap_step e0 i = (\<lambda>(delta, m).
     let page = (\<lambda>d::u32. ucast ((of_nat i + d) * 0x1000) + e0);
         delta1 = (if page delta \<in> {GPIO_BASE, GPIO_BASE + 0x1000, GPIO_BASE + 0x15000, TIMER_IRQ_PAGE}
                   then delta + 1 else delta)
     in Some (delta1, set_map_entry (pm_head (physical_memory_map m) + of_nat i) (ucast (page delta1)) m))"

definition skips_before :: "nat \<Rightarrow> nat" where
  "skips_before i = (if i \<le> 0x3f00b then 0 else if i \<le> 0x3f1ff then 1 else if i \<le> 0x3f213 then 2 else 3)"

lemma page_addr_eq: "q < 0x40000 \<Longrightarrow> r < 0x40000 \<Longrightarrow> page_addr q = page_addr r \<longleftrightarrow> q = r"
  by (simp add: word_unat_eq_iff unat_page_addr)

lemma special_pages:
  "GPIO_BASE = page_addr 0x3f200" "GPIO_BASE + 0x1000 = page_addr 0x3f201"
  "GPIO_BASE + 0x15000 = page_addr 0x3f215" "TIMER_IRQ_PAGE = page_addr 0x3f00b"
  by (simp_all add: page_addr_def)

lemma pmap_step_eq:
  assumes e0: "unat e0 = 4096 * b" and i: "i + b < 0x3fffd" and h: "pm_head (physical_memory_map m) = 0"
  shows "pmap_step e0 i (of_nat (skips_before (i + b)), m) =
     Some (of_nat (skips_before (Suc i + b)),
           set_map_entry (of_nat i) (ucast (page_addr (i + b + skips 0x3f00b 0x3f200 0x3f215 (i + b)))) m)"
proof -
  let ?d = "skips_before (i + b)"
  have d: "?d \<le> 3" by (simp add: skips_before_def)
  have p: "ucast ((of_nat i + of_nat d :: u32) * 0x1000) + e0 = page_addr (i + b + d)" if "d \<le> 3" for d
    using map_page(1) [OF e0, of i d] i that by (simp add: ac_simps)
  have lt: "i + b + ?d < 0x40000" using i d by simp
  have hit: "page_addr (i + b + ?d) \<in> {GPIO_BASE, GPIO_BASE + 0x1000, GPIO_BASE + 0x15000, TIMER_IRQ_PAGE} \<longleftrightarrow>
      i + b + ?d \<in> {0x3f200, 0x3f201, 0x3f215, 0x3f00b}"
    unfolding special_pages(2,3) unfolding special_pages(1,4) using page_addr_eq [OF lt] by simp
  have nxt: "(if i + b + ?d \<in> {0x3f200, 0x3f201, 0x3f215, 0x3f00b} then ?d + 1 else ?d) = skips_before (Suc i + b)"
    by (auto simp: skips_before_def)
  have same: "skips_before (Suc i + b) = skips 0x3f00b 0x3f200 0x3f215 (i + b)"
    by (auto simp: skips_before_def skips_def)
  have "skips_before (Suc i + b) \<le> 3" by (simp add: skips_before_def)
  note p' = p [OF this]
  have w: "(if P then of_nat n + 1 else of_nat n) = (of_nat (if P then n + 1 else n) :: u32)" for P n by simp
  show ?thesis
    unfolding pmap_step_def Let_def prod.case p [OF d] hit w nxt p' h same [symmetric] by simp
qed


lemma pmap_loop:
  assumes e0: "unat e0 = 4096 * b" and b: "b \<le> 0x3f000" and h: "pm_head (physical_memory_map m) = 0"
  shows "\<exists>d m'. for_range 0 (0x3fffd - b) (pmap_step e0) (0, m) = Some (d, m') \<and>
     m' = m\<lparr>mem32 := mem32 m'\<rparr> \<and>
     (\<forall>j<0x3fffd - b. map_entry m' (of_nat j) = ucast (page_addr (j + b + skips 0x3f00b 0x3f200 0x3f215 (j + b))))"
proof -
  define P where "P i s \<longleftrightarrow> fst s = of_nat (skips_before (i + b)) \<and> snd s = m\<lparr>mem32 := mem32 (snd s)\<rparr> \<and>
     (\<forall>j<i. map_entry (snd s) (of_nat j) = ucast (page_addr (j + b + skips 0x3f00b 0x3f200 0x3f215 (j + b))))"
    for i :: nat and s :: "u32 \<times> mmu_state"
  have "\<exists>s'. for_range 0 (0x3fffd - b) (pmap_step e0) (0, m) = Some s' \<and> P (0x3fffd - b) s'"
  proof (rule for_range_total)
    show "P 0 (0, m)" using b by (simp add: P_def skips_before_def)
    fix i s assume i: "i < 0x3fffd - b" and P: "P i s"
    obtain m1 where s: "s = (of_nat (skips_before (i + b)), m1)" using P by (cases s) (simp add: P_def)
    have m1: "m1 = m\<lparr>mem32 := mem32 m1\<rparr>"
      and old: "\<And>j. j < i \<Longrightarrow> map_entry m1 (of_nat j) = ucast (page_addr (j + b + skips 0x3f00b 0x3f200 0x3f215 (j + b)))"
      using P by (simp_all add: P_def s)
    have pm: "physical_memory_map m1 = physical_memory_map m" by (subst m1) simp
    have ib: "i + b < 0x3fffd" using i by simp
    let ?v = "ucast (page_addr (i + b + skips 0x3f00b 0x3f200 0x3f215 (i + b))) :: u32"
    have step: "pmap_step e0 i s = Some (of_nat (skips_before (Suc i + b)), set_map_entry (of_nat i) ?v m1)"
      unfolding s using pmap_step_eq [OF e0 ib, of m1] h by (simp add: pm)
    have ne: "(of_nat j :: u32) \<noteq> of_nat i" if "j < i" for j
      using that ib by (simp add: word_unat_eq_iff unat_of_nat)
    have "P (Suc i) (of_nat (skips_before (Suc i + b)), set_map_entry (of_nat i) ?v m1)"
      unfolding P_def fst_conv snd_conv
    proof (intro conjI allI impI)
      show "set_map_entry (of_nat i) ?v m1 = m\<lparr>mem32 := mem32 (set_map_entry (of_nat i) ?v m1)\<rparr>"
        by (subst m1) (simp add: set_map_entry_def pm)
      fix j assume "j < Suc i"
      then consider "j < i" | "j = i" by linarith
      then show "map_entry (set_map_entry (of_nat i) ?v m1) (of_nat j) =
          ucast (page_addr (j + b + skips 0x3f00b 0x3f200 0x3f215 (j + b)))"
        by cases (simp_all add: map_entry_set ne old)
    qed simp
    then show "\<exists>s'. pmap_step e0 i s = Some s' \<and> P (Suc i) s'" using step by blast
  qed simp
  then show ?thesis by (auto simp: P_def)
qed

lemma init_physical_memory_map_spec:
  assumes b: "unat (id_paging_size m) = 4096 * b" "b \<le> 0x3f000"
    and lay: "unat (physical_memory_map_addr ll) + 0x140000 \<le> unat (id_paging_size m)"
  shows "\<exists>m'. init_physical_memory_map ll m = Some m' \<and>
     pool_wf (0x3fffd - b) m' \<and>
     pool (0x3fffd - b) m' = map page_addr (filter (\<lambda>q. q \<notin> {0x3f00b, 0x3f200, 0x3f215}) [b..<0x40000]) \<and>
     m' = m\<lparr>mem8 := mem8 m', mem32 := mem32 m', physical_memory_map := physical_memory_map m'\<rparr> \<and>
     (\<forall>q. b \<le> q \<and> q < 0x40000 \<longrightarrow>
        mem8 m' (get_bind_counter_address m' (page_addr q)) = 0 \<and> counter_ok (page_addr q) m')"
proof -
  define e0 where "e0 = id_paging_size m"
  define pm where "pm = \<lparr>pm_map = physical_memory_map_addr ll, pm_head = 0, pm_size = 0x100000,
     bind_counter_offset = e0 div GRANULE, bind_counter = physical_memory_map_addr ll + 0x100000\<rparr>"
  define m1 where "m1 = m\<lparr>physical_memory_map := pm\<rparr>"
  have eb: "unat (e0 div GRANULE) = b" using b(1) by (simp add: e0_def unat_div_distrib)
  have nb: "unat ((RAM_SIZE - e0) div GRANULE - SKIPPED_PAGES) = 0x3fffd - b"
  proof -
    have "e0 \<le> RAM_SIZE" using b by (simp add: e0_def word_le_nat_alt)
    then have u: "unat ((RAM_SIZE - e0) div GRANULE) = 0x40000 - b"
      using b(1) by (simp add: unat_div_distrib unat_sub e0_def)
    then have "SKIPPED_PAGES \<le> (RAM_SIZE - e0) div GRANULE" using b(2) by (simp add: word_le_nat_alt)
    then show ?thesis using u by (simp add: unat_sub)
  qed
  obtain m2 where m2: "for_range b 0x40000 (\<lambda>i m. Some (set_bind_counter (of_nat i * GRANULE) 0 m)) m1 = Some m2"
    "same_but_counters m1 m2"
    "\<And>q. b \<le> q \<Longrightarrow> q < 0x40000 \<Longrightarrow> mem8 m2 (get_bind_counter_address m1 (page_addr q)) = 0"
    using clear_counters_loop [of b m1] b(2) by auto
  have pm2: "physical_memory_map m2 = pm"
    using m2(2) unfolding same_but_counters_def m1_def by (cases m2) simp
  obtain d m3 where m3: "for_range 0 (0x3fffd - b) (pmap_step e0) (0, m2) = Some (d, m3)" "m3 = m2\<lparr>mem32 := mem32 m3\<rparr>"
    "\<forall>j<0x3fffd - b. map_entry m3 (of_nat j) = ucast (page_addr (j + b + skips 0x3f00b 0x3f200 0x3f215 (j + b)))"
    using pmap_loop [OF b(1) [folded e0_def] b(2), of m2] pm2 by (auto simp: pm_def)
  have same: "m3 = m\<lparr>mem8 := mem8 m3, mem32 := mem32 m3, physical_memory_map := pm\<rparr>"
    using m3(2) m2(2) unfolding same_but_counters_def m1_def by (cases m; cases m2; cases m3) simp
  have code: "init_physical_memory_map ll m = Some m3"
    using m2(1) m3(1)
    unfolding init_physical_memory_map_def Let_def e0_def [symmetric] pm_def [symmetric] m1_def [symmetric] eb nb pmap_step_def
    by simp
  have pm3: "physical_memory_map m3 = pm" and id3: "id_paging_size m3 = e0" by (subst same, simp add: e0_def)+
  have "pool (0x3fffd - b) m3 = map (\<lambda>i. page_addr (i + b + skips 0x3f00b 0x3f200 0x3f215 (i + b))) [0..<0x3fffd - b]"
  proof -
    have "ucast (map_entry m3 (of_nat i)) = page_addr (i + b + skips 0x3f00b 0x3f200 0x3f215 (i + b))"
      if "i < 0x3fffd - b" for i
    proof -
      define s where "s = skips 0x3f00b 0x3f200 0x3f215 (i + b)"
      have "s \<le> 3" by (simp add: s_def skips_def)
      then have "ucast (ucast (page_addr (i + b + s)) :: u32) = page_addr (i + b + s)"
        using that map_page(2) [OF b(1), of i s] by (simp add: ac_simps)
      then show ?thesis
        using m3(3) that by (simp add: s_def)
    qed
    then show ?thesis by (simp add: pool_def pm3 pm_def)
  qed
  also have "\<dots> = map page_addr (map (\<lambda>i. i + skips 0x3f00b 0x3f200 0x3f215 i) (map (\<lambda>i. i + b) [0..<0x3fffd - b]))"
    by simp
  also have "map (\<lambda>i. i + b) [0..<0x3fffd - b] = [b..<0x40000 - 3]"
    using b(2) map_add_upt [of b "0x3fffd - b"] by simp
  also have "map (\<lambda>i. i + skips 0x3f00b 0x3f200 0x3f215 i) [b..<0x40000 - 3] =
      filter (\<lambda>q. q \<notin> {0x3f00b, 0x3f200, 0x3f215}) [b..<0x40000]"
    using b(2) by (intro skip_list) simp_all
  finally have pool: "pool (0x3fffd - b) m3 = map page_addr (filter (\<lambda>q. q \<notin> {0x3f00b, 0x3f200, 0x3f215}) [b..<0x40000])" .
  have cnt: "mem8 m3 (get_bind_counter_address m3 (page_addr q)) = 0 \<and> counter_ok (page_addr q) m3"
    if q: "b \<le> q" "q < 0x40000" for q
  proof
    have adr: "get_bind_counter_address m3 x = get_bind_counter_address m1 x" for x
      by (simp add: get_bind_counter_address_def pm3 m1_def)
    have "mem8 m3 = mem8 m2" by (subst m3(2)) simp
    then show "mem8 m3 (get_bind_counter_address m3 (page_addr q)) = 0" using m2(3) [OF q] by (simp add: adr)
    define k where "k = 0x100000 + (q - b)"
    have k: "k < 0x140000" using q by (simp add: k_def)
    have "get_bind_counter_address m3 (page_addr q) =
        physical_memory_map_addr ll + 0x100000 + of_nat q - of_nat b"
    proof -
      have "page_addr q div GRANULE = of_nat q" "e0 div GRANULE = of_nat b"
        using q eb by (simp_all add: word_unat_eq_iff unat_div_distrib unat_page_addr unat_of_nat)
      then show ?thesis by (simp add: get_bind_counter_address_def pm3 pm_def)
    qed
    also have "\<dots> = physical_memory_map_addr ll + of_nat k" using q(1) by (simp add: k_def of_nat_diff)
    also have "unat \<dots> = unat (physical_memory_map_addr ll) + k"
      using k lay b by (simp add: unat_word_ariths(1) unat_of_nat)
    finally show "counter_ok (page_addr q) m3"
      using lay k by (simp add: counter_ok_def id3 e0_def word_less_nat_alt)
  qed
  have "pool_wf (0x3fffd - b) m3" by (simp add: pool_wf_def pm3 pm_def)
  with code pool cnt same pm3 show ?thesis by auto
qed

end
