(* ===== verification/Kernel_Mmu.thy ===== *)
theory Kernel_Mmu
  imports Free_Pages
begin

text \<open>
  \<open>c_init_mmu\<close> for the kernel, from a memory with arbitrary contents: the address space it builds, the
  pages that are left free, and a concrete state of the memory management at which the theorems on
  single operations apply.
\<close>

section \<open>Operations and what they leave alone\<close>

lemma bind_translate:
  assumes "walk_ok m" and "valid_va va" and "pa AND MASK 35 12 = pa" and "counter_ok pa m"
  shows "\<exists>m'. bind_address va pa ba m = Some (0, m') \<and> walk_ok m' \<and>
     tables_only (m\<lparr>mem8 := counted pa m (mem8 m)\<rparr>) m' \<and>
     (\<forall>va'. valid_va va' \<longrightarrow> translate m' va' =
        (if page_of va' = page_of va then Some (pa + (va' AND MASK 11 0)) else translate m va'))"
proof -
  obtain m' where m': "bind_address va pa ba m = Some (0, m')" "walk_ok m'"
    "tables_only (m\<lparr>mem8 := counted pa m (mem8 m)\<rparr>) m'"
    and pt: "\<And>k l. k < 511 \<Longrightarrow> l < 512 \<Longrightarrow>
           pt m' k l = (if k = idx2 va \<and> l = idx3 va then Some (page_entry pa ba) else pt m k l)"
    and "\<And>k. k < 511 \<Longrightarrow> lvl3_table m' k = lvl3_table m k"
    by (rule bind_address_spec [OF assms(1,2) aligned_page [OF assms(3)] assms(4), of ba]) (rule that)
  then show ?thesis
    using translate_eqI [OF pt assms(2)] assms(3) by (auto simp: page_entry_address)
qed

text \<open>What the operations below leave alone: everything but tables, counters and the head of the map.\<close>

definition mmu_frame :: "mmu_state \<Rightarrow> mmu_state \<Rightarrow> bool" where
  "mmu_frame m m' \<longleftrightarrow> lvl2_table_address m' = lvl2_table_address m \<and> id_paging_size m' = id_paging_size m \<and>
     mem32 m' = mem32 m \<and> (physical_memory_map m')\<lparr>pm_head := 0\<rparr> = (physical_memory_map m)\<lparr>pm_head := 0\<rparr>"

lemma mmu_frame_refl [simp]: "mmu_frame m m"
  by (simp add: mmu_frame_def)

lemma mmu_frame_trans: "mmu_frame m m' \<Longrightarrow> mmu_frame m' m'' \<Longrightarrow> mmu_frame m m''"
  by (simp add: mmu_frame_def)

lemma mmu_frame_pm:
  assumes "mmu_frame m m'"
  shows "pm_map (physical_memory_map m') = pm_map (physical_memory_map m)"
    "bind_counter (physical_memory_map m') = bind_counter (physical_memory_map m)"
    "bind_counter_offset (physical_memory_map m') = bind_counter_offset (physical_memory_map m)"
proof -
  have "pm_map ((physical_memory_map m')\<lparr>pm_head := 0\<rparr>) = pm_map ((physical_memory_map m)\<lparr>pm_head := 0\<rparr>)"
    "bind_counter ((physical_memory_map m')\<lparr>pm_head := 0\<rparr>) = bind_counter ((physical_memory_map m)\<lparr>pm_head := 0\<rparr>)"
    "bind_counter_offset ((physical_memory_map m')\<lparr>pm_head := 0\<rparr>) = bind_counter_offset ((physical_memory_map m)\<lparr>pm_head := 0\<rparr>)"
    using assms by (simp_all add: mmu_frame_def)
  then show "pm_map (physical_memory_map m') = pm_map (physical_memory_map m)"
    "bind_counter (physical_memory_map m') = bind_counter (physical_memory_map m)"
    "bind_counter_offset (physical_memory_map m') = bind_counter_offset (physical_memory_map m)" by simp_all
qed

lemma mmu_frame_counter:
  assumes "mmu_frame m m'"
  shows "counter_ok pa m' = counter_ok pa m"
proof -
  have "id_paging_size m' = id_paging_size m" using assms by (simp add: mmu_frame_def)
  then show ?thesis
    by (simp add: counter_ok_def get_bind_counter_address_def mmu_frame_pm [OF assms])
qed

lemma tables_only_frame: "tables_only (m\<lparr>mem8 := c\<rparr>) m' \<Longrightarrow> mmu_frame m m'"
  using tables_onlyD [of "m\<lparr>mem8 := c\<rparr>" m'] by (simp add: mmu_frame_def)

lemma bind_frame:
  assumes "walk_ok m" and "valid_va va" and "pa AND MASK 35 12 = pa" and "counter_ok pa m"
  shows "\<exists>m'. bind_address va pa ba m = Some (0, m') \<and> walk_ok m' \<and> mmu_frame m m' \<and> pool n m' = pool n m \<and>
     pool_wf n m' = pool_wf n m \<and> (\<forall>va'. valid_va va' \<longrightarrow> translate m' va' =
        (if page_of va' = page_of va then Some (pa + (va' AND MASK 11 0)) else translate m va'))"
proof -
  obtain m' where m': "bind_address va pa ba m = Some (0, m')" "walk_ok m'"
    "tables_only (m\<lparr>mem8 := counted pa m (mem8 m)\<rparr>) m'"
    "\<forall>va'. valid_va va' \<longrightarrow> translate m' va' =
        (if page_of va' = page_of va then Some (pa + (va' AND MASK 11 0)) else translate m va')"
    using bind_translate [OF assms, of ba] by blast
  moreover have "pool n m' = pool n m" "pool_wf n m' = pool_wf n m"
    using pool_cong [of m' m] tables_onlyD [OF m'(3)] by (simp_all add: pool_wf_def)
  ultimately show ?thesis using tables_only_frame by blast
qed

lemma new_page_frame:
  assumes "pool_wf n m" and "pool n m = p # ps" and "walk_ok m" and "valid_va va"
    and "p AND MASK 35 12 = p" and "counter_ok p m"
  shows "\<exists>m'. get_new_page va perm cache m = Some (0, m') \<and> walk_ok m' \<and> mmu_frame m m' \<and>
     pool n m' = ps \<and> pool_wf n m' \<and>
     (\<forall>va'. valid_va va' \<longrightarrow> translate m' va' =
        (if page_of va' = page_of va then Some (p + (va' AND MASK 11 0)) else translate m va'))"
proof -
  from pool_pop [OF assms(1,2)] obtain m1 where m1: "get_unbound_physical_page m = Some (p, m1)"
    "pool n m1 = ps" "pool_wf n m1" by blast
  then have m1_def: "m1 = set_pm_head (pm_head (physical_memory_map m) + 1) m"
    by (auto simp: get_unbound_physical_page_def Let_def bind_eq_Some_conv)
  have fr: "mmu_frame m m1" by (simp add: m1_def mmu_frame_def set_pm_head_def)
  have tr1: "translate m1 va' = translate m va'" for va' by (simp add: m1_def translate_def)
  have ok1: "walk_ok m1" and c1: "counter_ok p m1" using assms(3,6) by (simp_all add: m1_def)
  obtain m' where m': "bind_address va p (new_block_attributes_sg1 perm cache) m1 = Some (0, m')" "walk_ok m'"
    and to: "tables_only (m1\<lparr>mem8 := counted p m1 (mem8 m1)\<rparr>) m'"
    and tr: "\<forall>va'. valid_va va' \<longrightarrow> translate m' va' =
        (if page_of va' = page_of va then Some (p + (va' AND MASK 11 0)) else translate m1 va')"
    using bind_translate [OF ok1 assms(4,5) c1, of "new_block_attributes_sg1 perm cache"] by blast
  note T = tables_onlyD [OF to]
  have "pool n m' = ps" "pool_wf n m'" using pool_cong [of m' m1] T m1 by (simp_all add: pool_wf_def)
  then show ?thesis
    using m' m1(1) tr tr1 mmu_frame_trans [OF fr tables_only_frame [OF to]] by (simp add: get_new_page_def)
qed

section \<open>The kernel\<close>

definition kernel_space :: "link_layout \<Rightarrow> u64 \<Rightarrow> u64 option" where
  "kernel_space ll va =
     (if va < end_addr ll then Some va
      else if page_of va = STACK_PAGE_1 then Some (end_addr ll + (va AND MASK 11 0))
      else if page_of va = STACK_PAGE_2 then Some (end_addr ll + GRANULE + (va AND MASK 11 0))
      else if page_of va \<in> {GPIO_BASE, GPIO_BASE + 0x1000, GPIO_BASE + 0x15000, TIMER_IRQ_PAGE} then Some va
      else None)"

lemma map_peripheral_pages_spec:
  assumes ok: "walk_ok m"
    and cnt: "counter_ok GPIO_BASE m" "counter_ok (GPIO_BASE + 0x1000) m" "counter_ok (GPIO_BASE + 0x15000) m"
      "counter_ok TIMER_IRQ_PAGE m"
  shows "\<exists>m'. map_peripheral_pages m = Some m' \<and> walk_ok m' \<and> mmu_frame m m' \<and> pool n m' = pool n m \<and>
     pool_wf n m' = pool_wf n m \<and>
     (\<forall>va. valid_va va \<longrightarrow> translate m' va =
        (if page_of va \<in> {GPIO_BASE, GPIO_BASE + 0x1000, GPIO_BASE + 0x15000, TIMER_IRQ_PAGE} then Some va
         else translate m va))"
proof -
  have io: "valid_va a" "a AND MASK 35 12 = a" "page_of a = a"
    if "a \<in> {GPIO_BASE, GPIO_BASE + 0x1000, GPIO_BASE + 0x15000, TIMER_IRQ_PAGE}" for a
    using that by (auto simp: valid_va_iff page_of_def MASK_def MASK_range_def)
  have self: "a + (va AND MASK 11 0) = va" if "page_of va = a" for a va
    using page_split [of va] that by simp
  let ?ba = "new_block_attributes_sg1 (IO_PAGE OR ACCESS_FLAG_SET) DEVICE"
  let ?kb = "new_block_attributes_sg1 (KERNEL_PAGE OR ACCESS_FLAG_SET) DEVICE"
  have bind: "\<exists>m'. bind_address a a ba m1 = Some (0, m') \<and> walk_ok m' \<and> mmu_frame m m' \<and> pool n m' = pool n m1 \<and> pool_wf n m' = pool_wf n m1 \<and>
      (\<forall>va. valid_va va \<longrightarrow> translate m' va = (if page_of va = a then Some va else translate m1 va))"
    if "a \<in> {GPIO_BASE, GPIO_BASE + 0x1000, GPIO_BASE + 0x15000, TIMER_IRQ_PAGE}" "walk_ok m1" "mmu_frame m m1" for a ba m1
  proof -
    have "counter_ok a m1" using cnt that(1) mmu_frame_counter [OF that(3)] by auto
    from bind_frame [OF that(2) io(1,2) [OF that(1)] this, of ba n] obtain m' where
      "bind_address a a ba m1 = Some (0, m')" "walk_ok m'" "mmu_frame m1 m'" "pool n m' = pool n m1" "pool_wf n m' = pool_wf n m1"
      "\<forall>va'. valid_va va' \<longrightarrow> translate m' va' =
        (if page_of va' = page_of a then Some (a + (va' AND MASK 11 0)) else translate m1 va')" by blast
    then show ?thesis using mmu_frame_trans [OF that(3)] self io(3) [OF that(1)] by auto
  qed
  obtain m1 where m1: "bind_address GPIO_BASE GPIO_BASE ?ba m = Some (0, m1)" "walk_ok m1" "mmu_frame m m1" "pool n m1 = pool n m" "pool_wf n m1 = pool_wf n m"
    "\<forall>va. valid_va va \<longrightarrow> translate m1 va = (if page_of va = GPIO_BASE then Some va else translate m va)"
    using bind [of GPIO_BASE m ?ba] ok by auto
  obtain m2 where m2: "bind_address (GPIO_BASE + 0x1000) (GPIO_BASE + 0x1000) ?ba m1 = Some (0, m2)" "walk_ok m2" "mmu_frame m m2" "pool n m2 = pool n m" "pool_wf n m2 = pool_wf n m"
    "\<forall>va. valid_va va \<longrightarrow> translate m2 va = (if page_of va = GPIO_BASE + 0x1000 then Some va else translate m1 va)"
    using bind [of "GPIO_BASE + 0x1000" m1 ?ba] m1 by auto
  obtain m3 where m3: "bind_address (GPIO_BASE + 0x15000) (GPIO_BASE + 0x15000) ?ba m2 = Some (0, m3)" "walk_ok m3" "mmu_frame m m3" "pool n m3 = pool n m" "pool_wf n m3 = pool_wf n m"
    "\<forall>va. valid_va va \<longrightarrow> translate m3 va = (if page_of va = GPIO_BASE + 0x15000 then Some va else translate m2 va)"
    using bind [of "GPIO_BASE + 0x15000" m2 ?ba] m2 by auto
  obtain m4 where m4: "bind_address TIMER_IRQ_PAGE TIMER_IRQ_PAGE ?kb m3 = Some (0, m4)" "walk_ok m4" "mmu_frame m m4" "pool n m4 = pool n m" "pool_wf n m4 = pool_wf n m"
    "\<forall>va. valid_va va \<longrightarrow> translate m4 va = (if page_of va = TIMER_IRQ_PAGE then Some va else translate m3 va)"
    using bind [of TIMER_IRQ_PAGE m3 ?kb] m3 by auto
  have "map_peripheral_pages m = Some m4"
    using m1(1) m2(1) m3(1) m4(1) by (simp add: map_peripheral_pages_def Let_def)
  moreover have "translate m4 va = (if page_of va \<in> {GPIO_BASE, GPIO_BASE + 0x1000, GPIO_BASE + 0x15000, TIMER_IRQ_PAGE} then Some va
         else translate m va)" if "valid_va va" for va
    using m1(6) m2(6) m3(6) m4(6) that by auto
  ultimately show ?thesis using m4 by blast
qed


definition free_after :: "nat \<Rightarrow> u64 list" where
  "free_after b = map page_addr (filter (\<lambda>q. q \<notin> {0x3f00b, 0x3f200, 0x3f215}) [b..<0x40000])"

lemma free_after_Cons: "b < 0x3f00b \<Longrightarrow> free_after b = page_addr b # free_after (Suc b)"
  unfolding free_after_def by (subst upt_conv_Cons) simp_all

lemma init_cache_form: "\<exists>x y. init_cache m = m\<lparr>MAIR_EL1 := x, TCR_EL1 := y\<rparr>"
  unfolding init_cache_def Let_def by (intro exI, rule refl)

lemma init_cache_simps [simp]:
  "walk_ok (init_cache m) = walk_ok m" "pool n (init_cache m) = pool n m" "pool_wf n (init_cache m) = pool_wf n m"
  "counter_ok pa (init_cache m) = counter_ok pa m" "id_paging_size (init_cache m) = id_paging_size m"
  "lvl2_table_address (init_cache m) = lvl2_table_address m"
  "physical_memory_map (init_cache m) = physical_memory_map m"
  using init_cache_form [of m]
  by (auto simp: walk_ok_def lvl3_table_def lvl2_entry_def AT_def pool_def map_entry_def
       pool_wf_def counter_ok_def get_bind_counter_address_def)

lemma page_addr_mask: "q < 0x40000 \<Longrightarrow> page_addr q AND MASK 35 12 = page_addr q"
  by (rule page_mask) (simp_all add: aligned_unat unat_page_addr)

text \<open>
  The address space that a process builds for itself: identity mapping of the kernel image, two
  stack pages in the frames \<open>f1\<close> and \<open>f2\<close>, and the device pages.
\<close>

definition own_space :: "link_layout \<Rightarrow> u64 \<Rightarrow> u64 \<Rightarrow> u64 \<Rightarrow> u64 option" where
  "own_space ll f1 f2 va =
     (if va < end_addr ll then Some va
      else if page_of va = STACK_PAGE_1 then Some (f1 + (va AND MASK 11 0))
      else if page_of va = STACK_PAGE_2 then Some (f2 + (va AND MASK 11 0))
      else if page_of va \<in> {GPIO_BASE, GPIO_BASE + 0x1000, GPIO_BASE + 0x15000, TIMER_IRQ_PAGE} then Some va
      else None)"

lemma own_space_overrides:
  assumes va: "valid_va va" and e: "unat (end_addr ll) = 4096 * b" and b: "b \<le> 0x3f000"
  shows "(if page_of va \<in> {GPIO_BASE, GPIO_BASE + 0x1000, GPIO_BASE + 0x15000, TIMER_IRQ_PAGE} then Some va
          else if page_of va = STACK_PAGE_2 then Some (f2 + (va AND MASK 11 0))
          else if page_of va = STACK_PAGE_1 then Some (f1 + (va AND MASK 11 0))
          else if va < end_addr ll then Some va else None) = own_space ll f1 f2 va"
proof (cases "va < end_addr ll")
  case True
  have lo: "page_of va \<noteq> page_addr q" if "0x3f000 \<le> q" "q < 0x40000" for q
  proof
    assume eq: "page_of va = page_addr q"
    have "unat (page_of va) \<le> unat va" unfolding unat_page_of by (rule div_times_less_eq_dividend)
    moreover have "unat va < 4096 * b" using True e by (simp add: word_less_nat_alt)
    ultimately show False using b that unfolding eq by (simp add: unat_page_addr)
  qed
  then show ?thesis
    using True lo [of "0x3f1ff"] lo [of "0x3f1fe"] unfolding own_space_def by (simp add: page_addr_def)
next
  case False
  then show ?thesis unfolding own_space_def by auto
qed

lemma own_space_spec:
  assumes lay: "layout_ok ll" and e: "unat (end_addr ll) = 4096 * b" and b: "b \<le> 0x3f000"
    and ok: "walk_ok m" and ident: "id_paging_size m = end_addr ll"
    and p: "pool_wf n m" "pool n m = free_after c" "b \<le> c" "c < 0x3f00a"
    and cnt: "\<And>q. b \<le> q \<Longrightarrow> q < 0x40000 \<Longrightarrow> counter_ok (page_addr q) m"
  obtains m4 m5 m6 m7 where "identity_paging ll m = Some m4" and "check_identity_paging m4 = Some ()"
    and "get_new_page STACK_PAGE_1 (DATA_PAGE OR ACCESS_FLAG_SET) NORMAL_WT_NT m4 = Some (0, m5)"
    and "get_new_page STACK_PAGE_2 (KERNEL_PAGE OR ACCESS_FLAG_SET) NORMAL_WT_NT m5 = Some (0, m6)"
    and "map_peripheral_pages m6 = Some m7" and "walk_ok m7" and "mmu_frame m m7"
    and "pool_wf n m7" and "pool n m7 = free_after (c + 2)"
    and "\<forall>va. valid_va va \<longrightarrow> translate m7 va = own_space ll (page_addr c) (page_addr (Suc c)) va"
proof -
  obtain t e' where "unat (mmu_tables_start ll) = 0x200000 * t" "unat (end_addr ll) = 0x200000 * e'" "t \<le> e'" "e' \<le> 511"
    and al: "aligned (mmu_tables_start ll)" "aligned (end_addr ll)"
    using layout_nat [OF lay] .
  obtain m4 where m4: "identity_paging ll m = Some m4" "walk_ok m4" "tables_only m m4"
    and tr4: "\<forall>va. valid_va va \<longrightarrow> translate m4 va = (if va < end_addr ll then Some va else None)"
    using identity_paging_spec [of m ll] ok lay ident by auto
  note T4 = tables_onlyD [OF m4(3)]
  have fr4: "mmu_frame m m4" using tables_only_frame [where m = m and c = "mem8 m" and m' = m4] m4(3) by simp
  have p4: "pool n m4 = free_after c" "pool_wf n m4"
    using p(1,2) pool_cong [of m4 m] T4 by (simp_all add: pool_wf_def)
  have cnt: "counter_ok (page_addr q) m'" if "mmu_frame m m'" "b \<le> q" "q < 0x40000" for q m'
    using cnt [OF that(2,3)] mmu_frame_counter [OF that(1)] by simp
  have small: "unat (end_addr ll) \<le> 0x3FE00000" using lay by (simp add: layout_ok_def word_le_nat_alt)
  have chk: "check_identity_paging m4 = Some ()"
    by (rule check_identity_paging_spec [OF m4(2)]) (use al small tr4 T4 ident in simp_all)
  have v: "valid_va STACK_PAGE_1" "valid_va STACK_PAGE_2" by (simp_all add: valid_va_iff)
  have ps: "page_of STACK_PAGE_1 = STACK_PAGE_1" "page_of STACK_PAGE_2 = STACK_PAGE_2"
    by (simp_all add: page_of_def MASK_def MASK_range_def)
  obtain m5 where m5: "get_new_page STACK_PAGE_1 (DATA_PAGE OR ACCESS_FLAG_SET) NORMAL_WT_NT m4 = Some (0, m5)"
    "walk_ok m5" "mmu_frame m4 m5" "pool n m5 = free_after (Suc c)" "pool_wf n m5"
    "\<forall>va'. valid_va va' \<longrightarrow> translate m5 va' =
        (if page_of va' = STACK_PAGE_1 then Some (page_addr c + (va' AND MASK 11 0)) else translate m4 va')"
    using new_page_frame [OF p4(2) _ m4(2) v(1) page_addr_mask [of c] cnt [OF fr4], of "free_after (Suc c)"
        "DATA_PAGE OR ACCESS_FLAG_SET" NORMAL_WT_NT] p4(1) free_after_Cons [of c] p(3,4) unfolding ps by auto
  have fr5: "mmu_frame m m5" using mmu_frame_trans [OF fr4 m5(3)] .
  obtain m6 where m6: "get_new_page STACK_PAGE_2 (KERNEL_PAGE OR ACCESS_FLAG_SET) NORMAL_WT_NT m5 = Some (0, m6)"
    "walk_ok m6" "mmu_frame m5 m6" "pool n m6 = free_after (Suc (Suc c))" "pool_wf n m6"
    "\<forall>va'. valid_va va' \<longrightarrow> translate m6 va' =
        (if page_of va' = STACK_PAGE_2 then Some (page_addr (Suc c) + (va' AND MASK 11 0)) else translate m5 va')"
    using new_page_frame [OF m5(5) _ m5(2) v(2) page_addr_mask [of "Suc c"] cnt [OF fr5], of "free_after (Suc (Suc c))"
        "KERNEL_PAGE OR ACCESS_FLAG_SET" NORMAL_WT_NT] m5(4) free_after_Cons [of "Suc c"] p(3,4) unfolding ps by auto
  have fr6: "mmu_frame m m6" using mmu_frame_trans [OF fr5 m6(3)] .
  have io: "counter_ok GPIO_BASE m6" "counter_ok (GPIO_BASE + 0x1000) m6" "counter_ok (GPIO_BASE + 0x15000) m6"
      "counter_ok TIMER_IRQ_PAGE m6"
    using cnt [OF fr6, of "0x3f200"] cnt [OF fr6, of "0x3f201"] cnt [OF fr6, of "0x3f215"] cnt [OF fr6, of "0x3f00b"] b
    by (simp_all add: page_addr_def)
  obtain m7 where m7: "map_peripheral_pages m6 = Some m7" "walk_ok m7" "mmu_frame m6 m7" "pool n m7 = pool n m6"
    "pool_wf n m7 = pool_wf n m6"
    "\<forall>va. valid_va va \<longrightarrow> translate m7 va =
        (if page_of va \<in> {GPIO_BASE, GPIO_BASE + 0x1000, GPIO_BASE + 0x15000, TIMER_IRQ_PAGE} then Some va
         else translate m6 va)"
    using map_peripheral_pages_spec [OF m6(2) io, of n] by blast
  have "translate m7 va = own_space ll (page_addr c) (page_addr (Suc c)) va" if va: "valid_va va" for va
  proof -
    have "translate m7 va =
        (if page_of va \<in> {GPIO_BASE, GPIO_BASE + 0x1000, GPIO_BASE + 0x15000, TIMER_IRQ_PAGE} then Some va
         else if page_of va = STACK_PAGE_2 then Some (page_addr (Suc c) + (va AND MASK 11 0))
         else if page_of va = STACK_PAGE_1 then Some (page_addr c + (va AND MASK 11 0))
         else if va < end_addr ll then Some va else None)"
      using m7(6) m6(6) m5(6) tr4 va by simp
    then show ?thesis unfolding own_space_overrides [OF va e b] .
  qed
  then show thesis
    using that m4(1) chk m5(1) m6(1,4,5) m7 mmu_frame_trans [OF fr6 m7(3)] by simp
qed

lemma kernel_mmu_init_spec:
  assumes lay: "layout_ok ll" and e: "unat (end_addr ll) = 4096 * b" and b: "b \<le> 0x3f000"
    and pm: "unat (physical_memory_map_addr ll) + 0x140000 \<le> unat (end_addr ll)"
  shows "\<exists>m'. c_init_mmu ll sys KERNEL_PID m = Some (mmu_tables_start ll, m') \<and> walk_ok m' \<and>
     id_paging_size m' = end_addr ll \<and> pool_wf (0x3fffd - b) m' \<and> pool (0x3fffd - b) m' = free_after (b + 2) \<and>
     (\<forall>q. b \<le> q \<longrightarrow> q < 0x40000 \<longrightarrow> counter_ok (page_addr q) m') \<and>
     (\<forall>va. valid_va va \<longrightarrow> translate m' va = kernel_space ll va)"
proof -
  define n where "n = 0x3fffd - b"
  define m1 where "m1 = m\<lparr>id_paging_size := end_addr ll, lvl2_table_address := mmu_tables_start ll\<rparr>"
  obtain t e' where "unat (mmu_tables_start ll) = 0x200000 * t" "unat (end_addr ll) = 0x200000 * e'" "t \<le> e'" "e' \<le> 511"
    using layout_nat [OF lay] .
  then have "table_base (lvl2_table_address m1)" by (simp add: table_base_def m1_def)
  from populate_lvl2_table_spec [OF this] obtain m2 where
    m2: "populate_lvl2_table (lvl2_table_address m1 + GRANULE) m1 = Some m2" "walk_ok m2" "tables_only m1 m2" by blast
  note T2 = tables_onlyD [OF m2(3)]
  have id2: "id_paging_size m2 = end_addr ll" using T2(2) by (simp add: m1_def)
  have b2: "unat (id_paging_size m2) = 4096 * b" and pm2: "unat (physical_memory_map_addr ll) + 0x140000 \<le> unat (id_paging_size m2)"
    using e pm by (simp_all add: id2)
  obtain m3 where m3: "init_physical_memory_map ll m2 = Some m3" "pool_wf n m3" "pool n m3 = free_after b"
    and same3: "m3 = m2\<lparr>mem8 := mem8 m3, mem32 := mem32 m3, physical_memory_map := physical_memory_map m3\<rparr>"
    and cnt3: "\<And>q. b \<le> q \<Longrightarrow> q < 0x40000 \<Longrightarrow> counter_ok (page_addr q) m3"
    using init_physical_memory_map_spec [OF b2 b pm2] unfolding n_def free_after_def by blast
  have id3: "id_paging_size m3 = end_addr ll" and l3: "lvl2_table_address m3 = mmu_tables_start ll"
    by (subst same3, simp add: id2 T2(1) m1_def)+
  have ok3: "walk_ok m3" using m2(2) by (subst same3) (simp add: walk_ok_def lvl3_table_def lvl2_entry_def AT_def)
  define m3c where "m3c = init_cache m3"
  have w: "walk_ok m3c" "id_paging_size m3c = end_addr ll" "pool_wf n m3c" "pool n m3c = free_after b"
    "\<And>q. b \<le> q \<Longrightarrow> q < 0x40000 \<Longrightarrow> counter_ok (page_addr q) m3c"
    using ok3 id3 m3 cnt3 by (simp_all add: m3c_def)
  have bb: "b \<le> b" "b < 0x3f00a" using b by simp_all
  obtain m4 m5 m6 m7 where m47: "identity_paging ll m3c = Some m4" "check_identity_paging m4 = Some ()"
    "get_new_page STACK_PAGE_1 (DATA_PAGE OR ACCESS_FLAG_SET) NORMAL_WT_NT m4 = Some (0, m5)"
    "get_new_page STACK_PAGE_2 (KERNEL_PAGE OR ACCESS_FLAG_SET) NORMAL_WT_NT m5 = Some (0, m6)"
    "map_peripheral_pages m6 = Some m7" and m7: "walk_ok m7" "mmu_frame m3c m7" "pool_wf n m7" "pool n m7 = free_after (b + 2)"
    "\<forall>va. valid_va va \<longrightarrow> translate m7 va = own_space ll (page_addr b) (page_addr (Suc b)) va"
    by (rule own_space_spec [OF lay e b w(1-4) bb w(5)]) blast+
  have l7: "lvl2_table_address m7 = mmu_tables_start ll" and id7: "id_paging_size m7 = end_addr ll"
    using m7(2) l3 w(2) by (simp_all add: mmu_frame_def m3c_def)
  have code: "c_init_mmu ll sys KERNEL_PID m = Some (mmu_tables_start ll, m7)"
    using m2(1) m3(1) m47 l7 by (simp add: c_init_mmu_def flip: m1_def m3c_def)
  have "page_addr b = end_addr ll" using e b by (simp add: word_unat_eq_iff unat_page_addr)
  moreover from this have "page_addr (Suc b) = end_addr ll + GRANULE" by (simp add: page_addr_def algebra_simps)
  ultimately have "own_space ll (page_addr b) (page_addr (Suc b)) = kernel_space ll"
    by (simp add: fun_eq_iff own_space_def kernel_space_def)
  then show ?thesis
    using code m7 id7 w(5) mmu_frame_counter [OF m7(2)] by (simp add: n_def)
qed

text \<open>\<open>init\<close> builds its address space after the kernel, from the pages that are left.\<close>

lemma init_mmu_spec:
  assumes lay: "layout_ok ll" and e: "unat (end_addr ll) = 4096 * b" and b: "b \<le> 0x3f000"
    and ps: "pool_wf n m" "pool n m = free_after c" "b \<le> c" "c < 0x3f00a"
    and ident: "id_paging_size m = end_addr ll"
    and cnt: "\<And>q. b \<le> q \<Longrightarrow> q < 0x40000 \<Longrightarrow> counter_ok (page_addr q) m"
  shows "\<exists>m'. c_init_mmu ll sys INIT_PID m = Some (mmu_tables_start ll + 0x200000, m') \<and> walk_ok m' \<and>
     pool n m' = free_after (c + 2) \<and>
     (\<forall>va. valid_va va \<longrightarrow> translate m' va = own_space ll (page_addr c) (page_addr (Suc c)) va)"
proof -
  define m1 where "m1 = m\<lparr>id_paging_size := end_addr ll, lvl2_table_address := mmu_tables_start ll + 0x200000\<rparr>"
  obtain t e' where t: "unat (mmu_tables_start ll) = 0x200000 * t" "unat (end_addr ll) = 0x200000 * e'" "t \<le> e'" "e' \<le> 511"
    using layout_nat [OF lay] .
  then have "unat (mmu_tables_start ll + 0x200000) = 0x200000 * (t + 1)"
    by (simp add: unat_word_ariths(1))
  then have "table_base (lvl2_table_address m1)" using t by (simp add: table_base_def m1_def)
  from populate_lvl2_table_spec [OF this] obtain m2 where
    m2: "populate_lvl2_table (lvl2_table_address m1 + GRANULE) m1 = Some m2" "walk_ok m2" "tables_only m1 m2" by blast
  note T2 = tables_onlyD [OF m2(3)]
  have id2: "id_paging_size m2 = end_addr ll" and l2: "lvl2_table_address m2 = mmu_tables_start ll + 0x200000"
    using T2 by (simp_all add: m1_def)
  have "mmu_frame m1 m2" using tables_only_frame [where m = m1 and c = "mem8 m1" and m' = m2] m2(3) by simp
  then have c2: "counter_ok (page_addr q) m2" if "b \<le> q" "q < 0x40000" for q
    using cnt [OF that] mmu_frame_counter [of m1 m2] ident
    by (simp add: counter_ok_def m1_def get_bind_counter_address_def)
  have p2: "pool_wf n m2" "pool n m2 = free_after c"
    using ps pool_cong [of m2 m] T2 by (simp_all add: pool_wf_def m1_def)
  obtain m4 m5 m6 m7 where m47: "identity_paging ll m2 = Some m4" "check_identity_paging m4 = Some ()"
    "get_new_page STACK_PAGE_1 (DATA_PAGE OR ACCESS_FLAG_SET) NORMAL_WT_NT m4 = Some (0, m5)"
    "get_new_page STACK_PAGE_2 (KERNEL_PAGE OR ACCESS_FLAG_SET) NORMAL_WT_NT m5 = Some (0, m6)"
    "map_peripheral_pages m6 = Some m7" and m7: "walk_ok m7" "mmu_frame m2 m7" "pool_wf n m7" "pool n m7 = free_after (c + 2)"
    "\<forall>va. valid_va va \<longrightarrow> translate m7 va = own_space ll (page_addr c) (page_addr (Suc c)) va"
    by (rule own_space_spec [OF lay e b m2(2) id2 p2 ps(3,4) c2]) blast+
  have "lvl2_table_address m7 = mmu_tables_start ll + 0x200000"
    using m7(2) l2 by (simp add: mmu_frame_def)
  then have "c_init_mmu ll sys INIT_PID m = Some (mmu_tables_start ll + 0x200000, m7)"
    using m2(1) m47 by (simp add: c_init_mmu_def flip: m1_def)
  with m7 show ?thesis by blast
qed

section \<open>The linker script\<close>

lemma unat_align_up:
  assumes "unat a \<le> 0x3f000000"
  shows "unat (align_up 0x200000 a) = (unat a + 0x1fffff) div 0x200000 * 0x200000"
proof -
  have "unat (a + 0x1fffff) = unat a + 0x1fffff" using assms by (simp add: unat_word_ariths(1))
  moreover have "(unat a + 0x1fffff) div 0x200000 * 0x200000 \<le> unat a + 0x1fffff" by (rule div_times_less_eq_dividend)
  ultimately show ?thesis using assms by (simp add: align_up_def unat_word_ariths(2) unat_div_distrib)
qed

lemma align_up_bounds:
  "a \<le> (a + 0x1fffff) div 0x200000 * 0x200000" "(a + 0x1fffff) div 0x200000 * 0x200000 \<le> a + 0x1fffff" for a :: nat
  using div_mult_mod_eq [of "a + 0x1fffff" "0x200000"] mod_less_divisor [of "0x200000" "a + 0x1fffff"] by linarith+

lemma linker_layout:
  assumes "aligned ds" and "ds \<le> de" and "de \<le> 0x3a000000"
  obtains b where "layout_ok (linker_symbols ds de)" and "unat (end_addr (linker_symbols ds de)) = 4096 * b"
    and "b \<le> 0x3f000"
    and "unat (physical_memory_map_addr (linker_symbols ds de)) + 0x140000 \<le> unat (end_addr (linker_symbols ds de))"
proof -
  define t where "t = mmu_tables_start (linker_symbols ds de)"
  define pm where "pm = physical_memory_map_addr (linker_symbols ds de)"
  define e where "e = end_addr (linker_symbols ds de)"
  have de: "unat de \<le> 0x3a000000" using assms(3) by (simp add: word_le_nat_alt)
  have t: "unat t = (unat de + 0x1fffff) div 0x200000 * 0x200000"
    using unat_align_up [of de] de by (simp add: t_def linker_symbols_def Let_def)
  note tb = align_up_bounds [of "unat de", folded t]
  have pm: "unat pm = unat t + 0x4000000"
    using tb de by (simp add: pm_def t_def linker_symbols_def Let_def unat_word_ariths(1))
  then have pme: "unat (pm + 0x140000) = unat t + 0x4140000" using tb de by (simp add: unat_word_ariths(1))
  have "e = align_up 0x200000 (pm + 0x140000)" by (simp add: e_def pm_def linker_symbols_def Let_def add.assoc)
  then have e: "unat e = (unat t + 0x4140000 + 0x1fffff) div 0x200000 * 0x200000"
    using unat_align_up [of "pm + 0x140000"] pme tb de by simp
  note eb = align_up_bounds [of "unat t + 0x4140000", folded e]
  have "unat (e mod 0x200000) = 0" "unat (t mod 0x200000) = 0" by (simp_all add: unat_mod_distrib e t)
  then have mods: "e mod 0x200000 = 0" "t mod 0x200000 = 0" by (simp_all add: word_unat_eq_iff)
  have ds: "data_start (linker_symbols ds de) = ds" by (simp add: linker_symbols_def Let_def)
  have "layout_ok (linker_symbols ds de)"
    unfolding layout_ok_def ds t_def [symmetric] e_def [symmetric]
    using assms mods tb eb de by (simp add: word_le_nat_alt)
  moreover have b: "unat e = 4096 * (512 * ((unat t + 0x4140000 + 0x1fffff) div 0x200000))"
    unfolding e by simp
  ultimately show thesis
    using that [of "512 * ((unat t + 0x4140000 + 0x1fffff) div 0x200000)"] eb tb pm de unfolding e_def [symmetric] pm_def [symmetric] by simp
qed

section \<open>A concrete state\<close>

definition example_sys_table :: system_state where
  "example_sys_table = \<lparr>curr_pid = 0, last_pid = 0, 
     procs = (\<lambda>q. (new_proc_descriptor q q 15 0)\<lparr>mem_conf := \<lparr>ttbr0_el1 = 0x200000, conf_heap_begin = 0x4400000,
                conf_end_offset = 0, conf_global_base = 0\<rparr>\<rparr>),
     prio_proc_n = (\<lambda>_. 0), n_runnable_procs = 0, prio_proc = (\<lambda>_. None)\<rparr>"

definition example_mmu :: mmu_state where
  "example_mmu =
     \<lparr>mem64 = (\<lambda>a. if 0x200000 \<le> a \<and> a < 0x201000 then 0x201003 + (a - 0x200000) * 512 else 0),
      mem32 = (\<lambda>_. 0x5000000), mem8 = (\<lambda>_. 0), frame = (\<lambda>_ _. 0),
      lvl2_table_address = 0x200000, id_paging_size = 0x4400000,
      physical_memory_map = \<lparr>pm_map = 0x4200000, pm_head = 0, pm_size = 0x100000,
        bind_counter_offset = 0x4400, bind_counter = 0x4300000\<rparr>,
      TTBR0_EL1 = 0x200000, MAIR_EL1 = 0, TCR_EL1 = 0\<rparr>"

lemma example_table:
  assumes "i < 511"
  shows "lvl3_table example_mmu i = 0x201000 + i * 0x1000" and "unat (0x201000 + i * 0x1000) = 0x201000 + 4096 * unat i"
proof -
  have i: "unat i < 511" using assms by (simp add: word_less_nat_alt)
  then have u8: "unat (8 * i) = 8 * unat i" by (simp add: unat_word_ariths(2))
  then have "unat (0x200000 + 8 * i) = 0x200000 + 8 * unat i" using i by (simp add: unat_word_ariths(1))
  then have e: "lvl2_entry example_mmu i = 0x201003 + i * 0x1000"
    using i by (simp add: lvl2_entry_def AT_def example_mmu_def word_le_nat_alt word_less_nat_alt)
  show u: "unat (0x201000 + i * 0x1000) = 0x201000 + 4096 * unat i"
    using i by (simp add: unat_word_ariths)
  have al: "aligned (0x201000 + i * 0x1000)" unfolding aligned_unat u by presburger
  have "0x201003 + i * 0x1000 = (0x201000 + i * 0x1000) + 3" by simp
  also have "\<dots> = (0x201000 + i * 0x1000) OR 3"
    by (rule disjunctive_add_eq_or) (rule bit_word_eqI, unfold bit_and_iff bit_three, auto dest!: bit_aligned [OF al])
  finally have "lvl3_table example_mmu i = ((0x201000 + i * 0x1000) OR 3) AND MASK 47 12"
    by (simp add: lvl3_table_def e)
  also have "\<dots> = 0x201000 + i * 0x1000"
  proof (rule bit_word_eqI)
    have "unat (0x201000 + i * 0x1000) < 2 ^ 36" using u i by simp
    from bit_less_power [OF this] bit_aligned [OF al]
    show "bit (((0x201000 + i * 0x1000) OR 3) AND MASK 47 12) n = bit (0x201000 + i * 0x1000) n" for n
      unfolding bit_and_iff bit_or_iff bit_three by fastforce
  qed
  finally show "lvl3_table example_mmu i = 0x201000 + i * 0x1000" .
qed

lemma example_walk_ok: "walk_ok example_mmu"
  unfolding walk_ok_def
proof (intro conjI allI impI)
  have l2: "lvl2_table_address example_mmu = 0x200000" by (simp add: example_mmu_def)
  show "lvl2_table_address example_mmu AND MASK 16 0 = 0"
    unfolding l2 by (simp add: MASK_def MASK_range_def)
  show "lvl3_table example_mmu i \<noteq> lvl2_table_address example_mmu" if "i < 511" for i
    using example_table [OF that] unfolding l2 by (auto simp: word_unat_eq_iff)
  show "i = j" if "i < 511" "j < 511" "lvl3_table example_mmu i = lvl3_table example_mmu j" for i j
    using that example_table [of i] example_table [of j] by (simp add: word_unat_eq_iff)
qed

lemma example_pool: "pool_wf 1 example_mmu" "pool 1 example_mmu = [0x5000000]"
  by (simp_all add: pool_wf_def pool_def map_entry_def example_mmu_def)

lemma example_page:
  "valid_va 0x6000000" "(0x5000000::u64) AND MASK 35 12 = 0x5000000" "counter_ok 0x5000000 example_mmu"
  "id_paging_size example_mmu \<le> 0x5000000" "mem8 example_mmu (get_bind_counter_address example_mmu 0x5000000) = 0"
  by (simp_all add: valid_va_iff MASK_def MASK_range_def counter_ok_def get_bind_counter_address_def example_mmu_def)

theorem bind_address_maps_witness:
  "walk_ok example_mmu \<and> valid_va 0x6000000 \<and>
   (\<exists>m'. bind_address 0x6000000 0x5000000 (new_block_attributes_sg1 USER_PAGE NORMAL_WT_NT) example_mmu = Some (0, m') \<and>
     walk_ok m' \<and> get_physical_address m' 0x6000000 = Some (0x5000000 + (0x6000000 AND MASK 11 0)) \<and>
     (\<forall>va'. valid_va va' \<longrightarrow> translate m' va' =
        (if page_of va' = page_of 0x6000000 then Some (0x5000000 + (va' AND MASK 11 0)) else translate example_mmu va')))"
  using bind_address_maps [OF example_walk_ok example_page(1-3)] example_walk_ok example_page(1) by blast

lemma example_unmapped: "translate example_mmu 0x6000000 = None"
  by (simp add: translate_def pt_def lvl2_entry_def lvl3_table_def AT_def idx2_def idx3_def example_mmu_def MASK_def MASK_range_def
        is_block_entry_def get_address_sg1_def Let_def)

theorem new_page_free_page_witness:
  "translate example_mmu 0x6000000 = None \<and>
   (\<exists>m1 m2. get_new_page 0x6000000 USER_PAGE NORMAL_WT_NT example_mmu = Some (0, m1) \<and>
     translate m1 0x6000000 = Some (0x5000000 + (0x6000000 AND MASK 11 0)) \<and>
     free_virtual_page 0x6000000 m1 = Some (0, m2) \<and> walk_ok m2 \<and> pool 1 m2 = pool 1 example_mmu \<and>
     mem8 m2 = mem8 example_mmu \<and> (\<forall>va'. valid_va va' \<longrightarrow> translate m2 va' = translate example_mmu va'))"
  using new_page_free_page [OF example_pool example_walk_ok example_page] example_unmapped by blast

section \<open>Properties\<close>

text \<open>
  C20. The memory management starts correctly: for every kernel image that the linker script can
  lay out and whatever the memory contains, \<open>c_init_mmu\<close> of the kernel returns (its check of the
  identity paging included) and builds the address space \<open>kernel_space\<close>: addresses below the end of
  the kernel map to themselves, the two stack pages to the first two free pages, four pages of
  peripherals to themselves, and no other address below 0x3FE00000 is mapped. The free pages are the
  remaining ones, in ascending order.
\<close>

theorem kernel_mmu_init:
  assumes "aligned ds" and "ds \<le> de" and "de \<le> 0x3a000000"
  shows "\<exists>m'. c_init_mmu (linker_symbols ds de) sys KERNEL_PID m = Some (mmu_tables_start (linker_symbols ds de), m') \<and>
     walk_ok m' \<and> (\<forall>va<0x3FE00000. translate m' va = kernel_space (linker_symbols ds de) va) \<and>
     (let b = unat (end_addr (linker_symbols ds de)) div 4096 in pool (0x3fffd - b) m' = free_after (b + 2))"
proof -
  obtain b where "layout_ok (linker_symbols ds de)" "unat (end_addr (linker_symbols ds de)) = 4096 * b"
    "b \<le> 0x3f000"
    "unat (physical_memory_map_addr (linker_symbols ds de)) + 0x140000 \<le> unat (end_addr (linker_symbols ds de))"
    using linker_layout [OF assms] .
  from kernel_mmu_init_spec [OF this, of sys m] this(2) show ?thesis by (auto simp: valid_va_iff Let_def)
qed

theorem kernel_mmu_init_witness:
  "aligned 0x6000 \<and> (0x6000::u64) \<le> 0xb000 \<and>
   (\<exists>m'. c_init_mmu (linker_symbols 0x6000 0xb000) example_sys_table KERNEL_PID example_mmu =
        Some (mmu_tables_start (linker_symbols 0x6000 0xb000), m') \<and>
     walk_ok m' \<and> (\<forall>va<0x3FE00000. translate m' va = kernel_space (linker_symbols 0x6000 0xb000) va))"
proof -
  have "aligned 0x6000" by (simp add: aligned_def MASK_def MASK_range_def)
  then show ?thesis
    using kernel_mmu_init [of "0x6000" "0xb000" example_sys_table example_mmu] by auto
qed

text \<open>
  A page of the peripherals is handed out as memory: after \<open>c_init_mmu\<close> the page at
  \<open>GPIO_BASE + 0x1000\<close> is mapped as a device page and is still among the free pages, because the
  test that skips peripheral pages is not repeated after a page has been skipped.
\<close>

theorem gpio_page_is_free:
  assumes "aligned ds" and "ds \<le> de" and "de \<le> 0x3a000000"
  shows "\<exists>m'. c_init_mmu (linker_symbols ds de) sys KERNEL_PID m = Some (mmu_tables_start (linker_symbols ds de), m') \<and>
     translate m' (GPIO_BASE + 0x1000) = Some (GPIO_BASE + 0x1000) \<and>
     GPIO_BASE + 0x1000 \<in> set (pool (0x3fffd - unat (end_addr (linker_symbols ds de)) div 4096) m')"
proof -
  obtain b where lay: "layout_ok (linker_symbols ds de)" and e: "unat (end_addr (linker_symbols ds de)) = 4096 * b"
    and b: "b \<le> 0x3f000"
    and pm: "unat (physical_memory_map_addr (linker_symbols ds de)) + 0x140000 \<le> unat (end_addr (linker_symbols ds de))"
    using linker_layout [OF assms] .
  have lt: "\<not> GPIO_BASE + 0x1000 < end_addr (linker_symbols ds de)" using e b by (simp add: word_less_nat_alt)
  have "page_of (GPIO_BASE + 0x1000) = GPIO_BASE + 0x1000" by (simp add: page_of_def MASK_def MASK_range_def)
  then have ks: "kernel_space (linker_symbols ds de) (GPIO_BASE + 0x1000) = Some (GPIO_BASE + 0x1000)"
    using lt by (simp add: kernel_space_def)
  have "page_addr 0x3f201 \<in> set (free_after (b + 2))"
    unfolding free_after_def using b by simp
  moreover have "GPIO_BASE + 0x1000 = page_addr 0x3f201" by (simp add: page_addr_def)
  ultimately show ?thesis
    using kernel_mmu_init_spec [OF lay e b pm, of sys m] ks by (auto simp: e valid_va_iff)
qed

theorem gpio_page_is_free_witness:
  "aligned 0x6000 \<and> (\<exists>m'. c_init_mmu (linker_symbols 0x6000 0xb000) example_sys_table KERNEL_PID example_mmu =
      Some (mmu_tables_start (linker_symbols 0x6000 0xb000), m') \<and>
    translate m' (GPIO_BASE + 0x1000) = Some (GPIO_BASE + 0x1000) \<and>
    GPIO_BASE + 0x1000 \<in> set (pool (0x3fffd - unat (end_addr (linker_symbols 0x6000 0xb000)) div 4096) m'))"
proof -
  have "aligned 0x6000" by (simp add: aligned_def MASK_def MASK_range_def)
  then show ?thesis
    using gpio_page_is_free [of "0x6000" "0xb000" example_sys_table example_mmu] by auto
qed

end
