(* ===== verification/Mmu_Faults.thy ===== *)
theory Mmu_Faults
  imports Kernel_Mmu
begin

text \<open>
  The handlers of memory faults and the remaining operations of \<^verbatim>\<open>src/src/memory/mmu.c\<close> that work for a
  process: demand paging of the heap, access flags, copy on write, freeing the pages of a process.
  The globals \<open>err\<close> (of \<^verbatim>\<open>src/src/libk/errno.c\<close>), \<open>heap_begin\<close> and \<open>end_offset\<close> (of
  \<^verbatim>\<open>src/src/memory/alloc.c\<close>) and the stack pointer that the handler reads are arguments.
\<close>

section \<open>Handlers\<close>

definition translation_fault_handler ::
    "u64 \<Rightarrow> u64 \<Rightarrow> u64 \<Rightarrow> system_state \<Rightarrow> u64 \<Rightarrow> bool \<Rightarrow> nat \<Rightarrow> err_t \<times> mmu_state \<Rightarrow> (err_t \<times> mmu_state) option" where
  "translation_fault_handler heap_begin end_offset stack_pointer sys fault_address lower_el p = (\<lambda>(err, m).
     let m1 = m\<lparr>lvl2_table_address := get_lvl2_address_from_sys_state sys p\<rparr>;
         err1 = (if stack_pointer < STACK_END \<and> fault_address > stack_pointer \<and> fault_address < STACK_END
                 then err\<lparr>err_no := STACK_OVERFLOW\<rparr> else err)
     in if \<not> (fault_address \<ge> heap_begin \<and> fault_address < heap_begin + end_offset) then None
        else do { (_, m2) \<leftarrow> get_new_page fault_address
                    ((if lower_el then USER_PAGE else KERNEL_PAGE) OR ACCESS_FLAG_SET) NORMAL_WT_NT m1;
                  Some (err1, m2) })"

definition access_flag_fault_lvl3_handler :: "system_state \<Rightarrow> u64 \<Rightarrow> nat \<Rightarrow> mmu_state \<Rightarrow> mmu_state option" where
  "access_flag_fault_lvl3_handler sys fault_address p m =
     set_page_access_flag fault_address (m\<lparr>lvl2_table_address := get_lvl2_address_from_sys_state sys p\<rparr>)"

definition handle_shared_page_write :: "u64 \<Rightarrow> bool \<Rightarrow> mmu_state \<Rightarrow> mmu_state option" where
  "handle_shared_page_write fault_address lower_lvl m =
     (let ba = new_block_attributes_sg1 ((if lower_lvl then USER_PAGE else KERNEL_PAGE) OR ACCESS_FLAG_SET) NORMAL_WT_NT in
      do { phys_address \<leftarrow> get_physical_address m fault_address;
           let cnt = get_bind_counter m phys_address;
           assert (cnt > 0);
           if cnt > 1 then
             do { let m1 = decrement_bind_counter phys_address m;
                  (status, m2) \<leftarrow> get_new_page PAGE_RES_1 (KERNEL_PAGE OR ACCESS_FLAG_SET) NORMAL_WT_NT m1;
                  assert (status = 0);
                  temp_phys_address \<leftarrow> get_physical_address m2 PAGE_RES_1;
                  let aligned_fault_addr = fault_address AND MASK 63 12;
                  m3 \<leftarrow> copy_page PAGE_RES_1 aligned_fault_addr m2;
                  m4 \<leftarrow> set_invalid_page PAGE_RES_1 m3;
                  (status, m5) \<leftarrow> bind_address aligned_fault_addr temp_phys_address ba m4;
                  assert (status = 0);
                  Some m5 }
           else
             do { let lvl3_entry_addr = get_lvl3_entry_phys_address m fault_address;
                  assert (lvl3_entry_addr AND MASK 5 0 = 0);
                  Some (set_block_and_page_attributes_sg1 lvl3_entry_addr ba m) } })"

definition permission_fault_handler :: "u64 \<Rightarrow> int \<Rightarrow> bool \<Rightarrow> mmu_state \<Rightarrow> mmu_state option" where
  "permission_fault_handler fault_address level lower_lvl m =
     do { assert (level = 3);
          assert lower_lvl;
          if fault_address < id_paging_size m \<or> fault_address > GPIO_BASE then None
          else handle_shared_page_write fault_address lower_lvl m }"

definition get_page_permission :: "u64 \<Rightarrow> mmu_state \<Rightarrow> (u64 \<times> mmu_state) option" where
  "get_page_permission virtual_addr m =
     (let m1 = set_lvl2_address_from_TTBR0_EL1 m; e = get_lvl3_entry_phys_address m1 virtual_addr in
      do { assert (e AND MASK 2 0 = 0);
           Some (drop_bit 6 (AT m1 e AND MASK 7 6), m1) })"

section \<open>The end of a process\<close>

definition process_exit :: "nat \<Rightarrow> mmu_state \<Rightarrow> mmu_state option" where
  "process_exit p m =
     (let zone = GRANULE * N_TABLE_ENTRIES in
      do { assert (p \<noteq> KERNEL_PID);
           assert (p \<noteq> INIT_PID);
           assert (p \<noteq> MEM_MANAGER_PID);
           m1 \<leftarrow> for_range (unat (id_paging_size m div zone)) (unat (GPIO_BASE div zone)) (\<lambda>i m.
              let lvl2_entry_addr = lvl2_table_address m + of_nat i * 8 in
              if \<not> is_table_entry (AT m lvl2_entry_addr) then Some m
              else do { m1 \<leftarrow> for_range 0 512 (\<lambda>j m.
                          let lvl3_entry_addr = get_address_sg1 m lvl2_entry_addr + of_nat j * 8 in
                          if \<not> is_block_entry (AT m lvl3_entry_addr) 3 then Some m
                          else do { m1 \<leftarrow> decr_and_free_physical_page (get_address_sg1 m lvl3_entry_addr) m;
                                    Some (set_invalid_entry lvl3_entry_addr m1) }) m;
                        Some (set_invalid_entry lvl2_entry_addr m1) }) m;
           assert (of_nat p = get_ASID_from_TTBR0 (TTBR0_EL1 m1));
           Some m1 })"

definition mem_manager_free_virtual_page :: "system_state \<Rightarrow> u64 \<Rightarrow> nat \<Rightarrow> mmu_state \<Rightarrow> (int \<times> mmu_state) option" where
  "mem_manager_free_virtual_page sys virtual_addr p m =
     (let backup_lvl2_table_address = lvl2_table_address m in
      do { assert (backup_lvl2_table_address = get_lvl2_address_from_sys_state sys MEM_MANAGER_PID);
           (status, m1) \<leftarrow> free_virtual_page virtual_addr
              (m\<lparr>lvl2_table_address := get_lvl2_address_from_sys_state sys p\<rparr>);
           Some (status, m1\<lparr>lvl2_table_address := backup_lvl2_table_address\<rparr>) })"

section \<open>Properties\<close>

text \<open>
  C22. Demand paging: a translation fault of a process inside its heap takes the next free page and
  maps it at the faulting address in the tables of that process, with the access rights of the level
  the fault came from; nothing else is mapped or unmapped. A fault outside the heap stops the kernel.
\<close>

theorem translation_fault_maps_heap:
  assumes "m1 = m\<lparr>lvl2_table_address := get_lvl2_address_from_sys_state sys p\<rparr>"
    and "walk_ok m1" and "pool_wf n m1" and "pool n m1 = q # ps" and "valid_va fa"
    and "q AND MASK 35 12 = q" and "counter_ok q m1"
  shows "if heap_begin \<le> fa \<and> fa < heap_begin + end_offset
     then \<exists>err' m'. translation_fault_handler heap_begin end_offset stack_ptr sys fa lower_el p (err, m) = Some (err', m') \<and>
       pool n m' = ps \<and> walk_ok m' \<and>
       pt m' (idx2 fa) (idx3 fa) = Some (page_entry q (new_block_attributes_sg1
         ((if lower_el then USER_PAGE else KERNEL_PAGE) OR ACCESS_FLAG_SET) NORMAL_WT_NT)) \<and>
       (\<forall>va. valid_va va \<longrightarrow> translate m' va =
          (if page_of va = page_of fa then Some (q + (va AND MASK 11 0)) else translate m1 va))
     else translation_fault_handler heap_begin end_offset stack_ptr sys fa lower_el p (err, m) = None"
proof (cases "heap_begin \<le> fa \<and> fa < heap_begin + end_offset")
  case True
  let ?perm = "(if lower_el then USER_PAGE else KERNEL_PAGE) OR ACCESS_FLAG_SET"
  obtain m' where m': "get_new_page fa ?perm NORMAL_WT_NT m1 = Some (0, m')" "pool n m' = ps" "walk_ok m'"
    and pt: "\<forall>k<511. \<forall>l<512. pt m' k l = (if k = idx2 fa \<and> l = idx3 fa
        then Some (page_entry q (new_block_attributes_sg1 ?perm NORMAL_WT_NT)) else pt m1 k l)"
    using get_new_page_spec [OF assms(3,4,2,5-7), of ?perm NORMAL_WT_NT] by blast
  have "translate m' va = (if page_of va = page_of fa then Some (q + (va AND MASK 11 0)) else translate m1 va)"
    if "valid_va va" for va
    using translate_eqI [of m' fa "Some (page_entry q (new_block_attributes_sg1 ?perm NORMAL_WT_NT))" m1, OF _ assms(5) that]
      pt assms(6) by (simp add: page_entry_address)
  moreover have "pt m' (idx2 fa) (idx3 fa) = Some (page_entry q (new_block_attributes_sg1 ?perm NORMAL_WT_NT))"
    using pt assms(5) by (simp add: valid_va_def)
  ultimately show ?thesis
    using True m' by (simp add: translation_fault_handler_def Let_def flip: assms(1))
next
  case False
  then show ?thesis by (auto simp: translation_fault_handler_def Let_def)
qed

lemma example_lvl2: "get_lvl2_address_from_sys_state example_sys_table p = 0x200000"
  by (simp add: get_lvl2_address_from_sys_state_def example_sys_table_def MASK_def MASK_range_def)

lemma example_same_tables: "example_mmu = example_mmu\<lparr>lvl2_table_address := get_lvl2_address_from_sys_state example_sys_table p\<rparr>"
  by (simp add: example_lvl2 example_mmu_def)

theorem translation_fault_maps_heap_witness:
  "if (0x4400000::u64) \<le> 0x6000000 \<and> (0x6000000::u64) < 0x4400000 + 0x4000000
     then \<exists>err' m'. translation_fault_handler 0x4400000 0x4000000 0 example_sys_table 0x6000000 True 5
         (\<lparr>err_no = 0, err_data = 0\<rparr>, example_mmu) = Some (err', m') \<and>
       pool 1 m' = [] \<and> walk_ok m' \<and>
       pt m' (idx2 0x6000000) (idx3 0x6000000) = Some (page_entry 0x5000000 (new_block_attributes_sg1
         ((if True then USER_PAGE else KERNEL_PAGE) OR ACCESS_FLAG_SET) NORMAL_WT_NT)) \<and>
       (\<forall>va. valid_va va \<longrightarrow> translate m' va =
          (if page_of va = page_of 0x6000000 then Some (0x5000000 + (va AND MASK 11 0)) else translate example_mmu va))
     else translation_fault_handler 0x4400000 0x4000000 0 example_sys_table 0x6000000 True 5
         (\<lparr>err_no = 0, err_data = 0\<rparr>, example_mmu) = None"
  by (rule translation_fault_maps_heap [OF example_same_tables example_walk_ok example_pool example_page(1-3)])

lemma entry_low_bits:
  assumes "aligned a" and "i < 512"
  shows "(a + 8 * i) AND MASK 5 0 = 0 \<longleftrightarrow> i AND MASK 2 0 = 0"
proof -
  have "bit ((a + 8 * i) AND MASK 5 0) n = bit (push_bit 3 (i AND MASK 2 0)) n" for n
    unfolding aligned_entry [OF assms]
    by (auto simp: bit_simps dest: bit_aligned [OF assms(1)])
  then have "(a + 8 * i) AND MASK 5 0 = push_bit 3 (i AND MASK 2 0)" by (rule bit_word_eqI)
  moreover have "push_bit 3 (i AND MASK 2 0) = 0 \<longleftrightarrow> i AND MASK 2 0 = 0"
  proof
    assume z: "push_bit 3 (i AND MASK 2 0) = 0"
    show "i AND MASK 2 0 = 0"
    proof (rule bit_word_eqI)
      fix n
      have "\<not> bit (push_bit 3 (i AND MASK 2 0)) (n + 3)" unfolding z by simp
      then show "bit (i AND MASK 2 0) n = bit 0 n" by (auto simp: bit_simps)
    qed
  qed simp
  ultimately show ?thesis by simp
qed

text \<open>
  C40. A write to a copy-on-write page that no other process shares any more should only change the
  access rights. The code does so when the index of the page in its table is a multiple of 8; for
  every other page its assertion on the entry's address fails, as it tests six low bits where
  addresses of entries are only multiples of 8.
\<close>

theorem unshared_page_write:
  assumes "walk_ok m" and "valid_va fa" and "pt m (idx2 fa) (idx3 fa) = Some e"
    and "mem8 m (get_bind_counter_address m ((e AND MASK 47 12) + (fa AND MASK 11 0))) = 1"
  shows "handle_shared_page_write fa lower_lvl m =
     (if idx3 fa AND MASK 2 0 = 0
      then Some (AT_store (lvl3_table m (idx2 fa) + 8 * idx3 fa)
        ((e AND MASK 47 12) OR attribute_bits (new_block_attributes_sg1
           ((if lower_lvl then USER_PAGE else KERNEL_PAGE) OR ACCESS_FLAG_SET) NORMAL_WT_NT)) m)
      else None)"
proof -
  have tr: "translate m fa = Some ((e AND MASK 47 12) + (fa AND MASK 11 0))"
    using assms(3) by (simp add: translate_def)
  have tab: "is_table_entry (lvl2_entry m (idx2 fa))" "AT m (lvl3_table m (idx2 fa) + 8 * idx3 fa) = e"
    using assms(3) by (auto simp: pt_def Let_def split: if_splits)
  have "get_lvl3_entry_phys_address m fa = lvl3_table m (idx2 fa) + 8 * idx3 fa"
    using tab by (simp add: get_lvl3_entry_valid [OF assms(1,2)])
  then show ?thesis
    using translate_physical [OF assms(1,2) tr] assms(4) tab entry_low_bits [of "lvl3_table m (idx2 fa)" "idx3 fa"]
    by (simp add: handle_shared_page_write_def Let_def get_bind_counter_def assert_bind
          set_block_and_page_attributes_sg1_def)
qed

definition example_cow :: mmu_state where
  "example_cow = AT_store 0x231008 0x5000003 (example_mmu\<lparr>mem8 := (\<lambda>_. 1)\<rparr>)"

lemma example_cow_ok: "walk_ok example_cow" "pt example_cow 48 1 = Some 0x5000003"
proof -
  let ?m = "example_mmu\<lparr>mem8 := (\<lambda>_. 1)\<rparr>"
  have same: "lvl3_table ?m i = lvl3_table example_mmu i" for i
    by (simp add: lvl3_table_def lvl2_entry_def AT_def)
  have ok: "walk_ok ?m" using example_walk_ok by (simp add: walk_ok_def same)
  have a: "0x231008 = lvl3_table ?m 48 + 8 * 1" using example_table(1) [of 48] by (simp add: same)
  show "walk_ok example_cow" unfolding example_cow_def by (rule lvl3_store(2) [OF ok _ _ a]) simp_all
  have "is_table_entry (lvl2_entry ?m 48)" "is_block_entry 0x5000003 3"
    by (simp_all add: is_table_entry_def is_block_entry_def lvl2_entry_def AT_def example_mmu_def MASK_def MASK_range_def)
  then show "pt example_cow 48 1 = Some 0x5000003"
    unfolding example_cow_def by (subst lvl3_store(3) [OF ok _ _ a]) simp_all
qed

theorem unshared_page_write_witness:
  "walk_ok example_cow \<and> pt example_cow 48 1 = Some 0x5000003 \<and> handle_shared_page_write 0x6001000 True example_cow = None"
proof -
  have i: "idx2 0x6001000 = 48" "idx3 0x6001000 = 1"
    by (simp_all add: idx2_def idx3_def MASK_def MASK_range_def)
  have v: "valid_va 0x6001000" by (simp add: valid_va_iff)
  have "mem8 example_cow a = 1" for a by (simp add: example_cow_def AT_store_def)
  then show ?thesis
    using unshared_page_write [OF example_cow_ok(1) v, of "0x5000003" True] example_cow_ok
    by (simp add: i MASK_def MASK_range_def)
qed

end
