(* ===== verification/Bytes.thy ===== *)
theory Bytes
  imports Prelude
begin

text \<open>
  Byte-addressed memory: little-endian loads and stores of \<open>k\<close> bytes, the way the target machine
  accesses a C object, and the two facts that reasoning about C structures in memory needs: a load
  sees the last store to the same place, and no store to a disjoint range.
\<close>

type_synonym bytes = "u64 \<Rightarrow> u8"

primrec load :: "nat \<Rightarrow> bytes \<Rightarrow> u64 \<Rightarrow> u64" where
  "load 0 m a = 0"
| "load (Suc k) m a = ucast (m a) OR push_bit 8 (load k m (a + 1))"

definition store :: "nat \<Rightarrow> u64 \<Rightarrow> u64 \<Rightarrow> bytes \<Rightarrow> bytes" where
  "store k a v m = (\<lambda>x. if unat (x - a) < k then ucast (drop_bit (8 * unat (x - a)) v) else m x)"

text \<open>\<open>span a n x\<close>: \<open>x\<close> is one of the \<open>n\<close> addresses from \<open>a\<close> on.\<close>

definition span :: "u64 \<Rightarrow> nat \<Rightarrow> u64 \<Rightarrow> bool" where
  "span a n x \<longleftrightarrow> unat a \<le> unat x \<and> unat x < unat a + n"

lemma bit_load: "bit (load k m a) n \<longleftrightarrow> n < 8 * k \<and> n < 64 \<and> bit (m (a + of_nat (n div 8))) (n mod 8)"
proof (induction k arbitrary: a n)
  case 0
  then show ?case by simp
next
  case (Suc k)
  show ?case
  proof (cases "n < 8")
    case True
    then show ?thesis by (simp add: bit_simps)
  next
    case False
    then obtain j where j: "n = 8 + j" using le_Suc_ex not_less by blast
    have "bit (ucast (m a) :: u64) n = False" using False by (auto simp: bit_simps dest: bit_imp_le_length)
    moreover have "(8 + j) div 8 = Suc (j div 8)" by linarith
    ultimately show ?thesis by (auto simp: bit_push_bit_iff bit_or_iff Suc.IH j algebra_simps)
  qed
qed

lemma unat_add_lt: "unat a + k \<le> 2 ^ 64 \<Longrightarrow> j < k \<Longrightarrow> unat (a + of_nat j :: u64) = unat a + j"
  by (simp add: unat_word_ariths unat_of_nat)

lemma unat_diff_span: "span a n x \<Longrightarrow> unat (x - a) = unat x - unat a"
  by (simp add: span_def unat_sub word_le_nat_alt)

lemma unat_sub_ge:
  assumes "unat a + k \<le> 2 ^ 64" and "\<not> span a k x"
  shows "k \<le> unat (x - a :: u64)"
proof (rule ccontr)
  assume "\<not> ?thesis"
  then have l: "unat (x - a) < k" by simp
  have "x = a + of_nat (unat (x - a))" by simp
  then have "unat x = unat a + unat (x - a)" using unat_add_lt [OF assms(1) l] by simp
  with l assms(2) show False by (simp add: span_def)
qed

lemma store_outside:
  assumes "unat a + k \<le> 2 ^ 64" and "\<not> span a k x"
  shows "store k a v m x = m x"
  using unat_sub_ge [OF assms] by (simp add: store_def)

lemma load_store_same: 
  assumes "k \<le> 8"
  shows "load k (store k a v m) a = take_bit (8 * k) v"
proof (rule bit_word_eqI)
  fix n assume "n < LENGTH(64)"
  then have n: "n < 64" by simp
  then have u: "unat (of_nat (n div 8) :: u64) = n div 8" by (simp add: unat_of_nat)
  show "bit (load k (store k a v m) a) n = bit (take_bit (8 * k) v) n"
    using n assms by (auto simp: bit_load store_def u bit_simps)
qed

lemma load_cong:
  assumes "unat a + k \<le> 2 ^ 64" and "\<And>x. span a k x \<Longrightarrow> m' x = m x"
  shows "load k m' a = load k m a"
proof (rule bit_word_eqI)
  fix n
  have "m' (a + of_nat (n div 8)) = m (a + of_nat (n div 8))" if "n < 8 * k"
    using unat_add_lt [OF assms(1), of "n div 8"] that by (intro assms(2)) (auto simp: span_def)
  then show "bit (load k m' a) n = bit (load k m a) n" by (auto simp: bit_load)
qed

lemma load_store_other:
  assumes "unat a + k \<le> 2 ^ 64" and "unat b + l \<le> 2 ^ 64" and "unat a + k \<le> unat b \<or> unat b + l \<le> unat a"
  shows "load l (store k a v m) b = load l m b"
  using assms by (intro load_cong store_outside) (auto simp: span_def)

lemma load_shift:
  assumes "\<And>i. i < k \<Longrightarrow> m' (b + of_nat i) = m (a + of_nat i)"
  shows "load k m' b = load k m a"
proof (rule bit_word_eqI)
  fix n
  have "n < 8 * k \<Longrightarrow> n div 8 < k" by (simp add: less_mult_imp_div_less mult.commute)
  then show "bit (load k m' b) n = bit (load k m a) n" using assms [of "n div 8"] by (auto simp: bit_load)
qed

lemma load_numeral: "load (numeral k) m a = ucast (m a) OR push_bit 8 (load (pred_numeral k) m (a + 1))"
  by (simp add: numeral_eq_Suc)

end
