(* ===== verification/Strings.thy ===== *)
theory Strings
  imports Bytes
begin

text \<open>
  The memory and string routines of \<^verbatim>\<open>src/src/libk/string.c\<close> that do not allocate, on the
  byte-addressed memory. \<open>char\<close> is unsigned on AArch64, so bytes compare as words. The loops over
  a string end at its first zero byte; a memory without one makes them run forever, which is
  \<open>None\<close>.
\<close>

section \<open>Definitions\<close>

primrec memcmp_from :: "nat \<Rightarrow> bytes \<Rightarrow> u64 \<Rightarrow> u64 \<Rightarrow> int" where
  "memcmp_from 0 m a b = 0"
| "memcmp_from (Suc n) m a b =
     (if m a \<noteq> m b then if m a < m b then -1 else 1 else memcmp_from n m (a + 1) (b + 1))"

definition memcmp :: "u64 \<Rightarrow> u64 \<Rightarrow> u64 \<Rightarrow> bytes \<Rightarrow> int" where
  "memcmp pa pb sz m = memcmp_from (unat sz) m pa pb"

definition copy_byte :: "u64 \<Rightarrow> u64 \<Rightarrow> nat \<Rightarrow> bytes \<Rightarrow> bytes" where
  "copy_byte dst src i m = m(dst + of_nat i := m (src + of_nat i))"

definition memcpy :: "u64 \<Rightarrow> u64 \<Rightarrow> u64 \<Rightarrow> bytes \<Rightarrow> bytes" where
  "memcpy dst src sz m = fold (copy_byte dst src) [0..<unat sz] m"

definition memmove :: "u64 \<Rightarrow> u64 \<Rightarrow> u64 \<Rightarrow> bytes \<Rightarrow> bytes" where
  "memmove dst src sz m =
     (if dst < src then fold (copy_byte dst src) [0..<unat sz] m
      else fold (copy_byte dst src) (rev [0..<unat sz]) m)"

definition memset :: "u64 \<Rightarrow> int \<Rightarrow> u64 \<Rightarrow> bytes \<Rightarrow> bytes" where
  "memset dst v sz m = fold (\<lambda>i m. m(dst + of_nat i := word_of_int v)) [0..<unat sz] m"

partial_function (option) strlen_from :: "bytes \<Rightarrow> u64 \<Rightarrow> u64 \<Rightarrow> u64 option" where
  "strlen_from m str len = (if m (str + len) \<noteq> 0 then strlen_from m str (len + 1) else Some len)"

definition strlen :: "u64 \<Rightarrow> bytes \<Rightarrow> u64 option" where
  "strlen str m = strlen_from m str 0"

definition strsize :: "u64 \<Rightarrow> bytes \<Rightarrow> u64 option" where
  "strsize str m = map_option (\<lambda>l. l + 1) (strlen str m)"

partial_function (option) strcmp_from :: "bytes \<Rightarrow> u64 \<Rightarrow> u64 \<Rightarrow> u64 \<Rightarrow> int option" where
  "strcmp_from m str1 str2 i =
     (let c1 = m (str1 + i); c2 = m (str2 + i) in
      if c1 \<noteq> 0 \<and> c2 \<noteq> 0 then
        if c1 \<noteq> c2 then Some (if c1 < c2 then -1 else 1) else strcmp_from m str1 str2 (i + 1)
      else if c1 \<noteq> c2 then Some (if c1 = 0 then -1 else 1) else Some 0)"

definition strcmp :: "u64 \<Rightarrow> u64 \<Rightarrow> bytes \<Rightarrow> int option" where
  "strcmp str1 str2 m = strcmp_from m str1 str2 0"

section \<open>Copying\<close>

lemma copy_loop:
  assumes "unat dst + n \<le> 2 ^ 64" and "unat src + n \<le> 2 ^ 64"
    and "distinct is" and "set is \<subseteq> {..<n}"
    and "\<And>k j. k < length is \<Longrightarrow> j < k \<Longrightarrow> unat dst + is ! j \<noteq> unat src + is ! k"
  shows "fold (copy_byte dst src) is m =
     (\<lambda>x. if \<exists>i\<in>set is. x = dst + of_nat i then m (src + (x - dst)) else m x)"
  using assms(3-5)
proof (induction "is" rule: rev_induct)
  case Nil
  then show ?case by simp
next
  case (snoc i "is")
  have prev: "is ! j < n" if "j < length is" for j using snoc.prems(2) that by (auto simp: subset_iff)
  have i: "i < n" using snoc.prems(2) by simp
  have ih: "fold (copy_byte dst src) is m =
     (\<lambda>x. if \<exists>i\<in>set is. x = dst + of_nat i then m (src + (x - dst)) else m x)"
  proof (rule snoc.IH)
    fix k j assume "k < length is" "j < k"
    then show "unat dst + is ! j \<noteq> unat src + is ! k" using snoc.prems(3) [of k j] by (simp add: nth_append)
  qed (use snoc.prems in simp_all)
  have "src + of_nat i \<noteq> dst + of_nat k" if "k \<in> set is" for k
  proof -
    obtain j where j: "j < length is" "k = is ! j" using \<open>k \<in> set is\<close> by (auto simp: in_set_conv_nth)
    have "unat dst + k \<noteq> unat src + i" using snoc.prems(3) [of "length is" j] j by (simp add: nth_append)
    then show ?thesis using unat_add_lt [OF assms(1), of k] unat_add_lt [OF assms(2) i] prev [OF j(1)] j(2)
      by (auto simp: word_unat_eq_iff)
  qed
  then have "fold (copy_byte dst src) is m (src + of_nat i) = m (src + of_nat i)" by (auto simp: ih)
  then have "fold (copy_byte dst src) (is @ [i]) m =
     (fold (copy_byte dst src) is m)(dst + of_nat i := m (src + of_nat i))"
    by (simp add: copy_byte_def)
  then show ?case unfolding ih by (simp add: fun_eq_iff)
qed

definition copied :: "u64 \<Rightarrow> u64 \<Rightarrow> nat \<Rightarrow> bytes \<Rightarrow> bytes" where
  "copied dst src n m = (\<lambda>x. if span dst n x then m (src + (x - dst)) else m x)"

lemma span_ex: 
  assumes "unat a + n \<le> 2 ^ 64"
  shows "(\<exists>i\<in>{..<n}. x = a + of_nat i) \<longleftrightarrow> span a n x"
proof
  assume "span a n x"
  then show "\<exists>i\<in>{..<n}. x = a + of_nat i"
    using unat_diff_span [of a n x] by (intro bexI [of _ "unat (x - a)"]) (auto simp: span_def)
qed (use unat_add_lt [OF assms] in \<open>auto simp: span_def\<close>)

lemma fold_copied:
  assumes "unat dst + n \<le> 2 ^ 64" and "unat src + n \<le> 2 ^ 64"
    and "distinct is" and "set is = {..<n}"
    and "\<And>k j. k < length is \<Longrightarrow> j < k \<Longrightarrow> unat dst + is ! j \<noteq> unat src + is ! k"
  shows "fold (copy_byte dst src) is m = copied dst src n m"
  using copy_loop [OF assms(1-3) _ assms(5), of m] assms(4) span_ex [OF assms(1)]
  by (simp add: copied_def)

lemma memcpy_copied:
  assumes "unat dst + unat sz \<le> 2 ^ 64" and "unat src + unat sz \<le> 2 ^ 64"
    and "unat dst \<le> unat src \<or> unat src + unat sz \<le> unat dst"
  shows "memcpy dst src sz m = copied dst src (unat sz) m"
  unfolding memcpy_def by (rule fold_copied) (use assms in auto)

lemma memset_filled:
  assumes "unat dst + unat sz \<le> 2 ^ 64"
  shows "memset dst v sz m = (\<lambda>x. if span dst (unat sz) x then word_of_int v else m x)"
proof -
  have "fold (\<lambda>i m. m(dst + of_nat i := w)) is m = (\<lambda>x. if \<exists>i\<in>set is. x = dst + of_nat i then w else m x)" for "is" w
    by (induction "is" arbitrary: m) (auto simp: fun_eq_iff)
  then show ?thesis using span_ex [OF assms] by (simp add: memset_def atLeast0LessThan)
qed

lemma fold_copy_disjoint:
  assumes "\<And>i. i \<in> set is \<Longrightarrow> i < 2 ^ 64" and "\<And>i j. i \<in> set is \<Longrightarrow> j \<in> set is \<Longrightarrow> src + of_nat i \<noteq> dst + of_nat j" and "distinct is"
  shows "fold (copy_byte dst src) is m x = (if x - dst \<in> of_nat ` set is then m (src + (x - dst)) else m x)"
  using assms
proof (induction "is" arbitrary: m)
  case (Cons i "is")
  let ?m = "copy_byte dst src i m"
  have ne: "(of_nat i :: u64) \<noteq> of_nat j" if "j \<in> set is" for j
    using Cons.prems(1) [of i] Cons.prems(1) [of j] Cons.prems(3) that by (auto simp: word_unat_eq_iff unat_of_nat)
  have "fold (copy_byte dst src) (i # is) m x = (if x - dst \<in> of_nat ` set is then ?m (src + (x - dst)) else ?m x)"
    using Cons.IH [of ?m] Cons.prems by (simp del: of_nat_eq_iff)
  moreover have "?m (src + (x - dst)) = m (src + (x - dst))" if "x - dst \<in> of_nat ` set is"
  proof -
    from that obtain j where j: "j \<in> set is" "x - dst = of_nat j" by blast
    have "src + of_nat j \<noteq> dst + of_nat i" using Cons.prems(2) [of j i] j(1) by simp
    then show ?thesis unfolding j(2) by (simp add: copy_byte_def)
  qed
  moreover have "?m x = (if x - dst = of_nat i then m (src + (x - dst)) else m x)"
    by (simp add: copy_byte_def diff_eq_eq add.commute)
  ultimately show ?case using ne by auto
qed simp

lemma memmove_disjoint:
  assumes "\<And>i j. i < unat n \<Longrightarrow> j < unat n \<Longrightarrow> src + of_nat i \<noteq> dst + of_nat j"
  shows "memmove dst src n m x = (if unat (x - dst) < unat n then m (src + (x - dst)) else m x)"
proof -
  have "unat n < 2 ^ 64" using unsigned_less [of n] by simp
  then have i: "i < 2 ^ 64" if "i < unat n" for i using that by simp
  have "x - dst \<in> of_nat ` {0..<unat n} \<longleftrightarrow> unat (x - dst) < unat n"
    using i by (auto simp: unat_of_nat intro: image_eqI [of _ _ "unat (x - dst)"])
  then show ?thesis
    using fold_copy_disjoint [of "[0..<unat n]" src dst m x] fold_copy_disjoint [of "rev [0..<unat n]" src dst m x] assms i
    by (simp add: memmove_def)
qed

section \<open>Strings\<close>

text \<open>\<open>cstring m p xs\<close>: the zero-terminated string at \<open>p\<close> has the characters \<open>xs\<close>.\<close>

fun cstring :: "bytes \<Rightarrow> u64 \<Rightarrow> u8 list \<Rightarrow> bool" where
  "cstring m p [] \<longleftrightarrow> m p = 0"
| "cstring m p (x # xs) \<longleftrightarrow> x \<noteq> 0 \<and> m p = x \<and> cstring m (p + 1) xs"

lemma strlen_from_cstring: "cstring m (p + l) xs \<Longrightarrow> strlen_from m p l = Some (l + of_nat (length xs))"
proof (induction xs arbitrary: l)
  case Nil
  then show ?case by (subst strlen_from.simps) simp
next
  case (Cons x xs)
  then have "strlen_from m p (l + 1) = Some (l + 1 + of_nat (length xs))" by (intro Cons.IH) (simp add: add.assoc)
  then show ?case using Cons.prems by (subst strlen_from.simps) (simp add: algebra_simps)
qed

lemma strlen_cstring: "cstring m p xs \<Longrightarrow> strlen p m = Some (of_nat (length xs))"
  using strlen_from_cstring [of m p 0 xs] by (simp add: strlen_def)

lemma cstring_cong:
  assumes "\<And>i. i \<le> length xs \<Longrightarrow> m' (q + of_nat i) = m (p + of_nat i)"
  shows "cstring m' q xs \<longleftrightarrow> cstring m p xs"
  using assms
proof (induction xs arbitrary: p q)
  case Nil
  from Nil [of 0] show ?case by simp
next
  case (Cons x xs)
  have "cstring m' (q + 1) xs \<longleftrightarrow> cstring m (p + 1) xs"
  proof (rule Cons.IH)
    fix i assume "i \<le> length xs"
    then show "m' (q + 1 + of_nat i) = m (p + 1 + of_nat i)" using Cons.prems [of "Suc i"] by (simp add: add.assoc)
  qed
  then show ?case using Cons.prems [of 0] by simp
qed

lemma cstring_nth:
  "cstring m p xs \<longleftrightarrow> (\<forall>i<length xs. m (p + of_nat i) = xs ! i \<and> xs ! i \<noteq> 0) \<and> m (p + of_nat (length xs)) = 0"
proof (induction xs arbitrary: p)
  case (Cons x xs)
  have "(\<forall>i<length (x # xs). m (p + of_nat i) = (x # xs) ! i \<and> (x # xs) ! i \<noteq> 0) \<longleftrightarrow>
     m p = x \<and> x \<noteq> 0 \<and> (\<forall>i<length xs. m (p + 1 + of_nat i) = xs ! i \<and> xs ! i \<noteq> 0)"
    unfolding length_Cons All_less_Suc2 by (simp add: add.assoc)
  then show ?case using Cons.IH [of "p + 1"] by (simp add: add.assoc) blast
qed simp

lemma takeWhile_string:
  assumes "\<And>i. i < length ys \<Longrightarrow> m (a + of_nat i) = ys ! i" and "0 \<in> set ys"
  shows "cstring m a (takeWhile (\<lambda>c. c \<noteq> 0) ys)"
proof -
  let ?xs = "takeWhile (\<lambda>c. c \<noteq> 0) ys"
  have l: "length ?xs < length ys"
  proof (rule ccontr)
    assume "\<not> ?thesis"
    then have "?xs = ys" using takeWhile_eq_take [of "\<lambda>c. c \<noteq> 0" ys] by simp
    then show False using assms(2) by auto
  qed
  have "m (a + of_nat i) = ?xs ! i \<and> ?xs ! i \<noteq> 0" if i: "i < length ?xs" for i
    using assms(1) [of i] i l takeWhile_nth [OF i] set_takeWhileD [OF nth_mem [OF i]] by simp
  moreover have "m (a + of_nat (length ?xs)) = 0" using assms(1) [OF l] nth_length_takeWhile [OF l] by simp
  ultimately show ?thesis by (simp add: cstring_nth)
qed

lemma takeWhile_cstring:
  assumes "cstring m a xs" and "length xs < n"
  shows "takeWhile (\<lambda>c. c \<noteq> 0) (map (\<lambda>i. m (a + of_nat i)) [0..<n]) = xs \<and> 0 \<in> set (map (\<lambda>i. m (a + of_nat i)) [0..<n])"
proof -
  have "map (\<lambda>i. m (a + of_nat i)) [0..<n] = xs @ 0 # map (\<lambda>i. m (a + of_nat i)) [Suc (length xs)..<n]"
  proof -
    have l: "[0..<n] = [0..<length xs] @ length xs # [Suc (length xs)..<n]"
      unfolding upt_conv_Cons [OF assms(2), symmetric]
      by (rule upt_add_eq_append [of 0 "length xs" "n - length xs", unfolded le_add_diff_inverse [OF less_imp_le [OF assms(2)]]]) simp
    have "map (\<lambda>i. m (a + of_nat i)) [0..<length xs] = xs"
      by (rule nth_equalityI) (use assms(1) in \<open>simp_all add: cstring_nth\<close>)
    moreover have "m (a + of_nat (length xs)) = 0" using assms(1) by (simp add: cstring_nth)
    ultimately show ?thesis unfolding l by simp
  qed
  moreover have "0 \<notin> set xs" using assms(1) by (auto simp: cstring_nth in_set_conv_nth)
  ultimately show ?thesis by (auto simp: takeWhile_append)
qed

text \<open>The order of C strings: -1, 0 or 1.\<close>

fun compare_strings :: "u8 list \<Rightarrow> u8 list \<Rightarrow> int" where
  "compare_strings [] [] = 0"
| "compare_strings [] (y # ys) = -1"
| "compare_strings (x # xs) [] = 1"
| "compare_strings (x # xs) (y # ys) = (if x < y then -1 else if y < x then 1 else compare_strings xs ys)"

lemma compare_strings_less: "compare_strings xs ys = -1 \<longleftrightarrow> (xs, ys) \<in> lexord {(x, y). x < y}"
  by (induction xs ys rule: compare_strings.induct) auto

lemma compare_strings_eq: "compare_strings xs ys = 0 \<longleftrightarrow> xs = ys"
  by (induction xs ys rule: compare_strings.induct) auto

lemma compare_strings_swap: "compare_strings ys xs = - compare_strings xs ys"
  by (induction xs ys rule: compare_strings.induct) auto

lemma strcmp_from_cstring:
  "cstring m (p + i) xs \<Longrightarrow> cstring m (q + i) ys \<Longrightarrow> strcmp_from m p q i = Some (compare_strings xs ys)"
proof (induction xs ys arbitrary: i rule: compare_strings.induct)
  case (4 x xs y ys)
  have "strcmp_from m p q (i + 1) = Some (compare_strings xs ys)" if "x = y"
    using 4 that by (intro "4.IH") (auto simp: add.assoc)
  then show ?case using 4 by (subst strcmp_from.simps) (auto simp: Let_def)
qed (subst strcmp_from.simps; auto simp: Let_def)+

section \<open>Properties\<close>

text \<open>
  \<open>memmove\<close> copies correctly whether or not the regions overlap: every byte of the destination
  receives the byte that the source held before the call, and no other byte changes.
\<close>

theorem memmove_copies:
  assumes "unat dst + unat sz \<le> 2 ^ 64" and "unat src + unat sz \<le> 2 ^ 64"
  shows "memmove dst src sz m x = (if span dst (unat sz) x then m (src + (x - dst)) else m x)"
proof -
  have up: "fold (copy_byte dst src) [0..<unat sz] m = copied dst src (unat sz) m" if "dst < src"
    by (rule fold_copied) (use assms that in \<open>auto simp: word_less_nat_alt\<close>)
  have down: "fold (copy_byte dst src) (rev [0..<unat sz]) m = copied dst src (unat sz) m" if "\<not> dst < src"
    by (rule fold_copied) (use assms that in \<open>auto simp: word_less_nat_alt rev_nth\<close>)
  show ?thesis using up down by (simp add: memmove_def copied_def)
qed

theorem memmove_copies_witness:
  "memmove 11 10 3 (\<lambda>x. ucast x) 13 = 12 \<and> memmove 10 11 3 (\<lambda>x. ucast x) 10 = 11"
  using memmove_copies [of 11 3 10 "\<lambda>x. ucast x" 13] memmove_copies [of 10 3 11 "\<lambda>x. ucast x" 10]
  by (simp add: span_def)

text \<open>
  \<open>strcmp\<close> returns on all C strings and decides their lexicographic order: -1 when the first is
  smaller, 0 when they are equal and 1 when the second is smaller.
\<close>

theorem strcmp_lexicographic:
  assumes "cstring m p xs" and "cstring m q ys"
  shows "\<exists>r. strcmp p q m = Some r \<and> (r = -1 \<longleftrightarrow> (xs, ys) \<in> lexord {(x, y). x < y}) \<and>
     (r = 0 \<longleftrightarrow> xs = ys) \<and> (r = 1 \<longleftrightarrow> (ys, xs) \<in> lexord {(x, y). x < y})"
proof -
  have "strcmp p q m = Some (compare_strings xs ys)"
    using strcmp_from_cstring [of m p 0 xs q ys] assms by (simp add: strcmp_def)
  moreover have "compare_strings xs ys = 1 \<longleftrightarrow> compare_strings ys xs = -1"
    using compare_strings_swap [of ys xs] by auto
  ultimately show ?thesis by (simp add: compare_strings_eq compare_strings_less)
qed

definition example_bytes :: bytes where
  "example_bytes = (\<lambda>_. 0)(100 := 97, 101 := 98, 200 := 97, 201 := 99)"

lemma example_strings: "cstring example_bytes 100 [97, 98]" "cstring example_bytes 200 [97, 99]"
  by (simp_all add: example_bytes_def)

theorem strcmp_lexicographic_witness:
  "cstring example_bytes 100 [97, 98] \<and> cstring example_bytes 200 [97, 99] \<and> strcmp 100 200 example_bytes = Some (-1)"
proof -
  have "([97, 98], [97, 99]) \<in> lexord {(x, y). x < (y::u8)}" by simp
  with strcmp_lexicographic [OF example_strings] example_strings show ?thesis by auto
qed

end
