(* ===== verification/Alloc.thy ===== *)
theory Alloc
  imports Strings "HOL-Library.Signed_Division"
begin

text \<open>
  The heap allocator of \<^verbatim>\<open>src/src/memory/alloc.c\<close>. Memory is byte-addressed and the headers
  \<open>struct alloc_block\<close> (32 bytes: \<open>size\<close> at 0, \<open>next\<close> at 8, \<open>prev\<close> at 16, \<open>free\<close> at 24) lie in it,
  so the model has the aliasing of the code: a payload that overlapped a header would change it.
  The C type \<open>int\<close> is a 32-bit word read as two's complement. The requests that \<open>ksbrk\<close> sends to the
  memory manager process are appended to \<open>requests\<close>.
\<close>

record mem_request_t =
  req_code :: u32
  req_data :: u64

record alloc_state =
  heap_begin :: u64
  end_offset :: u32
  global_base :: u64
  heap :: bytes
  requests :: "mem_request_t list"

abbreviation (input) HEAP_MAX :: int where "HEAP_MAX \<equiv> 0x3f00b000"
abbreviation (input) PAGE_GRANULE :: int where "PAGE_GRANULE \<equiv> 0x1000"

section \<open>The program break\<close>

definition init_alloc :: "u64 \<Rightarrow> alloc_state \<Rightarrow> alloc_state option" where
  "init_alloc end_symbol s =
     do { assert (end_symbol > 0);
          Some (s\<lparr>heap_begin := end_symbol, end_offset := 0, global_base := 0\<rparr>) }"

definition usr_free_virtual_page :: "u64 \<Rightarrow> alloc_state \<Rightarrow> alloc_state" where
  "usr_free_virtual_page virtual_address s =
     s\<lparr>requests := requests s @ [\<lparr>req_code = 1, req_data = virtual_address\<rparr>]\<rparr>"

definition ksbrk :: "u32 \<Rightarrow> alloc_state \<Rightarrow> (u64 \<times> alloc_state) option" where
  "ksbrk increment s =
     (let res = end_offset s + ucast (heap_begin s);
          s1 = s\<lparr>end_offset := end_offset s + increment\<rparr>
      in do { assert (\<not> sint (res + increment) > HEAP_MAX);
              if sint increment < 0 then
                let nb_pages_to_free = (sint res sdiv PAGE_GRANULE) - (sint (res + increment) sdiv PAGE_GRANULE) +
                      (if sint res smod PAGE_GRANULE = 0 then 0 else 1);
                    s2 = fold (\<lambda>i. usr_free_virtual_page (scast (res - of_nat i * 0x1000)))
                           [0..<nat nb_pages_to_free] s1
                in Some (scast (res + increment), s2)
              else Some (scast res, s1) })"

section \<open>Blocks\<close>

definition next_power_of_2 :: "u64 \<Rightarrow> u64" where
  "next_power_of_2 n =
     (let n = n - 1;
          n = n OR drop_bit 1 n;
          n = n OR drop_bit 2 n;
          n = n OR drop_bit 4 n;
          n = n OR drop_bit 8 n;
          n = n OR drop_bit 16 n
      in n + 1)"

abbreviation (input) ABLOCK_SIZE :: u64 where "ABLOCK_SIZE \<equiv> 32"

record alloc_block =
  ab_size :: u64
  ab_next :: u64
  ab_prev :: u64
  ab_free :: u32

definition block_at :: "alloc_state \<Rightarrow> u64 \<Rightarrow> alloc_block" where
  "block_at s b = \<lparr>ab_size = load 8 (heap s) b, ab_next = load 8 (heap s) (b + 8),
     ab_prev = load 8 (heap s) (b + 16), ab_free = ucast (load 4 (heap s) (b + 24))\<rparr>"

definition poke :: "nat \<Rightarrow> u64 \<Rightarrow> u64 \<Rightarrow> alloc_state \<Rightarrow> alloc_state" where
  "poke k a v s = s\<lparr>heap := store k a v (heap s)\<rparr>"

abbreviation set_size :: "u64 \<Rightarrow> u64 \<Rightarrow> alloc_state \<Rightarrow> alloc_state" where "set_size b \<equiv> poke 8 b"
abbreviation set_next :: "u64 \<Rightarrow> u64 \<Rightarrow> alloc_state \<Rightarrow> alloc_state" where "set_next b \<equiv> poke 8 (b + 8)"
abbreviation set_prev :: "u64 \<Rightarrow> u64 \<Rightarrow> alloc_state \<Rightarrow> alloc_state" where "set_prev b \<equiv> poke 8 (b + 16)"
abbreviation set_free :: "u64 \<Rightarrow> u64 \<Rightarrow> alloc_state \<Rightarrow> alloc_state" where "set_free b \<equiv> poke 4 (b + 24)"

definition split_block :: "u64 \<Rightarrow> u64 \<Rightarrow> alloc_state \<Rightarrow> alloc_state option" where
  "split_block block sz s =
     do { assert (ab_size (block_at s block) \<ge> sz);
          if ab_size (block_at s block) > sz + ABLOCK_SIZE then
            let new = block + ABLOCK_SIZE + sz;
                s = set_free new 1 s;
                s = set_size new (ab_size (block_at s block) - sz - ABLOCK_SIZE) s;
                s = set_size block sz s;
                s = set_prev new block s;
                s = set_next new (ab_next (block_at s block)) s;
                s = set_next block new s
            in Some (if ab_next (block_at s new) \<noteq> 0 then set_prev (ab_next (block_at s new)) new s else s)
          else Some s }"

definition merge_block :: "u64 \<Rightarrow> alloc_state \<Rightarrow> alloc_state option" where
  "merge_block block s =
     (let nxt = (\<lambda>s. ab_next (block_at s block)) in
      do { assert (ab_free (block_at s (nxt s)) \<noteq> 0);
           assert (block = ab_prev (block_at s (nxt s)));
           let s = set_size block (ab_size (block_at s block) + (ABLOCK_SIZE + ab_size (block_at s (nxt s)))) s;
           let s = (if ab_next (block_at s (nxt s)) \<noteq> 0 then set_prev (ab_next (block_at s (nxt s))) block s else s);
           Some (set_next block (ab_next (block_at s (nxt s))) s) })"

text \<open>The loop follows \<open>next\<close> pointers; on a list without end it does not return.\<close>

partial_function (option) find_free_block_from :: "alloc_state \<Rightarrow> u64 \<Rightarrow> u64 \<Rightarrow> u64 \<Rightarrow> (u64 \<times> u64) option" where
  "find_free_block_from s sz lst current =
     (if current \<noteq> 0 \<and> \<not> (ab_free (block_at s current) \<noteq> 0 \<and> ab_size (block_at s current) \<ge> sz)
      then find_free_block_from s sz current (ab_next (block_at s current))
      else Some (current, lst))"

definition find_free_block :: "u64 \<Rightarrow> u64 \<Rightarrow> alloc_state \<Rightarrow> (u64 \<times> u64) option" where
  "find_free_block lst sz s = find_free_block_from s sz lst (global_base s)"

definition extend_heap :: "u64 \<Rightarrow> u64 \<Rightarrow> alloc_state \<Rightarrow> (u64 \<times> alloc_state) option" where
  "extend_heap lst sz s =
     do { assert (heap_begin s > 0);
          (block, s) \<leftarrow> ksbrk 0 s;
          (request, s) \<leftarrow> ksbrk (ucast (sz + ABLOCK_SIZE)) s;
          assert (block = request);
          if request = -1 then Some (0, s)
          else do {
            let s = set_prev block 0 s;
            s \<leftarrow> (if lst \<noteq> 0
                  then do { assert (ab_next (block_at s lst) = 0);
                            Some (set_prev block lst (set_next lst block s)) }
                  else Some s);
            let s = set_free block 0 (set_next block 0 (set_size block sz s));
            assert (block \<ge> lst + ABLOCK_SIZE);
            Some (block, s) } }"

section \<open>The allocator\<close>

definition get_block_ptr :: "u64 \<Rightarrow> u64" where
  "get_block_ptr ptr = ptr - ABLOCK_SIZE"

definition kmalloc :: "u64 \<Rightarrow> alloc_state \<Rightarrow> (u64 \<times> alloc_state) option" where
  "kmalloc requested s =
     (let sz = next_power_of_2 (requested + ABLOCK_SIZE) - ABLOCK_SIZE in
      if sz \<le> 0 then Some (0, s)
      else if global_base s = 0 then
        do { (block, s) \<leftarrow> extend_heap 0 sz s;
             if block = 0 then Some (0, s) else Some (block + ABLOCK_SIZE, s\<lparr>global_base := block\<rparr>) }
      else
        do { (block, lst) \<leftarrow> find_free_block (global_base s) sz s;
             if block = 0 then
               do { (block, s) \<leftarrow> extend_heap lst sz s;
                    if block = 0 then Some (0, s) else Some (block + ABLOCK_SIZE, s) }
             else
               do { let s = set_free block 0 s;
                    s \<leftarrow> (if ab_size (block_at s block) > sz then split_block block sz s else Some s);
                    Some (block + ABLOCK_SIZE, s) } })"

definition kfree :: "u64 \<Rightarrow> alloc_state \<Rightarrow> alloc_state option" where
  "kfree ptr s =
     (if ptr = 0 then Some s
      else let block_ptr = get_block_ptr ptr in
        do { assert (ab_free (block_at s block_ptr) = 0);
             let s = set_free block_ptr 1 s;
             s \<leftarrow> (let n = ab_next (block_at s block_ptr) in
                   if n \<noteq> 0 \<and> ab_free (block_at s n) \<noteq> 0 then merge_block block_ptr s else Some s);
             let p = ab_prev (block_at s block_ptr);
             if p \<noteq> 0 \<and> ab_free (block_at s p) \<noteq> 0 then merge_block p s else Some s })"

definition krealloc :: "u64 \<Rightarrow> u64 \<Rightarrow> alloc_state \<Rightarrow> (u64 \<times> alloc_state) option" where
  "krealloc ptr sz s =
     (if ptr = 0 then kmalloc sz s
      else let block_ptr = get_block_ptr ptr; b = block_at s block_ptr; n = block_at s (ab_next b) in
        if ab_size b \<ge> sz then Some (ptr, s)
        else if ab_next b \<noteq> 0 \<and> ab_free n \<noteq> 0 \<and> ab_size n + ABLOCK_SIZE + ab_size b \<ge> sz then
          do { s \<leftarrow> merge_block block_ptr s; Some (ptr, s) }
        else
          do { (new_ptr, s) \<leftarrow> kmalloc (next_power_of_2 (sz + ABLOCK_SIZE) - ABLOCK_SIZE) s;
               if new_ptr = 0 then Some (0, s)
               else do { s \<leftarrow> kfree ptr (s\<lparr>heap := memcpy new_ptr ptr (ab_size (block_at s block_ptr)) (heap s)\<rparr>);
                         Some (new_ptr, s) } })"

definition kcalloc :: "u64 \<Rightarrow> u64 \<Rightarrow> alloc_state \<Rightarrow> (u64 \<times> alloc_state) option" where
  "kcalloc element_count element_size s =
     (let sz = element_count * element_size in
      do { (ptr, s) \<leftarrow> kmalloc sz s;
           Some (ptr, s\<lparr>heap := memset ptr 0 sz (heap s)\<rparr>) })"

end
