(* ===== verification/Kernel_State.thy ===== *)
theory Kernel_State
  imports Syscalls Mmu_Faults Alloc
begin

text \<open>
  The kernel as a whole: the globals of all its modules in one record, the entry and exit of the
  kernel (\<^verbatim>\<open>src/src/proc/proc.c\<close>, \<^verbatim>\<open>src/src/proc/proc_mmu.c\<close>), \<open>fork\<close>, the scheduler, the dispatch of
  system calls and exceptions (\<^verbatim>\<open>src/src/interrupt/interrupt.c\<close>) and the start of the kernel
  (\<^verbatim>\<open>src/src/proc/kernel.c\<close>).

  Functions that do not return to their caller end in a process (\<open>Running\<close>) or in \<open>halt\<close> (\<open>Halted\<close>);
  \<open>None\<close> is \<open>abort\<close>. The byte memory of \<open>k_alloc\<close> is the memory that the current address space shows.
\<close>

section \<open>State\<close>

record kernel_state =
  k_sys :: system_state
  k_mmu :: mmu_state
  k_timer :: timer_state
  k_alloc :: alloc_state
  k_err :: err_t
  k_sctlr :: u64

datatype outcome = Running | Halted

definition k_proc_upd :: "nat \<Rightarrow> (proc_descriptor \<Rightarrow> proc_descriptor) \<Rightarrow> kernel_state \<Rightarrow> kernel_state" where
  "k_proc_upd p f k = k\<lparr>k_sys := proc_upd p f (k_sys k)\<rparr>"

definition on_sys :: "(system_state \<Rightarrow> system_state option) \<Rightarrow> kernel_state \<Rightarrow> kernel_state option" where
  "on_sys f k = map_option (\<lambda>s. k\<lparr>k_sys := s\<rparr>) (f (k_sys k))"

definition on_mmu :: "(mmu_state \<Rightarrow> mmu_state option) \<Rightarrow> kernel_state \<Rightarrow> kernel_state option" where
  "on_mmu f k = map_option (\<lambda>m. k\<lparr>k_mmu := m\<rparr>) (f (k_mmu k))"

definition get_curr_pid :: "kernel_state \<Rightarrow> nat" where
  "get_curr_pid k = curr_pid (k_sys k)"

section \<open>Entry: saving the context\<close>

definition save_errno :: "nat \<Rightarrow> kernel_state \<Rightarrow> kernel_state" where
  "save_errno p k = k_proc_upd p (proc_err_update (\<lambda>_. k_err k)) k"

definition restore_errno :: "nat \<Rightarrow> kernel_state \<Rightarrow> kernel_state" where
  "restore_errno p k = k\<lparr>k_err := proc_err (procs (k_sys k) p)\<rparr>"

definition save_alloc_conf :: "nat \<Rightarrow> kernel_state \<Rightarrow> kernel_state" where
  "save_alloc_conf p k =
     k_proc_upd p (mem_conf_update (\<lambda>c. c\<lparr>conf_heap_begin := heap_begin (k_alloc k),
       conf_end_offset := end_offset (k_alloc k), conf_global_base := global_base (k_alloc k)\<rparr>)) k"

definition restore_alloc_conf :: "nat \<Rightarrow> kernel_state \<Rightarrow> kernel_state" where
  "restore_alloc_conf p k =
     (let c = mem_conf (procs (k_sys k) p) in
      k\<lparr>k_alloc := (k_alloc k)\<lparr>heap_begin := conf_heap_begin c, end_offset := conf_end_offset c,
         global_base := conf_global_base c\<rparr>\<rparr>)"

text \<open>
  The copy of a message out of the memory of the process. The address comes from its registers and the code does
  not check it; here every address can be read. \<open>Buffer_Faults\<close> adds the page tables and the fault that an
  unmapped address causes.
\<close>

definition back_up_buff_svc :: "nat \<Rightarrow> u64 \<Rightarrow> kernel_state \<Rightarrow> kernel_state" where
  "back_up_buff_svc p svc_code k =
     (let addr = reg (k_sys k) p 1; sz = reg (k_sys k) p 2 in
      if (svc_code = 3 \<or> svc_code = 5) \<and> addr \<noteq> 0 \<and> sz > 0
      then k_proc_upd p (buffer_update (\<lambda>b. b\<lparr>used_size := sz,
             buff := buf_move (buff b) (\<lambda>i. heap (k_alloc k) (addr + of_nat i))
                       (if sz < BUFF_SIZE then sz else BUFF_SIZE)\<rparr>)) k
      else k)"

text \<open>The saved registers, read from the frame that the exception vector pushed on the stack.\<close>

definition frame_registers :: "(u64 \<Rightarrow> u64) \<Rightarrow> u64 \<Rightarrow> (nat \<Rightarrow> u64) \<Rightarrow> nat \<Rightarrow> u64" where
  "frame_registers stack handler_sp old =
     (fold (\<lambda>i r. r(2 * i + 1 := stack (handler_sp + of_nat (N_REG - 2 * i) * 8),
                    2 * i := stack (handler_sp + of_nat (N_REG - 2 * i - 1) * 8))) [0..<N_REG div 2] old)
       (30 := stack (handler_sp + 8))"

definition save_context ::
    "(u64 \<Rightarrow> u64) \<Rightarrow> u64 \<Rightarrow> u64 \<Rightarrow> u64 \<Rightarrow> u64 \<Rightarrow> u64 \<Rightarrow> u64 \<Rightarrow> kernel_state \<Rightarrow> kernel_state" where
  "save_context stack sp_el0 elr_el1 spsr handler_sp timer_irq esr_el1 k =
     (let p = curr_pid (k_sys k);
          k1 = k_proc_upd p (sched_conf_update (\<lambda>c. c\<lparr>time_left :=
                 (if timer_irq \<noteq> 0 then 0 else get_curr_timer_value (k_timer k))\<rparr>)) k;
          k2 = k1\<lparr>k_timer := clear_ack_timer_irq (k_timer k1)\<rparr>;
          k3 = k_proc_upd p (saved_context_update (\<lambda>c. c\<lparr>sp := sp_el0, pc := elr_el1, pstate := spsr,
                 registers := frame_registers stack handler_sp (registers c)\<rparr>)) k2;
          k4 = save_errno p (save_alloc_conf p k3);
          k5 = (if timer_irq = 0 then back_up_buff_svc p (esr_el1 AND MASK 15 0) k4 else k4)
      in k5\<lparr>k_sys := (k_sys k5)\<lparr>last_pid := curr_pid (k_sys k5), curr_pid := 0\<rparr>\<rparr>)"

section \<open>Exit: running a process\<close>

text \<open>
  The copy of a message into the memory of the process. Bytes beyond the end of the message buffer are not part of it:
  reading them is undefined. As above, every address can be written and the memory written is that of the process;
  \<open>Buffer_Faults\<close> adds the faults of unmapped and of read-only pages. A destination inside the data of the kernel, which
  the code does not exclude, would overwrite the process table and is not modelled.
\<close>

definition write_buff_svc :: "kernel_state \<Rightarrow> kernel_state option" where
  "write_buff_svc k =
     (let p = curr_pid (k_sys k); b = buffer (procs (k_sys k) p) in
      do { k1 \<leftarrow> (if write_addr b \<noteq> 0
              then do { assert (used_size b \<le> BUFF_SIZE);
                        Some (k\<lparr>k_alloc := (k_alloc k)\<lparr>heap := (\<lambda>x. if unat (x - write_addr b) < unat (used_size b)
                           then buff b (unat (x - write_addr b)) else heap (k_alloc k) x)\<rparr>\<rparr>) }
              else Some k);
           Some (k_proc_upd p (buffer_update (\<lambda>b. b\<lparr>write_addr := 0, used_size := 0\<rparr>)) k1) })"

text \<open>The assembly routine \<open>restore_and_run\<close> switches to the tables of the process, calls
  \<open>write_buff_svc\<close> and loads the registers.\<close>

definition restore_and_run :: "u64 \<Rightarrow> kernel_state \<Rightarrow> (outcome \<times> kernel_state) option" where
  "restore_and_run ttbr0 k =
     do { k1 \<leftarrow> write_buff_svc (k\<lparr>k_mmu := (k_mmu k)\<lparr>TTBR0_EL1 := ttbr0\<rparr>\<rparr>);
          Some (Running, k1) }"

definition switch_to_proc :: "nat \<Rightarrow> kernel_state \<Rightarrow> (outcome \<times> kernel_state) option" where
  "switch_to_proc p k =
     (let k1 = restore_errno p (restore_alloc_conf p k);
          k2 = k_proc_upd p (initialized_update (\<lambda>_. True)) k1;
          d = procs (k_sys k2) p;
          k3 = (if preempt (sched_conf d) then k2\<lparr>k_timer := start_countdown (time_left (sched_conf d)) (k_timer k2)\<rparr>
                else k2);
          k4 = k3\<lparr>k_sctlr := sctlr_el1 (saved_context d)\<rparr>
      in restore_and_run (ttbr0_el1 (mem_conf d)) k4)"

definition run_process :: "nat \<Rightarrow> kernel_state \<Rightarrow> (outcome \<times> kernel_state) option" where
  "run_process p k =
     (let d = procs (k_sys k) p in
      do { assert (pid d > 0);
           assert (state d = RUNNABLE);
           assert (\<not> preempt (sched_conf d) \<or> time_left (sched_conf d) > 0);
           assert (curr_pid (k_sys k) = 0);
           assert (initialized d);
           let k1 = save_alloc_conf KERNEL_PID k;
           switch_to_proc p (k1\<lparr>k_sys := (k_sys k1)\<lparr>curr_pid := pid (procs (k_sys k1) p)\<rparr>\<rparr>) })"

definition exec_proc :: "nat \<Rightarrow> kernel_state \<Rightarrow> (outcome \<times> kernel_state) option" where
  "exec_proc p k = run_process p k"

section \<open>The scheduler\<close>

definition run_priority :: "nat \<Rightarrow> kernel_state \<Rightarrow> (outcome \<times> kernel_state) option" where
  "run_priority prio k =
     do { p \<leftarrow> prio_proc (k_sys k) prio;
          let k1 = k\<lparr>k_sys := set_prio_proc prio (next_same_prio (procs (k_sys k) p)) (k_sys k)\<rparr>;
          let k2 = (if time_left (sched_conf (procs (k_sys k1) p)) = 0
                    then k_proc_upd p (sched_conf_update (time_left_update (\<lambda>_. QUANTUM))) k1 else k1);
          run_process p k2 }"

definition sched_law :: "system_state \<Rightarrow> u32 list" where
  "sched_law s = map (\<lambda>i. if i = 0 then 0 else if prio_proc_n s i > 0 then of_nat (i * i) + prio_proc_n s i else 0) [0..<MAX_PRIO]"

definition schedule :: "u64 \<Rightarrow> kernel_state \<Rightarrow> (outcome \<times> kernel_state) option" where
  "schedule cntpct k =
     (let s = k_sys k in
      do { print_prio_lists s;
           if n_runnable_procs s = 0 then Some (Halted, k)
           else if prio_proc_n s MAX_PRIO > 0 then run_priority MAX_PRIO k
           else if n_runnable_procs s = prio_proc_n s 0 then run_priority 0 k
           else run_priority (random_law cntpct (sched_law s)) k })"

section \<open>fork\<close>

definition set_up_memory_new_proc :: "link_layout \<Rightarrow> nat \<Rightarrow> kernel_state \<Rightarrow> kernel_state option" where
  "set_up_memory_new_proc ll p k =
     do { (lvl2, m) \<leftarrow> c_init_mmu ll (k_sys k) (pid (procs (k_sys k) p)) (k_mmu k);
          Some (k_proc_upd p (mem_conf_update (ttbr0_el1_update (\<lambda>_.
                  push_bit 48 (of_nat (pid (procs (k_sys k) p))) OR (lvl2 AND MASK 47 1)))) (k\<lparr>k_mmu := m\<rparr>)) }"

definition syscall_fork :: "link_layout \<Rightarrow> kernel_state \<Rightarrow> kernel_state option" where
  "syscall_fork ll k =
     (let s = k_sys k; parent = last_pid s in
      do { n_children \<leftarrow> print_children parent s;
           case find_free_proc s of
             None \<Rightarrow> Some (k\<lparr>k_sys := syscall_fail parent MAX_PROC_REACHED s\<rparr>)
           | Some c \<Rightarrow>
               let prio = int_of_u64 (reg s parent 0) in
               if prio > priority (procs s parent)
               then Some (k\<lparr>k_sys := syscall_fail parent TOO_HIGH_CHILD_PRIORITY s\<rparr>)
               else do { let s1 = set_reg0 parent (of_nat c) s;
                         let s2 = set_reg0 c 0 (make_child_proc_descriptor c parent prio s1);
                         s3 \<leftarrow> add_child parent c s2;
                         s4 \<leftarrow> change_state c RUNNABLE s3;
                         k1 \<leftarrow> set_up_memory_new_proc ll c (k\<lparr>k_sys := s4\<rparr>);
                         let k2 = k_proc_upd c (initialized_update (\<lambda>_. True)) k1;
                         new_n_children \<leftarrow> print_children parent (k_sys k2);
                         assert (n_children + 1 = new_n_children);
                         Some k2 } })"

section \<open>System calls, exceptions and interrupts\<close>

definition c_el1_svc_aarch64_handler :: "link_layout \<Rightarrow> u64 \<Rightarrow> u64 \<Rightarrow> kernel_state \<Rightarrow> (outcome \<times> kernel_state) option" where
  "c_el1_svc_aarch64_handler ll cntpct esr_el1 k =
     (let syscall = esr_el1 AND MASK 15 0 in
      if syscall = 0 then syscall_fork ll k \<bind> schedule cntpct
      else if syscall = 1 then on_sys syscall_exit k \<bind> schedule cntpct
      else if syscall = 2 then on_sys syscall_wait k \<bind> schedule cntpct
      else if syscall = 3 then on_sys syscall_send k \<bind> schedule cntpct
      else if syscall = 4 then on_sys syscall_receive k \<bind> schedule cntpct
      else if syscall = 5 then on_sys syscall_acknowledge k \<bind> schedule cntpct
      else if syscall = 101 then run_process (last_pid (k_sys k)) k
      else None)"

definition c_timer_irq_handler :: "u64 \<Rightarrow> kernel_state \<Rightarrow> (outcome \<times> kernel_state) option" where
  "c_timer_irq_handler cntpct k = schedule cntpct (k\<lparr>k_timer := clear_ack_timer_irq (k_timer k)\<rparr>)"

text \<open>Faults of instruction fetches and of data accesses are dispatched alike; \<open>sp_el0\<close> is the stack
  pointer that the translation fault handler reads.\<close>

definition abort_handler :: "u64 \<Rightarrow> u64 \<Rightarrow> u64 \<Rightarrow> bool \<Rightarrow> kernel_state \<Rightarrow> kernel_state option" where
  "abort_handler sp_el0 esr_el far_el lower_el k =
     (let status_code = esr_el AND MASK 5 0; p = get_curr_pid k;
          translation = (do { (e, m) \<leftarrow> translation_fault_handler (heap_begin (k_alloc k)) (scast (end_offset (k_alloc k)))
                                 sp_el0 (k_sys k) far_el lower_el p (k_err k, k_mmu k);
                              Some (k\<lparr>k_err := e, k_mmu := m\<rparr>) })
      in if status_code = 0b110 then translation
         else if status_code = 0b111 then translation
         else if status_code = 0b1011 then on_mmu (access_flag_fault_lvl3_handler (k_sys k) far_el p) k
         else if status_code = 0b1111 then on_mmu (permission_fault_handler far_el 3 lower_el) k
         else None)"

definition instruction_abort_handler :: "u64 \<Rightarrow> u64 \<Rightarrow> u64 \<Rightarrow> bool \<Rightarrow> kernel_state \<Rightarrow> kernel_state option" where
  "instruction_abort_handler = abort_handler"

definition data_abort_handler :: "u64 \<Rightarrow> u64 \<Rightarrow> u64 \<Rightarrow> bool \<Rightarrow> kernel_state \<Rightarrow> kernel_state option" where
  "data_abort_handler = abort_handler"

definition c_sync_handler :: "u64 \<Rightarrow> u64 \<Rightarrow> u64 \<Rightarrow> kernel_state \<Rightarrow> kernel_state option" where
  "c_sync_handler sp_el0 esr_el far_el k =
     (let exception_class = drop_bit 26 (esr_el AND 0xfc000000) in
      if exception_class = 0b100000 then instruction_abort_handler sp_el0 esr_el far_el True k
      else if exception_class = 0b100001 then instruction_abort_handler sp_el0 esr_el far_el False k
      else if exception_class = 0b100100 then data_abort_handler sp_el0 esr_el far_el True k
      else if exception_class = 0b100101 then data_abort_handler sp_el0 esr_el far_el False k
      else None)"

section \<open>Start\<close>

definition init_proc :: "link_layout \<Rightarrow> u64 \<Rightarrow> kernel_state \<Rightarrow> kernel_state option" where
  "init_proc ll main_init k =
     (let k1 = k\<lparr>k_sys := (k_sys k)\<lparr>curr_pid := 0, procs := (\<lambda>q. if q < MAX_PROC
                 then (procs (k_sys k) q)\<lparr>state := FREE\<rparr> else procs (k_sys k) q)\<rparr>\<rparr>
      in do { k2 \<leftarrow> on_sys (change_state 0 KERNEL) k1;
              let k3 = k_proc_upd KERNEL_PID (mem_conf_update (ttbr0_el1_update (\<lambda>_. TTBR0_EL1 (k_mmu k2)))) k2;
              let k4 = k_proc_upd INIT_PID (\<lambda>_. new_proc_descriptor INIT_PID INIT_PID 15 main_init) k3;
              let k5 = k_proc_upd INIT_PID (saved_context_update (sctlr_el1_update (\<lambda>x. x OR push_bit 18 1))) k4;
              k6 \<leftarrow> on_sys (change_state INIT_PID RUNNABLE) k5;
              k7 \<leftarrow> set_up_memory_new_proc ll INIT_PID k6;
              let k8 = save_alloc_conf KERNEL_PID k7;
              a \<leftarrow> init_alloc (end_addr ll) (k_alloc k8);
              let k9 = save_alloc_conf INIT_PID (k8\<lparr>k_alloc := a\<rparr>);
              assert (conf_heap_begin (mem_conf (procs (k_sys k9) INIT_PID)) > 0);
              let k10 = restore_alloc_conf KERNEL_PID k9;
              Some (k_proc_upd INIT_PID (initialized_update (\<lambda>_. True)) k10) })"

definition kernel_init :: "link_layout \<Rightarrow> u64 \<Rightarrow> kernel_state \<Rightarrow> kernel_state option" where
  "kernel_init ll main_init k =
     do { a \<leftarrow> init_alloc (end_addr ll) (k_alloc k);
          k1 \<leftarrow> init_proc ll main_init (k\<lparr>k_alloc := a\<rparr>);
          Some (k1\<lparr>k_timer := init_timer_irq (k_timer k1)\<rparr>) }"

definition kernel_main :: "link_layout \<Rightarrow> u64 \<Rightarrow> kernel_state \<Rightarrow> (outcome \<times> kernel_state) option" where
  "kernel_main ll main_init k = kernel_init ll main_init k \<bind> exec_proc 1"

end
