(* ===== verification/Abstract_Procs.thy ===== *)
theory Abstract_Procs
  imports Syscalls
begin

text \<open>
  An abstract view of the process table for the system calls: the data of every descriptor
  without its links, the ready queue of every priority and the list of children of every live
  process. \<open>abs_rel\<close> says that a \<open>system_state\<close> implements an abstract one, \<open>a_wf\<close> is the
  well-formedness of the data, and the stores and state changes of the code are related to their
  abstract counterparts. The theories \<open>Lifecycle\<close> and \<open>Channels\<close> specify the system calls on this view.
\<close>

section \<open>The abstract state\<close>

definition proc_data :: "proc_descriptor \<Rightarrow> proc_descriptor" where
  "proc_data d = d\<lparr>child := None, next_sibling := None, prev_sibling := None,
                    next_same_prio := None, prev_same_prio := None\<rparr>"

record abs_state =
  a_last :: nat
  a_procs :: "nat \<Rightarrow> proc_descriptor"
  a_ready :: ready_queues
  a_kids :: "nat \<Rightarrow> nat list"

definition abs_on :: "nat set \<Rightarrow> abs_state \<Rightarrow> system_state \<Rightarrow> bool" where
  "abs_on L a s \<longleftrightarrow>
     a_last a = last_pid s \<and> (\<forall>q. a_procs a q = proc_data (procs s q)) \<and>
     sched_rel (a_ready a) s \<and> tree_on L (a_kids a) s"

definition a_live :: "abs_state \<Rightarrow> nat set" where
  "a_live a = {q. q < MAX_PROC \<and> state (a_procs a q) \<noteq> FREE \<and> state (a_procs a q) \<noteq> ZOMBIE}"

definition abs_rel :: "abs_state \<Rightarrow> system_state \<Rightarrow> bool" where
  "abs_rel a s \<longleftrightarrow> abs_on (a_live a) a s"

definition proc_ok :: "nat \<Rightarrow> proc_descriptor \<Rightarrow> bool" where
  "proc_ok q d \<longleftrightarrow> state d \<noteq> FREE \<longrightarrow>
     pid d = q \<and> (q = INIT_PID \<longrightarrow> parent_pid d = INIT_PID) \<and> source_pid (receiver_data d) < MAX_PROC \<and>
     (state d \<noteq> ZOMBIE \<longrightarrow> prio_ok (priority d)) \<and>
     (state d = WAIT_LISTENER \<longrightarrow> used_size (buffer d) \<le> send_size (sender_data d) \<and>
                                send_size (sender_data d) \<le> BUFF_SIZE)"

definition a_wf :: "abs_state \<Rightarrow> bool" where
  "a_wf a \<longleftrightarrow> (\<forall>q<MAX_PROC. proc_ok q (a_procs a q))"

definition running :: "abs_state \<Rightarrow> bool" where
  "running a \<longleftrightarrow> 0 < a_last a \<and> a_last a < MAX_PROC \<and> state (a_procs a (a_last a)) = RUNNABLE"

lemma proc_data_simps [simp]:
  "pid (proc_data d) = pid d" "parent_pid (proc_data d) = parent_pid d"
  "priority (proc_data d) = priority d" "state (proc_data d) = state d"
  "sched_conf (proc_data d) = sched_conf d" "initialized (proc_data d) = initialized d"
  "saved_context (proc_data d) = saved_context d" "mem_conf (proc_data d) = mem_conf d"
  "proc_err (proc_data d) = proc_err d" "buffer (proc_data d) = buffer d"
  "sender_data (proc_data d) = sender_data d" "receiver_data (proc_data d) = receiver_data d"
  by (simp_all add: proc_data_def)

lemma proc_data_eqI:
  assumes "proc_core d = proc_core e" and "state d = state e"
  shows "proc_data d = proc_data e"
  using assms by (cases d; cases e; simp add: proc_core_def proc_data_def)

lemma abs_onD:
  assumes "abs_on L a s"
  shows "a_last a = last_pid s" and "a_procs a q = proc_data (procs s q)"
    and "sched_rel (a_ready a) s" and "tree_on L (a_kids a) s"
  using assms by (simp_all add: abs_on_def)

lemma a_wfD:
  assumes "a_wf a" and "q < MAX_PROC" and "state (a_procs a q) \<noteq> FREE"
  shows "pid (a_procs a q) = q" and "q = INIT_PID \<Longrightarrow> parent_pid (a_procs a q) = INIT_PID"
    and "source_pid (receiver_data (a_procs a q)) < MAX_PROC"
    and "state (a_procs a q) \<noteq> ZOMBIE \<Longrightarrow> prio_ok (priority (a_procs a q))"
    and "state (a_procs a q) = WAIT_LISTENER \<Longrightarrow>
           used_size (buffer (a_procs a q)) \<le> send_size (sender_data (a_procs a q))"
    and "state (a_procs a q) = WAIT_LISTENER \<Longrightarrow> send_size (sender_data (a_procs a q)) \<le> BUFF_SIZE"
proof -
  have "proc_ok q (a_procs a q)" using assms by (simp add: a_wf_def)
  then show "pid (a_procs a q) = q" and "q = INIT_PID \<Longrightarrow> parent_pid (a_procs a q) = INIT_PID"
    and "source_pid (receiver_data (a_procs a q)) < MAX_PROC"
    and "state (a_procs a q) \<noteq> ZOMBIE \<Longrightarrow> prio_ok (priority (a_procs a q))"
    and "state (a_procs a q) = WAIT_LISTENER \<Longrightarrow>
           used_size (buffer (a_procs a q)) \<le> send_size (sender_data (a_procs a q))"
    and "state (a_procs a q) = WAIT_LISTENER \<Longrightarrow> send_size (sender_data (a_procs a q)) \<le> BUFF_SIZE"
    using assms(3) by (simp_all add: proc_ok_def)
qed

definition svc_buffered :: "abs_state \<Rightarrow> bool" where
  "svc_buffered a \<longleftrightarrow> used_size (buffer (a_procs a (a_last a))) \<le>
                       registers (saved_context (a_procs a (a_last a))) 2"

section \<open>Abstract operations\<close>

definition a_upd :: "nat \<Rightarrow> (proc_descriptor \<Rightarrow> proc_descriptor) \<Rightarrow> abs_state \<Rightarrow> abs_state" where
  "a_upd p f a = a\<lparr>a_procs := (a_procs a)(p := f (a_procs a p))\<rparr>"

definition a_change :: "nat \<Rightarrow> proc_state \<Rightarrow> abs_state \<Rightarrow> abs_state" where
  "a_change p new a =
     (a_upd p (state_update (\<lambda>_. new)) a)
       \<lparr>a_ready := rq_change p (nat (priority (a_procs a p))) (state (a_procs a p)) new (a_ready a)\<rparr>"

definition data_store :: "(proc_descriptor \<Rightarrow> proc_descriptor) \<Rightarrow> bool" where
  "data_store f \<longleftrightarrow> (\<forall>d. proc_data (f d) = f (proc_data d) \<and> state (f d) = state d \<and>
     priority (f d) = priority d \<and> parent_pid (f d) = parent_pid d \<and> child (f d) = child d \<and>
     next_sibling (f d) = next_sibling d \<and> prev_sibling (f d) = prev_sibling d \<and>
     next_same_prio (f d) = next_same_prio d \<and> prev_same_prio (f d) = prev_same_prio d)"

lemma abs_on_store:
  assumes "abs_on L a s" and f: "data_store f"
  shows "abs_on L (a_upd p f a) (proc_upd p f s)"
proof -
  note f' = f [unfolded data_store_def, THEN spec]
  have "sched_rel (a_ready a) (proc_upd p f s)"
    by (rule sched_rel_cong [OF abs_onD(3) [OF assms(1)]]) (simp_all add: f')
  moreover have "tree_on L (a_kids a) (proc_upd p f s)"
    by (rule tree_on_cong [OF abs_onD(4) [OF assms(1)] subset_refl]) (simp_all add: f' user_proc_def)
  ultimately show ?thesis
    using assms(1) by (simp add: abs_on_def a_upd_def f')
qed

lemma change_state_abs:
  assumes abs: "abs_on L a s" and p: "p < MAX_PROC" and L': "L' \<subseteq> L"
    and prio: "new = RUNNABLE \<Longrightarrow> prio_ok (priority (procs s p))"
    and free: "2 \<le> p \<Longrightarrow> (state (procs s p) = FREE) = (new = FREE)"
  obtains t where "change_state p new s = Some t" "abs_on L' (a_change p new a) t"
proof -
  from change_state_rq [OF abs_onD(3) [OF abs] p prio] obtain t where
    t: "change_state p new s = Some t"
    "sched_rel (rq_change p (nat (priority (procs s p))) (state (procs s p)) new (a_ready a)) t" by blast
  note F = change_state_fields [OF t(1)] and C = proc_core_fields [OF change_state_fields(4) [OF t(1)]]
  have "tree_on L' (a_kids a) t"
    by (rule tree_on_cong [OF abs_onD(4) [OF abs] L']) (use free in \<open>auto simp: F(1) C user_proc_def\<close>)
  moreover have "(a_procs (a_change p new a)) q = proc_data (procs t q)" for q
    using F(1) [of q] F(4) [of q] 
    by (cases "procs t q"; cases "procs s q") (auto simp: a_change_def a_upd_def abs_onD [OF abs] proc_data_def proc_core_def)
  ultimately show ?thesis
    using t by (intro that) (auto simp: abs_on_def F a_change_def a_upd_def abs_onD [OF abs])
qed


definition a_fail :: "nat \<Rightarrow> errno_t \<Rightarrow> abs_state \<Rightarrow> abs_state" where
  "a_fail p e a = a_upd p (saved_context_update (registers_update (\<lambda>r. r(0 := -1))))
                    (a_upd p (proc_err_update (err_no_update (\<lambda>_. e))) a)"

lemma data_store_simps [simp]:
  "data_store (saved_context_update g)" "data_store (buffer_update h)" "data_store (proc_err_update e)"
  "data_store (sender_data_update sd)" "data_store (receiver_data_update rd)"
  by (simp_all add: data_store_def proc_data_def)

lemma a_upd_simps [simp]:
  "a_procs (a_upd p f a) = (a_procs a)(p := f (a_procs a p))"
  "a_last (a_upd p f a) = a_last a" "a_kids (a_upd p f a) = a_kids a" "a_ready (a_upd p f a) = a_ready a"
  by (simp_all add: a_upd_def)

lemma a_change_simps [simp]:
  "a_procs (a_change p new a) = (a_procs a)(p := (a_procs a p)\<lparr>state := new\<rparr>)"
  "a_last (a_change p new a) = a_last a" "a_kids (a_change p new a) = a_kids a"
  by (simp_all add: a_change_def)

lemma a_fail_simps [simp]:
  "a_last (a_fail p e a) = a_last a" "a_kids (a_fail p e a) = a_kids a" "a_ready (a_fail p e a) = a_ready a"
  by (simp_all add: a_fail_def)

lemma syscall_fail_abs: "abs_on L a s \<Longrightarrow> abs_on L (a_fail p e a) (syscall_fail p e s)"
  unfolding a_fail_def syscall_fail_def set_reg0_def set_err_no_def
  by (intro abs_on_store) simp_all

lemma a_live_fail [simp]: "a_live (a_fail p e a) = a_live a"
  by (auto simp: a_live_def a_fail_def)

section \<open>Keeping the data well formed\<close>

lemma a_wf_upd: "a_wf a \<Longrightarrow> (proc_ok p (a_procs a p) \<Longrightarrow> proc_ok p (f (a_procs a p))) \<Longrightarrow> a_wf (a_upd p f a)"
  by (auto simp: a_wf_def)

lemma a_wf_change:
  "a_wf a \<Longrightarrow> (proc_ok p (a_procs a p) \<Longrightarrow> proc_ok p ((a_procs a p)\<lparr>state := new\<rparr>)) \<Longrightarrow> a_wf (a_change p new a)"
  by (auto simp: a_wf_def)

lemma a_wf_kids [simp]: "a_wf (a\<lparr>a_kids := K\<rparr>) = a_wf a"
  by (simp add: a_wf_def)

lemma a_wf_fail: "a_wf a \<Longrightarrow> a_wf (a_fail p e a)"
  unfolding a_fail_def by (intro a_wf_upd) (auto simp: proc_ok_def)

end
