(* ===== verification/Example_System.thy ===== *)
theory Example_System
  imports Abstract_Procs
begin

text \<open>
  A concrete process table at which the hypotheses of the system call theorems hold: \<open>init\<close> (slot
  1) has just entered the kernel and has three children, a zombie, a listener and a sender that
  waits for its acknowledgement.
\<close>

definition example_procs :: "nat \<Rightarrow> proc_descriptor" where
  "example_procs q =
     (let d = (new_proc_descriptor q INIT_PID 5 0)\<lparr>initialized := True\<rparr>; ring = (\<lambda>n v. d\<lparr>next_sibling := Some n, prev_sibling := Some v\<rparr>) in
      if q = 0 then d\<lparr>state := KERNEL\<rparr>
      else if q = 1 then d\<lparr>state := RUNNABLE, priority := 15, child := Some 2,
             next_same_prio := Some 1, prev_same_prio := Some 1,
             saved_context := (saved_context d)\<lparr>registers := (\<lambda>_. 0)(0 := 3, 2 := 4)\<rparr>,
             receiver_data := (receiver_data d)\<lparr>source_pid := 4\<rparr>\<rparr>
      else if q = 2 then (ring 3 4)\<lparr>state := ZOMBIE\<rparr>
      else if q = 3 then (ring 4 2)\<lparr>state := LISTENING_CH, receiver_data := (receiver_data d)\<lparr>receive_data := 0x8000, receive_size := 64\<rparr>\<rparr>
      else if q = 4 then (ring 2 3)\<lparr>state := SENDING_CH,
             sender_data := (sender_data d)\<lparr>target_pid := 1, ack_data := 0x7000, ack_size := 2, acknowledged := False\<rparr>\<rparr>
      else d)"

definition example_sys :: system_state where
  "example_sys = \<lparr>curr_pid = 0, last_pid = 1, procs = example_procs,
     prio_proc_n = (\<lambda>_. 0)(15 := 1), n_runnable_procs = 1, prio_proc = (\<lambda>_. None)(15 := Some 1)\<rparr>"

definition example_abs :: abs_state where
  "example_abs = \<lparr>a_last = 1, a_procs = (\<lambda>q. proc_data (example_procs q)),
     a_ready = (\<lambda>_. [])(15 := [1]), a_kids = (\<lambda>_. [])(1 := [2, 3, 4])\<rparr>"

lemma example_fields [simp]:
  "state (example_procs q) = (if q = 0 then KERNEL else if q = 1 then RUNNABLE else if q = 2 then ZOMBIE
     else if q = 3 then LISTENING_CH else if q = 4 then SENDING_CH else FREE)"
  "priority (example_procs q) = (if q = 1 then 15 else 5)"
  "pid (example_procs q) = q" "parent_pid (example_procs q) = 1"
  "child (example_procs q) = (if q = 1 then Some 2 else None)"
  "next_sibling (example_procs q) = (if q = 2 then Some 3 else if q = 3 then Some 4 else if q = 4 then Some 2 else None)"
  "prev_sibling (example_procs q) = (if q = 2 then Some 4 else if q = 3 then Some 2 else if q = 4 then Some 3 else None)"
  "next_same_prio (example_procs q) = (if q = 1 then Some 1 else None)"
  "prev_same_prio (example_procs q) = (if q = 1 then Some 1 else None)"
  by (simp_all add: example_procs_def Let_def new_proc_descriptor_def)

lemma example_sched: "sched_rel (a_ready example_abs) example_sys"
  unfolding sched_rel_def
proof (intro conjI allI impI)
  show "queue_ok (a_ready example_abs k) k example_sys" if "k \<le> MAX_PRIO" for k
    by (cases "k = 15") (auto simp: queue_ok_def sched_ring_def ring_singleton example_abs_def example_sys_def)
  show "prio_ok (priority (procs example_sys p))" if "p < MAX_PROC" for p
    by (simp add: example_sys_def prio_ok_def)
  have "{..MAX_PRIO} = insert 15 {..<15}" by auto
  then have "(\<Sum>k\<le>MAX_PRIO. length (a_ready example_abs k)) = 1"
    by (simp add: example_abs_def)
  then show "n_runnable_procs example_sys = of_nat (\<Sum>k\<le>MAX_PRIO. length (a_ready example_abs k))"
    by (simp add: example_sys_def)
qed

lemma example_ring: "sring example_sys [2, 3, 4]"
  by (simp add: sring_def ring_def linked_def example_sys_def)

lemma example_user: "user_proc example_sys q \<longleftrightarrow> q \<in> {2, 3, 4}"
  by (auto simp: user_proc_def example_sys_def)

lemma example_tree: "tree_on (a_live example_abs) (a_kids example_abs) example_sys"
  unfolding tree_on_def
proof (intro conjI allI impI ballI)
  show "\<exists>xs. sring example_sys (c # xs) \<and> (\<forall>q\<in>set xs. user_proc example_sys q)" if u: "user_proc example_sys c" for c
  proof -
    consider "c = 2" | "c = 3" | "c = 4" using u by (auto simp: example_user)
    then show ?thesis
    proof cases
      case 1 then show ?thesis using example_ring by (auto simp: example_user intro!: exI [of _ "[3, 4]"])
    next
      case 2 then show ?thesis using example_ring ring_rotate [of _ _ "[2]" "[3, 4]"]
        by (auto simp: example_user sring_def intro!: exI [of _ "[4, 2]"])
    next
      case 3 then show ?thesis using example_ring ring_rotate [of _ _ "[2, 3]" "[4]"]
        by (auto simp: example_user sring_def intro!: exI [of _ "[2, 3]"])
    qed
  qed
  show "kids example_sys p (a_kids example_abs p)" if "p \<in> a_live example_abs" for p
    using that example_ring example_user
    by (cases "p = 1") (auto simp: kids_def example_sys_def example_abs_def a_live_def sring_def)
  show "parent_pid (procs example_sys c) < MAX_PROC" for c
    by (simp add: example_sys_def)
qed

lemma example_rel: "abs_rel example_abs example_sys"
  using example_sched example_tree by (simp add: abs_rel_def abs_on_def example_sys_def example_abs_def)

lemma example_wf: "a_wf example_abs"
  by (auto simp: a_wf_def proc_ok_def example_abs_def prio_ok_def)
     (simp_all add: example_procs_def Let_def new_proc_descriptor_def)

lemma example_running: "running example_abs" and example_buffered: "svc_buffered example_abs"
  by (simp_all add: running_def svc_buffered_def example_abs_def) (simp add: example_procs_def new_proc_descriptor_def Let_def)

end
