(* ===== verification/Lifecycle.thy ===== *)
theory Lifecycle
  imports Example_System
begin

text \<open>
  Specification and refinement of the system calls \<open>wait\<close> and \<open>exit\<close>.
\<close>

section \<open>Reaping\<close>

definition give_status :: "u64 \<Rightarrow> err_t \<Rightarrow> proc_descriptor \<Rightarrow> proc_descriptor" where
  "give_status addr e d =
     (if addr \<noteq> 0 then buffer_update (\<lambda>b. b\<lparr>write_addr := addr,
        buff := buf_move (buff b) (err_bytes e) sizeof_err_t, used_size := sizeof_err_t\<rparr>) d else d)"

definition a_reap :: "nat \<Rightarrow> nat \<Rightarrow> abs_state \<Rightarrow> abs_state" where
  "a_reap parent c a =
     (let addr = registers (saved_context (a_procs a parent)) 0;
          a1 = a_upd parent (saved_context_update (registers_update (\<lambda>r. r(0 := of_nat (pid (a_procs a c)))))) a;
          a2 = a_upd parent (give_status addr (proc_err (a_procs a c))) a1;
          a3 = a2\<lparr>a_kids := (a_kids a2)(parent := remove1 c (a_kids a2 parent))\<rparr>
      in a_change parent RUNNABLE (a_change c FREE a3))"

lemma data_store_give_status [simp]: "data_store (give_status addr er)"
  by (simp add: data_store_def proc_data_def give_status_def)

lemma remove_child_eq:
  assumes "next_sibling (procs s c) = Some n" and "prev_sibling (procs s c) = Some v"
  shows "remove_child parent c s =
     (let u = set_prev_sibling n (Some v) (set_next_sibling v (Some n) s) in
      Some (if child (procs s parent) = Some c then set_child parent (if n = c then None else Some n) u else u))"
proof -
  have "next_sibling (procs (set_next_sibling v (Some n) s) c) = Some n"
    and "prev_sibling (procs (set_next_sibling v (Some n) s) c) = Some v"
    and "next_sibling (procs (set_prev_sibling n (Some v) (set_next_sibling v (Some n) s)) c) = Some n"
    and "child (procs (set_prev_sibling n (Some v) (set_next_sibling v (Some n) s)) parent) = child (procs s parent)"
    using assms by (auto simp: kernel_defs)
  then show ?thesis
    using assms by (simp add: remove_child_def Let_def)
qed

lemma remove_child_fields:
  assumes "remove_child parent c s = Some t" and "next_sibling (procs s c) = Some n" 
    and "prev_sibling (procs s c) = Some v"
  shows "next_sibling (procs t q) = (if q = v then Some n else next_sibling (procs s q))"
    and "prev_sibling (procs t q) = (if q = n then Some v else prev_sibling (procs s q))"
    and "child (procs t q) = (if q = parent \<and> child (procs s parent) = Some c
          then if n = c then None else Some n else child (procs s q))"
    and "proc_data (procs t q) = proc_data (procs s q)"
    and "next_same_prio (procs t q) = next_same_prio (procs s q)"
    and "prev_same_prio (procs t q) = prev_same_prio (procs s q)"
    and "last_pid t = last_pid s" "prio_proc t = prio_proc s" "prio_proc_n t = prio_proc_n s"
    and "n_runnable_procs t = n_runnable_procs s"
proof -
  define u where "u = set_prev_sibling n (Some v) (set_next_sibling v (Some n) s)"
  have t: "t = (if child (procs s parent) = Some c then set_child parent (if n = c then None else Some n) u else u)"
    using assms(1) by (auto simp: remove_child_eq [OF assms(2,3)] u_def Let_def)
  note D = u_def kernel_defs proc_data_def
  show "next_sibling (procs t q) = (if q = v then Some n else next_sibling (procs s q))"
    unfolding t by (simp add: D)
  show "prev_sibling (procs t q) = (if q = n then Some v else prev_sibling (procs s q))"
    unfolding t by (simp add: D)
  show "child (procs t q) = (if q = parent \<and> child (procs s parent) = Some c
          then if n = c then None else Some n else child (procs s q))"
    unfolding t by (simp add: D)
  show "proc_data (procs t q) = proc_data (procs s q)"
    unfolding t by (simp add: D)
  show "next_same_prio (procs t q) = next_same_prio (procs s q)" "prev_same_prio (procs t q) = prev_same_prio (procs s q)"
    unfolding t by (simp_all add: D)
  show "last_pid t = last_pid s" "prio_proc t = prio_proc s" "prio_proc_n t = prio_proc_n s"
    "n_runnable_procs t = n_runnable_procs s"
    unfolding t by (simp_all add: D)
qed


text \<open>\<open>remove_child\<close> followed by the state change that frees the slot.\<close>

lemma remove_child_free:
  assumes abs: "abs_on L a s" and c: "user_proc s c" and par: "parent_pid (procs s c) = parent"
  obtains u t where "remove_child parent c s = Some u" and "change_state c FREE u = Some t"
    and "abs_on L (a_change c FREE (a\<lparr>a_kids := (a_kids a)(parent := remove1 c (a_kids a parent))\<rparr>)) t"
proof -
  obtain cs where "sring s (c # cs)"
    using tree_onD(1) [OF abs_onD(4) [OF abs] c] by auto
  then obtain n v where nv: "next_sibling (procs s c) = Some n" "prev_sibling (procs s c) = Some v"
    by (auto simp: sring_def elim: ring_links_in [where x = c])
  then obtain u where u: "remove_child parent c s = Some u"
    by (simp add: remove_child_eq Let_def)
  note R = remove_child_fields [OF u nv]
  have Rd: "state (procs u q) = state (procs s q)" "priority (procs u q) = priority (procs s q)"
    "parent_pid (procs u q) = parent_pid (procs s q)" for q
    using R(4) [of q] by (metis proc_data_simps)+
  have su: "sched_rel (a_ready a) u"
    by (rule sched_rel_cong [OF abs_onD(3) [OF abs]]) (simp_all add: R Rd)
  have c32: "c < MAX_PROC" using c by (simp add: user_proc_def)
  obtain t where t: "change_state c FREE u = Some t"
    "sched_rel (rq_change c (nat (priority (procs s c))) (state (procs s c)) FREE (a_ready a)) t"
    using change_state_rq [OF su c32, of FREE] by (auto simp: Rd)
  note F = change_state_fields [OF t(1)] and C = proc_core_fields [OF change_state_fields(4) [OF t(1)]]
  have "tree_on L ((a_kids a)(parent := remove1 c (a_kids a parent))) t"
    by (rule tree_on_remove [OF abs_onD(4) [OF abs] c par nv])
       (auto simp: C R Rd F user_proc_def)
  moreover have "proc_data (procs t q) = (if q = c then (proc_data (procs s q))\<lparr>state := FREE\<rparr> else proc_data (procs s q))" for q
    unfolding R(4) [of q, symmetric] using F(1) [of q] F(4) [of q] 
    by (cases "procs t q"; cases "procs u q") (auto simp: proc_data_def proc_core_def)
  ultimately show ?thesis
    using u t by (intro that [of u t]) (auto simp: abs_on_def abs_onD [OF abs] a_change_def F R)
qed

lemma proc_upd_give_status:
  "proc_upd p (give_status addr e) s =
     (if addr \<noteq> 0 then upd_buffer p (\<lambda>b. b\<lparr>write_addr := addr,
        buff := buf_move (buff b) (err_bytes e) sizeof_err_t, used_size := sizeof_err_t\<rparr>) s else s)"
  by (simp add: proc_upd_def give_status_def upd_buffer_def)

lemma handle_zombie_child_abs:
  assumes abs: "abs_on L a s" and c: "user_proc s c" and par: "parent_pid (procs s c) = parent"
    and p: "parent < MAX_PROC" "parent \<noteq> c" "prio_ok (priority (procs s parent))"
      "state (procs s parent) \<noteq> FREE"
  obtains t where "handle_zombie_child parent c s = Some t" and "abs_on L (a_reap parent c a) t"
proof -
  define addr where "addr = registers (saved_context (procs s parent)) 0"
  define s1 where "s1 = proc_upd parent (saved_context_update (registers_update (\<lambda>r. r(0 := of_nat (pid (procs s c)))))) s"
  define s2 where "s2 = proc_upd parent (give_status addr (proc_err (procs s c))) s1"
  define a2 where "a2 = a_upd parent (give_status addr (proc_err (procs s c)))
     (a_upd parent (saved_context_update (registers_update (\<lambda>r. r(0 := of_nat (pid (procs s c)))))) a)"
  have abs2: "abs_on L a2 s2"
    unfolding a2_def s2_def s1_def by (intro abs_on_store abs) simp_all
  have f: "state (procs s2 q) = state (procs s q)" "priority (procs s2 q) = priority (procs s q)"
    "parent_pid (procs s2 q) = parent_pid (procs s q)" for q
    by (simp_all add: s2_def s1_def give_status_def)
  have c2: "user_proc s2 c" "parent_pid (procs s2 c) = parent"
    using c par by (simp_all add: user_proc_def f)
  define a3 where "a3 = a_change c FREE (a2\<lparr>a_kids := (a_kids a2)(parent := remove1 c (a_kids a2 parent))\<rparr>)"
  obtain u t where ut: "remove_child parent c s2 = Some u" "change_state c FREE u = Some t" "abs_on L a3 t"
    unfolding a3_def using remove_child_free [OF abs2 c2] .
  have "proc_data (procs t parent) = a_procs a2 parent"
    using abs_onD(2) [OF ut(3), of parent] p(2) by (simp add: a3_def)
  then have "proc_data (procs t parent) = proc_data (procs s2 parent)"
    by (simp add: abs_onD(2) [OF abs2])
  then have tp: "state (procs t parent) = state (procs s parent)" "priority (procs t parent) = priority (procs s parent)"
    by (metis proc_data_simps f)+
  obtain r where r: "change_state parent RUNNABLE t = Some r" "abs_on L (a_change parent RUNNABLE a3) r"
    by (rule change_state_abs [OF ut(3) p(1) subset_refl, of RUNNABLE]) (use p tp in auto)
  have "handle_zombie_child parent c s = Some r"
    using ut r p(2)
    by (simp add: handle_zombie_child_def Let_def reg_def set_reg0_def s2_def s1_def addr_def
          proc_upd_give_status del: bind_split split: if_splits)
  moreover have "a_change parent RUNNABLE a3 = a_reap parent c a"
    using p(2) by (simp add: a_reap_def Let_def a3_def a2_def abs_onD [OF abs] addr_def)
  ultimately show ?thesis
    using r(2) by (intro that) simp_all
qed

lemma a_wf_reap:
  assumes "a_wf a" and "parent \<noteq> c" and "state (a_procs a parent) \<noteq> FREE" "state (a_procs a parent) \<noteq> ZOMBIE"
    and "state (a_procs a parent) \<noteq> WAIT_LISTENER"
  shows "a_wf (a_reap parent c a)"
  unfolding a_reap_def Let_def
  using assms by (intro a_wf_change a_wf_kids [THEN iffD2] a_wf_upd)
    (auto simp: proc_ok_def give_status_def)

section \<open>wait\<close>

definition spec_wait :: "abs_state \<Rightarrow> abs_state" where
  "spec_wait a =
     (let p = a_last a in
      case a_kids a p of
        [] \<Rightarrow> a_fail p NO_CHILD a
      | ks \<Rightarrow> (case List.find (\<lambda>c. state (a_procs a c) = ZOMBIE) ks of
                Some c \<Rightarrow> a_reap p c a
              | None \<Rightarrow> a_change p WAITING a))"

text \<open>The loop finds the first zombie of the ring, or stops at its last element.\<close>

lemma wait_walk_find:
  assumes "successively (linked (\<lambda>p. next_sibling (procs s p)) (\<lambda>p. prev_sibling (procs s p))) (c # xs @ [h])"
    and "h \<notin> set xs" and "length xs < fuel" and "state (procs s h) \<noteq> ZOMBIE" and "distinct xs"
    and "xs = [] \<Longrightarrow> c = h"
  shows "wait_walk fuel s h c = Some (case List.find (\<lambda>c. state (procs s c) = ZOMBIE) xs of
           Some z \<Rightarrow> z | None \<Rightarrow> last (h # xs))"
  using assms
proof (induction xs arbitrary: c fuel)
  case Nil
  then show ?case by (cases fuel) (auto simp: linked_def)
next
  case (Cons x xs)
  then obtain f where f: "fuel = Suc f" by (cases fuel) auto
  show ?case
  proof (cases "xs = []")
    case True
    with Cons.prems f show ?thesis by (auto simp: linked_def)
  next
    case False
    then obtain y ys where "xs = y # ys" by (cases xs) auto
    with Cons f show ?thesis by (auto simp: linked_def split: option.splits)
  qed
qed


lemma wait_scan:
  assumes "kids s p (h # xs)" and "state (procs s h) \<noteq> ZOMBIE"
  shows "wait_walk MAX_PROC s h h = Some (case List.find (\<lambda>c. state (procs s c) = ZOMBIE) xs of
           Some z \<Rightarrow> z | None \<Rightarrow> last (h # xs))"
proof -
  have r: "ring (\<lambda>p. next_sibling (procs s p)) (\<lambda>p. prev_sibling (procs s p)) (h # xs)"
    using assms(1) by (simp add: kids_def sring_def)
  show ?thesis
    using ring_distinct [OF r] kids_length [OF assms(1)] assms(2)
    by (intro wait_walk_find [OF ring_chain [OF r]]) auto
qed

lemma find_ZOMBIE_last:
  "List.find (\<lambda>c. P c) xs = None \<Longrightarrow> xs \<noteq> [] \<Longrightarrow> \<not> P (last xs)"
  by (auto simp: find_None_iff)

text \<open>What the code does, in terms of the list of children.\<close>

lemma syscall_wait_kids:
  assumes k: "kids s (last_pid s) xs"
  shows "syscall_wait s =
     (case xs of [] \<Rightarrow> Some (syscall_fail (last_pid s) NO_CHILD s)
      | _ \<Rightarrow> (case List.find (\<lambda>c. state (procs s c) = ZOMBIE) xs of
               Some c \<Rightarrow> handle_zombie_child (last_pid s) c s
             | None \<Rightarrow> change_state (last_pid s) WAITING s))"
proof (cases xs)
  case Nil
  with k show ?thesis
    by (simp add: syscall_wait_def print_children_kids [OF k] kids_def)
next
  case (Cons h ys)
  have h: "child (procs s (last_pid s)) = Some h" using k Cons by (simp add: kids_def)
  show ?thesis
  proof (cases "state (procs s h) = ZOMBIE")
    case False
    then have "wait_walk MAX_PROC s h h = Some (case List.find (\<lambda>c. state (procs s c) = ZOMBIE) ys of
           Some z \<Rightarrow> z | None \<Rightarrow> last (h # ys))"
      using wait_scan k Cons by simp
    moreover have "List.find (\<lambda>c. state (procs s c) = ZOMBIE) ys = Some z \<Longrightarrow> state (procs s z) = ZOMBIE" for z
      by (auto simp: find_Some_iff)
    moreover have "List.find (\<lambda>c. state (procs s c) = ZOMBIE) ys = None \<Longrightarrow> state (procs s (last (h # ys))) \<noteq> ZOMBIE"
      using False find_ZOMBIE_last [of "\<lambda>c. state (procs s c) = ZOMBIE" ys] by auto
    ultimately show ?thesis
      using False h Cons
      by (cases "List.find (\<lambda>c. state (procs s c) = ZOMBIE) ys")
         (simp_all add: syscall_wait_def print_children_kids [OF k])
  qed (use Cons h in \<open>simp add: syscall_wait_def print_children_kids [OF k]\<close>)
qed

lemma syscall_wait_abs:
  assumes abs: "abs_rel a s" and wf: "a_wf a" and run: "running a"
  shows "\<exists>t. syscall_wait s = Some t \<and> abs_rel (spec_wait a) t"
proof -
  define p where "p = a_last a"
  note A = abs [unfolded abs_rel_def] and D = abs_onD [OF abs [unfolded abs_rel_def]]
  have p: "last_pid s = p" "p < MAX_PROC" "state (procs s p) = RUNNABLE" "p \<in> a_live a"
    using run by (auto simp: p_def running_def D a_live_def)
  have prio: "prio_ok (priority (procs s p))"
    using a_wfD(4) [OF wf p(2)] p by (simp add: D)
  have k: "kids s p (a_kids a p)"
    using tree_onD(2) [OF D(4) p(4)] .
  have code: "syscall_wait s =
     (case a_kids a p of [] \<Rightarrow> Some (syscall_fail p NO_CHILD s)
      | _ \<Rightarrow> (case List.find (\<lambda>c. state (a_procs a c) = ZOMBIE) (a_kids a p) of
               Some c \<Rightarrow> handle_zombie_child p c s
             | None \<Rightarrow> change_state p WAITING s))"
    using syscall_wait_kids [of s "a_kids a p"] k unfolding p(1) D(2) proc_data_simps by simp
  consider "a_kids a p = []"
    | c where "a_kids a p \<noteq> []" "List.find (\<lambda>c. state (a_procs a c) = ZOMBIE) (a_kids a p) = Some c"
    | "a_kids a p \<noteq> []" "List.find (\<lambda>c. state (a_procs a c) = ZOMBIE) (a_kids a p) = None"
    by (cases "List.find (\<lambda>c. state (a_procs a c) = ZOMBIE) (a_kids a p)") auto
  then show ?thesis
  proof cases
    case 1
    then have "spec_wait a = a_fail p NO_CHILD a" by (simp add: spec_wait_def p_def)
    then show ?thesis
      using 1 syscall_fail_abs [OF A] by (auto simp: code abs_rel_def)
  next
    case (2 c)
    then have c: "c \<in> set (a_kids a p)" "state (a_procs a c) = ZOMBIE" by (auto simp: find_Some_iff)
    with k have uc: "user_proc s c" "parent_pid (procs s c) = p" "p \<noteq> c" 
      using p(3) by (auto simp: kids_def D)
    have "spec_wait a = a_reap p c a"
      using 2 by (cases "a_kids a p") (simp_all add: spec_wait_def p_def)
    moreover have "a_live (a_reap p c a) = a_live a"
      using c p uc(3) by (auto simp: a_live_def a_reap_def Let_def D give_status_def)
    ultimately show ?thesis
      using 2 handle_zombie_child_abs [OF A uc(1,2) p(2) uc(3) prio] p(3)
      by (cases "a_kids a p") (auto simp: code abs_rel_def)
  next
    case 3
    then have "spec_wait a = a_change p WAITING a"
      by (cases "a_kids a p") (simp_all add: spec_wait_def p_def)
    moreover have "a_live (a_change p WAITING a) = a_live a"
      using p by (auto simp: a_live_def D)
    ultimately show ?thesis
      using 3 change_state_abs [OF A p(2) subset_refl, of WAITING] p(3)
      by (cases "a_kids a p") (auto simp: code abs_rel_def)
  qed
qed

lemma spec_wait_wf:
  assumes "a_wf a" and "running a"
  shows "a_wf (spec_wait a)"
proof -
  have "a_last a \<noteq> c" if "List.find (\<lambda>c. state (a_procs a c) = ZOMBIE) ks = Some c" for c ks
    using that assms(2) by (auto simp: running_def find_Some_iff)
  moreover have "a_wf (a_change (a_last a) WAITING a)"
    using assms by (intro a_wf_change) (auto simp: proc_ok_def running_def)
  ultimately show ?thesis
    using assms by (auto simp: spec_wait_def Let_def running_def intro!: a_wf_fail a_wf_reap split: list.splits option.splits)
qed

section \<open>exit\<close>

definition reparent_all :: "nat list \<Rightarrow> (nat \<Rightarrow> proc_descriptor) \<Rightarrow> nat \<Rightarrow> proc_descriptor" where
  "reparent_all ks f = (\<lambda>q. if q \<in> set ks then (f q)\<lparr>parent_pid := INIT_PID\<rparr> else f q)"

definition spec_exit :: "abs_state \<Rightarrow> abs_state" where
  "spec_exit a =
     (let p = a_last a; rs = registers (saved_context (a_procs a p));
          a1 = a_upd p (proc_err_update (\<lambda>_. \<lparr>err_no = ucast (rs 0), err_data = rs 1\<rparr>)) a;
          a2 = a1\<lparr>a_procs := reparent_all (a_kids a1 p) (a_procs a1)\<rparr>;
          parent = parent_pid (a_procs a2 p)
      in if state (a_procs a2 parent) = WAITING then a_reap parent p a2
         else a_change p ZOMBIE a2)"

lemma reparent_walk_ring:
  assumes "successively (linked (\<lambda>p. next_sibling (procs s p)) (\<lambda>p. prev_sibling (procs s p))) (c # bs @ [h])"
    and "h \<notin> set bs" and "length bs < fuel" and "distinct (c # bs)"
  shows "reparent_walk fuel h c s = Some (s\<lparr>procs := reparent_all (c # bs) (procs s)\<rparr>)"
  using assms
proof (induction bs arbitrary: c fuel s)
  case Nil
  then obtain f where "fuel = Suc f" by (cases fuel) auto
  with Nil show ?case
    by (auto simp: linked_def proc_upd_def reparent_all_def fun_eq_iff)
next
  case (Cons b bs)
  then obtain f where f: "fuel = Suc f" by (cases fuel) auto
  define s1 where "s1 = proc_upd c (parent_pid_update (\<lambda>_. INIT_PID)) s"
  have "successively (linked (\<lambda>p. next_sibling (procs s1 p)) (\<lambda>p. prev_sibling (procs s1 p))) (b # bs @ [h])"
  proof -
    have "(\<lambda>p. next_sibling (procs s1 p)) = (\<lambda>p. next_sibling (procs s p))"
      and "(\<lambda>p. prev_sibling (procs s1 p)) = (\<lambda>p. prev_sibling (procs s p))"
      by (simp_all add: s1_def fun_eq_iff)
    with Cons.prems(1) show ?thesis by simp
  qed
  then have "reparent_walk f h b s1 = Some (s1\<lparr>procs := reparent_all (b # bs) (procs s1)\<rparr>)"
    using Cons.prems f by (intro Cons.IH) auto
  moreover have "s1\<lparr>procs := reparent_all (b # bs) (procs s1)\<rparr> = s\<lparr>procs := reparent_all (c # b # bs) (procs s)\<rparr>"
    using Cons.prems(4) by (auto simp: s1_def proc_upd_def reparent_all_def fun_eq_iff)
  ultimately show ?case
    using Cons.prems f by (auto simp: linked_def s1_def)
qed

lemma reparent_kids:
  assumes "kids s p xs"
  shows "(case child (procs s p) of None \<Rightarrow> Some s | Some h \<Rightarrow> reparent_walk MAX_PROC h h s) =
     Some (s\<lparr>procs := reparent_all xs (procs s)\<rparr>)"
proof (cases xs)
  case Nil
  with assms show ?thesis by (simp add: kids_def reparent_all_def)
next
  case (Cons h ys)
  have r: "ring (\<lambda>p. next_sibling (procs s p)) (\<lambda>p. prev_sibling (procs s p)) (h # ys)"
    using assms Cons by (simp add: kids_def sring_def)
  have "reparent_walk MAX_PROC h h s = Some (s\<lparr>procs := reparent_all (h # ys) (procs s)\<rparr>)"
    using ring_distinct [OF r] kids_length [OF assms] Cons
    by (intro reparent_walk_ring [OF ring_chain [OF r]]) auto
  with assms Cons show ?thesis by (simp add: kids_def)
qed

lemma reparent_all_simps [simp]:
  "state (reparent_all ks f q) = state (f q)" "next_sibling (reparent_all ks f q) = next_sibling (f q)"
  "prev_sibling (reparent_all ks f q) = prev_sibling (f q)" "child (reparent_all ks f q) = child (f q)"
  "priority (reparent_all ks f q) = priority (f q)" "next_same_prio (reparent_all ks f q) = next_same_prio (f q)"
  "prev_same_prio (reparent_all ks f q) = prev_same_prio (f q)"
  "parent_pid (reparent_all ks f q) = (if q \<in> set ks then INIT_PID else parent_pid (f q))"
  "proc_data (reparent_all ks f q) = reparent_all ks (\<lambda>q. proc_data (f q)) q"
  by (simp_all add: reparent_all_def proc_data_def)

lemma reparent_abs:
  assumes abs: "abs_on L a s" and p: "p \<in> L"
  shows "abs_on (L - {p}) (a\<lparr>a_procs := reparent_all (a_kids a p) (a_procs a)\<rparr>)
           (s\<lparr>procs := reparent_all (a_kids a p) (procs s)\<rparr>)" (is "abs_on _ ?a ?t")
proof -
  note D = abs_onD [OF abs]
  have sr: "sring ?t = sring s" by (simp add: sring_def)
  have up: "user_proc ?t = user_proc s" by (simp add: user_proc_def fun_eq_iff)
  have "kids ?t q (a_kids a q)" if "q \<in> L - {p}" for q
    using tree_onD(2) [OF D(4), of q] tree_onD(2) [OF D(4) p] that by (auto simp: kids_def sr up)
  then have "tree_on (L - {p}) (a_kids a) ?t"
    using tree_onD(1,3) [OF D(4)] unfolding tree_on_def sr up by auto
  moreover have "sched_rel (a_ready a) ?t"
    by (rule sched_rel_cong [OF D(3)]) simp_all
  ultimately show ?thesis
    using D(1) fun_eq_iff [of "a_procs a" "\<lambda>q. proc_data (procs s q)"] D(2)
    by (simp add: abs_on_def)
qed

lemma syscall_exit_abs:
  assumes abs: "abs_rel a s" and wf: "a_wf a" and run: "running a"
  shows "\<exists>t. syscall_exit s = Some t \<and> abs_rel (spec_exit a) t"
proof -
  define p where "p = a_last a"
  define e where "e = \<lparr>err_no = ucast (reg s p 0), err_data = reg s p 1\<rparr>"
  define s1 where "s1 = proc_upd p (proc_err_update (\<lambda>_. e)) s"
  define a1 where "a1 = a_upd p (proc_err_update (\<lambda>_. e)) a"
  define s2 where "s2 = s1\<lparr>procs := reparent_all (a_kids a1 p) (procs s1)\<rparr>"
  define a2 where "a2 = a1\<lparr>a_procs := reparent_all (a_kids a1 p) (a_procs a1)\<rparr>"
  define parent where "parent = parent_pid (procs s2 p)"
  note D = abs_onD [OF abs [unfolded abs_rel_def]]
  have p: "last_pid s = p" "0 < p" "p < MAX_PROC" "state (procs s p) = RUNNABLE" "p \<in> a_live a"
    using run by (auto simp: p_def running_def D a_live_def)
  have A1: "abs_on (a_live a) a1 s1"
    unfolding a1_def s1_def using abs by (intro abs_on_store) (simp_all add: abs_rel_def)
  have A2: "abs_on (a_live a - {p}) a2 s2"
    unfolding a2_def s2_def by (rule reparent_abs [OF A1 p(5)])
  have k: "kids s1 p (a_kids a1 p)"
    using tree_onD(2) [OF abs_onD(4) [OF A1] p(5)] .
  have st2: "state (procs s2 q) = state (procs s q)" "priority (procs s2 q) = priority (procs s q)" for q
    by (simp_all add: s2_def s1_def)
  have code: "syscall_exit s =
     (if state (procs s2 parent) = WAITING then handle_zombie_child parent p s2 else change_state p ZOMBIE s2)"
    unfolding syscall_exit_def Let_def p(1) e_def [symmetric] s1_def [symmetric]
      reparent_kids [OF k] s2_def [symmetric] by (simp add: parent_def)
  have spec: "spec_exit a =
     (if state (procs s2 parent) = WAITING then a_reap parent p a2 else a_change p ZOMBIE a2)"
  proof -
    have par: "parent_pid (a_procs a2 p) = parent" "state (a_procs a2 parent) = state (procs s2 parent)"
      using abs_onD(2) [OF A2] by (simp_all add: parent_def)
    have e: "\<lparr>err_no = ucast (registers (saved_context (a_procs a p)) 0),
              err_data = registers (saved_context (a_procs a p)) 1\<rparr> = e"
      by (simp add: e_def reg_def D)
    show ?thesis
      unfolding spec_exit_def Let_def p_def [symmetric] e a1_def [symmetric] a2_def [symmetric] par ..
  qed
  have live2: "state (a_procs a2 q) = state (a_procs a q)" for q
    using abs_onD(2) [OF A2, of q] by (simp add: st2 D)
  show ?thesis
  proof (cases "state (procs s2 parent) = WAITING")
    case True
    then have ne: "parent \<noteq> p" using p(4) by (auto simp: st2)
    have init: "parent_pid (procs s 1) = 1" if "state (procs s 1) \<noteq> FREE"
      using a_wfD(2) [OF wf, of 1] that by (simp add: D)
    have "2 \<le> p"
      using p(2,4) ne init by (cases "p = 1") (auto simp: parent_def s2_def s1_def split: if_splits)
    then have u: "user_proc s2 p" using p by (simp add: user_proc_def st2)
    have par: "parent < MAX_PROC"
      using tree_onD(3) [OF abs_onD(4) [OF A2] u] by (simp add: parent_def)
    have "prio_ok (priority (procs s2 parent))"
      using a_wfD(4) [OF wf par] True by (simp add: st2 D)
    then obtain t where t: "handle_zombie_child parent p s2 = Some t" "abs_on (a_live a - {p}) (a_reap parent p a2) t"
      using handle_zombie_child_abs [OF A2 u _ par ne] True by (auto simp: parent_def)
    moreover have "a_live (a_reap parent p a2) = a_live a - {p}"
      using True ne par by (auto simp: a_live_def a_reap_def Let_def give_status_def live2 st2 D)
    ultimately show ?thesis using True by (simp add: code spec abs_rel_def)
  next
    case False
    have "a_live (a_change p ZOMBIE a2) = a_live a - {p}"
      by (auto simp: a_live_def live2)
    moreover obtain t where "change_state p ZOMBIE s2 = Some t" "abs_on (a_live a - {p}) (a_change p ZOMBIE a2) t"
      by (rule change_state_abs [OF A2 p(3) subset_refl, of ZOMBIE]) (auto simp: st2 p)
    ultimately show ?thesis using False by (simp add: code spec abs_rel_def)
  qed
qed

lemma spec_exit_wf:
  assumes wf: "a_wf a" and "running a"
  shows "a_wf (spec_exit a)"
proof -
  define p where "p = a_last a"
  define e where "e = \<lparr>err_no = ucast (registers (saved_context (a_procs a p)) 0),
                       err_data = registers (saved_context (a_procs a p)) 1\<rparr>"
  define a1 where "a1 = a_upd p (proc_err_update (\<lambda>_. e)) a"
  define a2 where "a2 = a1\<lparr>a_procs := reparent_all (a_kids a1 p) (a_procs a1)\<rparr>"
  have wf1: "a_wf a1" unfolding a1_def by (intro a_wf_upd wf) (auto simp: proc_ok_def)
  have "proc_ok q (a_procs a2 q)" if "q < MAX_PROC" for q
  proof -
    have "proc_ok q (a_procs a1 q)" using that wf1 by (simp add: a_wf_def)
    then show ?thesis by (cases "q = INIT_PID") (simp_all add: a2_def proc_ok_def reparent_all_def)
  qed
  then have wf2: "a_wf a2" by (simp add: a_wf_def)
  have st: "state (a_procs a2 q) = state (a_procs a q)" for q by (simp add: a2_def a1_def)
  have run: "state (a_procs a p) = RUNNABLE" using assms(2) by (simp add: running_def p_def)
  have "a_wf (a_reap q p a2)" if "state (a_procs a2 q) = WAITING" for q
    using that run by (intro a_wf_reap wf2) (auto simp: st)
  moreover have "a_wf (a_change p ZOMBIE a2)"
    by (intro a_wf_change wf2) (use run in \<open>auto simp: proc_ok_def st\<close>)
  ultimately show ?thesis
    unfolding spec_exit_def Let_def p_def [symmetric] e_def [symmetric] a1_def [symmetric] a2_def [symmetric]
    by auto
qed

section \<open>Properties\<close>

text \<open>
  C14. \<open>syscall_wait\<close> implements its specification and always returns: without children the call
  fails with \<open>NO_CHILD\<close>; otherwise the first zombie in the order of the list of children is
  reaped (its pid and exit status go to the caller, its slot becomes free, it leaves the list of
  children, the caller is runnable), and the caller is put into \<open>WAITING\<close> when there is none.
  The well-formedness of the descriptors is kept.
\<close>

theorem syscall_wait_refines:
  assumes "abs_rel a s" and "a_wf a" and "running a"
  shows "\<exists>t. syscall_wait s = Some t \<and> abs_rel (spec_wait a) t \<and> a_wf (spec_wait a)"
  using syscall_wait_abs [OF assms] spec_wait_wf [OF assms(2,3)] by blast

theorem syscall_wait_refines_witness:
  "abs_rel example_abs example_sys \<and> a_wf example_abs \<and> running example_abs \<and>
   (\<exists>t. syscall_wait example_sys = Some t \<and> abs_rel (spec_wait example_abs) t \<and> a_wf (spec_wait example_abs))"
  using syscall_wait_refines [OF example_rel example_wf example_running]
    example_rel example_wf example_running by blast

text \<open>
  C13. \<open>syscall_exit\<close> implements its specification and always returns: the exit status is stored,
  every child gets \<open>init\<close> as its parent, and the process is reaped at once when its own parent
  waits, and otherwise becomes a zombie. The well-formedness of the descriptors is kept.
\<close>

theorem syscall_exit_refines:
  assumes "abs_rel a s" and "a_wf a" and "running a"
  shows "\<exists>t. syscall_exit s = Some t \<and> abs_rel (spec_exit a) t \<and> a_wf (spec_exit a)"
  using syscall_exit_abs [OF assms] spec_exit_wf [OF assms(2,3)] by blast

theorem syscall_exit_refines_witness:
  "abs_rel example_abs example_sys \<and> a_wf example_abs \<and> running example_abs \<and>
   (\<exists>t. syscall_exit example_sys = Some t \<and> abs_rel (spec_exit example_abs) t \<and> a_wf (spec_exit example_abs))"
  using syscall_exit_refines [OF example_rel example_wf example_running]
    example_rel example_wf example_running by blast

end
