(* ===== verification/Channels.thy ===== *)
theory Channels
  imports Lifecycle
begin

text \<open>
  Specification and refinement of the rendezvous system calls \<open>send\<close>, \<open>receive\<close> and \<open>acknowledge\<close>.
\<close>

section \<open>Channels\<close>

definition set_r0 :: "u64 \<Rightarrow> proc_descriptor \<Rightarrow> proc_descriptor" where
  "set_r0 v = saved_context_update (registers_update (\<lambda>r. r(0 := v)))"

text \<open>A message of the sender \<open>ds\<close> put into the descriptor of the receiver.\<close>

definition deliver_msg :: "proc_descriptor \<Rightarrow> proc_descriptor \<Rightarrow> proc_descriptor" where
  "deliver_msg ds d =
     set_r0 (of_nat (pid ds))
       (receiver_data_update (source_pid_update (\<lambda>_. pid ds))
         (buffer_update (\<lambda>b. b\<lparr>used_size := used_size (buffer ds), write_addr := receive_data (receiver_data d),
             buff := buf_move (buff b) (buff (buffer ds)) (used_size (buffer ds))\<rparr>) d))"

definition message_sent :: "proc_descriptor \<Rightarrow> proc_descriptor" where
  "message_sent d = buffer_update (used_size_update (\<lambda>_. 0))
                      (sender_data_update (acknowledged_update (\<lambda>_. False)) d)"

definition a_connect :: "nat \<Rightarrow> nat \<Rightarrow> abs_state \<Rightarrow> abs_state" where
  "a_connect sdr rcv a =
     (if receive_size (receiver_data (a_procs a rcv)) < send_size (sender_data (a_procs a sdr))
      then a_fail sdr SEND_DATA_TOO_LARGE a
      else a_change rcv RUNNABLE (a_change sdr SENDING_CH
             (a_upd sdr message_sent (a_upd rcv (deliver_msg (a_procs a sdr)) a))))"

definition spec_send :: "abs_state \<Rightarrow> abs_state" where
  "spec_send a =
     (let p = a_last a; r = registers (saved_context (a_procs a p)); target = int_of_u64 (r 0);
          listening = (state (a_procs a (nat target)) = LISTENING_CH)
      in if target < 0 \<or> target \<ge> int MAX_PROC then a_fail p INVALID_PID a
         else if \<not> listening \<and> r 5 = 0 then a_fail p TARGET_NOT_LISTENING a
         else if r 2 > BUFF_SIZE then a_fail p SEND_DATA_TOO_LARGE a
         else
           let a1 = a_upd p (sender_data_update (\<lambda>d. d\<lparr>target_pid := target, send_size := r 2,
                                                       ack_data := r 3, ack_size := r 4\<rparr>)) a
           in if listening then a_connect p (nat target) a1 else a_change p WAIT_LISTENER a1)"

definition a_waiting_sender :: "abs_state \<Rightarrow> nat \<Rightarrow> nat option" where
  "a_waiting_sender a p =
     List.find (\<lambda>i. state (a_procs a i) = WAIT_LISTENER \<and> target_pid (sender_data (a_procs a i)) = int p) [0..<MAX_PROC]"

definition spec_receive :: "abs_state \<Rightarrow> abs_state" where
  "spec_receive a =
     (let p = a_last a; r = registers (saved_context (a_procs a p));
          a1 = a_change p LISTENING_CH
                 (a_upd p (receiver_data_update (\<lambda>d. d\<lparr>receive_data := r 0, receive_size := r 1\<rparr>)) a)
      in case a_waiting_sender a1 p of None \<Rightarrow> a1 | Some i \<Rightarrow> a_connect i p a1)"

definition ack_reply :: "proc_descriptor \<Rightarrow> proc_descriptor \<Rightarrow> proc_descriptor" where
  "ack_reply dr d =
     (let n = (if ack_size (sender_data d) < used_size (buffer dr) then ack_size (sender_data d)
               else used_size (buffer dr)) in
      set_r0 (word_of_int (return_code (receiver_data dr)))
        (buffer_update (\<lambda>b. b\<lparr>used_size := n, buff := buf_move (buff b) (buff (buffer dr)) n,
                              write_addr := ack_data (sender_data d)\<rparr>) d))"

definition spec_acknowledge :: "abs_state \<Rightarrow> abs_state option" where
  "spec_acknowledge a =
     (let p = a_last a; r = registers (saved_context (a_procs a p)) in
      if r 2 > BUFF_SIZE then Some (a_fail p SEND_DATA_TOO_LARGE a)
      else
        let a1 = a_upd p (receiver_data_update (\<lambda>d. d\<lparr>return_code := int_of_u64 (r 0)\<rparr>)) a;
            sdr = source_pid (receiver_data (a_procs a p))
        in if acknowledged (sender_data (a_procs a sdr)) \<or> state (a_procs a sdr) \<noteq> SENDING_CH
           then Some (a_fail p SOURCE_ALREADY_ACKNOWLEDGED a1)
           else if target_pid (sender_data (a_procs a sdr)) \<noteq> int p then None
           else Some (a_change sdr RUNNABLE
                  (a_upd p (\<lambda>d. buffer_update (used_size_update (\<lambda>_. 0)) (set_r0 0 d))
                    (a_upd sdr (ack_reply (a_procs a1 p)) a1))))"

lemma data_store_msg [simp]:
  "data_store (set_r0 v)" "data_store (deliver_msg ds)" "data_store message_sent" "data_store (ack_reply dr)"
  by (simp_all add: data_store_def proc_data_def set_r0_def deliver_msg_def message_sent_def ack_reply_def Let_def)

lemma data_store_comp [simp]: "data_store f \<Longrightarrow> data_store g \<Longrightarrow> data_store (\<lambda>d. f (g d))"
  by (simp add: data_store_def)

lemma deliver_msg_data [simp]: "deliver_msg (proc_data ds) = deliver_msg ds"
  by (simp add: deliver_msg_def fun_eq_iff)

lemma ack_reply_data [simp]: "ack_reply (proc_data ds) = ack_reply ds"
  by (simp add: ack_reply_def fun_eq_iff)

lemma handle_channel_connection_eq:
  assumes "sdr \<noteq> rcv" and "used_size (buffer (procs s sdr)) \<le> send_size (sender_data (procs s sdr))"
    and "send_size (sender_data (procs s sdr)) \<le> BUFF_SIZE"
  shows "handle_channel_connection sdr rcv s =
     (if receive_size (receiver_data (procs s rcv)) < send_size (sender_data (procs s sdr))
      then Some (syscall_fail sdr SEND_DATA_TOO_LARGE s)
      else change_state sdr SENDING_CH
             (proc_upd sdr message_sent (proc_upd rcv (deliver_msg (procs s sdr)) s)) \<bind>
           change_state rcv RUNNABLE)"
proof -
  have "used_size (buffer (procs s sdr)) \<le> BUFF_SIZE"
    using assms by simp
  moreover have "used_size (buffer (procs s sdr)) \<le> receive_size (receiver_data (procs s rcv))"
    if "\<not> receive_size (receiver_data (procs s rcv)) < send_size (sender_data (procs s sdr))"
    using assms that by simp
  ultimately show ?thesis
    using assms(1)
    by (simp add: handle_channel_connection_def Let_def assert_bind kernel_defs proc_upd_def
          message_sent_def deliver_msg_def set_r0_def fun_upd_twist o_def)
qed


lemma connect_abs:
  assumes A: "abs_on L a s" and ne: "sdr \<noteq> rcv"
    and size: "used_size (buffer (procs s sdr)) \<le> send_size (sender_data (procs s sdr))"
      "send_size (sender_data (procs s sdr)) \<le> BUFF_SIZE"
    and i: "sdr < MAX_PROC" "rcv < MAX_PROC" "state (procs s sdr) \<noteq> FREE" "state (procs s rcv) \<noteq> FREE"
      "prio_ok (priority (procs s rcv))"
  obtains t where "handle_channel_connection sdr rcv s = Some t" and "abs_on L (a_connect sdr rcv a) t"
proof (cases "receive_size (receiver_data (procs s rcv)) < send_size (sender_data (procs s sdr))")
  case True
  then show ?thesis
    using syscall_fail_abs [OF A, of sdr]
    by (intro that) (auto simp: handle_channel_connection_eq [OF ne size] a_connect_def abs_onD [OF A])
next
  case False
  define s1 where "s1 = proc_upd sdr message_sent (proc_upd rcv (deliver_msg (procs s sdr)) s)"
  define a1 where "a1 = a_upd sdr message_sent (a_upd rcv (deliver_msg (procs s sdr)) a)"
  have A1: "abs_on L a1 s1"
    unfolding a1_def s1_def by (intro abs_on_store A) simp_all
  have f: "state (procs s1 q) = state (procs s q)" "priority (procs s1 q) = priority (procs s q)" for q
    by (simp_all add: s1_def message_sent_def deliver_msg_def set_r0_def)
  obtain u where u: "change_state sdr SENDING_CH s1 = Some u" "abs_on L (a_change sdr SENDING_CH a1) u"
    by (rule change_state_abs [OF A1 i(1) subset_refl, of SENDING_CH]) (use i f in auto)
  have fu: "state (procs u rcv) = state (procs s rcv)" "priority (procs u rcv) = priority (procs s rcv)"
    using change_state_fields(1) [OF u(1), of rcv] proc_core_fields(1) [OF change_state_fields(4) [OF u(1)], of rcv]
      ne by (simp_all add: f)
  obtain t where t: "change_state rcv RUNNABLE u = Some t"
      "abs_on L (a_change rcv RUNNABLE (a_change sdr SENDING_CH a1)) t"
    by (rule change_state_abs [OF u(2) i(2) subset_refl, of RUNNABLE]) (use i fu in auto)
  show ?thesis
    using False u t
    by (intro that [of t])
       (simp_all add: handle_channel_connection_eq [OF ne size] a_connect_def abs_onD [OF A] a1_def s1_def)
qed

lemma a_live_connect:
  assumes "sdr \<in> a_live a" and "rcv \<in> a_live a"
  shows "a_live (a_connect sdr rcv a) = a_live a"
proof -
  have "state (deliver_msg d e) = state e" "state (message_sent e) = state e" for d e
    by (simp_all add: deliver_msg_def message_sent_def set_r0_def)
  then show ?thesis
    using assms by (auto simp: a_live_def a_connect_def a_fail_def)
qed

lemma syscall_send_abs:
  assumes abs: "abs_rel a s" and wf: "a_wf a" and run: "running a" and buf: "svc_buffered a"
  shows "\<exists>t. syscall_send s = Some t \<and> abs_rel (spec_send a) t"
proof -
  define p where "p = a_last a"
  define r where "r = registers (saved_context (a_procs a p))"
  note A = abs [unfolded abs_rel_def] and D = abs_onD [OF abs [unfolded abs_rel_def]]
  have p: "last_pid s = p" "p < MAX_PROC" "state (procs s p) = RUNNABLE" "p \<in> a_live a"
    using run by (auto simp: p_def running_def D a_live_def)
  have r: "reg s p i = r i" for i by (simp add: reg_def r_def D)
  define target where "target = int_of_u64 (r 0)"
  define a1 where "a1 = a_upd p (sender_data_update (\<lambda>d. d\<lparr>target_pid := target, send_size := r 2,
                                        ack_data := r 3, ack_size := r 4\<rparr>)) a"
  define s1 where "s1 = proc_upd p (sender_data_update (\<lambda>d. d\<lparr>target_pid := target, send_size := r 2,
                                        ack_data := r 3, ack_size := r 4\<rparr>)) s"
  have A1: "abs_on (a_live a) a1 s1"
    unfolding a1_def s1_def by (intro abs_on_store A) simp_all
  have live1: "a_live a1 = a_live a" by (auto simp: a1_def a_live_def)
  have st1: "state (procs s1 q) = state (procs s q)" "priority (procs s1 q) = priority (procs s q)" for q
    by (simp_all add: s1_def)
  have code: "syscall_send s =
     (if target < 0 \<or> target \<ge> int MAX_PROC then Some (syscall_fail p INVALID_PID s)
      else if state (procs s (nat target)) \<noteq> LISTENING_CH \<and> r 5 = 0
      then Some (syscall_fail p TARGET_NOT_LISTENING s)
      else if r 2 > BUFF_SIZE then Some (syscall_fail p SEND_DATA_TOO_LARGE s)
      else if state (procs s (nat target)) = LISTENING_CH then handle_channel_connection p (nat target) s1
      else change_state p WAIT_LISTENER s1)"
    unfolding syscall_send_def Let_def p(1) r target_def [symmetric] upd_sender_def s1_def [symmetric] st1 by simp
  have spec: "spec_send a =
     (if target < 0 \<or> target \<ge> int MAX_PROC then a_fail p INVALID_PID a
      else if state (procs s (nat target)) \<noteq> LISTENING_CH \<and> r 5 = 0
      then a_fail p TARGET_NOT_LISTENING a
      else if r 2 > BUFF_SIZE then a_fail p SEND_DATA_TOO_LARGE a
      else if state (procs s (nat target)) = LISTENING_CH then a_connect p (nat target) a1
      else a_change p WAIT_LISTENER a1)"
    unfolding spec_send_def Let_def p_def [symmetric] r_def [symmetric] target_def [symmetric]
      a1_def [symmetric] by (simp add: D(2))
  consider "target < 0 \<or> target \<ge> int MAX_PROC \<or> state (procs s (nat target)) \<noteq> LISTENING_CH \<and> r 5 = 0 \<or> r 2 > BUFF_SIZE"
    | "0 \<le> target" "target < int MAX_PROC" "state (procs s (nat target)) = LISTENING_CH" "r 2 \<le> BUFF_SIZE"
    | "0 \<le> target" "target < int MAX_PROC" "state (procs s (nat target)) \<noteq> LISTENING_CH" "r 5 \<noteq> 0" "r 2 \<le> BUFF_SIZE"
    by force
  then show ?thesis
  proof cases
    case 1
    then show ?thesis
      using syscall_fail_abs [OF A, of p] by (auto simp: code spec abs_rel_def)
  next
    case 2
    have ne: "p \<noteq> nat target" using 2 p(3) by auto
    have tl: "nat target \<in> a_live a" using 2 by (auto simp: a_live_def D(2))
    have prio: "prio_ok (priority (procs s1 (nat target)))"
      using a_wfD(4) [OF wf, of "nat target"] 2 by (simp add: D(2) st1)
    have size: "used_size (buffer (procs s1 p)) \<le> send_size (sender_data (procs s1 p))"
      "send_size (sender_data (procs s1 p)) \<le> BUFF_SIZE"
      using buf 2 by (simp_all add: s1_def svc_buffered_def r_def D(2) flip: p_def)
    obtain t where t: "handle_channel_connection p (nat target) s1 = Some t"
        "abs_on (a_live a) (a_connect p (nat target) a1) t"
      by (rule connect_abs [OF A1 ne size p(2) _ _ _ prio]) (use 2 p in \<open>simp_all add: st1\<close>)
    then show ?thesis
      using 2 a_live_connect [of p a1 "nat target"] p(4) tl
      by (auto simp: code spec abs_rel_def live1 dest: leD)
  next
    case 3
    obtain t where "change_state p WAIT_LISTENER s1 = Some t" "abs_on (a_live a) (a_change p WAIT_LISTENER a1) t"
      by (rule change_state_abs [OF A1 p(2) subset_refl, of WAIT_LISTENER]) (use p st1 in auto)
    moreover have "a_live (a_change p WAIT_LISTENER a1) = a_live a"
      using p(4) by (auto simp: a_live_def a1_def)
    ultimately show ?thesis using 3 by (auto simp: code spec abs_rel_def dest: leD)
  qed
qed


lemma syscall_receive_abs:
  assumes abs: "abs_rel a s" and wf: "a_wf a" and run: "running a"
  shows "\<exists>t. syscall_receive s = Some t \<and> abs_rel (spec_receive a) t"
proof -
  define p where "p = a_last a"
  define r where "r = registers (saved_context (a_procs a p))"
  note A = abs [unfolded abs_rel_def] and D = abs_onD [OF abs [unfolded abs_rel_def]]
  have p: "last_pid s = p" "p < MAX_PROC" "state (procs s p) = RUNNABLE" "p \<in> a_live a"
    using run by (auto simp: p_def running_def D a_live_def)
  have r: "reg s p i = r i" for i by (simp add: reg_def r_def D(2))
  have pw: "pid (procs s p) = p" "prio_ok (priority (procs s p))"
    using a_wfD(1,4) [OF wf p(2)] p(3) by (simp_all add: D(2))
  define f :: "proc_descriptor \<Rightarrow> proc_descriptor" where "f = receiver_data_update (\<lambda>d. d\<lparr>receive_data := r 0, receive_size := r 1\<rparr>)"
  have A1: "abs_on (a_live a) (a_upd p f a) (proc_upd p f s)"
    unfolding f_def by (intro abs_on_store A) simp_all
  define a2 where "a2 = a_change p LISTENING_CH (a_upd p f a)"
  obtain s2 where s2: "change_state p LISTENING_CH (proc_upd p f s) = Some s2" "abs_on (a_live a) a2 s2"
    unfolding a2_def by (rule change_state_abs [OF A1 p(2) subset_refl, of LISTENING_CH]) (use p in \<open>auto simp: f_def\<close>)
  note D2 = abs_onD [OF s2(2)]
  have a2q: "a_procs a2 q = (if q = p then (f (a_procs a p))\<lparr>state := LISTENING_CH\<rparr> else a_procs a q)" for q
    by (simp add: a2_def)
  have live2: "a_live a2 = a_live a"
    using p(4) by (auto simp: a_live_def a2q)
  have s2p: "pid (procs s2 p) = p" "state (procs s2 p) = LISTENING_CH" "prio_ok (priority (procs s2 p))"
  proof -
    have "proc_data (procs s2 p) = (f (proc_data (procs s p)))\<lparr>state := LISTENING_CH\<rparr>"
      using D2(2) [of p] a2q [of p] D(2) [of p] by simp
    then have "pid (proc_data (procs s2 p)) = p" "state (proc_data (procs s2 p)) = LISTENING_CH"
      "prio_ok (priority (proc_data (procs s2 p)))"
      using pw by (simp_all add: f_def)
    then show "pid (procs s2 p) = p" "state (procs s2 p) = LISTENING_CH" "prio_ok (priority (procs s2 p))"
      by simp_all
  qed
  have ws: "waiting_sender s2 p = a_waiting_sender a2 p"
    unfolding waiting_sender_def a_waiting_sender_def s2p(1) D2(2) proc_data_simps ..
  have code: "syscall_receive s = (case a_waiting_sender a2 p of None \<Rightarrow> Some s2 | Some i \<Rightarrow> handle_channel_connection i p s2)"
    unfolding syscall_receive_def Let_def p(1) r upd_receiver_def f_def [symmetric] s2(1) bind.bind_lunit ws ..
  have spec: "spec_receive a = (case a_waiting_sender a2 p of None \<Rightarrow> a2 | Some i \<Rightarrow> a_connect i p a2)"
    unfolding spec_receive_def Let_def p_def [symmetric] r_def [symmetric] f_def [symmetric] a2_def [symmetric] ..
  show ?thesis
  proof (cases "a_waiting_sender a2 p")
    case None
    then show ?thesis using s2(2) live2 by (simp add: code spec abs_rel_def)
  next
    case (Some i)
    then have i: "i < MAX_PROC" "state (a_procs a2 i) = WAIT_LISTENER"
      by (auto simp: a_waiting_sender_def find_Some_iff)
    then have ip: "i \<noteq> p" by (auto simp: a2q)
    then have ai: "state (a_procs a i) = WAIT_LISTENER" "a_procs a2 i = a_procs a i" using i by (simp_all add: a2q)
    have size: "used_size (buffer (procs s2 i)) \<le> send_size (sender_data (procs s2 i))"
      "send_size (sender_data (procs s2 i)) \<le> BUFF_SIZE"
      using a_wfD(5,6) [OF wf i(1)] ai(1) D2(2) [of i, unfolded ai(2)] by simp_all
    obtain t where "handle_channel_connection i p s2 = Some t" "abs_on (a_live a) (a_connect i p a2) t"
      by (rule connect_abs [OF s2(2) ip size i(1) p(2) _ _ s2p(3)]) (use i D2(2) [of i] s2p in simp_all)
    moreover have "i \<in> a_live a" using i ai by (simp add: a_live_def)
    ultimately show ?thesis
      using Some a_live_connect [of i a2 p] p(4) live2 by (simp add: code spec abs_rel_def)
  qed
qed


lemma handle_channel_ack_eq:
  assumes "sdr \<noteq> rcv" and "used_size (buffer (procs s rcv)) \<le> BUFF_SIZE"
  shows "handle_channel_ack rcv sdr s =
     (if acknowledged (sender_data (procs s sdr)) \<or> state (procs s sdr) \<noteq> SENDING_CH
      then Some (syscall_fail rcv SOURCE_ALREADY_ACKNOWLEDGED s)
      else if target_pid (sender_data (procs s sdr)) \<noteq> int (pid (procs s rcv)) then None
      else change_state sdr RUNNABLE
             (proc_upd rcv (\<lambda>d. buffer_update (used_size_update (\<lambda>_. 0)) (set_r0 0 d))
               (proc_upd sdr (ack_reply (procs s rcv)) s)))"
  using assms
  by (simp add: handle_channel_ack_def Let_def assert_bind kernel_defs proc_upd_def
        ack_reply_def set_r0_def fun_upd_twist o_def)

lemma syscall_acknowledge_abs:
  assumes abs: "abs_rel a s" and wf: "a_wf a" and run: "running a" and buf: "svc_buffered a"
  shows "case spec_acknowledge a of None \<Rightarrow> syscall_acknowledge s = None
         | Some a' \<Rightarrow> \<exists>t. syscall_acknowledge s = Some t \<and> abs_rel a' t"
proof -
  define p where "p = a_last a"
  define r where "r = registers (saved_context (a_procs a p))"
  note A = abs [unfolded abs_rel_def] and D = abs_onD [OF abs [unfolded abs_rel_def]]
  have p: "last_pid s = p" "p < MAX_PROC" "state (procs s p) = RUNNABLE" "p \<in> a_live a"
    using run by (auto simp: p_def running_def D a_live_def)
  have r: "reg s p i = r i" for i by (simp add: reg_def r_def D(2))
  have pw: "pid (procs s p) = p" and sdr32: "source_pid (receiver_data (procs s p)) < MAX_PROC"
    using a_wfD(1,3) [OF wf p(2)] p(3) by (simp_all add: D(2))
  define sdr where "sdr = source_pid (receiver_data (procs s p))"
  define f :: "proc_descriptor \<Rightarrow> proc_descriptor" where "f = receiver_data_update (\<lambda>d. d\<lparr>return_code := int_of_u64 (r 0)\<rparr>)"
  define a1 where "a1 = a_upd p f a"
  define s1 where "s1 = proc_upd p f s"
  have A1: "abs_on (a_live a) a1 s1"
    unfolding f_def s1_def a1_def by (intro abs_on_store A) simp_all
  have s1: "sender_data (procs s1 q) = sender_data (procs s q)" "state (procs s1 q) = state (procs s q)"
    "pid (procs s1 q) = pid (procs s q)" "buffer (procs s1 q) = buffer (procs s q)"
    "source_pid (receiver_data (procs s1 q)) = source_pid (receiver_data (procs s q))"
    "priority (procs s1 q) = priority (procs s q)" for q
    by (simp_all add: s1_def f_def)
  have live1: "a_live a1 = a_live a" by (auto simp: a_live_def a1_def f_def)
  define a2 where "a2 = a_upd p (\<lambda>d. buffer_update (used_size_update (\<lambda>_. 0)) (set_r0 0 d)) (a_upd sdr (ack_reply (procs s1 p)) a1)"
  define s2 where "s2 = proc_upd p (\<lambda>d. buffer_update (used_size_update (\<lambda>_. 0)) (set_r0 0 d)) (proc_upd sdr (ack_reply (procs s1 p)) s1)"
  have A2: "abs_on (a_live a) a2 s2"
    unfolding s2_def a2_def by (intro abs_on_store A1) simp_all
  have s2: "state (procs s2 q) = state (procs s q)" "priority (procs s2 q) = priority (procs s q)" for q
    by (simp_all add: s2_def ack_reply_def set_r0_def Let_def s1)
  have live2: "a_live a2 = a_live a"
    using abs_onD(2) [OF A2] by (auto simp: a_live_def s2 D(2))
  have spec: "spec_acknowledge a =
     (if r 2 > BUFF_SIZE then Some (a_fail p SEND_DATA_TOO_LARGE a)
      else if acknowledged (sender_data (procs s sdr)) \<or> state (procs s sdr) \<noteq> SENDING_CH
      then Some (a_fail p SOURCE_ALREADY_ACKNOWLEDGED a1)
      else if target_pid (sender_data (procs s sdr)) \<noteq> int p then None
      else Some (a_change sdr RUNNABLE a2))"
    unfolding spec_acknowledge_def Let_def p_def [symmetric] r_def [symmetric] f_def [symmetric]
      a1_def [symmetric]
    unfolding abs_onD(2) [OF A1] ack_reply_data D(2) proc_data_simps sdr_def [symmetric] a2_def [symmetric] ..
  have code: "syscall_acknowledge s =
     (if r 2 > BUFF_SIZE then Some (syscall_fail p SEND_DATA_TOO_LARGE s) else handle_channel_ack p sdr s1)"
    unfolding syscall_acknowledge_def Let_def p(1) r upd_receiver_def f_def [symmetric] s1_def [symmetric]
      s1 sdr_def [symmetric] ..
  have fits: "used_size (buffer (procs s1 p)) \<le> r 2"
    using buf by (simp add: svc_buffered_def r_def s1 D(2) flip: p_def)
  show ?thesis
  proof (cases "r 2 > BUFF_SIZE")
    case True
    then show ?thesis
      using syscall_fail_abs [OF A, of p] by (simp add: spec code abs_rel_def)
  next
    case False
    then have bs: "used_size (buffer (procs s1 p)) \<le> BUFF_SIZE" using fits by simp
    show ?thesis
    proof (cases "acknowledged (sender_data (procs s sdr)) \<or> state (procs s sdr) \<noteq> SENDING_CH")
      case True
      then have "handle_channel_ack p sdr s1 = Some (syscall_fail p SOURCE_ALREADY_ACKNOWLEDGED s1)"
        by (simp add: handle_channel_ack_def s1)
      then show ?thesis
        using True False syscall_fail_abs [OF A1, of p] live1 by (simp add: spec code abs_rel_def)
    next
      case ack: False
      then have ne: "sdr \<noteq> p" using p(3) by auto
      have prio: "prio_ok (priority (procs s2 sdr))"
        using a_wfD(4) [OF wf sdr32] ack by (simp add: s2 D(2) sdr_def)
      have sl: "sdr \<in> a_live a" using ack sdr32 by (simp add: a_live_def D(2) sdr_def)
      obtain t where t: "change_state sdr RUNNABLE s2 = Some t" "abs_on (a_live a) (a_change sdr RUNNABLE a2) t"
        by (rule change_state_abs [OF A2 sdr32 [folded sdr_def] subset_refl, of RUNNABLE]) (use prio ack in \<open>auto simp: s2\<close>)
      have "a_live (a_change sdr RUNNABLE a2) = a_live a"
        using sl live2 by (auto simp: a_live_def)
      then show ?thesis
        using ack False t handle_channel_ack_eq [OF ne bs] by (simp add: spec code abs_rel_def s1 pw s2_def)
    qed
  qed
qed


lemma a_connect_wf:
  assumes wf: "a_wf a" and "sdr \<noteq> rcv" "sdr < MAX_PROC" "rcv < MAX_PROC"
    and "state (a_procs a sdr) \<noteq> FREE" "state (a_procs a sdr) \<noteq> ZOMBIE" 
    and "state (a_procs a rcv) \<noteq> FREE" "state (a_procs a rcv) \<noteq> ZOMBIE" "state (a_procs a rcv) \<noteq> WAIT_LISTENER"
  shows "a_wf (a_connect sdr rcv a)"
proof -
  have "pid (a_procs a sdr) = sdr" using a_wfD(1) [OF wf] assms by simp
  then have "a_wf (a_upd rcv (deliver_msg (a_procs a sdr)) a)"
    using assms by (intro a_wf_upd) (auto simp: proc_ok_def deliver_msg_def set_r0_def)
  then have "a_wf (a_upd sdr message_sent (a_upd rcv (deliver_msg (a_procs a sdr)) a))"
    by (rule a_wf_upd) (auto simp: proc_ok_def message_sent_def)
  then have "a_wf (a_change rcv RUNNABLE (a_change sdr SENDING_CH
             (a_upd sdr message_sent (a_upd rcv (deliver_msg (a_procs a sdr)) a))))"
    using assms by (intro a_wf_change) (auto simp: proc_ok_def message_sent_def deliver_msg_def set_r0_def)
  then show ?thesis
    using a_wf_fail [OF wf] by (simp add: a_connect_def)
qed

lemma spec_send_wf:
  assumes wf: "a_wf a" and run: "running a" and buf: "svc_buffered a"
  shows "a_wf (spec_send a)"
proof -
  define p where "p = a_last a"
  define r where "r = registers (saved_context (a_procs a p))"
  define target where "target = int_of_u64 (r 0)"
  define a1 where "a1 = a_upd p (sender_data_update (\<lambda>d. d\<lparr>target_pid := target, send_size := r 2,
                                        ack_data := r 3, ack_size := r 4\<rparr>)) a"
  have p: "p < MAX_PROC" "state (a_procs a p) = RUNNABLE" using run by (simp_all add: running_def p_def)
  have wf1: "a_wf a1"
    unfolding a1_def using p by (intro a_wf_upd wf) (auto simp: proc_ok_def)
  have st: "state (a_procs a1 q) = state (a_procs a q)" for q by (simp add: a1_def)
  have "a_wf (a_connect p (nat target) a1)" if "state (a_procs a (nat target)) = LISTENING_CH" "nat target < MAX_PROC"
    using that p by (intro a_connect_wf wf1) (auto simp: st)
  moreover have "a_wf (a_change p WAIT_LISTENER a1)" if "r 2 \<le> BUFF_SIZE"
    using that p buf by (intro a_wf_change wf1) (auto simp: a1_def proc_ok_def svc_buffered_def r_def p_def)
  ultimately show ?thesis
    unfolding spec_send_def Let_def p_def [symmetric] r_def [symmetric] target_def [symmetric] a1_def [symmetric]
    using a_wf_fail [OF wf] by (auto simp: not_less)
qed

lemma spec_receive_wf:
  assumes wf: "a_wf a" and run: "running a"
  shows "a_wf (spec_receive a)"
proof -
  define p where "p = a_last a"
  define r where "r = registers (saved_context (a_procs a p))"
  define f :: "proc_descriptor \<Rightarrow> proc_descriptor" where
    "f = receiver_data_update (\<lambda>d. d\<lparr>receive_data := r 0, receive_size := r 1\<rparr>)"
  define a1 where "a1 = a_change p LISTENING_CH (a_upd p f a)"
  have p: "p < MAX_PROC" "state (a_procs a p) = RUNNABLE" using run by (simp_all add: running_def p_def)
  have wf1: "a_wf a1"
    unfolding a1_def using p by (intro a_wf_change a_wf_upd wf) (auto simp: proc_ok_def f_def)
  have "a_wf (a_connect i p a1)" if "a_waiting_sender a1 p = Some i" for i
  proof -
    from that have "i < MAX_PROC" "state (a_procs a1 i) = WAIT_LISTENER"
      by (auto simp: a_waiting_sender_def find_Some_iff)
    moreover have "state (a_procs a1 p) = LISTENING_CH" by (simp add: a1_def)
    ultimately show ?thesis using p by (intro a_connect_wf wf1) auto
  qed
  then show ?thesis
    unfolding spec_receive_def Let_def p_def [symmetric] r_def [symmetric] f_def [symmetric] a1_def [symmetric]
    using wf1 by (auto split: option.splits)
qed

lemma spec_acknowledge_wf:
  assumes wf: "a_wf a" and run: "running a" and spec: "spec_acknowledge a = Some b"
  shows "a_wf b"
proof -
  define p where "p = a_last a"
  define r where "r = registers (saved_context (a_procs a p))"
  define f :: "proc_descriptor \<Rightarrow> proc_descriptor" where "f = receiver_data_update (\<lambda>d. d\<lparr>return_code := int_of_u64 (r 0)\<rparr>)"
  define a1 where "a1 = a_upd p f a"
  define sdr where "sdr = source_pid (receiver_data (a_procs a p))"
  define a2 where "a2 = a_upd p (\<lambda>d. buffer_update (used_size_update (\<lambda>_. 0)) (set_r0 0 d)) (a_upd sdr (ack_reply (a_procs a1 p)) a1)"
  have p: "p < MAX_PROC" "state (a_procs a p) = RUNNABLE" using run by (simp_all add: running_def p_def)
  have wf1: "a_wf a1" unfolding a1_def f_def by (intro a_wf_upd wf) (auto simp: proc_ok_def)
  have wf2: "a_wf a2" if "state (a_procs a sdr) = SENDING_CH"
    unfolding a2_def
    by (intro a_wf_upd wf1) (use p that in \<open>auto simp: proc_ok_def ack_reply_def set_r0_def Let_def a1_def f_def\<close>)
  have "state (a_procs a2 sdr) = state (a_procs a sdr)"
    by (simp add: a2_def a1_def f_def ack_reply_def set_r0_def Let_def)
  then have "a_wf (a_change sdr RUNNABLE a2)" if "state (a_procs a sdr) = SENDING_CH"
    using that by (intro a_wf_change wf2) (auto simp: proc_ok_def)
  then show ?thesis
    using spec a_wf_fail [OF wf] a_wf_fail [OF wf1]
    unfolding spec_acknowledge_def Let_def p_def [symmetric] r_def [symmetric] f_def [symmetric] a1_def [symmetric]
      sdr_def [symmetric] a2_def [symmetric]
    by (auto split: if_splits)
qed

section \<open>Properties\<close>

text \<open>
  C15. \<open>syscall_send\<close> implements its specification and always returns, whatever the registers
  hold: a target that is no pid, a target that does not listen (when the caller does not want to
  wait) and a message larger than the buffer are refused with their error codes; a listening target
  gets the message at once and the sender waits for the acknowledgement; otherwise the sender
  waits for a listener. None of the assertions of the code fails.
\<close>

theorem syscall_send_refines:
  assumes "abs_rel a s" and "a_wf a" and "running a" and "svc_buffered a"
  shows "\<exists>t. syscall_send s = Some t \<and> abs_rel (spec_send a) t \<and> a_wf (spec_send a)"
  using syscall_send_abs [OF assms] spec_send_wf [OF assms(2-4)] by blast

theorem syscall_send_refines_witness:
  "abs_rel example_abs example_sys \<and> a_wf example_abs \<and> running example_abs \<and> svc_buffered example_abs \<and>
   (\<exists>t. syscall_send example_sys = Some t \<and> abs_rel (spec_send example_abs) t \<and> a_wf (spec_send example_abs))"
  using syscall_send_refines [OF example_rel example_wf example_running example_buffered]
    example_rel example_wf example_running example_buffered by blast

text \<open>
  C16. \<open>syscall_receive\<close> implements its specification and always returns: the caller starts to
  listen and, when some process waits to send to it, the first such process is connected at once.
\<close>

theorem syscall_receive_refines:
  assumes "abs_rel a s" and "a_wf a" and "running a"
  shows "\<exists>t. syscall_receive s = Some t \<and> abs_rel (spec_receive a) t \<and> a_wf (spec_receive a)"
  using syscall_receive_abs [OF assms] spec_receive_wf [OF assms(2,3)] by blast

theorem syscall_receive_refines_witness:
  "abs_rel example_abs example_sys \<and> a_wf example_abs \<and> running example_abs \<and>
   (\<exists>t. syscall_receive example_sys = Some t \<and> abs_rel (spec_receive example_abs) t \<and> a_wf (spec_receive example_abs))"
  using syscall_receive_refines [OF example_rel example_wf example_running]
    example_rel example_wf example_running by blast

text \<open>
  C17. \<open>syscall_acknowledge\<close> implements its specification: the kernel stops at an assertion exactly
  when the process that was last received from waits for the acknowledgement of somebody else; in
  every other case the call returns, with an error code when there is nothing to acknowledge, and
  otherwise with the reply (return code and at most \<open>ack_size\<close> bytes) given to the sender.
\<close>

theorem syscall_acknowledge_refines:
  assumes "abs_rel a s" and "a_wf a" and "running a" and "svc_buffered a"
  shows "case spec_acknowledge a of None \<Rightarrow> syscall_acknowledge s = None
         | Some a' \<Rightarrow> \<exists>t. syscall_acknowledge s = Some t \<and> abs_rel a' t \<and> a_wf a'"
  using syscall_acknowledge_abs [OF assms] spec_acknowledge_wf [OF assms(2,3)]
  by (cases "spec_acknowledge a") auto

theorem syscall_acknowledge_refines_witness:
  "abs_rel example_abs example_sys \<and> a_wf example_abs \<and> running example_abs \<and> svc_buffered example_abs \<and>
   (case spec_acknowledge example_abs of None \<Rightarrow> syscall_acknowledge example_sys = None
    | Some a' \<Rightarrow> \<exists>t. syscall_acknowledge example_sys = Some t \<and> abs_rel a' t \<and> a_wf a')"
  using syscall_acknowledge_refines [OF example_rel example_wf example_running example_buffered]
    example_rel example_wf example_running example_buffered by blast

end
