(* ===== verification/Scheduler.thy ===== *)
theory Scheduler
  imports Kernel_State Channels
begin

text \<open>
  The scheduler and the switch to a process, on the abstract process table. \<open>sched_pick\<close> is the
  priority that the scheduler chooses, \<open>a_dispatch\<close> what running the first process of a queue does
  to the table, \<open>loaded\<close> what the processor holds then. \<open>schedule\<close> is shown to implement them without
  failing any of its assertions.
\<close>

section \<open>Walking the ready lists\<close>

lemma prio_walk_ring:
  assumes "successively (linked (\<lambda>p. next_same_prio (procs s p)) (\<lambda>p. prev_same_prio (procs s p))) (p # bs @ [h])"
    and "h \<notin> set bs" and "length bs < fuel"
    and "\<And>q. q \<in> set (p # bs) \<Longrightarrow> priority (procs s q) = int k \<and> state (procs s q) = RUNNABLE"
  shows "prio_walk fuel s k h p = Some ()"
  using assms
proof (induction bs arbitrary: p fuel)
  case Nil
  then show ?case by (cases fuel) (auto simp: linked_def)
next
  case (Cons b bs)
  then obtain n where n: "fuel = Suc n" by (cases fuel) auto
  have "prio_walk n s k h b = Some ()"
    using Cons.prems n by (intro Cons.IH) auto
  with Cons.prems n show ?case by (auto simp: linked_def)
qed

lemma print_prio_lists_total:
  assumes rel: "sched_rel rq s"
  shows "print_prio_lists s = Some ()"
proof -
  have body: "(case prio_proc s k of None \<Rightarrow> Some () | Some h \<Rightarrow> prio_walk MAX_PROC s k h h) = Some ()"
    if k: "k \<le> MAX_PRIO" for k
  proof (cases "rq k")
    case Nil
    then show ?thesis by (simp add: sched_relD(2) [OF rel k])
  next
    case (Cons h bs)
    have r: "ring (\<lambda>p. next_same_prio (procs s p)) (\<lambda>p. prev_same_prio (procs s p)) (h # bs)"
      using sched_relD(1) [OF rel k] Cons by (simp add: sched_ring_def)
    have "prio_walk MAX_PROC s k h h = Some ()"
      using ring_distinct [OF r] queue_length_le [OF rel k] Cons sched_relD(4) [OF rel k]
      by (intro prio_walk_ring [OF ring_chain [OF r]]) auto
    then show ?thesis by (simp add: sched_relD(2) [OF rel k] Cons)
  qed
  have "\<exists>u. print_prio_lists s = Some u \<and> True"
    unfolding print_prio_lists_def
    by (rule for_range_total [of "\<lambda>_ _. True"]) (use body in simp_all)
  then show ?thesis by simp
qed

section \<open>The choice of a priority\<close>

definition sched_pick :: "u64 \<Rightarrow> ready_queues \<Rightarrow> nat option" where
  "sched_pick cntpct rq =
     (if \<forall>k\<in>set [0..<Suc MAX_PRIO]. rq k = [] then None
      else if rq MAX_PRIO \<noteq> [] then Some MAX_PRIO
      else if \<forall>k\<in>set [1..<Suc MAX_PRIO]. rq k = [] then Some 0
      else Some (random_law cntpct
             (map (\<lambda>i. if i = 0 \<or> rq i = [] then 0 else of_nat (i * i + length (rq i))) [0..<MAX_PRIO])))"

lemma sched_law_eq:
  assumes rel: "sched_rel rq s"
  shows "sched_law s = map (\<lambda>i. if i = 0 \<or> rq i = [] then 0 else of_nat (i * i + length (rq i))) [0..<MAX_PRIO]"
proof -
  have "prio_proc_n s i > 0 \<longleftrightarrow> rq i \<noteq> []" if "i < MAX_PRIO" for i
  proof -
    have "unat (of_nat (length (rq i)) :: u32) = length (rq i)"
      using queue_length_le [OF rel, of i] that by (simp add: unat_of_nat take_bit_nat_eq_self)
    then show ?thesis
      using sched_relD(3) [OF rel, of i] that by (simp add: word_less_nat_alt)
  qed
  then show ?thesis
    using sched_relD(3) [OF rel] by (auto simp: sched_law_def)
qed

lemma weight_positive: "w \<in> set law \<Longrightarrow> w \<noteq> 0 \<Longrightarrow> 0 < weight law"
  by (induction law) (auto simp: unat_gt_0)

lemma sched_pick_queue:
  assumes rel: "sched_rel rq s" and pick: "sched_pick cntpct rq = Some k"
  shows "k \<le> MAX_PRIO" and "rq k \<noteq> []"
proof -
  define law :: "u32 list" where
    "law = map (\<lambda>i. if i = 0 \<or> rq i = [] then 0 else of_nat (i * i + length (rq i))) [0..<MAX_PRIO]"
  have nz: "unat (of_nat (i * i + length (rq i)) :: u32) = i * i + length (rq i)" if "i < MAX_PRIO" for i
  proof -
    have "i * i \<le> MAX_PRIO * MAX_PRIO" using that by (intro mult_le_mono) auto
    then have "i * i + length (rq i) < 2 ^ 32"
      using queue_length_le [OF rel, of i] that by auto
    then show ?thesis by (simp only: unat_of_nat take_bit_nat_eq_self_iff len_bit0 len_num1 mult_1_right mult_numeral_1 numeral_times_numeral) simp
  qed
  have "k \<le> MAX_PRIO \<and> rq k \<noteq> []"
  proof (cases "rq MAX_PRIO = [] \<and> (\<exists>j\<in>set [1..<Suc MAX_PRIO]. rq j \<noteq> [])")
    case True
    then obtain j where j: "1 \<le> j" "j < MAX_PRIO" "rq j \<noteq> []"
      by (metis One_nat_def Suc_leI atLeastLessThan_iff le_neq_implies_less less_Suc_eq_le set_upt)
    have k: "k = random_law cntpct law"
      using pick True by (auto simp: sched_pick_def law_def split: if_splits)
    have "law ! j = of_nat (j * j + length (rq j))" "j < length law"
      using j by (simp_all add: law_def)
    moreover from this(2) have "law ! j \<in> set law" by (rule nth_mem)
    ultimately have "law ! j \<in> set law" "unat (law ! j) \<noteq> 0"
      using nz [of j] j by (simp_all only:) auto
    then have "0 < weight law"
      by (intro weight_positive [of "law ! j"]) auto
    moreover have "weight law < 2 ^ 64"
      using weight_bound [of law] by (simp add: law_def)
    ultimately have "k < length law" "0 < unat (law ! k)"
      using random_law_positive k by auto
    then show ?thesis by (auto simp: law_def split: if_splits)
  next
    case False
    have "set [0..<Suc MAX_PRIO] = insert 0 (set [1..<Suc MAX_PRIO])" by auto
    with False show ?thesis
      using pick unfolding sched_pick_def by (auto simp del: set_upt split: if_splits)
  qed
  then show "k \<le> MAX_PRIO" and "rq k \<noteq> []" by auto
qed

lemma sched_pick_none:
  assumes rel: "sched_rel rq s" and k: "k \<le> MAX_PRIO"
  shows "sched_pick cntpct rq = None \<longleftrightarrow> n_runnable_procs s = 0"
    and "0 < prio_proc_n s k \<longleftrightarrow> rq k \<noteq> []"
    and "n_runnable_procs s = prio_proc_n s 0 \<longleftrightarrow> (\<forall>j\<in>set [1..<Suc MAX_PRIO]. rq j = [])"
proof -
  define n where "n = (\<Sum>j\<le>MAX_PRIO. length (rq j))"
  have un: "unat (n_runnable_procs s) = n"
  proof -
    have "n_runnable_procs s = of_nat n" and "n < 2 ^ 32"
      using total_length_le [OF rel] rel unfolding sched_rel_def n_def by auto
    then show ?thesis by (simp add: unat_of_nat take_bit_nat_eq_self)
  qed
  have uk: "unat (prio_proc_n s j) = length (rq j)" if "j \<le> MAX_PRIO" for j
    using queue_length_le [OF rel that] sched_relD(3) [OF rel that] by (simp add: unat_of_nat take_bit_nat_eq_self)
  show "0 < prio_proc_n s k \<longleftrightarrow> rq k \<noteq> []"
    using uk [OF k] by (simp add: word_less_nat_alt)
  have "n_runnable_procs s = 0 \<longleftrightarrow> n = 0"
    using un by (simp add: word_unat_eq_iff)
  also have "\<dots> \<longleftrightarrow> (\<forall>j\<in>set [0..<Suc MAX_PRIO]. rq j = [])"
    unfolding n_def by (subst sum_eq_0_iff) auto
  finally show "sched_pick cntpct rq = None \<longleftrightarrow> n_runnable_procs s = 0"
    by (simp add: sched_pick_def)
  have "{..MAX_PRIO} = insert 0 (set [1..<Suc MAX_PRIO])" by auto
  then have "n = length (rq 0) + (\<Sum>j\<in>set [1..<Suc MAX_PRIO]. length (rq j))"
    by (simp add: n_def)
  moreover have "n_runnable_procs s = prio_proc_n s 0 \<longleftrightarrow> n = length (rq 0)"
    using un uk [of 0] by (simp add: word_unat_eq_iff)
  ultimately have "n_runnable_procs s = prio_proc_n s 0 \<longleftrightarrow> (\<Sum>j\<in>set [1..<Suc MAX_PRIO]. length (rq j)) = 0"
    by simp
  also have "\<dots> \<longleftrightarrow> (\<forall>j\<in>set [1..<Suc MAX_PRIO]. rq j = [])"
    by (subst sum_eq_0_iff) auto
  finally show "n_runnable_procs s = prio_proc_n s 0 \<longleftrightarrow> (\<forall>j\<in>set [1..<Suc MAX_PRIO]. rq j = [])" .
qed

lemma schedule_pick:
  assumes rel: "sched_rel rq (k_sys k)"
  shows "schedule cntpct k =
     (case sched_pick cntpct rq of None \<Rightarrow> Some (Halted, k) | Some prio \<Rightarrow> run_priority prio k)"
  using print_prio_lists_total [OF rel] sched_pick_none(1) [OF rel order_refl, of cntpct]
    sched_pick_none(2) [OF rel, of MAX_PRIO] sched_pick_none(3) [OF rel order_refl]
    sched_law_eq [OF rel]
  by (auto simp: schedule_def sched_pick_def Let_def split: if_splits)

section \<open>Switching to a process\<close>

definition load_conf :: "alloc_state \<Rightarrow> mem_conf_t \<Rightarrow> mem_conf_t" where
  "load_conf al c = c\<lparr>conf_heap_begin := heap_begin al, conf_end_offset := end_offset al,
                      conf_global_base := global_base al\<rparr>"

definition entered :: "proc_descriptor \<Rightarrow> proc_descriptor" where
  "entered d = buffer_update (\<lambda>b. b\<lparr>write_addr := 0, used_size := 0\<rparr>) (initialized_update (\<lambda>_. True) d)"

definition msg_ok :: "buffer_t \<Rightarrow> bool" where
  "msg_ok b \<longleftrightarrow> write_addr b = 0 \<or> used_size b \<le> BUFF_SIZE"

definition delivered :: "buffer_t \<Rightarrow> (u64 \<Rightarrow> u8) \<Rightarrow> u64 \<Rightarrow> u8" where
  "delivered b h x = (if write_addr b \<noteq> 0 \<and> unat (x - write_addr b) < unat (used_size b)
                      then buff b (unat (x - write_addr b)) else h x)"

text \<open>What the processor and the globals of the kernel hold when the process with the descriptor \<open>d\<close> runs.\<close>

definition loaded :: "proc_descriptor \<Rightarrow> kernel_state \<Rightarrow> kernel_state \<Rightarrow> bool" where
  "loaded d k k' \<longleftrightarrow>
     k_err k' = proc_err d \<and> k_sctlr k' = sctlr_el1 (saved_context d) \<and>
     k_mmu k' = (k_mmu k)\<lparr>TTBR0_EL1 := ttbr0_el1 (mem_conf d)\<rparr> \<and>
     k_timer k' = (if preempt (sched_conf d) then start_countdown (time_left (sched_conf d)) (k_timer k) else k_timer k) \<and>
     heap_begin (k_alloc k') = conf_heap_begin (mem_conf d) \<and>
     end_offset (k_alloc k') = conf_end_offset (mem_conf d) \<and>
     global_base (k_alloc k') = conf_global_base (mem_conf d) \<and>
     heap (k_alloc k') = delivered (buffer d) (heap (k_alloc k))"

lemma write_buff_svc_msg:
  assumes "p = curr_pid (k_sys k)" and "b = buffer (procs (k_sys k) p)" and "msg_ok b"
  shows "write_buff_svc k = Some (k\<lparr>
     k_sys := proc_upd p (buffer_update (\<lambda>b. b\<lparr>write_addr := 0, used_size := 0\<rparr>)) (k_sys k),
     k_alloc := (k_alloc k)\<lparr>heap := delivered b (heap (k_alloc k))\<rparr>\<rparr>)"
  using assms(3) unfolding assms(2) assms(1)
  by (cases k; cases "write_addr (buffer (procs (k_sys k) (curr_pid (k_sys k)))) = 0")
     (simp_all add: write_buff_svc_def Let_def k_proc_upd_def msg_ok_def delivered_def [abs_def] cong: if_cong)

lemma run_process_loaded:
  assumes d: "d = procs (k_sys k) p" and p: "0 < p" "pid d = p" "state d = RUNNABLE" "initialized d"
    and t: "\<not> preempt (sched_conf d) \<or> time_left (sched_conf d) > 0"
    and c: "curr_pid (k_sys k) = 0" and b: "msg_ok (buffer d)"
  obtains k' where "run_process p k = Some (Running, k')" and "loaded d k k'"
    and "k_sys k' = (proc_upd p entered (proc_upd KERNEL_PID (mem_conf_update (load_conf (k_alloc k))) (k_sys k)))\<lparr>curr_pid := p\<rparr>"
proof -
  define k1 where "k1 = (save_alloc_conf KERNEL_PID k)"
  define k2 where "k2 = k1\<lparr>k_sys := (k_sys k1)\<lparr>curr_pid := p\<rparr>\<rparr>"
  define k3 where "k3 = k_proc_upd p (initialized_update (\<lambda>_. True)) (restore_errno p (restore_alloc_conf p k2))"
  define k4 where "k4 = (if preempt (sched_conf d) then k3\<lparr>k_timer := start_countdown (time_left (sched_conf d)) (k_timer k)\<rparr> else k3)\<lparr>k_sctlr := sctlr_el1 (saved_context d), k_mmu := (k_mmu k)\<lparr>TTBR0_EL1 := ttbr0_el1 (mem_conf d)\<rparr>\<rparr>"
  have k1: "procs (k_sys k1) p = d" "k_timer k1 = k_timer k" "k_mmu k1 = k_mmu k" "heap (k_alloc k1) = heap (k_alloc k)"
    "curr_pid (k_sys k1) = 0"
    "k_sys k1 = proc_upd KERNEL_PID (mem_conf_update (load_conf (k_alloc k))) (k_sys k)"
    using d p c by (simp_all add: k1_def save_alloc_conf_def k_proc_upd_def load_conf_def [abs_def])
  have k3: "procs (k_sys k3) p = d\<lparr>initialized := True\<rparr>" "k_timer k3 = k_timer k" "k_mmu k3 = k_mmu k"
    "heap (k_alloc k3) = heap (k_alloc k)" "curr_pid (k_sys k3) = p" "k_err k3 = proc_err d"
    "heap_begin (k_alloc k3) = conf_heap_begin (mem_conf d)" "end_offset (k_alloc k3) = conf_end_offset (mem_conf d)"
    "global_base (k_alloc k3) = conf_global_base (mem_conf d)"
    "k_sys k3 = (proc_upd p (initialized_update (\<lambda>_. True)) (k_sys k1))\<lparr>curr_pid := p\<rparr>"
    using k1 by (simp_all add: k3_def k2_def k_proc_upd_def restore_errno_def restore_alloc_conf_def Let_def proc_upd_def)
  have "run_process p k = switch_to_proc p k2"
    using p t c k1(1) d by (simp add: run_process_def Let_def k2_def k1_def)
  moreover have "switch_to_proc p k2 = write_buff_svc k4 \<bind> (\<lambda>k. Some (Running, k))"
    using k3(1-3) by (simp add: switch_to_proc_def Let_def restore_and_run_def k4_def flip: k3_def)
  ultimately have "run_process p k = write_buff_svc k4 \<bind> (\<lambda>k. Some (Running, k))" by simp
  moreover have k4: "k_sys k4 = k_sys k3" "k_alloc k4 = k_alloc k3" "k_err k4 = k_err k3"
    "k_sctlr k4 = sctlr_el1 (saved_context d)" "k_mmu k4 = (k_mmu k)\<lparr>TTBR0_EL1 := ttbr0_el1 (mem_conf d)\<rparr>"
    "k_timer k4 = (if preempt (sched_conf d) then start_countdown (time_left (sched_conf d)) (k_timer k) else k_timer k)"
    by (simp_all add: k4_def k3)
  then have "write_buff_svc k4 = Some (k4\<lparr>
     k_sys := proc_upd p (buffer_update (\<lambda>b. b\<lparr>write_addr := 0, used_size := 0\<rparr>)) (k_sys k3),
     k_alloc := (k_alloc k3)\<lparr>heap := delivered (buffer d) (heap (k_alloc k))\<rparr>\<rparr>)"
    using write_buff_svc_msg [of p k4 "buffer d"] b by (simp add: k3(1,4,5))
  ultimately show ?thesis
    using that [OF _ _ _] by (simp add: loaded_def k4 k3(6-9)) (simp add: k3(10) k1(6) entered_def [abs_def] proc_upd_def)
qed

section \<open>The scheduler on the abstract table\<close>

lemma data_store_conf [simp]:
  "data_store (sched_conf_update g)" "data_store (mem_conf_update h)" "data_store (initialized_update i)"
  "data_store entered"
  by (simp_all add: data_store_def proc_data_def entered_def)

definition refill :: "proc_descriptor \<Rightarrow> proc_descriptor" where
  "refill d = (if time_left (sched_conf d) = 0 then sched_conf_update (time_left_update (\<lambda>_. QUANTUM)) d else d)"

lemma refill_simps [simp]:
  "data_store refill" "state (refill d) = state d" "pid (refill d) = pid d" "buffer (refill d) = buffer d"
  "initialized (refill d) = initialized d" "saved_context (refill d) = saved_context d"
  "proc_err (refill d) = proc_err d" "mem_conf (refill d) = mem_conf d" "preempt (sched_conf (refill d)) = preempt (sched_conf d)"
  "0 < time_left (sched_conf (refill d))"
  by (auto simp: refill_def data_store_def proc_data_def timer_constants word_gt_0)

definition a_rotate :: "nat \<Rightarrow> abs_state \<Rightarrow> abs_state" where
  "a_rotate prio a = a\<lparr>a_ready := (a_ready a)(prio := rotate1 (a_ready a prio))\<rparr>"

text \<open>The table when process \<open>p\<close> has been given the processor; \<open>al\<close> is the heap of the kernel.\<close>

definition a_enter :: "alloc_state \<Rightarrow> nat \<Rightarrow> abs_state \<Rightarrow> abs_state" where
  "a_enter al p a = a_upd p entered (a_upd KERNEL_PID (mem_conf_update (load_conf al)) a)"

definition a_dispatch :: "alloc_state \<Rightarrow> nat \<Rightarrow> abs_state \<Rightarrow> abs_state" where
  "a_dispatch al prio a = (let p = hd (a_ready a prio) in a_enter al p (a_upd p refill (a_rotate prio a)))"

definition desc_ok :: "nat \<Rightarrow> proc_descriptor \<Rightarrow> bool" where
  "desc_ok q d \<longleftrightarrow> (q = KERNEL_PID \<longrightarrow> state d = KERNEL) \<and>
     (q \<noteq> KERNEL_PID \<and> state d \<noteq> FREE \<longrightarrow> initialized d \<and> msg_ok (buffer d) \<and> \<not> preempt (sched_conf d))"

definition all_ok :: "abs_state \<Rightarrow> bool" where
  "all_ok a \<longleftrightarrow> (\<forall>q<MAX_PROC. desc_ok q (a_procs a q))"

lemma rotate_abs:
  assumes A: "abs_on L a s" and k: "prio \<le> MAX_PRIO" and q: "a_ready a prio = p # ps"
  shows "prio_proc s prio = Some p"
    and "abs_on L (a_rotate prio a) (set_prio_proc prio (next_same_prio (procs s p)) s)" (is "abs_on L _ ?t")
proof -
  note D = abs_onD [OF A]
  show "prio_proc s prio = Some p" using sched_relD(2) [OF D(3) k] q by simp
  have R: "ring (\<lambda>p. next_same_prio (procs s p)) (\<lambda>p. prev_same_prio (procs s p)) (p # ps)"
    using sched_relD(1) [OF D(3) k] q by (simp add: sched_ring_def)
  have nx: "next_same_prio (procs s p) = head_ptr (ps @ [p])"
    using ring_hd_links(1) [OF R] by (cases ps) auto
  have "queue_ok (a_ready a j) j s" if "j \<le> MAX_PRIO" for j
    using D(3) that by (simp add: sched_rel_def)
  then have Q: "queue_ok (a_ready a j) j ?t" if "j \<le> MAX_PRIO" "j \<noteq> prio" for j
    using that by (intro queue_ok_cong [where s = s and t = ?t]) simp_all
  have "ring (\<lambda>p. next_same_prio (procs s p)) (\<lambda>p. prev_same_prio (procs s p)) (ps @ [p])"
    using ring_rotate [of _ _ "[p]" ps] R by simp
  moreover have "q \<in> set (ps @ [p]) \<longleftrightarrow>
      q < MAX_PROC \<and> state (procs s q) = RUNNABLE \<and> priority (procs s q) = int prio" for q
    using sched_relD(4) [OF D(3) k, of q] q by auto
  ultimately have qk: "queue_ok (ps @ [p]) prio ?t"
    using sched_relD(3) [OF D(3) k] q by (simp add: queue_ok_def sched_ring_def nx)
  have "sched_rel ((a_ready a)(prio := ps @ [p])) ?t"
  proof (rule sched_rel_update [OF D(3) k Q qk])
    show "prio_ok (priority (procs ?t q))" if "q < MAX_PROC" "state (procs ?t q) = RUNNABLE" for q
      using D(3) that unfolding sched_rel_def by simp
  qed (simp_all add: q)
  moreover have "tree_on L (a_kids a) ?t"
    by (rule tree_on_cong [OF D(4) subset_refl]) (auto simp: user_proc_def)
  ultimately show "abs_on L (a_rotate prio a) ?t"
    by (simp add: abs_on_def a_rotate_def D(1,2) q)
qed

lemma abs_on_curr: "abs_on L a (s\<lparr>curr_pid := c\<rparr>) = abs_on L a s"
proof -
  have "sched_rel rq (s\<lparr>curr_pid := c\<rparr>) = sched_rel rq s" for rq
    by (auto elim: sched_rel_cong)
  moreover have "tree_on L K (s\<lparr>curr_pid := c\<rparr>) = tree_on L K s" for K
    by (auto elim!: tree_on_cong simp: user_proc_def)
  ultimately show ?thesis by (simp add: abs_on_def)
qed

lemma enter_abs:
  assumes "abs_on L a s"
  shows "abs_on L (a_enter al p a)
    ((proc_upd p entered (proc_upd KERNEL_PID (mem_conf_update (load_conf al)) s))\<lparr>curr_pid := p\<rparr>)"
  unfolding abs_on_curr a_enter_def by (intro abs_on_store assms) simp_all

lemma a_live_enter [simp]:
  "a_live (a_enter al p a) = a_live a" "a_live (a_rotate prio a) = a_live a" "a_live (a_upd p refill a) = a_live a"
  by (auto simp: a_live_def a_enter_def entered_def a_rotate_def)

lemma run_priority_abs:
  assumes abs: "abs_rel a (k_sys k)" and wf: "a_wf a" and ok: "all_ok a" and c: "curr_pid (k_sys k) = 0"
    and prio: "prio \<le> MAX_PRIO" "a_ready a prio = p # ps"
  shows "\<exists>k'. run_priority prio k = Some (Running, k') \<and> loaded (refill (a_procs a p)) k k' \<and> curr_pid (k_sys k') = p \<and>
           abs_rel (a_dispatch (k_alloc k) prio a) (k_sys k')"
proof -
  note A = abs [unfolded abs_rel_def]
  note D = abs_onD [OF A] and rot = rotate_abs [OF A prio]
  define s1 where "s1 = set_prio_proc prio (next_same_prio (procs (k_sys k) p)) (k_sys k)"
  define s2 where "s2 = proc_upd p refill s1"
  define a2 where "a2 = a_upd p refill (a_rotate prio a)"
  have A2: "abs_on (a_live a) a2 s2"
    unfolding a2_def s2_def s1_def by (intro abs_on_store rot) simp
  have p: "p < MAX_PROC" "state (procs (k_sys k) p) = RUNNABLE"
    using sched_relD(4) [OF D(3) prio(1), of p] prio(2) by auto
  then have ok_p: "desc_ok p (a_procs a p)" and pid_p: "pid (procs (k_sys k) p) = p"
    using ok a_wfD(1) [OF wf p(1)] by (auto simp: all_ok_def D)
  have p0: "0 < p" using ok_p p(2) by (cases "p = 0") (simp_all add: desc_ok_def D)
  have d: "procs s2 p = refill (procs (k_sys k) p)" by (simp add: s2_def s1_def)
  have code: "run_priority prio k = run_process p (k\<lparr>k_sys := s2\<rparr>)"
    using rot(1) by (simp add: run_priority_def s2_def s1_def [symmetric] refill_def k_proc_upd_def proc_upd_def Let_def)
      (simp add: s1_def)
  obtain k' where k': "run_process p (k\<lparr>k_sys := s2\<rparr>) = Some (Running, k')" "loaded (procs s2 p) (k\<lparr>k_sys := s2\<rparr>) k'"
    "k_sys k' = (proc_upd p entered (proc_upd KERNEL_PID (mem_conf_update (load_conf (k_alloc k))) s2))\<lparr>curr_pid := p\<rparr>"
    by (rule run_process_loaded [of "procs s2 p" "k\<lparr>k_sys := s2\<rparr>" p])
       (use p p0 pid_p ok_p c in \<open>simp_all add: d D desc_ok_def s2_def s1_def\<close>)
  have "loaded (refill (a_procs a p)) k k'"
    using k'(2) by (simp add: loaded_def d D) (simp add: refill_def)
  moreover have "abs_rel (a_dispatch (k_alloc k) prio a) (k_sys k')"
    using enter_abs [OF A2, of "k_alloc k" p] prio(2) k'(3)
    by (simp add: abs_rel_def a_dispatch_def a2_def Let_def)
  ultimately show ?thesis
    using code k' by simp
qed

section \<open>Invariance\<close>

lemma a_wf_rotate [simp]: "a_wf (a_rotate prio a) = a_wf a"
  by (simp add: a_wf_def a_rotate_def)

lemma enter_ok:
  "proc_ok q d \<Longrightarrow> proc_ok q (refill d)" "proc_ok q d \<Longrightarrow> proc_ok q (entered d)"
  "proc_ok q d \<Longrightarrow> proc_ok q (mem_conf_update f d)" "desc_ok q d \<Longrightarrow> desc_ok q (refill d)"
  "desc_ok q d \<Longrightarrow> desc_ok q (entered d)" "desc_ok q d \<Longrightarrow> desc_ok q (mem_conf_update f d)"
  by (auto simp: proc_ok_def desc_ok_def entered_def refill_def msg_ok_def)

lemma a_wf_enter: "a_wf a \<Longrightarrow> a_wf (a_enter al p a)"
  unfolding a_enter_def by (intro a_wf_upd enter_ok)

lemma a_wf_dispatch: "a_wf a \<Longrightarrow> a_wf (a_dispatch al prio a)"
  unfolding a_dispatch_def Let_def by (intro a_wf_enter a_wf_upd enter_ok) simp_all

lemma all_ok_upd: "all_ok a \<Longrightarrow> (desc_ok p (a_procs a p) \<Longrightarrow> desc_ok p (f (a_procs a p))) \<Longrightarrow> all_ok (a_upd p f a)"
  by (auto simp: all_ok_def)

lemma all_ok_rotate [simp]: "all_ok (a_rotate prio a) = all_ok a"
  by (simp add: all_ok_def a_rotate_def)

lemma all_ok_enter: "all_ok a \<Longrightarrow> all_ok (a_enter al p a)"
  unfolding a_enter_def by (intro all_ok_upd enter_ok)

lemma all_ok_dispatch: "all_ok a \<Longrightarrow> all_ok (a_dispatch al prio a)"
  unfolding a_dispatch_def Let_def by (intro all_ok_enter all_ok_upd enter_ok) simp_all

section \<open>Properties\<close>

lemma schedule_abs:
  assumes "abs_rel a (k_sys k)" and "a_wf a" and "all_ok a" and "curr_pid (k_sys k) = 0"
  shows "case sched_pick cntpct (a_ready a) of
           None \<Rightarrow> schedule cntpct k = Some (Halted, k)
         | Some prio \<Rightarrow> \<exists>p ps k'. prio \<le> MAX_PRIO \<and> a_ready a prio = p # ps \<and> schedule cntpct k = Some (Running, k') \<and>
             curr_pid (k_sys k') = p \<and> loaded (refill (a_procs a p)) k k' \<and>
             abs_rel (a_dispatch (k_alloc k) prio a) (k_sys k')"
proof -
  note rel = abs_onD(3) [OF assms(1) [unfolded abs_rel_def]]
  show ?thesis
  proof (cases "sched_pick cntpct (a_ready a)")
    case None
    then show ?thesis by (simp add: schedule_pick [OF rel])
  next
    case (Some prio)
    obtain p ps where q: "a_ready a prio = p # ps"
      using sched_pick_queue(2) [OF rel Some] by (cases "a_ready a prio") auto
    show ?thesis
      using run_priority_abs [OF assms sched_pick_queue(1) [OF rel Some] q] sched_pick_queue(1) [OF rel Some] q
      by (auto simp: schedule_pick [OF rel] Some)
  qed
qed

text \<open>
  C11. The scheduler never fails one of its assertions and never follows a null link: it halts the
  machine exactly when no process is runnable; otherwise it takes the priority \<open>sched_pick\<close> (15 when
  a process of priority 15 is runnable, 0 only when nothing else is, and a priority drawn by
  \<open>random_law\<close> otherwise), gives the processor to the first process of that queue and moves it to the
  end of the queue. The processor then holds the context of the process: its translation table,
  heap limits, error number and control register, with a pending message written to its memory.
\<close>

theorem schedule_refines:
  assumes "abs_rel a (k_sys k)" and "a_wf a" and "all_ok a" and "curr_pid (k_sys k) = 0"
  shows "case sched_pick cntpct (a_ready a) of
           None \<Rightarrow> schedule cntpct k = Some (Halted, k)
         | Some prio \<Rightarrow> \<exists>p ps k'. a_ready a prio = p # ps \<and> schedule cntpct k = Some (Running, k') \<and>
             curr_pid (k_sys k') = p \<and> loaded (refill (a_procs a p)) k k' \<and>
             abs_rel (a_dispatch (k_alloc k) prio a) (k_sys k') \<and>
             a_wf (a_dispatch (k_alloc k) prio a) \<and> all_ok (a_dispatch (k_alloc k) prio a)"
  using schedule_abs [OF assms, of cntpct] a_wf_dispatch [OF assms(2)] all_ok_dispatch [OF assms(3)]
  by (auto split: option.splits)

definition example_kernel :: kernel_state where
  "example_kernel = \<lparr>k_sys = example_sys, k_mmu = example_mmu,
     k_timer = \<lparr>timer_on = False, mmio32 = (\<lambda>_. 0), daif = 0, cntkctl_el1 = 0\<rparr>,
     k_alloc = \<lparr>heap_begin = 0x4400000, end_offset = 0, global_base = 0, heap = (\<lambda>_. 0), requests = []\<rparr>,
     k_err = \<lparr>err_no = OK, err_data = 0\<rparr>, k_sctlr = 0\<rparr>"

lemma example_kernel_sys [simp]: "k_sys example_kernel = example_sys" "curr_pid example_sys = 0"
  by (simp_all add: example_kernel_def example_sys_def)

lemma example_all_ok: "all_ok example_abs"
  by (auto simp: all_ok_def desc_ok_def msg_ok_def example_abs_def example_procs_def Let_def new_proc_descriptor_def)

lemma example_pick: "sched_pick c (a_ready example_abs) = Some 15" "a_ready example_abs 15 = [1]"
  by (simp_all add: sched_pick_def example_abs_def)

theorem schedule_refines_witness:
  "abs_rel example_abs (k_sys example_kernel) \<and> a_wf example_abs \<and> all_ok example_abs \<and> curr_pid (k_sys example_kernel) = 0 \<and>
   (\<exists>k'. schedule 7 example_kernel = Some (Running, k') \<and> curr_pid (k_sys k') = 1 \<and>
         abs_rel (a_dispatch (k_alloc example_kernel) 15 example_abs) (k_sys k'))"
  using schedule_refines [of example_abs example_kernel 7] example_rel example_wf example_all_ok
  by (auto simp: example_pick)

end
