(* ===== verification/Fork.thy ===== *)
theory Fork
  imports Scheduler
begin

text \<open>
  The system call \<open>fork\<close>: its specification on the abstract process table, and the refinement.
\<close>

section \<open>Specification\<close>

definition a_free_slot :: "abs_state \<Rightarrow> nat option" where
  "a_free_slot a = List.find (\<lambda>i. state (a_procs a i) = FREE) [2..<MAX_PROC]"

text \<open>The descriptor of a child: a new one with the saved context of the parent, where \<open>fork\<close> returns 0.\<close>

definition child_descriptor :: "nat \<Rightarrow> int \<Rightarrow> proc_descriptor \<Rightarrow> proc_descriptor" where
  "child_descriptor c prio pd =
     (let new = new_proc_descriptor c (pid pd) prio (pc (saved_context pd)) in
      new\<lparr>sched_conf := (sched_conf new)\<lparr>preempt := preempt (sched_conf pd)\<rparr>,
          saved_context := (saved_context new)\<lparr>pstate := pstate (saved_context pd), sp := sp (saved_context pd),
             registers := (\<lambda>i. if 1 \<le> i \<and> i < N_REG then registers (saved_context pd) i else 0)\<rparr>,
          proc_err := proc_err pd, mem_conf := mem_conf pd\<rparr>)"

definition a_spawn :: "nat \<Rightarrow> int \<Rightarrow> abs_state \<Rightarrow> abs_state" where
  "a_spawn c prio a =
     (let p = a_last a; a1 = a_upd p (set_r0 (of_nat c)) a in
      a_change c RUNNABLE (a1\<lparr>a_procs := (a_procs a1)(c := child_descriptor c prio (a_procs a1 p)),
        a_kids := (a_kids a1)(p := c # a_kids a1 p, c := [])\<rparr>))"

text \<open>The address space of the child: its number and the address of its level 2 table.\<close>

definition a_mapped :: "nat \<Rightarrow> u64 \<Rightarrow> abs_state \<Rightarrow> abs_state" where
  "a_mapped c lvl2 a =
     a_upd c (initialized_update (\<lambda>_. True))
       (a_upd c (mem_conf_update (ttbr0_el1_update (\<lambda>_. push_bit 48 (of_nat c) OR (lvl2 AND MASK 47 1)))) a)"

section \<open>Filling a free slot\<close>

lemma child_descriptor_simps [simp]:
  "pid (child_descriptor c prio d) = c" "parent_pid (child_descriptor c prio d) = pid d"
  "priority (child_descriptor c prio d) = prio" "state (child_descriptor c prio d) = FREE"
  "child (child_descriptor c prio d) = None" "proc_data (child_descriptor c prio d) = child_descriptor c prio d"
  "child_descriptor c prio (proc_data d) = child_descriptor c prio d"
  by (simp_all add: child_descriptor_def Let_def new_proc_descriptor_def proc_data_def cong: if_cong)

lemma make_child_eq:
  "p \<noteq> c \<Longrightarrow> set_reg0 c 0 (make_child_proc_descriptor c p prio s) =
     s\<lparr>procs := (procs s)(c := child_descriptor c prio (procs s p))\<rparr>"
  by (auto simp: make_child_proc_descriptor_def set_reg0_def proc_upd_def child_descriptor_def Let_def
      new_proc_descriptor_def fun_eq_iff intro!: arg_cong [where f = "\<lambda>f. s\<lparr>procs := f\<rparr>"])

lemma replace_abs:
  assumes A: "abs_on L a s" and c: "c \<notin> L" "state (procs s c) = FREE" "state d = FREE"
  shows "abs_on L (a\<lparr>a_procs := (a_procs a)(c := proc_data d)\<rparr>) (s\<lparr>procs := (procs s)(c := d)\<rparr>)" (is "abs_on L _ ?t")
proof -
  note D = abs_onD [OF A]
  have user: "user_proc ?t q = user_proc s q" and notc: "user_proc s q \<Longrightarrow> q \<noteq> c" for q
    using c by (auto simp: user_proc_def)
  have ring: "sring ?t xs" if "sring s xs" "\<And>q. q \<in> set xs \<Longrightarrow> user_proc s q" for xs
    using that notc by (subst sring_cong [of xs ?t s]) auto
  have "queue_ok (a_ready a k) k ?t" if k: "k \<le> MAX_PRIO" for k
  proof (rule queue_ok_cong [where s = s])
    show "queue_ok (a_ready a k) k s" using D(3) k by (simp add: sched_rel_def)
    show "next_same_prio (procs ?t q) = next_same_prio (procs s q) \<and> prev_same_prio (procs ?t q) = prev_same_prio (procs s q)"
      if "q \<in> set (a_ready a k)" for q
      using that c sched_relD(4) [OF D(3) k, of q] by auto
  qed (use c in auto)
  then have "sched_rel (a_ready a) ?t"
    using D(3) c unfolding sched_rel_def by auto
  moreover have "tree_on L (a_kids a) ?t"
    unfolding tree_on_def
  proof (intro conjI allI impI ballI)
    show "\<exists>xs. sring ?t (b # xs) \<and> (\<forall>q\<in>set xs. user_proc ?t q)" if "user_proc ?t b" for b
      using tree_onD(1) [OF D(4), of b] that ring unfolding user by fastforce
    show "kids ?t p (a_kids a p)" if "p \<in> L" for p
    proof -
      have "kids s p (a_kids a p)" "p \<noteq> c" using tree_onD(2) [OF D(4) that] that c(1) by auto
      then show ?thesis using ring [of "a_kids a p"] notc unfolding kids_def user by auto
    qed
    show "parent_pid (procs ?t b) < MAX_PROC" if "user_proc ?t b" for b
      using tree_onD(3) [OF D(4), of b] that notc unfolding user by auto
  qed
  ultimately show ?thesis by (simp add: abs_on_def D(1,2))
qed

lemma add_child_data:
  assumes "add_child p c s = Some u"
  shows "proc_data (procs u q) = proc_data (procs s q)" "next_same_prio (procs u q) = next_same_prio (procs s q)"
    "prev_same_prio (procs u q) = prev_same_prio (procs s q)" "priority (procs u q) = priority (procs s q)"
    "prio_proc u = prio_proc s" "prio_proc_n u = prio_proc_n s" "n_runnable_procs u = n_runnable_procs s"
  using assms by (auto simp: add_child_def bind_eq_Some_conv kernel_defs proc_data_def split: option.splits)

lemma add_child_runnable:
  assumes A: "abs_on L a s" and p: "p \<in> L" "p < MAX_PROC" and c: "2 \<le> c" "c < MAX_PROC" "c \<notin> L"
    and d: "state (procs s c) = FREE" "parent_pid (procs s c) = p" "child (procs s c) = None" "prio_ok (priority (procs s c))"
  obtains u t where "add_child p c s = Some u" and "change_state c RUNNABLE u = Some t"
    and "abs_on (insert c L) (a_change c RUNNABLE (a\<lparr>a_kids := (a_kids a)(p := c # a_kids a p, c := [])\<rparr>)) t"
    and "curr_pid t = curr_pid s"
proof -
  note D = abs_onD [OF A]
  obtain u where u: "add_child p c s = Some u"
    using add_child_total [OF tree_onD(2) [OF D(4) p(1)]] by blast
  note F = add_child_fields [OF u] and G = add_child_data [OF u]
  have rel: "sched_rel (a_ready a) u"
    by (rule sched_rel_cong [OF D(3)]) (simp_all add: F G)
  obtain t where t: "change_state c RUNNABLE u = Some t"
    "sched_rel (rq_change c (nat (priority (procs u c))) (state (procs u c)) RUNNABLE (a_ready a)) t"
    using change_state_rq [OF rel c(2), of RUNNABLE] d(4) by (auto simp: G)
  note C = change_state_fields [OF t(1)] and P = proc_core_fields [OF change_state_fields(4) [OF t(1)]]
  have "tree_on (insert c L) ((a_kids a)(p := c # a_kids a p, c := [])) t"
    by (rule tree_on_insert [OF D(4) p _ c d(2) u]) (use d c in \<open>auto simp: P C F user_proc_def\<close>)
  moreover have "a_procs (a_change c RUNNABLE a) q = proc_data (procs t q)" for q
    using C(1) [of q] C(4) [of q] G(1) [of q] d(1)
    by (cases "procs t q"; cases "procs u q"; cases "procs s q")
       (auto simp: D(2) proc_data_def proc_core_def)
  ultimately have "abs_on (insert c L) (a_change c RUNNABLE (a\<lparr>a_kids := (a_kids a)(p := c # a_kids a p, c := [])\<rparr>)) t"
    using t(2) by (simp add: abs_on_def C F D(1)) (simp add: a_change_def D(2) F G)
  then show ?thesis
    using u t by (intro that [of u t]) (simp_all add: C F)
qed

section \<open>Refinement\<close>

lemma free_slotD:
  assumes "a_free_slot a = Some c"
  shows "2 \<le> c" "c < MAX_PROC" "state (a_procs a c) = FREE"
proof -
  from assms obtain i where "i < length [2..<MAX_PROC]" "c = [2..<MAX_PROC] ! i" "state (a_procs a c) = FREE"
    unfolding a_free_slot_def find_Some_iff by blast
  then have "c \<in> set [2..<MAX_PROC]" by (simp only: nth_mem)
  then show "2 \<le> c" "c < MAX_PROC" by auto
  show "state (a_procs a c) = FREE" by fact
qed

lemma a_live_spawn:
  assumes "running a" and "a_free_slot a = Some c"
  shows "a_live (a_spawn c prio a) = insert c (a_live a)" "a_live (a_mapped c lvl2 (a_spawn c prio a)) = insert c (a_live a)"
  using assms(1) free_slotD [OF assms(2)]
  by (auto simp: a_live_def a_spawn_def a_mapped_def Let_def set_r0_def running_def)

lemma syscall_fork_spawn:
  assumes abs: "abs_rel a (k_sys k)" and wf: "a_wf a" and run: "running a" and slot: "a_free_slot a = Some c"
    and prio: "prio = int_of_u64 (registers (saved_context (a_procs a (a_last a))) 0)" "0 \<le> prio"
      "prio \<le> priority (a_procs a (a_last a))"
  obtains s4 where "abs_rel (a_spawn c prio a) s4" and "curr_pid s4 = curr_pid (k_sys k)"
    and "syscall_fork ll k = (case c_init_mmu ll s4 c (k_mmu k) of None \<Rightarrow> None
      | Some (lvl2, m) \<Rightarrow> Some (k\<lparr>k_mmu := m, k_sys := proc_upd c (initialized_update (\<lambda>_. True))
          (proc_upd c (mem_conf_update (ttbr0_el1_update (\<lambda>_. push_bit 48 (of_nat c) OR (lvl2 AND MASK 47 1)))) s4)\<rparr>))"
proof -
  define p where "p = a_last a"
  note A = abs [unfolded abs_rel_def] and D = abs_onD [OF abs [unfolded abs_rel_def]]
  have p: "last_pid (k_sys k) = p" "p < MAX_PROC" "state (procs (k_sys k) p) = RUNNABLE" "p \<in> a_live a"
    using run by (auto simp: p_def running_def D a_live_def)
  note c = free_slotD [OF slot]
  have cl: "c \<notin> a_live a" "c \<noteq> p" using c p(3) by (auto simp: a_live_def D)
  have pid_p: "pid (procs (k_sys k) p) = p" and prio_p: "prio_ok (priority (procs (k_sys k) p))"
    using a_wfD(1,4) [OF wf p(2)] p(3) by (simp_all add: D)
  define s1 where "s1 = set_reg0 p (of_nat c) (k_sys k)"
  define s2 where "s2 = s1\<lparr>procs := (procs s1)(c := child_descriptor c prio (procs s1 p))\<rparr>"
  define a1 where "a1 = a_upd p (set_r0 (of_nat c)) a"
  define a2 where "a2 = a1\<lparr>a_procs := (a_procs a1)(c := child_descriptor c prio (procs s1 p))\<rparr>"
  have A1: "abs_on (a_live a) a1 s1"
    unfolding a1_def s1_def set_reg0_def set_r0_def [symmetric] by (intro abs_on_store A) simp
  have A2: "abs_on (a_live a) a2 s2"
    using replace_abs [OF A1 cl(1), of "child_descriptor c prio (procs s1 p)"] c(3)
    by (simp add: a2_def s2_def s1_def set_reg0_def D cl)
  have s2c: "procs s2 c = child_descriptor c prio (procs s1 p)" and pid1: "pid (procs s1 p) = p"
    using cl pid_p by (simp_all add: s2_def s1_def set_reg0_def)
  obtain s3 s4 where s34: "add_child p c s2 = Some s3" "change_state c RUNNABLE s3 = Some s4"
    "abs_on (insert c (a_live a)) (a_change c RUNNABLE (a2\<lparr>a_kids := (a_kids a2)(p := c # a_kids a2 p, c := [])\<rparr>)) s4"
    "curr_pid s4 = curr_pid s2"
    by (rule add_child_runnable [OF A2 p(4,2) c(1,2) cl(1)])
       (use prio_p prio in \<open>auto simp: s2c pid1 prio_ok_def D(2) simp flip: p_def\<close>)
  have spawn: "a_change c RUNNABLE (a2\<lparr>a_kids := (a_kids a2)(p := c # a_kids a2 p, c := [])\<rparr>) = a_spawn c prio a"
    using abs_onD(2) [OF A1, of p] by (simp add: a_spawn_def Let_def a2_def a1_def p_def)
  have abs4: "abs_rel (a_spawn c prio a) s4"
    using s34(3) unfolding spawn abs_rel_def by (simp add: a_live_spawn [OF run slot])
  have pid4: "pid (procs s4 c) = c"
    using proc_core_fields(2) [OF change_state_fields(4) [OF s34(2)], of c] add_child_fields(6) [OF s34(1), of c]
    by (simp add: s2c)
  have old: "print_children p (k_sys k) = Some (length (a_kids a p))"
    using print_children_kids [OF tree_onD(2) [OF D(4) p(4)]] .
  have new: "print_children p t = Some (Suc (length (a_kids a p)))" if "abs_on (insert c (a_live a)) (a_mapped c lvl2 (a_spawn c prio a)) t" for t lvl2
    using print_children_kids [OF tree_onD(2) [OF abs_onD(4) [OF that], of p]] p(4) cl
    by (simp add: a_spawn_def a_mapped_def Let_def p_def)
  have free: "find_free_proc (k_sys k) = Some c"
    using slot by (simp add: find_free_proc_def a_free_slot_def D)
  have code: "syscall_fork ll k = set_up_memory_new_proc ll c (k\<lparr>k_sys := s4\<rparr>) \<bind> (\<lambda>k1.
       let k2 = k_proc_upd c (initialized_update (\<lambda>_. True)) k1 in
       print_children p (k_sys k2) \<bind> (\<lambda>n. assert (length (a_kids a p) + 1 = n) \<bind> (\<lambda>_. Some k2)))"
  proof -
    have "int_of_u64 (reg (k_sys k) p 0) = prio" "\<not> priority (procs (k_sys k) p) < prio"
      using prio by (simp_all add: D(2) reg_def flip: p_def)
    then show ?thesis
      using s34(1,2) unfolding syscall_fork_def Let_def p(1) old free
      by (simp add: s1_def [symmetric] make_child_eq [OF cl(2) [symmetric]] flip: s2_def)
  qed
  have "abs_on (insert c (a_live a)) (a_mapped c lvl2 (a_spawn c prio a)) (proc_upd c (initialized_update (\<lambda>_. True))
          (proc_upd c (mem_conf_update (ttbr0_el1_update (\<lambda>_. push_bit 48 (of_nat c) OR (lvl2 AND MASK 47 1)))) s4))" for lvl2
    unfolding a_mapped_def by (intro abs_on_store s34(3) [unfolded spawn]) simp_all
  note new = new [OF this]
  show ?thesis
    using abs4 s34(4)
    by (intro that [of s4]) (auto simp: code set_up_memory_new_proc_def k_proc_upd_def pid4 new s2_def s1_def set_reg0_def
        simp del: One_nat_def split: option.splits)
qed

text \<open>What the call does on each of its other paths.\<close>

lemma fork_paths:
  assumes abs: "abs_rel a (k_sys k)" and run: "running a"
    and prio: "prio = int_of_u64 (registers (saved_context (a_procs a (a_last a))) 0)"
  shows "a_free_slot a = None \<Longrightarrow> syscall_fork ll k = Some (k\<lparr>k_sys := syscall_fail (a_last a) MAX_PROC_REACHED (k_sys k)\<rparr>)"
    and "a_free_slot a = Some c \<Longrightarrow> prio > priority (a_procs a (a_last a)) \<Longrightarrow>
           syscall_fork ll k = Some (k\<lparr>k_sys := syscall_fail (a_last a) TOO_HIGH_CHILD_PRIORITY (k_sys k)\<rparr>)"
    and "a_free_slot a = Some c \<Longrightarrow> prio \<le> priority (a_procs a (a_last a)) \<Longrightarrow> prio < 0 \<Longrightarrow> syscall_fork ll k = None"
proof -
  define p where "p = a_last a"
  note D = abs_onD [OF abs [unfolded abs_rel_def]]
  have p: "last_pid (k_sys k) = p" "p \<in> a_live a"
    using run by (auto simp: p_def running_def D a_live_def)
  have free: "find_free_proc (k_sys k) = a_free_slot a"
    by (simp add: find_free_proc_def a_free_slot_def D(2))
  have pr: "int_of_u64 (reg (k_sys k) p 0) = prio" "priority (a_procs a p) = priority (procs (k_sys k) p)"
    using prio by (simp_all add: D(2) reg_def p_def)
  note old = print_children_kids [OF tree_onD(2) [OF D(4) p(2)]]
  show "a_free_slot a = None \<Longrightarrow> syscall_fork ll k = Some (k\<lparr>k_sys := syscall_fail (a_last a) MAX_PROC_REACHED (k_sys k)\<rparr>)"
    and "a_free_slot a = Some c \<Longrightarrow> prio > priority (a_procs a (a_last a)) \<Longrightarrow>
           syscall_fork ll k = Some (k\<lparr>k_sys := syscall_fail (a_last a) TOO_HIGH_CHILD_PRIORITY (k_sys k)\<rparr>)"
    unfolding syscall_fork_def Let_def p(1) old free p_def [symmetric] pr by simp_all
  show "syscall_fork ll k = None"
    if slot: "a_free_slot a = Some c" and le: "prio \<le> priority (a_procs a (a_last a))" and neg: "prio < 0"
  proof -
    have c: "p \<noteq> c" using free_slotD [OF slot] run by (auto simp: p_def running_def)
    have "change_state c RUNNABLE s3 = None"
      if "add_child p c (s\<lparr>procs := (procs s)(c := child_descriptor c prio (procs s p))\<rparr>) = Some s3" for s s3
      using add_child_data(4) [OF that, of c] add_child_fields(2) [OF that, of c] neg
      by (simp add: change_state_def prio_index_def)
    then have "add_child p c (s\<lparr>procs := (procs s)(c := child_descriptor c prio (procs s p))\<rparr>) \<bind>
        (\<lambda>s3. change_state c RUNNABLE s3 \<bind> f) = None" for s and f :: "system_state \<Rightarrow> kernel_state option"
      by (cases "add_child p c (s\<lparr>procs := (procs s)(c := child_descriptor c prio (procs s p))\<rparr>)") simp_all
    then show ?thesis
      using le slot unfolding syscall_fork_def Let_def p(1) old free p_def [symmetric] pr
      by (simp add: make_child_eq [OF c])
  qed
qed

lemma proc_ok_child:
  "c < MAX_PROC \<Longrightarrow> 2 \<le> c \<Longrightarrow> prio_ok prio \<Longrightarrow> proc_ok c ((child_descriptor c prio d)\<lparr>state := RUNNABLE\<rparr>)"
  by (simp add: proc_ok_def) (simp add: child_descriptor_def Let_def new_proc_descriptor_def)

lemma spawn_ok:
  assumes wf: "a_wf a" and ok: "all_ok a" and run: "running a" and slot: "a_free_slot a = Some c"
    and prio: "0 \<le> prio" "prio \<le> priority (a_procs a (a_last a))"
  shows "a_wf (a_mapped c lvl2 (a_spawn c prio a))" and "all_ok (a_mapped c lvl2 (a_spawn c prio a))"
proof -
  define p where "p = a_last a"
  note c = free_slotD [OF slot]
  have p: "p < MAX_PROC" "state (a_procs a p) = RUNNABLE" "p \<noteq> 0" "p \<noteq> c"
    using run c by (auto simp: p_def running_def)
  have "prio_ok (priority (a_procs a p))" using a_wfD(4) [OF wf p(1)] p(2) by simp
  then have po: "prio_ok prio" using prio by (simp add: prio_ok_def p_def)
  define d where "d = (child_descriptor c prio (set_r0 (of_nat c) (a_procs a p)))\<lparr>state := RUNNABLE\<rparr>"
  have sp: "a_procs (a_spawn c prio a) = (a_procs a)(p := set_r0 (of_nat c) (a_procs a p), c := d)"
    using p by (simp add: a_spawn_def Let_def p_def [symmetric] d_def)
  have "proc_ok c d" unfolding d_def by (rule proc_ok_child [OF c(2,1) po])
  moreover have "proc_ok q (a_procs a q)" if "q < MAX_PROC" for q using wf that by (simp add: a_wf_def)
  moreover from this [OF p(1)] have "proc_ok p (set_r0 (of_nat c) (a_procs a p))" by (auto simp: proc_ok_def set_r0_def)
  ultimately have "a_wf (a_spawn c prio a)" by (simp add: a_wf_def sp)
  then show "a_wf (a_mapped c lvl2 (a_spawn c prio a))"
    unfolding a_mapped_def by (intro a_wf_upd) (auto simp: proc_ok_def)
  have "\<not> preempt (sched_conf (a_procs a p))"
    using ok p by (auto simp: all_ok_def desc_ok_def)
  then have d: "msg_ok (buffer d)" "\<not> preempt (sched_conf d)"
    by (simp_all add: d_def msg_ok_def child_descriptor_def Let_def new_proc_descriptor_def set_r0_def)
  have "desc_ok q (a_procs (a_mapped c lvl2 (a_spawn c prio a)) q)" if q: "q < MAX_PROC" for q
  proof (cases "q = c")
    case True
    then show ?thesis using d c(1) by (simp add: a_mapped_def sp desc_ok_def)
  next
    case False
    have "desc_ok q (a_procs a q)" using ok q by (simp add: all_ok_def)
    with False show ?thesis by (auto simp: a_mapped_def sp desc_ok_def set_r0_def)
  qed
  then show "all_ok (a_mapped c lvl2 (a_spawn c prio a))" by (simp add: all_ok_def)
qed

section \<open>Properties\<close>

definition fork_prio :: "abs_state \<Rightarrow> int" where
  "fork_prio a = int_of_u64 (registers (saved_context (a_procs a (a_last a))) 0)"

lemma fork_abs:
  assumes abs: "abs_rel a (k_sys k)" and wf: "a_wf a" and ok: "all_ok a" and run: "running a"
    and slot: "a_free_slot a = Some c" and prio: "0 \<le> fork_prio a" "fork_prio a \<le> priority (a_procs a (a_last a))"
  shows "\<exists>s. abs_rel (a_spawn c (fork_prio a) a) s \<and>
     (case c_init_mmu ll s c (k_mmu k) of None \<Rightarrow> syscall_fork ll k = None
      | Some (lvl2, m) \<Rightarrow> \<exists>k'. syscall_fork ll k = Some k' \<and> k_mmu k' = m \<and> curr_pid (k_sys k') = curr_pid (k_sys k) \<and>
          abs_rel (a_mapped c lvl2 (a_spawn c (fork_prio a) a)) (k_sys k') \<and>
          a_wf (a_mapped c lvl2 (a_spawn c (fork_prio a) a)) \<and> all_ok (a_mapped c lvl2 (a_spawn c (fork_prio a) a)))"
proof -
  from prio obtain s where s: "abs_rel (a_spawn c (fork_prio a) a) s" "curr_pid s = curr_pid (k_sys k)"
    "syscall_fork ll k = (case c_init_mmu ll s c (k_mmu k) of None \<Rightarrow> None
      | Some (lvl2, m) \<Rightarrow> Some (k\<lparr>k_mmu := m, k_sys := proc_upd c (initialized_update (\<lambda>_. True))
          (proc_upd c (mem_conf_update (ttbr0_el1_update (\<lambda>_. push_bit 48 (of_nat c) OR (lvl2 AND MASK 47 1)))) s)\<rparr>))"
    using syscall_fork_spawn [OF abs wf run slot fork_prio_def, of ll] by metis
  have "abs_rel (a_mapped c lvl2 (a_spawn c (fork_prio a) a)) (proc_upd c (initialized_update (\<lambda>_. True))
          (proc_upd c (mem_conf_update (ttbr0_el1_update (\<lambda>_. push_bit 48 (of_nat c) OR (lvl2 AND MASK 47 1)))) s))" for lvl2
    unfolding abs_rel_def a_live_spawn [OF run slot]
    using s(1) unfolding abs_rel_def a_live_spawn [OF run slot] a_mapped_def by (intro abs_on_store) simp_all
  then show ?thesis
    using s spawn_ok [OF wf ok run slot prio] by (intro exI [of _ s]) (auto simp del: One_nat_def split: option.splits)
qed

text \<open>
  C12. \<open>fork\<close> implements its specification. A full process table and a priority above that of the
  caller are refused with their error codes and change nothing else. Otherwise, when the address
  space of the child can be built, the first free slot gets a copy of the caller's context in which
  the call returns 0 (the caller gets the number of the slot), the child is first among the caller's
  children and first in the ready queue of its priority, and the assertion on the number of children
  holds. A negative priority is not refused: the ready queues are then indexed out of bounds.
\<close>

theorem syscall_fork_refines:
  assumes "abs_rel a (k_sys k)" and "a_wf a" and "all_ok a" and "running a"
  shows "case a_free_slot a of
       None \<Rightarrow> \<exists>k'. syscall_fork ll k = Some k' \<and> k_mmu k' = k_mmu k \<and> abs_rel (a_fail (a_last a) MAX_PROC_REACHED a) (k_sys k')
     | Some c \<Rightarrow>
         if fork_prio a > priority (a_procs a (a_last a))
         then \<exists>k'. syscall_fork ll k = Some k' \<and> k_mmu k' = k_mmu k \<and> abs_rel (a_fail (a_last a) TOO_HIGH_CHILD_PRIORITY a) (k_sys k')
         else if fork_prio a < 0 then syscall_fork ll k = None
         else \<exists>s. abs_rel (a_spawn c (fork_prio a) a) s \<and>
           (case c_init_mmu ll s c (k_mmu k) of None \<Rightarrow> syscall_fork ll k = None
            | Some (lvl2, m) \<Rightarrow> \<exists>k'. syscall_fork ll k = Some k' \<and> k_mmu k' = m \<and> curr_pid (k_sys k') = curr_pid (k_sys k) \<and>
                abs_rel (a_mapped c lvl2 (a_spawn c (fork_prio a) a)) (k_sys k') \<and>
                a_wf (a_mapped c lvl2 (a_spawn c (fork_prio a) a)) \<and> all_ok (a_mapped c lvl2 (a_spawn c (fork_prio a) a)))"
proof -
  note fail = syscall_fail_abs [OF assms(1) [unfolded abs_rel_def]]
  show ?thesis
  proof (cases "a_free_slot a")
    case None
    then show ?thesis
      using fork_paths(1) [OF assms(1,4) fork_prio_def None, of ll] fail by (simp add: abs_rel_def)
  next
    case (Some c)
    then show ?thesis
      using fork_paths(2,3) [OF assms(1,4) fork_prio_def Some, of ll] fork_abs [OF assms Some, of ll] fail
      by (simp add: abs_rel_def)
  qed
qed

theorem syscall_fork_refines_witness:
  "abs_rel example_abs (k_sys example_kernel) \<and> a_wf example_abs \<and> all_ok example_abs \<and> running example_abs \<and>
   a_free_slot example_abs = Some 5 \<and> fork_prio example_abs = 3 \<and>
   (\<exists>s. abs_rel (a_spawn 5 3 example_abs) s \<and>
     (case c_init_mmu (linker_symbols 0x1000 0x2200000) s 5 example_mmu of None \<Rightarrow> syscall_fork (linker_symbols 0x1000 0x2200000) example_kernel = None
      | Some (lvl2, m) \<Rightarrow> \<exists>k'. syscall_fork (linker_symbols 0x1000 0x2200000) example_kernel = Some k' \<and> k_mmu k' = m \<and> curr_pid (k_sys k') = curr_pid (k_sys example_kernel) \<and>
          abs_rel (a_mapped 5 lvl2 (a_spawn 5 3 example_abs)) (k_sys k') \<and>
          a_wf (a_mapped 5 lvl2 (a_spawn 5 3 example_abs)) \<and> all_ok (a_mapped 5 lvl2 (a_spawn 5 3 example_abs))))"
proof -
  have e: "a_free_slot example_abs = Some 5" "fork_prio example_abs = 3"
    "priority (a_procs example_abs (a_last example_abs)) = 15"
    by code_simp+
  have m: "k_mmu example_kernel = example_mmu" by (simp add: example_kernel_def)
  show ?thesis
    using syscall_fork_refines [of example_abs example_kernel "linker_symbols 0x1000 0x2200000"] example_rel example_wf example_all_ok example_running
    unfolding e m by simp
qed

end
