(* ===== verification/Kernel_Loop.thy ===== *)
theory Kernel_Loop
  imports Fork
begin

text \<open>
  The kernel from one trap of a process to the next: entry (\<open>save_context\<close>), system call or timer
  interrupt, scheduler, exit. \<open>in_user\<close> is the invariant of the states in which a process runs;
  every trap that comes back is shown to end in such a state, and the system calls whose assertions always
  hold are told apart. The memory that messages are copied from and to is taken to be accessible here.
\<close>

section \<open>Descriptors stay valid\<close>

lemma all_ok_change: "all_ok a \<Longrightarrow> (desc_ok p (a_procs a p) \<Longrightarrow> desc_ok p ((a_procs a p)\<lparr>state := new\<rparr>)) \<Longrightarrow> all_ok (a_change p new a)"
  by (auto simp: all_ok_def)

lemma all_ok_kids [simp]: "all_ok (a\<lparr>a_kids := K\<rparr>) = all_ok a"
  by (simp add: all_ok_def)

lemma all_ok_fail: "all_ok a \<Longrightarrow> all_ok (a_fail p e a)"
  unfolding a_fail_def by (intro all_ok_upd) (auto simp: desc_ok_def)

lemma all_okD: "all_ok a \<Longrightarrow> q < MAX_PROC \<Longrightarrow> desc_ok q (a_procs a q)"
  by (simp add: all_ok_def)

lemma all_ok_not_kernel: "all_ok a \<Longrightarrow> state (a_procs a q) \<noteq> KERNEL \<Longrightarrow> q \<noteq> 0"
  using all_okD [of a 0] by (cases "q = 0") (simp_all add: desc_ok_def)

lemma all_ok_reap:
  assumes ok: "all_ok a" and "parent \<noteq> 0" "parent \<noteq> c" "c \<noteq> 0" "state (a_procs a parent) \<noteq> FREE"
  shows "all_ok (a_reap parent c a)"
  unfolding a_reap_def Let_def
  using assms by (intro all_ok_change all_ok_kids [THEN iffD2] all_ok_upd)
    (auto simp: desc_ok_def give_status_def msg_ok_def)

lemma spec_wait_ok:
  assumes ok: "all_ok a" and run: "running a"
  shows "all_ok (spec_wait a)"
proof -
  have "all_ok (a_reap (a_last a) c a)" if "state (a_procs a c) = ZOMBIE" for c
    using that run all_ok_not_kernel [OF ok, of c] by (intro all_ok_reap ok) (auto simp: running_def)
  moreover have "state (a_procs a c) = ZOMBIE" if "List.find (\<lambda>c. state (a_procs a c) = ZOMBIE) ks = Some c" for c ks
    using that by (auto simp: find_Some_iff)
  moreover have "all_ok (a_change (a_last a) WAITING a)"
    using run by (intro all_ok_change ok) (auto simp: desc_ok_def running_def)
  ultimately show ?thesis
    using run all_ok_fail [OF ok]
    by (auto simp: spec_wait_def Let_def running_def split: list.splits option.splits)
qed

lemma spec_exit_ok:
  assumes ok: "all_ok a" and run: "running a"
  shows "all_ok (spec_exit a)"
proof -
  define p where "p = a_last a"
  define e where "e = \<lparr>err_no = ucast (registers (saved_context (a_procs a p)) 0),
                       err_data = registers (saved_context (a_procs a p)) 1\<rparr>"
  define a1 where "a1 = a_upd p (proc_err_update (\<lambda>_. e)) a"
  define a2 where "a2 = a1\<lparr>a_procs := reparent_all (a_kids a1 p) (a_procs a1)\<rparr>"
  define parent where "parent = parent_pid (a_procs a2 p)"
  have p: "p \<noteq> 0" "state (a_procs a p) = RUNNABLE" using run by (simp_all add: p_def running_def)
  have "all_ok a1" unfolding a1_def by (intro all_ok_upd ok) (auto simp: desc_ok_def)
  moreover have "desc_ok q (reparent_all ks g q) = desc_ok q (g q)" for q ks g
    by (simp add: desc_ok_def reparent_all_def)
  ultimately have ok2: "all_ok a2" by (simp add: all_ok_def a2_def)
  have "state (a_procs a2 p) = RUNNABLE" using p by (simp add: a2_def a1_def)
  then have "all_ok (a_reap parent p a2)" if "state (a_procs a2 parent) = WAITING"
    using that p all_ok_not_kernel [OF ok2, of parent] by (intro all_ok_reap ok2) auto
  moreover have "all_ok (a_change p ZOMBIE a2)"
    using p \<open>state (a_procs a2 p) = RUNNABLE\<close> by (intro all_ok_change ok2) (auto simp: desc_ok_def)
  ultimately show ?thesis
    unfolding spec_exit_def Let_def p_def [symmetric] e_def [symmetric] a1_def [symmetric] a2_def [symmetric]
      parent_def [symmetric] by simp
qed

lemma connect_ok:
  assumes ok: "all_ok a" and "sdr \<noteq> 0" "rcv \<noteq> 0" "state (a_procs a sdr) \<noteq> FREE" "state (a_procs a rcv) \<noteq> FREE"
    and "used_size (buffer (a_procs a sdr)) \<le> BUFF_SIZE"
  shows "all_ok (a_connect sdr rcv a)"
proof -
  have "all_ok (a_upd rcv (deliver_msg (a_procs a sdr)) a)"
    using assms by (intro all_ok_upd) (auto simp: desc_ok_def deliver_msg_def set_r0_def msg_ok_def)
  then have "all_ok (a_upd sdr message_sent (a_upd rcv (deliver_msg (a_procs a sdr)) a))"
    by (rule all_ok_upd) (auto simp: desc_ok_def message_sent_def msg_ok_def)
  then have "all_ok (a_change rcv RUNNABLE (a_change sdr SENDING_CH
             (a_upd sdr message_sent (a_upd rcv (deliver_msg (a_procs a sdr)) a))))"
    using assms by (intro all_ok_change) (auto simp: desc_ok_def message_sent_def deliver_msg_def set_r0_def)
  then show ?thesis
    using all_ok_fail [OF ok] by (simp add: a_connect_def)
qed

lemma spec_send_ok:
  assumes ok: "all_ok a" and run: "running a" and buf: "svc_buffered a"
  shows "all_ok (spec_send a)"
proof -
  define p where "p = a_last a"
  define r where "r = registers (saved_context (a_procs a p))"
  define target where "target = int_of_u64 (r 0)"
  define a1 where "a1 = a_upd p (sender_data_update (\<lambda>d. d\<lparr>target_pid := target, send_size := r 2,
                                        ack_data := r 3, ack_size := r 4\<rparr>)) a"
  have p: "p \<noteq> 0" "state (a_procs a p) = RUNNABLE" using run by (simp_all add: running_def p_def)
  have ok1: "all_ok a1" unfolding a1_def by (intro all_ok_upd ok) (auto simp: desc_ok_def)
  have st: "state (a_procs a1 q) = state (a_procs a q)" "buffer (a_procs a1 q) = buffer (a_procs a q)" for q
    by (simp_all add: a1_def)
  have "all_ok (a_connect p (nat target) a1)" if "state (a_procs a (nat target)) = LISTENING_CH" "r 2 \<le> BUFF_SIZE"
  proof -
    have "used_size (buffer (a_procs a p)) \<le> BUFF_SIZE"
      using buf that(2) order_trans by (auto simp: svc_buffered_def r_def p_def)
    then show ?thesis
      using that p all_ok_not_kernel [OF ok, of "nat target"] by (intro connect_ok ok1) (auto simp: st)
  qed
  moreover have "all_ok (a_change p WAIT_LISTENER a1)"
    using p by (intro all_ok_change ok1) (auto simp: desc_ok_def st)
  ultimately show ?thesis
    unfolding spec_send_def Let_def p_def [symmetric] r_def [symmetric] target_def [symmetric] a1_def [symmetric]
    using all_ok_fail [OF ok] by (auto simp: not_less)
qed

lemma spec_receive_ok:
  assumes ok: "all_ok a" and wf: "a_wf a" and run: "running a"
  shows "all_ok (spec_receive a)"
proof -
  define p where "p = a_last a"
  define r where "r = registers (saved_context (a_procs a p))"
  define f :: "proc_descriptor \<Rightarrow> proc_descriptor" where
    "f = receiver_data_update (\<lambda>d. d\<lparr>receive_data := r 0, receive_size := r 1\<rparr>)"
  define a1 where "a1 = a_change p LISTENING_CH (a_upd p f a)"
  have p: "p \<noteq> 0" "state (a_procs a p) = RUNNABLE" using run by (simp_all add: running_def p_def)
  have ok1: "all_ok a1"
    unfolding a1_def using p by (intro all_ok_change all_ok_upd ok) (auto simp: desc_ok_def f_def)
  have "all_ok (a_connect i p a1)" if i: "a_waiting_sender a1 p = Some i" for i
  proof -
    from i have w: "i < MAX_PROC" "state (a_procs a1 i) = WAIT_LISTENER"
      by (auto simp: a_waiting_sender_def find_Some_iff)
    then have "i \<noteq> p" by (auto simp: a1_def)
    then have "a_procs a1 i = a_procs a i" by (simp add: a1_def)
    then have "used_size (buffer (a_procs a1 i)) \<le> BUFF_SIZE"
      using a_wfD(5,6) [OF wf w(1)] w(2) order_trans by auto
    moreover have "i \<noteq> 0" using all_ok_not_kernel [OF ok1, of i] w by auto
    ultimately show ?thesis using p w by (intro connect_ok ok1) (auto simp: a1_def)
  qed
  then show ?thesis
    unfolding spec_receive_def Let_def p_def [symmetric] r_def [symmetric] f_def [symmetric] a1_def [symmetric]
    using ok1 by (auto split: option.splits)
qed

lemma spec_acknowledge_ok:
  assumes ok: "all_ok a" and run: "running a" and buf: "svc_buffered a" and spec: "spec_acknowledge a = Some b"
  shows "all_ok b"
proof -
  define p where "p = a_last a"
  define r where "r = registers (saved_context (a_procs a p))"
  define f :: "proc_descriptor \<Rightarrow> proc_descriptor" where "f = receiver_data_update (\<lambda>d. d\<lparr>return_code := int_of_u64 (r 0)\<rparr>)"
  define a1 where "a1 = a_upd p f a"
  define sdr where "sdr = source_pid (receiver_data (a_procs a p))"
  define a2 where "a2 = a_upd p (\<lambda>d. buffer_update (used_size_update (\<lambda>_. 0)) (set_r0 0 d)) (a_upd sdr (ack_reply (a_procs a1 p)) a1)"
  have ok1: "all_ok a1" unfolding a1_def f_def by (intro all_ok_upd ok) (auto simp: desc_ok_def)
  have b1: "buffer (a_procs a1 p) = buffer (a_procs a p)" by (simp add: a1_def f_def)
  have ok2: "all_ok a2" if "r 2 \<le> BUFF_SIZE"
  proof -
    have "used_size (buffer (a_procs a p)) \<le> BUFF_SIZE"
      using buf that order_trans by (auto simp: svc_buffered_def r_def p_def)
    then have "all_ok (a_upd sdr (ack_reply (a_procs a1 p)) a1)"
      by (intro all_ok_upd ok1) (auto simp: desc_ok_def ack_reply_def set_r0_def msg_ok_def Let_def b1)
    then show ?thesis
      unfolding a2_def by (rule all_ok_upd) (auto simp: desc_ok_def set_r0_def msg_ok_def)
  qed
  have st: "state (a_procs a2 sdr) = state (a_procs a sdr)"
    by (simp add: a2_def a1_def f_def ack_reply_def set_r0_def Let_def)
  have "all_ok (a_change sdr RUNNABLE a2)" if "r 2 \<le> BUFF_SIZE" "state (a_procs a sdr) = SENDING_CH"
    using that all_ok_not_kernel [OF ok, of sdr] by (intro all_ok_change ok2) (auto simp: desc_ok_def st)
  then show ?thesis
    using spec all_ok_fail [OF ok] all_ok_fail [OF ok1]
    unfolding spec_acknowledge_def Let_def p_def [symmetric] r_def [symmetric] f_def [symmetric] a1_def [symmetric]
      sdr_def [symmetric] a2_def [symmetric]
    by (auto split: if_splits simp: not_less)
qed

section \<open>System calls run with \<open>curr_pid\<close> unchanged\<close>

lemma curr_pid_stores [simp]:
  "curr_pid (syscall_fail p e s) = curr_pid s" "curr_pid (set_reg0 p v s) = curr_pid s"
  "curr_pid (upd_buffer p f s) = curr_pid s" "curr_pid (upd_sender p g s) = curr_pid s"
  "curr_pid (upd_receiver p h s) = curr_pid s" "curr_pid (set_child p c s) = curr_pid s"
  "curr_pid (set_next_sibling p c s) = curr_pid s" "curr_pid (set_prev_sibling p c s) = curr_pid s"
  by (simp_all add: kernel_defs syscall_fail_def)

lemma curr_pid_change: "change_state p new s = Some t \<Longrightarrow> curr_pid t = curr_pid s"
  by (rule change_state_fields(2))

lemma curr_pid_remove: "remove_child parent c s = Some t \<Longrightarrow> curr_pid t = curr_pid s"
  by (auto simp: remove_child_def Let_def bind_eq_Some_conv split: if_splits)

lemma curr_pid_zombie: "handle_zombie_child parent c s = Some t \<Longrightarrow> curr_pid t = curr_pid s"
  by (auto simp: handle_zombie_child_def Let_def bind_eq_Some_conv dest!: curr_pid_remove curr_pid_change split: if_splits)

lemma curr_pid_reparent: "reparent_walk fuel h c s = Some t \<Longrightarrow> curr_pid t = curr_pid s"
  by (induction fuel h c s rule: reparent_walk.induct) (auto simp: Let_def bind_eq_Some_conv split: if_splits)

lemma curr_pid_connection: "handle_channel_connection p q s = Some t \<Longrightarrow> curr_pid t = curr_pid s"
  by (auto simp: handle_channel_connection_def Let_def assert_bind bind_eq_Some_conv dest!: curr_pid_change split: if_splits)

lemma curr_pid_ack: "handle_channel_ack p q s = Some t \<Longrightarrow> curr_pid t = curr_pid s"
  by (auto simp: handle_channel_ack_def Let_def assert_bind dest!: curr_pid_change split: if_splits)

lemma curr_pid_syscalls:
  "syscall_exit s = Some t \<Longrightarrow> curr_pid t = curr_pid s" "syscall_wait s = Some t \<Longrightarrow> curr_pid t = curr_pid s"
  "syscall_send s = Some t \<Longrightarrow> curr_pid t = curr_pid s" "syscall_receive s = Some t \<Longrightarrow> curr_pid t = curr_pid s"
  "syscall_acknowledge s = Some t \<Longrightarrow> curr_pid t = curr_pid s"
      apply (auto simp: syscall_exit_def Let_def bind_eq_Some_conv
        dest!: curr_pid_zombie curr_pid_change curr_pid_reparent split: if_splits option.splits)[1]
     apply (auto simp: syscall_wait_def Let_def bind_eq_Some_conv
        dest!: curr_pid_zombie curr_pid_change split: if_splits option.splits)[1]
    apply (auto simp: syscall_send_def Let_def dest!: curr_pid_connection curr_pid_change split: if_splits)[1]
   apply (auto simp: syscall_receive_def Let_def bind_eq_Some_conv
        dest!: curr_pid_connection curr_pid_change split: option.splits)[1]
  apply (auto simp: syscall_acknowledge_def Let_def dest!: curr_pid_ack split: if_splits)[1]
  done

section \<open>Processes that do not run\<close>

text \<open>What a process will find when it runs: a pending message and its registers.\<close>

definition left_alone :: "proc_descriptor \<Rightarrow> proc_descriptor \<Rightarrow> bool" where
  "left_alone d d' \<longleftrightarrow> state d' = state d \<and> buffer d' = buffer d \<and> saved_context d' = saved_context d"

lemma left_alone_refl [simp]: "left_alone d d"
  by (simp add: left_alone_def)

lemma left_alone_trans: "left_alone d d' \<Longrightarrow> left_alone d' d'' \<Longrightarrow> left_alone d d''"
  by (simp add: left_alone_def)

lemma left_alone_data: "proc_data d = proc_data d' \<Longrightarrow> left_alone d d'"
  by (metis left_alone_def proc_data_simps(4,7,10))

text \<open>The system calls of other processes leave a runnable process alone.\<close>

definition ready :: "nat \<Rightarrow> abs_state \<Rightarrow> bool" where
  "ready q a \<longleftrightarrow> q \<noteq> a_last a \<and> state (a_procs a q) = RUNNABLE"

lemma left_alone_fail: "q \<noteq> p \<Longrightarrow> left_alone (a_procs a q) (a_procs (a_fail p e a) q)"
  by (simp add: a_fail_def)

lemma left_alone_reap: "q \<noteq> parent \<Longrightarrow> q \<noteq> c \<Longrightarrow> left_alone (a_procs a q) (a_procs (a_reap parent c a) q)"
  by (simp add: a_reap_def Let_def)

lemma left_alone_connect: "q \<noteq> sdr \<Longrightarrow> q \<noteq> rcv \<Longrightarrow> left_alone (a_procs a q) (a_procs (a_connect sdr rcv a) q)"
  by (simp add: a_connect_def left_alone_fail)

lemma found: "List.find P xs = Some x \<Longrightarrow> P x"
  by (auto simp: find_Some_iff)

lemma left_alone_wait:
  assumes "ready q a"
  shows "left_alone (a_procs a q) (a_procs (spec_wait a) q)"
proof (cases "a_kids a (a_last a)")
  case Nil
  then show ?thesis using assms left_alone_fail [of q "a_last a" a] by (simp add: spec_wait_def ready_def)
next
  case (Cons x xs)
  have q: "q \<noteq> a_last a" "state (a_procs a q) \<noteq> ZOMBIE" using assms by (simp_all add: ready_def)
  show ?thesis
  proof (cases "List.find (\<lambda>c. state (a_procs a c) = ZOMBIE) (x # xs)")
    case None
    then show ?thesis using q by (simp add: spec_wait_def Cons Let_def del: find.simps)
  next
    case (Some c)
    then have "q \<noteq> c" using found [OF Some] q by auto
    then show ?thesis using Some q left_alone_reap [of q "a_last a" c a] by (simp add: spec_wait_def Cons Let_def del: find.simps)
  qed
qed

lemma left_alone_exit:
  assumes "ready q a"
  shows "left_alone (a_procs a q) (a_procs (spec_exit a) q)"
proof -
  define p where "p = a_last a"
  define a2 where "a2 = (a_upd p (proc_err_update (\<lambda>_. \<lparr>err_no = ucast (registers (saved_context (a_procs a p)) 0), err_data = registers (saved_context (a_procs a p)) 1\<rparr>)) a)
    \<lparr>a_procs := reparent_all (a_kids a p) ((a_procs a)(p := proc_err_update (\<lambda>_. \<lparr>err_no = ucast (registers (saved_context (a_procs a p)) 0), err_data = registers (saved_context (a_procs a p)) 1\<rparr>) (a_procs a p)))\<rparr>"
  have q: "q \<noteq> p" "left_alone (a_procs a q) (a_procs a2 q)" "state (a_procs a2 q) = RUNNABLE"
    using assms by (auto simp: ready_def p_def a2_def reparent_all_def left_alone_def)
  have eq: "spec_exit a = (if state (a_procs a2 (parent_pid (a_procs a2 p))) = WAITING then a_reap (parent_pid (a_procs a2 p)) p a2 else a_change p ZOMBIE a2)"
    by (simp add: spec_exit_def Let_def a2_def p_def)
  show ?thesis
  proof (cases "state (a_procs a2 (parent_pid (a_procs a2 p))) = WAITING")
    case True
    then have "q \<noteq> parent_pid (a_procs a2 p)" using q(3) by auto
    then show ?thesis using left_alone_trans [OF q(2) left_alone_reap [of q "parent_pid (a_procs a2 p)" p a2]] q(1) True by (simp add: eq)
  next
    case False
    then show ?thesis using q by (simp add: eq)
  qed
qed

lemma left_alone_send:
  assumes "ready q a"
  shows "left_alone (a_procs a q) (a_procs (spec_send a) q)"
proof -
  define p where "p = a_last a"
  define r where "r = registers (saved_context (a_procs a p))"
  define t where "t = int_of_u64 (r 0)"
  define a1 where "a1 = a_upd p (sender_data_update (\<lambda>d. d\<lparr>target_pid := t, send_size := r 2, ack_data := r 3, ack_size := r 4\<rparr>)) a"
  have q: "q \<noteq> p" "a_procs a1 q = a_procs a q" "state (a_procs a q) = RUNNABLE" using assms by (simp_all add: ready_def p_def a1_def)
  have eq: "spec_send a = (if t < 0 \<or> t \<ge> int MAX_PROC then a_fail p INVALID_PID a
      else if \<not> state (a_procs a (nat t)) = LISTENING_CH \<and> r 5 = 0 then a_fail p TARGET_NOT_LISTENING a
      else if r 2 > BUFF_SIZE then a_fail p SEND_DATA_TOO_LARGE a
      else if state (a_procs a (nat t)) = LISTENING_CH then a_connect p (nat t) a1 else a_change p WAIT_LISTENER a1)"
    by (simp add: spec_send_def Let_def a1_def t_def r_def p_def)
  have "state (a_procs a (nat t)) = LISTENING_CH \<Longrightarrow> q \<noteq> nat t" using q(3) by auto
  then show ?thesis using q(1) left_alone_fail [OF q(1)] left_alone_connect [OF q(1), of "nat t" a1] by (simp add: eq q(2))
qed

lemma left_alone_receive:
  assumes "ready q a"
  shows "left_alone (a_procs a q) (a_procs (spec_receive a) q)"
proof -
  define p where "p = a_last a"
  define r where "r = registers (saved_context (a_procs a p))"
  define a1 where "a1 = a_change p LISTENING_CH (a_upd p (receiver_data_update (\<lambda>d. d\<lparr>receive_data := r 0, receive_size := r 1\<rparr>)) a)"
  have q: "q \<noteq> p" "a_procs a1 q = a_procs a q" "state (a_procs a q) = RUNNABLE" using assms by (simp_all add: ready_def p_def a1_def)
  have eq: "spec_receive a = (case a_waiting_sender a1 p of None \<Rightarrow> a1 | Some i \<Rightarrow> a_connect i p a1)"
    unfolding spec_receive_def Let_def a1_def r_def p_def ..
  have "q \<noteq> i" if "a_waiting_sender a1 p = Some i" for i
    using found [OF that [unfolded a_waiting_sender_def]] q(2,3) by auto
  then show ?thesis using left_alone_connect [of q _ p a1] q by (simp add: eq split: option.split)
qed

lemma left_alone_acknowledge:
  assumes "ready q a" and "spec_acknowledge a = Some b"
  shows "left_alone (a_procs a q) (a_procs b q)"
  using assms by (auto simp: ready_def spec_acknowledge_def Let_def left_alone_fail a_fail_def split: if_splits)

lemma left_alone_spawn:
  assumes "ready q a" and "a_free_slot a = Some c"
  shows "left_alone (a_procs a q) (a_procs (a_mapped c l (a_spawn c pr a)) q)"
proof -
  have "q \<noteq> c" using found [OF assms(2) [unfolded a_free_slot_def]] assms(1) by (auto simp: ready_def)
  then show ?thesis using assms(1) by (simp add: ready_def a_mapped_def a_spawn_def Let_def)
qed


section \<open>Entry\<close>

definition valid :: "abs_state \<Rightarrow> kernel_state \<Rightarrow> bool" where
  "valid a k \<longleftrightarrow> abs_rel a (k_sys k) \<and> a_wf a \<and> all_ok a"

definition in_kernel :: "abs_state \<Rightarrow> kernel_state \<Rightarrow> bool" where
  "in_kernel a k \<longleftrightarrow> valid a k \<and> curr_pid (k_sys k) = 0"

definition in_user :: "abs_state \<Rightarrow> kernel_state \<Rightarrow> bool" where
  "in_user a k \<longleftrightarrow> valid a k \<and>
     (let p = curr_pid (k_sys k) in 0 < p \<and> p < MAX_PROC \<and> state (a_procs a p) = RUNNABLE \<and>
        used_size (buffer (a_procs a p)) = 0 \<and> write_addr (buffer (a_procs a p)) = 0)"

lemma k_sys_upd [simp]: "k_sys (k_proc_upd p f k) = proc_upd p f (k_sys k)" "k_timer (k_proc_upd p f k) = k_timer k"
  "k_alloc (k_proc_upd p f k) = k_alloc k" "k_err (k_proc_upd p f k) = k_err k"
  by (simp_all add: k_proc_upd_def)

lemma proc_upd_upd: "proc_upd p f (proc_upd p g s) = proc_upd p (\<lambda>d. f (g d)) s"
  by (simp add: proc_upd_def)

text \<open>What \<open>save_context\<close> does to the descriptor of the process that trapped.\<close>

lemma save_context_store:
  obtains F where "k_sys (save_context stack sp0 elr spsr hsp irq esr k) =
      (proc_upd (curr_pid (k_sys k)) F (k_sys k))\<lparr>last_pid := curr_pid (k_sys k), curr_pid := 0\<rparr>"
    and "data_store F"
    and "\<And>d. pid (F d) = pid d \<and> receiver_data (F d) = receiver_data d \<and> sender_data (F d) = sender_data d \<and>
           initialized (F d) = initialized d \<and> preempt (sched_conf (F d)) = preempt (sched_conf d) \<and>
           write_addr (buffer (F d)) = write_addr (buffer d)"
    and "\<And>d. used_size (buffer (F d)) = used_size (buffer d) \<or>
              used_size (buffer (F (procs (k_sys k) (curr_pid (k_sys k))))) = registers (saved_context (F (procs (k_sys k) (curr_pid (k_sys k))))) 2"
proof -
  define p where "p = curr_pid (k_sys k)"
  define R where "R = frame_registers stack hsp (registers (saved_context (procs (k_sys k) p)))"
  define saves where "saves = (irq = 0 \<and> (esr AND MASK 15 0 = 3 \<or> esr AND MASK 15 0 = 5) \<and> R 1 \<noteq> 0 \<and> R 2 > 0)"
  define G :: "proc_descriptor \<Rightarrow> proc_descriptor" where "G d =
     proc_err_update (\<lambda>_. k_err k) (mem_conf_update (\<lambda>c. c\<lparr>conf_heap_begin := heap_begin (k_alloc k),
         conf_end_offset := end_offset (k_alloc k), conf_global_base := global_base (k_alloc k)\<rparr>)
         (saved_context_update (\<lambda>c. c\<lparr>sp := sp0, pc := elr, pstate := spsr,
             registers := frame_registers stack hsp (registers c)\<rparr>)
           (sched_conf_update (\<lambda>c. c\<lparr>time_left := if irq \<noteq> 0 then 0 else get_curr_timer_value (k_timer k)\<rparr>) d)))" for d
  define B :: "buffer_t \<Rightarrow> buffer_t" where "B = (\<lambda>b. b\<lparr>used_size := R 2,
         buff := buf_move (buff b) (\<lambda>i. heap (k_alloc k) (R 1 + of_nat i)) (if R 2 < BUFF_SIZE then R 2 else BUFF_SIZE)\<rparr>)"
  define F :: "proc_descriptor \<Rightarrow> proc_descriptor" where "F = (\<lambda>d. if saves then buffer_update B (G d) else G d)"
  define k1 where "k1 = k_proc_upd p (sched_conf_update (\<lambda>c. c\<lparr>time_left :=
                 (if irq \<noteq> 0 then 0 else get_curr_timer_value (k_timer k))\<rparr>)) k"
  define k4 where "k4 = save_errno p (save_alloc_conf p (k_proc_upd p (saved_context_update (\<lambda>c. c\<lparr>sp := sp0, pc := elr, pstate := spsr,
                 registers := frame_registers stack hsp (registers c)\<rparr>))
       (k1\<lparr>k_timer := clear_ack_timer_irq (k_timer k1)\<rparr>)))"
  have k4: "k_sys k4 = proc_upd p G (k_sys k)" "heap (k_alloc k4) = heap (k_alloc k)"
    by (simp_all add: k4_def k1_def save_errno_def save_alloc_conf_def proc_upd_upd G_def [abs_def])
  have R: "reg (k_sys k4) p i = R i" for i by (simp add: k4 reg_def G_def R_def)
  define k5 where "k5 = (if irq = 0 then back_up_buff_svc p (esr AND MASK 15 0) k4 else k4)"
  have k5: "k_sys (if irq = 0 then back_up_buff_svc p (esr AND MASK 15 0) k4 else k4) = proc_upd p F (k_sys k)"
  proof -
    have "(if irq = 0 then back_up_buff_svc p (esr AND MASK 15 0) k4 else k4) =
        (if saves then k_proc_upd p (buffer_update B) k4 else k4)"
      unfolding back_up_buff_svc_def R k4(2) Let_def B_def saves_def by simp
    then show ?thesis by (cases saves) (simp_all add: k4(1) proc_upd_upd F_def)
  qed
  have "save_context stack sp0 elr spsr hsp irq esr k =
      k5\<lparr>k_sys := (k_sys k5)\<lparr>last_pid := curr_pid (k_sys k5), curr_pid := 0\<rparr>\<rparr>"
    unfolding save_context_def k5_def k4_def k1_def p_def Let_def ..
  then have sys: "k_sys (save_context stack sp0 elr spsr hsp irq esr k) =
      (proc_upd p F (k_sys k))\<lparr>last_pid := p, curr_pid := 0\<rparr>"
    by (simp add: k5 [folded k5_def] flip: p_def)
  have store: "data_store F" by (cases saves) (simp_all add: data_store_def proc_data_def F_def G_def)
  have size: "used_size (buffer (F d)) = used_size (buffer d) \<or>
      used_size (buffer (F (procs (k_sys k) p))) = registers (saved_context (F (procs (k_sys k) p))) 2" for d
    by (cases saves) (simp_all add: F_def G_def B_def R_def)
  have keep: "pid (F d) = pid d \<and> receiver_data (F d) = receiver_data d \<and> sender_data (F d) = sender_data d \<and>
           initialized (F d) = initialized d \<and> preempt (sched_conf (F d)) = preempt (sched_conf d) \<and>
           write_addr (buffer (F d)) = write_addr (buffer d)" for d
    by (simp add: F_def G_def B_def)
  show ?thesis
    by (rule that [OF sys [unfolded p_def] store keep size [unfolded p_def]])
qed

lemma abs_on_last: "abs_on L a s \<Longrightarrow> abs_on L (a\<lparr>a_last := p\<rparr>) (s\<lparr>last_pid := p\<rparr>)"
proof -
  assume A: "abs_on L a s"
  have "sched_rel (a_ready a) (s\<lparr>last_pid := p\<rparr>)" by (rule sched_rel_cong [OF abs_onD(3) [OF A]]) simp_all
  moreover have "tree_on L (a_kids a) (s\<lparr>last_pid := p\<rparr>)"
    by (rule tree_on_cong [OF abs_onD(4) [OF A] subset_refl]) (simp_all add: user_proc_def)
  ultimately show ?thesis using A by (simp add: abs_on_def)
qed

lemma save_context_inv:
  assumes user: "in_user a k"
  obtains a' where "in_kernel a' (save_context stack sp0 elr spsr hsp irq esr k)" and "running a'" and "svc_buffered a'"
proof -
  define p where "p = curr_pid (k_sys k)"
  obtain F where F: "k_sys (save_context stack sp0 elr spsr hsp irq esr k) =
      (proc_upd p F (k_sys k))\<lparr>last_pid := p, curr_pid := 0\<rparr>" "data_store F"
    and keep: "\<And>d. pid (F d) = pid d \<and> receiver_data (F d) = receiver_data d \<and> sender_data (F d) = sender_data d \<and>
           initialized (F d) = initialized d \<and> preempt (sched_conf (F d)) = preempt (sched_conf d) \<and>
           write_addr (buffer (F d)) = write_addr (buffer d)"
    and sz: "\<And>d. used_size (buffer (F d)) = used_size (buffer d) \<or>
              used_size (buffer (F (procs (k_sys k) p))) = registers (saved_context (F (procs (k_sys k) p))) 2"
    unfolding p_def by (rule save_context_store [of stack sp0 elr spsr hsp irq esr k]) blast
  have st: "state (F d) = state d" "priority (F d) = priority d" "parent_pid (F d) = parent_pid d"
    "F (proc_data d) = proc_data (F d)" for d
    using F(2) by (simp_all add: data_store_def)
  have v: "abs_rel a (k_sys k)" "a_wf a" "all_ok a" and p: "0 < p" "p < MAX_PROC" "state (a_procs a p) = RUNNABLE"
    "used_size (buffer (a_procs a p)) = 0" "write_addr (buffer (a_procs a p)) = 0"
    using user by (simp_all add: in_user_def valid_def p_def Let_def)
  note D = abs_onD [OF v(1) [unfolded abs_rel_def]]
  define a' where "a' = (a_upd p F a)\<lparr>a_last := p\<rparr>"
  have ap: "a_procs a' = (a_procs a)(p := F (a_procs a p))" "a_last a' = p" by (simp_all add: a'_def)
  have "a_live a' = a_live a" by (auto simp: a_live_def ap st)
  then have "abs_rel a' (k_sys (save_context stack sp0 elr spsr hsp irq esr k))"
    using abs_on_last [OF abs_on_store [OF v(1) [unfolded abs_rel_def] F(2), of p]]
    unfolding F(1) abs_rel_def a'_def by (simp only: abs_on_curr)
  moreover have "a_wf a'"
  proof -
    have "proc_ok p (F (a_procs a p))"
      using v(2) p keep by (auto simp: a_wf_def proc_ok_def st)
    then show ?thesis using v(2) by (simp add: a_wf_def ap)
  qed
  moreover have "all_ok a'"
  proof -
    have "desc_ok p (a_procs a p)" using v(3) p by (simp add: all_ok_def)
    then have "desc_ok p (F (a_procs a p))" using p keep by (simp add: desc_ok_def st msg_ok_def)
    then show ?thesis using v(3) by (simp add: all_ok_def ap)
  qed
  moreover have "running a'" using p by (simp add: running_def ap st)
  moreover have "svc_buffered a'"
    using sz [of "procs (k_sys k) p"] p(4) by (auto simp: svc_buffered_def ap D(2) st)
  ultimately show ?thesis
    by (intro that [of a']) (simp_all add: in_kernel_def valid_def F(1))
qed

section \<open>Exit\<close>

lemma schedule_user:
  assumes "in_kernel a k"
  shows "\<exists>out k'. schedule cntpct k = Some (out, k') \<and> (out = Running \<longrightarrow> (\<exists>a'. in_user a' k'))"
proof -
  have v: "abs_rel a (k_sys k)" "a_wf a" "all_ok a" and c: "curr_pid (k_sys k) = 0"
    using assms by (simp_all add: in_kernel_def valid_def)
  show ?thesis
  proof (cases "sched_pick cntpct (a_ready a)")
    case None
    then show ?thesis using schedule_abs [OF v c, of cntpct] by simp
  next
    case (Some prio)
    then obtain p ps k' where k': "prio \<le> MAX_PRIO" "a_ready a prio = p # ps" "schedule cntpct k = Some (Running, k')"
      "curr_pid (k_sys k') = p" "abs_rel (a_dispatch (k_alloc k) prio a) (k_sys k')"
      using schedule_abs [OF v c, of cntpct] by auto
    have p: "p < MAX_PROC" "state (a_procs a p) = RUNNABLE" "0 < p"
      using sched_relD(4) [OF abs_onD(3) [OF v(1) [unfolded abs_rel_def]] k'(1), of p] k'(2)
        abs_onD(2) [OF v(1) [unfolded abs_rel_def], of p] all_ok_not_kernel [OF v(3), of p] by auto
    have "in_user (a_dispatch (k_alloc k) prio a) k'"
      using k' p a_wf_dispatch [OF v(2)] all_ok_dispatch [OF v(3)]
      by (simp add: in_user_def valid_def Let_def) (simp add: a_dispatch_def a_enter_def a_rotate_def entered_def Let_def)
    with k'(3) show ?thesis by auto
  qed
qed

lemma run_last:
  assumes "in_kernel a k" and "running a" and p: "p = a_last a"
  obtains k' where "run_process (last_pid (k_sys k)) k = Some (Running, k')" and "last_pid (k_sys k) = p" and "0 < p"
    and "k_sys k' = (proc_upd p entered (proc_upd KERNEL_PID (mem_conf_update (load_conf (k_alloc k))) (k_sys k)))\<lparr>curr_pid := p\<rparr>"
proof -
  have v: "abs_rel a (k_sys k)" "a_wf a" "all_ok a" and c: "curr_pid (k_sys k) = 0"
    using assms by (simp_all add: in_kernel_def valid_def)
  note D = abs_onD [OF v(1) [unfolded abs_rel_def]]
  have p: "last_pid (k_sys k) = p" "0 < p" "p < MAX_PROC" "state (procs (k_sys k) p) = RUNNABLE"
    using assms(2) by (auto simp: p running_def D)
  have ok: "desc_ok p (a_procs a p)" and pid: "pid (procs (k_sys k) p) = p"
    using v(3) a_wfD(1) [OF v(2) p(3)] p by (auto simp: all_ok_def D)
  show thesis
    by (rule run_process_loaded [of "procs (k_sys k) p" k p]) (use p pid ok c that in \<open>auto simp: D(2) desc_ok_def\<close>)
qed

lemma run_last_user:
  assumes "in_kernel a k" and "running a"
  shows "\<exists>k' a'. run_process (last_pid (k_sys k)) k = Some (Running, k') \<and> in_user a' k'"
proof -
  define p where "p = a_last a"
  have v: "abs_rel a (k_sys k)" "a_wf a" "all_ok a"
    using assms by (simp_all add: in_kernel_def valid_def)
  obtain k' where k': "run_process (last_pid (k_sys k)) k = Some (Running, k')"
    "k_sys k' = (proc_upd p entered (proc_upd KERNEL_PID (mem_conf_update (load_conf (k_alloc k))) (k_sys k)))\<lparr>curr_pid := p\<rparr>"
    by (rule run_last [OF assms p_def])
  have "abs_rel (a_enter (k_alloc k) p a) (k_sys k')"
    using enter_abs [OF v(1) [unfolded abs_rel_def], of "k_alloc k" p] by (simp add: abs_rel_def k'(2))
  then have "in_user (a_enter (k_alloc k) p a) k'"
    using assms(2) a_wf_enter [OF v(2)] all_ok_enter [OF v(3)] k'(2)
    by (simp add: in_user_def valid_def Let_def running_def p_def) (simp add: a_enter_def entered_def)
  with k'(1) show ?thesis by auto
qed

section \<open>Traps\<close>

lemma on_sys_kernel:
  assumes "in_kernel a k" and "\<exists>t. f (k_sys k) = Some t \<and> abs_rel b t" and "a_wf b" and "all_ok b"
    and "\<And>t. f (k_sys k) = Some t \<Longrightarrow> curr_pid t = curr_pid (k_sys k)"
  shows "\<exists>k'. on_sys f k = Some k' \<and> in_kernel b k'"
proof -
  from assms(2) obtain t where t: "f (k_sys k) = Some t" "abs_rel b t" by blast
  have "in_kernel b (k\<lparr>k_sys := t\<rparr>)"
    using assms(1,3,4) assms(5) [OF t(1)] t(2) by (simp add: in_kernel_def valid_def)
  with t(1) show ?thesis by (simp add: on_sys_def)
qed

lemma svc_calls:
  assumes ker: "in_kernel a k" and run: "running a" and buf: "svc_buffered a"
  shows "\<exists>k'. on_sys syscall_exit k = Some k' \<and> in_kernel (spec_exit a) k'"
    and "\<exists>k'. on_sys syscall_wait k = Some k' \<and> in_kernel (spec_wait a) k'"
    and "\<exists>k'. on_sys syscall_send k = Some k' \<and> in_kernel (spec_send a) k'"
    and "\<exists>k'. on_sys syscall_receive k = Some k' \<and> in_kernel (spec_receive a) k'"
    and "spec_acknowledge a = Some b \<Longrightarrow> \<exists>k'. on_sys syscall_acknowledge k = Some k' \<and> in_kernel b k'"
    and "spec_acknowledge a = None \<Longrightarrow> on_sys syscall_acknowledge k = None"
proof -
  have v: "abs_rel a (k_sys k)" "a_wf a" "all_ok a" using ker by (simp_all add: in_kernel_def valid_def)
  show "\<exists>k'. on_sys syscall_exit k = Some k' \<and> in_kernel (spec_exit a) k'"
    by (rule on_sys_kernel [where f = syscall_exit, OF ker syscall_exit_abs [OF v(1,2) run] spec_exit_wf [OF v(2) run] spec_exit_ok [OF v(3) run]
          curr_pid_syscalls(1)])
  show "\<exists>k'. on_sys syscall_wait k = Some k' \<and> in_kernel (spec_wait a) k'"
    by (rule on_sys_kernel [where f = syscall_wait, OF ker syscall_wait_abs [OF v(1,2) run] spec_wait_wf [OF v(2) run] spec_wait_ok [OF v(3) run]
          curr_pid_syscalls(2)])
  show "\<exists>k'. on_sys syscall_send k = Some k' \<and> in_kernel (spec_send a) k'"
    by (rule on_sys_kernel [where f = syscall_send, OF ker syscall_send_abs [OF v(1,2) run buf] spec_send_wf [OF v(2) run buf]
          spec_send_ok [OF v(3) run buf] curr_pid_syscalls(3)])
  show "\<exists>k'. on_sys syscall_receive k = Some k' \<and> in_kernel (spec_receive a) k'"
    by (rule on_sys_kernel [where f = syscall_receive, OF ker syscall_receive_abs [OF v(1,2) run] spec_receive_wf [OF v(2) run]
          spec_receive_ok [OF v(3,2) run] curr_pid_syscalls(4)])
  note ack = syscall_acknowledge_abs [OF v(1,2) run buf]
  show "spec_acknowledge a = None \<Longrightarrow> on_sys syscall_acknowledge k = None"
    using ack by (simp add: on_sys_def)
  assume b: "spec_acknowledge a = Some b"
  then have "\<exists>t. syscall_acknowledge (k_sys k) = Some t \<and> abs_rel b t" using ack by simp
  then show "\<exists>k'. on_sys syscall_acknowledge k = Some k' \<and> in_kernel b k'"
    by (rule on_sys_kernel [where f = syscall_acknowledge, OF ker _ spec_acknowledge_wf [OF v(2) run b]
          spec_acknowledge_ok [OF v(3) run buf b] curr_pid_syscalls(5)])
qed

text \<open>What a system call leaves of a runnable process that did not make it.\<close>

lemma fork_left_alone:
  assumes ker: "in_kernel a k" and run: "running a" and fork: "syscall_fork ll k = Some k'"
  shows "\<exists>b. in_kernel b k' \<and> (\<forall>q. ready q a \<longrightarrow> left_alone (a_procs a q) (a_procs b q))"
proof -
  have v: "abs_rel a (k_sys k)" "a_wf a" "all_ok a" and c: "curr_pid (k_sys k) = 0"
    using ker by (simp_all add: in_kernel_def valid_def)
  have fail: "in_kernel (a_fail (a_last a) e a) (k\<lparr>k_sys := syscall_fail (a_last a) e (k_sys k)\<rparr>)" for e
    using v c a_wf_fail all_ok_fail syscall_fail_abs by (simp add: in_kernel_def valid_def abs_rel_def)
  have left_alone: "\<forall>q. ready q a \<longrightarrow> left_alone (a_procs a q) (a_procs (a_fail (a_last a) e a) q)" for e by (simp add: ready_def left_alone_fail)
  note paths = fork_paths [OF v(1) run fork_prio_def, where ll = ll]
  show ?thesis
  proof (cases "a_free_slot a")
    case None
    then show ?thesis using fail left_alone paths(1) fork by (metis option.inject)
  next
    case (Some p)
    show ?thesis
    proof (cases "fork_prio a > priority (a_procs a (a_last a))")
      case True
      then show ?thesis using fail left_alone paths(2) [OF Some] fork by (metis option.inject)
    next
      case False
      then have "0 \<le> fork_prio a" "fork_prio a \<le> priority (a_procs a (a_last a))"
        using paths(3) [OF Some] fork by fastforce+
      then show ?thesis
        using fork_abs [OF v run Some, of ll] fork c left_alone_spawn [OF _ Some]
        by (auto simp: in_kernel_def valid_def split: option.splits)
    qed
  qed
qed

lemma calls_left_alone:
  assumes ker: "in_kernel a k" and run: "running a" and buf: "svc_buffered a"
    and f: "f \<in> {syscall_fork ll, on_sys syscall_exit, on_sys syscall_wait, on_sys syscall_send, on_sys syscall_receive,
      on_sys syscall_acknowledge}" "f k = Some k1"
  shows "\<exists>b. in_kernel b k1 \<and> (\<forall>q. ready q a \<longrightarrow> left_alone (a_procs a q) (a_procs b q))"
proof -
  note calls = svc_calls [OF ker run buf]
  have ack: ?thesis if "on_sys syscall_acknowledge k = Some k1"
    using calls(5,6) that left_alone_acknowledge by (cases "spec_acknowledge a") auto
  show ?thesis
    using f fork_left_alone [OF ker run, of ll k1] ack left_alone_exit left_alone_wait left_alone_send left_alone_receive
      calls(1) calls(2) calls(3) calls(4) by (metis (no_types, lifting) insertE option.inject singletonD)
qed

text \<open>Every system call that does not stop the kernel ends in a running process or halts.\<close>

lemma svc_inv:
  assumes ker: "in_kernel a k" and run: "running a" and buf: "svc_buffered a"
    and svc: "c_el1_svc_aarch64_handler ll cntpct esr k = Some (Running, k')"
  shows "\<exists>b. in_user b k'"
proof -
  have sched: "\<exists>b. in_user b k'" if "f k \<bind> schedule cntpct = Some (Running, k')" "\<And>k1. f k = Some k1 \<Longrightarrow> \<exists>b. in_kernel b k1" for f
  proof -
    from that(1) obtain k1 where k1: "f k = Some k1" "schedule cntpct k1 = Some (Running, k')"
      by (auto simp: bind_eq_Some_conv)
    from that(2) [OF k1(1)] obtain b where "in_kernel b k1" ..
    from schedule_user [OF this, of cntpct] k1(2) show ?thesis by auto
  qed
  have "f \<in> {syscall_fork ll, on_sys syscall_exit, on_sys syscall_wait, on_sys syscall_send, on_sys syscall_receive,
      on_sys syscall_acknowledge} \<Longrightarrow> f k = Some k1 \<Longrightarrow> \<exists>b. in_kernel b k1" for f k1
    using calls_left_alone [OF ker run buf, of f ll k1] by blast
  then show ?thesis
    using svc run_last_user [OF ker run]
    unfolding c_el1_svc_aarch64_handler_def Let_def by (auto split: if_splits intro: sched)
qed

definition svc_code :: "u64 \<Rightarrow> u64" where
  "svc_code esr = esr AND MASK 15 0"

lemma svc_total:
  assumes ker: "in_kernel a k" and run: "running a" and buf: "svc_buffered a" and code: "svc_code esr \<in> {1, 2, 3, 4, 101}"
  shows "\<exists>r. c_el1_svc_aarch64_handler ll cntpct esr k = Some r"
proof -
  have sched: "\<exists>r. (on_sys f k \<bind> schedule cntpct) = Some r" if "\<exists>k1. on_sys f k = Some k1 \<and> in_kernel b k1" for f b
  proof -
    from that obtain k1 where "on_sys f k = Some k1" "in_kernel b k1" by blast
    then show ?thesis using schedule_user [of b k1 cntpct] by auto
  qed
  note calls = svc_calls [OF ker run buf]
  have "\<exists>r. (on_sys f k \<bind> schedule cntpct) = Some r" if "f \<in> {syscall_exit, syscall_wait, syscall_send, syscall_receive}" for f
    using that sched [OF calls(1)] sched [OF calls(2)] sched [OF calls(3)] sched [OF calls(4)] by auto
  then show ?thesis
    using code run_last_user [OF ker run] unfolding c_el1_svc_aarch64_handler_def Let_def svc_code_def [symmetric] by auto
qed

section \<open>Runs of the machine\<close>

text \<open>
  One step of the machine while a process runs: the process computes (it can change memory and the
  globals of its libraries, but not the process table), a memory fault is handled, or it traps into
  the kernel, which comes back with a process (the same or another) running.
\<close>

inductive kernel_step :: "link_layout \<Rightarrow> kernel_state \<Rightarrow> kernel_state \<Rightarrow> bool" for ll where
  user: "k_sys k' = k_sys k \<Longrightarrow> kernel_step ll k k'"
| fault: "c_sync_handler sp0 esr far k = Some k' \<Longrightarrow> kernel_step ll k k'"
| svc: "c_el1_svc_aarch64_handler ll cntpct esr (save_context stack sp0 elr spsr hsp 0 esr k) = Some (Running, k') \<Longrightarrow>
        kernel_step ll k k'"
| irq: "c_timer_irq_handler cntpct (save_context stack sp0 elr spsr hsp 1 esr k) = Some (Running, k') \<Longrightarrow>
        kernel_step ll k k'"

inductive_cases kernel_stepE: "kernel_step ll k k'"

lemma fault_sys: "c_sync_handler sp0 esr far k = Some k' \<Longrightarrow> k_sys k' = k_sys k"
  by (auto simp: c_sync_handler_def instruction_abort_handler_def data_abort_handler_def abort_handler_def on_mmu_def
      Let_def bind_eq_Some_conv split: if_splits)

lemma in_user_sys: "k_sys k' = k_sys k \<Longrightarrow> in_user a k' = in_user a k"
  by (simp add: in_user_def valid_def)

lemma in_kernel_timer [simp]: "in_kernel a (k\<lparr>k_timer := t\<rparr>) = in_kernel a k"
  by (simp add: in_kernel_def valid_def)

lemma timer_user:
  assumes "in_user a k"
  shows "\<exists>out k'. c_timer_irq_handler cntpct (save_context stack sp0 elr spsr hsp irq esr k) = Some (out, k') \<and>
           (out = Running \<longrightarrow> (\<exists>b. in_user b k'))"
proof -
  obtain b where "in_kernel b (save_context stack sp0 elr spsr hsp irq esr k)"
    using save_context_inv [OF assms] by blast
  then show ?thesis unfolding c_timer_irq_handler_def by (intro schedule_user) simp
qed

lemma kernel_step_user:
  assumes "kernel_step ll k k'" and "in_user a k"
  shows "\<exists>b. in_user b k'"
  using assms(1)
proof cases
  case user
  then show ?thesis using assms(2) in_user_sys by blast
next
  case fault
  then show ?thesis using assms(2) in_user_sys fault_sys by blast
next
  case (svc cntpct esr stack sp0 elr spsr hsp)
  obtain b where "in_kernel b (save_context stack sp0 elr spsr hsp 0 esr k)" "running b" "svc_buffered b"
    using save_context_inv [OF assms(2)] .
  then show ?thesis using svc_inv svc by blast
next
  case (irq cntpct stack sp0 elr spsr hsp esr)
  then show ?thesis using timer_user [OF assms(2), of cntpct stack sp0 elr spsr hsp 1 esr] by auto
qed

lemma run_invariant: "(kernel_step ll)\<^sup>*\<^sup>* k0 k \<Longrightarrow> in_user a0 k0 \<Longrightarrow> \<exists>a. in_user a k"
  by (induction rule: rtranclp_induct) (auto dest: kernel_step_user)

section \<open>Properties\<close>

definition example_running_kernel :: kernel_state where
  "example_running_kernel = example_kernel\<lparr>k_sys := example_sys\<lparr>curr_pid := 1\<rparr>\<rparr>"

lemma example_in_user: "in_user example_abs example_running_kernel"
proof -
  have "abs_rel example_abs (example_sys\<lparr>curr_pid := 1\<rparr>)"
    using example_rel unfolding abs_rel_def abs_on_curr .
  then show ?thesis
    using example_wf example_all_ok
    by (simp add: in_user_def valid_def example_running_kernel_def Let_def)
       (simp add: example_abs_def example_procs_def new_proc_descriptor_def Let_def)
qed

text \<open>
  C3. The invariant of the whole kernel: in every state that the machine reaches while processes
  run, trap, fault and are scheduled, the process table implements some abstract table whose
  descriptors are well formed, the rings of the ready queues and of the process tree are intact,
  the counters agree with them, and the process that runs is a runnable one with an empty message buffer.
\<close>

theorem kernel_run_invariant:
  assumes "(kernel_step ll)\<^sup>*\<^sup>* k0 k" and "in_user a0 k0"
  shows "\<exists>a. in_user a k"
  using assms by (rule run_invariant)

theorem kernel_run_invariant_witness:
  "in_user example_abs example_running_kernel \<and>
   (\<exists>a. in_user a (example_running_kernel\<lparr>k_err := \<lparr>err_no = NO_CHILD, err_data = 5\<rparr>\<rparr>))"
proof -
  let ?step = "kernel_step (linker_symbols 0x1000 0x2200000)"
  have "?step example_running_kernel (example_running_kernel\<lparr>k_err := \<lparr>err_no = NO_CHILD, err_data = 5\<rparr>\<rparr>)"
    by (rule kernel_step.user) simp
  then have "?step\<^sup>*\<^sup>* example_running_kernel (example_running_kernel\<lparr>k_err := \<lparr>err_no = NO_CHILD, err_data = 5\<rparr>\<rparr>)"
    by (rule r_into_rtranclp [of ?step])
  from kernel_run_invariant [OF this example_in_user] example_in_user show ?thesis by blast
qed

end
