(* ===== verification/Messages.thy ===== *)
theory Messages
  imports Kernel_Loop
begin

text \<open>
  Messages between processes, from trap to delivery: what a process sends is what the memory of the receiver holds when the receiver
  runs again, whatever happens in between.
\<close>

section \<open>Steps\<close>

text \<open>The scheduler gives the process that it picks its pending message, and leaves the others alone.\<close>

lemma schedule_left_alone:
  assumes ker: "in_kernel a k" and run: "schedule cntpct k = Some (Running, k')" and q: "q \<noteq> 0"
  shows "\<exists>b. in_user b k'"
    and "q \<noteq> curr_pid (k_sys k') \<Longrightarrow> proc_data (procs (k_sys k') q) = proc_data (procs (k_sys k) q)"
    and "q = curr_pid (k_sys k') \<Longrightarrow> heap (k_alloc k') = delivered (buffer (procs (k_sys k) q)) (heap (k_alloc k)) \<and>
      saved_context (procs (k_sys k') q) = saved_context (procs (k_sys k) q) \<and> state (procs (k_sys k') q) = state (procs (k_sys k) q)"
proof -
  show "\<exists>b. in_user b k'" using schedule_user [OF ker, of cntpct] run by auto
  have v: "abs_rel a (k_sys k)" "a_wf a" "all_ok a" "curr_pid (k_sys k) = 0"
    using ker by (simp_all add: in_kernel_def valid_def)
  obtain prio p ps where p: "a_ready a prio = p # ps" "curr_pid (k_sys k') = p" "loaded (refill (a_procs a p)) k k'"
    "abs_rel (a_dispatch (k_alloc k) prio a) (k_sys k')"
    using schedule_abs [OF v, of cntpct] run by (auto split: option.splits)
  have D: "a_procs a x = proc_data (procs (k_sys k) x)" "a_procs (a_dispatch (k_alloc k) prio a) x = proc_data (procs (k_sys k') x)" for x
    using abs_onD(2) v(1) p(4) unfolding abs_rel_def by blast+
  show "proc_data (procs (k_sys k') q) = proc_data (procs (k_sys k) q)" if "q \<noteq> curr_pid (k_sys k')"
    using that q p(1,2) D(2) [of q] by (simp add: a_dispatch_def a_enter_def a_rotate_def Let_def D(1))
  assume e: "q = curr_pid (k_sys k')"
  have "saved_context (a_procs (a_dispatch (k_alloc k) prio a) q) = saved_context (a_procs a q)" "state (a_procs (a_dispatch (k_alloc k) prio a) q) = state (a_procs a q)"
    using e q p(1,2) by (simp_all add: a_dispatch_def a_enter_def a_rotate_def Let_def entered_def)
  then show "heap (k_alloc k') = delivered (buffer (procs (k_sys k) q)) (heap (k_alloc k)) \<and>
      saved_context (procs (k_sys k') q) = saved_context (procs (k_sys k) q) \<and> state (procs (k_sys k') q) = state (procs (k_sys k) q)"
    using p(2,3) e unfolding D by (simp add: loaded_def D(1))
qed


lemma trap_entry:
  assumes user: "in_user a k" and q: "q \<noteq> curr_pid (k_sys k)" "state (procs (k_sys k) q) = RUNNABLE"
  obtains b where "in_kernel b (save_context stack sp0 elr spsr hsp irq esr k)" and "running b" and "svc_buffered b"
    and "ready q b" and "procs (k_sys (save_context stack sp0 elr spsr hsp irq esr k)) q = procs (k_sys k) q"
proof -
  define s where "s = k_sys (save_context stack sp0 elr spsr hsp irq esr k)"
  obtain F where F: "s = (proc_upd (curr_pid (k_sys k)) F (k_sys k))\<lparr>last_pid := curr_pid (k_sys k), curr_pid := 0\<rparr>"
    unfolding s_def by (rule save_context_store [of stack sp0 elr spsr hsp irq esr k]) blast
  have p: "procs s q = procs (k_sys k) q" "last_pid s = curr_pid (k_sys k)" using q(1) by (simp_all add: F)
  obtain b where b: "in_kernel b (save_context stack sp0 elr spsr hsp irq esr k)" "running b" "svc_buffered b"
    using save_context_inv [OF user] .
  then have "abs_on (a_live b) b s" by (simp add: in_kernel_def valid_def abs_rel_def s_def)
  note D = abs_onD [OF this]
  have "ready q b" using q p by (simp add: ready_def D)
  then show thesis using that b p(1) by (simp add: s_def)
qed

definition resumed :: "nat \<Rightarrow> kernel_state \<Rightarrow> kernel_state \<Rightarrow> bool" where
  "resumed q k k' \<longleftrightarrow> saved_context (procs (k_sys k') q) = saved_context (procs (k_sys k) q) \<and>
     (\<exists>h. heap (k_alloc k') = delivered (buffer (procs (k_sys k) q)) h)"

lemma schedule_resumes:
  assumes ker: "in_kernel a k" and run: "schedule cntpct k = Some (Running, k')" and q: "q \<noteq> 0"
    and old: "left_alone (procs (k_sys k0) q) (procs (k_sys k) q)"
  shows "if curr_pid (k_sys k') = q then resumed q k0 k' else left_alone (procs (k_sys k0) q) (procs (k_sys k') q)"
  using schedule_left_alone [OF ker run q] old left_alone_data [of "procs (k_sys k) q" "procs (k_sys k') q"] left_alone_trans [OF old]
  by (auto simp: resumed_def left_alone_def)

lemma step_left_alone:
  assumes step: "kernel_step ll k k'" and user: "in_user a k" and q: "q \<noteq> curr_pid (k_sys k)" "state (procs (k_sys k) q) = RUNNABLE"
  shows "if curr_pid (k_sys k') = q then resumed q k k' else left_alone (procs (k_sys k) q) (procs (k_sys k') q)"
proof -
  have "all_ok a" "a_procs a q = proc_data (procs (k_sys k) q)"
    using user abs_onD(2) by (auto simp: in_user_def valid_def abs_rel_def)
  then have q0: "q \<noteq> 0" using all_ok_not_kernel [of a q] q(2) by simp
  have idle: ?thesis if "k_sys k' = k_sys k" using that q by simp
  show ?thesis
    using step
  proof cases
    case user
    then show ?thesis by (rule idle)
  next
    case fault
    then show ?thesis using fault_sys idle by blast
  next
    case (svc cntpct esr stack sp0 elr spsr hsp)
    let ?k = "save_context stack sp0 elr spsr hsp 0 esr k"
    obtain b where b: "in_kernel b ?k" "running b" "svc_buffered b" "ready q b" "procs (k_sys ?k) q = procs (k_sys k) q"
      using trap_entry [OF user q] .
    have sched: ?thesis if f: "f \<in> {syscall_fork ll, on_sys syscall_exit, on_sys syscall_wait, on_sys syscall_send, on_sys syscall_receive,
        on_sys syscall_acknowledge}" "f ?k \<bind> schedule cntpct = Some (Running, k')" for f
    proof -
      from f(2) obtain k1 where k1: "f ?k = Some k1" "schedule cntpct k1 = Some (Running, k')" by (auto simp: bind_eq_Some_conv)
      obtain c where c: "in_kernel c k1" "left_alone (a_procs b q) (a_procs c q)"
        using calls_left_alone [OF b(1-3) f(1) k1(1)] b(4) by blast
      have "a_procs b q = proc_data (procs (k_sys k) q)" "a_procs c q = proc_data (procs (k_sys k1) q)"
        using b(1,5) c(1) abs_onD(2) by (fastforce simp: in_kernel_def valid_def abs_rel_def)+
      then have "left_alone (procs (k_sys k) q) (procs (k_sys k1) q)" using c(2) by (simp add: left_alone_def)
      then show ?thesis by (rule schedule_resumes [OF c(1) k1(2) q0])
    qed
    have test: ?thesis if t: "run_process (last_pid (k_sys ?k)) ?k = Some (Running, k')"
    proof -
      obtain k1 where k1: "run_process (last_pid (k_sys ?k)) ?k = Some (Running, k1)"
        "k_sys k1 = (proc_upd (a_last b) entered (proc_upd KERNEL_PID (mem_conf_update (load_conf (k_alloc ?k))) (k_sys ?k)))\<lparr>curr_pid := a_last b\<rparr>"
        by (rule run_last [OF b(1,2) refl])
      then have "k1 = k'" using t by simp
      then show ?thesis using k1(2) q0 b(4,5) by (simp add: ready_def)
    qed
    have "(\<exists>f\<in>{syscall_fork ll, on_sys syscall_exit, on_sys syscall_wait, on_sys syscall_send, on_sys syscall_receive,
        on_sys syscall_acknowledge}. f ?k \<bind> schedule cntpct = Some (Running, k')) \<or> run_process (last_pid (k_sys ?k)) ?k = Some (Running, k')"
      using svc unfolding c_el1_svc_aarch64_handler_def Let_def by (simp split: if_splits)
    then show ?thesis using sched test by blast
  next
    case (irq cntpct stack sp0 elr spsr hsp esr)
    let ?k = "save_context stack sp0 elr spsr hsp 1 esr k"
    obtain b where b: "in_kernel b ?k" "running b" "svc_buffered b" "ready q b" "procs (k_sys ?k) q = procs (k_sys k) q"
      using trap_entry [OF user q] .
    then show ?thesis
      using irq schedule_resumes [of b "?k\<lparr>k_timer := clear_ack_timer_irq (k_timer ?k)\<rparr>" cntpct k' q k] q0
      by (simp add: c_timer_irq_handler_def)
  qed
qed


section \<open>Delivery\<close>

text \<open>Runs of the machine until process \<open>q\<close> has the processor.\<close>

inductive runs_next :: "link_layout \<Rightarrow> nat \<Rightarrow> kernel_state \<Rightarrow> kernel_state \<Rightarrow> bool" for ll q where
  here: "curr_pid (k_sys k) = q \<Longrightarrow> runs_next ll q k k"
| later: "curr_pid (k_sys k) \<noteq> q \<Longrightarrow> kernel_step ll k k1 \<Longrightarrow> runs_next ll q k1 k' \<Longrightarrow> runs_next ll q k k'"

inductive_simps runs_next_here: "runs_next ll (curr_pid (k_sys k)) k k'"

lemma runs_next_resumed:
  assumes "runs_next ll q k k'" and "in_user a k" and "curr_pid (k_sys k) \<noteq> q" and "state (procs (k_sys k) q) = RUNNABLE"
  shows "resumed q k k'"
  using assms
proof (induction arbitrary: a rule: runs_next.induct)
  case (here k)
  then show ?case by simp
next
  case (later k k1 k')
  note left_alone = step_left_alone [OF later.hyps(2) later.prems(1) _ later.prems(3)]
  show ?case
  proof (cases "curr_pid (k_sys k1) = q")
    case True
    then have "k' = k1" using later.hyps(3) runs_next_here [of ll k1 k'] by simp
    then show ?thesis using left_alone True later.hyps(1) by auto
  next
    case False
    then have k1: "left_alone (procs (k_sys k) q) (procs (k_sys k1) q)" using left_alone later.hyps(1) by auto
    moreover obtain b where "in_user b k1" using kernel_step_user [OF later.hyps(2) later.prems(1)] ..
    ultimately have "resumed q k1 k'" using later.IH False later.prems(3) by (simp add: left_alone_def)
    then show ?thesis using k1 by (simp add: resumed_def left_alone_def)
  qed
qed

text \<open>What the kernel has saved when a process traps with \<open>send\<close> or \<open>acknowledge\<close>.\<close>

lemma save_context_message:
  assumes p: "p = curr_pid (k_sys k)" and R: "R = frame_registers stack hsp (registers (saved_context (procs (k_sys k) p)))"
    and svc: "svc_code esr \<in> {3, 5}" and m: "R 1 \<noteq> 0" "0 < R 2" "R 2 \<le> BUFF_SIZE"
    and s: "s = k_sys (save_context stack sp0 elr spsr hsp 0 esr k)"
  shows "registers (saved_context (procs s p)) = R" and "used_size (buffer (procs s p)) = R 2"
    and "i < unat (R 2) \<Longrightarrow> buff (buffer (procs s p)) i = heap (k_alloc k) (R 1 + of_nat i)" and "q \<noteq> p \<Longrightarrow> procs s q = procs (k_sys k) q" and "last_pid s = p"
    and "receiver_data (procs s p) = receiver_data (procs (k_sys k) p)"
  using m svc unfolding s
  by (auto simp: save_context_def Let_def back_up_buff_svc_def save_errno_def save_alloc_conf_def k_proc_upd_def proc_upd_def reg_def buf_move_def
      svc_code_def p [symmetric] R [symmetric])


lemma schedule_runs:
  assumes ker: "in_kernel a k" and q: "q < MAX_PROC" "state (procs (k_sys k) q) = RUNNABLE"
  shows "\<exists>k'. schedule cntpct k = Some (Running, k')"
proof -
  have v: "abs_rel a (k_sys k)" "a_wf a" "all_ok a" "curr_pid (k_sys k) = 0"
    using ker by (simp_all add: in_kernel_def valid_def)
  have rel: "sched_rel (a_ready a) (k_sys k)" using abs_onD(3) [OF v(1) [unfolded abs_rel_def]] .
  then have "prio_ok (priority (procs (k_sys k) q))" using q by (simp add: sched_rel_def)
  then obtain j where j: "priority (procs (k_sys k) q) = int j" "j \<le> MAX_PRIO"
    unfolding prio_ok_def by (metis nat_le_iff nat_0_le)
  then have "a_ready a j \<noteq> []" using sched_relD(4) [OF rel j(2), of q] q by auto
  then have "sched_pick cntpct (a_ready a) \<noteq> None" using j(2) by (auto simp: sched_pick_def)
  then show ?thesis using schedule_abs [OF v, of cntpct] by (auto split: option.splits)
qed

text \<open>A process that a system call has made runnable resumes with what the call left in its descriptor.\<close>

lemma resumes_later:
  assumes ker: "in_kernel c k2" and q: "q < MAX_PROC" "state (procs (k_sys k2) q) = RUNNABLE"
  obtains k1 where "schedule cntpct k2 = Some (Running, k1)" and "\<And>x. x \<noteq> 0 \<Longrightarrow> state (procs (k_sys k1) x) = state (procs (k_sys k2) x)"
    and "\<And>k'. runs_next ll q k1 k' \<Longrightarrow> resumed q k2 k'"
proof -
  obtain k1 where k1: "schedule cntpct k2 = Some (Running, k1)" using schedule_runs [OF ker q] by blast
  have "all_ok c" "a_procs c q = proc_data (procs (k_sys k2) q)" using ker abs_onD(2) by (auto simp: in_kernel_def valid_def abs_rel_def)
  then have q0: "q \<noteq> 0" using all_ok_not_kernel [of c q] q(2) by simp
  have "state (procs (k_sys k1) x) = state (procs (k_sys k2) x)" if "x \<noteq> 0" for x
    using schedule_left_alone(2,3) [OF ker k1 that] by (metis proc_data_simps(4))
  moreover have "resumed q k2 k'" if run: "runs_next ll q k1 k'" for k'
  proof (cases "curr_pid (k_sys k1) = q")
    case True
    then show ?thesis using schedule_resumes [OF ker k1 q0 left_alone_refl] run runs_next_here [of ll k1 k'] by simp
  next
    case False
    then have old: "left_alone (procs (k_sys k2) q) (procs (k_sys k1) q)" using schedule_resumes [OF ker k1 q0 left_alone_refl] by simp
    obtain b where b: "in_user b k1" using schedule_left_alone(1) [OF ker k1 q0] ..
    have "resumed q k1 k'" by (rule runs_next_resumed [OF run b False]) (use old q(2) in \<open>simp add: left_alone_def\<close>)
    then show ?thesis using old by (simp add: resumed_def left_alone_def)
  qed
  ultimately show thesis using that [OF k1] by blast
qed

lemma resumed_bytes:
  assumes "resumed q k2 k'" and "b = buffer (procs (k_sys k2) q)" "write_addr b \<noteq> 0" and "i < unat (used_size b)"
  shows "heap (k_alloc k') (write_addr b + of_nat i) = buff b i"
proof -
  obtain h where h: "heap (k_alloc k') = delivered b h" using assms(1,2) by (auto simp: resumed_def)
  have "i < 2 ^ 64" using assms(4) unsigned_less [of "used_size b", where ?'a = nat] by (simp add: less_trans)
  then have "unat (write_addr b + of_nat i - write_addr b) = i" by (simp add: unat_of_nat take_bit_nat_eq_self)
  then show ?thesis using assms(3,4) by (simp add: h delivered_def)
qed

text \<open>The table after a message has been handed over.\<close>

lemma send_connects:
  assumes abs: "abs_rel b s" and wf: "a_wf b" and run: "running b" and t: "abs_rel (spec_send b) t" and p: "p = last_pid s" "R = registers (saved_context (procs s p))"
    and q: "int_of_u64 (R 0) = int q" "q < MAX_PROC" "state (procs s q) = LISTENING_CH"
    and m: "used_size (buffer (procs s p)) = R 2" "R 2 \<le> BUFF_SIZE" "R 2 \<le> receive_size (receiver_data (procs s q))"
  shows "state (procs t p) = SENDING_CH" and "state (procs t q) = RUNNABLE" and "registers (saved_context (procs t q)) 0 = of_nat p"
    and "used_size (buffer (procs t q)) = R 2" and "write_addr (buffer (procs t q)) = receive_data (receiver_data (procs s q))"
    and "i < unat (R 2) \<Longrightarrow> buff (buffer (procs t q)) i = buff (buffer (procs s p)) i"
proof -
  note B = abs_onD(1,2) [OF abs [unfolded abs_rel_def]]
  have ran: "p < MAX_PROC" "state (procs s p) = RUNNABLE" using run by (simp_all add: running_def B p(1))
  then have pid: "pid (procs s p) = p" using a_wfD(1) [OF wf ran(1)] by (simp add: B)
  have pq: "p \<noteq> q" using ran q(3) by auto
  define b1 where "b1 = a_upd p (sender_data_update (\<lambda>d. d\<lparr>target_pid := int q, send_size := R 2, ack_data := R 3, ack_size := R 4\<rparr>)) b"
  have "spec_send b = a_connect p q b1"
    using q m(2) by (simp add: spec_send_def Let_def b1_def B p(1) [symmetric] p(2) [symmetric])
  moreover have "a_connect p q b1 = a_change q RUNNABLE (a_change p SENDING_CH (a_upd p message_sent (a_upd q (deliver_msg (a_procs b1 p)) b1)))"
    using m(3) pq by (simp add: a_connect_def b1_def B)
  ultimately have T: "proc_data (procs t x) = a_procs (a_change q RUNNABLE (a_change p SENDING_CH (a_upd p message_sent (a_upd q (deliver_msg (a_procs b1 p)) b1)))) x" for x
    using abs_onD(2) [OF t [unfolded abs_rel_def], of x] by simp
  have tp: "state (proc_data (procs t p)) = SENDING_CH" using pq by (simp add: T)
  have tq: "proc_data (procs t q) = (deliver_msg (a_procs b1 p) (a_procs b q))\<lparr>state := RUNNABLE\<rparr>" using pq by (simp add: T b1_def)
  have tq': "state (proc_data (procs t q)) = RUNNABLE" "registers (saved_context (proc_data (procs t q))) 0 = of_nat p"
    "buffer (proc_data (procs t q)) = (buffer (procs s q))\<lparr>used_size := R 2, write_addr := receive_data (receiver_data (procs s q)),
       buff := buf_move (buff (buffer (procs s q))) (buff (buffer (procs s p))) (R 2)\<rparr>"
    unfolding tq using pid by (simp_all add: deliver_msg_def set_r0_def b1_def B m(1))
  show "state (procs t p) = SENDING_CH" "state (procs t q) = RUNNABLE" "registers (saved_context (procs t q)) 0 = of_nat p"
    "used_size (buffer (procs t q)) = R 2" "write_addr (buffer (procs t q)) = receive_data (receiver_data (procs s q))"
    "i < unat (R 2) \<Longrightarrow> buff (buffer (procs t q)) i = buff (buffer (procs s p)) i"
    using tp tq' by (simp_all add: buf_move_def)
qed

text \<open>What \<open>send\<close> to a listening process leaves for the receiver to find.\<close>

lemma send_hands_over:
  assumes user: "in_user a k" and p: "p = curr_pid (k_sys k)"
    and R: "R = frame_registers stack hsp (registers (saved_context (procs (k_sys k) p)))" and svc: "svc_code esr = 3"
    and q: "int_of_u64 (R 0) = int q" "q < MAX_PROC" "state (procs (k_sys k) q) = LISTENING_CH"
    and d: "rd = receiver_data (procs (k_sys k) q)"
    and m: "R 1 \<noteq> 0" "0 < R 2" "R 2 \<le> BUFF_SIZE" "R 2 \<le> receive_size rd"
  obtains k1 k2 where "c_el1_svc_aarch64_handler ll cntpct esr (save_context stack sp0 elr spsr hsp 0 esr k) = Some (Running, k1)"
    and "state (procs (k_sys k1) p) = SENDING_CH" and "\<And>k'. runs_next ll q k1 k' \<Longrightarrow> resumed q k2 k'"
    and "registers (saved_context (procs (k_sys k2) q)) 0 = of_nat p" and "used_size (buffer (procs (k_sys k2) q)) = R 2"
    and "write_addr (buffer (procs (k_sys k2) q)) = receive_data rd"
    and "\<And>i. i < unat (R 2) \<Longrightarrow> buff (buffer (procs (k_sys k2) q)) i = heap (k_alloc k) (R 1 + of_nat i)"
proof -
  define k0 where "k0 = save_context stack sp0 elr spsr hsp 0 esr k"
  define s where "s = k_sys k0"
  have code: "svc_code esr \<in> {3, 5}" using svc by simp
  note saved = save_context_message [OF p R code m(1-3) s_def [unfolded k0_def]]
  obtain b where b: "in_kernel b k0" "running b" "svc_buffered b" using save_context_inv [OF user] unfolding k0_def .
  obtain k2 where k2: "on_sys syscall_send k0 = Some k2" "in_kernel (spec_send b) k2" using svc_calls(3) [OF b] by blast
  have run: "state (procs (k_sys k) p) = RUNNABLE" "p \<noteq> 0"
    using user abs_onD(2) by (fastforce simp: in_user_def valid_def abs_rel_def Let_def p)+
  then have "q \<noteq> p" using q(3) by auto
  then have "procs s q = procs (k_sys k) q" by (rule saved(4))
  then have sq: "state (procs s q) = LISTENING_CH" "receiver_data (procs s q) = rd" using q(3) d by simp_all
  have abs: "abs_rel b s" "a_wf b" "abs_rel (spec_send b) (k_sys k2)" using b(1) k2(2) by (simp_all add: in_kernel_def valid_def s_def)
  note sent = send_connects [OF abs(1,2) b(2) abs(3) saved(5) [symmetric] saved(1) [symmetric] q(1,2) sq(1) saved(2) m(3), unfolded sq(2), OF m(4)]
  obtain k1 where k1: "schedule cntpct k2 = Some (Running, k1)" "\<And>x. x \<noteq> 0 \<Longrightarrow> state (procs (k_sys k1) x) = state (procs (k_sys k2) x)"
    and later: "\<And>k'. runs_next ll q k1 k' \<Longrightarrow> resumed q k2 k'"
    using resumes_later [OF k2(2) q(2) sent(2), of cntpct ll] by blast
  have "c_el1_svc_aarch64_handler ll cntpct esr k0 = Some (Running, k1)"
    using svc k1(1) k2(1) by (simp add: c_el1_svc_aarch64_handler_def Let_def svc_code_def)
  moreover have "state (procs (k_sys k1) p) = SENDING_CH" using k1(2) [OF run(2)] sent(1) by simp
  ultimately show thesis
    using that [OF _ _ later sent(3-5), unfolded k0_def [symmetric]] sent(6) saved(3) by simp
qed

text \<open>
  C4. Messages arrive as they were sent. When a process sends to a process that listens with room for the message, the kernel suspends it
  until the answer and makes the receiver runnable; whatever the other processes do until the receiver has the
  processor again, its memory then holds at the address it gave to \<open>receive\<close> the bytes that the sender had at the trap,
  and the call returns the sender's number.
\<close>

theorem message_delivered:
  assumes user: "in_user a k" and p: "p = curr_pid (k_sys k)"
    and R: "R = frame_registers stack hsp (registers (saved_context (procs (k_sys k) p)))" and svc: "svc_code esr = 3"
    and q: "int_of_u64 (R 0) = int q" "q < MAX_PROC" "state (procs (k_sys k) q) = LISTENING_CH"
    and d: "rd = receiver_data (procs (k_sys k) q)" "receive_data rd \<noteq> 0"
    and m: "R 1 \<noteq> 0" "0 < R 2" "R 2 \<le> BUFF_SIZE" "R 2 \<le> receive_size rd"
  shows "\<exists>k1. c_el1_svc_aarch64_handler ll cntpct esr (save_context stack sp0 elr spsr hsp 0 esr k) = Some (Running, k1) \<and>
     state (procs (k_sys k1) p) = SENDING_CH \<and>
     (\<forall>k'. runs_next ll q k1 k' \<longrightarrow> registers (saved_context (procs (k_sys k') q)) 0 = of_nat p \<and>
        (\<forall>i<unat (R 2). heap (k_alloc k') (receive_data rd + of_nat i) = heap (k_alloc k) (R 1 + of_nat i)))"
proof -
  obtain k1 k2 where k1: "c_el1_svc_aarch64_handler ll cntpct esr (save_context stack sp0 elr spsr hsp 0 esr k) = Some (Running, k1)"
    "state (procs (k_sys k1) p) = SENDING_CH" and later: "\<And>k'. runs_next ll q k1 k' \<Longrightarrow> resumed q k2 k'"
    and k2: "registers (saved_context (procs (k_sys k2) q)) 0 = of_nat p" "used_size (buffer (procs (k_sys k2) q)) = R 2"
    "write_addr (buffer (procs (k_sys k2) q)) = receive_data rd"
    "\<And>i. i < unat (R 2) \<Longrightarrow> buff (buffer (procs (k_sys k2) q)) i = heap (k_alloc k) (R 1 + of_nat i)"
    using send_hands_over [OF user p R svc q d(1) m, of ll cntpct sp0 elr spsr] by metis
  have "registers (saved_context (procs (k_sys k') q)) 0 = of_nat p" if "runs_next ll q k1 k'" for k'
    using later [OF that] k2(1) by (simp add: resumed_def)
  moreover have "heap (k_alloc k') (receive_data rd + of_nat i) = heap (k_alloc k) (R 1 + of_nat i)" if "runs_next ll q k1 k'" "i < unat (R 2)" for k' i
    using resumed_bytes [OF later [OF that(1)] refl, of i] that(2) d(2) k2(2,3) k2(4) [OF that(2)] by simp
  ultimately show ?thesis using k1 by blast
qed

text \<open>Process 1 sends four bytes at 0x9000 to process 3, which listens with a buffer at 0x8000.\<close>

definition message_stack :: "u64 \<Rightarrow> u64" where
  "message_stack = (\<lambda>_. 0)(240 := 3, 248 := 0x9000, 224 := 4)"

lemma message_frame: "frame_registers message_stack 0 r 0 = 3" "frame_registers message_stack 0 r 1 = 0x9000" "frame_registers message_stack 0 r 2 = 4"
  by (simp_all add: frame_registers_def message_stack_def upt_rec)

lemma message_runs: "map_option (\<lambda>r. curr_pid (k_sys (snd r))) (c_el1_svc_aarch64_handler (linker_symbols 0x1000 0x2200000) 9 0x56000003
          (save_context message_stack 0 0 0 0 0 0x56000003 example_running_kernel)) = Some 3"
  by code_simp


theorem message_delivered_witness:
  "\<exists>k1. c_el1_svc_aarch64_handler (linker_symbols 0x1000 0x2200000) 9 0x56000003
        (save_context message_stack 0 0 0 0 0 0x56000003 example_running_kernel) = Some (Running, k1) \<and>
     curr_pid (k_sys k1) = 3 \<and> state (procs (k_sys k1) 1) = SENDING_CH \<and> registers (saved_context (procs (k_sys k1) 3)) 0 = 1 \<and>
     (\<forall>i<4. heap (k_alloc k1) (0x8000 + of_nat i) = heap (k_alloc example_running_kernel) (0x9000 + of_nat i))"
proof -
  let ?ll = "linker_symbols 0x1000 0x2200000"
  define rd where "rd = receiver_data (procs (k_sys example_running_kernel) 3)"
  define R where "R = frame_registers message_stack 0 (registers (saved_context (procs (k_sys example_running_kernel) 1)))"
  have e: "1 = curr_pid (k_sys example_running_kernel)" "state (procs (k_sys example_running_kernel) 3) = LISTENING_CH"
    "receive_data rd = 0x8000" "receive_size rd = 64"
    by (simp_all add: rd_def example_running_kernel_def example_kernel_def example_sys_def) (simp_all add: example_procs_def Let_def)
  have r: "R 0 = 3" "R 1 = 0x9000" "R 2 = 4" unfolding R_def by (rule message_frame)+
  have c: "svc_code 0x56000003 = 3" by (simp add: svc_code_def MASK_def MASK_range_def)
  have t: "int_of_u64 (R 0) = int 3" "(3::nat) < MAX_PROC" "receive_data rd \<noteq> 0" "R 1 \<noteq> 0" "0 < R 2" "R 2 \<le> BUFF_SIZE" "R 2 \<le> receive_size rd"
    by (simp_all add: r e(3,4) int_of_u64_def del: One_nat_def)
  obtain k1 where k1: "c_el1_svc_aarch64_handler ?ll 9 0x56000003 (save_context message_stack 0 0 0 0 0 0x56000003 example_running_kernel) = Some (Running, k1)"
    "state (procs (k_sys k1) 1) = SENDING_CH"
    and later: "\<forall>k'. runs_next ?ll 3 k1 k' \<longrightarrow> registers (saved_context (procs (k_sys k') 3)) 0 = of_nat 1 \<and>
        (\<forall>i<unat (R 2). heap (k_alloc k') (receive_data rd + of_nat i) = heap (k_alloc example_running_kernel) (R 1 + of_nat i))"
    using message_delivered [OF example_in_user e(1) R_def c t(1,2) e(2) rd_def t(3-7), of ?ll 9 0 0 0] by blast
  have "curr_pid (k_sys k1) = 3" using message_runs unfolding k1(1) by simp
  then show ?thesis using k1 later runs_next.here [of k1 3 ?ll] by (auto simp: r e(3,4) simp del: One_nat_def)
qed

section \<open>Answers\<close>

text \<open>The table after an answer has been handed over.\<close>

lemma ack_answers:
  assumes abs: "abs_rel b s" and run: "running b" and q: "q = last_pid s" "R = registers (saved_context (procs s q))"
    and p: "p = source_pid (receiver_data (procs s q))" "state (procs s p) = SENDING_CH" "sd = sender_data (procs s p)" "\<not> acknowledged sd" "target_pid sd = int q"
    and m: "used_size (buffer (procs s q)) = R 2" "R 2 \<le> BUFF_SIZE" and n: "n = (if ack_size sd < R 2 then ack_size sd else R 2)"
  obtains c where "spec_acknowledge b = Some c"
    and "\<And>t. abs_rel c t \<Longrightarrow> state (procs t p) = RUNNABLE \<and> registers (saved_context (procs t p)) 0 = word_of_int (int_of_u64 (R 0)) \<and>
      used_size (buffer (procs t p)) = n \<and> write_addr (buffer (procs t p)) = ack_data sd \<and>
      (\<forall>i<unat n. buff (buffer (procs t p)) i = buff (buffer (procs s q)) i)"
proof -
  note B = abs_onD(1,2) [OF abs [unfolded abs_rel_def]]
  have "state (procs s q) = RUNNABLE" using run by (simp add: running_def B q(1))
  then have pq: "p \<noteq> q" using p(2) by auto
  define b1 where "b1 = a_upd q (receiver_data_update (\<lambda>d. d\<lparr>return_code := int_of_u64 (R 0)\<rparr>)) b"
  define c where "c = a_change p RUNNABLE (a_upd q (\<lambda>d. buffer_update (used_size_update (\<lambda>_. 0)) (set_r0 0 d)) (a_upd p (ack_reply (a_procs b1 q)) b1))"
  have "spec_acknowledge b = Some c"
    using p m(2) by (simp add: spec_acknowledge_def Let_def b1_def c_def B q(1) [symmetric] q(2) [symmetric] p(1) [symmetric])
  moreover have "state (procs t p) = RUNNABLE \<and> registers (saved_context (procs t p)) 0 = word_of_int (int_of_u64 (R 0)) \<and>
      used_size (buffer (procs t p)) = n \<and> write_addr (buffer (procs t p)) = ack_data sd \<and>
      (\<forall>i<unat n. buff (buffer (procs t p)) i = buff (buffer (procs s q)) i)" if t: "abs_rel c t" for t
  proof -
    have T: "proc_data (procs t p) = (ack_reply (a_procs b1 q) (a_procs b p))\<lparr>state := RUNNABLE\<rparr>"
      using abs_onD(2) [OF t [unfolded abs_rel_def], of p] pq by (simp add: c_def b1_def)
    have "state (proc_data (procs t p)) = RUNNABLE" "registers (saved_context (proc_data (procs t p))) 0 = word_of_int (int_of_u64 (R 0))"
      "buffer (proc_data (procs t p)) = (buffer (procs s p))\<lparr>used_size := n, write_addr := ack_data sd,
         buff := buf_move (buff (buffer (procs s p))) (buff (buffer (procs s q))) n\<rparr>"
      unfolding T by (simp_all add: ack_reply_def Let_def set_r0_def b1_def B m(1) n p(3))
    then show ?thesis by (simp add: buf_move_def)
  qed
  ultimately show thesis by (rule that)
qed

text \<open>What \<open>acknowledge\<close> leaves for the process that waits for the answer.\<close>

lemma ack_hands_over:
  assumes user: "in_user a k" and q: "q = curr_pid (k_sys k)"
    and R: "R = frame_registers stack hsp (registers (saved_context (procs (k_sys k) q)))" and svc: "svc_code esr = 5"
    and p: "p = source_pid (receiver_data (procs (k_sys k) q))" "state (procs (k_sys k) p) = SENDING_CH"
    and sd: "sd = sender_data (procs (k_sys k) p)" "\<not> acknowledged sd" "target_pid sd = int q"
    and m: "R 1 \<noteq> 0" "0 < R 2" "R 2 \<le> BUFF_SIZE"
  obtains k1 k2 where "c_el1_svc_aarch64_handler ll cntpct esr (save_context stack sp0 elr spsr hsp 0 esr k) = Some (Running, k1)"
    and "state (procs (k_sys k1) p) = RUNNABLE" and "\<And>k'. runs_next ll p k1 k' \<Longrightarrow> resumed p k2 k'"
    and "registers (saved_context (procs (k_sys k2) p)) 0 = word_of_int (int_of_u64 (R 0))"
    and "unat (used_size (buffer (procs (k_sys k2) p))) = min (unat (ack_size sd)) (unat (R 2))"
    and "write_addr (buffer (procs (k_sys k2) p)) = ack_data sd"
    and "\<And>i. i < min (unat (ack_size sd)) (unat (R 2)) \<Longrightarrow> buff (buffer (procs (k_sys k2) p)) i = heap (k_alloc k) (R 1 + of_nat i)"
proof -
  define k0 where "k0 = save_context stack sp0 elr spsr hsp 0 esr k"
  define s where "s = k_sys k0"
  have code: "svc_code esr \<in> {3, 5}" using svc by simp
  note saved = save_context_message [OF q R code m s_def [unfolded k0_def]]
  obtain b where b: "in_kernel b k0" "running b" "svc_buffered b" using save_context_inv [OF user] unfolding k0_def .
  have u: "state (procs (k_sys k) q) = RUNNABLE" "q < MAX_PROC" "a_wf a" "all_ok a" "\<And>x. a_procs a x = proc_data (procs (k_sys k) x)"
    using user abs_onD(2) by (fastforce simp: in_user_def valid_def abs_rel_def Let_def q)+
  then have pq: "p \<noteq> q" using p(2) by auto
  have p': "p < MAX_PROC" "p \<noteq> 0" using a_wfD [OF u(3,2)] all_ok_not_kernel [OF u(4), of p] p u(1) by (simp_all add: u(5))
  have sp: "procs s p = procs (k_sys k) p" using saved(4) pq by simp
  have sq: "p = source_pid (receiver_data (procs s q))" using p(1) saved(6) by simp
  have sp': "state (procs s p) = SENDING_CH" "sd = sender_data (procs s p)" using p(2) sd(1) by (simp_all only: sp)
  define n where "n = (if ack_size sd < R 2 then ack_size sd else R 2)"
  have n: "unat n = min (unat (ack_size sd)) (unat (R 2))" by (simp add: n_def word_less_nat_alt)
  have abs: "abs_rel b s" using b(1) by (simp add: in_kernel_def valid_def s_def)
  obtain c where c: "spec_acknowledge b = Some c"
    and ans: "\<And>t. abs_rel c t \<Longrightarrow> state (procs t p) = RUNNABLE \<and> registers (saved_context (procs t p)) 0 = word_of_int (int_of_u64 (R 0)) \<and>
      used_size (buffer (procs t p)) = n \<and> write_addr (buffer (procs t p)) = ack_data sd \<and>
      (\<forall>i<unat n. buff (buffer (procs t p)) i = buff (buffer (procs s q)) i)"
    using ack_answers [OF abs b(2) saved(5) [symmetric] saved(1) [symmetric] sq sp' sd(2,3) saved(2) m(3) n_def] by blast
  obtain k2 where k2: "on_sys syscall_acknowledge k0 = Some k2" "in_kernel c k2" using svc_calls(5) [OF b c] by blast
  then have "abs_rel c (k_sys k2)" by (simp add: in_kernel_def valid_def)
  note ans = ans [OF this]
  obtain k1 where k1: "schedule cntpct k2 = Some (Running, k1)" "\<And>x. x \<noteq> 0 \<Longrightarrow> state (procs (k_sys k1) x) = state (procs (k_sys k2) x)"
    and later: "\<And>k'. runs_next ll p k1 k' \<Longrightarrow> resumed p k2 k'"
    using resumes_later [OF k2(2) p'(1), of cntpct ll] ans by blast
  have "c_el1_svc_aarch64_handler ll cntpct esr k0 = Some (Running, k1)"
    using svc k1(1) k2(1) by (simp add: c_el1_svc_aarch64_handler_def Let_def svc_code_def)
  moreover have "state (procs (k_sys k1) p) = RUNNABLE" using k1(2) [OF p'(2)] ans by simp
  moreover have "buff (buffer (procs (k_sys k2) p)) i = heap (k_alloc k) (R 1 + of_nat i)" if "i < min (unat (ack_size sd)) (unat (R 2))" for i
    using that ans saved(3) [of i] n by simp
  ultimately show thesis using that [OF _ _ later, unfolded k0_def [symmetric]] ans n by simp
qed

text \<open>
  C5. Answers arrive as they were given. When a process acknowledges the message of a process that waits for its answer, the kernel makes that
  process runnable; whatever happens until it has the processor again, its call of \<open>send\<close> then returns the code
  of the answer, and its memory holds at the address it gave the bytes of the answer, as many as it has room for.
\<close>

theorem answer_delivered:
  assumes user: "in_user a k" and q: "q = curr_pid (k_sys k)"
    and R: "R = frame_registers stack hsp (registers (saved_context (procs (k_sys k) q)))" and svc: "svc_code esr = 5"
    and p: "p = source_pid (receiver_data (procs (k_sys k) q))" "state (procs (k_sys k) p) = SENDING_CH"
    and sd: "sd = sender_data (procs (k_sys k) p)" "\<not> acknowledged sd" "target_pid sd = int q" "ack_data sd \<noteq> 0"
    and m: "R 1 \<noteq> 0" "0 < R 2" "R 2 \<le> BUFF_SIZE"
  shows "\<exists>k1. c_el1_svc_aarch64_handler ll cntpct esr (save_context stack sp0 elr spsr hsp 0 esr k) = Some (Running, k1) \<and>
     state (procs (k_sys k1) p) = RUNNABLE \<and>
     (\<forall>k'. runs_next ll p k1 k' \<longrightarrow> registers (saved_context (procs (k_sys k') p)) 0 = word_of_int (int_of_u64 (R 0)) \<and>
        (\<forall>i<min (unat (ack_size sd)) (unat (R 2)). heap (k_alloc k') (ack_data sd + of_nat i) = heap (k_alloc k) (R 1 + of_nat i)))"
proof -
  obtain k1 k2 where k1: "c_el1_svc_aarch64_handler ll cntpct esr (save_context stack sp0 elr spsr hsp 0 esr k) = Some (Running, k1)"
    "state (procs (k_sys k1) p) = RUNNABLE" and later: "\<And>k'. runs_next ll p k1 k' \<Longrightarrow> resumed p k2 k'"
    and k2: "registers (saved_context (procs (k_sys k2) p)) 0 = word_of_int (int_of_u64 (R 0))"
    "unat (used_size (buffer (procs (k_sys k2) p))) = min (unat (ack_size sd)) (unat (R 2))"
    "write_addr (buffer (procs (k_sys k2) p)) = ack_data sd"
    "\<And>i. i < min (unat (ack_size sd)) (unat (R 2)) \<Longrightarrow> buff (buffer (procs (k_sys k2) p)) i = heap (k_alloc k) (R 1 + of_nat i)"
    using ack_hands_over [OF user q R svc p sd(1-3) m, of ll cntpct sp0 elr spsr] by metis
  have "registers (saved_context (procs (k_sys k') p)) 0 = word_of_int (int_of_u64 (R 0))" if "runs_next ll p k1 k'" for k'
    using later [OF that] k2(1) by (simp add: resumed_def)
  moreover have "heap (k_alloc k') (ack_data sd + of_nat i) = heap (k_alloc k) (R 1 + of_nat i)"
    if "runs_next ll p k1 k'" "i < min (unat (ack_size sd)) (unat (R 2))" for k' i
    using resumed_bytes [OF later [OF that(1)] refl, of i] that(2) sd(4) k2(2,3) k2(4) [OF that(2)] by simp
  ultimately show ?thesis using k1 by blast
qed

text \<open>
  Process 1 answers process 4, which has room for two bytes at 0x7000, with four bytes at 0x9000, and waits for its next
  message; process 4 runs.
\<close>

lemma answer_runs:
  "case c_el1_svc_aarch64_handler (linker_symbols 0x1000 0x2200000) 9 0x56000005 (save_context message_stack 0 0 0 0 0 0x56000005 example_running_kernel) of
     Some (Running, k1) \<Rightarrow> curr_pid (k_sys k1) = 1 \<and>
       (case c_el1_svc_aarch64_handler (linker_symbols 0x1000 0x2200000) 9 0x56000004 (save_context (\<lambda>_. 0) 0 0 0 0 0 0x56000004 k1) of
          Some (Running, k2) \<Rightarrow> curr_pid (k_sys k2) = 4 | _ \<Rightarrow> False) | _ \<Rightarrow> False"
  by code_simp

theorem answer_delivered_witness:
  "\<exists>k1 k2. c_el1_svc_aarch64_handler (linker_symbols 0x1000 0x2200000) 9 0x56000005
        (save_context message_stack 0 0 0 0 0 0x56000005 example_running_kernel) = Some (Running, k1) \<and>
     runs_next (linker_symbols 0x1000 0x2200000) 4 k1 k2 \<and> registers (saved_context (procs (k_sys k2) 4)) 0 = 3 \<and>
     (\<forall>i<2. heap (k_alloc k2) (0x7000 + of_nat i) = heap (k_alloc example_running_kernel) (0x9000 + of_nat i))"
proof -
  let ?ll = "linker_symbols 0x1000 0x2200000"
  define sd where "sd = sender_data (procs (k_sys example_running_kernel) 4)"
  define R where "R = frame_registers message_stack 0 (registers (saved_context (procs (k_sys example_running_kernel) 1)))"
  have e: "1 = curr_pid (k_sys example_running_kernel)" "4 = source_pid (receiver_data (procs (k_sys example_running_kernel) 1))"
    "state (procs (k_sys example_running_kernel) 4) = SENDING_CH" "\<not> acknowledged sd" "target_pid sd = int 1" "ack_data sd = 0x7000" "ack_size sd = 2"
    by (simp_all add: sd_def example_running_kernel_def example_kernel_def example_sys_def) (simp_all add: example_procs_def Let_def)
  have r: "R 0 = 3" "R 1 = 0x9000" "R 2 = 4" unfolding R_def by (rule message_frame)+
  have c: "svc_code 0x56000005 = 5" by (simp add: svc_code_def MASK_def MASK_range_def)
  have t: "ack_data sd \<noteq> 0" "R 1 \<noteq> 0" "0 < R 2" "R 2 \<le> BUFF_SIZE" by (simp_all add: r e(6,7) del: One_nat_def)
  obtain k1 where k1: "c_el1_svc_aarch64_handler ?ll 9 0x56000005 (save_context message_stack 0 0 0 0 0 0x56000005 example_running_kernel) = Some (Running, k1)"
    and later: "\<forall>k'. runs_next ?ll 4 k1 k' \<longrightarrow> registers (saved_context (procs (k_sys k') 4)) 0 = word_of_int (int_of_u64 (R 0)) \<and>
        (\<forall>i<min (unat (ack_size sd)) (unat (R 2)). heap (k_alloc k') (ack_data sd + of_nat i) = heap (k_alloc example_running_kernel) (R 1 + of_nat i))"
    using answer_delivered [OF example_in_user e(1) R_def c e(2,3) sd_def e(4,5) t, of ?ll 9 0 0 0] by blast
  have "\<exists>k2. c_el1_svc_aarch64_handler ?ll 9 0x56000004 (save_context (\<lambda>_. 0) 0 0 0 0 0 0x56000004 k1) = Some (Running, k2) \<and>
      curr_pid (k_sys k1) = 1 \<and> curr_pid (k_sys k2) = 4"
    using answer_runs unfolding k1 by (auto split: option.splits outcome.splits) (metis outcome.exhaust)+
  then obtain k2 where k2: "c_el1_svc_aarch64_handler ?ll 9 0x56000004 (save_context (\<lambda>_. 0) 0 0 0 0 0 0x56000004 k1) = Some (Running, k2)"
    "curr_pid (k_sys k1) = 1" "curr_pid (k_sys k2) = 4" by blast
  have "runs_next ?ll 4 k1 k2"
    by (rule runs_next.later [OF _ kernel_step.svc [OF k2(1)] runs_next.here [OF k2(3)]]) (simp add: k2(2))
  moreover have "word_of_int (int_of_u64 (R 0)) = (3 :: u64)" by (simp add: r int_of_u64_def)
  ultimately show ?thesis using k1 later by (intro exI [of _ k1] exI [of _ k2]) (simp add: r e(6,7) del: One_nat_def)
qed

end
