(* ===== verification/Buffer_Faults.thy ===== *)
theory Buffer_Faults
  imports Messages
begin

text \<open>
  The kernel copies messages at addresses that a process names in its registers
  (\<open>back_up_buff_svc\<close> and \<open>write_buff_svc\<close> of \<^verbatim>\<open>src/src/proc/proc.c\<close>), without asking whether the process has
  memory there. \<open>Kernel_State\<close> copies as if every address were mapped and writable. Here each byte that
  the kernel reads or writes is looked up in the page tables first, a fault goes to \<open>c_sync_handler\<close> as in
  \<^verbatim>\<open>src/src/interrupt/idt_el1.S\<close>, and entry, exit, scheduler and handlers are written once more on top of that
  (suffix \<open>el1\<close>). The lemmas show that they agree with the functions of \<open>Kernel_State\<close> when the
  buffers are accessible, and that the kernel does not come back otherwise. The process table itself is still kept
  apart from the memory of processes: a process that names an address of the kernel's own data makes the kernel
  overwrite it, which is outside the model.
\<close>

section \<open>Accesses of the kernel to the memory of a process\<close>

text \<open>
  The fault that an access of the kernel at a virtual address meets, by its status code: translation faults
  (\<open>0b100\<close> beyond the 1 GB that \<^verbatim>\<open>init_mmu.s\<close> configures with \<open>T0SZ\<close>, \<open>0b110\<close> and \<open>0b111\<close> at level 2 and 3), a
  missing access flag (bit 10 of the entry) and a write to a read-only page (bit 7), which is how pages shared by
  \<open>fork\<close> are marked. This is the documented walk of the ARMv8 translation tables.
\<close>

definition el1_fault :: "bool \<Rightarrow> mmu_state \<Rightarrow> u64 \<Rightarrow> u64 option" where
  "el1_fault writes m va =
     (let m1 = set_lvl2_address_from_TTBR0_EL1 m in
      if va \<ge> 0x40000000 then Some 0b100
      else if \<not> is_table_entry (lvl2_entry m1 (idx2 va)) then Some 0b110
      else case pt m1 (idx2 va) (idx3 va) of
             None \<Rightarrow> Some 0b111
           | Some e \<Rightarrow> if \<not> bit e 10 then Some 0b1011 else if writes \<and> bit e 7 then Some 0b1111 else None)"

text \<open>The syndrome of a data abort taken from the same exception level (class \<open>0b100101\<close>), bit 6 telling writes.\<close>

definition el1_abort_esr :: "bool \<Rightarrow> u64 \<Rightarrow> u64" where
  "el1_abort_esr writes status = (if writes then 0x96000040 else 0x96000000) OR status"

text \<open>What the code does not fix: how many faults a copy may meet (the results below hold for any number), the
  direction in which \<open>memmove\<close> copies (it compares the addresses of the buffers) and the stack pointer of the kernel.\<close>

record copy_params =
  retries :: nat
  upwards :: bool
  sp_el1 :: u64

text \<open>The kernel accesses the bytes one after the other; when the handler of a fault returns, the access is repeated.
  Beside the state, the syndrome of the last fault is kept: it stays in \<open>ESR_EL1\<close>.\<close>

fun kernel_access :: "nat \<Rightarrow> bool \<Rightarrow> u64 \<Rightarrow> u64 list \<Rightarrow> u64 option \<times> kernel_state \<Rightarrow> (u64 option \<times> kernel_state) option" where
  "kernel_access n writes stk [] ek = Some ek"
| "kernel_access n writes stk (a # as) (e, k) =
     (case el1_fault writes (k_mmu k) a of
        None \<Rightarrow> kernel_access n writes stk as (e, k)
      | Some status \<Rightarrow>
          (case n of 0 \<Rightarrow> None
           | Suc n' \<Rightarrow> do { let esr = el1_abort_esr writes status;
                         k1 \<leftarrow> c_sync_handler stk esr a k;
                         kernel_access n' writes stk (a # as) (Some esr, k1) }))"

definition bytes_at :: "copy_params \<Rightarrow> u64 \<Rightarrow> u64 \<Rightarrow> u64 list" where
  "bytes_at c addr sz = (let as = map (\<lambda>i. addr + of_nat i) [0..<unat sz] in if upwards c then as else rev as)"

definition kernel_copy :: "copy_params \<Rightarrow> bool \<Rightarrow> u64 \<Rightarrow> u64 \<Rightarrow> kernel_state \<Rightarrow> (u64 option \<times> kernel_state) option" where
  "kernel_copy c writes addr sz k = kernel_access (retries c) writes (sp_el1 c) (bytes_at c addr sz) (None, k)"

text \<open>All bytes of a buffer can be read or written without a fault.\<close>

definition accessible :: "bool \<Rightarrow> mmu_state \<Rightarrow> u64 \<Rightarrow> u64 \<Rightarrow> bool" where
  "accessible writes m addr sz \<longleftrightarrow> (\<forall>i<unat sz. el1_fault writes m (addr + of_nat i) = None)"

lemma el1_fault_status: "el1_fault writes m a = Some st \<Longrightarrow> st \<in> {0b100, 0b110, 0b111, 0b1011, 0b1111}"
  by (auto simp: el1_fault_def Let_def split: if_splits option.splits)

lemma el1_abort_class:
  assumes "st \<in> {0b100, 0b110, 0b111, 0b1011, 0b1111}"
  shows "drop_bit 26 (el1_abort_esr writes st AND 0xfc000000) = 0b100101" "el1_abort_esr writes st AND MASK 5 0 = st"
  using assms by (auto simp: el1_abort_esr_def MASK_def MASK_range_def)

lemma el1_abort_handled:
  assumes "st \<in> {0b100, 0b110, 0b111, 0b1011, 0b1111}" and "c_sync_handler stk (el1_abort_esr writes st) a k = Some k'"
  shows "st \<in> {0b110, 0b111, 0b1011}"
  using assms el1_abort_class [OF assms(1), of writes]
  by (auto simp: c_sync_handler_def data_abort_handler_def abort_handler_def Let_def on_mmu_def permission_fault_handler_def)

lemma kernel_access_ok: "(\<forall>a\<in>set as. el1_fault writes (k_mmu k) a = None) \<Longrightarrow> kernel_access n writes stk as (e, k) = Some (e, k)"
  by (induction as) auto

text \<open>The faults from which \<open>c_sync_handler\<close> returns.\<close>

definition handled :: "bool \<Rightarrow> u64 \<Rightarrow> bool" where
  "handled writes esr \<longleftrightarrow> (\<exists>st\<in>{0b110, 0b111, 0b1011}. esr = el1_abort_esr writes st)"

lemma kernel_access_keeps:
  "kernel_access n writes stk as ek = Some ek' \<Longrightarrow> (\<exists>esr. fst ek = Some esr \<and> handled writes esr) \<Longrightarrow>
   \<exists>esr. fst ek' = Some esr \<and> handled writes esr"
proof (induction n writes stk as ek rule: kernel_access.induct)
  case (2 n writes stk a as e k)
  show ?case
  proof (cases "el1_fault writes (k_mmu k) a")
    case None
    then show ?thesis using 2 by simp
  next
    case (Some st)
    then obtain n' k1 where "n = Suc n'" "c_sync_handler stk (el1_abort_esr writes st) a k = Some k1"
      "kernel_access n' writes stk (a # as) (Some (el1_abort_esr writes st), k1) = Some ek'"
      using 2(3) by (auto split: nat.splits simp: Let_def bind_eq_Some_conv simp del: kernel_access.simps(2) simp add: kernel_access.simps(2)[of n writes stk a as e k])
    moreover from this have "handled writes (el1_abort_esr writes st)"
      unfolding handled_def using el1_abort_handled el1_fault_status [OF Some] by blast
    ultimately show ?thesis using 2(2) [OF Some _ refl] by simp
  qed
qed simp

lemma kernel_access_faults:
  "kernel_access n writes stk as (e, k) = Some (e', k') \<Longrightarrow> \<exists>a\<in>set as. el1_fault writes (k_mmu k) a \<noteq> None \<Longrightarrow>
   \<exists>esr. e' = Some esr \<and> handled writes esr"
proof (induction as)
  case (Cons a as)
  show ?case
  proof (cases "el1_fault writes (k_mmu k) a")
    case None
    then show ?thesis using Cons by auto
  next
    case (Some st)
    then obtain n' k1 where h: "n = Suc n'" "c_sync_handler stk (el1_abort_esr writes st) a k = Some k1"
      "kernel_access n' writes stk (a # as) (Some (el1_abort_esr writes st), k1) = Some (e', k')"
      using Cons.prems(1) by (auto split: nat.splits simp: Let_def bind_eq_Some_conv simp del: kernel_access.simps(2) simp add: kernel_access.simps(2)[of n writes stk a as e k])
    then have "handled writes (el1_abort_esr writes st)"
      unfolding handled_def using el1_abort_handled el1_fault_status [OF Some] by blast
    then show ?thesis using kernel_access_keeps [OF h(3)] by simp
  qed
qed simp

lemma kernel_copy_accessible: "accessible writes (k_mmu k) addr sz \<Longrightarrow> kernel_copy c writes addr sz k = Some (None, k)"
  unfolding kernel_copy_def by (rule kernel_access_ok) (auto simp: bytes_at_def Let_def accessible_def)

lemma kernel_copy_faults:
  assumes "\<not> accessible writes (k_mmu k) addr sz" and "kernel_copy c writes addr sz k = Some (e, k')"
  shows "\<exists>esr. e = Some esr \<and> handled writes esr"
  by (rule kernel_access_faults [OF assms(2) [unfolded kernel_copy_def]])
     (use assms(1) in \<open>auto simp: bytes_at_def Let_def accessible_def\<close>)


section \<open>Traps with checked accesses\<close>

definition back_up_buff_svc_el1 :: "copy_params \<Rightarrow> nat \<Rightarrow> u64 \<Rightarrow> kernel_state \<Rightarrow> (u64 option \<times> kernel_state) option" where
  "back_up_buff_svc_el1 c p svc k =
     (let addr = reg (k_sys k) p 1; sz = reg (k_sys k) p 2 in
      if (svc = 3 \<or> svc = 5) \<and> addr \<noteq> 0 \<and> sz > 0
      then do { (e, k1) \<leftarrow> kernel_copy c False addr (if sz < BUFF_SIZE then sz else BUFF_SIZE) k;
                Some (e, back_up_buff_svc p svc k1) }
      else Some (None, k))"

definition save_context_el1 ::
    "copy_params \<Rightarrow> (u64 \<Rightarrow> u64) \<Rightarrow> u64 \<Rightarrow> u64 \<Rightarrow> u64 \<Rightarrow> u64 \<Rightarrow> u64 \<Rightarrow> u64 \<Rightarrow> kernel_state \<Rightarrow> (u64 option \<times> kernel_state) option" where
  "save_context_el1 c stack sp_el0 elr_el1 spsr handler_sp timer_irq esr_el1 k =
     (let p = curr_pid (k_sys k);
          k1 = k_proc_upd p (sched_conf_update (\<lambda>c. c\<lparr>time_left :=
                 (if timer_irq \<noteq> 0 then 0 else get_curr_timer_value (k_timer k))\<rparr>)) k;
          k2 = k1\<lparr>k_timer := clear_ack_timer_irq (k_timer k1)\<rparr>;
          k3 = k_proc_upd p (saved_context_update (\<lambda>c. c\<lparr>sp := sp_el0, pc := elr_el1, pstate := spsr,
                 registers := frame_registers stack handler_sp (registers c)\<rparr>)) k2;
          k4 = save_errno p (save_alloc_conf p k3)
      in do { (e, k5) \<leftarrow> (if timer_irq = 0 then back_up_buff_svc_el1 c p (esr_el1 AND MASK 15 0) k4 else Some (None, k4));
              Some (e, k5\<lparr>k_sys := (k_sys k5)\<lparr>last_pid := curr_pid (k_sys k5), curr_pid := 0\<rparr>\<rparr>) })"

definition write_buff_svc_el1 :: "copy_params \<Rightarrow> kernel_state \<Rightarrow> (u64 option \<times> kernel_state) option" where
  "write_buff_svc_el1 c k =
     (let b = buffer (procs (k_sys k) (curr_pid (k_sys k))) in
      do { (e, k1) \<leftarrow> (if write_addr b \<noteq> 0 then kernel_copy c True (write_addr b) (used_size b) k else Some (None, k));
           k2 \<leftarrow> write_buff_svc k1;
           Some (e, k2) })"

text \<open>
  \<open>restore_and_run\<close> has loaded \<open>ELR_EL1\<close> and \<open>SPSR_EL1\<close> for the process before it calls \<open>write_buff_svc\<close>. A
  fault in the copy overwrites both, so even when its handler returns, \<open>eret\<close> leads back into the kernel's copy
  and not to the process: the switch succeeds only when no fault occurred.
\<close>

definition restore_and_run_el1 :: "copy_params \<Rightarrow> u64 \<Rightarrow> kernel_state \<Rightarrow> (outcome \<times> kernel_state) option" where
  "restore_and_run_el1 c ttbr0 k =
     do { (e, k1) \<leftarrow> write_buff_svc_el1 c (k\<lparr>k_mmu := (k_mmu k)\<lparr>TTBR0_EL1 := ttbr0\<rparr>\<rparr>);
          assert (e = None);
          Some (Running, k1) }"

definition switch_to_proc_el1 :: "copy_params \<Rightarrow> nat \<Rightarrow> kernel_state \<Rightarrow> (outcome \<times> kernel_state) option" where
  "switch_to_proc_el1 c p k =
     (let k1 = restore_errno p (restore_alloc_conf p k);
          k2 = k_proc_upd p (initialized_update (\<lambda>_. True)) k1;
          d = procs (k_sys k2) p;
          k3 = (if preempt (sched_conf d) then k2\<lparr>k_timer := start_countdown (time_left (sched_conf d)) (k_timer k2)\<rparr>
                else k2);
          k4 = k3\<lparr>k_sctlr := sctlr_el1 (saved_context d)\<rparr>
      in restore_and_run_el1 c (ttbr0_el1 (mem_conf d)) k4)"

definition run_process_el1 :: "copy_params \<Rightarrow> nat \<Rightarrow> kernel_state \<Rightarrow> (outcome \<times> kernel_state) option" where
  "run_process_el1 c p k =
     (let d = procs (k_sys k) p in
      do { assert (pid d > 0);
           assert (state d = RUNNABLE);
           assert (\<not> preempt (sched_conf d) \<or> time_left (sched_conf d) > 0);
           assert (curr_pid (k_sys k) = 0);
           assert (initialized d);
           let k1 = save_alloc_conf KERNEL_PID k;
           switch_to_proc_el1 c p (k1\<lparr>k_sys := (k_sys k1)\<lparr>curr_pid := pid (procs (k_sys k1) p)\<rparr>\<rparr>) })"

definition run_priority_el1 :: "copy_params \<Rightarrow> nat \<Rightarrow> kernel_state \<Rightarrow> (outcome \<times> kernel_state) option" where
  "run_priority_el1 c prio k =
     do { p \<leftarrow> prio_proc (k_sys k) prio;
          let k1 = k\<lparr>k_sys := set_prio_proc prio (next_same_prio (procs (k_sys k) p)) (k_sys k)\<rparr>;
          let k2 = (if time_left (sched_conf (procs (k_sys k1) p)) = 0
                    then k_proc_upd p (sched_conf_update (time_left_update (\<lambda>_. QUANTUM))) k1 else k1);
          run_process_el1 c p k2 }"

definition schedule_el1 :: "copy_params \<Rightarrow> u64 \<Rightarrow> kernel_state \<Rightarrow> (outcome \<times> kernel_state) option" where
  "schedule_el1 c cntpct k =
     (let s = k_sys k in
      do { print_prio_lists s;
           if n_runnable_procs s = 0 then Some (Halted, k)
           else if prio_proc_n s MAX_PRIO > 0 then run_priority_el1 c MAX_PRIO k
           else if n_runnable_procs s = prio_proc_n s 0 then run_priority_el1 c 0 k
           else run_priority_el1 c (random_law cntpct (sched_law s)) k })"

text \<open>The switch of \<open>c_el1_svc_aarch64_handler\<close>, the test call 101 apart.\<close>

definition syscall_of :: "link_layout \<Rightarrow> u64 \<Rightarrow> kernel_state \<Rightarrow> kernel_state option" where
  "syscall_of ll syscall =
     (if syscall = 0 then syscall_fork ll
      else if syscall = 1 then on_sys syscall_exit
      else if syscall = 2 then on_sys syscall_wait
      else if syscall = 3 then on_sys syscall_send
      else if syscall = 4 then on_sys syscall_receive
      else if syscall = 5 then on_sys syscall_acknowledge
      else (\<lambda>_. None))"

definition svc_handler_el1 :: "copy_params \<Rightarrow> link_layout \<Rightarrow> u64 \<Rightarrow> u64 \<Rightarrow> kernel_state \<Rightarrow> (outcome \<times> kernel_state) option" where
  "svc_handler_el1 c ll cntpct esr_el1 k =
     (let syscall = esr_el1 AND MASK 15 0 in
      if syscall = 101 then run_process_el1 c (last_pid (k_sys k)) k
      else syscall_of ll syscall k \<bind> schedule_el1 c cntpct)"

text \<open>
  A system call from the vector to the process that runs next. The vector reads \<open>ESR_EL1\<close> again after
  \<open>save_context\<close>: a fault in the copy has replaced the number of the system call by the status of the fault. What the
  vectors do to the timer around these calls is left out: \<open>save_context\<close> stops it, and the state after a fault is not used.
\<close>

definition svc_trap ::
    "copy_params \<Rightarrow> link_layout \<Rightarrow> u64 \<Rightarrow> (u64 \<Rightarrow> u64) \<Rightarrow> u64 \<Rightarrow> u64 \<Rightarrow> u64 \<Rightarrow> u64 \<Rightarrow> u64 \<Rightarrow> kernel_state \<Rightarrow> (outcome \<times> kernel_state) option" where
  "svc_trap c ll cntpct stack sp_el0 elr_el1 spsr handler_sp esr_el1 k =
     do { (e, k1) \<leftarrow> save_context_el1 c stack sp_el0 elr_el1 spsr handler_sp 0 esr_el1 k;
          svc_handler_el1 c ll cntpct (case e of None \<Rightarrow> esr_el1 | Some esr \<Rightarrow> esr) k1 }"

definition timer_trap ::
    "copy_params \<Rightarrow> u64 \<Rightarrow> (u64 \<Rightarrow> u64) \<Rightarrow> u64 \<Rightarrow> u64 \<Rightarrow> u64 \<Rightarrow> u64 \<Rightarrow> u64 \<Rightarrow> kernel_state \<Rightarrow> (outcome \<times> kernel_state) option" where
  "timer_trap c cntpct stack sp_el0 elr_el1 spsr handler_sp esr_el1 k =
     do { (e, k1) \<leftarrow> save_context_el1 c stack sp_el0 elr_el1 spsr handler_sp 1 esr_el1 k;
          schedule_el1 c cntpct (k1\<lparr>k_timer := clear_ack_timer_irq (k_timer k1)\<rparr>) }"

section \<open>The flat functions on accessible buffers\<close>

text \<open>The message of \<open>send\<close> and \<open>acknowledge\<close> can be read through the tables that are in force at the trap; the
  message for a process can be written through the tables of that process.\<close>

definition message_readable :: "(u64 \<Rightarrow> u64) \<Rightarrow> u64 \<Rightarrow> u64 \<Rightarrow> kernel_state \<Rightarrow> bool" where
  "message_readable stack handler_sp esr k \<longleftrightarrow>
     (let r = frame_registers stack handler_sp (registers (saved_context (procs (k_sys k) (curr_pid (k_sys k))))) in
      svc_code esr \<in> {3, 5} \<and> r 1 \<noteq> 0 \<and> r 2 > 0 \<longrightarrow>
        accessible False (k_mmu k) (r 1) (if r 2 < BUFF_SIZE then r 2 else BUFF_SIZE))"

definition message_writable :: "nat \<Rightarrow> kernel_state \<Rightarrow> bool" where
  "message_writable p k \<longleftrightarrow>
     (let d = procs (k_sys k) p; b = buffer d in
      write_addr b \<noteq> 0 \<longrightarrow>
        accessible True ((k_mmu k)\<lparr>TTBR0_EL1 := ttbr0_el1 (mem_conf d)\<rparr>) (write_addr b) (used_size b))"

lemma restore_and_run_el1:
  assumes "b = buffer (procs (k_sys k) (curr_pid (k_sys k)))"
  shows "restore_and_run_el1 c t k =
     (if write_addr b \<noteq> 0 \<longrightarrow> accessible True ((k_mmu k)\<lparr>TTBR0_EL1 := t\<rparr>) (write_addr b) (used_size b)
      then restore_and_run t k else None)"
proof -
  let ?k = "k\<lparr>k_mmu := (k_mmu k)\<lparr>TTBR0_EL1 := t\<rparr>\<rparr>"
  have eq: "restore_and_run_el1 c t k = do { (e, k1) \<leftarrow> (if write_addr b \<noteq> 0 then kernel_copy c True (write_addr b) (used_size b) ?k else Some (None, ?k));
       k2 \<leftarrow> write_buff_svc k1; assert (e = None); Some (Running, k2) }"
    by (simp add: restore_and_run_el1_def write_buff_svc_el1_def Let_def bind_split split: option.split prod.split flip: assms)
  show ?thesis
  proof (cases "write_addr b \<noteq> 0 \<longrightarrow> accessible True (k_mmu ?k) (write_addr b) (used_size b)")
    case True
    then show ?thesis
      using kernel_copy_accessible [of True ?k "write_addr b" "used_size b" c] by (auto simp: eq restore_and_run_def)
  next
    case False
    then show ?thesis
      using kernel_copy_faults [of True ?k "write_addr b" "used_size b" c] unfolding eq
      by (cases "kernel_copy c True (write_addr b) (used_size b) ?k") (auto simp: bind_eq_None_conv)
  qed
qed


lemma run_process_el1:
  assumes "pid (procs (k_sys k) p) = p"
  shows "run_process_el1 c p k = (if message_writable p k then run_process p k else None)"
proof -
  define k1 where "k1 = save_alloc_conf KERNEL_PID k"
  define k2 where "k2 = k1\<lparr>k_sys := (k_sys k1)\<lparr>curr_pid := p\<rparr>\<rparr>"
  have d: "pid (procs (k_sys k1) p) = p" "buffer (procs (k_sys k1) p) = buffer (procs (k_sys k) p)"
    "ttbr0_el1 (mem_conf (procs (k_sys k1) p)) = ttbr0_el1 (mem_conf (procs (k_sys k) p))" "k_mmu k1 = k_mmu k"
    using assms by (auto simp: k1_def save_alloc_conf_def k_proc_upd_def proc_upd_def)
  have "switch_to_proc_el1 c p k2 = (if message_writable p k then switch_to_proc p k2 else None)"
    unfolding switch_to_proc_el1_def switch_to_proc_def Let_def
    by (subst restore_and_run_el1 [OF refl])
       (auto simp: k2_def d message_writable_def Let_def restore_errno_def restore_alloc_conf_def k_proc_upd_def proc_upd_def)
  then show ?thesis
    by (simp add: run_process_el1_def run_process_def Let_def assert_bind d k2_def flip: k1_def)
qed

lemma message_writable_cong:
  "buffer (procs (k_sys k') p) = buffer (procs (k_sys k) p) \<Longrightarrow> mem_conf (procs (k_sys k') p) = mem_conf (procs (k_sys k) p) \<Longrightarrow>
   k_mmu k' = k_mmu k \<Longrightarrow> message_writable p k' = message_writable p k"
  by (simp add: message_writable_def Let_def)

lemma run_priority_el1:
  assumes "prio_proc (k_sys k) prio = Some p" and "pid (procs (k_sys k) p) = p"
  shows "run_priority_el1 c prio k = (if message_writable p k then run_priority prio k else None)"
proof -
  define k1 where "k1 = k\<lparr>k_sys := set_prio_proc prio (next_same_prio (procs (k_sys k) p)) (k_sys k)\<rparr>"
  define k2 where "k2 = (if time_left (sched_conf (procs (k_sys k1) p)) = 0
                    then k_proc_upd p (sched_conf_update (time_left_update (\<lambda>_. QUANTUM))) k1 else k1)"
  have "procs (k_sys k1) = procs (k_sys k)" "k_mmu k1 = k_mmu k" by (simp_all add: k1_def set_prio_proc_def)
  then have d: "buffer (procs (k_sys k2) p) = buffer (procs (k_sys k) p)" "mem_conf (procs (k_sys k2) p) = mem_conf (procs (k_sys k) p)"
    "pid (procs (k_sys k2) p) = p" "k_mmu k2 = k_mmu k"
    using assms(2) by (simp_all add: k2_def k_proc_upd_def proc_upd_def)
  show ?thesis
    using run_process_el1 [OF d(3), of c] message_writable_cong [OF d(1,2,4)]
    unfolding run_priority_el1_def run_priority_def assms(1) Let_def bind.bind_lunit k1_def [symmetric] k2_def [symmetric]
    by simp
qed

lemma in_kernel_pid:
  assumes "in_kernel a k" and "p < MAX_PROC" and "state (procs (k_sys k) p) \<noteq> FREE"
  shows "pid (procs (k_sys k) p) = p"
  using assms abs_onD(2) [of _ a "k_sys k" p] a_wfD(1) [of a p] by (auto simp: in_kernel_def valid_def abs_rel_def)

lemma schedule_el1_pick:
  assumes rel: "sched_rel rq (k_sys k)"
  shows "schedule_el1 c cntpct k =
     (case sched_pick cntpct rq of None \<Rightarrow> Some (Halted, k) | Some prio \<Rightarrow> run_priority_el1 c prio k)"
  using print_prio_lists_total [OF rel] sched_pick_none(1) [OF rel order_refl, of cntpct]
    sched_pick_none(2) [OF rel, of MAX_PRIO] sched_pick_none(3) [OF rel order_refl]
    sched_law_eq [OF rel]
  by (auto simp: schedule_el1_def sched_pick_def Let_def split: if_splits)

definition checked :: "kernel_state \<Rightarrow> (outcome \<times> kernel_state) option \<Rightarrow> (outcome \<times> kernel_state) option" where
  "checked k r = do { (out, k') \<leftarrow> r;
     assert (out = Running \<longrightarrow> message_writable (curr_pid (k_sys k')) k);
     Some (out, k') }"

lemma checked_eq_Some: "checked k r = Some (out, k') \<longleftrightarrow>
    r = Some (out, k') \<and> (out = Running \<longrightarrow> message_writable (curr_pid (k_sys k')) k)"
  by (auto simp: checked_def assert_bind bind_eq_Some_conv split: if_splits)

lemma schedule_el1_checked:
  assumes "in_kernel a k"
  shows "schedule_el1 c cntpct k = checked k (schedule cntpct k)"
proof -
  have v: "abs_rel a (k_sys k)" "a_wf a" "all_ok a" "curr_pid (k_sys k) = 0"
    using assms by (simp_all add: in_kernel_def valid_def)
  note rel = abs_onD(3) [OF v(1) [unfolded abs_rel_def]]
  show ?thesis
  proof (cases "sched_pick cntpct (a_ready a)")
    case None
    then show ?thesis by (simp add: schedule_el1_pick [OF rel] schedule_pick [OF rel] checked_def assert_def)
  next
    case (Some prio)
    then obtain p ps k' where k': "prio \<le> MAX_PRIO" "a_ready a prio = p # ps" "schedule cntpct k = Some (Running, k')"
      "curr_pid (k_sys k') = p"
      using schedule_abs [OF v, of cntpct] by auto
    have p: "p < MAX_PROC" "state (procs (k_sys k) p) = RUNNABLE"
      using sched_relD(4) [OF rel k'(1), of p] k'(2) by auto
    have "prio_proc (k_sys k) prio = Some p"
      using rotate_abs(1) [OF v(1) [unfolded abs_rel_def] k'(1,2)] .
    then have "run_priority_el1 c prio k = (if message_writable p k then run_priority prio k else None)"
      by (rule run_priority_el1) (rule in_kernel_pid [OF assms p(1)], simp add: p(2))
    then show ?thesis
      using k'(3,4) by (simp add: schedule_el1_pick [OF rel] schedule_pick [OF rel] Some checked_def assert_bind)
  qed
qed

text \<open>The state in which \<open>save_context\<close> calls \<open>back_up_buff_svc\<close>.\<close>

lemma save_context_entry:
  obtains k4 where "k_mmu k4 = k_mmu k"
    and "reg (k_sys k4) (curr_pid (k_sys k)) = frame_registers stack hsp (registers (saved_context (procs (k_sys k) (curr_pid (k_sys k)))))"
    and "save_context_el1 c stack sp0 elr spsr hsp 0 esr k =
      do { (e, k5) \<leftarrow> back_up_buff_svc_el1 c (curr_pid (k_sys k)) (svc_code esr) k4;
           Some (e, k5\<lparr>k_sys := (k_sys k5)\<lparr>last_pid := curr_pid (k_sys k5), curr_pid := 0\<rparr>\<rparr>) }"
    and "save_context stack sp0 elr spsr hsp 0 esr k =
      (let k5 = back_up_buff_svc (curr_pid (k_sys k)) (svc_code esr) k4 in
       k5\<lparr>k_sys := (k_sys k5)\<lparr>last_pid := curr_pid (k_sys k5), curr_pid := 0\<rparr>\<rparr>)"
proof
  let ?p = "curr_pid (k_sys k)"
  let ?k1 = "k_proc_upd ?p (sched_conf_update (\<lambda>c. c\<lparr>time_left := get_curr_timer_value (k_timer k)\<rparr>)) k"
  let ?k4 = "save_errno ?p (save_alloc_conf ?p (k_proc_upd ?p (saved_context_update (\<lambda>c. c\<lparr>sp := sp0, pc := elr, pstate := spsr,
                 registers := frame_registers stack hsp (registers c)\<rparr>))
       (?k1\<lparr>k_timer := clear_ack_timer_irq (k_timer ?k1)\<rparr>)))"
  show "k_mmu ?k4 = k_mmu k" by (simp add: save_errno_def save_alloc_conf_def k_proc_upd_def)
  show "reg (k_sys ?k4) ?p = frame_registers stack hsp (registers (saved_context (procs (k_sys k) ?p)))"
    by (rule ext) (simp add: save_errno_def save_alloc_conf_def k_proc_upd_def reg_def proc_upd_def)
  show "save_context_el1 c stack sp0 elr spsr hsp 0 esr k =
      do { (e, k5) \<leftarrow> back_up_buff_svc_el1 c ?p (svc_code esr) ?k4;
           Some (e, k5\<lparr>k_sys := (k_sys k5)\<lparr>last_pid := curr_pid (k_sys k5), curr_pid := 0\<rparr>\<rparr>) }"
    by (simp add: save_context_el1_def svc_code_def Let_def)
  show "save_context stack sp0 elr spsr hsp 0 esr k =
      (let k5 = back_up_buff_svc ?p (svc_code esr) ?k4 in
       k5\<lparr>k_sys := (k_sys k5)\<lparr>last_pid := curr_pid (k_sys k5), curr_pid := 0\<rparr>\<rparr>)"
    by (simp add: save_context_def svc_code_def Let_def)
qed

lemma save_context_el1:
  shows "message_readable stack hsp esr k \<Longrightarrow>
      save_context_el1 c stack sp0 elr spsr hsp 0 esr k = Some (None, save_context stack sp0 elr spsr hsp 0 esr k)" (is "_ \<Longrightarrow> ?readable")
    and "\<not> message_readable stack hsp esr k \<Longrightarrow> save_context_el1 c stack sp0 elr spsr hsp 0 esr k = Some (e, k') \<Longrightarrow>
      \<exists>esr'. e = Some esr' \<and> handled False esr'"
proof -
  obtain k4 where k4: "k_mmu k4 = k_mmu k"
    "reg (k_sys k4) (curr_pid (k_sys k)) = frame_registers stack hsp (registers (saved_context (procs (k_sys k) (curr_pid (k_sys k)))))"
    and eqs: "save_context_el1 c stack sp0 elr spsr hsp 0 esr k =
      do { (e, k5) \<leftarrow> back_up_buff_svc_el1 c (curr_pid (k_sys k)) (svc_code esr) k4;
           Some (e, k5\<lparr>k_sys := (k_sys k5)\<lparr>last_pid := curr_pid (k_sys k5), curr_pid := 0\<rparr>\<rparr>) }"
    "save_context stack sp0 elr spsr hsp 0 esr k =
      (let k5 = back_up_buff_svc (curr_pid (k_sys k)) (svc_code esr) k4 in
       k5\<lparr>k_sys := (k_sys k5)\<lparr>last_pid := curr_pid (k_sys k5), curr_pid := 0\<rparr>\<rparr>)"
    by (rule save_context_entry [where k = k and stack = stack and hsp = hsp and c = c and ?sp0.0 = sp0 and elr = elr
          and spsr = spsr and esr = esr])
  {
    assume r: "message_readable stack hsp esr k"
    have "back_up_buff_svc_el1 c (curr_pid (k_sys k)) (svc_code esr) k4 = Some (None, back_up_buff_svc (curr_pid (k_sys k)) (svc_code esr) k4)"
      using r kernel_copy_accessible [where k = k4 and c = c and writes = False]
      by (auto simp: back_up_buff_svc_el1_def back_up_buff_svc_def message_readable_def k4 Let_def)
    then show ?readable by (simp add: eqs Let_def)
  next
    assume u: "\<not> message_readable stack hsp esr k" and "save_context_el1 c stack sp0 elr spsr hsp 0 esr k = Some (e, k')"
    then obtain k5 where "back_up_buff_svc_el1 c (curr_pid (k_sys k)) (svc_code esr) k4 = Some (e, k5)"
      by (auto simp: eqs bind_eq_Some_conv)
    then show "\<exists>esr'. e = Some esr' \<and> handled False esr'"
      using u kernel_copy_faults [where k = k4 and c = c and writes = False]
      by (auto simp: back_up_buff_svc_el1_def message_readable_def k4 Let_def bind_eq_Some_conv split: if_splits)
  }
qed

lemma handled_not_syscall: "handled False esr \<Longrightarrow> svc_handler_el1 c ll cntpct esr k = None"
  by (auto simp: handled_def svc_handler_el1_def syscall_of_def el1_abort_esr_def MASK_def MASK_range_def Let_def)

lemma svc_flat:
  "c_el1_svc_aarch64_handler ll cntpct esr k =
     (if svc_code esr = 101 then run_process (last_pid (k_sys k)) k
      else syscall_of ll (svc_code esr) k \<bind> schedule cntpct)"
  by (simp add: c_el1_svc_aarch64_handler_def syscall_of_def svc_code_def Let_def)

text \<open>The state in which the scheduler runs.\<close>

definition before_exit :: "link_layout \<Rightarrow> u64 \<Rightarrow> kernel_state \<Rightarrow> kernel_state" where
  "before_exit ll esr k = (if svc_code esr = 101 then k else the (syscall_of ll (svc_code esr) k))"

lemma svc_handler_checked:
  assumes ker: "in_kernel a k" and run: "running a" and buf: "svc_buffered a"
  shows "svc_handler_el1 c ll cntpct esr k = checked (before_exit ll esr k) (c_el1_svc_aarch64_handler ll cntpct esr k)"
proof (cases "svc_code esr = 101")
  case True
  obtain k' where k': "run_process (last_pid (k_sys k)) k = Some (Running, k')" "last_pid (k_sys k) = a_last a"
      "k_sys k' = (proc_upd (a_last a) entered (proc_upd KERNEL_PID (mem_conf_update (load_conf (k_alloc k))) (k_sys k)))\<lparr>curr_pid := a_last a\<rparr>"
    by (rule run_last [OF ker run refl])
  have "a_last a < MAX_PROC" "state (procs (k_sys k) (a_last a)) \<noteq> FREE"
    using run ker abs_onD(2) [of _ a "k_sys k" "a_last a"] by (auto simp: running_def in_kernel_def valid_def abs_rel_def)
  then have "run_process_el1 c (last_pid (k_sys k)) k = (if message_writable (last_pid (k_sys k)) k then run_process (last_pid (k_sys k)) k else None)"
    unfolding k'(2) by (intro run_process_el1 in_kernel_pid [OF ker])
  then show ?thesis
    using True k' by (simp add: svc_handler_el1_def svc_flat before_exit_def svc_code_def checked_def assert_bind)
next
  case False
  show ?thesis
  proof (cases "syscall_of ll (svc_code esr) k")
    case None
    then show ?thesis using False by (simp add: svc_handler_el1_def svc_flat svc_code_def checked_def)
  next
    case (Some k1)
    then have "\<exists>b. in_kernel b k1"
      using calls_left_alone [OF ker run buf, of "syscall_of ll (svc_code esr)" ll k1]
      by (auto simp: syscall_of_def split: if_splits)
    then show ?thesis
      using False Some schedule_el1_checked by (auto simp: svc_handler_el1_def svc_flat before_exit_def svc_code_def)
  qed
qed

lemma svc_trap_checked:
  assumes "in_user a k" and "t = save_context stack sp0 elr spsr hsp 0 esr k"
  shows "svc_trap c ll cntpct stack sp0 elr spsr hsp esr k =
     (if message_readable stack hsp esr k then checked (before_exit ll esr t) (c_el1_svc_aarch64_handler ll cntpct esr t) else None)"
proof (cases "message_readable stack hsp esr k")
  case True
  obtain b where "in_kernel b t" "running b" "svc_buffered b"
    using save_context_inv [OF assms(1), of stack sp0 elr spsr hsp 0 esr] assms(2) by blast
  then show ?thesis
    using True save_context_el1(1) [OF True, of c sp0 elr spsr] svc_handler_checked [of b t c ll cntpct esr]
    by (simp add: svc_trap_def assms(2))
next
  case False
  then show ?thesis
    using save_context_el1(2) [OF False, of c sp0 elr spsr] handled_not_syscall
    by (cases "save_context_el1 c stack sp0 elr spsr hsp 0 esr k") (auto simp: svc_trap_def)
qed

lemma timer_trap_checked:
  assumes "in_user a k" and "t = save_context stack sp0 elr spsr hsp 1 esr k"
  shows "timer_trap c cntpct stack sp0 elr spsr hsp esr k = checked t (c_timer_irq_handler cntpct t)"
proof -
  obtain b where b: "in_kernel b t"
    using save_context_inv [OF assms(1), of stack sp0 elr spsr hsp 1 esr] assms(2) by blast
  have "timer_trap c cntpct stack sp0 elr spsr hsp esr k = schedule_el1 c cntpct (t\<lparr>k_timer := clear_ack_timer_irq (k_timer t)\<rparr>)"
    by (simp add: timer_trap_def save_context_el1_def assms(2) save_context_def Let_def)
  also have "\<dots> = checked (t\<lparr>k_timer := clear_ack_timer_irq (k_timer t)\<rparr>) (c_timer_irq_handler cntpct t)"
    unfolding c_timer_irq_handler_def by (rule schedule_el1_checked [of b]) (simp add: b)
  finally show ?thesis by (simp add: checked_def message_writable_def)
qed


section \<open>Runs with checked accesses\<close>

text \<open>The steps of \<open>kernel_step\<close>, with traps whose copies are checked.\<close>

inductive checked_step :: "link_layout \<Rightarrow> kernel_state \<Rightarrow> kernel_state \<Rightarrow> bool" for ll where
  user: "k_sys k' = k_sys k \<Longrightarrow> checked_step ll k k'"
| fault: "c_sync_handler sp0 esr far k = Some k' \<Longrightarrow> checked_step ll k k'"
| svc: "svc_trap c ll cntpct stack sp0 elr spsr hsp esr k = Some (Running, k') \<Longrightarrow> checked_step ll k k'"
| irq: "timer_trap c cntpct stack sp0 elr spsr hsp esr k = Some (Running, k') \<Longrightarrow> checked_step ll k k'"

lemma checked_step_refines: "checked_step ll k k' \<Longrightarrow> in_user a k \<Longrightarrow> kernel_step ll k k'"
proof (induction rule: checked_step.induct)
  case (svc c cntpct stack sp0 elr spsr hsp esr k k')
  then show ?case
    using svc_trap_checked [OF svc.prems refl, of c ll cntpct stack sp0 elr spsr hsp esr]
    by (auto simp: checked_eq_Some split: if_splits intro: kernel_step.svc)
next
  case (irq c cntpct stack sp0 elr spsr hsp esr k k')
  then show ?case
    using timer_trap_checked [OF irq.prems refl, of c cntpct stack sp0 elr spsr hsp esr]
    by (auto simp: checked_eq_Some intro: kernel_step.irq)
qed (auto intro: kernel_step.intros)

lemma checked_run:
  assumes "(checked_step ll)\<^sup>*\<^sup>* k0 k" and "in_user a0 k0"
  shows "(kernel_step ll)\<^sup>*\<^sup>* k0 k \<and> (\<exists>a. in_user a k)"
  using assms(1)
proof (induction rule: rtranclp_induct)
  case base
  then show ?case using assms(2) by blast
next
  case (step k k')
  then have "kernel_step ll k k'" using checked_step_refines by blast
  then show ?case using step.IH kernel_step_user by (blast intro: rtranclp.rtrancl_into_rtrancl)
qed

section \<open>Properties\<close>


definition example_copy :: copy_params where
  "example_copy = \<lparr>retries = 4, upwards = True, sp_el1 = 0x3F200000\<rparr>"


text \<open>
  C2. The machine with checked accesses refines the machine of \<open>kernel_step\<close>: each of its runs is a run of
  \<open>kernel_step\<close>, so that what is proved of those runs, the invariant of the process table and the delivery of messages
  and answers, holds when every access of the kernel goes through the page tables.
\<close>

theorem checked_run_refines:
  assumes "(checked_step ll)\<^sup>*\<^sup>* k0 k" and "in_user a0 k0"
  shows "(kernel_step ll)\<^sup>*\<^sup>* k0 k \<and> (\<exists>a. in_user a k)"
  using assms by (rule checked_run)

lemma example_timer_trap:
  "\<exists>k'. timer_trap example_copy 9 (\<lambda>_. 0) 0 0 0 0 0 example_running_kernel = Some (Running, k')"
proof -
  let ?k = example_running_kernel
  define t where "t = save_context (\<lambda>_. 0) 0 0 0 0 1 0 ?k"
  have state: "state (procs (k_sys t) 1) = RUNNABLE" and writable: "message_writable q t" for q
    by (simp_all add: t_def message_writable_def save_context_def Let_def save_errno_def save_alloc_conf_def k_proc_upd_def proc_upd_def
          example_running_kernel_def example_sys_def) (simp_all add: example_procs_def new_proc_descriptor_def Let_def)
  obtain b where "in_kernel b (t\<lparr>k_timer := clear_ack_timer_irq (k_timer t)\<rparr>)"
    using save_context_inv [OF example_in_user] unfolding t_def in_kernel_timer by metis
  from schedule_runs [OF this, of 1 9] state
  obtain k' where "c_timer_irq_handler 9 t = Some (Running, k')" by (auto simp: c_timer_irq_handler_def)
  then show ?thesis
    using timer_trap_checked [OF example_in_user t_def, of example_copy 9] writable by (simp add: checked_def assert_def)
qed

theorem checked_run_refines_witness:
  "in_user example_abs example_running_kernel \<and>
   (\<exists>k'. timer_trap example_copy 9 (\<lambda>_. 0) 0 0 0 0 0 example_running_kernel = Some (Running, k') \<and> (\<exists>a. in_user a k'))"
proof -
  obtain k' where k': "timer_trap example_copy 9 (\<lambda>_. 0) 0 0 0 0 0 example_running_kernel = Some (Running, k')"
    using example_timer_trap ..
  then have "(checked_step (linker_symbols 0x1000 0x2200000))\<^sup>*\<^sup>* example_running_kernel k'"
    by (intro r_into_rtranclp) (rule checked_step.irq)
  from checked_run_refines [OF this example_in_user] k' example_in_user show ?thesis by blast
qed

end
