(* ===== verification/Console.thy ===== *)
theory Console
  imports Strings
begin

text \<open>
  The console: \<^verbatim>\<open>src/src/libk/uart.c\<close>. The serial line is a device with the characters sent so far and
  those that will arrive; waiting for it to become ready is not modelled, and waiting for a character
  that never arrives does not return. \<open>internal_printf\<close> is given the functions for output, as in the
  code; its local array \<open>buff\<close> and the literal it prints after a newline have an address. A \<open>va_list\<close> is
  a list of register values; reading behind its end is undefined.
\<close>

abbreviation (input) IO_BUFF_SIZE :: nat where "IO_BUFF_SIZE \<equiv> 500"

section \<open>The serial line\<close>

record uart_t =
  sent :: "u8 list"
  arriving :: "u8 list"

record 'd con_state =
  con_mem :: bytes
  device :: 'd

definition poke_con :: "u64 \<Rightarrow> u8 \<Rightarrow> 'd con_state \<Rightarrow> 'd con_state" where
  "poke_con a c s = s\<lparr>con_mem := (con_mem s)(a := c)\<rparr>"

definition uart_putc :: "u8 \<Rightarrow> uart_t con_state \<Rightarrow> uart_t con_state" where
  "uart_putc c s = s\<lparr>device := (device s)\<lparr>sent := sent (device s) @ [c]\<rparr>\<rparr>"

definition uart_getc :: "uart_t con_state \<Rightarrow> (u8 \<times> uart_t con_state) option" where
  "uart_getc s = (case arriving (device s) of [] \<Rightarrow> None
     | c # cs \<Rightarrow> Some (c, s\<lparr>device := (device s)\<lparr>arriving := cs\<rparr>\<rparr>))"

partial_function (option) puts_from :: "u64 \<Rightarrow> nat \<Rightarrow> uart_t con_state \<Rightarrow> uart_t con_state option" where
  "puts_from str i s =
     (if con_mem s (str + of_nat i) \<noteq> 0 then puts_from str (Suc i) (uart_putc (con_mem s (str + of_nat i)) s) else Some s)"

text \<open>The loop counts in a variable of its own, so \<open>uart_puts\<close> returns the outer \<open>i\<close>, which is 0.\<close>

definition uart_puts :: "u64 \<Rightarrow> uart_t con_state \<Rightarrow> (u32 \<times> uart_t con_state) option" where
  "uart_puts str s = map_option (\<lambda>s. (0, s)) (puts_from str 0 s)"

section \<open>Numbers\<close>

definition digit_char :: "bool \<Rightarrow> u64 \<Rightarrow> u8" where
  "digit_char upper_hexa y = (if y \<le> 9 then ucast (48 + y) else if upper_hexa then ucast (55 + y) else ucast (87 + y))"

partial_function (option) uart_put_uint :: "u64 \<Rightarrow> u32 \<Rightarrow> bool \<Rightarrow> uart_t con_state \<Rightarrow> (u32 \<times> uart_t con_state) option" where
  "uart_put_uint x base upper_hexa s =
     (if x = 0 then Some (0, s)
      else if base = 0 then None
      else uart_put_uint (x div ucast base) base upper_hexa s \<bind> (\<lambda>r.
        Some (fst r + 1, uart_putc (digit_char upper_hexa (x mod ucast base)) (snd r))))"

definition uart_put_int :: "u64 \<Rightarrow> u32 \<Rightarrow> bool \<Rightarrow> bool \<Rightarrow> uart_t con_state \<Rightarrow> (u32 \<times> uart_t con_state) option" where
  "uart_put_int x base unsign upper_hexa s =
     (if x = 0 then Some (1, uart_putc 48 s)
      else if sint x < 0 \<and> \<not> unsign then
        do { (w, s) \<leftarrow> uart_put_uint (1 + NOT x) base upper_hexa (uart_putc 45 s); Some (1 + w, s) }
      else uart_put_uint x base upper_hexa s)"

section \<open>Formatted output\<close>

record 'd printer =
  pr_putc :: "u8 \<Rightarrow> 'd con_state \<Rightarrow> 'd con_state option"
  pr_puts :: "u64 \<Rightarrow> 'd con_state \<Rightarrow> (u32 \<times> 'd con_state) option"
  pr_put_int :: "u64 \<Rightarrow> u32 \<Rightarrow> bool \<Rightarrow> bool \<Rightarrow> 'd con_state \<Rightarrow> (u32 \<times> 'd con_state) option"

definition va_arg :: "u64 list \<Rightarrow> (u64 \<times> u64 list) option" where
  "va_arg adpar = (case adpar of [] \<Rightarrow> None | a # as \<Rightarrow> Some (a, as))"

text \<open>What a round leaves: the function returns -1, or goes on with the remaining arguments and the count.\<close>

type_synonym 'd round = "'d con_state + u64 list \<times> u32 \<times> 'd con_state"

definition put_arg :: "'d printer \<Rightarrow> bool \<Rightarrow> u32 \<Rightarrow> bool \<Rightarrow> bool \<Rightarrow> u64 list \<Rightarrow> u32 \<Rightarrow> 'd con_state \<Rightarrow> 'd round option" where
  "put_arg p is_int base unsign upper adpar written s =
     do { (a, as) \<leftarrow> va_arg adpar;
          (w, s) \<leftarrow> pr_put_int p (if is_int then scast (ucast a :: u32) else a) base unsign upper s;
          Some (Inr (as, written + w, s)) }"

text \<open>The \<open>switch\<close> on the character after \<open>%\<close>.\<close>

definition printf_conv :: "'d printer \<Rightarrow> u8 \<Rightarrow> u64 list \<Rightarrow> u32 \<Rightarrow> 'd con_state \<Rightarrow> 'd round option" where
  "printf_conv p c adpar written s =
     (if c = 37 then map_option (\<lambda>s. Inr (adpar, written, s)) (pr_putc p 37 s)
      else if c = 100 then put_arg p True 10 False False adpar written s
      else if c = 88 then put_arg p True 16 False True adpar written s
      else if c = 111 then put_arg p False 8 True False adpar written s
      else if c = 117 then put_arg p False 10 True False adpar written s
      else if c = 120 then put_arg p False 16 True False adpar written s
      else if c = 98 then put_arg p False 2 True False adpar written s
      else if c = 99 then do { (a, as) \<leftarrow> va_arg adpar; s \<leftarrow> pr_putc p (ucast a) s; Some (Inr (as, written + 1, s)) }
      else if c = 115 then
        do { (a, as) \<leftarrow> va_arg adpar; (w, s) \<leftarrow> pr_puts p a s; Some (Inr (as, written + w, s)) }
      else Some (Inl s))"

definition printf_flush :: "'d printer \<Rightarrow> u64 \<Rightarrow> nat \<Rightarrow> nat \<Rightarrow> u32 \<Rightarrow> 'd con_state \<Rightarrow> (u32 \<times> 'd con_state) option" where
  "printf_flush p buff limit buff_index written s =
     (if buff_index > 0 then
        do { assert (buff_index \<le> limit);
             (w, s) \<leftarrow> pr_puts p buff (poke_con (buff + of_nat buff_index) 0 s);
             Some (written + w, s) }
      else Some (written, s))"

text \<open>One round for a character that is copied to the buffer, which is printed when it is full.\<close>

definition printf_char :: "'d printer \<Rightarrow> u64 \<Rightarrow> u8 \<Rightarrow> nat \<Rightarrow> 'd con_state \<Rightarrow> (nat \<times> 'd con_state) option" where
  "printf_char p buff c buff_index s =
     (let s = poke_con (buff + of_nat buff_index) c s; buff_index = Suc buff_index in
      if buff_index = IO_BUFF_SIZE - 1 then
        do { (_, s) \<leftarrow> pr_puts p buff (poke_con (buff + of_nat buff_index) 0 s); Some (0, s) }
      else Some (buff_index, s))"

text \<open>One round for \<open>%\<close> or a newline inside of a labelled message; it takes two characters of the format or one.\<close>

definition breaks_line :: "bytes \<Rightarrow> u64 \<Rightarrow> bool \<Rightarrow> bool" where
  "breaks_line m f label \<longleftrightarrow> m f = 10 \<and> m (f + 1) \<noteq> 0 \<and> label"

definition printf_special :: "'d printer \<Rightarrow> u64 \<Rightarrow> u64 \<Rightarrow> u64 \<Rightarrow> bool \<Rightarrow> nat \<Rightarrow> u64 list \<Rightarrow> u32 \<Rightarrow> 'd con_state \<Rightarrow>
    ('d con_state + u64 \<times> u64 list \<times> u32 \<times> 'd con_state) option" where
  "printf_special p buff newline f label buff_index adpar written s =
     do { (written, s) \<leftarrow> printf_flush p buff (IO_BUFF_SIZE - 1) buff_index written s;
          if breaks_line (con_mem s) f label then
            do { (w, s) \<leftarrow> pr_puts p newline s; Some (Inr (1, adpar, written + w, s)) }
          else map_option (map_sum (\<lambda>s. s) (Pair 2)) (printf_conv p (con_mem s (f + 1)) adpar written s) }"

text \<open>The loop over the format, whose next character is at \<open>f\<close>.\<close>

partial_function (option) printf_loop ::
    "'d printer \<Rightarrow> u64 \<Rightarrow> u64 \<Rightarrow> bool \<Rightarrow> u64 \<Rightarrow> nat \<Rightarrow> u64 list \<Rightarrow> u32 \<Rightarrow> 'd con_state \<Rightarrow> (u32 \<times> 'd con_state) option" where
  "printf_loop p buff newline label f buff_index adpar written s =
     (if con_mem s f \<noteq> 0 then
        if con_mem s f \<noteq> 37 \<and> \<not> breaks_line (con_mem s) f label then
          printf_char p buff (con_mem s f) buff_index s \<bind> (\<lambda>r.
            printf_loop p buff newline label (f + 1) (fst r) adpar written (snd r))
        else
          printf_special p buff newline f label buff_index adpar written s \<bind> (\<lambda>r.
            case r of Inl s' \<Rightarrow> Some (-1, s')
            | Inr (k, adpar', written', s') \<Rightarrow> printf_loop p buff newline label (f + k) 0 adpar' written' s')
      else printf_flush p buff (IO_BUFF_SIZE - 2) buff_index written s)"

definition internal_printf ::
    "'d printer \<Rightarrow> u64 \<Rightarrow> u64 \<Rightarrow> u64 \<Rightarrow> u64 list \<Rightarrow> bool \<Rightarrow> 'd con_state \<Rightarrow> (u32 \<times> 'd con_state) option" where
  "internal_printf p buff newline format adpar label s = printf_loop p buff newline label format 0 adpar 0 s"

definition uart_printer :: "uart_t printer" where
  "uart_printer = \<lparr>pr_putc = (\<lambda>c s. Some (uart_putc c s)), pr_puts = uart_puts, pr_put_int = uart_put_int\<rparr>"

definition uart_printf :: "u64 \<Rightarrow> u64 \<Rightarrow> u64 \<Rightarrow> u64 list \<Rightarrow> uart_t con_state \<Rightarrow> (u32 \<times> uart_t con_state) option" where
  "uart_printf buff newline format adpar s = internal_printf uart_printer buff newline format adpar False s"

text \<open>
  The functions for messages of a level: \<open>label\<close> is the address of their literal, \<open>LOG_LEVEL\<close> the constant
  chosen by the build. \<open>uart_wtf\<close> compares with \<open>LOG_WTF\<close>, which is not defined and counts as 0.
\<close>

definition labelled :: "bool \<Rightarrow> u64 \<Rightarrow> u64 \<Rightarrow> u64 \<Rightarrow> u64 \<Rightarrow> u64 list \<Rightarrow> uart_t con_state \<Rightarrow> (u32 \<times> uart_t con_state) option" where
  "labelled on label buff newline format adpar s =
     (if on then do { (_, s) \<leftarrow> uart_puts label s; internal_printf uart_printer buff newline format adpar True s }
      else Some (0, s))"

definition uart_verbose :: "nat \<Rightarrow> u64 \<Rightarrow> u64 \<Rightarrow> u64 \<Rightarrow> u64 \<Rightarrow> u64 list \<Rightarrow> uart_t con_state \<Rightarrow> (u32 \<times> uart_t con_state) option" where
  "uart_verbose LOG_LEVEL = labelled (LOG_LEVEL \<ge> 5)"

definition uart_debug :: "nat \<Rightarrow> u64 \<Rightarrow> u64 \<Rightarrow> u64 \<Rightarrow> u64 \<Rightarrow> u64 list \<Rightarrow> uart_t con_state \<Rightarrow> (u32 \<times> uart_t con_state) option" where
  "uart_debug LOG_LEVEL = labelled (LOG_LEVEL \<ge> 4)"

definition uart_info :: "nat \<Rightarrow> u64 \<Rightarrow> u64 \<Rightarrow> u64 \<Rightarrow> u64 \<Rightarrow> u64 list \<Rightarrow> uart_t con_state \<Rightarrow> (u32 \<times> uart_t con_state) option" where
  "uart_info LOG_LEVEL = labelled (LOG_LEVEL \<ge> 3)"

definition uart_warning :: "nat \<Rightarrow> u64 \<Rightarrow> u64 \<Rightarrow> u64 \<Rightarrow> u64 \<Rightarrow> u64 list \<Rightarrow> uart_t con_state \<Rightarrow> (u32 \<times> uart_t con_state) option" where
  "uart_warning LOG_LEVEL = labelled (LOG_LEVEL \<ge> 2)"

definition uart_error :: "nat \<Rightarrow> u64 \<Rightarrow> u64 \<Rightarrow> u64 \<Rightarrow> u64 \<Rightarrow> u64 list \<Rightarrow> uart_t con_state \<Rightarrow> (u32 \<times> uart_t con_state) option" where
  "uart_error LOG_LEVEL = labelled (LOG_LEVEL \<ge> 1)"

definition uart_wtf :: "nat \<Rightarrow> u64 \<Rightarrow> u64 \<Rightarrow> u64 \<Rightarrow> u64 \<Rightarrow> u64 list \<Rightarrow> uart_t con_state \<Rightarrow> (u32 \<times> uart_t con_state) option" where
  "uart_wtf LOG_LEVEL = labelled (LOG_LEVEL \<ge> 0)"

section \<open>Reading a line\<close>

definition line_end :: "u8 \<Rightarrow> bool" where
  "line_end c \<longleftrightarrow> c = 13 \<or> c = 10"

partial_function (option) get_line :: "u64 \<Rightarrow> u64 \<Rightarrow> u64 \<Rightarrow> u8 \<Rightarrow> uart_t con_state \<Rightarrow> (u64 \<times> u8 \<times> uart_t con_state) option" where
  "get_line buff sz i c s =
     (if \<not> line_end c \<and> i < sz - 1 then
        uart_getc (poke_con (buff + i) c s) \<bind> (\<lambda>r. get_line buff sz (i + 1) (fst r) (uart_putc (fst r) (snd r)))
      else Some (i, c, s))"

partial_function (option) discard_line :: "u32 \<Rightarrow> u8 \<Rightarrow> uart_t con_state \<Rightarrow> (u32 \<times> uart_t con_state) option" where
  "discard_line non_copied_char c s =
     (if \<not> line_end c then uart_getc s \<bind> (\<lambda>r. discard_line (non_copied_char + 1) (fst r) (snd r))
      else Some (non_copied_char, s))"

definition uart_get_string :: "u64 \<Rightarrow> u64 \<Rightarrow> uart_t con_state \<Rightarrow> (u32 \<times> uart_t con_state) option" where
  "uart_get_string buff sz s =
     do { (c, s) \<leftarrow> uart_getc s;
          (i, c, s) \<leftarrow> get_line buff sz 0 c (uart_putc c s);
          discard_line 0 c (poke_con (buff + (i + 1)) 0 s) }"

end
