(* ===== verification/Sys.thy ===== *)
theory Sys
  imports Console
begin

text \<open>
  User programs and the system calls they make: \<^verbatim>\<open>src/src/libk/sys.c\<close>. A process sees its memory and the
  rest of the system; the instruction \<open>svc\<close> takes the number of the call and the registers from \<open>x0\<close> on,
  and gives \<open>x0\<close> and the state in which the process goes on, or never comes back. A manager process
  also drives the serial line. \<open>manager_svc\<close> and \<open>rendezvous\<close> are the calls as the channels of the kernel
  answer them, for a manager and for a client that waits for its reply; they are an abstract kernel with one client
  at a time, and \<open>Channel_Kernel\<close> relates them to the traps of the kernel model.
\<close>

section \<open>System calls\<close>

type_synonym 'd svc_instr = "nat \<Rightarrow> u64 list \<Rightarrow> 'd con_state \<Rightarrow> (u64 \<times> 'd con_state) option"

definition svc_int :: "(u64 \<times> 'd con_state) option \<Rightarrow> (u32 \<times> 'd con_state) option" where
  "svc_int r = map_option (\<lambda>(x, s). (ucast x, s)) r"

definition fork :: "'d svc_instr \<Rightarrow> u32 \<Rightarrow> 'd con_state \<Rightarrow> (u32 \<times> 'd con_state) option" where
  "fork svc prio s = svc_int (svc 0 [scast prio] s)"

text \<open>A return from \<open>exit\<close> is undefined.\<close>

definition exit_proc :: "'d svc_instr \<Rightarrow> u32 \<Rightarrow> u64 \<Rightarrow> 'd con_state \<Rightarrow> (u64 \<times> 'd con_state) option" where
  "exit_proc svc no data s = svc 1 [ucast no, data] s"

definition wait :: "'d svc_instr \<Rightarrow> u64 \<Rightarrow> 'd con_state \<Rightarrow> (u32 \<times> 'd con_state) option" where
  "wait svc status s = svc_int (svc 2 [status] s)"

definition send :: "'d svc_instr \<Rightarrow> u32 \<Rightarrow> u64 \<Rightarrow> u64 \<Rightarrow> u64 \<Rightarrow> u64 \<Rightarrow> bool \<Rightarrow> 'd con_state \<Rightarrow> (u32 \<times> 'd con_state) option" where
  "send svc target send_data sz ack_data asz wt s =
     svc_int (svc 3 [scast target, send_data, sz, ack_data, asz, of_bool wt] s)"

definition receive :: "'d svc_instr \<Rightarrow> u64 \<Rightarrow> u64 \<Rightarrow> 'd con_state \<Rightarrow> (u32 \<times> 'd con_state) option" where
  "receive svc receive_data sz s = svc_int (svc 4 [receive_data, sz] s)"

definition acknowledge :: "'d svc_instr \<Rightarrow> u32 \<Rightarrow> u64 \<Rightarrow> u64 \<Rightarrow> 'd con_state \<Rightarrow> (u32 \<times> 'd con_state) option" where
  "acknowledge svc code ack_data sz s = svc_int (svc 5 [scast code, ack_data, sz] s)"

definition upd_mem :: "(bytes \<Rightarrow> bytes) \<Rightarrow> 'd con_state \<Rightarrow> 'd con_state" where
  "upd_mem f s = s\<lparr>con_mem := f (con_mem s)\<rparr>"

text \<open>Local variables whose address is taken have it as a parameter: here \<open>code\<close>.\<close>

definition shutdown :: "'d svc_instr \<Rightarrow> u64 \<Rightarrow> 'd con_state \<Rightarrow> 'd con_state option" where
  "shutdown svc code s = map_option snd (send svc 1 code 4 0 0 True (upd_mem (store 4 code 0) s))"

section \<open>Managers\<close>

text \<open>
  Addresses that the code of a manager uses: its message structures, the buffer of \<open>internal_printf\<close>, and the
  string literals, which are named by their text up to the end of the line.
\<close>

record frame =
  fr_request :: u64
  fr_response :: u64
  fr_buff :: u64
  lit :: "string \<Rightarrow> u64"

text \<open>What a manager has besides its memory: the serial line, its global variables, and the rest of the system.\<close>

record ('k, 'g) manager_dev =
  uart :: uart_t
  globals :: 'g
  world :: 'k

type_synonym ('k, 'g) manager = "('k, 'g) manager_dev con_state"

definition on_uart :: "(uart_t con_state \<Rightarrow> ('r \<times> uart_t con_state) option) \<Rightarrow> ('k, 'g) manager \<Rightarrow> ('r \<times> ('k, 'g) manager) option" where
  "on_uart f s = map_option (\<lambda>(r, t). (r, \<lparr>con_mem = con_mem t, device = (device s)\<lparr>uart := device t\<rparr>\<rparr>))
     (f \<lparr>con_mem = con_mem s, device = uart (device s)\<rparr>)"

definition log_verbose :: "nat \<Rightarrow> frame \<Rightarrow> string \<Rightarrow> u64 list \<Rightarrow> ('k, 'g) manager \<Rightarrow> ('k, 'g) manager option" where
  "log_verbose LOG_LEVEL fr msg args s = map_option snd
     (on_uart (uart_verbose LOG_LEVEL (lit fr ''[VERBOSE]'') (fr_buff fr) (lit fr []) (lit fr msg) args) s)"

definition log_error :: "nat \<Rightarrow> frame \<Rightarrow> string \<Rightarrow> u64 list \<Rightarrow> ('k, 'g) manager \<Rightarrow> ('k, 'g) manager option" where
  "log_error LOG_LEVEL fr msg args s = map_option snd
     (on_uart (uart_error LOG_LEVEL (lit fr ''[ ERROR ]'') (fr_buff fr) (lit fr []) (lit fr msg) args) s)"

text \<open>The memory of an object that is initialised with zeros.\<close>

definition zeroed :: "u64 \<Rightarrow> nat \<Rightarrow> bytes \<Rightarrow> bytes" where
  "zeroed a n m = (\<lambda>x. if span a n x then 0 else m x)"

text \<open>The endless loop of a manager, up to the end of a round.\<close>

primrec rounds :: "nat \<Rightarrow> ('s \<Rightarrow> 's option) \<Rightarrow> 's \<Rightarrow> 's option" where
  "rounds 0 f s = Some s"
| "rounds (Suc n) f s = f s \<bind> rounds n f"

section \<open>Channels as processes see them\<close>

definition message_bytes :: "bytes \<Rightarrow> u64 \<Rightarrow> u64 \<Rightarrow> u8 list" where
  "message_bytes m a n = (if a = 0 then [] else map (\<lambda>i. m (a + of_nat i)) [0..<unat n])"

definition put_message :: "u64 \<Rightarrow> u8 list \<Rightarrow> bytes \<Rightarrow> bytes" where
  "put_message a xs m = (if a = 0 then m else (\<lambda>x. if unat (x - a) < length xs then xs ! unat (x - a) else m x))"

record mailbox =
  pending :: "(nat \<times> u8 list) list"
  replies :: "(u64 \<times> u8 list) list"

text \<open>
  The calls of a manager: \<open>receive\<close> delivers the next message and returns the number of its sender, or
  waits for ever when nobody sends; \<open>acknowledge\<close> gives the reply to the sender. \<open>pending\<close> lists the messages in the
  order in which the kernel hands them over. A message that does not fit, and an \<open>acknowledge\<close> without a message, are
  not calls that the managers here make and have no result.
\<close>

definition manager_svc :: "(mailbox, 'g) manager_dev svc_instr" where
  "manager_svc n args s =
     (let box = world (device s) in
      if n = 4 then
        case pending box of [] \<Rightarrow> None
        | (sender, msg) # rest \<Rightarrow>
            if length msg \<le> unat (args ! 1) then Some (of_nat sender,
              \<lparr>con_mem = put_message (args ! 0) msg (con_mem s), device = (device s)\<lparr>world := box\<lparr>pending := rest\<rparr>\<rparr>\<rparr>)
            else None
      else if n = 5 \<and> unat (args ! 2) \<le> 1024 then
        Some (0, s\<lparr>device := (device s)\<lparr>world :=
          box\<lparr>replies := replies box @ [(args ! 0, message_bytes (con_mem s) (args ! 1) (args ! 2))]\<rparr>\<rparr>\<rparr>)
      else None)"

text \<open>
  The call of a client that sends to a manager and waits for the reply, which a round of the manager
  gives. For the client, the manager is the rest of the system: no other client sends in between.
\<close>

definition rendezvous :: "((mailbox, 'g) manager \<Rightarrow> (mailbox, 'g) manager option) \<Rightarrow> nat \<Rightarrow> (mailbox, 'g) manager svc_instr" where
  "rendezvous round self n args s =
     (if n = 3 \<and> unat (args ! 2) \<le> 1024 then
        do { let msg = message_bytes (con_mem s) (args ! 1) (args ! 2);
             srv \<leftarrow> round ((device s)\<lparr>device := (device (device s))\<lparr>world := \<lparr>pending = [(self, msg)], replies = []\<rparr>\<rparr>\<rparr>);
             case replies (world (device srv)) of [] \<Rightarrow> None
             | (code, ack) # _ \<Rightarrow>
                 Some (code, \<lparr>con_mem = put_message (args ! 3) (take (unat (args ! 4)) ack) (con_mem s), device = srv\<rparr>) }
      else None)"

section \<open>Facts\<close>

lemma device_mem [simp]: "device (s\<lparr>con_mem := m\<rparr>) = device s"
  by (cases s) simp

lemma put_message_at: "a \<noteq> 0 \<Longrightarrow> length xs \<le> 2 ^ 64 \<Longrightarrow> i < length xs \<Longrightarrow> put_message a xs m (a + of_nat i) = xs ! i"
  by (simp add: put_message_def unat_of_nat)

lemma message_bytes_simps [simp]: "message_bytes m 0 n = []" "message_bytes m a 0 = []"
  by (simp_all add: message_bytes_def)

lemma length_message: "a \<noteq> 0 \<Longrightarrow> length (message_bytes m a n) = unat n"
  by (simp add: message_bytes_def)

lemma nth_message: "a \<noteq> 0 \<Longrightarrow> i < unat n \<Longrightarrow> message_bytes m a n ! i = m (a + of_nat i)"
  by (simp add: message_bytes_def)

lemma log_verbose_off: "LOG_LEVEL < 5 \<Longrightarrow> log_verbose LOG_LEVEL fr msg args s = Some s"
  by (simp add: log_verbose_def on_uart_def uart_verbose_def labelled_def)

lemma on_uart_eq: "f \<lparr>con_mem = con_mem s, device = uart (device s)\<rparr> = Some (r, t) \<Longrightarrow>
    on_uart f s = Some (r, \<lparr>con_mem = con_mem t, device = (device s)\<lparr>uart := device t\<rparr>\<rparr>)"
  by (simp add: on_uart_def)

lemma acknowledge_manager: "unat n \<le> 1024 \<Longrightarrow> acknowledge manager_svc code a n s =
    Some (0, s\<lparr>device := (device s)\<lparr>world := (world (device s))\<lparr>replies :=
      replies (world (device s)) @ [(scast code, message_bytes (con_mem s) a n)]\<rparr>\<rparr>\<rparr>)"
  by (simp add: acknowledge_def svc_int_def manager_svc_def Let_def)

lemma put_message_outside: "unat a + length xs \<le> 2 ^ 64 \<Longrightarrow> \<not> span a (length xs) y \<Longrightarrow> put_message a xs m y = m y"
  using unat_sub_ge [of a "length xs" y] by (simp add: put_message_def)

lemma delivered_at:
  assumes "q \<noteq> 0" and "R \<noteq> 0" and "i < unat n"
  shows "put_message R (message_bytes m q n) M (R + of_nat i) = m (q + of_nat i)"
proof -
  have "unat n < 2 ^ 64" using unsigned_less [of n] by simp
  then show ?thesis using put_message_at [OF assms(2), of "message_bytes m q n" i] assms by (simp add: length_message nth_message)
qed

lemma delivered_load:
  assumes "q \<noteq> 0" and "R \<noteq> 0" and "j + k \<le> unat n"
  shows "load k (put_message R (message_bytes m q n) M) (R + of_nat j) = load k m (q + of_nat j)"
proof (rule load_shift)
  fix i assume "i < k"
  then show "put_message R (message_bytes m q n) M (R + of_nat j + of_nat i) = m (q + of_nat j + of_nat i)"
    using delivered_at [OF assms(1,2), of "j + i" n m M] assms(3) by (simp add: add.assoc)
qed

end
