(* ===== verification/Channel_Kernel.thy ===== *)
theory Channel_Kernel
  imports Messages Sys
begin

text \<open>
  The channels of \<open>Sys\<close> against the kernel. User programs are verified over \<open>manager_svc\<close> and \<open>rendezvous\<close>, which give
  the system calls as a process sees them: registers in, \<open>x0\<close> and memory out. Here the traps of the kernel model
  (\<open>save_context\<close>, the handler of system calls, the scheduler, and any run of the machine until the process has the
  processor again) are shown to leave exactly those registers and that memory. The list \<open>pending\<close> stands for the messages in
  the order in which the kernel hands them over: a sender that meets a listening manager, or else the waiting
  sender with the lowest number. What the abstract calls do not show is the rest of the system: other
  processes run in between, and the memory of a process is taken to be its own while it is suspended.
\<close>

section \<open>Memory after a delivery\<close>

lemma delivered_put:
  assumes "write_addr b \<noteq> 0" and "length xs = unat (used_size b)" and "\<And>i. i < length xs \<Longrightarrow> buff b i = xs ! i"
  shows "delivered b h = put_message (write_addr b) xs h"
  using assms by (auto simp: delivered_def put_message_def)

lemma resumed_put:
  assumes "resumed q k2 k'" and "b = buffer (procs (k_sys k2) q)" and "write_addr b \<noteq> 0" and "length xs = unat (used_size b)"
    and "\<And>i. i < length xs \<Longrightarrow> buff b i = xs ! i"
  obtains h where "heap (k_alloc k') = put_message (write_addr b) xs h"
  using assms(1) delivered_put [OF assms(3-5)] unfolding resumed_def assms(2) by auto

text \<open>The memory and the mailbox after a call of a manager.\<close>

definition manager_view :: "(u64 \<times> (mailbox, 'g) manager) option \<Rightarrow> (u64 \<times> bytes \<times> (nat \<times> u8 list) list) option" where
  "manager_view r = map_option (\<lambda>(x, s). (x, con_mem s, pending (world (device s)))) r"

lemma manager_receives:
  assumes "pending (world (device s)) = (p, msg) # rest" and "length msg \<le> unat n"
  shows "manager_view (manager_svc 4 [a, n] s) = Some (of_nat p, put_message a msg (con_mem s), rest)"
  using assms by (simp add: manager_view_def manager_svc_def)

section \<open>A sender that has waited\<close>

lemma receive_connects:
  assumes abs: "abs_rel b s" and wf: "a_wf b" and run: "running b" and t: "abs_rel (spec_receive b) t"
    and q: "q = last_pid s" "R = registers (saved_context (procs s q))"
    and i: "List.find (\<lambda>i. state (procs s i) = WAIT_LISTENER \<and> target_pid (sender_data (procs s i)) = int q) [0..<MAX_PROC] = Some i"
    and m: "send_size (sender_data (procs s i)) \<le> R 1"
  shows "state (procs t i) = SENDING_CH" and "state (procs t q) = RUNNABLE" and "registers (saved_context (procs t q)) 0 = of_nat i"
    and "used_size (buffer (procs t q)) = used_size (buffer (procs s i))" and "write_addr (buffer (procs t q)) = R 0"
    and "j < unat (used_size (buffer (procs s i))) \<Longrightarrow> buff (buffer (procs t q)) j = buff (buffer (procs s i)) j"
proof -
  note B = abs_onD(1,2) [OF abs [unfolded abs_rel_def]]
  have ran: "q < MAX_PROC" "state (procs s q) = RUNNABLE" using run by (simp_all add: running_def B q(1))
  have w: "i < MAX_PROC" "state (procs s i) = WAIT_LISTENER" using i by (auto simp: find_Some_iff)
  then have iq: "i \<noteq> q" and pid: "pid (procs s i) = i" using ran a_wfD(1) [OF wf w(1)] by (auto simp: B)
  define b1 where "b1 = a_change q LISTENING_CH (a_upd q (receiver_data_update (\<lambda>d. d\<lparr>receive_data := R 0, receive_size := R 1\<rparr>)) b)"
  have "a_waiting_sender b1 q = List.find (\<lambda>i. state (procs s i) = WAIT_LISTENER \<and> target_pid (sender_data (procs s i)) = int q) [0..<MAX_PROC]"
    unfolding a_waiting_sender_def by (rule find_cong [OF refl]) (use ran in \<open>auto simp: b1_def B\<close>)
  then have "spec_receive b = a_connect i q b1"
    using i by (simp add: spec_receive_def Let_def b1_def B q(1) [symmetric] q(2) [symmetric])
  moreover have "a_connect i q b1 = a_change q RUNNABLE (a_change i SENDING_CH (a_upd i message_sent (a_upd q (deliver_msg (a_procs b1 i)) b1)))"
    using m iq by (simp add: a_connect_def b1_def B)
  ultimately have T: "proc_data (procs t x) = a_procs (a_change q RUNNABLE (a_change i SENDING_CH (a_upd i message_sent (a_upd q (deliver_msg (a_procs b1 i)) b1)))) x" for x
    using abs_onD(2) [OF t [unfolded abs_rel_def], of x] by simp
  have ti: "state (proc_data (procs t i)) = SENDING_CH" using iq by (simp add: T)
  have tq: "proc_data (procs t q) = (deliver_msg (a_procs b1 i) (a_procs b1 q))\<lparr>state := RUNNABLE\<rparr>" using iq by (simp add: T)
  have tq': "state (proc_data (procs t q)) = RUNNABLE" "registers (saved_context (proc_data (procs t q))) 0 = of_nat i"
    "buffer (proc_data (procs t q)) = (buffer (procs s q))\<lparr>used_size := used_size (buffer (procs s i)), write_addr := R 0,
       buff := buf_move (buff (buffer (procs s q))) (buff (buffer (procs s i))) (used_size (buffer (procs s i)))\<rparr>"
    unfolding tq using pid iq by (simp_all add: deliver_msg_def set_r0_def b1_def B)
  show "state (procs t i) = SENDING_CH" "state (procs t q) = RUNNABLE" "registers (saved_context (procs t q)) 0 = of_nat i"
    "used_size (buffer (procs t q)) = used_size (buffer (procs s i))" "write_addr (buffer (procs t q)) = R 0"
    "j < unat (used_size (buffer (procs s i))) \<Longrightarrow> buff (buffer (procs t q)) j = buff (buffer (procs s i)) j"
    using ti tq' by (simp_all add: buf_move_def)
qed

lemma save_context_plain:
  assumes q: "q = curr_pid (k_sys k)" and svc: "svc_code esr = 4" and s: "s = k_sys (save_context stack sp0 elr spsr hsp 0 esr k)"
  shows "registers (saved_context (procs s q)) = frame_registers stack hsp (registers (saved_context (procs (k_sys k) q)))"
    and "x \<noteq> q \<Longrightarrow> procs s x = procs (k_sys k) x" and "last_pid s = q" and "state (procs s q) = state (procs (k_sys k) q)"
  using svc unfolding s
  by (auto simp: save_context_def Let_def back_up_buff_svc_def save_errno_def save_alloc_conf_def k_proc_upd_def proc_upd_def
      svc_code_def q [symmetric])

lemma receive_hands_over:
  assumes user: "in_user a k" and q: "q = curr_pid (k_sys k)"
    and R: "R = frame_registers stack hsp (registers (saved_context (procs (k_sys k) q)))" and svc: "svc_code esr = 4"
    and i: "List.find (\<lambda>i. state (procs (k_sys k) i) = WAIT_LISTENER \<and> target_pid (sender_data (procs (k_sys k) i)) = int q) [0..<MAX_PROC] = Some i"
    and m: "send_size (sender_data (procs (k_sys k) i)) \<le> R 1"
  obtains k1 k2 where "c_el1_svc_aarch64_handler ll cntpct esr (save_context stack sp0 elr spsr hsp 0 esr k) = Some (Running, k1)"
    and "state (procs (k_sys k1) i) = SENDING_CH" and "\<And>k'. runs_next ll q k1 k' \<Longrightarrow> resumed q k2 k'"
    and "registers (saved_context (procs (k_sys k2) q)) 0 = of_nat i"
    and "used_size (buffer (procs (k_sys k2) q)) = used_size (buffer (procs (k_sys k) i))"
    and "write_addr (buffer (procs (k_sys k2) q)) = R 0"
    and "\<And>j. j < unat (used_size (buffer (procs (k_sys k) i))) \<Longrightarrow> buff (buffer (procs (k_sys k2) q)) j = buff (buffer (procs (k_sys k) i)) j"
proof -
  define k0 where "k0 = save_context stack sp0 elr spsr hsp 0 esr k"
  define s where "s = k_sys k0"
  note saved = save_context_plain [OF q svc s_def [unfolded k0_def]]
  obtain b where b: "in_kernel b k0" "running b" "svc_buffered b" using save_context_inv [OF user] unfolding k0_def .
  obtain k2 where k2: "on_sys syscall_receive k0 = Some k2" "in_kernel (spec_receive b) k2" using svc_calls(4) [OF b] by blast
  have u: "state (procs (k_sys k) q) = RUNNABLE" "q < MAX_PROC" "all_ok a" "\<And>x. a_procs a x = proc_data (procs (k_sys k) x)"
    using user abs_onD(2) by (fastforce simp: in_user_def valid_def abs_rel_def Let_def q)+
  have w: "state (procs (k_sys k) i) = WAIT_LISTENER" using i by (auto simp: find_Some_iff)
  then have iq: "i \<noteq> q" "i \<noteq> 0" using u all_ok_not_kernel [OF u(3), of i] by auto
  then have si: "procs s i = procs (k_sys k) i" using saved(2) by simp
  have "List.find (\<lambda>i. state (procs s i) = WAIT_LISTENER \<and> target_pid (sender_data (procs s i)) = int q) [0..<MAX_PROC] = Some i"
    unfolding i [symmetric] by (rule find_cong [OF refl]) (use saved(2,4) u(1) in \<open>metis proc_state.distinct\<close>)
  moreover have "abs_rel b s" "a_wf b" "abs_rel (spec_receive b) (k_sys k2)" using b(1) k2(2) by (simp_all add: in_kernel_def valid_def s_def)
  ultimately have got: "state (procs (k_sys k2) i) = SENDING_CH" "state (procs (k_sys k2) q) = RUNNABLE"
    "registers (saved_context (procs (k_sys k2) q)) 0 = of_nat i" "used_size (buffer (procs (k_sys k2) q)) = used_size (buffer (procs s i))"
    "write_addr (buffer (procs (k_sys k2) q)) = R 0"
    "\<And>j. j < unat (used_size (buffer (procs s i))) \<Longrightarrow> buff (buffer (procs (k_sys k2) q)) j = buff (buffer (procs s i)) j"
    using receive_connects [of b s "k_sys k2" q R i] b(2) saved(1,3) R m by (simp_all only: si)
  obtain k1 where k1: "schedule cntpct k2 = Some (Running, k1)" "\<And>x. x \<noteq> 0 \<Longrightarrow> state (procs (k_sys k1) x) = state (procs (k_sys k2) x)"
    and later: "\<And>k'. runs_next ll q k1 k' \<Longrightarrow> resumed q k2 k'"
    using resumes_later [OF k2(2) u(2) got(2), of cntpct ll] by blast
  have "c_el1_svc_aarch64_handler ll cntpct esr k0 = Some (Running, k1)"
    using svc k1(1) k2(1) by (simp add: c_el1_svc_aarch64_handler_def Let_def svc_code_def)
  moreover have "state (procs (k_sys k1) i) = SENDING_CH" using k1(2) [OF iq(2)] got(1) by simp
  ultimately show thesis using that [OF _ _ later got(3), unfolded k0_def [symmetric]] got(4-6) si by simp
qed

section \<open>Properties\<close>



text \<open>
  C7. A manager that receives while processes wait to send to it: the kernel takes the waiting sender with the lowest
  number, and when the manager has the processor again, \<open>x0\<close> and its memory are what \<open>manager_svc\<close> gives
  when the first pending message is the one that the kernel saved for that sender.
\<close>

theorem receive_matches_channel:
  assumes "in_user a k" and "q = curr_pid (k_sys k)"
    and "R = frame_registers stack hsp (registers (saved_context (procs (k_sys k) q)))" and "svc_code esr = 4"
    and "List.find (\<lambda>i. state (procs (k_sys k) i) = WAIT_LISTENER \<and> target_pid (sender_data (procs (k_sys k) i)) = int q) [0..<MAX_PROC] = Some i"
    and "send_size (sender_data (procs (k_sys k) i)) \<le> R 1" and "R 0 \<noteq> 0" and "b = buffer (procs (k_sys k) i)"
  shows "\<exists>k1. c_el1_svc_aarch64_handler ll cntpct esr (save_context stack sp0 elr spsr hsp 0 esr k) = Some (Running, k1) \<and>
     state (procs (k_sys k1) i) = SENDING_CH \<and>
     (\<forall>k'. runs_next ll q k1 k' \<longrightarrow> (\<exists>mem. \<forall>s rest. con_mem s = mem \<longrightarrow>
        pending (world (device s)) = (i, map (buff b) [0..<unat (used_size b)]) # rest \<longrightarrow>
        manager_view (manager_svc 4 [R 0, R 1] s) =
          Some (registers (saved_context (procs (k_sys k') q)) 0, heap (k_alloc k'), rest)))"
proof -
  let ?msg = "map (buff b) [0..<unat (used_size b)]"
  obtain k1 k2 where k1: "c_el1_svc_aarch64_handler ll cntpct esr (save_context stack sp0 elr spsr hsp 0 esr k) = Some (Running, k1)"
    "state (procs (k_sys k1) i) = SENDING_CH" and later: "\<And>k'. runs_next ll q k1 k' \<Longrightarrow> resumed q k2 k'"
    and k2: "registers (saved_context (procs (k_sys k2) q)) 0 = of_nat i" "used_size (buffer (procs (k_sys k2) q)) = used_size b"
    "write_addr (buffer (procs (k_sys k2) q)) = R 0"
    "\<And>j. j < unat (used_size b) \<Longrightarrow> buff (buffer (procs (k_sys k2) q)) j = buff b j"
    using receive_hands_over [OF assms(1-6), of ll cntpct sp0 elr spsr] unfolding assms(8) by metis
  have i: "i < MAX_PROC" "state (procs (k_sys k) i) = WAIT_LISTENER" using assms(5) by (auto simp: find_Some_iff)
  have "a_wf a" "a_procs a i = proc_data (procs (k_sys k) i)" using assms(1) abs_onD(2) by (auto simp: in_user_def valid_def abs_rel_def)
  then have "used_size b \<le> send_size (sender_data (procs (k_sys k) i))" using a_wfD(5) [of a i] i assms(8) by simp
  then have len: "length ?msg \<le> unat (R 1)" using assms(6) by (simp add: word_le_nat_alt)
  have "\<exists>mem. \<forall>s rest. con_mem s = mem \<longrightarrow> pending (world (device s)) = (i, ?msg) # rest \<longrightarrow>
        manager_view (manager_svc 4 [R 0, R 1] s) =
          Some (registers (saved_context (procs (k_sys k') q)) 0, heap (k_alloc k'), rest)" if run: "runs_next ll q k1 k'" for k'
  proof -
    obtain h where "heap (k_alloc k') = put_message (R 0) ?msg h"
      using resumed_put [OF later [OF run] refl, of ?msg] k2(2-4) assms(7) by auto
    moreover have "registers (saved_context (procs (k_sys k') q)) 0 = of_nat i" using later [OF run] k2(1) by (simp add: resumed_def)
    ultimately show ?thesis using len by (intro exI [of _ h]) (simp add: manager_receives)
  qed
  then show ?thesis using k1 by blast
qed

text \<open>Process 4 waits to send an empty message to process 1, which receives.\<close>

lemma example_waiting:
  obtains k b where "in_user b k" and "curr_pid (k_sys k) = 1"
    and "List.find (\<lambda>i. state (procs (k_sys k) i) = WAIT_LISTENER \<and> target_pid (sender_data (procs (k_sys k) i)) = int 1) [0..<MAX_PROC] = Some 4"
    and "send_size (sender_data (procs (k_sys k) 4)) = 0"
proof -
  let ?a = "a_change 4 WAIT_LISTENER example_abs"
  have four: "state (a_procs example_abs 4) = SENDING_CH" "used_size (buffer (a_procs example_abs 4)) = 0" "send_size (sender_data (a_procs example_abs 4)) = 0"
    by (simp_all add: example_abs_def) (simp_all add: example_procs_def new_proc_descriptor_def Let_def)
  have "abs_on (a_live example_abs) example_abs (example_sys\<lparr>curr_pid := 1\<rparr>)"
    using example_rel unfolding abs_rel_def abs_on_curr .
  then obtain t where t: "change_state 4 WAIT_LISTENER (example_sys\<lparr>curr_pid := 1\<rparr>) = Some t" "abs_on (a_live ?a) ?a t"
    by (rule change_state_abs [where p = 4 and new = WAIT_LISTENER and L' = "a_live ?a"])
       (auto simp: a_live_def example_sys_def example_abs_def)
  have "curr_pid t = 1" using curr_pid_change [OF t(1)] by simp
  moreover have P: "proc_data (procs t i) = a_procs ?a i" for i using abs_onD(2) [OF t(2)] by simp
  moreover have "a_wf ?a" "all_ok ?a"
    using a_wf_change [OF example_wf, of 4 WAIT_LISTENER] all_ok_change [OF example_all_ok, of 4 WAIT_LISTENER] four
    by (auto simp: proc_ok_def desc_ok_def)
  ultimately have "in_user ?a (example_running_kernel\<lparr>k_sys := t\<rparr>)"
    using t(2) example_in_user
    by (simp add: in_user_def valid_def abs_rel_def Let_def example_running_kernel_def)
  moreover have "state (procs t i) = (if i = 4 then WAIT_LISTENER else state (example_procs i))" "sender_data (procs t i) = sender_data (example_procs i)" for i
    using arg_cong [OF P, of state i] arg_cong [OF P, of sender_data i] by (auto simp: example_abs_def)
  ultimately show thesis
    using \<open>curr_pid t = 1\<close> by (intro that [of ?a "example_running_kernel\<lparr>k_sys := t\<rparr>"])
      (auto simp: upt_rec example_procs_def new_proc_descriptor_def Let_def)
qed

theorem receive_matches_channel_witness:
  "\<exists>k k1. List.find (\<lambda>i. state (procs (k_sys k) i) = WAIT_LISTENER \<and> target_pid (sender_data (procs (k_sys k) i)) = int 1) [0..<MAX_PROC] = Some 4 \<and>
     c_el1_svc_aarch64_handler (linker_symbols 0x1000 0x2200000) 9 0x56000004
        (save_context message_stack 0 0 0 0 0 0x56000004 k) = Some (Running, k1) \<and> state (procs (k_sys k1) 4) = SENDING_CH"
proof -
  obtain k b where k: "in_user b k" "curr_pid (k_sys k) = 1"
    and w: "List.find (\<lambda>i. state (procs (k_sys k) i) = WAIT_LISTENER \<and> target_pid (sender_data (procs (k_sys k) i)) = int 1) [0..<MAX_PROC] = Some 4"
    and z: "send_size (sender_data (procs (k_sys k) 4)) = 0"
    by (rule example_waiting)
  have c: "svc_code 0x56000004 = 4" by (simp add: svc_code_def MASK_def MASK_range_def)
  define R where "R = frame_registers message_stack 0 (registers (saved_context (procs (k_sys k) 1)))"
  have r: "R 0 \<noteq> 0" "send_size (sender_data (procs (k_sys k) 4)) \<le> R 1" unfolding R_def message_frame z by simp_all
  show ?thesis
    using receive_matches_channel [OF k(1) k(2) [symmetric] R_def c w r(2,1) refl, of "linker_symbols 0x1000 0x2200000" 9 0 0 0] w by blast
qed





end
