(* ===== verification/Address_Spaces.thy ===== *)
theory Address_Spaces
  imports Kernel_Mmu
begin

text \<open>
  Several address spaces in one memory, and the loops of \<open>process_init_copy_and_write\<close> of \<^verbatim>\<open>src/src/memory/mmu.c\<close>. The
  tables of the kernel, of a process and of its parent are told apart by their roots; \<open>apart\<close> says that a store into
  one of them changes no other. \<open>copied\<close> is the invariant of the loop that shares the pages of the parent.
\<close>

section \<open>Several address spaces in one memory\<close>

definition at_table :: "u64 \<Rightarrow> mmu_state \<Rightarrow> mmu_state" where
  "at_table L m = m\<lparr>lvl2_table_address := L\<rparr>"

definition tables_of :: "u64 \<Rightarrow> mmu_state \<Rightarrow> u64 set" where
  "tables_of L m = insert L (lvl3_table (at_table L m) ` {i. i < 511})"

lemma at_table_simps [simp]:
  "lvl2_table_address (at_table L m) = L" "mem64 (at_table L m) = mem64 m" "AT (at_table L m) a = AT m a"
  "at_table L (AT_store a v m) = AT_store a v (at_table L m)" "at_table L (at_table L' m) = at_table L m"
  "lvl2_table_address m = L \<Longrightarrow> at_table L m = m"
  by (auto simp: at_table_def AT_def AT_store_def)

lemma at_table_cong:
  assumes "mem64 m' = mem64 m"
  shows "walk_ok (at_table L m') = walk_ok (at_table L m)" "pt (at_table L m') i j = pt (at_table L m) i j"
    "lvl3_table (at_table L m') i = lvl3_table (at_table L m) i" "lvl2_entry (at_table L m') i = lvl2_entry (at_table L m) i"
    "tables_of L m' = tables_of L m"
  using assms by (simp_all add: walk_ok_def pt_def lvl3_table_def lvl2_entry_def AT_def tables_of_def)

text \<open>
  The tables of the address spaces with the roots \<open>R\<close> are apart, but for the kernel's part: the tables below \<open>E\<close> may
  be common.
\<close>

definition apart :: "u64 \<Rightarrow> u64 set \<Rightarrow> mmu_state \<Rightarrow> bool" where
  "apart E R m \<longleftrightarrow> (\<forall>L\<in>R. walk_ok (at_table L m)) \<and>
     (\<forall>L\<in>R. \<forall>L'\<in>R. L \<noteq> L' \<longrightarrow> L \<notin> tables_of L' m \<and> (\<forall>i. E \<le> i \<longrightarrow> i < 511 \<longrightarrow> lvl3_table (at_table L m) i \<notin> tables_of L' m))"

lemma apart_walk: "apart E R m \<Longrightarrow> L \<in> R \<Longrightarrow> walk_ok (at_table L m)"
  by (simp add: apart_def)

lemma apart_mono: "apart E R m \<Longrightarrow> R' \<subseteq> R \<Longrightarrow> apart E R' m"
  by (simp add: apart_def subset_iff)

lemma apart_cong:
  assumes "mem64 m' = mem64 m"
  shows "apart E R m' = apart E R m"
  unfolding apart_def at_table_cong [OF assms] ..

lemma less_512:
  assumes "(k::u64) < 511"
  shows "k < 512"
  using assms by (rule less_trans) simp

text \<open>A change of a page that is no table of an address space does not change it.\<close>

lemma outside_view:
  assumes ok: "walk_ok (at_table L m)" and so: "same_off_tables T m m'" and T: "T \<notin> tables_of L m"
  shows "k < 511 \<Longrightarrow> lvl2_entry (at_table L m') k = lvl2_entry (at_table L m) k"
    and "k < 511 \<Longrightarrow> lvl3_table (at_table L m') k = lvl3_table (at_table L m) k"
    and "k < 511 \<Longrightarrow> l < 512 \<Longrightarrow> pt (at_table L m') k l = pt (at_table L m) k l"
    and "walk_ok (at_table L m')" and "tables_of L m' = tables_of L m"
proof -
  have "aligned L" "L \<noteq> T" using walk_ok_aligned [OF ok] T by (auto simp: tables_of_def)
  then have e2: "lvl2_entry (at_table L m') k = lvl2_entry (at_table L m) k" if "k < 511" for k
    using so less_512 [OF that] by (simp add: lvl2_entry_def same_off_tables_def)
  then show "k < 511 \<Longrightarrow> lvl2_entry (at_table L m') k = lvl2_entry (at_table L m) k" .
  show t3: "lvl3_table (at_table L m') k = lvl3_table (at_table L m) k" if "k < 511" for k
    using e2 [OF that] by (simp add: lvl3_table_def)
  show "walk_ok (at_table L m')" using ok t3 by (simp add: walk_ok_def)
  show "tables_of L m' = tables_of L m" using t3 by (simp add: tables_of_def)
  show "pt (at_table L m') k l = pt (at_table L m) k l" if k: "k < 511" and l: "l < 512"
  proof -
    have "lvl3_table (at_table L m) k \<noteq> T" using T k by (auto simp: tables_of_def)
    then have "AT m' (lvl3_table (at_table L m) k + 8 * l) = AT m (lvl3_table (at_table L m) k + 8 * l)"
      using so l by (simp add: same_off_tables_def)
    then show ?thesis by (simp add: pt_def e2 [OF k] t3 [OF k])
  qed
qed

lemma table_store_outside:
  assumes "aligned T" "j < 512"
  shows "same_off_tables T m (AT_store (T + 8 * j) v m)"
  using same_off_tables_store [OF assms, of m m] by (simp add: same_off_tables_def)

lemmas store_elsewhere = outside_view [OF _ table_store_outside, simplified at_table_simps]

text \<open>A store into a level 3 table of one of the address spaces.\<close>

lemma apart_store:
  assumes ap: "apart E R m" and L: "L \<in> R" and i: "E \<le> i" "i < 511" and j: "j < 512"
    and a: "a = lvl3_table (at_table L m) i + 8 * j"
  shows "apart E R (AT_store a v m)"
    and "L' \<in> R \<Longrightarrow> k < 511 \<Longrightarrow> lvl2_entry (AT_store a v (at_table L' m)) k = lvl2_entry (at_table L' m) k"
    and "L' \<in> R \<Longrightarrow> k < 511 \<Longrightarrow> l < 512 \<Longrightarrow> pt (AT_store a v (at_table L' m)) k l =
      (if L' = L \<and> k = i \<and> l = j then if is_table_entry (lvl2_entry (at_table L m) i) \<and> is_block_entry v 3 then Some v else None
       else pt (at_table L' m) k l)"
proof -
  note own = lvl3_store [OF apart_walk [OF ap L] i(2) j a]
  have other: "lvl3_table (at_table L m) i \<notin> tables_of L' m" if "L' \<in> R" "L' \<noteq> L" for L'
    using ap L that i by (auto simp: apart_def)
  note else = store_elsewhere [OF apart_walk [OF ap] aligned_lvl3_table j other, folded a]
  show e2: "lvl2_entry (AT_store a v (at_table L' m)) k = lvl2_entry (at_table L' m) k" if "L' \<in> R" "k < 511" for L' k
    using own(1) [OF less_512] else(1) that by (cases "L' = L") simp_all
  have t3: "lvl3_table (AT_store a v (at_table L' m)) k = lvl3_table (at_table L' m) k" if "L' \<in> R" "k < 511" for L' k
    using e2 [OF that] by (simp add: lvl3_table_def)
  have tabs: "tables_of L' (AT_store a v m) = tables_of L' m" if "L' \<in> R" for L'
    using t3 [OF that] by (simp add: tables_of_def)
  have "walk_ok (AT_store a v (at_table L' m))" if "L' \<in> R" for L'
    using own(2) else(4) that by (cases "L' = L") simp_all
  then show "apart E R (AT_store a v m)"
    using ap by (auto simp: apart_def tabs t3)
  show "pt (AT_store a v (at_table L' m)) k l =
      (if L' = L \<and> k = i \<and> l = j then if is_table_entry (lvl2_entry (at_table L m) i) \<and> is_block_entry v 3 then Some v else None
       else pt (at_table L' m) k l)" if "L' \<in> R" "k < 511" "l < 512"
    using own(3) [OF that(2,3)] else(3) that by (cases "L' = L") simp_all
qed

text \<open>A store into a level 2 table that keeps the address of the entry.\<close>

lemma apart_store_lvl2:
  assumes ap: "apart E R m" and L: "L \<in> R" and i: "i < 511" and a: "a = L + 8 * i"
    and v: "v AND MASK 47 12 = AT m a AND MASK 47 12"
  shows "apart E R (AT_store a v m)"
    and "L' \<in> R \<Longrightarrow> k < 511 \<Longrightarrow> lvl2_entry (AT_store a v (at_table L' m)) k = (if L' = L \<and> k = i then v else lvl2_entry (at_table L' m) k)"
    and "L' \<in> R \<Longrightarrow> k < 511 \<Longrightarrow> l < 512 \<Longrightarrow> L' \<noteq> L \<or> k \<noteq> i \<Longrightarrow> pt (AT_store a v (at_table L' m)) k l = pt (at_table L' m) k l"
proof -
  have al: "aligned L" using walk_ok_aligned [OF apart_walk [OF ap L]] by simp
  have a': "a = lvl2_table_address (at_table L m) + 8 * i" and v': "v AND MASK 47 12 = lvl2_entry (at_table L m) i AND MASK 47 12"
    using a v by (simp_all add: lvl2_entry_def)
  note own = lvl2_store [OF apart_walk [OF ap L] less_512 [OF i] a' v']
  have other: "L \<notin> tables_of L' m" if "L' \<in> R" "L' \<noteq> L" for L'
    using ap L that by (auto simp: apart_def)
  note else = store_elsewhere [OF apart_walk [OF ap] al less_512 [OF i] other, folded a]
  show e2: "lvl2_entry (AT_store a v (at_table L' m)) k = (if L' = L \<and> k = i then v else lvl2_entry (at_table L' m) k)" if "L' \<in> R" "k < 511" for L' k
    using own(2) else(1) that by (cases "L' = L") simp_all
  have t3: "lvl3_table (AT_store a v (at_table L' m)) k = lvl3_table (at_table L' m) k" if "L' \<in> R" "k < 511" for L' k
    using own(3) else(1) that by (cases "L' = L") (simp_all add: lvl3_table_def)
  have tabs: "tables_of L' (AT_store a v m) = tables_of L' m" if "L' \<in> R" for L'
    using t3 [OF that] by (simp add: tables_of_def)
  have "walk_ok (AT_store a v (at_table L' m))" if "L' \<in> R" for L'
    using own(1) else(4) that by (cases "L' = L") simp_all
  then show "apart E R (AT_store a v m)"
    using ap by (auto simp: apart_def tabs t3)
  show "pt (AT_store a v (at_table L' m)) k l = pt (at_table L' m) k l" if "L' \<in> R" "k < 511" "l < 512" "L' \<noteq> L \<or> k \<noteq> i"
    using own(4) else(3) that by (cases "L' = L") simp_all
qed

section \<open>The loop that copies the entries\<close>

abbreviation (input) forked_attributes :: block_attributes_sg1 where
  "forked_attributes \<equiv> new_block_attributes_sg1 (FORKED_PAGE OR ACCESS_FLAG_SET) NORMAL_WT_NT"

definition frame_of :: "u64 \<Rightarrow> u64" where "frame_of e = e AND MASK 47 12"

definition forked :: "u64 \<Rightarrow> u64" where "forked e = frame_of e OR attribute_bits forked_attributes"

definition shared :: "u64 \<Rightarrow> u64 \<Rightarrow> u64 \<Rightarrow> u64" where
  "shared i j e = (if i = 504 \<and> (j = 511 \<or> j = 510) then e else forked e)"

lemma forked_facts [simp]: "is_block_entry (forked e) 3" "frame_of (forked e) = frame_of e"
  using attribute_bits_low(1,2) [of forked_attributes]
  by (simp_all add: is_entry_bits forked_def bit_or_iff)
    (rule bit_word_eqI, auto simp: frame_of_def bit_simps attribute_bits_low)

lemma shared_facts [simp]: "is_block_entry e 3 \<Longrightarrow> is_block_entry (shared i j e) 3" "frame_of (shared i j e) = frame_of e"
  by (simp_all add: shared_def)

lemma slot_address:
  assumes "i < 511" and "j < 512"
  shows "unat (GRANULE * (of_nat i * N_TABLE_ENTRIES + of_nat j)) = 4096 * (512 * i + j)"
    and "of_nat i * 8 = 8 * (of_nat i :: u64)"
  using assms by (simp_all add: unat_word_ariths unat_of_nat take_bit_nat_eq_self)

lemma slot_split:
  assumes "(l::nat) < 512" and "j < 512"
  shows "512 * k + l = 512 * i + j \<longleftrightarrow> k = i \<and> l = j"
proof
  assume eq: "512 * k + l = 512 * i + j"
  have "(512 * k + l) div 512 = k" "(512 * i + j) div 512 = i" using assms by simp_all
  with eq show "k = i \<and> l = j" by simp
qed simp

lemma special_slots:
  assumes "i < 511" and "j < 512"
  shows "GRANULE * (of_nat i * N_TABLE_ENTRIES + of_nat j) = TIMER_IRQ_PAGE \<longleftrightarrow> (of_nat i :: u64) = 504 \<and> (of_nat j :: u64) = 11"
    and "GRANULE * (of_nat i * N_TABLE_ENTRIES + of_nat j) = STACK_PAGE_1 \<longleftrightarrow> (of_nat i :: u64) = 504 \<and> (of_nat j :: u64) = 511"
    and "GRANULE * (of_nat i * N_TABLE_ENTRIES + of_nat j) = STACK_PAGE_2 \<longleftrightarrow> (of_nat i :: u64) = 504 \<and> (of_nat j :: u64) = 510"
proof -
  have w: "(of_nat k :: u64) = c \<longleftrightarrow> k = unat c" if "k < 512" for k c
    using word_index(1) [OF that] by (auto simp: word_unat_eq_iff)
  have v: "GRANULE * (of_nat i * N_TABLE_ENTRIES + of_nat j) = c \<longleftrightarrow> 512 * i + j = unat c div 4096" if "unat c mod 4096 = 0" for c
    unfolding word_unat_eq_iff slot_address(1) [OF assms] using that by (auto elim!: dvdE simp: mod_eq_0_iff_dvd)
  have i: "i < 512" using assms(1) by simp
  show "GRANULE * (of_nat i * N_TABLE_ENTRIES + of_nat j) = TIMER_IRQ_PAGE \<longleftrightarrow> (of_nat i :: u64) = 504 \<and> (of_nat j :: u64) = 11"
    "GRANULE * (of_nat i * N_TABLE_ENTRIES + of_nat j) = STACK_PAGE_1 \<longleftrightarrow> (of_nat i :: u64) = 504 \<and> (of_nat j :: u64) = 511"
    "GRANULE * (of_nat i * N_TABLE_ENTRIES + of_nat j) = STACK_PAGE_2 \<longleftrightarrow> (of_nat i :: u64) = 504 \<and> (of_nat j :: u64) = 510"
    unfolding w [OF assms(2)] w [OF i] by (subst v; use slot_split [of j 11 i 504] slot_split [of j 511 i 504] slot_split [of j 510 i 504] assms(2) in simp)+
qed

text \<open>The slots of the user's part before the \<open>n\<close>-th, but for that of the timer.\<close>

definition slot_no :: "u64 \<Rightarrow> u64 \<Rightarrow> nat" where "slot_no i j = 512 * unat i + unat j"

definition slots :: "u64 \<Rightarrow> nat \<Rightarrow> (u64 \<times> u64) set" where
  "slots E n = {(i, j). E \<le> i \<and> i < 505 \<and> j < 512 \<and> slot_no i j < n \<and> (i, j) \<noteq> (504, 11)}"

lemma slots_Suc:
  assumes "E \<le> i" "i < 505" "j < 512"
  shows "slots E (Suc (slot_no i j)) = (if (i, j) = (504, 11) then {} else {(i, j)}) \<union> slots E (slot_no i j)"
proof -
  have eq: "slot_no k l = slot_no i j \<longleftrightarrow> (k, l) = (i, j)" if "l < 512" for k l
  proof
    assume s: "slot_no k l = slot_no i j"
    have "unat l < 512" "unat j < 512" using that assms(3) by (simp_all add: word_less_nat_alt)
    with s have "unat k = unat i \<and> unat l = unat j"
      unfolding slot_no_def by (simp add: slot_split)
    then show "(k, l) = (i, j)" by (simp add: word_unat_eq_iff)
  qed simp
  show ?thesis
  proof (rule set_eqI)
    fix x :: "u64 \<times> u64"
    obtain k l where x: "x = (k, l)" by (cases x)
    show "x \<in> slots E (Suc (slot_no i j)) \<longleftrightarrow> x \<in> (if (i, j) = (504, 11) then {} else {(i, j)}) \<union> slots E (slot_no i j)"
    proof (cases "l < 512")
      case True
      have "slot_no k l < Suc (slot_no i j) \<longleftrightarrow> (k, l) = (i, j) \<or> slot_no k l < slot_no i j"
        using eq [OF True] by (auto simp: less_Suc_eq)
      then show ?thesis using assms by (auto simp: slots_def x)
    next
      case False
      then show ?thesis using assms by (auto simp: slots_def x)
    qed
  qed
qed

definition counter_of :: "mmu_state \<Rightarrow> u64 \<Rightarrow> u64" where
  "counter_of m e = get_bind_counter_address m (frame_of e)"

definition bumped :: "mmu_state \<Rightarrow> u64 \<Rightarrow> (u64 \<times> u64) set \<Rightarrow> u64 \<Rightarrow> u8" where
  "bumped m P S a = mem8 m a + of_bool (\<exists>(i, j)\<in>S. \<exists>e. pt (at_table P m) i j = Some e \<and> a = counter_of m e)"

text \<open>What the loop has done before the \<open>n\<close>-th slot.\<close>

definition copied :: "u64 \<Rightarrow> u64 \<Rightarrow> u64 \<Rightarrow> u64 \<Rightarrow> mmu_state \<Rightarrow> nat \<Rightarrow> mmu_state \<Rightarrow> bool" where
  "copied E K P C m n s \<longleftrightarrow> s = m\<lparr>mem64 := mem64 s, mem8 := mem8 s\<rparr> \<and> apart E {K, P, C} s \<and>
     (\<forall>L\<in>{K, P}. \<forall>k<511. lvl2_entry (at_table L s) k = lvl2_entry (at_table L m) k) \<and>
     (\<forall>k<511. \<forall>l<512. pt (at_table K s) k l = pt (at_table K m) k l) \<and>
     (\<forall>k<511. \<forall>l<512. pt (at_table P s) k l =
        (if (k, l) \<in> slots E n then map_option (shared k l) (pt (at_table P m) k l) else pt (at_table P m) k l)) \<and>
     (\<forall>k<511. \<forall>l<512. k < E \<longrightarrow> pt (at_table C s) k l = pt (at_table C m) k l) \<and>
     (\<forall>k<511. \<forall>l<512. (k, l) \<in> slots E n \<longrightarrow> pt (at_table C s) k l = pt (at_table P s) k l) \<and>
     (\<forall>k<511. E \<le> k \<longrightarrow> is_table_entry (lvl2_entry (at_table C s) k) \<or> slot_no k 0 < n \<and> \<not> is_table_entry (lvl2_entry (at_table P m) k)) \<and>
     mem8 s = bumped m P (slots E n)"

definition countable_slots :: "u64 \<Rightarrow> u64 \<Rightarrow> mmu_state \<Rightarrow> bool" where
  "countable_slots E P m \<longleftrightarrow>
     (\<forall>(i, j)\<in>slots E (505 * 512). \<forall>e. pt (at_table P m) i j = Some e \<longrightarrow> counter_of m e < id_paging_size m \<and>
        (\<forall>(k, l)\<in>slots E (505 * 512). \<forall>e'. pt (at_table P m) k l = Some e' \<longrightarrow> counter_of m e' = counter_of m e \<longrightarrow> (k, l) = (i, j)))"

lemma bumped_Suc:
  assumes c: "countable_slots E P m" and S: "(i, j) \<in> slots E (505 * 512)" and n: "n \<le> slot_no i j" and e: "pt (at_table P m) i j = Some e"
  shows "bumped m P (insert (i, j) (slots E n)) = (bumped m P (slots E n))(counter_of m e := bumped m P (slots E n) (counter_of m e) + 1)"
proof -
  have sub: "slots E n \<subseteq> slots E (505 * 512) - {(i, j)}" using n S by (auto simp: slots_def)
  have new: "\<not> (\<exists>(k, l)\<in>slots E n. \<exists>e'. pt (at_table P m) k l = Some e' \<and> counter_of m e = counter_of m e')"
    using c S e sub unfolding countable_slots_def by fastforce
  show ?thesis
    using e new by (auto simp: bumped_def fun_eq_iff)
qed

lemma AT_store_same: "AT_store a (AT m a) m = m"
  by (simp add: AT_store_def AT_def)

lemma copiedD:
  assumes "copied E K P C m n s"
  shows "s = m\<lparr>mem64 := mem64 s, mem8 := mem8 s\<rparr>" "apart E {K, P, C} s" "mem8 s = bumped m P (slots E n)"
    "L \<in> {K, P} \<Longrightarrow> k < 511 \<Longrightarrow> lvl2_entry (at_table L s) k = lvl2_entry (at_table L m) k"
    "k < 511 \<Longrightarrow> l < 512 \<Longrightarrow> pt (at_table K s) k l = pt (at_table K m) k l"
    "k < 511 \<Longrightarrow> l < 512 \<Longrightarrow> pt (at_table P s) k l =
        (if (k, l) \<in> slots E n then map_option (shared k l) (pt (at_table P m) k l) else pt (at_table P m) k l)"
    "k < 511 \<Longrightarrow> l < 512 \<Longrightarrow> k < E \<Longrightarrow> pt (at_table C s) k l = pt (at_table C m) k l"
    "k < 511 \<Longrightarrow> l < 512 \<Longrightarrow> (k, l) \<in> slots E n \<Longrightarrow> pt (at_table C s) k l = pt (at_table P s) k l"
    "k < 511 \<Longrightarrow> E \<le> k \<Longrightarrow> is_table_entry (lvl2_entry (at_table C s) k) \<or> slot_no k 0 < n \<and> \<not> is_table_entry (lvl2_entry (at_table P m) k)"
  using assms unfolding copied_def by blast+

lemma same_fields:
  assumes "s = m\<lparr>mem64 := mem64 s, mem8 := mem8 s\<rparr>"
  shows "lvl2_table_address s = lvl2_table_address m" "id_paging_size s = id_paging_size m"
    "physical_memory_map s = physical_memory_map m" "frame s = frame m" "mem32 s = mem32 m" "TTBR0_EL1 s = TTBR0_EL1 m"
    "counter_of s = counter_of m" "get_bind_counter_address s = get_bind_counter_address m"
  by (subst assms, simp add: counter_of_def get_bind_counter_address_def fun_eq_iff)+

lemma below_505: "(i::u64) < 505 \<Longrightarrow> i < 511"
  by (simp add: word_less_nat_alt)

lemma copied_step:
  assumes cp: "copied E K P C m (slot_no i j) s" and d: "K \<notin> {P, C}" and i: "E \<le> i" "i < 505" and j: "j < 512"
    and s': "s' = m\<lparr>mem64 := mem64 s', mem8 := mem8 s'\<rparr>" "apart E {K, P, C} s'" "mem8 s' = bumped m P (slots E (Suc (slot_no i j)))"
    and e2: "\<And>L k. L \<in> {K, P, C} \<Longrightarrow> k < 511 \<Longrightarrow> lvl2_entry (at_table L s') k = lvl2_entry (at_table L s) k"
    and pt: "\<And>L k l. L \<in> {K, P, C} \<Longrightarrow> k < 511 \<Longrightarrow> l < 512 \<Longrightarrow> pt (at_table L s') k l =
        (if L \<in> {P, C} \<and> k = i \<and> l = j then map_option (shared i j) (pt (at_table P m) i j) else pt (at_table L s) k l)"
    and timer: "(i, j) = (504, 11) \<Longrightarrow> pt (at_table P m) i j = None"
  shows "copied E K P C m (Suc (slot_no i j)) s'"
proof -
  note cpD = copiedD [OF cp]
  note slot = slots_Suc [OF i j]
  have old: "(k, l) \<in> slots E (Suc (slot_no i j)) \<longleftrightarrow> (k, l) \<in> slots E (slot_no i j)" if "(k, l) \<noteq> (i, j)" for k l
    using that by (auto simp: slot)
  show ?thesis
    unfolding copied_def
  proof (intro conjI allI impI ballI s')
    show "lvl2_entry (at_table L s') k = lvl2_entry (at_table L m) k" if "L \<in> {K, P}" "k < 511" for L k
      using e2 [of L k] cpD(4) [OF that] that by auto
    show "pt (at_table K s') k l = pt (at_table K m) k l" if "k < 511" "l < 512" for k l
      using pt [of K k l] cpD(5) [OF that] d that by auto
    show "pt (at_table P s') k l = (if (k, l) \<in> slots E (Suc (slot_no i j)) then map_option (shared k l) (pt (at_table P m) k l) else pt (at_table P m) k l)"
      if "k < 511" "l < 512" for k l
    proof (cases "(k, l) = (i, j)")
      case True
      then show ?thesis using pt [of P k l] that timer by (auto simp: slot)
    next
      case False
      then show ?thesis using pt [of P k l] cpD(6) [OF that] that old [OF False] by auto
    qed
    show "pt (at_table C s') k l = pt (at_table C m) k l" if "k < 511" "l < 512" "k < E" for k l
      using pt [of C k l] cpD(7) [OF that] that i by auto
    show "pt (at_table C s') k l = pt (at_table P s') k l" if "k < 511" "l < 512" "(k, l) \<in> slots E (Suc (slot_no i j))" for k l
    proof (cases "(k, l) = (i, j)")
      case True
      then show ?thesis using pt [of P k l] pt [of C k l] that by auto
    next
      case False
      then show ?thesis using pt [of P k l] pt [of C k l] cpD(8) [OF that(1,2)] that old [OF False] by auto
    qed
    show "is_table_entry (lvl2_entry (at_table C s') k) \<or> slot_no k 0 < Suc (slot_no i j) \<and> \<not> is_table_entry (lvl2_entry (at_table P m) k)"
      if "k < 511" "E \<le> k" for k
      using e2 [of C k] cpD(9) [OF that] that by auto
  qed
qed

lemma copied_entry:
  assumes cp: "copied E K P C m (slot_no i j) s" and d: "distinct [K, P, C]" and i: "E \<le> i" "i < 505" and j: "j < 512"
    and tab: "is_table_entry (lvl2_entry (at_table P m) i)" and cs: "countable_slots E P m"
  shows "\<exists>s'. copy_entry (P + 8 * i) (C + 8 * i) (unat i) (unat j) s = Some s' \<and> copied E K P C m (Suc (slot_no i j)) s'"
proof -
  note cpD = copiedD [OF cp]
  note S = same_fields [OF cpD(1)]
  have i5: "i < 511" using i(2) by (rule below_505)
  define tp where "tp = lvl3_table (at_table P s) i"
  define tc where "tc = lvl3_table (at_table C s) i"
  have adr: "get_address_sg1 s (P + 8 * i) = tp" "get_address_sg1 s (C + 8 * i) = tc"
    by (simp_all add: tp_def tc_def lvl3_table_def lvl2_entry_def get_address_sg1_def)
  have tabs: "is_table_entry (lvl2_entry (at_table P s) i)" "is_table_entry (lvl2_entry (at_table C s) i)"
    using cpD(4) [of P i] cpD(9) [OF i5 i(1)] tab i5 by auto
  have fresh: "(i, j) \<notin> slots E (slot_no i j)" by (simp add: slots_def)
  have ent: "pt (at_table P m) i j = (if is_block_entry (AT s (tp + 8 * j)) 3 then Some (AT s (tp + 8 * j)) else None)"
    using cpD(6) [OF i5 j] fresh tabs by (auto simp: pt_def [of "at_table P s"] tp_def Let_def split: if_splits)
  note slot = slots_Suc [OF i j]
  have ij: "unat i < 511" "unat j < 512" using i5 j by (simp_all add: word_less_nat_alt)
  have mul8: "of_nat (unat j) * 8 = 8 * j" by simp
  note entry = copy_entry_def adr mul8 special_slots [OF ij] Let_def
  consider (none) "pt (at_table P m) i j = None" | (timer) e where "pt (at_table P m) i j = Some e" "(i, j) = (504, 11)"
    | (page) e where "pt (at_table P m) i j = Some e" "(i, j) \<noteq> (504, 11)"
    by (cases "pt (at_table P m) i j"; cases "(i, j) = (504, 11)") auto
  then show ?thesis
  proof cases
    case none
    have nb: "\<not> is_block_entry (AT s (tp + 8 * j)) 3" using ent none by (auto split: if_splits)
    define s' where "s' = set_invalid_entry (tc + 8 * j) s"
    have s'_eq: "s' = AT_store (tc + 8 * j) (AT s (tc + 8 * j) AND MASK 63 1) s" by (simp add: s'_def set_invalid_entry_def)
    have code: "copy_entry (P + 8 * i) (C + 8 * i) (unat i) (unat j) s = Some s'"
      unfolding entry using nb by (simp add: s'_def)
    have A: "apart E {K, P, C} s'"
      using apart_store(1) [OF cpD(2) _ i(1) i5 j, of C] by (simp add: s'_eq tc_def)
    have A': "lvl2_entry (at_table L s') k = lvl2_entry (at_table L s) k" if "L \<in> {K, P, C}" "k < 511" for L k
      using apart_store(2) [OF cpD(2) _ i(1) i5 j] that by (simp add: s'_eq tc_def)
    have B: "pt (at_table L s') k l = (if L = C \<and> k = i \<and> l = j then None else pt (at_table L s) k l)"
      if "L \<in> {K, P, C}" "k < 511" "l < 512" for L k l
      using apart_store(3) [OF cpD(2) _ i(1) i5 j refl that(1-3), of C] by (simp add: s'_eq tc_def)
    have "copied E K P C m (Suc (slot_no i j)) s'"
    proof (rule copied_step [OF cp _ i j])
      show "s' = m\<lparr>mem64 := mem64 s', mem8 := mem8 s'\<rparr>"
        unfolding s'_eq by (subst cpD(1)) (simp add: AT_store_def)
      have "bumped m P (slots E (Suc (slot_no i j))) = bumped m P (slots E (slot_no i j))"
        using none by (auto simp: bumped_def fun_eq_iff slot)
      then show "mem8 s' = bumped m P (slots E (Suc (slot_no i j)))" using cpD(3) by (simp add: s'_eq)
      show "pt (at_table L s') k l = (if L \<in> {P, C} \<and> k = i \<and> l = j then map_option (shared i j) (pt (at_table P m) i j) else pt (at_table L s) k l)"
        if "L \<in> {K, P, C}" "k < 511" "l < 512" for L k l
        using B [OF that] none cpD(6) [OF i5 j] fresh by auto
    qed (use A A' d none in auto)
    with code show ?thesis by blast
  next
    case timer
    have "copy_entry (P + 8 * i) (C + 8 * i) (unat i) (unat j) s = Some s"
      unfolding entry using ent timer by (auto split: if_splits)
    moreover have same: "slots E (Suc (slot_no i j)) = slots E (slot_no i j)" using timer slot by simp
    have "copied E K P C m (Suc (slot_no i j)) s"
      using cp unfolding copied_def same by (meson less_SucI)
    ultimately show ?thesis by blast
  next
    case page
    have e: "AT s (tp + 8 * j) = e" "is_block_entry e 3" using ent page(1) by (auto split: if_splits)
    define v where "v = shared i j e"
    define s1 where "s1 = AT_store (tp + 8 * j) v s"
    define s2 where "s2 = AT_store (tc + 8 * j) v s1"
    define s' where "s' = s2\<lparr>mem8 := (mem8 s)(counter_of m e := mem8 s (counter_of m e) + 1)\<rparr>"
    have fs: "(if \<not> (i = 504 \<and> j = 511) \<and> \<not> (i = 504 \<and> j = 510) then set_block_and_page_attributes_sg1 (tp + 8 * j) forked_attributes s else s) = s1"
      using AT_store_same [of "tp + 8 * j" s]
      by (auto simp: s1_def v_def shared_def set_block_and_page_attributes_sg1_def e forked_def frame_of_def)
    have S505: "(i, j) \<in> slots E (505 * 512)"
      using i j page(2) by (simp add: slots_def slot_no_def word_less_nat_alt)
    have cnt: "counter_of m e < id_paging_size m"
      using cs S505 page(1) unfolding countable_slots_def by fast
    have v: "is_block_entry v 3" "frame_of v = frame_of e" using e(2) by (simp_all add: v_def)
    have "increment_bind_counter (frame_of e) s2 = Some s'"
      using cnt S by (simp add: increment_bind_counter_def s'_def s2_def s1_def counter_of_def get_bind_counter_address_def)
    moreover have "AT s1 (tp + 8 * j) = v" "v AND MASK 47 12 = frame_of e" "AT_store (tc + 8 * j) v s1 = s2"
      using v(2) by (simp_all add: s1_def s2_def frame_of_def)
    ultimately have code: "copy_entry (P + 8 * i) (C + 8 * i) (unat i) (unat j) s = Some s'"
      unfolding entry using page(2) e fs by (auto simp: get_address_sg1_def)
    have A1: "apart E {K, P, C} s1"
      using apart_store(1) [OF cpD(2) _ i(1) i5 j, of P] by (simp add: s1_def tp_def)
    have e1: "lvl2_entry (at_table L s1) k = lvl2_entry (at_table L s) k" if "L \<in> {K, P, C}" "k < 511" for L k
      using apart_store(2) [OF cpD(2) _ i(1) i5 j] that by (simp add: s1_def tp_def)
    have B1: "pt (at_table L s1) k l = (if L = P \<and> k = i \<and> l = j then Some v else pt (at_table L s) k l)"
      if "L \<in> {K, P, C}" "k < 511" "l < 512" for L k l
      using apart_store(3) [OF cpD(2) _ i(1) i5 j refl that(1-3), of P] v tabs by (simp add: s1_def tp_def)
    have tc1: "tc = lvl3_table (at_table C s1) i" using e1 [of C i] i5 by (simp add: tc_def lvl3_table_def)
    have A2: "apart E {K, P, C} s2"
      using apart_store(1) [OF A1 _ i(1) i5 j, of C] by (simp add: s2_def tc1)
    have e2: "lvl2_entry (at_table L s2) k = lvl2_entry (at_table L s) k" if "L \<in> {K, P, C}" "k < 511" for L k
      using apart_store(2) [OF A1 _ i(1) i5 j, of C _ L k] e1 [OF that] that by (simp add: s2_def tc1)
    have B2: "pt (at_table L s2) k l = (if L = C \<and> k = i \<and> l = j then Some v else pt (at_table L s1) k l)"
      if "L \<in> {K, P, C}" "k < 511" "l < 512" for L k l
      using apart_store(3) [OF A1 _ i(1) i5 j refl that(1-3), of C] v tabs e1 [of C i] i5 by (simp add: s2_def tc1)
    have m64: "mem64 s' = mem64 s2" by (simp add: s'_def)
    have "copied E K P C m (Suc (slot_no i j)) s'"
    proof (rule copied_step [OF cp _ i j])
      show "s' = m\<lparr>mem64 := mem64 s', mem8 := mem8 s'\<rparr>"
        unfolding s'_def s2_def s1_def by (subst (1 2) cpD(1)) (simp add: AT_store_def)
      show "mem8 s' = bumped m P (slots E (Suc (slot_no i j)))"
        using bumped_Suc [OF cs S505 order_refl page(1)] page(2) by (auto simp: slot s'_def cpD(3))
      show "pt (at_table L s') k l = (if L \<in> {P, C} \<and> k = i \<and> l = j then map_option (shared i j) (pt (at_table P m) i j) else pt (at_table L s) k l)"
        if "L \<in> {K, P, C}" "k < 511" "l < 512" for L k l
        unfolding at_table_cong [OF m64] using B2 [OF that] B1 [OF that] page(1) by (auto simp: v_def)
      show "lvl2_entry (at_table L s') k = lvl2_entry (at_table L s) k" if "L \<in> {K, P, C}" "k < 511" for L k
        unfolding at_table_cong [OF m64] by (rule e2 [OF that])
      show "apart E {K, P, C} s'" unfolding apart_cong [OF m64] by (rule A2)
    qed (use d page in auto)
    with code show ?thesis by blast
  qed
qed

text \<open>A row of the level 2 table, whether it is in use or not.\<close>

abbreviation (input) copy_row :: "u64 \<Rightarrow> nat \<Rightarrow> mmu_state \<Rightarrow> mmu_state option" where
  "copy_row P i m \<equiv> (let parent_lvl2_entry_addr = P + of_nat i * 8; lvl2_entry_addr = lvl2_table_address m + of_nat i * 8
     in if \<not> is_table_entry (AT m parent_lvl2_entry_addr) then Some (set_invalid_entry lvl2_entry_addr m)
        else for_range 0 512 (copy_entry parent_lvl2_entry_addr lvl2_entry_addr i) m)"

lemma copied_empty_row:
  assumes cp: "copied E K P C m (512 * unat i) s" and d: "distinct [K, P, C]" and i: "E \<le> i" "i < 505"
    and tab: "\<not> is_table_entry (lvl2_entry (at_table P m) i)"
  shows "copied E K P C m (512 * Suc (unat i)) (set_invalid_entry (C + 8 * i) s)"
proof -
  note cpD = copiedD [OF cp]
  have i5: "i < 511" using i(2) by (rule below_505)
  define v where "v = AT s (C + 8 * i) AND MASK 63 1"
  define s' where "s' = AT_store (C + 8 * i) v s"
  have v: "v AND MASK 47 12 = AT s (C + 8 * i) AND MASK 47 12" "\<not> is_table_entry v"
    unfolding v_def by (rule bit_word_eqI) (auto simp: bit_simps)
  have ap: "apart E {K, P, C} s'" using apart_store_lvl2(1) [OF cpD(2) _ i5 refl v(1)] by (simp add: s'_def)
  have e2: "lvl2_entry (at_table L s') k = (if L = C \<and> k = i then v else lvl2_entry (at_table L s) k)" if "L \<in> {K, P, C}" "k < 511" for L k
    using apart_store_lvl2(2) [OF cpD(2) _ i5 refl v(1) that] by (simp add: s'_def)
  have pt: "pt (at_table L s') k l = pt (at_table L s) k l" if "L \<in> {K, P, C}" "k < 511" "l < 512" "L \<noteq> C \<or> k \<noteq> i" for L k l
    using apart_store_lvl2(3) [OF cpD(2) _ i5 refl v(1) that] by (simp add: s'_def)
  have none: "pt (at_table C s') i l = None" "pt (at_table P m) i l = None" for l
    using e2 [of C i] v(2) tab i5 by (simp_all add: pt_def)
  have row: "(k, l) \<in> slots E (512 * Suc (unat i)) \<longleftrightarrow> (k, l) \<in> slots E (512 * unat i) \<or> (k = i \<and> l < 512 \<and> (k, l) \<noteq> (504, 11))" for k l
  proof (cases "l < 512")
    case True
    then have l: "unat l < 512" by (simp add: word_less_nat_alt)
    have "slot_no k l < 512 * Suc (unat i) \<longleftrightarrow> unat k \<le> unat i" "slot_no k l < 512 * unat i \<longleftrightarrow> unat k < unat i"
      using l unfolding slot_no_def by auto
    then have "slot_no k l < 512 * Suc (unat i) \<longleftrightarrow> slot_no k l < 512 * unat i \<or> k = i" unfolding word_unat_eq_iff by auto
    then show ?thesis using i True unfolding slots_def by auto
  qed (simp add: slots_def)
  have "copied E K P C m (512 * Suc (unat i)) s'"
    unfolding copied_def
  proof (intro conjI allI impI ballI ap)
    show "s' = m\<lparr>mem64 := mem64 s', mem8 := mem8 s'\<rparr>" unfolding s'_def by (subst cpD(1)) (simp add: AT_store_def)
    show "lvl2_entry (at_table L s') k = lvl2_entry (at_table L m) k" if "L \<in> {K, P}" "k < 511" for L k
      using e2 [of L k] cpD(4) [OF that] that d by auto
    show "pt (at_table K s') k l = pt (at_table K m) k l" if "k < 511" "l < 512" for k l
      using pt [of K k l] cpD(5) [OF that] that d by auto
    show "pt (at_table P s') k l = (if (k, l) \<in> slots E (512 * Suc (unat i)) then map_option (shared k l) (pt (at_table P m) k l) else pt (at_table P m) k l)"
      if "k < 511" "l < 512" for k l
      using pt [of P k l] cpD(6) [OF that] that d none(2) by (auto simp: row simp del: mult_Suc_right)
    show "pt (at_table C s') k l = pt (at_table C m) k l" if "k < 511" "l < 512" "k < E" for k l
      using pt [of C k l] cpD(7) [OF that] that i by auto
    show "pt (at_table C s') k l = pt (at_table P s') k l" if "k < 511" "l < 512" "(k, l) \<in> slots E (512 * Suc (unat i))" for k l
    proof (cases "k = i")
      case True
      have "pt (at_table P s') k l = pt (at_table P s) k l" using pt [of P k l] that d by auto
      then show ?thesis using cpD(6) [OF that(1,2)] none True by auto
    next
      case False
      then show ?thesis using pt [of C k l] pt [of P k l] cpD(8) [OF that(1,2)] that d by (auto simp: row simp del: mult_Suc_right)
    qed
    show "is_table_entry (lvl2_entry (at_table C s') k) \<or> slot_no k 0 < 512 * Suc (unat i) \<and> \<not> is_table_entry (lvl2_entry (at_table P m) k)"
      if "k < 511" "E \<le> k" for k
      using e2 [of C k] cpD(9) [OF that] that tab by (auto simp: slot_no_def)
    have "bumped m P (slots E (512 * Suc (unat i))) = bumped m P (slots E (512 * unat i))"
      unfolding bumped_def Bex_def split_paired_Ex prod.case row using none(2) by (auto simp: fun_eq_iff)
    then show "mem8 s' = bumped m P (slots E (512 * Suc (unat i)))" using cpD(3) by (simp add: s'_def)
  qed
  then show ?thesis by (simp add: s'_def v_def set_invalid_entry_def)
qed

lemma copied_row:
  assumes cp: "copied E K P C m (512 * n) s" and d: "distinct [K, P, C]" and n: "unat E \<le> n" "n < 505"
    and cs: "countable_slots E P m" and l2: "lvl2_table_address m = C"
  shows "\<exists>s'. copy_row P n s = Some s' \<and> copied E K P C m (512 * Suc n) s'"
proof -
  define i :: u64 where "i = of_nat n"
  have ui: "unat i = n" and i: "E \<le> i" "i < 505"
    using word_index(1) [of n] n by (simp_all add: i_def word_le_nat_alt word_less_nat_alt)
  have mul: "of_nat n * 8 = 8 * i" by (simp add: i_def)
  note cpD = copiedD [OF cp]
  have l2s: "lvl2_table_address s = C" using same_fields(1) [OF cpD(1)] l2 by simp
  have at: "is_table_entry (AT s (P + 8 * i)) \<longleftrightarrow> is_table_entry (lvl2_entry (at_table P m) i)"
    using cpD(4) [of P i] below_505 [OF i(2)] by (simp add: lvl2_entry_def)
  show ?thesis
  proof (cases "is_table_entry (lvl2_entry (at_table P m) i)")
    case False
    then show ?thesis
      using copied_empty_row [OF cp [folded ui] d i] at by (simp add: l2s mul ui Let_def)
  next
    case True
    have "\<exists>s'. for_range 0 512 (copy_entry (P + 8 * i) (C + 8 * i) n) s = Some s' \<and> copied E K P C m (512 * n + 512) s'"
    proof (rule for_range_total [where P = "\<lambda>j. copied E K P C m (512 * n + j)"])
      fix k t assume k: "k < 512" and c: "copied E K P C m (512 * n + k) t"
      have sn: "512 * n + k = slot_no i (of_nat k)" using word_index(1) [OF k] by (simp add: slot_no_def ui)
      show "\<exists>s'. copy_entry (P + 8 * i) (C + 8 * i) n k t = Some s' \<and> copied E K P C m (512 * n + Suc k) s'"
        using copied_entry [OF c [unfolded sn] d i word_index(2) [OF k] True cs] word_index(1) [OF k] by (simp add: ui flip: sn)
    qed (use cp in simp_all)
    then show ?thesis using True at by (simp add: l2s mul Let_def algebra_simps)
  qed
qed

lemma copy_rows:
  assumes cp: "copied E K P C m (512 * unat E) m" and d: "distinct [K, P, C]" and E: "unat E \<le> 505"
    and cs: "countable_slots E P m" and l2: "lvl2_table_address m = C"
  shows "\<exists>s'. for_range (unat E) 505 (\<lambda>i m. copy_row P i m) m = Some s' \<and> copied E K P C m (512 * 505) s'"
  by (rule for_range_total [where P = "\<lambda>n. copied E K P C m (512 * n)"]) (use cp E copied_row [OF _ d _ _ cs l2] in \<open>simp_all add: Let_def\<close>)

section \<open>The start of the copy\<close>

lemma in_tables: "L \<in> tables_of L m" "k < 511 \<Longrightarrow> lvl3_table (at_table L m) k \<in> tables_of L m"
  by (simp_all add: tables_of_def)

text \<open>The pages in which the process with the root \<open>C\<close> keeps its own tables.\<close>

definition zone :: "u64 \<Rightarrow> u64 set" where
  "zone C = (\<lambda>n. C + of_nat n * GRANULE) ` {..<512}"

lemma fresh_tables_apart:
  assumes ap: "apart E {K, P} m" and z: "(tables_of K m \<union> tables_of P m) \<inter> zone C = {}"
    and ok: "walk_ok m'" and l2: "lvl2_table_address m' = C" and so: "same_off_tables C m m'"
    and t3: "\<forall>k<511. lvl3_table m' k = C + GRANULE + k * GRANULE"
  shows "apart E {K, P, C} m'" and "L \<in> {K, P} \<Longrightarrow> k < 511 \<Longrightarrow> lvl2_entry (at_table L m') k = lvl2_entry (at_table L m) k"
    and "L \<in> {K, P} \<Longrightarrow> k < 511 \<Longrightarrow> l < 512 \<Longrightarrow> pt (at_table L m') k l = pt (at_table L m) k l"
proof -
  have own: "at_table C m' = m'" using l2 by simp
  have Cz: "C \<in> zone C" by (auto simp: zone_def intro!: image_eqI [of _ _ 0])
  have Tz: "C + GRANULE + k * GRANULE \<in> zone C" if "k < 511" for k
  proof -
    have "unat k < 511" using that by (simp add: word_less_nat_alt)
    then show ?thesis unfolding zone_def by (intro image_eqI [of _ _ "Suc (unat k)"]) (simp_all add: algebra_simps)
  qed
  have C: "C \<notin> tables_of L m" if "L \<in> {K, P}" for L using z Cz that by auto
  note o = outside_view [OF apart_walk [OF ap] so C]
  show "L \<in> {K, P} \<Longrightarrow> k < 511 \<Longrightarrow> lvl2_entry (at_table L m') k = lvl2_entry (at_table L m) k"
    and "L \<in> {K, P} \<Longrightarrow> k < 511 \<Longrightarrow> l < 512 \<Longrightarrow> pt (at_table L m') k l = pt (at_table L m) k l"
    using o(1,3) by simp_all
  have tabC: "tables_of C m' \<subseteq> zone C" using t3 Cz Tz by (auto simp: tables_of_def own)
  have oldz: "tables_of L m' = tables_of L m" "tables_of L m \<inter> zone C = {}" if "L \<in> {K, P}" for L
    using o(5) that z by auto
  show "apart E {K, P, C} m'"
    unfolding apart_def
  proof (intro conjI ballI impI allI)
    show "walk_ok (at_table L m')" if "L \<in> {K, P, C}" for L using that o(4) ok own by auto
    fix L L' assume L: "L \<in> {K, P, C}" "L' \<in> {K, P, C}" "L \<noteq> L'"
    have "L \<notin> tables_of L' m' \<and> (\<forall>i. E \<le> i \<longrightarrow> i < 511 \<longrightarrow> lvl3_table (at_table L m') i \<notin> tables_of L' m')"
    proof (cases "L = C")
      case True
      then have L': "L' \<in> {K, P}" using L by auto
      then show ?thesis using True oldz [OF L'] Cz Tz t3 own by auto
    next
      case False
      then have LK: "L \<in> {K, P}" using L by auto
      show ?thesis
      proof (cases "L' = C")
        case True
        then show ?thesis using tabC oldz(2) [OF LK] in_tables(1) [of L m] in_tables(2) [where L = L] o(2) [OF LK LK] by auto
      next
        case False
        then have "L' \<in> {K, P}" using L by auto
        then show ?thesis using ap LK L(3) o(2) [OF LK LK] oldz(1) unfolding apart_def by auto
      qed
    qed
    then show "L \<notin> tables_of L' m'" "\<And>i. E \<le> i \<Longrightarrow> i < 511 \<Longrightarrow> lvl3_table (at_table L m') i \<notin> tables_of L' m'" by auto
  qed
qed

text \<open>The entries of the kernel's part are those of the parent.\<close>

lemma copy_kernel_rows:
  assumes ap: "apart E {K, P, C} m" and d: "distinct [K, P, C]" and E: "E < 511" and l2: "lvl2_table_address m = C"
  shows "\<exists>m'. for_range 0 (unat E) (\<lambda>i m. Some (AT_store (lvl2_table_address m + of_nat i * 8) (AT m (P + of_nat i * 8)) m)) m = Some m' \<and>
     tables_only m m' \<and> same_off_tables C m m' \<and> (\<forall>k<511. AT m' (C + 8 * k) = (if k < E then AT m (P + 8 * k) else AT m (C + 8 * k)))"
proof -
  have al: "aligned P" "aligned C" using walk_ok_aligned [OF apart_walk [OF ap]] by auto
  define Q where "Q n m' \<longleftrightarrow> tables_only m m' \<and> same_off_tables C m m' \<and>
    (\<forall>k<511. AT m' (C + 8 * k) = (if unat k < n then AT m (P + 8 * k) else AT m (C + 8 * k)))" for n m'
  have "\<exists>m'. for_range 0 (unat E) (\<lambda>i m. Some (AT_store (lvl2_table_address m + of_nat i * 8) (AT m (P + of_nat i * 8)) m)) m = Some m' \<and> Q (unat E) m'"
  proof (rule for_range_total)
    show "Q 0 m" by (simp add: Q_def same_off_tables_def)
    fix n s assume n: "n < unat E" and Q: "Q n s"
    define i :: u64 where "i = of_nat n"
    have n5: "n < 511" using n E by (simp add: word_less_nat_alt)
    have i: "unat i = n" "i < 512" using word_index [of n] n5 by (simp_all add: i_def)
    have l2s: "lvl2_table_address s = C" using Q tables_onlyD(1) l2 by (auto simp: Q_def)
    have v: "AT s (P + 8 * i) = AT m (P + 8 * i)" using Q d al(1) i(2) by (auto simp: Q_def same_off_tables_def)
    have "Q (Suc n) (AT_store (C + 8 * i) (AT s (P + 8 * i)) s)"
      unfolding Q_def v
    proof (intro conjI allI impI)
      show "tables_only m (AT_store (C + 8 * i) (AT m (P + 8 * i)) s)" using Q by (simp add: Q_def)
      show "same_off_tables C m (AT_store (C + 8 * i) (AT m (P + 8 * i)) s)" using Q same_off_tables_store [OF al(2) i(2)] by (simp add: Q_def)
      show "AT (AT_store (C + 8 * i) (AT m (P + 8 * i)) s) (C + 8 * k) = (if unat k < Suc n then AT m (P + 8 * k) else AT m (C + 8 * k))" if "k < 511" for k
      proof (cases "k = i")
        case True
        then show ?thesis using i by simp
      next
        case False
        then have "unat k \<noteq> n" using i(1) by (auto simp: word_unat_eq_iff)
        then have "unat k < Suc n \<longleftrightarrow> unat k < n" by auto
        then show ?thesis using Q False entry_inject [OF al(2,2) less_512 [OF that] i(2)] that by (simp add: Q_def)
      qed
    qed
    then show "\<exists>s'. Some (AT_store (lvl2_table_address s + of_nat n * 8) (AT s (P + of_nat n * 8)) s) = Some s' \<and> Q (Suc n) s'"
      by (simp add: l2s i_def mult.commute)
  qed simp
  then show ?thesis by (auto simp: Q_def word_less_nat_alt)
qed

lemma kernel_rows_copied:
  assumes ap: "apart E {K, P, C} m" and d: "distinct [K, P, C]" 
    and so: "same_off_tables C m m'" and e2: "\<forall>k<511. AT m' (C + 8 * k) = (if k < E then AT m (P + 8 * k) else AT m (C + 8 * k))"
  shows "apart E {K, P, C} m'"
    and "L \<in> {K, P} \<Longrightarrow> k < 511 \<Longrightarrow> lvl2_entry (at_table L m') k = lvl2_entry (at_table L m) k"
    and "L \<in> {K, P} \<Longrightarrow> k < 511 \<Longrightarrow> l < 512 \<Longrightarrow> pt (at_table L m') k l = pt (at_table L m) k l"
    and "k < 511 \<Longrightarrow> lvl2_entry (at_table C m') k = lvl2_entry (at_table (if k < E then P else C) m) k"
    and "k < 511 \<Longrightarrow> l < 512 \<Longrightarrow> k < E \<Longrightarrow> pt (at_table C m') k l = pt (at_table P m) k l"
proof -
  have C: "C \<notin> tables_of L m" if "L \<in> {K, P}" for L using ap that d unfolding apart_def by auto
  have w: "walk_ok (at_table L m)" if "L \<in> {K, P, C}" for L using apart_walk [OF ap that] .
  note o = outside_view [OF w so C]
  show "L \<in> {K, P} \<Longrightarrow> k < 511 \<Longrightarrow> lvl2_entry (at_table L m') k = lvl2_entry (at_table L m) k"
    and oP: "L \<in> {K, P} \<Longrightarrow> k < 511 \<Longrightarrow> l < 512 \<Longrightarrow> pt (at_table L m') k l = pt (at_table L m) k l"
    using o(1,3) by auto
  show eC: "lvl2_entry (at_table C m') k = lvl2_entry (at_table (if k < E then P else C) m) k" if "k < 511" for k
    using e2 that by (simp add: lvl2_entry_def)
  have tC: "lvl3_table (at_table C m') k = lvl3_table (at_table (if k < E then P else C) m) k" if "k < 511" for k
    using eC [OF that] by (simp add: lvl3_table_def)
  show "pt (at_table C m') k l = pt (at_table P m) k l" if k: "k < 511" and l: "l < 512" and kE: "k < E"
  proof -
    have "lvl3_table (at_table P m) k \<noteq> C" using C [of P] k by (auto simp: tables_of_def)
    then have "AT m' (lvl3_table (at_table P m) k + 8 * l) = AT m (lvl3_table (at_table P m) k + 8 * l)"
      using so l by (simp add: same_off_tables_def)
    then show ?thesis using eC [OF k] tC [OF k] kE by (simp add: pt_def)
  qed
  have tabC: "tables_of C m' \<subseteq> insert C (lvl3_table (at_table P m) ` {k. k < 511 \<and> k < E} \<union> lvl3_table (at_table C m) ` {k. k < 511 \<and> E \<le> k})"
    using tC by (auto simp: tables_of_def)
  have sep: "L \<notin> tables_of L' m" "E \<le> k \<Longrightarrow> k < 511 \<Longrightarrow> lvl3_table (at_table L m) k \<notin> tables_of L' m"
    if "L \<in> {K, P, C}" "L' \<in> {K, P, C}" "L \<noteq> L'" for L L' k
    using ap that unfolding apart_def by blast+
  have cross: "lvl3_table (at_table P m) k \<noteq> lvl3_table (at_table C m) k'" if "k < 511" "k' < 511" "E \<le> k'" for k k'
    using sep(2) [of C P k'] in_tables(2) [of k P m] that d by auto
  have inj: "i = j" if "L \<in> {K, P, C}" "i < 511" "j < 511" "lvl3_table (at_table L m) i = lvl3_table (at_table L m) j" for L i j
    using w [OF that(1)] that unfolding walk_ok_def by blast
  have okC: "walk_ok (at_table C m')"
    unfolding walk_ok_def at_table_simps
  proof (intro conjI allI impI)
    show "C AND MASK 16 0 = 0" using w [of C] by (simp add: walk_ok_def)
    show "lvl3_table (at_table C m') i \<noteq> C" if "i < 511" for i
      using tC [OF that] C [of P] w [of C] that by (auto simp: tables_of_def walk_ok_def)
    show "i = j" if ij: "i < 511" "j < 511" and eq: "lvl3_table (at_table C m') i = lvl3_table (at_table C m') j" for i j
    proof -
      consider "i < E" "j < E" | "E \<le> i" "E \<le> j" | "i < E" "E \<le> j" | "j < E" "E \<le> i" by (meson not_less)
      then show ?thesis
      proof cases
        case 1
        then show ?thesis using eq tC [OF ij(1)] tC [OF ij(2)] inj [of P i j] ij by simp
      next
        case 2
        then have "\<not> i < E" "\<not> j < E" by auto
        then show ?thesis using eq tC [OF ij(1)] tC [OF ij(2)] inj [of C i j] ij by simp
      next
        case 3
        then show ?thesis using eq tC [OF ij(1)] tC [OF ij(2)] cross [OF ij] by (simp add: leD)
      next
        case 4
        then show ?thesis using eq tC [OF ij(1)] tC [OF ij(2)] cross [OF ij(2,1)] by (simp add: leD)
      qed
    qed
  qed
  have notC: "L \<notin> tables_of C m'" "E \<le> k \<Longrightarrow> k < 511 \<Longrightarrow> lvl3_table (at_table L m) k \<notin> tables_of C m'" if L: "L \<in> {K, P}" for L k
  proof -
    have LC: "L \<noteq> C" using L d by auto
    have L3: "L \<in> {K, P, C}" using L by auto
    have own: "\<exists>i<511. i < E \<and> x = lvl3_table (at_table P m) i" if "x \<in> tables_of C m'" "x \<noteq> C" "x \<notin> tables_of C m" for x
    proof -
      have "x \<notin> lvl3_table (at_table C m) ` {k. k < 511 \<and> E \<le> k}" using that(3) in_tables(2) [of _ C m] by blast
      then show ?thesis using that(1,2) tabC by blast
    qed
    show "L \<notin> tables_of C m'"
    proof
      assume "L \<in> tables_of C m'"
      then obtain i where i: "i < 511" "L = lvl3_table (at_table P m) i" using own [of L] LC sep(1) [OF L3 _ LC] by auto
      then have "L \<in> tables_of P m" using in_tables(2) [OF i(1)] by simp
      then have "L = P" using sep(1) [OF L3, of P] by auto
      then show False using i w [of P] by (auto simp: walk_ok_def)
    qed
    show "lvl3_table (at_table L m) k \<notin> tables_of C m'" if k: "E \<le> k" "k < 511"
    proof
      assume "lvl3_table (at_table L m) k \<in> tables_of C m'"
      moreover have "lvl3_table (at_table L m) k \<noteq> C" using C [OF L] in_tables(2) [OF k(2), of L m] by auto
      ultimately obtain i where i: "i < 511" "i < E" "lvl3_table (at_table L m) k = lvl3_table (at_table P m) i"
        using own sep(2) [OF L3 _ LC k] by blast
      then have "lvl3_table (at_table L m) k \<in> tables_of P m" using in_tables(2) [OF i(1)] by simp
      then have "L = P" using sep(2) [OF L3 _ _ k, of P] by auto
      then have "k = i" using i k inj [of P k i] by simp
      then show False using i k by simp
    qed
  qed
  show "apart E {K, P, C} m'"
    unfolding apart_def
  proof (intro conjI ballI impI allI)
    show "walk_ok (at_table L m')" if "L \<in> {K, P, C}" for L using that o(4) okC by auto
    fix L L' assume L: "L \<in> {K, P, C}" "L' \<in> {K, P, C}" "L \<noteq> L'"
    have "L \<notin> tables_of L' m' \<and> (\<forall>i. E \<le> i \<longrightarrow> i < 511 \<longrightarrow> lvl3_table (at_table L m') i \<notin> tables_of L' m')"
    proof (cases "L' = C")
      case True
      then have LK: "L \<in> {K, P}" using L by auto
      then show ?thesis using True notC [OF LK] o(2) [OF _ LK] by auto
    next
      case False
      then have L': "L' \<in> {K, P}" using L by auto
      have "lvl3_table (at_table L m') i = lvl3_table (at_table L m) i" if "E \<le> i" "i < 511" for i
        using tC [OF that(2)] o(2) [of L i] L that by (cases "L = C") auto
      then show ?thesis using sep [OF L] o(5) [OF _ L'] L' by auto
    qed
    then show "L \<notin> tables_of L' m'" "\<And>i. E \<le> i \<Longrightarrow> i < 511 \<Longrightarrow> lvl3_table (at_table L m') i \<notin> tables_of L' m'" by auto
  qed
qed

end
