(* ===== verification/Fork_Space.thy ===== *)
theory Fork_Space
  imports Address_Spaces
begin

text \<open>
  The address space of a forked process: \<open>c_init_mmu\<close> of \<^verbatim>\<open>src/src/memory/mmu.c\<close> shares the pages of the parent for copy on
  write, copies its two stack pages through the kernel's tables and maps the devices.
\<close>

section \<open>Stacks\<close>

text \<open>One entry of one address space changes, and nothing else in the tables.\<close>

definition one_entry :: "u64 \<Rightarrow> u64 set \<Rightarrow> u64 \<Rightarrow> u64 \<Rightarrow> u64 \<Rightarrow> u64 option \<Rightarrow> mmu_state \<Rightarrow> mmu_state \<Rightarrow> bool" where
  "one_entry E R L i j x s s' \<longleftrightarrow> apart E R s' \<and>
     (\<forall>L'\<in>R. \<forall>k<511. lvl2_entry (at_table L' s') k = lvl2_entry (at_table L' s) k) \<and>
     (\<forall>L'\<in>R. \<forall>k<511. \<forall>l<512. pt (at_table L' s') k l = (if L' = L \<and> k = i \<and> l = j then x else pt (at_table L' s) k l))"

lemma one_entryD:
  assumes "one_entry E R L i j x s s'" and "L' \<in> R" "k < 511"
  shows "lvl2_entry (at_table L' s') k = lvl2_entry (at_table L' s) k"
    and "l < 512 \<Longrightarrow> pt (at_table L' s') k l = (if L' = L \<and> k = i \<and> l = j then x else pt (at_table L' s) k l)"
  using assms by (simp_all add: one_entry_def)

lemma one_entry_cong: "mem64 t = mem64 s \<Longrightarrow> mem64 t' = mem64 s' \<Longrightarrow> one_entry E R L i j x t t' = one_entry E R L i j x s s'"
  using at_table_cong [of t s] at_table_cong [of t' s'] apart_cong [of t' s' E R] by (simp add: one_entry_def)

lemma store_one_entry:
  assumes ap: "apart E R s" and L: "L \<in> R" and i: "E \<le> i" "i < 511" and j: "j < 512" and tab: "is_table_entry (lvl2_entry (at_table L s) i)"
  shows "one_entry E R L i j (if is_block_entry v 3 then Some v else None) s (AT_store (lvl3_table (at_table L s) i + 8 * j) v s)"
  using apart_store [OF ap L i j refl] tab by (simp add: one_entry_def)

lemma bind_one_entry:
  assumes ap: "apart E R s" and L: "L \<in> R" "lvl2_table_address s = L" and va: "valid_va va" "E \<le> idx2 va"
    and tab: "is_table_entry (lvl2_entry (at_table L s) (idx2 va))"
    and pa: "pa AND MASK 35 12 = pa" "id_paging_size s \<le> pa" "counter_ok pa s" and c: "c = get_bind_counter_address s pa"
  shows "\<exists>s'. bind_address va pa ba s = Some (0, s') \<and> s' = s\<lparr>mem64 := mem64 s', mem8 := (mem8 s)(c := mem8 s c + 1)\<rparr> \<and>
     one_entry E R L (idx2 va) (idx3 va) (Some (page_entry pa ba)) s s'"
proof -
  have own: "at_table L s = s" using L(2) by simp
  have i: "idx2 va < 511" using va(1) by (simp add: valid_va_def)
  define s1 where "s1 = AT_store (lvl3_table s (idx2 va) + 8 * idx3 va) (page_entry pa ba) s"
  have "one_entry E R L (idx2 va) (idx3 va) (Some (page_entry pa ba)) s s1"
    using store_one_entry [OF ap L(1) va(2) i _ tab, of "idx3 va" "page_entry pa ba"] by (simp add: own s1_def)
  moreover define s' where "s' = s1\<lparr>mem8 := (mem8 s)(c := mem8 s c + 1)\<rparr>"
  moreover have m64: "mem64 s' = mem64 s1" by (simp add: s'_def)
  ultimately have "one_entry E R L (idx2 va) (idx3 va) (Some (page_entry pa ba)) s s'"
    unfolding one_entry_cong [OF refl m64] by simp
  moreover have "bind_address va pa ba s = Some (0, s')"
    using bind_address_present [OF _ va(1) aligned_page [OF pa(1)] pa(3), of ba] apart_walk [OF ap L(1)] tab pa(2)
    by (simp add: own s'_def s1_def counted_def c)
  moreover have "s' = s\<lparr>mem64 := mem64 s', mem8 := (mem8 s)(c := mem8 s c + 1)\<rparr>" by (simp add: s'_def s1_def AT_store_def)
  ultimately show ?thesis by blast
qed

lemma invalid_one_entry:
  assumes ap: "apart E R s" and L: "L \<in> R" "lvl2_table_address s = L" and va: "valid_va va" "E \<le> idx2 va"
    and tab: "is_table_entry (lvl2_entry (at_table L s) (idx2 va))"
  shows "\<exists>s'. set_invalid_page va s = Some s' \<and> s' = s\<lparr>mem64 := mem64 s'\<rparr> \<and> one_entry E R L (idx2 va) (idx3 va) None s s'"
proof -
  have own: "at_table L s = s" using L(2) by simp
  have i: "idx2 va < 511" using va(1) by (simp add: valid_va_def)
  have w: "walk_ok s" using apart_walk [OF ap L(1)] own by simp
  define a where "a = lvl3_table s (idx2 va) + 8 * idx3 va"
  define s' where "s' = AT_store a (AT s a AND MASK 63 1) s"
  have "one_entry E R L (idx2 va) (idx3 va) None s s'"
    using store_one_entry [OF ap L(1) va(2) i _ tab, of "idx3 va" "AT s a AND MASK 63 1"] by (simp add: own s'_def a_def)
  moreover have "set_invalid_page va s = Some s'"
    using entry_page(3) [OF aligned_lvl3_table idx_bound(2), of s "idx2 va" va] tab own
    by (simp add: set_invalid_page_def get_lvl3_entry_valid [OF w va(1)] set_invalid_entry_def s'_def a_def Let_def)
  moreover have "s' = s\<lparr>mem64 := mem64 s'\<rparr>" by (simp add: s'_def AT_store_def)
  ultimately show ?thesis by blast
qed

text \<open>Frames for the pages of processes.\<close>

definition user_frame :: "mmu_state \<Rightarrow> u64 \<Rightarrow> bool" where
  "user_frame m f \<longleftrightarrow> f AND MASK 35 12 = f \<and> id_paging_size m \<le> f \<and> counter_ok f m"

lemma user_frame_cong:
  "id_paging_size m' = id_paging_size m \<Longrightarrow> get_bind_counter_address m' f = get_bind_counter_address m f \<Longrightarrow> user_frame m' f = user_frame m f"
  by (simp add: user_frame_def counter_ok_def)

lemma new_page_one_entry:
  assumes ap: "apart E R s" and L: "L \<in> R" "lvl2_table_address s = L" and va: "valid_va va" "E \<le> idx2 va"
    and tab: "is_table_entry (lvl2_entry (at_table L s) (idx2 va))" and q: "user_frame s q" and pl: "pool_wf n s" "pool n s = q # qs"
    and c: "c = get_bind_counter_address s q"
  shows "\<exists>s'. get_new_page va perm cache s = Some (0, s') \<and> pool_wf n s' \<and> pool n s' = qs \<and>
     s' = s\<lparr>mem64 := mem64 s', mem8 := (mem8 s)(c := mem8 s c + 1), physical_memory_map := (physical_memory_map s)\<lparr>pm_head := pm_head (physical_memory_map s) + 1\<rparr>\<rparr> \<and>
     one_entry E R L (idx2 va) (idx3 va) (Some (page_entry q (new_block_attributes_sg1 perm cache))) s s'"
proof -
  define s1 where "s1 = set_pm_head (pm_head (physical_memory_map s) + 1) s"
  from pool_pop [OF pl] obtain x where x: "get_unbound_physical_page s = Some (q, x)" "pool n x = qs" "pool_wf n x" by blast
  then have x': "x = s1" by (auto simp: get_unbound_physical_page_def Let_def bind_eq_Some_conv s1_def)
  have m64: "mem64 s1 = mem64 s" by (simp add: s1_def set_pm_head_def)
  have l1: "lvl2_table_address s1 = L" "mem8 s1 = mem8 s" "c = get_bind_counter_address s1 q" using L by (simp_all add: s1_def set_pm_head_def c get_bind_counter_address_def)
  have q1: "q AND MASK 35 12 = q" "id_paging_size s1 \<le> q" "counter_ok q s1" using q by (simp_all add: user_frame_def s1_def)
  have ap1: "apart E R s1" "is_table_entry (lvl2_entry (at_table L s1) (idx2 va))" using ap tab unfolding apart_cong [OF m64] at_table_cong [OF m64] .
  obtain s' where s': "bind_address va q (new_block_attributes_sg1 perm cache) s1 = Some (0, s')" "s' = s1\<lparr>mem64 := mem64 s', mem8 := (mem8 s1)(c := mem8 s1 c + 1)\<rparr>"
    "one_entry E R L (idx2 va) (idx3 va) (Some (page_entry q (new_block_attributes_sg1 perm cache))) s1 s'"
    using bind_one_entry [OF ap1(1) L(1) l1(1) va ap1(2) q1 l1(3), of "new_block_attributes_sg1 perm cache"] by blast
  have "pool n s' = pool n s1" "pool_wf n s' = pool_wf n s1" by (subst s'(2), simp add: pool_def pool_wf_def map_entry_def)+
  then have "pool n s' = qs" "pool_wf n s'" using x x' by simp_all
  moreover have "one_entry E R L (idx2 va) (idx3 va) (Some (page_entry q (new_block_attributes_sg1 perm cache))) s s'"
    using s'(3) unfolding one_entry_cong [OF m64 refl] .
  moreover have "s' = s\<lparr>mem64 := mem64 s', mem8 := (mem8 s)(c := mem8 s c + 1), physical_memory_map := (physical_memory_map s)\<lparr>pm_head := pm_head (physical_memory_map s) + 1\<rparr>\<rparr>"
    by (subst s'(2)) (simp add: s1_def set_pm_head_def)
  ultimately show ?thesis using s'(1) x(1) by (simp add: get_new_page_def x')
qed

text \<open>The pages that the code uses here, in the tables.\<close>

lemma page_slots:
  "idx2 STACK_PAGE_1 = 504" "idx3 STACK_PAGE_1 = 511" "idx2 STACK_PAGE_2 = 504" "idx3 STACK_PAGE_2 = 510"
  "idx2 PAGE_RES_1 = 504" "idx3 PAGE_RES_1 = 509" "idx2 PAGE_RES_2 = 504" "idx3 PAGE_RES_2 = 508"
  "idx2 TIMER_IRQ_PAGE = 504" "idx3 TIMER_IRQ_PAGE = 11"
  by (simp_all add: idx2_def idx3_def MASK_def MASK_range_def)

text \<open>The tables behind the stack pages are present in the kernel and in the child, and those behind the device pages in the child.\<close>

definition stack_rows :: "u64 \<Rightarrow> u64 \<Rightarrow> u64 \<Rightarrow> u64 \<Rightarrow> mmu_state \<Rightarrow> bool" where
  "stack_rows E K P C m \<longleftrightarrow> apart E {K, P, C} m \<and>
     is_table_entry (lvl2_entry (at_table K m) 504) \<and> is_table_entry (lvl2_entry (at_table C m) 504) \<and> is_table_entry (lvl2_entry (at_table C m) 505)"

lemma stack_rows_cong:
  assumes "mem64 m' = mem64 m"
  shows "stack_rows E K P C m' = stack_rows E K P C m"
  unfolding stack_rows_def at_table_cong [OF assms] apart_cong [OF assms] ..

lemma stack_rows_step: "stack_rows E K P C m \<Longrightarrow> one_entry E {K, P, C} L i j x m m' \<Longrightarrow> stack_rows E K P C m'"
  using one_entryD(1) [of E "{K, P, C}" L i j x m m' K 504] one_entryD(1) [of E "{K, P, C}" L i j x m m' C 504]
    one_entryD(1) [of E "{K, P, C}" L i j x m m' C 505]
  by (simp add: stack_rows_def) (simp add: one_entry_def)

lemma page_of_frame:
  assumes "q AND MASK 35 12 = q"
  shows "page_of q = q"
  using aligned_page [OF assms] by (simp add: aligned_def page_of_iff)

lemma translate_entry:
  assumes "lvl2_table_address m = L" and "pt (at_table L m) (idx2 va) (idx3 va) = Some (page_entry q ba)" and "q AND MASK 35 12 = q" and "va AND MASK 11 0 = 0"
  shows "translate m va = Some q"
  using assms by (simp add: translate_def page_entry_address)

lemma through_kernel:
  assumes sr: "stack_rows E K P C m" and E: "E \<le> 504" and l2: "lvl2_table_address m = K" and tt: "TTBR0_EL1 m AND MASK 47 1 = K"
    and f: "f AND MASK 35 12 = f" "id_paging_size m \<le> f" "counter_ok f m"
    and q: "q AND MASK 35 12 = q" "id_paging_size m \<le> q" "counter_ok q m" and pl: "pool_wf n m" "pool n m = q # qs"
  obtains m3 m4 m5 m7 m8 where "bind_address PAGE_RES_1 f (new_block_attributes_sg1 (KERNEL_PAGE OR ACCESS_FLAG_SET) NORMAL_WT_NT) m = Some (0, m3)"
    "get_new_page PAGE_RES_2 (KERNEL_PAGE OR ACCESS_FLAG_SET) NORMAL_WT_NT m3 = Some (0, m4)"
    "get_physical_address m4 PAGE_RES_2 = Some q" "copy_page PAGE_RES_2 PAGE_RES_1 m4 = Some m5"
    "set_invalid_page PAGE_RES_1 (decrement_bind_counter q (decrement_bind_counter f m5)) = Some m7" "set_invalid_page PAGE_RES_2 m7 = Some m8"
    "m8 = m\<lparr>mem64 := mem64 m8, frame := (frame m)(q := frame m f), physical_memory_map := (physical_memory_map m)\<lparr>pm_head := pm_head (physical_memory_map m) + 1\<rparr>\<rparr>"
    "stack_rows E K P C m8" "pool_wf n m8" "pool n m8 = qs"
    "\<And>L k l. L \<in> {K, P, C} \<Longrightarrow> k < 511 \<Longrightarrow> l < 512 \<Longrightarrow> pt (at_table L m8) k l = (if L = K \<and> k = 504 \<and> (l = 508 \<or> l = 509) then None else pt (at_table L m) k l)"
proof -
  define ba where "ba = new_block_attributes_sg1 (KERNEL_PAGE OR ACCESS_FLAG_SET) NORMAL_WT_NT"
  define cf where "cf = get_bind_counter_address m f"
  define cq where "cq = get_bind_counter_address m q"
  define h where "h = pm_head (physical_memory_map m) + 1"
  have v: "valid_va PAGE_RES_1" "valid_va PAGE_RES_2" by (simp_all add: valid_va_iff)
  have z: "PAGE_RES_1 AND MASK 11 0 = 0" "PAGE_RES_2 AND MASK 11 0 = 0" by (simp_all add: MASK_def MASK_range_def)
  note ap = sr [unfolded stack_rows_def]
  obtain m3 where m3: "bind_address PAGE_RES_1 f ba m = Some (0, m3)" "m3 = m\<lparr>mem64 := mem64 m3, mem8 := (mem8 m)(cf := mem8 m cf + 1)\<rparr>"
    "one_entry E {K, P, C} K 504 509 (Some (page_entry f ba)) m m3"
    using bind_one_entry [of E "{K, P, C}" m K PAGE_RES_1 f cf ba, unfolded page_slots, OF _ _ l2 v(1) E _ f cf_def] ap by blast
  have sr3: "stack_rows E K P C m3" using stack_rows_step [OF sr m3(3)] .
  have fld3: "physical_memory_map m3 = physical_memory_map m" "mem32 m3 = mem32 m" "lvl2_table_address m3 = K" "mem8 m3 = (mem8 m)(cf := mem8 m cf + 1)"
    "cq = get_bind_counter_address m3 q" "id_paging_size m3 = id_paging_size m"
    by (subst m3(2), simp add: l2 cq_def get_bind_counter_address_def)+
  have pl3: "pool_wf n m3" "pool n m3 = q # qs" using pl pool_cong [of m3 m] by (simp_all add: fld3 pool_wf_def)
  have q3: "user_frame m3 q" using q by (simp add: user_frame_def counter_ok_def fld3(6) cq_def [symmetric] fld3(5) [symmetric])
  obtain m4 where new: "get_new_page PAGE_RES_2 (KERNEL_PAGE OR ACCESS_FLAG_SET) NORMAL_WT_NT m3 = Some (0, m4)" and pl4: "pool_wf n m4" "pool n m4 = qs"
    and m4: "m4 = m3\<lparr>mem64 := mem64 m4, mem8 := (mem8 m3)(cq := mem8 m3 cq + 1), physical_memory_map := (physical_memory_map m3)\<lparr>pm_head := pm_head (physical_memory_map m3) + 1\<rparr>\<rparr>"
    "one_entry E {K, P, C} K 504 508 (Some (page_entry q ba)) m3 m4"
    using new_page_one_entry [of E "{K, P, C}" m3 K PAGE_RES_2 q n qs cq, unfolded page_slots, OF _ _ fld3(3) v(2) E _ q3 pl3 fld3(5),
        of "KERNEL_PAGE OR ACCESS_FLAG_SET" NORMAL_WT_NT] sr3 unfolding stack_rows_def ba_def by blast
  have sr4: "stack_rows E K P C m4" using stack_rows_step [OF sr3 m4(2)] .
  have m4_eq: "m4 = m\<lparr>mem64 := mem64 m4, mem8 := (mem8 m3)(cq := mem8 m3 cq + 1), physical_memory_map := (physical_memory_map m)\<lparr>pm_head := h\<rparr>\<rparr>"
    by (subst m4(1), subst m3(2)) (simp add: fld3 h_def)
  have fld4: "lvl2_table_address m4 = K" "TTBR0_EL1 m4 = TTBR0_EL1 m" "frame m4 = frame m"
    by (subst m4_eq, simp add: l2)+
  have pt4: "pt (at_table L m4) k l = (if L = K \<and> k = 504 \<and> l = 508 then Some (page_entry q ba)
      else if L = K \<and> k = 504 \<and> l = 509 then Some (page_entry f ba) else pt (at_table L m) k l)"
    if "L \<in> {K, P, C}" "k < 511" "l < 512" for L k l
    using one_entryD(2) [OF m4(2) that] one_entryD(2) [OF m3(3) that] by auto
  have tr: "translate m4 PAGE_RES_2 = Some q" "translate m4 PAGE_RES_1 = Some f"
    using pt4 [of K 504 508] pt4 [of K 504 509]
      translate_entry [OF fld4(1) _ q(1) z(2), unfolded page_slots, of ba] translate_entry [OF fld4(1) _ f(1) z(1), unfolded page_slots, of ba] by simp_all
  have phys: "get_physical_address m4 PAGE_RES_2 = Some q"
    by (rule translate_physical [OF _ v(2) tr(1)]) (use apart_walk [of E "{K, P, C}" m4 K] sr4 fld4(1) in \<open>simp add: stack_rows_def\<close>)
  define m5 where "m5 = m4\<lparr>frame := (frame m)(q := frame m f)\<rparr>"
  have "set_lvl2_address_from_TTBR0_EL1 m4 = m4" using fld4 tt by (simp add: set_lvl2_address_from_TTBR0_EL1_def)
  then have cp: "copy_page PAGE_RES_2 PAGE_RES_1 m4 = Some m5"
    using tr page_of_frame [OF q(1)] page_of_frame [OF f(1)] by (simp add: copy_page_def hw_page_def m5_def fld4(3))
  define m6 where "m6 = decrement_bind_counter q (decrement_bind_counter f m5)"
  have m6_eq: "m6 = m\<lparr>mem64 := mem64 m4, frame := (frame m)(q := frame m f), physical_memory_map := (physical_memory_map m)\<lparr>pm_head := h\<rparr>\<rparr>"
  proof -
    define c where "c = (mem8 m)(cf := mem8 m cf + 1)"
    have m5_eq: "m5 = m\<lparr>mem64 := mem64 m4, mem8 := c(cq := c cq + 1), frame := (frame m)(q := frame m f), physical_memory_map := (physical_memory_map m)\<lparr>pm_head := h\<rparr>\<rparr>"
      unfolding m5_def by (subst m4_eq) (simp add: fld3 c_def)
    have adr: "get_bind_counter_address m5 f = cf" "get_bind_counter_address (decrement_bind_counter f m5) q = cq"
      by (simp_all add: get_bind_counter_address_def decrement_bind_counter_def cf_def cq_def m5_eq)
    have d1: "mem8 (decrement_bind_counter f m5) = (mem8 m5)(cf := mem8 m5 cf - 1)" by (simp add: decrement_bind_counter_def adr(1))
    have d2: "mem8 m6 = (mem8 (decrement_bind_counter f m5))(cq := mem8 (decrement_bind_counter f m5) cq - 1)"
      unfolding m6_def by (simp add: decrement_bind_counter_def [of q] adr(2))
    have "mem8 m6 = mem8 m" unfolding d2 d1 by (auto simp: m5_eq c_def)
    moreover have "m6 = m5\<lparr>mem8 := mem8 m6\<rparr>" by (simp add: m6_def decrement_bind_counter_def)
    ultimately show ?thesis by (simp add: m5_eq)
  qed
  have m64': "mem64 m6 = mem64 m4" by (simp add: m6_eq)
  have sr6: "stack_rows E K P C m6" using sr4 unfolding stack_rows_cong [OF m64'] .
  have l6: "lvl2_table_address m6 = K" by (simp add: m6_eq l2)
  obtain m7 where m7: "set_invalid_page PAGE_RES_1 m6 = Some m7" "m7 = m6\<lparr>mem64 := mem64 m7\<rparr>" "one_entry E {K, P, C} K 504 509 None m6 m7"
    using invalid_one_entry [of E "{K, P, C}" m6 K PAGE_RES_1, unfolded page_slots, OF _ _ l6 v(1) E] sr6 unfolding stack_rows_def by blast
  have sr7: "stack_rows E K P C m7" using stack_rows_step [OF sr6 m7(3)] .
  have l7: "lvl2_table_address m7 = K" by (subst m7(2)) (simp add: l6)
  obtain m8 where m8: "set_invalid_page PAGE_RES_2 m7 = Some m8" "m8 = m7\<lparr>mem64 := mem64 m8\<rparr>" "one_entry E {K, P, C} K 504 508 None m7 m8"
    using invalid_one_entry [of E "{K, P, C}" m7 K PAGE_RES_2, unfolded page_slots, OF _ _ l7 v(2) E] sr7 unfolding stack_rows_def by blast
  have m8_eq: "m8 = m\<lparr>mem64 := mem64 m8, frame := (frame m)(q := frame m f), physical_memory_map := (physical_memory_map m)\<lparr>pm_head := h\<rparr>\<rparr>"
    by (subst m8(2), subst m7(2)) (simp add: m6_eq)
  have "pool n m8 = pool n m4" "pool_wf n m8 = pool_wf n m4"
    by (subst m8_eq, subst m4_eq, simp add: pool_def pool_wf_def map_entry_def)+
  then have pl8: "pool_wf n m8" "pool n m8 = qs" using pl4 by simp_all
  show thesis
  proof (rule that)
    show "pt (at_table L m8) k l = (if L = K \<and> k = 504 \<and> (l = 508 \<or> l = 509) then None else pt (at_table L m) k l)"
      if "L \<in> {K, P, C}" "k < 511" "l < 512" for L k l
      using one_entryD(2) [OF m8(3) that] one_entryD(2) [OF m7(3) that] at_table_cong(2) [OF m64', of L k l] pt4 [OF that] by auto
  qed (use m3(1) new phys cp m7(1) m8(1) m8_eq pl8 stack_rows_step [OF sr7 m8(3)] in \<open>simp_all only: m6_def ba_def h_def\<close>)
qed

abbreviation (input) user_attributes :: block_attributes_sg1 where
  "user_attributes \<equiv> new_block_attributes_sg1 (USER_PAGE OR ACCESS_FLAG_SET) NORMAL_WT_NT"

lemma copy_forked_page_spec:
  assumes sr: "stack_rows E K P C s" and E: "E \<le> 504" and K: "K = mmu_tables_start ll" "get_lvl2_address_from_sys_state sys KERNEL_PID = K"
    and l2: "lvl2_table_address s = C" and tt: "TTBR0_EL1 s AND MASK 47 1 = K"
    and page: "page = STACK_PAGE_1 \<and> j = 511 \<or> page = STACK_PAGE_2 \<and> j = 510"
    and e: "pt (at_table C s) 504 j = Some e" and f: "f = frame_of e" "user_frame s f" and q: "user_frame s q"
    and cf: "cf = get_bind_counter_address s f" "mem8 s cf = 2" and cq: "cq = get_bind_counter_address s q" "cq \<noteq> cf" and d: "K \<noteq> C"
    and pl: "pool_wf n s" "pool n s = q # qs"
  shows "\<exists>s'. copy_forked_page ll sys page s = Some s' \<and>
     s' = s\<lparr>mem64 := mem64 s', mem8 := (mem8 s)(cf := 1, cq := mem8 s cq + 1), frame := (frame s)(q := frame s f),
       physical_memory_map := (physical_memory_map s)\<lparr>pm_head := pm_head (physical_memory_map s) + 1\<rparr>\<rparr> \<and>
     stack_rows E K P C s' \<and> pool_wf n s' \<and> pool n s' = qs \<and>
     (\<forall>L\<in>{K, P, C}. \<forall>k<511. \<forall>l<512. pt (at_table L s') k l =
        (if L = C \<and> k = 504 \<and> l = j then Some (page_entry q user_attributes)
         else if L = K \<and> k = 504 \<and> (l = 508 \<or> l = 509) then None else pt (at_table L s) k l))"
proof -
  have v: "valid_va page" and z: "page AND MASK 11 0 = 0" and ix: "idx2 page = 504" "idx3 page = j" and pm: "page mod GRANULE = 0"
    using page by (auto simp: valid_va_iff MASK_def MASK_range_def page_slots idx2_def idx3_def)
  have own: "at_table C s = s" using l2 by simp
  have ph: "get_physical_address s page = Some f"
    using translate_physical [OF _ v, of s f] apart_walk [of E "{K, P, C}" s C] sr e own z ix
    by (simp add: stack_rows_def translate_def f(1) frame_of_def)
  have cnt: "get_bind_counter s f = 2" using cf by (simp add: get_bind_counter_def)
  define m1 where "m1 = s\<lparr>mem8 := (mem8 s)(cf := 1)\<rparr>"
  have m1: "decrement_bind_counter f s = m1" using cf by (simp add: decrement_bind_counter_def m1_def)
  define m2 where "m2 = m1\<lparr>lvl2_table_address := K\<rparr>"
  have m64: "mem64 m2 = mem64 s" by (simp add: m2_def m1_def)
  have uf: "user_frame m2 x = user_frame s x" for x
    by (rule user_frame_cong) (simp_all add: m2_def m1_def get_bind_counter_address_def)
  note fq = f(2) [folded uf, unfolded user_frame_def] q [folded uf, unfolded user_frame_def]
  have "pool n m2 = pool n s" "pool_wf n m2 = pool_wf n s" using pool_cong [of m2 s] by (simp_all add: m2_def m1_def pool_wf_def)
  then have pl2: "pool_wf n m2" "pool n m2 = q # qs" using pl by simp_all
  have sr2: "stack_rows E K P C m2" using sr unfolding stack_rows_cong [OF m64] .
  have l22: "lvl2_table_address m2 = K" "TTBR0_EL1 m2 AND MASK 47 1 = K" using tt by (simp_all add: m2_def m1_def)
  obtain m3 m4 m5 m7 m8 where
    run: "bind_address PAGE_RES_1 f (new_block_attributes_sg1 (KERNEL_PAGE OR ACCESS_FLAG_SET) NORMAL_WT_NT) m2 = Some (0, m3)"
    "get_new_page PAGE_RES_2 (KERNEL_PAGE OR ACCESS_FLAG_SET) NORMAL_WT_NT m3 = Some (0, m4)"
    "get_physical_address m4 PAGE_RES_2 = Some q" "copy_page PAGE_RES_2 PAGE_RES_1 m4 = Some m5"
    "set_invalid_page PAGE_RES_1 (decrement_bind_counter q (decrement_bind_counter f m5)) = Some m7" "set_invalid_page PAGE_RES_2 m7 = Some m8"
    and m8: "m8 = m2\<lparr>mem64 := mem64 m8, frame := (frame m2)(q := frame m2 f), physical_memory_map := (physical_memory_map m2)\<lparr>pm_head := pm_head (physical_memory_map m2) + 1\<rparr>\<rparr>"
    "stack_rows E K P C m8" "pool_wf n m8" "pool n m8 = qs"
    and pt8: "\<And>L k l. L \<in> {K, P, C} \<Longrightarrow> k < 511 \<Longrightarrow> l < 512 \<Longrightarrow> pt (at_table L m8) k l = (if L = K \<and> k = 504 \<and> (l = 508 \<or> l = 509) then None else pt (at_table L m2) k l)"
    by (rule through_kernel [OF sr2 E l22, of f q n qs]) (use fq pl2 in blast)+
  define m9 where "m9 = m8\<lparr>lvl2_table_address := C\<rparr>"
  have m9: "mem64 m9 = mem64 m8" "lvl2_table_address m9 = C" by (simp_all add: m9_def)
  have m9_eq: "m9 = s\<lparr>mem64 := mem64 m8, mem8 := (mem8 s)(cf := 1), frame := (frame s)(q := frame s f),
       physical_memory_map := (physical_memory_map s)\<lparr>pm_head := pm_head (physical_memory_map s) + 1\<rparr>\<rparr>"
    unfolding m9_def by (subst m8(1)) (simp add: m2_def m1_def l2 [symmetric])
  have sr9: "stack_rows E K P C m9" using m8(2) unfolding stack_rows_cong [OF m9(1)] .
  have q9: "q AND MASK 35 12 = q" "id_paging_size m9 \<le> q" "counter_ok q m9" "cq = get_bind_counter_address m9 q"
    using q by (simp_all add: user_frame_def m9_eq counter_ok_def get_bind_counter_address_def cq(1))
  obtain m10 where m10: "bind_address page q user_attributes m9 = Some (0, m10)"
    "m10 = m9\<lparr>mem64 := mem64 m10, mem8 := (mem8 m9)(cq := mem8 m9 cq + 1)\<rparr>" "one_entry E {K, P, C} C 504 j (Some (page_entry q user_attributes)) m9 m10"
    using bind_one_entry [of E "{K, P, C}" m9 C page q cq user_attributes, OF _ _ m9(2) v _ _ q9] sr9 E unfolding stack_rows_def ix by blast
  have code: "copy_forked_page ll sys page s = Some m10"
    using pm ph cnt K run m10(1) by (simp add: copy_forked_page_def m1 flip: m2_def m9_def) (simp add: m2_def m1_def l2 m9_def)
  have "pool n m10 = pool n m8" "pool_wf n m10 = pool_wf n m8"
    by (subst m10(2), simp add: pool_def pool_wf_def map_entry_def m9_def)+
  moreover have "pt (at_table L m10) k l =
        (if L = C \<and> k = 504 \<and> l = j then Some (page_entry q user_attributes)
         else if L = K \<and> k = 504 \<and> (l = 508 \<or> l = 509) then None else pt (at_table L s) k l)"
    if "L \<in> {K, P, C}" "k < 511" "l < 512" for L k l
    using one_entryD(2) [OF m10(3) that] at_table_cong(2) [OF m9(1), of L k l] pt8 [OF that] at_table_cong(2) [OF m64, of L k l] by auto
  moreover have "m10 = s\<lparr>mem64 := mem64 m10, mem8 := (mem8 s)(cf := 1, cq := mem8 s cq + 1), frame := (frame s)(q := frame s f),
       physical_memory_map := (physical_memory_map s)\<lparr>pm_head := pm_head (physical_memory_map s) + 1\<rparr>\<rparr>"
    by (subst m10(2)) (use cq(2) in \<open>simp add: m9_eq\<close>)
  ultimately show ?thesis using code m8(3,4) stack_rows_step [OF sr9 m10(3)] by blast
qed

section \<open>The copy as a whole\<close>

lemma counter_inject:
  assumes "aligned f" "aligned g"
  shows "get_bind_counter_address m f = get_bind_counter_address m g \<longleftrightarrow> f = g"
proof
  assume "get_bind_counter_address m f = get_bind_counter_address m g"
  then have "f div GRANULE = g div GRANULE" by (simp add: get_bind_counter_address_def algebra_simps)
  then have "unat (f div GRANULE) = unat (g div GRANULE)" by simp
  then have "unat f div 4096 = unat g div 4096" by (simp add: unat_div_distrib)
  moreover have "unat f mod 4096 = 0" "unat g mod 4096 = 0" using assms by (simp_all add: aligned_unat)
  ultimately have "unat f = unat g" by (metis div_mult_mod_eq)
  then show "f = g" by (simp add: word_unat_eq_iff)
qed simp

text \<open>Frames that the parent maps in its part of the address space.\<close>

definition frames :: "u64 \<Rightarrow> u64 \<Rightarrow> mmu_state \<Rightarrow> u64 set" where
  "frames E P m = {frame_of e | i j e. (i, j) \<in> slots E (505 * 512) \<and> pt (at_table P m) i j = Some e}"

definition own_frames :: "u64 \<Rightarrow> u64 \<Rightarrow> mmu_state \<Rightarrow> bool" where
  "own_frames E P m \<longleftrightarrow> (\<forall>f\<in>frames E P m. user_frame m f) \<and>
     (\<forall>i j k l e e'. (i, j) \<in> slots E (505 * 512) \<longrightarrow> (k, l) \<in> slots E (505 * 512) \<longrightarrow>
        pt (at_table P m) i j = Some e \<longrightarrow> pt (at_table P m) k l = Some e' \<longrightarrow> frame_of e = frame_of e' \<longrightarrow> (i, j) = (k, l))"

lemma aligned_frame_of [simp]: "aligned (frame_of e)"
  by (simp add: frame_of_def)

lemma own_frames_countable:
  assumes "own_frames E P m"
  shows "countable_slots E P m"
  unfolding countable_slots_def
proof (intro ballI, clarify)
  fix i j e assume S: "(i, j) \<in> slots E (505 * 512)" and e: "pt (at_table P m) i j = Some e"
  have "user_frame m (frame_of e)" using assms S e unfolding own_frames_def frames_def by blast
  then have "counter_of m e < id_paging_size m" by (simp add: user_frame_def counter_ok_def counter_of_def)
  moreover have "(k, l) = (i, j)" if "(k, l) \<in> slots E (505 * 512)" "pt (at_table P m) k l = Some e'" "counter_of m e' = counter_of m e" for k l e'
    using assms S e that unfolding own_frames_def counter_of_def counter_inject [OF aligned_frame_of aligned_frame_of] by fastforce
  ultimately show "counter_of m e < id_paging_size m \<and> (\<forall>(k, l)\<in>slots E (505 * 512). \<forall>e'. pt (at_table P m) k l = Some e' \<longrightarrow>
      counter_of m e' = counter_of m e \<longrightarrow> (k, l) = (i, j))" by blast
qed

lemma no_slots: "slots E (512 * unat E) = {}"
proof -
  have "512 * unat E \<le> slot_no i j" if "E \<le> i" for i j
    using that by (simp add: slot_no_def word_le_nat_alt)
  then show ?thesis by (auto simp: slots_def not_less [symmetric])
qed

lemma copied_start:
  assumes ap: "apart E {K, P, C} m" and tab: "\<forall>k<511. E \<le> k \<longrightarrow> is_table_entry (lvl2_entry (at_table C m) k)"
  shows "copied E K P C m (512 * unat E) m"
  unfolding copied_def no_slots using ap tab by (simp add: bumped_def fun_eq_iff)

text \<open>The loops of \<open>process_init_copy_and_write\<close>.\<close>

lemma copy_loops:
  assumes ap: "apart E {K, P, C} m" and d: "distinct [K, P, C]" and E: "E \<le> 504" and l2: "lvl2_table_address m = C"
    and tab: "\<forall>k<511. is_table_entry (lvl2_entry (at_table C m) k)" and own: "own_frames E P m"
  obtains m1 m2 where "for_range 0 (unat E) (\<lambda>i m. Some (AT_store (lvl2_table_address m + of_nat i * 8) (AT m (P + of_nat i * 8)) m)) m = Some m1"
    and "tables_only m m1" and "for_range (unat E) 505 (\<lambda>i m. copy_row P i m) m1 = Some m2"
    and "m2 = m\<lparr>mem64 := mem64 m2, mem8 := bumped m P (slots E (505 * 512))\<rparr>" and "apart E {K, P, C} m2"
    and "\<And>L k. L \<in> {K, P} \<Longrightarrow> k < 511 \<Longrightarrow> lvl2_entry (at_table L m2) k = lvl2_entry (at_table L m) k"
    and "\<And>k l. k < 511 \<Longrightarrow> l < 512 \<Longrightarrow> pt (at_table P m2) k l =
        (if (k, l) \<in> slots E (505 * 512) then map_option (shared k l) (pt (at_table P m) k l) else pt (at_table P m) k l)"
    and "\<And>k l. k < 511 \<Longrightarrow> l < 512 \<Longrightarrow> k < E \<Longrightarrow> pt (at_table C m2) k l = pt (at_table P m) k l"
    and "\<And>k l. k < 511 \<Longrightarrow> l < 512 \<Longrightarrow> (k, l) \<in> slots E (505 * 512) \<Longrightarrow> pt (at_table C m2) k l = pt (at_table P m2) k l"
    and "\<And>k. k < 511 \<Longrightarrow> E \<le> k \<Longrightarrow> is_table_entry (lvl2_entry (at_table C m2) k) \<or> k < 505 \<and> \<not> is_table_entry (lvl2_entry (at_table P m) k)"
proof -
  have E5: "E < 511" "unat E \<le> 505" using E by (simp_all add: word_less_nat_alt word_le_nat_alt)
  obtain m1 where m1: "for_range 0 (unat E) (\<lambda>i m. Some (AT_store (lvl2_table_address m + of_nat i * 8) (AT m (P + of_nat i * 8)) m)) m = Some m1"
    "tables_only m m1" "same_off_tables C m m1" "\<forall>k<511. AT m1 (C + 8 * k) = (if k < E then AT m (P + 8 * k) else AT m (C + 8 * k))"
    using copy_kernel_rows [OF ap d E5(1) l2] by blast
  note k1 = kernel_rows_copied [OF ap d m1(3,4)]
  note T1 = tables_onlyD [OF m1(2)]
  have l1: "lvl2_table_address m1 = C" using T1(1) l2 by simp
  have tab1: "\<forall>k<511. E \<le> k \<longrightarrow> is_table_entry (lvl2_entry (at_table C m1) k)" using k1(4) tab by (simp add: leD)
  have uf: "user_frame m1 f = user_frame m f" for f by (rule user_frame_cong) (simp_all add: T1 get_bind_counter_address_def)
  have same: "pt (at_table P m1) i j = pt (at_table P m) i j" if "(i, j) \<in> slots E (505 * 512)" for i j
    using k1(3) [of P i j] that below_505 [of i] by (simp add: slots_def)
  have own1: "own_frames E P m1"
    using own unfolding own_frames_def frames_def uf by (simp add: same cong: conj_cong imp_cong)
  from copy_rows [OF copied_start [OF k1(1) tab1] d E5(2) own_frames_countable [OF own1] l1] obtain m2 where
    m2: "for_range (unat E) 505 (\<lambda>i m. copy_row P i m) m1 = Some m2" "copied E K P C m1 (512 * 505) m2" by auto
  note c = copiedD [OF m2(2), unfolded mult.commute [of 512]]
  have "counter_of m1 = counter_of m" by (simp add: fun_eq_iff counter_of_def get_bind_counter_address_def T1)
  then have "bumped m1 P (slots E (505 * 512)) = bumped m P (slots E (505 * 512))"
    unfolding bumped_def Bex_def split_paired_Ex prod.case by (simp add: fun_eq_iff T1 same cong: conj_cong)
  with c(3) have m8: "mem8 m2 = bumped m P (slots E (505 * 512))" by simp
  have m2_eq: "m2 = m\<lparr>mem64 := mem64 m2, mem8 := bumped m P (slots E (505 * 512))\<rparr>"
    by (subst c(1), subst m1(2) [unfolded tables_only_def]) (simp add: m8)
  show thesis
  proof (rule that [OF m1(1,2) m2(1) m2_eq c(2)])
    show "lvl2_entry (at_table L m2) k = lvl2_entry (at_table L m) k" if "L \<in> {K, P}" "k < 511" for L k
      using c(4) [OF that] k1(2) [OF that] by simp
    show "pt (at_table P m2) k l = (if (k, l) \<in> slots E (505 * 512) then map_option (shared k l) (pt (at_table P m) k l) else pt (at_table P m) k l)"
      if "k < 511" "l < 512" for k l
      using c(6) [OF that] k1(3) [OF _ that, of P] by simp
    show "pt (at_table C m2) k l = pt (at_table P m) k l" if "k < 511" "l < 512" "k < E" for k l
      using c(7) [OF that] k1(5) [OF that] by simp
    show "pt (at_table C m2) k l = pt (at_table P m2) k l" if "k < 511" "l < 512" "(k, l) \<in> slots E (505 * 512)" for k l
      using c(8) [OF that] .
    show "is_table_entry (lvl2_entry (at_table C m2) k) \<or> k < 505 \<and> \<not> is_table_entry (lvl2_entry (at_table P m) k)" if "k < 511" "E \<le> k" for k
      using c(9) [OF that] k1(2) [of P k] that by (auto simp: slot_no_def word_less_nat_alt)
  qed
qed

lemma bumped_slot:
  assumes "(i, j) \<in> S" and "pt (at_table P m) i j = Some e"
  shows "bumped m P S (counter_of m e) = mem8 m (counter_of m e) + 1"
  using assms unfolding bumped_def by auto

lemma stack_slots: "E \<le> 504 \<Longrightarrow> (504, 511) \<in> slots E (505 * 512) \<and> (504, 510) \<in> slots E (505 * 512)"
  by (simp add: slots_def slot_no_def)

lemma process_init_spec:
  assumes ap: "apart E {K, P, C} m" and d: "distinct [K, P, C]" and E: "E \<le> 504" and l2: "lvl2_table_address m = C"
    and tab: "\<forall>k<511. is_table_entry (lvl2_entry (at_table C m) k)" and own: "own_frames E P m"
    and idp: "unat (id_paging_size m) = 0x200000 * unat E" and ts: "mmu_tables_start ll mod 0x200000 = 0" and p: "p \<noteq> MEM_MANAGER_PID"
    and par: "get_lvl2_address_from_sys_state sys (get_parent_pid sys p) = P"
    and K: "K = mmu_tables_start ll" "get_lvl2_address_from_sys_state sys KERNEL_PID = K" and tt: "TTBR0_EL1 m AND MASK 47 1 = K"
    and rowK: "is_table_entry (lvl2_entry (at_table K m) 504)"
    and st: "pt (at_table P m) 504 511 = Some e1" "pt (at_table P m) 504 510 = Some e2"
    and cnt: "mem8 m (counter_of m e1) = 1" "mem8 m (counter_of m e2) = 1"
    and pl: "pool_wf n m" "pool n m = q1 # q2 # qs" and q: "user_frame m q1" "user_frame m q2" "q1 \<noteq> q2" "q1 \<notin> frames E P m" "q2 \<notin> frames E P m"
  obtains m' where "process_init_copy_and_write ll sys p m = Some m'"
    and "m' = m\<lparr>mem64 := mem64 m', mem8 := mem8 m', frame := (frame m)(q1 := frame m (frame_of e1), q2 := frame m (frame_of e2)),
       physical_memory_map := (physical_memory_map m)\<lparr>pm_head := pm_head (physical_memory_map m) + 2\<rparr>\<rparr>"
    and "\<And>f. f \<in> frames E P m \<Longrightarrow> f \<noteq> frame_of e1 \<Longrightarrow> f \<noteq> frame_of e2 \<Longrightarrow>
       mem8 m' (get_bind_counter_address m f) = mem8 m (get_bind_counter_address m f) + 1"
    and "stack_rows E K P C m'" and "pool n m' = qs"
    and "\<And>k l. k < 511 \<Longrightarrow> l < 512 \<Longrightarrow> pt (at_table P m') k l =
        (if (k, l) \<in> slots E (505 * 512) then map_option (shared k l) (pt (at_table P m) k l) else pt (at_table P m) k l)"
    and "\<And>k l. k < 511 \<Longrightarrow> l < 512 \<Longrightarrow> k < E \<Longrightarrow> pt (at_table C m') k l = pt (at_table P m) k l"
    and "\<And>k l. k < 511 \<Longrightarrow> l < 512 \<Longrightarrow> (k, l) \<in> slots E (505 * 512) \<Longrightarrow> pt (at_table C m') k l =
        (if (k, l) = (504, 511) then Some (page_entry q1 user_attributes)
         else if (k, l) = (504, 510) then Some (page_entry q2 user_attributes) else pt (at_table P m') k l)"
proof -
  obtain m1 m2 where m1: "for_range 0 (unat E) (\<lambda>i m. Some (AT_store (lvl2_table_address m + of_nat i * 8) (AT m (P + of_nat i * 8)) m)) m = Some m1"
    "tables_only m m1" and m2: "for_range (unat E) 505 (\<lambda>i m. copy_row P i m) m1 = Some m2"
    "m2 = m\<lparr>mem64 := mem64 m2, mem8 := bumped m P (slots E (505 * 512))\<rparr>" "apart E {K, P, C} m2"
    and e2L: "\<And>L k. L \<in> {K, P} \<Longrightarrow> k < 511 \<Longrightarrow> lvl2_entry (at_table L m2) k = lvl2_entry (at_table L m) k"
    and ptP: "\<And>k l. k < 511 \<Longrightarrow> l < 512 \<Longrightarrow> pt (at_table P m2) k l =
        (if (k, l) \<in> slots E (505 * 512) then map_option (shared k l) (pt (at_table P m) k l) else pt (at_table P m) k l)"
    and ptK: "\<And>k l. k < 511 \<Longrightarrow> l < 512 \<Longrightarrow> k < E \<Longrightarrow> pt (at_table C m2) k l = pt (at_table P m) k l"
    and ptC: "\<And>k l. k < 511 \<Longrightarrow> l < 512 \<Longrightarrow> (k, l) \<in> slots E (505 * 512) \<Longrightarrow> pt (at_table C m2) k l = pt (at_table P m2) k l"
    and rows: "\<And>k. k < 511 \<Longrightarrow> E \<le> k \<Longrightarrow> is_table_entry (lvl2_entry (at_table C m2) k) \<or> k < 505 \<and> \<not> is_table_entry (lvl2_entry (at_table P m) k)"
    by (rule copy_loops [OF ap d E l2 tab own]) blast
  note S = stack_slots [OF E]
  have rowP: "is_table_entry (lvl2_entry (at_table P m) 504)" using st(1) by (simp add: pt_def split: if_splits)
  have "E \<le> 505" using E by (simp add: word_le_nat_alt)
  then have sr: "stack_rows E K P C m2"
    using m2(3) e2L [of K 504] rowK rows [of 504] rows [of 505] rowP E by (simp add: stack_rows_def)
  have fld: "lvl2_table_address m2 = C" "TTBR0_EL1 m2 AND MASK 47 1 = K" "id_paging_size m2 = id_paging_size m"
    "get_bind_counter_address m2 = get_bind_counter_address m" "frame m2 = frame m" "physical_memory_map m2 = physical_memory_map m" "mem32 m2 = mem32 m"
    by (subst m2(2), simp add: l2 tt [unfolded One_nat_def] get_bind_counter_address_def fun_eq_iff)+
  have uf: "user_frame m2 x = user_frame m x" for x by (rule user_frame_cong) (simp_all add: fld)
  have mem2: "mem8 m2 = bumped m P (slots E (505 * 512))" by (subst m2(2)) simp
  define f1 where "f1 = frame_of e1"
  define f2 where "f2 = frame_of e2"
  have ff: "f1 \<in> frames E P m" "f2 \<in> frames E P m" using S st by (auto simp: frames_def f1_def f2_def)
  have ufr: "user_frame m f1" "user_frame m f2" using ff own by (auto simp: own_frames_def)
  have f12: "f1 \<noteq> f2"
  proof
    assume "f1 = f2"
    then have "(504, 511) = (504 :: u64, 510 :: u64)" using own S st unfolding own_frames_def f1_def f2_def by blast
    then show False by simp
  qed
  define c where "c = get_bind_counter_address m"
  have cinj: "c x = c y \<longleftrightarrow> x = y" if "user_frame m x" "user_frame m y" for x y
    using that counter_inject [of x y m] aligned_page unfolding user_frame_def aligned_def c_def by blast
  have qf: "q1 \<noteq> f1" "q1 \<noteq> f2" "q2 \<noteq> f1" "q2 \<noteq> f2" using ff q by auto
  have two: "mem8 m2 (c f1) = 2" "mem8 m2 (c f2) = 2"
    using bumped_slot [of 504 511 _ P m e1] bumped_slot [of 504 510 _ P m e2] S st cnt by (simp_all add: mem2 c_def f1_def f2_def counter_of_def)
  have pl2: "pool_wf n m2" "pool n m2 = q1 # q2 # qs" using pl pool_cong [of m2 m] by (simp_all add: fld pool_wf_def)
  have s1: "pt (at_table C m2) 504 511 = Some e1" "pt (at_table C m2) 504 510 = Some e2"
    using ptC [of 504 511] ptP [of 504 511] ptC [of 504 510] ptP [of 504 510] S st by (simp_all add: shared_def)
  have KC: "K \<noteq> C" using d by simp
  define h where "h = pm_head (physical_memory_map m)"
  have cm2: "c f1 = get_bind_counter_address m2 f1" "c q1 = get_bind_counter_address m2 q1" "c q1 \<noteq> c f1"
    using cinj [OF q(1) ufr(1)] qf by (simp_all add: c_def fld)
  from copy_forked_page_spec [OF sr E K fld(1,2) _ s1(1) f1_def _ _ cm2(1) two(1) cm2(2,3) KC pl2, of STACK_PAGE_1] obtain m3 where
    m3: "copy_forked_page ll sys STACK_PAGE_1 m2 = Some m3"
    "m3 = m2\<lparr>mem64 := mem64 m3, mem8 := (mem8 m2)(c f1 := 1, c q1 := mem8 m2 (c q1) + 1), frame := (frame m)(q1 := frame m f1),
       physical_memory_map := (physical_memory_map m)\<lparr>pm_head := h + 1\<rparr>\<rparr>"
    "stack_rows E K P C m3" "pool_wf n m3" "pool n m3 = q2 # qs" and
    pt3: "\<And>L k l. L \<in> {K, P, C} \<Longrightarrow> k < 511 \<Longrightarrow> l < 512 \<Longrightarrow> pt (at_table L m3) k l =
        (if L = C \<and> k = 504 \<and> l = 511 then Some (page_entry q1 user_attributes)
         else if L = K \<and> k = 504 \<and> (l = 508 \<or> l = 509) then None else pt (at_table L m2) k l)"
    using ufr(1) q(1) unfolding uf fld h_def by blast
  have fld3: "lvl2_table_address m3 = C" "TTBR0_EL1 m3 AND MASK 47 1 = K" "id_paging_size m3 = id_paging_size m"
    "get_bind_counter_address m3 = get_bind_counter_address m" "frame m3 = (frame m)(q1 := frame m f1)" "pm_head (physical_memory_map m3) = h + 1"
    "mem8 m3 = (mem8 m2)(c f1 := 1, c q1 := mem8 m2 (c q1) + 1)"
    by (subst m3(2), simp add: fld [unfolded One_nat_def] get_bind_counter_address_def fun_eq_iff)+
  have uf3: "user_frame m3 x = user_frame m x" for x by (rule user_frame_cong) (simp_all add: fld3)
  have s3: "pt (at_table C m3) 504 510 = Some e2" using pt3 [of C 504 510] s1(2) KC by simp
  have two3: "mem8 m3 (c f2) = 2" using two(2) cinj [OF ufr(2) ufr(1)] cinj [OF ufr(2) q(1)] f12 qf by (simp add: fld3)
  have cm3: "c f2 = get_bind_counter_address m3 f2" "c q2 = get_bind_counter_address m3 q2" "c q2 \<noteq> c f2"
    using cinj [OF q(2) ufr(2)] qf by (simp_all add: c_def fld3)
  from copy_forked_page_spec [OF m3(3) E K fld3(1,2) _ s3 f2_def _ _ cm3(1) two3 cm3(2,3) KC m3(4,5), of STACK_PAGE_2] obtain m4 where
    m4: "copy_forked_page ll sys STACK_PAGE_2 m3 = Some m4"
    "m4 = m3\<lparr>mem64 := mem64 m4, mem8 := (mem8 m3)(c f2 := 1, c q2 := mem8 m3 (c q2) + 1), frame := (frame m3)(q2 := frame m3 f2),
       physical_memory_map := (physical_memory_map m3)\<lparr>pm_head := h + 1 + 1\<rparr>\<rparr>"
    "stack_rows E K P C m4" "pool_wf n m4" "pool n m4 = qs" and
    pt4: "\<And>L k l. L \<in> {K, P, C} \<Longrightarrow> k < 511 \<Longrightarrow> l < 512 \<Longrightarrow> pt (at_table L m4) k l =
        (if L = C \<and> k = 504 \<and> l = 510 then Some (page_entry q2 user_attributes)
         else if L = K \<and> k = 504 \<and> (l = 508 \<or> l = 509) then None else pt (at_table L m3) k l)"
    using ufr(2) q(2) unfolding uf3 fld3(6) by blast
  have div: "unat (id_paging_size x div 0x200000) = unat E" if "id_paging_size x = id_paging_size m" for x
    using idp that by (simp add: unat_div_distrib)
  have "id_paging_size m1 = id_paging_size m" using tables_onlyD(2) [OF m1(2)] .
  moreover have "id_paging_size m mod 0x200000 = 0" using idp by (simp add: word_unat_eq_iff unat_mod_distrib)
  ultimately have code: "process_init_copy_and_write ll sys p m = Some m4"
    using m1(1) m2(1) m3(1) m4(1) p ts by (simp add: process_init_copy_and_write_def par div Let_def)
  show thesis
  proof (rule that [OF code _ _ m4(3) m4(5)])
    show "m4 = m\<lparr>mem64 := mem64 m4, mem8 := mem8 m4, frame := (frame m)(q1 := frame m (frame_of e1), q2 := frame m (frame_of e2)),
       physical_memory_map := (physical_memory_map m)\<lparr>pm_head := pm_head (physical_memory_map m) + 2\<rparr>\<rparr>"
    proof -
      have fr: "frame m3 f2 = frame m f2" using qf by (simp add: fld3)
      show ?thesis using m2(2) m3(2) m4(2) unfolding fr f1_def [symmetric] f2_def [symmetric] h_def
        by (cases m; cases m2; cases m3; cases m4) (simp add: algebra_simps)
    qed
    show "mem8 m4 (get_bind_counter_address m f) = mem8 m (get_bind_counter_address m f) + 1"
      if f: "f \<in> frames E P m" "f \<noteq> frame_of e1" "f \<noteq> frame_of e2" for f
    proof -
      obtain i j e where ij: "(i, j) \<in> slots E (505 * 512)" "pt (at_table P m) i j = Some e" "f = frame_of e" using f(1) by (auto simp: frames_def)
      have uff: "user_frame m f" using f(1) own by (auto simp: own_frames_def)
      have ne: "c f \<noteq> c f1" "c f \<noteq> c f2" "c f \<noteq> c q1" "c f \<noteq> c q2"
        using cinj [OF uff] ufr q f by (auto simp: f1_def f2_def)
      have "mem8 m4 (c f) = mem8 m2 (c f)" by (subst m4(2)) (simp add: fld3 ne)
      then show ?thesis using bumped_slot [OF ij(1,2)] by (simp add: mem2 ij(3) c_def counter_of_def)
    qed
    show "pt (at_table P m4) k l = (if (k, l) \<in> slots E (505 * 512) then map_option (shared k l) (pt (at_table P m) k l) else pt (at_table P m) k l)"
      if "k < 511" "l < 512" for k l
      using pt4 [of P k l] pt3 [of P k l] ptP [OF that] d that by auto
    show "pt (at_table C m4) k l = pt (at_table P m) k l" if "k < 511" "l < 512" "k < E" for k l
      using pt4 [of C k l] pt3 [of C k l] ptK [OF that] d that E by auto
    show "pt (at_table C m4) k l = (if (k, l) = (504, 511) then Some (page_entry q1 user_attributes)
         else if (k, l) = (504, 510) then Some (page_entry q2 user_attributes) else pt (at_table P m4) k l)"
      if "k < 511" "l < 512" "(k, l) \<in> slots E (505 * 512)" for k l
      using pt4 [of C k l] pt3 [of C k l] pt4 [of P k l] pt3 [of P k l] ptC [OF that] d that by auto
  qed
qed

section \<open>Devices\<close>

abbreviation (input) device_pages :: "u64 set" where
  "device_pages \<equiv> {GPIO_BASE, GPIO_BASE + 0x1000, GPIO_BASE + 0x15000, TIMER_IRQ_PAGE}"

lemma device_slots:
  "idx2 GPIO_BASE = 505" "idx3 GPIO_BASE = 0" "idx2 (GPIO_BASE + 0x1000) = 505" "idx3 (GPIO_BASE + 0x1000) = 1"
  "idx2 (GPIO_BASE + 0x15000) = 505" "idx3 (GPIO_BASE + 0x15000) = 21"
  by (simp_all add: idx2_def idx3_def MASK_def MASK_range_def)

text \<open>One step of \<open>map_peripheral_pages\<close>, with what is kept.\<close>

definition devices_from :: "u64 \<Rightarrow> u64 \<Rightarrow> u64 \<Rightarrow> u64 \<Rightarrow> u64 set \<Rightarrow> mmu_state \<Rightarrow> mmu_state \<Rightarrow> bool" where
  "devices_from E K P C D m m' \<longleftrightarrow> m' = m\<lparr>mem64 := mem64 m', mem8 := mem8 m'\<rparr> \<and> stack_rows E K P C m' \<and>
     (\<forall>f. aligned f \<longrightarrow> f \<notin> D \<longrightarrow> mem8 m' (get_bind_counter_address m f) = mem8 m (get_bind_counter_address m f)) \<and>
     (\<forall>L\<in>{K, P, C}. \<forall>k<511. \<forall>l<512. (\<forall>a\<in>D. L \<noteq> C \<or> (k, l) \<noteq> (idx2 a, idx3 a)) \<longrightarrow> pt (at_table L m') k l = pt (at_table L m) k l) \<and>
     (\<forall>a\<in>D. \<exists>e. pt (at_table C m') (idx2 a) (idx3 a) = Some e \<and> frame_of e = a)"

lemma devices_bind:
  assumes dv: "devices_from E K P C D m s" and l2: "lvl2_table_address m = C"
    and a: "a \<in> device_pages" "a \<notin> D" "D \<subseteq> device_pages" and E: "E \<le> 504" and uf: "\<forall>x\<in>device_pages. user_frame m x"
  shows "\<exists>s'. bind_address a a ba s = Some (0, s') \<and> devices_from E K P C (insert a D) m s'"
proof -
  have s: "s = m\<lparr>mem64 := mem64 s, mem8 := mem8 s\<rparr>" and sr: "stack_rows E K P C s" using dv by (simp_all add: devices_from_def)
  note S = same_fields [OF s]
  define c where "c = get_bind_counter_address s a"
  have uf': "user_frame s a" using uf a(1) user_frame_cong [of s m a] S by auto
  have va: "valid_va a" "E \<le> idx2 a" "is_table_entry (lvl2_entry (at_table C s) (idx2 a))" "idx2 a < 511"
    using a(1) E sr by (auto simp: valid_va_iff device_slots page_slots stack_rows_def word_le_nat_alt idx2_def MASK_def MASK_range_def)
  have C: "lvl2_table_address s = C" using S l2 by simp
  obtain s' where s': "bind_address a a ba s = Some (0, s')" "s' = s\<lparr>mem64 := mem64 s', mem8 := (mem8 s)(c := mem8 s c + 1)\<rparr>"
    "one_entry E {K, P, C} C (idx2 a) (idx3 a) (Some (page_entry a ba)) s s'"
    using bind_one_entry [of E "{K, P, C}" s C a a c ba, OF _ _ C va(1,2,3)] sr uf' unfolding stack_rows_def user_frame_def c_def by blast
  have slot_ne: "(idx2 x, idx3 x) \<noteq> (idx2 a, idx3 a)" if "x \<in> D" for x
  proof -
    have x: "x \<in> device_pages" "x \<noteq> a" using that a by auto
    have "page_of x = x" "page_of a = a" "valid_va x" using x a(1) by (auto simp: page_of_def MASK_def MASK_range_def valid_va_iff)
    then show ?thesis using same_page_idx [OF va(1), of x] x by auto
  qed
  have "devices_from E K P C (insert a D) m s'"
    unfolding devices_from_def
  proof (intro conjI ballI allI impI)
    show "s' = m\<lparr>mem64 := mem64 s', mem8 := mem8 s'\<rparr>" using s s'(2) by (cases m; cases s; cases s') simp
    show "stack_rows E K P C s'" using stack_rows_step [OF sr s'(3)] .
    show "mem8 s' (get_bind_counter_address m f) = mem8 m (get_bind_counter_address m f)" if f: "aligned f" "f \<notin> insert a D" for f
    proof -
      have "aligned a" using uf' aligned_page by (auto simp: user_frame_def aligned_def)
      then have "get_bind_counter_address m f \<noteq> c" using counter_inject [OF f(1), of a m] f(2) S by (simp add: c_def)
      then show ?thesis using dv f by (subst s'(2)) (simp add: devices_from_def)
    qed
    show "pt (at_table L s') k l = pt (at_table L m) k l"
      if "L \<in> {K, P, C}" "k < 511" "l < 512" "\<forall>x\<in>insert a D. L \<noteq> C \<or> (k, l) \<noteq> (idx2 x, idx3 x)" for L k l
      using one_entryD(2) [OF s'(3) that(1-3)] dv that by (auto simp: devices_from_def)
    show "\<exists>e. pt (at_table C s') (idx2 x) (idx3 x) = Some e \<and> frame_of e = x" if x: "x \<in> insert a D" for x
    proof (cases "x = a")
      case True
      have "frame_of (page_entry a ba) = a" using uf' by (simp add: frame_of_def page_entry_address user_frame_def)
      then show ?thesis using one_entryD(2) [OF s'(3) _ va(4), of C "idx3 a"] True by auto
    next
      case False
      then have xD: "x \<in> D" using x by auto
      then have "idx2 x < 511" using a(3) by (auto simp: idx2_def MASK_def MASK_range_def)
      then show ?thesis using one_entryD(2) [OF s'(3), of C "idx2 x" "idx3 x"] slot_ne [OF xD] dv xD by (auto simp: devices_from_def)
    qed
  qed
  with s'(1) show ?thesis by blast
qed

lemma devices_spec:
  assumes sr: "stack_rows E K P C m" and l2: "lvl2_table_address m = C" and E: "E \<le> 504" and uf: "\<forall>x\<in>device_pages. user_frame m x"
  shows "\<exists>m'. map_peripheral_pages m = Some m' \<and> devices_from E K P C device_pages m m'"
proof -
  note step = devices_bind [OF _ l2 _ _ _ E uf]
  have "devices_from E K P C {} m m" using sr by (simp add: devices_from_def)
  from step [OF this, of GPIO_BASE "new_block_attributes_sg1 (IO_PAGE OR ACCESS_FLAG_SET) DEVICE"] obtain m1 where
    m1: "bind_address GPIO_BASE GPIO_BASE (new_block_attributes_sg1 (IO_PAGE OR ACCESS_FLAG_SET) DEVICE) m = Some (0, m1)" "devices_from E K P C {GPIO_BASE} m m1" by auto
  from step [OF m1(2), of "GPIO_BASE + 0x1000" "new_block_attributes_sg1 (IO_PAGE OR ACCESS_FLAG_SET) DEVICE"] obtain m2 where
    m2: "bind_address (GPIO_BASE + 0x1000) (GPIO_BASE + 0x1000) (new_block_attributes_sg1 (IO_PAGE OR ACCESS_FLAG_SET) DEVICE) m1 = Some (0, m2)"
      "devices_from E K P C {GPIO_BASE + 0x1000, GPIO_BASE} m m2" by auto
  from step [OF m2(2), of "GPIO_BASE + 0x15000" "new_block_attributes_sg1 (IO_PAGE OR ACCESS_FLAG_SET) DEVICE"] obtain m3 where
    m3: "bind_address (GPIO_BASE + 0x15000) (GPIO_BASE + 0x15000) (new_block_attributes_sg1 (IO_PAGE OR ACCESS_FLAG_SET) DEVICE) m2 = Some (0, m3)"
      "devices_from E K P C {GPIO_BASE + 0x15000, GPIO_BASE + 0x1000, GPIO_BASE} m m3" by auto
  from step [OF m3(2), of TIMER_IRQ_PAGE "new_block_attributes_sg1 (KERNEL_PAGE OR ACCESS_FLAG_SET) DEVICE"] obtain m4 where
    m4: "bind_address TIMER_IRQ_PAGE TIMER_IRQ_PAGE (new_block_attributes_sg1 (KERNEL_PAGE OR ACCESS_FLAG_SET) DEVICE) m3 = Some (0, m4)"
      "devices_from E K P C {TIMER_IRQ_PAGE, GPIO_BASE + 0x15000, GPIO_BASE + 0x1000, GPIO_BASE} m m4" by auto
  have "{TIMER_IRQ_PAGE, GPIO_BASE + 0x15000, GPIO_BASE + 0x1000, GPIO_BASE} = device_pages" by auto
  then show ?thesis using m1(1) m2(1) m3(1) m4 by (simp add: map_peripheral_pages_def)
qed

section \<open>The address space of a forked process\<close>

definition parent_table :: "system_state \<Rightarrow> nat \<Rightarrow> u64" where
  "parent_table sys p = get_lvl2_address_from_sys_state sys (get_parent_pid sys p)"

definition child_table :: "link_layout \<Rightarrow> nat \<Rightarrow> u64" where
  "child_table ll p = mmu_tables_start ll + of_nat p * N_TABLE_ENTRIES * GRANULE"

text \<open>
  What the kernel provides when it sets up the address space of process \<open>p\<close>: well-formed tables of the kernel and of
  the parent, apart from each other and from the pages of the child's tables; frames of the parent that are counted
  and mapped once; stack pages that are not shared; two free frames.
\<close>

definition fork_ready :: "link_layout \<Rightarrow> system_state \<Rightarrow> nat \<Rightarrow> nat \<Rightarrow> mmu_state \<Rightarrow> bool" where
  "fork_ready ll sys p n m \<longleftrightarrow>
     (let K = mmu_tables_start ll; P = parent_table sys p; C = child_table ll p; E = end_addr ll div 0x200000
      in layout_ok ll \<and> end_addr ll \<le> 0x3F000000 \<and> p < 32 \<and> p \<notin> {KERNEL_PID, INIT_PID, MEM_MANAGER_PID} \<and>
         id_paging_size m = end_addr ll \<and> get_lvl2_address_from_sys_state sys KERNEL_PID = K \<and> TTBR0_EL1 m AND MASK 47 1 = K \<and>
         distinct [K, P, C] \<and> apart E {K, P} m \<and> (tables_of K m \<union> tables_of P m) \<inter> zone C = {} \<and>
         is_table_entry (lvl2_entry (at_table K m) 504) \<and> own_frames E P m \<and> (\<forall>a\<in>device_pages. user_frame m a) \<and>
         (\<forall>j\<in>{510, 511}. \<exists>e. pt (at_table P m) 504 j = Some e \<and> mem8 m (counter_of m e) = 1) \<and>
         pool_wf n m \<and> (case pool n m of q1 # q2 # _ \<Rightarrow> q1 \<noteq> q2 \<and> (\<forall>q\<in>{q1, q2}. user_frame m q \<and> q \<notin> frames E P m) | _ \<Rightarrow> False))"

definition user_va :: "link_layout \<Rightarrow> u64 \<Rightarrow> bool" where
  "user_va ll va \<longleftrightarrow> end_addr ll \<le> va \<and> va < GPIO_BASE \<and> page_of va \<noteq> TIMER_IRQ_PAGE"

text \<open>The byte that a process reads at an address, and whether it may write there.\<close>

definition contents :: "u64 \<Rightarrow> mmu_state \<Rightarrow> u64 \<Rightarrow> u8 option" where
  "contents L m va = map_option (\<lambda>pa. frame m (page_of pa) (unat (va AND MASK 11 0))) (translate (at_table L m) va)"

definition writable :: "u64 \<Rightarrow> mmu_state \<Rightarrow> u64 \<Rightarrow> bool" where
  "writable L m va \<longleftrightarrow> (\<exists>e. pt (at_table L m) (idx2 va) (idx3 va) = Some e \<and> \<not> bit e 7)"

lemma page_of_sum: "aligned q \<Longrightarrow> page_of (q + (va AND MASK 11 0)) = q"
proof -
  assume al: "aligned q"
  have "q + (va AND MASK 11 0) = q OR (va AND MASK 11 0)"
    by (rule disjunctive_add_eq_or) (rule bit_word_eqI, auto simp: bit_simps dest!: bit_aligned [OF al])
  then show ?thesis
    unfolding page_of_def by (simp only:) (rule bit_word_eqI, auto simp: bit_simps dest: bit_aligned [OF al] bit_imp_le_length)
qed

lemma translate_at: "translate (at_table L m) va = map_option (\<lambda>e. frame_of e + (va AND MASK 11 0)) (pt (at_table L m) (idx2 va) (idx3 va))"
  by (simp add: translate_def frame_of_def)

lemma contents_at: "contents L m va = map_option (\<lambda>e. frame m (frame_of e) (unat (va AND MASK 11 0))) (pt (at_table L m) (idx2 va) (idx3 va))"
  by (simp add: contents_def translate_at option.map_comp comp_def page_of_sum)

lemma user_slot:
  assumes va: "user_va ll va" and e: "unat (end_addr ll) = 0x200000 * unat E"
  shows "(idx2 va, idx3 va) \<in> slots E (505 * 512)" and "idx2 va < 511"
proof -
  have u: "0x200000 * unat E \<le> unat va" "unat va < 505 * 0x200000"
    using va e by (simp_all add: user_va_def word_le_nat_alt word_less_nat_alt)
  have i: "unat (idx2 va) = unat va div 0x200000" using u by (intro unat_idx2) simp
  have v: "valid_va va" using u by (simp add: valid_va_iff word_less_nat_alt)
  have "valid_va TIMER_IRQ_PAGE" "page_of TIMER_IRQ_PAGE = TIMER_IRQ_PAGE" by (simp_all add: valid_va_iff page_of_def MASK_def MASK_range_def)
  then have "(idx2 va, idx3 va) \<noteq> (504, 11)" using same_page_idx [of TIMER_IRQ_PAGE va, unfolded page_slots] v va by (auto simp: user_va_def)
  moreover have ib: "unat E \<le> unat (idx2 va)" "unat (idx2 va) < 505"
    using u i by (simp_all add: less_mult_imp_div_less div_le_mono [of "0x200000 * unat E" "unat va" "0x200000", simplified])
  moreover have "unat (idx3 va) < 512" using idx_bound(2) [of va] by (simp add: word_less_nat_alt)
  ultimately show "(idx2 va, idx3 va) \<in> slots E (505 * 512)"
    by (auto simp: slots_def slot_no_def word_le_nat_alt word_less_nat_alt)
  show "idx2 va < 511" using ib by (simp add: word_less_nat_alt)
qed

lemma fork_mmu_spec:
  assumes r: "fork_ready ll sys p n m" and P: "P = parent_table sys p" and C: "C = child_table ll p" and E: "E = end_addr ll div 0x200000"
    and pl: "pool n m = q1 # q2 # qs" and st: "pt (at_table P m) 504 511 = Some e1" "pt (at_table P m) 504 510 = Some e2"
  obtains m' where "c_init_mmu ll sys p m = Some (C, m')" and "pool n m' = qs"
    and "frame m' = (frame m)(q1 := frame m (frame_of e1), q2 := frame m (frame_of e2))"
    and "\<And>f. f \<in> frames E P m \<Longrightarrow> f \<notin> {frame_of e1, frame_of e2} \<Longrightarrow> f \<notin> device_pages \<Longrightarrow>
       mem8 m' (get_bind_counter_address m f) = mem8 m (get_bind_counter_address m f) + 1"
    and "\<And>k l. k < 511 \<Longrightarrow> l < 512 \<Longrightarrow> pt (at_table P m') k l =
        (if (k, l) \<in> slots E (505 * 512) then map_option (shared k l) (pt (at_table P m) k l) else pt (at_table P m) k l)"
    and "\<And>k l. k < 511 \<Longrightarrow> l < 512 \<Longrightarrow> k < E \<Longrightarrow> pt (at_table C m') k l = pt (at_table P m) k l"
    and "\<And>k l. k < 511 \<Longrightarrow> l < 512 \<Longrightarrow> (k, l) \<in> slots E (505 * 512) \<Longrightarrow> pt (at_table C m') k l =
        (if (k, l) = (504, 511) then Some (page_entry q1 user_attributes)
         else if (k, l) = (504, 510) then Some (page_entry q2 user_attributes) else pt (at_table P m') k l)"
    and "\<And>a. a \<in> device_pages \<Longrightarrow> \<exists>e. pt (at_table C m') (idx2 a) (idx3 a) = Some e \<and> frame_of e = a"
proof -
  define K where "K = mmu_tables_start ll"
  have lay: "layout_ok ll" and e3: "end_addr ll \<le> 0x3F000000" and p: "p < 32" "p \<notin> {KERNEL_PID, INIT_PID, MEM_MANAGER_PID}"
    and idm: "id_paging_size m = end_addr ll" and sysK: "get_lvl2_address_from_sys_state sys KERNEL_PID = K" and tt: "TTBR0_EL1 m AND MASK 47 1 = K"
    and d: "distinct [K, P, C]" and ap: "apart E {K, P} m" and zn: "(tables_of K m \<union> tables_of P m) \<inter> zone C = {}"
    and rowK: "is_table_entry (lvl2_entry (at_table K m) 504)" and own: "own_frames E P m" and dev: "\<forall>a\<in>device_pages. user_frame m a"
    and stk: "\<forall>j\<in>{510, 511}. \<exists>e. pt (at_table P m) 504 j = Some e \<and> mem8 m (counter_of m e) = 1"
    and pw: "pool_wf n m" and q: "q1 \<noteq> q2" "\<forall>q\<in>{q1, q2}. user_frame m q \<and> q \<notin> frames E P m"
    using r [unfolded fork_ready_def Let_def] pl unfolding K_def P C E by auto
  obtain t e' where te: "unat (mmu_tables_start ll) = 0x200000 * t" "unat (end_addr ll) = 0x200000 * e'" "t \<le> e'" "e' \<le> 511"
    using layout_nat [OF lay] .
  have uE: "unat E = e'" using te(2) by (simp add: E unat_div_distrib)
  have E4: "E \<le> 504" using e3 te(2) uE by (simp add: word_le_nat_alt)
  define m1 where "m1 = m\<lparr>id_paging_size := end_addr ll, lvl2_table_address := C\<rparr>"
  have m1_eq: "m1 = m\<lparr>lvl2_table_address := C\<rparr>" using idm by (cases m) (simp add: m1_def)
  have uC: "unat C = 0x200000 * (t + p)"
  proof -
    have "unat (of_nat p * (0x200000 :: u64)) = 0x200000 * p" using p(1) by (simp add: unat_word_ariths unat_of_nat take_bit_nat_eq_self)
    then show ?thesis using te p(1) by (simp add: C child_table_def unat_word_ariths(1) mult.assoc)
  qed
  then have "table_base (lvl2_table_address m1)" using te p(1) by (simp add: table_base_def m1_def)
  from populate_lvl2_table_spec [OF this] obtain m2 where
    m2: "populate_lvl2_table (C + GRANULE) m1 = Some m2" "walk_ok m2" "tables_only m1 m2" "same_off_tables C m1 m2"
    "\<forall>k<511. is_table_entry (lvl2_entry m2 k) \<and> lvl3_table m2 k = C + GRANULE + k * GRANULE" by (auto simp: m1_def)
  note T2 = tables_onlyD [OF m2(3)]
  have fld: "lvl2_table_address m2 = C" "id_paging_size m2 = end_addr ll" "physical_memory_map m2 = physical_memory_map m" "mem8 m2 = mem8 m"
    "mem32 m2 = mem32 m" "frame m2 = frame m" "TTBR0_EL1 m2 = TTBR0_EL1 m" by (simp_all add: T2 m1_def)
  have so: "same_off_tables C m m2" using m2(4) by (simp add: same_off_tables_def m1_def AT_def)
  have tabs: "\<forall>k<511. lvl3_table m2 k = C + GRANULE + k * GRANULE" using m2(5) by blast
  note F = fresh_tables_apart [OF ap zn m2(2) fld(1) so tabs]
  have ca: "get_bind_counter_address m2 = get_bind_counter_address m" by (simp add: fun_eq_iff get_bind_counter_address_def fld)
  have uf: "user_frame m2 x = user_frame m x" for x by (rule user_frame_cong) (simp_all add: fld idm ca)
  have same: "pt (at_table P m2) i j = pt (at_table P m) i j" if "(i, j) \<in> slots E (505 * 512)" for i j
    using F(3) [of P i j] that below_505 [of i] by (simp add: slots_def)
  have fr2: "frames E P m2 = frames E P m" unfolding frames_def by (simp add: same cong: conj_cong)
  have own2: "own_frames E P m2" using own unfolding own_frames_def fr2 uf by (simp add: same cong: conj_cong imp_cong)
  have tab2: "\<forall>k<511. is_table_entry (lvl2_entry (at_table C m2) k)" using m2(5) fld(1) by simp
  have st2: "pt (at_table P m2) 504 511 = Some e1" "pt (at_table P m2) 504 510 = Some e2" using same stack_slots [OF E4] st by simp_all
  have cnt: "mem8 m2 (counter_of m2 e1) = 1" "mem8 m2 (counter_of m2 e2) = 1" using stk st by (simp_all add: counter_of_def ca fld)
  have pl2: "pool_wf n m2" "pool n m2 = q1 # q2 # qs" using pl pw pool_cong [of m2 m] by (simp_all add: fld pool_wf_def)
  have q2: "user_frame m2 q1" "user_frame m2 q2" "q1 \<noteq> q2" "q1 \<notin> frames E P m2" "q2 \<notin> frames E P m2" using q by (simp_all add: uf fr2)
  have row2: "is_table_entry (lvl2_entry (at_table K m2) 504)" using F(2) [of K 504] rowK by simp
  have ts: "mmu_tables_start ll mod 0x200000 = 0" using lay by (simp add: layout_ok_def)
  have id2: "unat (id_paging_size m2) = 0x200000 * unat E" using te(2) uE fld by simp
  have pM: "p \<noteq> MEM_MANAGER_PID" using p by simp
  have tt2: "TTBR0_EL1 m2 AND MASK 47 1 = K" using tt by (simp add: fld)
  obtain m3 where m3: "process_init_copy_and_write ll sys p m2 = Some m3"
    "m3 = m2\<lparr>mem64 := mem64 m3, mem8 := mem8 m3, frame := (frame m2)(q1 := frame m2 (frame_of e1), q2 := frame m2 (frame_of e2)),
       physical_memory_map := (physical_memory_map m2)\<lparr>pm_head := pm_head (physical_memory_map m2) + 2\<rparr>\<rparr>"
    and cnt3: "\<And>f. f \<in> frames E P m2 \<Longrightarrow> f \<noteq> frame_of e1 \<Longrightarrow> f \<noteq> frame_of e2 \<Longrightarrow>
       mem8 m3 (get_bind_counter_address m2 f) = mem8 m2 (get_bind_counter_address m2 f) + 1"
    and sr3: "stack_rows E K P C m3" and pl3: "pool n m3 = qs"
    and ptP: "\<And>k l. k < 511 \<Longrightarrow> l < 512 \<Longrightarrow> pt (at_table P m3) k l =
        (if (k, l) \<in> slots E (505 * 512) then map_option (shared k l) (pt (at_table P m2) k l) else pt (at_table P m2) k l)"
    and ptE: "\<And>k l. k < 511 \<Longrightarrow> l < 512 \<Longrightarrow> k < E \<Longrightarrow> pt (at_table C m3) k l = pt (at_table P m2) k l"
    and ptC: "\<And>k l. k < 511 \<Longrightarrow> l < 512 \<Longrightarrow> (k, l) \<in> slots E (505 * 512) \<Longrightarrow> pt (at_table C m3) k l =
        (if (k, l) = (504, 511) then Some (page_entry q1 user_attributes)
         else if (k, l) = (504, 510) then Some (page_entry q2 user_attributes) else pt (at_table P m3) k l)"
    by (rule process_init_spec [OF F(1) d E4 fld(1) tab2 own2 id2 ts pM P [unfolded parent_table_def, symmetric] K_def sysK tt2 row2 st2 cnt pl2 q2]) blast
  have fld3: "lvl2_table_address m3 = C" "id_paging_size m3 = end_addr ll" "get_bind_counter_address m3 = get_bind_counter_address m"
    "frame m3 = (frame m)(q1 := frame m (frame_of e1), q2 := frame m (frame_of e2))"
    by (subst m3(2), simp add: fld fun_eq_iff get_bind_counter_address_def)+
  have "\<forall>a\<in>device_pages. user_frame m3 a" using dev user_frame_cong [of m3 m] fld3 idm by simp
  from devices_spec [OF sr3 fld3(1) E4 this] obtain m4 where m4: "map_peripheral_pages m3 = Some m4" "devices_from E K P C device_pages m3 m4" by blast
  note D = m4(2) [unfolded devices_from_def]
  have s4: "m4 = m3\<lparr>mem64 := mem64 m4, mem8 := mem8 m4\<rparr>" using D by blast
  note S4 = same_fields [OF s4]
  have keep: "pt (at_table L m4) k l = pt (at_table L m3) k l"
    if "L \<in> {K, P, C}" "k < 511" "l < 512" "L \<noteq> C \<or> k < 505 \<and> (k, l) \<noteq> (504, 11)" for L k l
    using D that unfolding device_slots page_slots ball_simps insert_iff by blast
  have code: "c_init_mmu ll sys p m = Some (C, m4)"
    using m2(1) m3(1) m4(1) p S4(1) fld3(1) unfolding c_init_mmu_def child_table_def [symmetric] C [symmetric] Let_def m1_def [symmetric]
    by (simp add: m1_def)
  show thesis
  proof (rule that [OF code])
    show "pool n m4 = qs" using pl3 pool_cong [of m4 m3] S4 by simp
    show "frame m4 = (frame m)(q1 := frame m (frame_of e1), q2 := frame m (frame_of e2))" using S4 fld3 by simp
    show "mem8 m4 (get_bind_counter_address m f) = mem8 m (get_bind_counter_address m f) + 1"
      if "f \<in> frames E P m" "f \<notin> {frame_of e1, frame_of e2}" "f \<notin> device_pages" for f
    proof -
      have "aligned f" using that(1) by (auto simp: frames_def)
      then have "mem8 m4 (get_bind_counter_address m f) = mem8 m3 (get_bind_counter_address m f)" using D that(3) unfolding fld3 by blast
      then show ?thesis using cnt3 [of f] that unfolding fr2 ca fld by simp
    qed
    show "pt (at_table P m4) k l = (if (k, l) \<in> slots E (505 * 512) then map_option (shared k l) (pt (at_table P m) k l) else pt (at_table P m) k l)"
      if "k < 511" "l < 512" for k l
      using keep [of P k l] ptP [OF that] F(3) [OF _ that, of P] d that by auto
    show "pt (at_table C m4) k l = pt (at_table P m) k l" if k: "k < 511" "l < 512" "k < E" for k l
    proof -
      have "k < 504" using k(3) E4 by (rule less_le_trans)
      then have "k < 505" "(k, l) \<noteq> (504, 11)" by (auto simp: word_less_nat_alt)
      then show ?thesis using keep [of C k l] ptE [OF k] F(3) [OF _ k(1,2), of P] k by simp
    qed
    show "pt (at_table C m4) k l = (if (k, l) = (504, 511) then Some (page_entry q1 user_attributes)
         else if (k, l) = (504, 510) then Some (page_entry q2 user_attributes) else pt (at_table P m4) k l)"
      if "k < 511" "l < 512" "(k, l) \<in> slots E (505 * 512)" for k l
      using keep [of C k l] keep [of P k l] ptC [OF that] that d by (auto simp: slots_def)
    show "\<exists>e. pt (at_table C m4) (idx2 a) (idx3 a) = Some e \<and> frame_of e = a" if "a \<in> device_pages" for a
      using D that by blast
  qed
qed


lemma permission_bits: "bit (forked e) 7" "\<not> bit (page_entry q user_attributes) 7"
proof -
  have "bit (attribute_bits forked_attributes) 7" "\<not> bit (attribute_bits user_attributes) 7"
    by (simp_all add: attribute_bits_def new_block_attributes_sg1_def MASK_def MASK_range_def)
  then show "bit (forked e) 7" "\<not> bit (page_entry q user_attributes) 7"
    by (simp_all add: forked_def page_entry_def bit_or_iff bit_and_iff)
qed

lemma page_slot:
  assumes "va < GPIO_BASE" and "a \<in> {STACK_PAGE_1, STACK_PAGE_2}"
  shows "(idx2 va, idx3 va) = (idx2 a, idx3 a) \<longleftrightarrow> page_of va = a"
proof -
  have "unat va < 0x3F200000" using assms(1) by (simp add: word_less_nat_alt)
  then have "valid_va va" by (simp add: valid_va_iff word_less_nat_alt)
  moreover have "valid_va a" "page_of a = a" using assms(2) by (auto simp: valid_va_iff page_of_def MASK_def MASK_range_def)
  ultimately show ?thesis using same_page_idx [of a va] by auto
qed

text \<open>The user's part of the new address space, entry by entry.\<close>

definition forked_space :: "link_layout \<Rightarrow> u64 \<Rightarrow> u64 \<Rightarrow> u64 \<Rightarrow> mmu_state \<Rightarrow> mmu_state \<Rightarrow> bool" where
  "forked_space ll E P C m m' \<longleftrightarrow>
     (\<forall>va. user_va ll va \<longrightarrow> pt (at_table P m') (idx2 va) (idx3 va) = map_option (shared (idx2 va) (idx3 va)) (pt (at_table P m) (idx2 va) (idx3 va))) \<and>
     (\<forall>va. user_va ll va \<longrightarrow> page_of va \<notin> {STACK_PAGE_1, STACK_PAGE_2} \<longrightarrow>
        pt (at_table C m') (idx2 va) (idx3 va) = map_option forked (pt (at_table P m) (idx2 va) (idx3 va)) \<and>
        pt (at_table P m') (idx2 va) (idx3 va) = map_option forked (pt (at_table P m) (idx2 va) (idx3 va))) \<and>
     (\<forall>va. user_va ll va \<longrightarrow> page_of va \<in> {STACK_PAGE_1, STACK_PAGE_2} \<longrightarrow>
        (\<exists>e q. pt (at_table P m) (idx2 va) (idx3 va) = Some e \<and> pt (at_table C m') (idx2 va) (idx3 va) = Some (page_entry q user_attributes) \<and>
           user_frame m q \<and> q \<notin> frames E P m \<and> frame m' q = frame m (frame_of e))) \<and>
     (\<forall>f\<in>frames E P m. frame m' f = frame m f)"

lemma frame_of_page_entry: "user_frame m q \<Longrightarrow> frame_of (page_entry q ba) = q"
  by (simp add: frame_of_def page_entry_address user_frame_def)

lemma user_frames:
  assumes "user_va ll va" and "unat (end_addr ll) = 0x200000 * unat E" and "pt (at_table P m) (idx2 va) (idx3 va) = Some e"
  shows "frame_of e \<in> frames E P m"
  using user_slot(1) [OF assms(1,2)] assms(3) by (auto simp: frames_def)

lemma forked_contents:
  assumes fs: "forked_space ll E P C m m'" and eE: "unat (end_addr ll) = 0x200000 * unat E" and va: "user_va ll va"
  shows "contents P m' va = contents P m va" and "contents C m' va = contents P m va"
proof -
  have fr: "frame m' (frame_of e) = frame m (frame_of e)" if "pt (at_table P m) (idx2 va) (idx3 va) = Some e" for e
    using fs user_frames [OF va eE that] by (simp add: forked_space_def)
  have "pt (at_table P m') (idx2 va) (idx3 va) = map_option (shared (idx2 va) (idx3 va)) (pt (at_table P m) (idx2 va) (idx3 va))"
    using fs va by (simp add: forked_space_def)
  then show cP: "contents P m' va = contents P m va"
    using fr by (cases "pt (at_table P m) (idx2 va) (idx3 va)") (simp_all add: contents_at)
  show "contents C m' va = contents P m va"
  proof (cases "page_of va \<in> {STACK_PAGE_1, STACK_PAGE_2}")
    case True
    then obtain e q where "pt (at_table P m) (idx2 va) (idx3 va) = Some e" "pt (at_table C m') (idx2 va) (idx3 va) = Some (page_entry q user_attributes)"
      "user_frame m q" "frame m' q = frame m (frame_of e)" using fs va unfolding forked_space_def by blast
    then show ?thesis using frame_of_page_entry by (simp add: contents_at)
  next
    case False
    then have "pt (at_table C m') (idx2 va) (idx3 va) = pt (at_table P m') (idx2 va) (idx3 va)" using fs va unfolding forked_space_def by metis
    then show ?thesis using cP by (simp add: contents_at)
  qed
qed

lemma forked_isolated:
  assumes fs: "forked_space ll E P C m m'" and eE: "unat (end_addr ll) = 0x200000 * unat E" and own: "own_frames E P m"
    and va: "user_va ll va" "user_va ll va'" and tr: "translate (at_table C m') va = Some pa" "translate (at_table P m') va' = Some pa'" "page_of pa = page_of pa'"
  shows "\<not> writable C m' va \<and> \<not> writable P m' va'"
proof -
  have "pt (at_table P m') (idx2 va') (idx3 va') = map_option (shared (idx2 va') (idx3 va')) (pt (at_table P m) (idx2 va') (idx3 va'))"
    using fs va(2) by (simp add: forked_space_def)
  then obtain e e' where e: "pt (at_table C m') (idx2 va) (idx3 va) = Some e" "pt (at_table P m) (idx2 va') (idx3 va') = Some e'" "frame_of e = frame_of e'"
    using tr by (auto simp: translate_at page_of_sum)
  have ns: "page_of va \<notin> {STACK_PAGE_1, STACK_PAGE_2}"
  proof
    assume "page_of va \<in> {STACK_PAGE_1, STACK_PAGE_2}"
    then obtain q where "e = page_entry q user_attributes" "user_frame m q" "q \<notin> frames E P m" using fs va(1) e(1) unfolding forked_space_def by (metis option.inject)
    then have "frame_of e \<notin> frames E P m" using frame_of_page_entry by simp
    then show False using user_frames [OF va(2) eE e(2)] e(3) by simp
  qed
  then have C: "pt (at_table C m') (idx2 va) (idx3 va) = map_option forked (pt (at_table P m) (idx2 va) (idx3 va))"
    "pt (at_table P m') (idx2 va) (idx3 va) = map_option forked (pt (at_table P m) (idx2 va) (idx3 va))"
    using fs va(1) unfolding forked_space_def by blast+
  then obtain f where f: "pt (at_table P m) (idx2 va) (idx3 va) = Some f" "e = forked f"
    using e(1) by (cases "pt (at_table P m) (idx2 va) (idx3 va)") auto
  have "(idx2 va, idx3 va) = (idx2 va', idx3 va')"
    using own user_slot(1) [OF va(1) eE] user_slot(1) [OF va(2) eE] f e(2,3) unfolding own_frames_def by (metis forked_facts(2))
  then show ?thesis using C f permission_bits(1) by (auto simp: writable_def)
qed

lemma fork_ready_layout:
  assumes "fork_ready ll sys p n m"
  shows "unat (end_addr ll) = 0x200000 * unat (end_addr ll div 0x200000)" and "end_addr ll div 0x200000 \<le> 504"
    and "own_frames (end_addr ll div 0x200000) (parent_table sys p) m"
proof -
  note r = assms [unfolded fork_ready_def Let_def]
  have "layout_ok ll" using r by blast
  then obtain t e' where "unat (mmu_tables_start ll) = 0x200000 * t" and e': "unat (end_addr ll) = 0x200000 * e'" and "t \<le> e'" "e' \<le> 511"
    by (rule layout_nat)
  then show eE: "unat (end_addr ll) = 0x200000 * unat (end_addr ll div 0x200000)" by (simp add: unat_div_distrib)
  have "end_addr ll \<le> 0x3F000000" using r by blast
  then show "end_addr ll div 0x200000 \<le> 504" using e' by (simp add: word_le_nat_alt unat_div_distrib)
  show "own_frames (end_addr ll div 0x200000) (parent_table sys p) m" using r by blast
qed

lemma fork_space:
  assumes r: "fork_ready ll sys p n m" and P: "P = parent_table sys p" and C: "C = child_table ll p" and E: "E = end_addr ll div 0x200000"
  obtains m' where "c_init_mmu ll sys p m = Some (C, m')" and "pool n m' = drop 2 (pool n m)" and "forked_space ll E P C m m'"
    and "\<And>k l. k < 511 \<Longrightarrow> l < 512 \<Longrightarrow> k < E \<Longrightarrow> pt (at_table C m') k l = pt (at_table P m) k l"
    and "\<And>a. a \<in> device_pages \<Longrightarrow> \<exists>e. pt (at_table C m') (idx2 a) (idx3 a) = Some e \<and> frame_of e = a"
    and "\<And>va e. user_va ll va \<Longrightarrow> page_of va \<notin> {STACK_PAGE_1, STACK_PAGE_2} \<Longrightarrow> pt (at_table P m) (idx2 va) (idx3 va) = Some e \<Longrightarrow>
       frame_of e \<notin> device_pages \<Longrightarrow> mem8 m' (counter_of m e) = mem8 m (counter_of m e) + 1"
proof -
  note L = fork_ready_layout [OF r, folded E P]
  have "case pool n m of q1 # q2 # _ \<Rightarrow> q1 \<noteq> q2 \<and> (\<forall>q\<in>{q1, q2}. user_frame m q \<and> q \<notin> frames E P m) | _ \<Rightarrow> False"
    using r [unfolded fork_ready_def Let_def, folded P E] by blast
  then obtain q1 q2 qs where pl: "pool n m = q1 # q2 # qs" and q: "q1 \<notin> frames E P m" "q2 \<notin> frames E P m" "user_frame m q1" "user_frame m q2" "q1 \<noteq> q2"
    by (auto split: list.splits)
  have "\<forall>j\<in>{510, 511}. \<exists>e. pt (at_table P m) 504 j = Some e" using r [unfolded fork_ready_def Let_def, folded P] by blast
  then obtain e1 e2 where st: "pt (at_table P m) 504 511 = Some e1" "pt (at_table P m) 504 510 = Some e2" by auto
  obtain m' where m': "c_init_mmu ll sys p m = Some (C, m')" "pool n m' = qs"
    and fr: "frame m' = (frame m)(q1 := frame m (frame_of e1), q2 := frame m (frame_of e2))"
    and cnt: "\<And>f. f \<in> frames E P m \<Longrightarrow> f \<notin> {frame_of e1, frame_of e2} \<Longrightarrow> f \<notin> device_pages \<Longrightarrow>
       mem8 m' (get_bind_counter_address m f) = mem8 m (get_bind_counter_address m f) + 1"
    and ptP: "\<And>k l. k < 511 \<Longrightarrow> l < 512 \<Longrightarrow> pt (at_table P m') k l =
        (if (k, l) \<in> slots E (505 * 512) then map_option (shared k l) (pt (at_table P m) k l) else pt (at_table P m) k l)"
    and ptE: "\<And>k l. k < 511 \<Longrightarrow> l < 512 \<Longrightarrow> k < E \<Longrightarrow> pt (at_table C m') k l = pt (at_table P m) k l"
    and ptC: "\<And>k l. k < 511 \<Longrightarrow> l < 512 \<Longrightarrow> (k, l) \<in> slots E (505 * 512) \<Longrightarrow> pt (at_table C m') k l =
        (if (k, l) = (504, 511) then Some (page_entry q1 user_attributes)
         else if (k, l) = (504, 510) then Some (page_entry q2 user_attributes) else pt (at_table P m') k l)"
    and dev: "\<And>a. a \<in> device_pages \<Longrightarrow> \<exists>e. pt (at_table C m') (idx2 a) (idx3 a) = Some e \<and> frame_of e = a"
    by (rule fork_mmu_spec [OF r P C E pl st]) blast
  have stack: "(idx2 va, idx3 va) = (504, 511) \<longleftrightarrow> page_of va = STACK_PAGE_1" "(idx2 va, idx3 va) = (504, 510) \<longleftrightarrow> page_of va = STACK_PAGE_2"
    if "user_va ll va" for va
    using page_slot [of va STACK_PAGE_1, unfolded page_slots] page_slot [of va STACK_PAGE_2, unfolded page_slots] that by (simp_all add: user_va_def)
  have P': "pt (at_table P m') (idx2 va) (idx3 va) = map_option (shared (idx2 va) (idx3 va)) (pt (at_table P m) (idx2 va) (idx3 va))" if "user_va ll va" for va
    using ptP [OF user_slot(2) [OF that L(1)] idx_bound(2)] user_slot(1) [OF that L(1)] by simp
  have C': "pt (at_table C m') (idx2 va) (idx3 va) = (if (idx2 va, idx3 va) = (504, 511) then Some (page_entry q1 user_attributes)
      else if (idx2 va, idx3 va) = (504, 510) then Some (page_entry q2 user_attributes) else pt (at_table P m') (idx2 va) (idx3 va))" if "user_va ll va" for va
    using ptC [OF user_slot(2) [OF that L(1)] idx_bound(2) user_slot(1) [OF that L(1)]] .
  have "forked_space ll E P C m m'"
    unfolding forked_space_def
  proof (intro conjI allI impI ballI)
    show "frame m' f = frame m f" if "f \<in> frames E P m" for f using that q by (auto simp: fr)
    show "\<exists>e q. pt (at_table P m) (idx2 va) (idx3 va) = Some e \<and> pt (at_table C m') (idx2 va) (idx3 va) = Some (page_entry q user_attributes) \<and>
           user_frame m q \<and> q \<notin> frames E P m \<and> frame m' q = frame m (frame_of e)" if va: "user_va ll va" "page_of va \<in> {STACK_PAGE_1, STACK_PAGE_2}" for va
      using stack [OF va(1)] va(2) C' [OF va(1)] st q fr by auto
    show "pt (at_table P m') (idx2 va) (idx3 va) = map_option forked (pt (at_table P m) (idx2 va) (idx3 va))"
      "pt (at_table C m') (idx2 va) (idx3 va) = map_option forked (pt (at_table P m) (idx2 va) (idx3 va))"
      if va: "user_va ll va" "page_of va \<notin> {STACK_PAGE_1, STACK_PAGE_2}" for va
    proof -
      have ne: "(idx2 va, idx3 va) \<noteq> (504, 511)" "(idx2 va, idx3 va) \<noteq> (504, 510)" using stack [OF va(1)] va(2) by auto
      then have "shared (idx2 va) (idx3 va) = forked" by (auto simp: shared_def fun_eq_iff)
      then show "pt (at_table P m') (idx2 va) (idx3 va) = map_option forked (pt (at_table P m) (idx2 va) (idx3 va))" using P' [OF va(1)] by simp
      then show "pt (at_table C m') (idx2 va) (idx3 va) = map_option forked (pt (at_table P m) (idx2 va) (idx3 va))" using C' [OF va(1)] ne by auto
    qed
  qed (rule P')
  moreover have "mem8 m' (counter_of m e) = mem8 m (counter_of m e) + 1"
    if va: "user_va ll va" "page_of va \<notin> {STACK_PAGE_1, STACK_PAGE_2}" and e: "pt (at_table P m) (idx2 va) (idx3 va) = Some e" "frame_of e \<notin> device_pages" for va e
  proof -
    have "(idx2 va, idx3 va) \<noteq> (504, 511)" "(idx2 va, idx3 va) \<noteq> (504, 510)" using stack [OF va(1)] va(2) by auto
    then have "frame_of e \<noteq> frame_of e1" "frame_of e \<noteq> frame_of e2"
      using L(3) user_slot(1) [OF va(1) L(1)] e(1) st stack_slots [OF L(2)] unfolding own_frames_def by blast+
    then show ?thesis using cnt [of "frame_of e"] user_frames [OF va(1) L(1) e(1)] e(2) by (simp add: counter_of_def)
  qed
  ultimately show thesis using that m' pl ptE dev by simp
qed

lemma kernel_part:
  assumes "va < end_addr ll" and "unat (end_addr ll) = 0x200000 * unat E" and "E \<le> 504"
  shows "idx2 va < E" and "idx2 va < 511"
proof -
  have "unat va < 0x200000 * unat E" "unat E \<le> 504" using assms by (simp_all add: word_less_nat_alt word_le_nat_alt)
  moreover from this have "unat (idx2 va) = unat va div 0x200000" by (intro unat_idx2) simp
  ultimately show "idx2 va < E" by (simp add: word_less_nat_alt less_mult_imp_div_less mult.commute)
  then show "idx2 va < 511" using assms(3) by (simp add: word_less_nat_alt word_le_nat_alt)
qed

lemma device_part:
  assumes "page_of va \<in> device_pages"
  shows "idx2 va = idx2 (page_of va)" and "idx3 va = idx3 (page_of va)"
proof -
  have "valid_va (page_of va)" "page_of (page_of va) = page_of va" using assms by (auto simp: valid_va_iff page_of_def MASK_def MASK_range_def)
  moreover have "unat va div 4096 * 4096 \<le> 0x3F215000" using assms unat_page_of [of va] by auto
  then have "valid_va va" by (simp add: valid_va_iff word_less_nat_alt)
  ultimately show "idx2 va = idx2 (page_of va)" "idx3 va = idx3 (page_of va)" using same_page_idx [of "page_of va" va] by auto
qed

text \<open>
  C10. Fork gives the child a copy of its parent's memory: when \<open>c_init_mmu\<close> has built the address space of a new
  process, every user address reads the same byte in the child as it read in the parent before, and the parent still
  reads what it read; no frame that both can reach is writable for either of them (so a later write of one of them is
  trapped and never seen by the other), while the stack pages are writable copies in two frames that were free; the
  kernel's part is the parent's; the device pages are mapped to themselves; and the counter of every shared frame
  has grown by one.
\<close>

theorem fork_copies_memory:
  assumes "fork_ready ll sys p n m"
  shows "\<exists>m'. c_init_mmu ll sys p m = Some (child_table ll p, m') \<and> pool n m' = drop 2 (pool n m) \<and>
     (\<forall>va. user_va ll va \<longrightarrow> contents (child_table ll p) m' va = contents (parent_table sys p) m va \<and>
        contents (parent_table sys p) m' va = contents (parent_table sys p) m va) \<and>
     (\<forall>va va' pa pa'. user_va ll va \<longrightarrow> user_va ll va' \<longrightarrow>
        translate (at_table (child_table ll p) m') va = Some pa \<longrightarrow> translate (at_table (parent_table sys p) m') va' = Some pa' \<longrightarrow>
        page_of pa = page_of pa' \<longrightarrow> \<not> writable (child_table ll p) m' va \<and> \<not> writable (parent_table sys p) m' va') \<and>
     (\<forall>va\<in>{STACK_PAGE_1, STACK_PAGE_2}. writable (child_table ll p) m' va) \<and>
     (\<forall>va < end_addr ll. translate (at_table (child_table ll p) m') va = translate (at_table (parent_table sys p) m) va) \<and>
     (\<forall>va. page_of va \<in> device_pages \<longrightarrow> translate (at_table (child_table ll p) m') va = Some va) \<and>
     (\<forall>va pa. user_va ll va \<longrightarrow> page_of va \<notin> {STACK_PAGE_1, STACK_PAGE_2} \<longrightarrow>
        translate (at_table (parent_table sys p) m) va = Some pa \<longrightarrow> page_of pa \<notin> device_pages \<longrightarrow>
        mem8 m' (get_bind_counter_address m (page_of pa)) = mem8 m (get_bind_counter_address m (page_of pa)) + 1)"
proof -
  define P where "P = parent_table sys p"
  define C where "C = child_table ll p"
  define E where "E = end_addr ll div 0x200000"
  note L = fork_ready_layout [OF assms, folded E_def P_def]
  obtain m' where m': "c_init_mmu ll sys p m = Some (C, m')" "pool n m' = drop 2 (pool n m)" and fs: "forked_space ll E P C m m'"
    and ptE: "\<And>k l. k < 511 \<Longrightarrow> l < 512 \<Longrightarrow> k < E \<Longrightarrow> pt (at_table C m') k l = pt (at_table P m) k l"
    and dev: "\<And>a. a \<in> device_pages \<Longrightarrow> \<exists>e. pt (at_table C m') (idx2 a) (idx3 a) = Some e \<and> frame_of e = a"
    and cnt: "\<And>va e. user_va ll va \<Longrightarrow> page_of va \<notin> {STACK_PAGE_1, STACK_PAGE_2} \<Longrightarrow> pt (at_table P m) (idx2 va) (idx3 va) = Some e \<Longrightarrow>
       frame_of e \<notin> device_pages \<Longrightarrow> mem8 m' (counter_of m e) = mem8 m (counter_of m e) + 1"
    by (rule fork_space [OF assms P_def C_def E_def]) blast
  show ?thesis
    unfolding P_def [symmetric] C_def [symmetric]
  proof (intro exI [of _ m'] conjI allI impI ballI m')
    show "contents C m' va = contents P m va" "contents P m' va = contents P m va" if "user_va ll va" for va
      using forked_contents [OF fs L(1) that] by simp_all
    show "\<not> writable C m' va" "\<not> writable P m' va'" if "user_va ll va" "user_va ll va'"
      "translate (at_table C m') va = Some pa" "translate (at_table P m') va' = Some pa'" "page_of pa = page_of pa'" for va va' pa pa'
      using forked_isolated [OF fs L(1,3) that] by auto
    show "writable C m' va" if va: "va \<in> {STACK_PAGE_1, STACK_PAGE_2}" for va
    proof -
      have "page_of va = va" "user_va ll va"
        using va L(1,2) by (auto simp: page_of_def MASK_def MASK_range_def user_va_def word_le_nat_alt)
      then obtain q where "pt (at_table C m') (idx2 va) (idx3 va) = Some (page_entry q user_attributes)"
        using fs va unfolding forked_space_def by metis
      then show ?thesis using permission_bits(2) [of q] unfolding writable_def by blast
    qed
    show "translate (at_table C m') va = translate (at_table P m) va" if "va < end_addr ll" for va
      using ptE [OF kernel_part(2) [OF that L(1,2)] idx_bound(2) kernel_part(1) [OF that L(1,2)]] by (simp add: translate_at)
    show "translate (at_table C m') va = Some va" if "page_of va \<in> device_pages" for va
      using dev [OF that] device_part [OF that] page_split [of va] by (auto simp: translate_at)
    show "mem8 m' (get_bind_counter_address m (page_of pa)) = mem8 m (get_bind_counter_address m (page_of pa)) + 1"
      if "user_va ll va" "page_of va \<notin> {STACK_PAGE_1, STACK_PAGE_2}" "translate (at_table P m) va = Some pa" "page_of pa \<notin> device_pages" for va pa
      using that cnt [OF that(1,2)] by (auto simp: translate_at page_of_sum counter_of_def)
  qed
qed

section \<open>A concrete state\<close>

text \<open>Tables that \<open>populate_lvl2_table\<close> has laid out lie in the zone of their process, and zones are disjoint.\<close>

lemma zone_unat:
  assumes "table_base L" and "x \<in> zone L"
  shows "unat L \<le> unat x" and "unat x < unat L + 0x200000"
proof -
  obtain n where n: "n < 512" "x = L + of_nat n * GRANULE" using assms(2) by (auto simp: zone_def)
  have "unat x = unat L + 4096 * n"
    using page_number(1) [OF table_base_aligned(2) [OF assms(1)], of n] assms(1) n by (simp add: table_base_def)
  then show "unat L \<le> unat x" "unat x < unat L + 0x200000" using n(1) by simp_all
qed

lemma zones_disjoint:
  assumes "table_base L" "table_base L'" "L \<noteq> L'"
  shows "zone L \<inter> zone L' = {}"
proof -
  obtain k k' where k: "unat L = 0x200000 * k" "unat L' = 0x200000 * k'" using assms(1,2) by (auto simp: table_base_def elim!: dvdE)
  then have "k \<noteq> k'" using assms(3) by (auto simp: word_unat_eq_iff)
  then have "unat L + 0x200000 \<le> unat L' \<or> unat L' + 0x200000 \<le> unat L" using k by auto
  moreover have "unat L < unat L' + 0x200000 \<and> unat L' < unat L + 0x200000" if "x \<in> zone L" "x \<in> zone L'" for x
    using zone_unat [OF assms(1) that(1)] zone_unat [OF assms(2) that(2)] by linarith
  ultimately show ?thesis by fastforce
qed

lemma zone_tables:
  assumes L: "table_base L" and t: "\<And>i. i < 511 \<Longrightarrow> lvl3_table (at_table L m) i = L + GRANULE + i * GRANULE"
  shows "tables_of L m \<subseteq> zone L" and "walk_ok (at_table L m)"
proof -
  have u: "unat (L + GRANULE + i * GRANULE) = unat L + 4096 * Suc (unat i)" "L + GRANULE + i * GRANULE \<in> zone L" if "i < 511" for i
  proof -
    have i: "unat i < 511" using that by (simp add: word_less_nat_alt)
    have eq: "L + GRANULE + i * GRANULE = L + of_nat (Suc (unat i)) * GRANULE" by (simp add: algebra_simps)
    show "unat (L + GRANULE + i * GRANULE) = unat L + 4096 * Suc (unat i)"
      unfolding eq using page_number(1) [OF table_base_aligned(2) [OF L], of "Suc (unat i)"] i L by (simp add: table_base_def)
    show "L + GRANULE + i * GRANULE \<in> zone L" unfolding eq zone_def using i by (intro imageI) simp
  qed
  have "L \<in> zone L" by (auto simp: zone_def intro!: image_eqI [of _ _ 0])
  then show "tables_of L m \<subseteq> zone L" using t u(2) by (auto simp: tables_of_def)
  show "walk_ok (at_table L m)"
    unfolding walk_ok_def at_table_simps
  proof (intro conjI allI impI)
    show "L AND MASK 16 0 = 0" by (rule table_base_aligned(1) [OF L])
    show "lvl3_table (at_table L m) i \<noteq> L" if "i < 511" for i using t [OF that] u(1) [OF that] by (auto simp: word_unat_eq_iff)
    show "i = j" if "i < 511" "j < 511" "lvl3_table (at_table L m) i = lvl3_table (at_table L m) j" for i j
      using that t [OF that(1)] t [OF that(2)] u(1) [OF that(1)] u(1) [OF that(2)] by (simp add: word_unat_eq_iff)
  qed
qed

definition fork_layout :: link_layout where
  "fork_layout = \<lparr>data_start = 0x100000, mmu_tables_start = 0x200000, physical_memory_map_addr = 0x4200000, end_addr = 0x4400000\<rparr>"

definition fork_sys :: system_state where
  "fork_sys = example_sys_table\<lparr>procs := (\<lambda>q. (procs example_sys_table q)\<lparr>parent_pid := 1,
     mem_conf := (mem_conf (procs example_sys_table q))\<lparr>ttbr0_el1 := 0x200000 + of_nat q * 0x200000\<rparr>\<rparr>)\<rparr>"

text \<open>The kernel and \<open>init\<close> have tables; \<open>init\<close> has its two stack pages, at 0x5000000 and 0x5001000.\<close>

definition fork_mmu :: mmu_state where
  "fork_mmu = example_mmu\<lparr>
     mem64 := (\<lambda>a. if a = 0x5F9FF8 then 0x5000003 else if a = 0x5F9FF0 then 0x5001003
               else if 0x200000 \<le> a \<and> a < 0x201000 then 0x201003 + (a - 0x200000) * 512
               else if 0x400000 \<le> a \<and> a < 0x401000 then 0x401003 + (a - 0x400000) * 512 else 0),
     mem32 := (\<lambda>a. if a = 0x4200000 then 0x6000000 else 0x6001000), mem8 := (\<lambda>_. 1)\<rparr>"

lemma fork_tables:
  assumes L: "L \<in> {0x200000, 0x400000}" and i: "i < 511"
  shows "lvl3_table (at_table L fork_mmu) i = L + GRANULE + i * GRANULE" and "is_table_entry (lvl2_entry (at_table L fork_mmu) i)"
proof -
  have ui: "unat i < 511" using i by (simp add: word_less_nat_alt)
  then have "unat (8 * i) = 8 * unat i" by (simp add: unat_word_ariths(2))
  then have "unat (L + 8 * i) = unat L + 8 * unat i" using ui L by (auto simp: unat_word_ariths(1))
  then have e: "lvl2_entry (at_table L fork_mmu) i = L + 0x1000 + i * 0x1000 + 3"
    using ui L by (auto simp: lvl2_entry_def AT_def fork_mmu_def word_le_nat_alt word_less_nat_alt word_unat_eq_iff [of _ "0x5F9FF8"] word_unat_eq_iff [of _ "0x5F9FF0"])
  define t where "t = L + 0x1000 + i * 0x1000"
  have u: "unat t = unat L + 4096 * Suc (unat i)" using ui L by (auto simp: t_def unat_word_ariths)
  have al: "aligned t" using L unfolding aligned_unat u by auto
  have "t + 3 = t OR 3"
    by (rule disjunctive_add_eq_or) (rule bit_word_eqI, unfold bit_and_iff bit_three, auto dest!: bit_aligned [OF al])
  then have e': "lvl2_entry (at_table L fork_mmu) i = t OR 3" by (simp add: e t_def)
  have "unat t < 2 ^ 36" using u ui L by auto
  note b = bit_less_power [OF this] bit_aligned [OF al]
  have "(t OR 3) AND MASK 47 12 = t"
    by (rule bit_word_eqI) (use b in \<open>unfold bit_and_iff bit_or_iff bit_three, fastforce\<close>)
  then show "lvl3_table (at_table L fork_mmu) i = L + GRANULE + i * GRANULE" by (simp add: lvl3_table_def e' t_def)
  show "is_table_entry (lvl2_entry (at_table L fork_mmu) i)" by (simp add: e' is_entry_bits bit_or_iff bit_three)
qed


lemma fork_views:
  "walk_ok (at_table 0x200000 fork_mmu)" "walk_ok (at_table 0x400000 fork_mmu)"
  "tables_of 0x200000 fork_mmu \<subseteq> zone 0x200000" "tables_of 0x400000 fork_mmu \<subseteq> zone 0x400000"
  "zone 0x200000 \<inter> zone 0x400000 = {}" "zone 0x200000 \<inter> zone 0x800000 = {}" "zone 0x400000 \<inter> zone 0x800000 = {}"
proof -
  have b: "table_base 0x200000" "table_base 0x400000" "table_base 0x800000" by (simp_all add: table_base_def)
  show "zone 0x200000 \<inter> zone 0x400000 = {}" "zone 0x200000 \<inter> zone 0x800000 = {}" "zone 0x400000 \<inter> zone 0x800000 = {}"
    by (rule zones_disjoint; simp add: b)+
  show "walk_ok (at_table 0x200000 fork_mmu)" "tables_of 0x200000 fork_mmu \<subseteq> zone 0x200000"
    by (rule zone_tables [OF b(1)]; rule fork_tables; simp)+
  show "walk_ok (at_table 0x400000 fork_mmu)" "tables_of 0x400000 fork_mmu \<subseteq> zone 0x400000"
    by (rule zone_tables [OF b(2)]; rule fork_tables; simp)+
qed

lemma fork_apart: "apart E {0x200000, 0x400000} fork_mmu" "(tables_of 0x200000 fork_mmu \<union> tables_of 0x400000 fork_mmu) \<inter> zone 0x800000 = {}"
proof -
  show "(tables_of 0x200000 fork_mmu \<union> tables_of 0x400000 fork_mmu) \<inter> zone 0x800000 = {}" using fork_views(3-7) by blast
  have "x \<notin> tables_of L' fork_mmu" if "x \<in> tables_of L fork_mmu" "L \<in> {0x200000, 0x400000}" "L' \<in> {0x200000, 0x400000}" "L \<noteq> L'" for x L L'
    using that fork_views(3-5) by blast
  note sep = this
  show "apart E {0x200000, 0x400000} fork_mmu"
    unfolding apart_def
  proof (intro conjI ballI impI allI)
    show "walk_ok (at_table L fork_mmu)" if "L \<in> {0x200000, 0x400000}" for L using that fork_views(1,2) by blast
    fix L L' :: u64 assume L: "L \<in> {0x200000, 0x400000}" "L' \<in> {0x200000, 0x400000}" "L \<noteq> L'"
    show "L \<notin> tables_of L' fork_mmu" by (rule sep [OF in_tables(1) L])
    show "lvl3_table (at_table L fork_mmu) i \<notin> tables_of L' fork_mmu" if "i < 511" for i by (rule sep [OF in_tables(2) [OF that] L])
  qed
qed

lemma entry_offset_inject:
  fixes i j i' j' :: nat
  assumes "j < 512" "j' < 512"
  shows "4096 * i + 8 * j = 4096 * i' + 8 * j' \<longleftrightarrow> i = i' \<and> j = j'"
  using assms by (cases i i' rule: linorder_cases) auto

lemma fork_pages:
  assumes "i < 511" "j < 512"
  shows "pt (at_table 0x400000 fork_mmu) i j = (if i = 504 \<and> j = 511 then Some 0x5000003 else if i = 504 \<and> j = 510 then Some 0x5001003 else None)"
proof -
  define a :: u64 where "a = 0x400000 + GRANULE + i * GRANULE + 8 * j"
  have u: "unat i < 511" "unat j < 512" using assms by (simp_all add: word_less_nat_alt)
  then have ua: "unat a = 0x401000 + 4096 * unat i + 8 * unat j" by (simp add: a_def unat_word_ariths)
  have "a = 0x5F9FF8 \<longleftrightarrow> i = 504 \<and> j = 511" "a = 0x5F9FF0 \<longleftrightarrow> i = 504 \<and> j = 510"
    unfolding word_unat_eq_iff ua using u entry_offset_inject [of "unat j" 511 "unat i" 504] entry_offset_inject [of "unat j" 510 "unat i" 504] by auto
  moreover have "\<not> a < 0x401000" "\<not> a < 0x201000" using ua by (simp_all add: word_less_nat_alt)
  ultimately have "AT fork_mmu a = (if i = 504 \<and> j = 511 then 0x5000003 else if i = 504 \<and> j = 510 then 0x5001003 else 0)"
    by (auto simp: AT_def fork_mmu_def)
  moreover have "is_block_entry 0x5000003 3" "is_block_entry 0x5001003 3" "\<not> is_block_entry 0 3" by (simp_all add: is_block_entry_def MASK_def MASK_range_def)
  ultimately show ?thesis using fork_tables [of "0x400000" i] assms by (simp add: pt_def a_def)
qed


lemma fork_frames: "frames 34 0x400000 fork_mmu = {0x5000000, 0x5001000}"
proof -
  have f: "frame_of 0x5000003 = 0x5000000" "frame_of 0x5001003 = 0x5001000" by (simp_all add: frame_of_def MASK_def MASK_range_def)
  have "\<exists>e. pt (at_table 0x400000 fork_mmu) i j = Some e \<and> x = frame_of e \<Longrightarrow> x \<in> {0x5000000, 0x5001000}" if "(i, j) \<in> slots 34 (505 * 512)" for i j x
    using fork_pages [of i j] that below_505 [of i] f by (auto simp: slots_def split: if_splits)
  moreover have "\<exists>i j e. (i, j) \<in> slots 34 (505 * 512) \<and> pt (at_table 0x400000 fork_mmu) i j = Some e \<and> x = frame_of e" if "x \<in> {0x5000000, 0x5001000}" for x
  proof -
    have "x = frame_of 0x5000003 \<or> x = frame_of 0x5001003" using that f by auto
    moreover have "pt (at_table 0x400000 fork_mmu) 504 511 = Some 0x5000003" "pt (at_table 0x400000 fork_mmu) 504 510 = Some 0x5001003"
      using fork_pages [of 504 511] fork_pages [of 504 510] by simp_all
    ultimately show ?thesis using stack_slots [of 34] by auto
  qed
  ultimately show ?thesis unfolding frames_def by blast
qed

lemma fork_user_frame: "x \<in> {0x5000000, 0x5001000, 0x6000000, 0x6001000} \<union> device_pages \<Longrightarrow> user_frame fork_mmu x"
  by (auto simp: user_frame_def counter_ok_def get_bind_counter_address_def fork_mmu_def example_mmu_def MASK_def MASK_range_def)

lemma fork_own_frames: "own_frames 34 0x400000 fork_mmu"
  unfolding own_frames_def fork_frames
proof (intro conjI ballI allI impI)
  show "user_frame fork_mmu f" if "f \<in> {0x5000000, 0x5001000}" for f using that by (intro fork_user_frame) auto
  fix i j k l e e' assume s: "(i, j) \<in> slots 34 (505 * 512)" "(k, l) \<in> slots 34 (505 * 512)"
    and e: "pt (at_table 0x400000 fork_mmu) i j = Some e" "pt (at_table 0x400000 fork_mmu) k l = Some e'" "frame_of e = frame_of e'"
  have "frame_of 0x5000003 = 0x5000000" "frame_of 0x5001003 = 0x5001000" by (simp_all add: frame_of_def MASK_def MASK_range_def)
  then show "(i, j) = (k, l)" using e fork_pages [of i j] fork_pages [of k l] s below_505 [of i] below_505 [of k]
    by (auto simp: slots_def split: if_splits)
qed

lemma fork_example: "parent_table fork_sys 3 = 0x400000" "child_table fork_layout 3 = 0x800000" "end_addr fork_layout div 0x200000 = 34"
  "mmu_tables_start fork_layout = 0x200000" "get_lvl2_address_from_sys_state fork_sys KERNEL_PID = 0x200000"
  "pool 2 fork_mmu = [0x6000000, 0x6001000]" "pool_wf 2 fork_mmu"
  by (simp_all add: parent_table_def child_table_def fork_layout_def fork_sys_def get_lvl2_address_from_sys_state_def get_parent_pid_def example_sys_table_def
      MASK_def MASK_range_def pool_def pool_wf_def fork_mmu_def example_mmu_def map_entry_def upt_rec)

lemma fork_example_ready: "fork_ready fork_layout fork_sys 3 2 fork_mmu"
  unfolding fork_ready_def fork_example Let_def
proof (intro conjI fork_apart fork_own_frames fork_example)
  show "layout_ok fork_layout" "end_addr fork_layout \<le> 0x3F000000" "id_paging_size fork_mmu = end_addr fork_layout"
    by (simp_all add: fork_layout_def layout_ok_def aligned_def MASK_def MASK_range_def fork_mmu_def example_mmu_def)
  show "TTBR0_EL1 fork_mmu AND MASK 47 1 = 0x200000" by (simp add: fork_mmu_def example_mmu_def MASK_def MASK_range_def)
  show "is_table_entry (lvl2_entry (at_table 0x200000 fork_mmu) 504)" using fork_tables(2) [of "0x200000" 504] by simp
  show "\<forall>a\<in>device_pages. user_frame fork_mmu a" by (intro ballI fork_user_frame) blast
  show "\<forall>j\<in>{510, 511}. \<exists>e. pt (at_table 0x400000 fork_mmu) 504 j = Some e \<and> mem8 fork_mmu (counter_of fork_mmu e) = 1"
    using fork_pages [of 504 511] fork_pages [of 504 510] by (simp add: fork_mmu_def)
  show "case [0x6000000, 0x6001000] of q1 # q2 # _ \<Rightarrow> q1 \<noteq> q2 \<and> (\<forall>q\<in>{q1, q2}. user_frame fork_mmu q \<and> q \<notin> frames 34 0x400000 fork_mmu) | _ \<Rightarrow> False"
    using fork_user_frame [of "0x6000000"] fork_user_frame [of "0x6001000"] by (simp add: fork_frames)
qed simp_all

theorem fork_copies_memory_witness:
  "fork_ready fork_layout fork_sys 3 2 fork_mmu \<and>
   (\<exists>m'. c_init_mmu fork_layout fork_sys 3 fork_mmu = Some (0x800000, m') \<and> pool 2 m' = [] \<and>
      contents 0x800000 m' 0x3F1FF123 = contents 0x400000 fork_mmu 0x3F1FF123 \<and> writable 0x800000 m' STACK_PAGE_1)"
proof -
  have "user_va fork_layout 0x3F1FF123" by (simp add: user_va_def fork_layout_def page_of_def MASK_def MASK_range_def)
  then show ?thesis using fork_copies_memory [OF fork_example_ready] fork_example_ready unfolding fork_example by auto
qed

end
