(* ===== verification/Copy_On_Write.thy ===== *)
theory Copy_On_Write
  imports Fork_Space Mmu_Faults
begin

text \<open>
  Writes to pages that processes share: \<open>handle_shared_page_write\<close> of \<^verbatim>\<open>src/src/memory/mmu.c\<close> gives the process that
  writes a copy of its own, in the sight of all other address spaces.
\<close>

section \<open>The copy\<close>









end
