(* ===== verification/Serial_Port.thy ===== *)
theory Serial_Port
  imports Console
begin

text \<open>
  The driver of the serial line, \<^verbatim>\<open>src/src/libk/uart.c\<close>, in both of its variants: the PL011 that the emulator has and the
  mini UART of the board (compiled with \<open>HARDWARE\<close>). The device is a parameter: reading a register gives a value and may change the
  state of the device, writing a register changes it. The theory \<open>Console\<close> works with the characters on
  the line; the properties here say that the driver implements its \<open>uart_putc\<close> and \<open>uart_getc\<close>.
\<close>

type_synonym ('w, 'h) reg_read = "u64 \<Rightarrow> 'h \<Rightarrow> 'w word \<times> 'h"
type_synonym ('w, 'h) reg_write = "u64 \<Rightarrow> 'w word \<Rightarrow> 'h \<Rightarrow> 'h"

section \<open>Registers\<close>

abbreviation (input) GPIO :: u64 where "GPIO \<equiv> 0x3F200000"
abbreviation (input) GPPUD :: u64 where "GPPUD \<equiv> GPIO + 0x94"
abbreviation (input) GPPUDCLK0 :: u64 where "GPPUDCLK0 \<equiv> GPIO + 0x98"
abbreviation (input) UART0_BASE :: u64 where "UART0_BASE \<equiv> GPIO + 0x1000"
abbreviation (input) UART0_DR :: u64 where "UART0_DR \<equiv> UART0_BASE + 0x00"
abbreviation (input) UART0_FR :: u64 where "UART0_FR \<equiv> UART0_BASE + 0x18"
abbreviation (input) UART0_IBRD :: u64 where "UART0_IBRD \<equiv> UART0_BASE + 0x24"
abbreviation (input) UART0_FBRD :: u64 where "UART0_FBRD \<equiv> UART0_BASE + 0x28"
abbreviation (input) UART0_LCRH :: u64 where "UART0_LCRH \<equiv> UART0_BASE + 0x2C"
abbreviation (input) UART0_CR :: u64 where "UART0_CR \<equiv> UART0_BASE + 0x30"
abbreviation (input) UART0_IFLS :: u64 where "UART0_IFLS \<equiv> UART0_BASE + 0x34"
abbreviation (input) UART0_IMSC :: u64 where "UART0_IMSC \<equiv> UART0_BASE + 0x38"
abbreviation (input) UART0_ICR :: u64 where "UART0_ICR \<equiv> UART0_BASE + 0x44"
abbreviation (input) UART0_DMACR :: u64 where "UART0_DMACR \<equiv> UART0_BASE + 0x48"

abbreviation (input) GPFSEL1 :: u64 where "GPFSEL1 \<equiv> GPIO + 0x4"
abbreviation (input) AUX_ENABLES :: u64 where "AUX_ENABLES \<equiv> GPIO + 0x15004"
abbreviation (input) AUX_MU_IO_REG :: u64 where "AUX_MU_IO_REG \<equiv> GPIO + 0x15040"
abbreviation (input) AUX_MU_IER_REG :: u64 where "AUX_MU_IER_REG \<equiv> GPIO + 0x15044"
abbreviation (input) AUX_MU_IIR_REG :: u64 where "AUX_MU_IIR_REG \<equiv> GPIO + 0x15048"
abbreviation (input) AUX_MU_LCR_REG :: u64 where "AUX_MU_LCR_REG \<equiv> GPIO + 0x1504C"
abbreviation (input) AUX_MU_MCR_REG :: u64 where "AUX_MU_MCR_REG \<equiv> GPIO + 0x15050"
abbreviation (input) AUX_MU_LSR_REG :: u64 where "AUX_MU_LSR_REG \<equiv> GPIO + 0x15054"
abbreviation (input) AUX_MU_CNTL_REG :: u64 where "AUX_MU_CNTL_REG \<equiv> GPIO + 0x15060"
abbreviation (input) AUX_MU_BAUD_REG :: u64 where "AUX_MU_BAUD_REG \<equiv> GPIO + 0x15068"

text \<open>Waiting until a bit of a register has a value.\<close>

partial_function (option) poll :: "('w::len, 'h) reg_read \<Rightarrow> u64 \<Rightarrow> nat \<Rightarrow> bool \<Rightarrow> 'h \<Rightarrow> 'h option" where
  "poll rd reg n v h = (case rd reg h of (w, h1) \<Rightarrow> if bit w n = v then Some h1 else poll rd reg n v h1)"

section \<open>The PL011\<close>

definition mmio_write :: "(64, 'h) reg_write \<Rightarrow> u64 \<Rightarrow> u64 \<Rightarrow> 'h \<Rightarrow> 'h" where
  "mmio_write wr reg data = wr reg data"

definition mmio_read :: "(64, 'h) reg_read \<Rightarrow> u64 \<Rightarrow> 'h \<Rightarrow> u64 \<times> 'h" where
  "mmio_read rd reg = rd reg"

text \<open>\<open>delay\<close> counts down a register of the processor and does not touch the device.\<close>

definition uart_init :: "(64, 'h) reg_write \<Rightarrow> 'h \<Rightarrow> 'h" where
  "uart_init wr h =
     (let h = mmio_write wr UART0_CR 0 h;
          h = mmio_write wr GPPUD 0 h;
          h = mmio_write wr GPPUDCLK0 (push_bit 14 1 OR push_bit 15 1) h;
          h = mmio_write wr GPPUDCLK0 0 h;
          h = mmio_write wr UART0_ICR 0x7FF h;
          h = mmio_write wr UART0_IBRD 1 h;
          h = mmio_write wr UART0_FBRD 40 h;
          h = mmio_write wr UART0_LCRH (push_bit 4 1 OR push_bit 5 1 OR push_bit 6 1) h;
          h = mmio_write wr UART0_IMSC (push_bit 1 1 OR push_bit 4 1 OR push_bit 5 1 OR push_bit 6 1 OR
                push_bit 7 1 OR push_bit 8 1 OR push_bit 9 1 OR push_bit 10 1) h
      in mmio_write wr UART0_CR (push_bit 0 1 OR push_bit 8 1 OR push_bit 9 1) h)"

definition uart_putc_mmio :: "(64, 'h) reg_read \<Rightarrow> (64, 'h) reg_write \<Rightarrow> u8 \<Rightarrow> 'h \<Rightarrow> 'h option" where
  "uart_putc_mmio rd wr c h =
     do { h \<leftarrow> poll (mmio_read rd) UART0_FR 5 False h;
          Some (mmio_write wr UART0_DR (ucast c) h) }"

definition uart_getc_mmio :: "(64, 'h) reg_read \<Rightarrow> 'h \<Rightarrow> (u8 \<times> 'h) option" where
  "uart_getc_mmio rd h =
     do { h \<leftarrow> poll (mmio_read rd) UART0_FR 4 False h;
          let (w, h) = mmio_read rd UART0_DR h;
          Some (ucast w, h) }"

section \<open>The mini UART\<close>

text \<open>\<open>GET32\<close> and \<open>PUT32\<close> are assembly routines.\<close>

definition uart_recv :: "(32, 'h) reg_read \<Rightarrow> 'h \<Rightarrow> (u32 \<times> 'h) option" where
  "uart_recv GET32 h =
     do { h \<leftarrow> poll GET32 AUX_MU_LSR_REG 0 True h;
          let (w, h) = GET32 AUX_MU_IO_REG h;
          Some (w AND 0xFF, h) }"

definition uart_send :: "(32, 'h) reg_read \<Rightarrow> (32, 'h) reg_write \<Rightarrow> u32 \<Rightarrow> 'h \<Rightarrow> 'h option" where
  "uart_send GET32 PUT32 c h =
     do { h \<leftarrow> poll GET32 AUX_MU_LSR_REG 5 True h;
          Some (PUT32 AUX_MU_IO_REG c h) }"

definition uart_init_hw :: "(32, 'h) reg_read \<Rightarrow> (32, 'h) reg_write \<Rightarrow> 'h \<Rightarrow> 'h" where
  "uart_init_hw GET32 PUT32 h =
     (let h = PUT32 AUX_ENABLES 1 h;
          h = PUT32 AUX_MU_IER_REG 0 h;
          h = PUT32 AUX_MU_CNTL_REG 0 h;
          h = PUT32 AUX_MU_LCR_REG 3 h;
          h = PUT32 AUX_MU_MCR_REG 0 h;
          h = PUT32 AUX_MU_IER_REG 0 h;
          h = PUT32 AUX_MU_IIR_REG 0xC6 h;
          h = PUT32 AUX_MU_BAUD_REG 270 h;
          (ra, h) = GET32 GPFSEL1 h;
          ra = ra AND NOT (push_bit 12 7);
          ra = ra OR push_bit 12 2;
          ra = ra AND NOT (push_bit 15 7);
          ra = ra OR push_bit 15 2;
          h = PUT32 GPFSEL1 ra h;
          h = PUT32 GPPUD 0 h;
          h = PUT32 GPPUDCLK0 (push_bit 14 1 OR push_bit 15 1) h;
          h = PUT32 GPPUDCLK0 0 h
      in PUT32 AUX_MU_CNTL_REG 3 h)"

definition uart_putc_hw :: "(32, 'h) reg_read \<Rightarrow> (32, 'h) reg_write \<Rightarrow> u8 \<Rightarrow> 'h \<Rightarrow> 'h option" where
  "uart_putc_hw GET32 PUT32 c = uart_send GET32 PUT32 (ucast c)"

definition uart_getc_hw :: "(32, 'h) reg_read \<Rightarrow> 'h \<Rightarrow> (u8 \<times> 'h) option" where
  "uart_getc_hw GET32 h = map_option (\<lambda>(w, h). (ucast w, h)) (uart_recv GET32 h)"

section \<open>What the devices promise\<close>

text \<open>
  A serial port with the status register \<open>st\<close> and the data register \<open>dr\<close>: \<open>line\<close> is what has been sent and what will arrive. Reading
  the status leaves the line as it is. Bit \<open>t\<close> of the status has the value \<open>tv\<close> when the port accepts a character, and bit \<open>r\<close> has the value
  \<open>rv\<close> when one has been received; a port that is not ready becomes so after \<open>wait\<close> more readings at most, for receiving only if a
  character is still to arrive. The data register takes a character, and gives the next one with flags in its upper bits.
\<close>

definition serial_port :: "('w::len, 'h) reg_read \<Rightarrow> ('w, 'h) reg_write \<Rightarrow> u64 \<Rightarrow> u64 \<Rightarrow> nat \<Rightarrow> bool \<Rightarrow> nat \<Rightarrow> bool \<Rightarrow> ('h \<Rightarrow> uart_t) \<Rightarrow> ('h \<Rightarrow> nat) \<Rightarrow> bool" where
  "serial_port rd wr st dr t tv r rv line wait \<longleftrightarrow> (\<forall>h w h1. rd st h = (w, h1) \<longrightarrow>
     line h1 = line h \<and>
     (bit w t \<noteq> tv \<or> bit w r \<noteq> rv \<and> arriving (line h) \<noteq> [] \<longrightarrow> wait h1 < wait h) \<and>
     (bit w t = tv \<longrightarrow> (\<forall>c. line (wr dr (ucast c) h1) = (line h)\<lparr>sent := sent (line h) @ [c]\<rparr>)) \<and>
     (bit w r = rv \<longrightarrow> (\<exists>c cs. arriving (line h) = c # cs \<and>
        (\<forall>w h2. rd dr h1 = (w, h2) \<longrightarrow> ucast w = c \<and> line h2 = (line h)\<lparr>arriving := cs\<rparr>))))"

lemma serial_portD:
  assumes "serial_port rd wr st dr t tv r rv line wait" and "rd st h = (w, h1)"
  shows "line h1 = line h" and "bit w t \<noteq> tv \<or> bit w r \<noteq> rv \<and> arriving (line h) \<noteq> [] \<Longrightarrow> wait h1 < wait h"
    and "bit w t = tv \<Longrightarrow> line (wr dr (ucast c) h1) = (line h)\<lparr>sent := sent (line h) @ [c]\<rparr>"
    and "bit w r = rv \<Longrightarrow> arriving (line h) = c # cs \<Longrightarrow> rd dr h1 = (w', h2) \<Longrightarrow> ucast w' = c \<and> line h2 = (line h)\<lparr>arriving := cs\<rparr>"
  using assms(1) [unfolded serial_port_def, rule_format, OF assms(2)] by auto

lemma poll_ends:
  assumes "\<And>h w h1. rd st h = (w, h1) \<Longrightarrow> P h \<Longrightarrow> P h1 \<and> line h1 = line h \<and> (bit w n \<noteq> v \<longrightarrow> wait h1 < (wait h :: nat))" and "P h"
  shows "\<exists>h0 w h1. poll rd st n v h = Some h1 \<and> rd st h0 = (w, h1) \<and> bit w n = v \<and> line h0 = line h \<and> P h0"
  using assms(2)
proof (induction "wait h" arbitrary: h rule: less_induct)
  case less
  obtain w h1 where r: "rd st h = (w, h1)" by fastforce
  note step = assms(1) [OF r less.prems]
  show ?case
  proof (cases "bit w n = v")
    case True
    then show ?thesis using r less.prems by (subst poll.simps) auto
  next
    case False
    then have "poll rd st n v h = poll rd st n v h1" by (subst poll.simps) (simp add: r)
    then show ?thesis using less.hyps [of h1] step False by auto
  qed
qed

lemma port_send:
  assumes "serial_port rd wr st dr t tv r rv line wait"
  shows "\<exists>h1. poll rd st t tv h = Some h1 \<and> line (wr dr (ucast c) h1) = (line h)\<lparr>sent := sent (line h) @ [c]\<rparr>"
proof -
  obtain h0 w h1 where "poll rd st t tv h = Some h1" "rd st h0 = (w, h1)" "bit w t = tv" "line h0 = line h"
    using poll_ends [of rd st "\<lambda>_. True" line t tv wait h] serial_portD(1,2) [OF assms] by blast
  then show ?thesis using serial_portD(3) [OF assms, of h0 w h1 c] by auto
qed

lemma port_receive:
  assumes "serial_port rd wr st dr t tv r rv line wait" and "arriving (line h) = c # cs"
  shows "\<exists>h1. poll rd st r rv h = Some h1 \<and> (\<forall>w h2. rd dr h1 = (w, h2) \<longrightarrow> ucast w = c \<and> line h2 = (line h)\<lparr>arriving := cs\<rparr>)"
proof -
  obtain h0 w h1 where "poll rd st r rv h = Some h1" "rd st h0 = (w, h1)" "bit w r = rv" "line h0 = line h"
    using poll_ends [of rd st "\<lambda>h. arriving (line h) = c # cs" line r rv wait h] serial_portD(1,2) [OF assms(1)] assms(2) by (metis list.distinct(1))
  then show ?thesis using serial_portD(4) [OF assms(1), of h0 w h1 c cs] assms(2) by auto
qed

section \<open>Properties\<close>

text \<open>
  C38. The driver of the PL011 implements the console: on a port that keeps accepting characters, \<open>uart_putc\<close> returns and has sent its
  character behind all others; when a character is still to arrive, \<open>uart_getc\<close> returns the next one and takes it
  from the line. Nothing else changes on the line.
\<close>

theorem serial_line_refines:
  assumes "serial_port rd wr UART0_FR UART0_DR 5 False 4 False line wait"
  shows "(\<exists>h'. uart_putc_mmio rd wr c h = Some h' \<and> line h' = device (uart_putc c \<lparr>con_mem = m, device = line h\<rparr>)) \<and>
    (\<forall>d s'. uart_getc \<lparr>con_mem = m, device = line h\<rparr> = Some (d, s') \<longrightarrow> (\<exists>h'. uart_getc_mmio rd h = Some (d, h') \<and> line h' = device s'))"
proof (intro conjI allI impI)
  have [simp]: "mmio_read rd = rd" "mmio_write wr = wr" by (simp_all add: fun_eq_iff mmio_read_def mmio_write_def)
  show "\<exists>h'. uart_putc_mmio rd wr c h = Some h' \<and> line h' = device (uart_putc c \<lparr>con_mem = m, device = line h\<rparr>)"
    using port_send [OF assms, of h c] by (auto simp: uart_putc_mmio_def uart_putc_def)
  fix d s' assume "uart_getc \<lparr>con_mem = m, device = line h\<rparr> = Some (d, s')"
  then obtain cs where "arriving (line h) = d # cs" "device s' = (line h)\<lparr>arriving := cs\<rparr>" by (auto simp: uart_getc_def split: list.splits)
  then show "\<exists>h'. uart_getc_mmio rd h = Some (d, h') \<and> line h' = device s'"
    using port_receive [OF assms, of h d cs] by (auto simp: uart_getc_mmio_def split: prod.splits)
qed

text \<open>A port that needs two readings of its status after every character.\<close>

definition slow_read :: "(64, uart_t \<times> nat) reg_read" where
  "slow_read reg = (\<lambda>(l, n).
     if reg = UART0_FR then if n > 0 then (0x30, (l, n - 1)) else (if arriving l = [] then 0x10 else 0, (l, n))
     else if reg = UART0_DR then (case arriving l of [] \<Rightarrow> (0, (l, n)) | c # cs \<Rightarrow> (ucast c, (l\<lparr>arriving := cs\<rparr>, 2)))
     else (0, (l, n)))"

definition slow_write :: "(64, uart_t \<times> nat) reg_write" where
  "slow_write reg w = (\<lambda>(l, n). if reg = UART0_DR then (l\<lparr>sent := sent l @ [ucast w]\<rparr>, 2) else (l, n))"

lemma slow_port: "serial_port slow_read slow_write UART0_FR UART0_DR 5 False 4 False fst snd"
proof -
  have [simp]: "ucast (ucast c :: u64) = c" for c :: u8 by (rule bit_word_eqI) (simp add: bit_simps)
  have "bit (0x30 :: u64) 5" "bit (0x30 :: u64) 4" "bit (0x10 :: u64) 4" "\<not> bit (0x10 :: u64) 5" by simp_all
  then show ?thesis
    unfolding serial_port_def by (auto simp: slow_read_def slow_write_def split: if_splits list.splits)
qed

theorem serial_line_refines_witness:
  "\<exists>h'. uart_putc_mmio slow_read slow_write 65 (\<lparr>sent = [], arriving = [66]\<rparr>, 1) = Some h' \<and> fst h' = \<lparr>sent = [65], arriving = [66]\<rparr> \<and>
     (\<exists>h''. uart_getc_mmio slow_read h' = Some (66, h'') \<and> fst h'' = \<lparr>sent = [65], arriving = []\<rparr>)"
proof -
  let ?con = "\<lambda>l. \<lparr>con_mem = (\<lambda>_. 0), device = l\<rparr>"
  obtain h' where h': "uart_putc_mmio slow_read slow_write 65 (\<lparr>sent = [], arriving = [66]\<rparr>, 1) = Some h'" "fst h' = \<lparr>sent = [65], arriving = [66]\<rparr>"
    using serial_line_refines [OF slow_port, of 65 "(\<lparr>sent = [], arriving = [66]\<rparr>, 1)" "\<lambda>_. 0"] by (auto simp: uart_putc_def)
  have "uart_getc (?con (fst h')) = Some (66, ?con \<lparr>sent = [65], arriving = []\<rparr>)" by (simp add: uart_getc_def h'(2))
  then obtain h'' where "uart_getc_mmio slow_read h' = Some (66, h'')" "fst h'' = \<lparr>sent = [65], arriving = []\<rparr>"
    using serial_line_refines [OF slow_port, of 65 h' "\<lambda>_. 0"] by fastforce
  then show ?thesis using h' by blast
qed

text \<open>The mini UART has the flags of its status the other way round.\<close>

theorem mini_uart_refines:
  assumes "serial_port rd wr AUX_MU_LSR_REG AUX_MU_IO_REG 5 True 0 True line wait"
  shows "(\<exists>h'. uart_putc_hw rd wr c h = Some h' \<and> line h' = device (uart_putc c \<lparr>con_mem = m, device = line h\<rparr>)) \<and>
    (\<forall>d s'. uart_getc \<lparr>con_mem = m, device = line h\<rparr> = Some (d, s') \<longrightarrow> (\<exists>h'. uart_getc_hw rd h = Some (d, h') \<and> line h' = device s'))"
proof (intro conjI allI impI)
  show "\<exists>h'. uart_putc_hw rd wr c h = Some h' \<and> line h' = device (uart_putc c \<lparr>con_mem = m, device = line h\<rparr>)"
    using port_send [OF assms, of h c] by (auto simp: uart_putc_hw_def uart_send_def uart_putc_def)
  fix d s' assume "uart_getc \<lparr>con_mem = m, device = line h\<rparr> = Some (d, s')"
  then obtain cs where "arriving (line h) = d # cs" "device s' = (line h)\<lparr>arriving := cs\<rparr>" by (auto simp: uart_getc_def split: list.splits)
  moreover have low: "(0xFF :: u32) = mask 8" by (simp add: mask_eq_exp_minus_1)
  moreover have "ucast (w AND 0xFF :: u32) = (ucast w :: u8)" for w
    unfolding low by (rule bit_word_eqI) (simp add: bit_simps)
  ultimately show "\<exists>h'. uart_getc_hw rd h = Some (d, h') \<and> line h' = device s'"
    using port_receive [OF assms, of h d cs] by (auto simp: uart_getc_hw_def uart_recv_def split: prod.splits)
qed

end
