(* ===== verification/Block_List.thy ===== *)
theory Block_List
  imports Alloc
begin

text \<open>
  The structure of the heap of \<^verbatim>\<open>src/src/memory/alloc.c\<close>: headers and payloads tile the heap without
  gaps (\<open>tiled\<close>), the headers form a doubly linked list in address order (\<open>linked\<close>), and an
  operation that writes into headers only (\<open>headers_only\<close>) changes no payload. \<open>split_block_spec\<close> and
  \<open>merge_block_spec\<close> say what the two operations on the list do to it.
\<close>

section \<open>Fields of headers in memory\<close>

definition hdr_ok :: "u64 \<Rightarrow> bool" where
  "hdr_ok b \<longleftrightarrow> unat b + 32 \<le> 2 ^ 64"

definition apart :: "u64 \<Rightarrow> u64 \<Rightarrow> bool" where
  "apart b c \<longleftrightarrow> unat b + 32 \<le> unat c \<or> unat c + 32 \<le> unat b"

lemma hdr_fields:
  assumes "hdr_ok b"
  shows "unat (b + 8) = unat b + 8" "unat (b + 16) = unat b + 16" "unat (b + 24) = unat b + 24"
  using assms by (simp_all add: hdr_ok_def unat_word_ariths)

lemma apart_irrefl [simp]: "\<not> apart b b" by (simp add: apart_def)

lemma block_at_poke_other:
  assumes "hdr_ok b" and "hdr_ok c" and "apart b c"
  shows "block_at (poke 8 c v s) b = block_at s b" "block_at (poke 8 (c + 8) v s) b = block_at s b"
    "block_at (poke 8 (c + 16) v s) b = block_at s b" "block_at (poke 4 (c + 24) v s) b = block_at s b"
  using assms by (auto simp: block_at_def poke_def hdr_fields load_store_other hdr_ok_def apart_def)

lemma block_at_poke_same:
  assumes "hdr_ok b"
  shows "block_at (poke 8 b v s) b = (block_at s b)\<lparr>ab_size := v\<rparr>"
    "block_at (poke 8 (b + 8) v s) b = (block_at s b)\<lparr>ab_next := v\<rparr>"
    "block_at (poke 8 (b + 16) v s) b = (block_at s b)\<lparr>ab_prev := v\<rparr>"
    "block_at (poke 4 (b + 24) v s) b = (block_at s b)\<lparr>ab_free := ucast v\<rparr>"
proof -
  have "ucast (take_bit 32 v) = (ucast v :: u32)" by (simp add: unsigned_take_bit_eq take_bit_word_eq_self)
  then show "block_at (poke 4 (b + 24) v s) b = (block_at s b)\<lparr>ab_free := ucast v\<rparr>"
    using assms by (auto simp: block_at_def poke_def hdr_fields load_store_other load_store_same hdr_ok_def)
qed (use assms in \<open>auto simp: block_at_def poke_def hdr_fields load_store_other load_store_same hdr_ok_def take_bit_word_eq_self\<close>)


section \<open>The list of blocks\<close>

text \<open>A block: the address of its header, the size of its payload, and whether it is free.\<close>

type_synonym blk = "u64 \<times> u64 \<times> bool"

fun tiled :: "nat \<Rightarrow> blk list \<Rightarrow> nat \<Rightarrow> bool" where
  "tiled a [] e \<longleftrightarrow> a = e"
| "tiled a ((x, n, f) # bs) e \<longleftrightarrow> unat x = a \<and> tiled (a + 32 + unat n) bs e"

definition nxt :: "blk list \<Rightarrow> u64 \<Rightarrow> u64" where
  "nxt bs q = (if bs = [] then q else fst (hd bs))"

definition prv :: "u64 \<Rightarrow> blk list \<Rightarrow> u64" where
  "prv p bs = (if bs = [] then p else fst (last bs))"

fun linked :: "alloc_state \<Rightarrow> u64 \<Rightarrow> blk list \<Rightarrow> u64 \<Rightarrow> bool" where
  "linked s p [] q \<longleftrightarrow> True"
| "linked s p ((x, n, f) # bs) q \<longleftrightarrow> ab_size (block_at s x) = n \<and> ab_prev (block_at s x) = p \<and>
     (ab_free (block_at s x) \<noteq> 0) = f \<and> ab_next (block_at s x) = nxt bs q \<and> linked s x bs q"

lemma tiled_le: "tiled a bs e \<Longrightarrow> a \<le> e"
  by (induction a bs e rule: tiled.induct) auto

lemma tiled_append: "tiled a (xs @ ys) e \<longleftrightarrow> (\<exists>m. tiled a xs m \<and> tiled m ys e)"
  by (induction a xs e rule: tiled.induct) auto

lemma tiled_mem: "tiled a bs e \<Longrightarrow> (x, n, f) \<in> set bs \<Longrightarrow> a \<le> unat x \<and> unat x + 32 + unat n \<le> e"
  by (induction a bs e rule: tiled.induct) (auto dest: tiled_le)

lemma tiled_mid:
  assumes "tiled a (xs @ (x, n, f) # ys) e"
  shows "(y, k, g) \<in> set xs \<Longrightarrow> unat y + 32 + unat k \<le> unat x"
    and "(y, k, g) \<in> set ys \<Longrightarrow> unat x + 32 + unat n \<le> unat y"
    and "unat x + 32 + unat n \<le> e" and "a \<le> unat x"
    and "tiled a xs (unat x)" "tiled (unat x + 32 + unat n) ys e"
proof -
  from assms show t: "tiled a xs (unat x)" "tiled (unat x + 32 + unat n) ys e"
    by (auto simp: tiled_append)
  from t show "(y, k, g) \<in> set xs \<Longrightarrow> unat y + 32 + unat k \<le> unat x"
    "(y, k, g) \<in> set ys \<Longrightarrow> unat x + 32 + unat n \<le> unat y"
    by (blast dest: tiled_mem)+
  from t show "unat x + 32 + unat n \<le> e" "a \<le> unat x" by (blast dest: tiled_le)+
qed

lemma prv_Cons [simp]: "prv p ((x, n, f) # bs) = prv x bs" "prv p [] = p"
  by (simp_all add: prv_def)

lemma nxt_Cons [simp]: "nxt [] q = q" "nxt ((x, n, f) # bs) q = x"
  by (simp_all add: nxt_def)

lemma nxt_append: "nxt (xs @ ys) q = nxt xs (nxt ys q)"
  by (simp add: nxt_def)

lemma prv_append: "prv p (xs @ ys) = prv (prv p xs) ys"
  by (simp add: prv_def)

lemma linked_append: "linked s p (xs @ ys) q \<longleftrightarrow> linked s p xs (nxt ys q) \<and> linked s (prv p xs) ys q"
proof (induction xs arbitrary: p)
  case (Cons b xs)
  obtain x n f where "b = (x, n, f)" by (cases b)
  then show ?case by (simp add: Cons.IH nxt_append)
qed simp

lemma linked_cong:
  assumes "\<And>b. b \<in> set bs \<Longrightarrow> block_at s' (fst b) = block_at s (fst b)"
  shows "linked s' p bs q = linked s p bs q"
  using assms
proof (induction bs arbitrary: p)
  case (Cons b bs)
  obtain x n f where b: "b = (x, n, f)" by (cases b)
  have "block_at s' x = block_at s x" using Cons.prems [of b] by (simp add: b)
  moreover have "linked s' x bs q = linked s x bs q" by (rule Cons.IH) (simp add: Cons.prems)
  ultimately show ?case by (simp add: b)
qed simp


definition in_header :: "blk list \<Rightarrow> u64 \<Rightarrow> bool" where
  "in_header bs y \<longleftrightarrow> (\<exists>b\<in>set bs. span (fst b) 32 y)"

definition headers_only :: "alloc_state \<Rightarrow> alloc_state \<Rightarrow> blk list \<Rightarrow> bool" where
  "headers_only s s' bs \<longleftrightarrow> s' = s\<lparr>heap := heap s'\<rparr> \<and> (\<forall>y. \<not> in_header bs y \<longrightarrow> heap s' y = heap s y)"

lemma headers_only_refl [simp]: "headers_only s s bs"
  by (simp add: headers_only_def)

lemma headers_only_poke:
  assumes "headers_only s s' bs" and "b \<in> set bs" and "hdr_ok (fst b)" and "a - fst b \<in> {0, 8, 16} \<and> k = 8 \<or> a = fst b + 24 \<and> k = 4"
  shows "headers_only s (poke k a v s') bs"
proof -
  have "unat a + k \<le> unat (fst b) + 32" "unat (fst b) \<le> unat a"
    using assms(3,4) hdr_fields [OF assms(3)] by (auto simp: algebra_simps diff_eq_eq)
  moreover from this have "unat a + k \<le> 2 ^ 64" using assms(3) by (simp add: hdr_ok_def)
  ultimately have "heap (poke k a v s') y = heap s' y" if "\<not> in_header bs y" for y
    using that assms(2) store_outside [of a k y v "heap s'"] by (force simp: poke_def in_header_def span_def)
  moreover have "poke k a v s' = s\<lparr>heap := heap (poke k a v s')\<rparr>"
    using assms(1) by (cases s; cases s') (auto simp: headers_only_def poke_def)
  ultimately show ?thesis using assms(1) unfolding headers_only_def by metis
qed

lemma headers_only_set:
  assumes "x \<in> fst ` set bs" and "hdr_ok x" and "headers_only s s' bs"
  shows "headers_only s (set_size x v s') bs" "headers_only s (set_next x v s') bs"
    "headers_only s (set_prev x v s') bs" "headers_only s (set_free x v s') bs"
  using assms by (auto intro!: headers_only_poke [OF assms(3)])

lemma payload_no_header:
  assumes "tiled a bs e" and "(x, n, f) \<in> set bs" and "e \<le> 2 ^ 63" and "span (x + 32) (unat n) y"
  shows "\<not> in_header bs y"
proof
  assume "in_header bs y"
  then obtain z k g where z: "(z, k, g) \<in> set bs" "span z 32 y" by (auto simp: in_header_def)
  obtain xs ys where bs: "bs = xs @ (x, n, f) # ys" using assms(2) by (auto simp: in_set_conv_decomp)
  have x: "unat (x + 32) = unat x + 32" using tiled_mem [OF assms(1,2)] assms(3) by (simp add: unat_word_ariths)
  consider "z = x" | "(z, k, g) \<in> set xs" | "(z, k, g) \<in> set ys" using z bs by auto
  then show False
    using tiled_mid(1,2) [OF assms(1) [unfolded bs], of z k g] assms(4) z x by cases (auto simp: span_def)
qed


lemma linked_tail:
  assumes "linked s x ys q" and "\<And>b. b \<in> set (tl ys) \<Longrightarrow> block_at s' (fst b) = block_at s (fst b)"
    and "ys \<noteq> [] \<Longrightarrow> block_at s' (nxt ys q) = (block_at s (nxt ys q))\<lparr>ab_prev := z\<rparr>"
  shows "linked s' z ys q"
proof (cases ys)
  case (Cons b zs)
  obtain y n f where b: "b = (y, n, f)" by (cases b)
  have "linked s' y zs q = linked s y zs q" by (rule linked_cong) (use assms(2) Cons in simp)
  then show ?thesis using assms(1,3) by (simp add: Cons b)
qed simp

text \<open>A well-formed list of blocks, seen from its block at \<open>x\<close>.\<close>

definition block_here :: "nat \<Rightarrow> blk list \<Rightarrow> u64 \<Rightarrow> u64 \<Rightarrow> bool \<Rightarrow> blk list \<Rightarrow> nat \<Rightarrow> alloc_state \<Rightarrow> bool" where
  "block_here a xs x k f ys e s \<longleftrightarrow> tiled a (xs @ (x, k, f) # ys) e \<and> 0 < a \<and> e \<le> 2 ^ 63 \<and>
     linked s 0 (xs @ (x, k, f) # ys) 0"

lemma block_here_fields:
  assumes "block_here a xs x k f ys e s"
  shows "ab_size (block_at s x) = k" "ab_next (block_at s x) = nxt ys 0" "ab_prev (block_at s x) = prv 0 xs"
    "(ab_free (block_at s x) \<noteq> 0) = f" "linked s 0 xs x" "linked s x ys 0"
  using assms by (auto simp: block_here_def linked_append)

lemma block_here_hdr:
  assumes "block_here a xs x k f ys e s"
  shows "hdr_ok x" "x \<noteq> 0" "b \<in> set xs \<Longrightarrow> hdr_ok (fst b)" "b \<in> set ys \<Longrightarrow> hdr_ok (fst b)"
    "nxt ys 0 = 0 \<longleftrightarrow> ys = []" "ys \<noteq> [] \<Longrightarrow> hdr_ok (nxt ys 0)"
proof -
  have m: "hdr_ok (fst b) \<and> fst b \<noteq> 0" if "b \<in> set (xs @ (x, k, f) # ys)" for b
    using assms tiled_mem [of a _ e "fst b" "fst (snd b)" "snd (snd b)", OF _] that
    by (auto simp: hdr_ok_def block_here_def simp flip: unat_eq_0) force+
  from m [of "(x, k, f)"] show "hdr_ok x" "x \<noteq> 0" by auto
  from m [of b] show "b \<in> set xs \<Longrightarrow> hdr_ok (fst b)" "b \<in> set ys \<Longrightarrow> hdr_ok (fst b)" by auto
  from m [of "hd ys"] show "nxt ys 0 = 0 \<longleftrightarrow> ys = []" "ys \<noteq> [] \<Longrightarrow> hdr_ok (nxt ys 0)" by (auto simp: nxt_def)
qed

lemma block_here_order:
  assumes "block_here a xs x k f ys e s"
  shows "b \<in> set xs \<Longrightarrow> unat (fst b) + 32 + unat (fst (snd b)) \<le> unat x"
    and "b \<in> set ys \<Longrightarrow> unat x + 32 + unat k \<le> unat (fst b)"
    and "unat x + 32 + unat k \<le> 2 ^ 63"
    and "b \<in> set (tl ys) \<Longrightarrow> unat (nxt ys 0) + 32 \<le> unat (fst b)"
    and "ys \<noteq> [] \<Longrightarrow> unat (nxt ys 0) = unat x + 32 + unat k"
proof -
  have tile: "tiled a (xs @ (x, k, f) # ys) e" and e: "e \<le> 2 ^ 63" using assms by (auto simp: block_here_def)
  show "b \<in> set xs \<Longrightarrow> unat (fst b) + 32 + unat (fst (snd b)) \<le> unat x"
    "b \<in> set ys \<Longrightarrow> unat x + 32 + unat k \<le> unat (fst b)"
    using tiled_mid(1,2) [OF tile, of "fst b" "fst (snd b)" "snd (snd b)"] by auto
  show "unat x + 32 + unat k \<le> 2 ^ 63" using tiled_mid(3) [OF tile] e by simp
  show "ys \<noteq> [] \<Longrightarrow> unat (nxt ys 0) = unat x + 32 + unat k"
    using tiled_mid(6) [OF tile] by (cases ys) auto
  show "unat (nxt ys 0) + 32 \<le> unat (fst b)" if b: "b \<in> set (tl ys)"
  proof -
    obtain y n g zs where ys: "ys = (y, n, g) # zs" using b by (cases ys) auto
    have "tiled (unat x + 32 + unat k) ([] @ (y, n, g) # zs) e" using tiled_mid(6) [OF tile] ys by simp
    from tiled_mid(2) [OF this, of "fst b" "fst (snd b)" "snd (snd b)"] b ys show ?thesis by auto
  qed
qed

text \<open>How the list reads after the headers from \<open>x\<close> on and the \<open>prev\<close> field of their successor changed.\<close>

lemma linked_replace:
  assumes "linked s 0 xs x" and "linked s w zs 0"
    and "\<And>b. b \<in> set xs \<Longrightarrow> block_at s' (fst b) = block_at s (fst b)"
    and "\<And>b. b \<in> set (tl zs) \<Longrightarrow> block_at s' (fst b) = block_at s (fst b)"
    and "zs \<noteq> [] \<Longrightarrow> block_at s' (nxt zs 0) = (block_at s (nxt zs 0))\<lparr>ab_prev := prv (prv 0 xs) ms\<rparr>"
    and "ms \<noteq> []" and "nxt ms 0 = x" and "linked s' (prv 0 xs) ms (nxt zs 0)"
  shows "linked s' 0 (xs @ ms @ zs) 0"
proof -
  have "linked s' 0 xs x = linked s 0 xs x" by (rule linked_cong) (rule assms(3))
  moreover have "nxt (ms @ zs) 0 = x" using assms(6,7) by (simp add: nxt_def)
  moreover have "linked s' (prv (prv 0 xs) ms) zs 0" using assms(2,4,5) by (rule linked_tail)
  ultimately show ?thesis using assms(1,8) by (simp add: linked_append)
qed


section \<open>Splitting and merging\<close>

definition carve :: "u64 \<Rightarrow> u64 \<Rightarrow> u64 \<Rightarrow> bool \<Rightarrow> blk list" where
  "carve n x k f = (if unat n + 32 < unat k then [(x, n, f), (x + 32 + n, k - n - 32, True)] else [(x, k, f)])"

lemma carve_simps [simp]: "carve n x k f \<noteq> []" "nxt (carve n x k f) q = x"
  by (simp_all add: carve_def)

lemma split_block_spec:
  assumes h: "block_here a xs x k f ys e s" and nk: "n \<le> k"
  shows "\<exists>s'. split_block x n s = Some s' \<and> linked s' 0 (xs @ carve n x k f @ ys) 0 \<and>
     tiled a (xs @ carve n x k f @ ys) e \<and> headers_only s s' (xs @ carve n x k f @ ys)"
proof -
  note fld = block_here_fields [OF h] and hdr = block_here_hdr [OF h] and ord = block_here_order [OF h]
  have un: "unat n \<le> unat k" using nk by (simp add: word_le_nat_alt)
  have tile: "tiled a (xs @ (x, k, f) # ys) e" using h by (simp add: block_here_def)
  have n32: "unat (n + 32) = unat n + 32" using ord(3) un by (simp add: unat_word_ariths)
  show ?thesis
  proof (cases "unat n + 32 < unat k")
    case False
    then have "split_block x n s = Some s"
      using nk fld(1) by (simp add: split_block_def word_less_nat_alt n32)
    then show ?thesis using h False by (simp add: carve_def block_here_def)
  next
    case True
    define new where "new = x + 32 + n"
    define m where "m = k - n - 32"
    have new: "unat new = unat x + 32 + unat n" using ord(3) un True unfolding new_def by (simp add: unat_word_ariths)
    have m: "unat m = unat k - unat n - 32" using True nk unfolding m_def by (simp add: unat_sub word_le_nat_alt)
    have cv: "carve n x k f = [(x, n, f), (new, m, True)]" using True by (simp add: carve_def new_def m_def)
    have hn: "hdr_ok new" using new ord(3) True by (simp add: hdr_ok_def)
    have ap: "apart x new" "apart new x" using new by (auto simp: apart_def)
    have app: "apart (fst b) x" "apart (fst b) new" if "b \<in> set xs" for b
      using ord(1) [OF that] new by (auto simp: apart_def)
    have aps: "apart (fst b) x" "apart (fst b) new" if "b \<in> set ys" for b
      using ord(2) [OF that] new True by (auto simp: apart_def)
    define t where "t = set_next x new (set_next new (nxt ys 0) (set_prev new x (set_size x n (set_size new m (set_free new 1 s)))))"
    have tx: "block_at t x = (block_at s x)\<lparr>ab_size := n, ab_next := new\<rparr>"
      using hdr(1) hn ap by (simp add: t_def block_at_poke_same block_at_poke_other)
    have tn: "block_at t new = \<lparr>ab_size = m, ab_next = nxt ys 0, ab_prev = x, ab_free = 1\<rparr>"
      using hdr(1) hn ap by (simp add: t_def block_at_poke_same block_at_poke_other)
    have tb: "block_at t b = block_at s b" if "hdr_ok b" "apart b x" "apart b new" for b
      using hdr(1) hn that by (simp add: t_def block_at_poke_other)
    define s' where "s' = (if nxt ys 0 \<noteq> 0 then set_prev (nxt ys 0) new t else t)"
    have "split_block x n s = Some s'"
      using nk True fld(1,2) hdr(1) hn ap tn
      by (simp add: split_block_def word_less_nat_alt n32 Let_def s'_def t_def block_at_poke_same block_at_poke_other
            flip: new_def m_def)
    have hd: "nxt ys 0 = fst (hd ys)" "hd ys \<in> set ys" if "ys \<noteq> []" using that by (simp_all add: nxt_def)
    have s'b: "block_at s' b = block_at s b"
      if "hdr_ok b" "apart b x" "apart b new" "ys \<noteq> [] \<Longrightarrow> apart b (nxt ys 0)" for b
      using that tb hdr(5,6) by (auto simp: s'_def block_at_poke_other)
    have s'y: "block_at s' (nxt ys 0) = (block_at s (nxt ys 0))\<lparr>ab_prev := new\<rparr>" if "ys \<noteq> []"
      using that hdr(5,6) tb [of "nxt ys 0"] aps [of "hd ys"] hd by (simp add: s'_def block_at_poke_same)
    have s'x: "block_at s' x = block_at t x" "block_at s' new = block_at t new"
      using hdr(1,5,6) hn aps [of "hd ys"] hd by (auto simp: s'_def block_at_poke_other apart_def)
    have "linked s' 0 (xs @ [(x, n, f), (new, m, True)] @ ys) 0"
    proof (rule linked_replace [OF fld(5,6)])
      show "linked s' (prv 0 xs) [(x, n, f), (new, m, True)] (nxt ys 0)" using fld(3,4) by (simp add: s'x tx tn)
      show "block_at s' (fst b) = block_at s (fst b)" if "b \<in> set xs" for b
        using app [OF that] hdr(3) [OF that] ord(1) [OF that] ord(5) by (intro s'b) (auto simp: apart_def)
      show "block_at s' (fst b) = block_at s (fst b)" if "b \<in> set (tl ys)" for b
      proof -
        have "b \<in> set ys" using that by (cases ys) auto
        then show ?thesis using aps [of b] hdr(4) [of b] ord(4) [OF that] by (intro s'b) (auto simp: apart_def)
      qed
    qed (use s'y in simp_all)
    moreover have "tiled a (xs @ [(x, n, f), (new, m, True)] @ ys) e"
      using tile new m True by (auto simp: tiled_append add.commute add.left_commute)
    moreover have "headers_only s s' (xs @ [(x, n, f), (new, m, True)] @ ys)"
    proof -
      have "headers_only s t (xs @ [(x, n, f), (new, m, True)] @ ys)"
        using hdr(1) hn by (simp add: t_def headers_only_set)
      then show ?thesis using hdr(5,6) hd by (auto simp: s'_def intro!: headers_only_set)
    qed
    ultimately show ?thesis using \<open>split_block x n s = Some s'\<close> by (simp add: cv)
  qed
qed


lemma merge_block_spec:
  assumes h: "block_here a xs x k f ((y, j, True) # zs) e s"
  shows "\<exists>s'. merge_block x s = Some s' \<and> linked s' 0 (xs @ (x, k + 32 + j, f) # zs) 0 \<and>
     tiled a (xs @ (x, k + 32 + j, f) # zs) e \<and> headers_only s s' (xs @ (x, k, f) # (y, j, True) # zs)"
proof -
  note fld = block_here_fields [OF h] and hdr = block_here_hdr [OF h] and ord = block_here_order [OF h]
  have h': "block_here a (xs @ [(x, k, f)]) y j True zs e s" using h by (simp add: block_here_def)
  note fld' = block_here_fields [OF h'] and hdr' = block_here_hdr [OF h'] and ord' = block_here_order [OF h']
  have tile: "tiled a (xs @ (x, k, f) # (y, j, True) # zs) e" using h by (simp add: block_here_def)
  have hy: "hdr_ok y" by (rule hdr'(1))
  have y: "unat y = unat x + 32 + unat k" using ord(5) by simp
  have sum: "unat (k + (32 + j)) = unat k + 32 + unat j" using ord'(3) y by (simp add: unat_word_ariths)
  have ap: "apart x y" "apart y x" using y by (auto simp: apart_def)
  have app: "apart (fst b) x" if "b \<in> set xs" for b using ord(1) [OF that] by (auto simp: apart_def)
  have aps: "apart (fst b) x" if "b \<in> set zs" for b using ord'(2) [OF that] y by (auto simp: apart_def)
  have hd: "nxt zs 0 = fst (hd zs)" "hd zs \<in> set zs" if "zs \<noteq> []" using that by (simp_all add: nxt_def)
  have apz: "apart x (nxt zs 0)" "apart y (nxt zs 0)" if "zs \<noteq> []" using that ord'(5) y by (auto simp: apart_def)
  define t where "t = set_size x (k + (32 + j)) s"
  define u where "u = (if nxt zs 0 \<noteq> 0 then set_prev (nxt zs 0) x t else t)"
  define s' where "s' = set_next x (nxt zs 0) u"
  have tx: "block_at t x = (block_at s x)\<lparr>ab_size := k + (32 + j)\<rparr>" and ty: "block_at t y = block_at s y"
    using hdr(1) hy ap by (simp_all add: t_def block_at_poke_same block_at_poke_other)
  have ux: "block_at u x = block_at t x" "block_at u y = block_at t y"
    using hdr(1) hy hdr'(5,6) apz by (auto simp: u_def block_at_poke_other)
  have ys: "ab_next (block_at s x) = y" "ab_free (block_at s y) \<noteq> 0" "ab_prev (block_at s y) = x" "ab_size (block_at s y) = j"
    using fld(2) fld'(1,3,4) by (simp_all add: prv_append)
  have m: "merge_block x s = Some s'"
    using ys fld(1) fld'(2) tx ty ux by (cases "nxt zs 0 = 0") (simp_all add: merge_block_def Let_def assert_bind u_def s'_def flip: t_def)
  have sx: "block_at s' x = (block_at s x)\<lparr>ab_size := k + (32 + j), ab_next := nxt zs 0\<rparr>"
    using hdr(1) by (simp add: s'_def block_at_poke_same ux tx)
  have sb: "block_at s' b = block_at s b" if "hdr_ok b" "apart b x" "zs \<noteq> [] \<Longrightarrow> apart b (nxt zs 0)" for b
    using that hdr(1) hdr'(5,6) by (auto simp: s'_def u_def t_def block_at_poke_other)
  have sz: "block_at s' (nxt zs 0) = (block_at s (nxt zs 0))\<lparr>ab_prev := x\<rparr>" if "zs \<noteq> []"
    using that hdr(1) hdr'(5,6) aps [of "hd zs"] hd by (simp add: s'_def u_def t_def block_at_poke_other block_at_poke_same)
  have "linked s' 0 (xs @ [(x, k + (32 + j), f)] @ zs) 0"
  proof (rule linked_replace [OF fld(5) fld'(6)])
    show "linked s' (prv 0 xs) [(x, k + (32 + j), f)] (nxt zs 0)" using fld(3,4) by (simp add: sx)
    show "block_at s' (fst b) = block_at s (fst b)" if "b \<in> set xs" for b
      using app [OF that] hdr(3) [OF that] ord(1) [OF that] ord'(5) y by (intro sb) (auto simp: apart_def)
    show "block_at s' (fst b) = block_at s (fst b)" if "b \<in> set (tl zs)" for b
    proof -
      have "b \<in> set zs" using that by (cases zs) auto
      then show ?thesis using aps [of b] hdr'(4) [of b] ord'(4) [OF that] by (intro sb) (auto simp: apart_def)
    qed
  qed (use sz in simp_all)
  moreover have "tiled a (xs @ [(x, k + (32 + j), f)] @ zs) e"
    using tile sum by (auto simp: tiled_append add.assoc add.left_commute add.commute)
  moreover have "headers_only s s' (xs @ (x, k, f) # (y, j, True) # zs)"
  proof -
    have "headers_only s t (xs @ (x, k, f) # (y, j, True) # zs)" using hdr(1) by (simp add: t_def headers_only_set)
    then have "headers_only s u (xs @ (x, k, f) # (y, j, True) # zs)"
      using hdr'(5,6) hd by (auto simp: u_def intro!: headers_only_set)
    then show ?thesis unfolding s'_def using hdr(1) by (simp add: headers_only_set)
  qed
  ultimately show ?thesis using m by (simp add: add.assoc)
qed

end
