(* ===== verification/Heap_Inv.thy ===== *)
theory Heap_Inv
  imports Block_List
begin

text \<open>
  The parts of \<open>kmalloc\<close> on a well-formed heap: the size computation, the program break, the search
  for a free block, and the extension of the heap by a block. \<open>heap_inv s bs\<close> is the invariant of
  the allocator, with the list \<open>bs\<close> of its blocks.
\<close>

section \<open>Sizes\<close>

lemma smear:
  fixes n w :: u64
  assumes "\<And>i. bit w i \<longleftrightarrow> (\<exists>j<k. bit n (i + j))"
  shows "bit (w OR drop_bit k w) i \<longleftrightarrow> (\<exists>j<k + k. bit n (i + j))"
proof -
  have "(\<exists>j<k + k. bit n (i + j)) \<longleftrightarrow> (\<exists>j<k. bit n (i + j)) \<or> (\<exists>j<k. bit n (i + k + j))"
  proof
    assume "\<exists>j<k + k. bit n (i + j)"
    then obtain j where j: "j < k + k" "bit n (i + j)" by auto
    show "(\<exists>j<k. bit n (i + j)) \<or> (\<exists>j<k. bit n (i + k + j))"
      using j by (cases "j < k") (auto intro: exI [of _ "j - k"])
  next
    assume "(\<exists>j<k. bit n (i + j)) \<or> (\<exists>j<k. bit n (i + k + j))"
    then show "\<exists>j<k + k. bit n (i + j)"
    proof
      assume "\<exists>j<k. bit n (i + k + j)"
      then obtain j where "j < k" "bit n (i + (k + j))" by (auto simp: add.assoc)
      then show ?thesis by (intro exI [of _ "k + j"]) auto
    qed (auto intro: trans_less_add1)
  qed
  then show ?thesis by (simp add: bit_simps assms add.commute add.left_commute)
qed

lemma smeared:
  fixes n :: u64
  shows "bit (next_power_of_2 (n + 1) - 1) i \<longleftrightarrow> (\<exists>j<32. bit n (i + j))"
proof -
  define w1 where "w1 = n OR drop_bit 1 n"
  define w2 where "w2 = w1 OR drop_bit 2 w1"
  define w4 where "w4 = w2 OR drop_bit 4 w2"
  define w8 where "w8 = w4 OR drop_bit 8 w4"
  define w16 where "w16 = w8 OR drop_bit 16 w8"
  have 1: "bit w1 i \<longleftrightarrow> (\<exists>j<1 + 1. bit n (i + j))" for i unfolding w1_def by (rule smear) simp
  have 2: "bit w2 i \<longleftrightarrow> (\<exists>j<2 + 2. bit n (i + j))" for i unfolding w2_def by (rule smear) (simp add: 1 numeral_2_eq_2)
  have 4: "bit w4 i \<longleftrightarrow> (\<exists>j<4 + 4. bit n (i + j))" for i unfolding w4_def by (rule smear) (simp add: 2)
  have 8: "bit w8 i \<longleftrightarrow> (\<exists>j<8 + 8. bit n (i + j))" for i unfolding w8_def by (rule smear) (simp add: 4)
  have "bit w16 i \<longleftrightarrow> (\<exists>j<16 + 16. bit n (i + j))" for i unfolding w16_def by (rule smear) (simp add: 8)
  moreover have "next_power_of_2 (n + 1) - 1 = w16"
    by (simp add: next_power_of_2_def Let_def w1_def w2_def w4_def w8_def w16_def)
  ultimately show ?thesis by simp
qed

text \<open>The smallest power of two above a number below \<open>2 ^ 32\<close>.\<close>

lemma next_power_of_2_eq:
  assumes "0 < n" and "unat n \<le> 2 ^ k" and "k \<le> 32" and "k = 0 \<or> 2 ^ (k - 1) < unat n"
  shows "next_power_of_2 n = 2 ^ k"
proof -
  define m where "m = n - 1"
  have um: "unat m = unat n - 1" using assms(1) unfolding m_def by (simp add: unat_minus_one word_neq_0_conv)
  have lt: "unat m < 2 ^ k" using um assms(1,2) by (simp add: word_less_nat_alt)
  have low: "bit m i \<Longrightarrow> i < k" for i using bit_less_power [OF lt] .
  have top: "bit m (k - 1)" if "k \<noteq> 0"
  proof -
    define l where "l = k - 1"
    have l: "k = Suc l" using that by (simp add: l_def)
    have "unat m div 2 ^ l = 1"
      using um lt assms(4) l by (intro div_nat_eqI) auto
    then have "bit (unat m) l" by (simp add: bit_iff_odd)
    then show ?thesis by (simp add: l bit_unsigned_iff)
  qed
  have "next_power_of_2 (m + 1) - 1 = mask k"
  proof (rule bit_word_eqI)
    fix i assume "i < LENGTH(64)"
    show "bit (next_power_of_2 (m + 1) - 1) i = bit (mask k :: u64) i"
    proof
      assume "bit (next_power_of_2 (m + 1) - 1) i"
      then obtain j where "bit m (i + j)" by (auto simp: smeared)
      then show "bit (mask k :: u64) i" using low [of "i + j"] \<open>i < LENGTH(64)\<close> by (simp add: bit_simps)
    next
      assume "bit (mask k :: u64) i"
      then have "i < k" by (simp add: bit_simps)
      then have "i + (k - 1 - i) = k - 1" "k - 1 - i < 32" using assms(3) by auto
      then show "bit (next_power_of_2 (m + 1) - 1) i" unfolding smeared using top \<open>i < k\<close> by (intro exI [of _ "k - 1 - i"]) simp
    qed
  qed
  then have "next_power_of_2 n = mask k + 1" by (simp add: m_def algebra_simps)
  then show ?thesis by (simp add: mask_eq_exp_minus_1)
qed


lemma next_power_of_2_ex:
  assumes "0 < n" and "unat n \<le> 2 ^ 32"
  obtains k where "k \<le> 32" "next_power_of_2 n = 2 ^ k" "unat n \<le> 2 ^ k" "k = 0 \<or> 2 ^ (k - 1) < unat n"
proof -
  define k where "k = (LEAST k. unat n \<le> 2 ^ k)"
  have k: "unat n \<le> 2 ^ k" unfolding k_def using assms(2) by (rule LeastI)
  have k32: "k \<le> 32" unfolding k_def using assms(2) by (rule Least_le)
  have "2 ^ (k - 1) < unat n" if "k \<noteq> 0"
  proof (rule ccontr)
    assume "\<not> ?thesis"
    then have "k \<le> k - 1" unfolding k_def by (intro Least_le) simp
    then show False using \<open>k \<noteq> 0\<close> by simp
  qed
  then have "k = 0 \<or> 2 ^ (k - 1) < unat n" by blast
  with next_power_of_2_eq [OF assms(1) k k32] k k32 that show thesis by blast
qed

section \<open>The program break\<close>

lemma ksbrk_up:
  assumes "unat (heap_begin s) + unat (end_offset s) \<le> 0x3f00b000" and "unat inc \<le> 2 ^ 30"
  shows "ksbrk inc s =
     (if unat (heap_begin s) + unat (end_offset s) + unat inc \<le> 0x3f00b000
      then Some (of_nat (unat (heap_begin s) + unat (end_offset s)), s\<lparr>end_offset := end_offset s + inc\<rparr>) else None)"
proof -
  define res :: u32 where "res = end_offset s + ucast (heap_begin s)"
  have hb: "unat (ucast (heap_begin s) :: u32) = unat (heap_begin s)"
    using assms(1) by (simp add: unsigned_ucast_eq take_bit_nat_eq_self_iff)
  have r: "unat res = unat (heap_begin s) + unat (end_offset s)"
    using assms(1) hb unfolding res_def by (simp add: unat_word_ariths)
  have ri: "unat (res + inc) = unat res + unat inc" using assms r by (simp add: unat_word_ariths)
  have pos: "\<not> sint inc < 0" using assms(2) by (subst sint_small) simp_all
  have max: "sint (res + inc) = int (unat res + unat inc)" using assms r by (subst sint_small) (simp_all only: ri, simp)
  have sc: "scast res = (of_nat (unat res) :: u64)" using r assms(1) by (intro scast_small) simp
  have "int (unat res + unat inc) > HEAP_MAX \<longleftrightarrow> \<not> unat (heap_begin s) + unat (end_offset s) + unat inc \<le> 0x3f00b000"
    unfolding r by linarith
  then show ?thesis
    unfolding ksbrk_def Let_def assert_bind res_def [symmetric] if_not_P [OF pos] max sc unfolding r by simp
qed

section \<open>Searching\<close>

definition fits :: "u64 \<Rightarrow> blk \<Rightarrow> bool" where
  "fits n b \<longleftrightarrow> snd (snd b) \<and> n \<le> fst (snd b)"

lemma find_free_block_from_spec:
  assumes "linked s p bs 0" and "\<forall>b\<in>set bs. fst b \<noteq> 0"
  shows "find_free_block_from s n lst (nxt bs 0) =
     Some (nxt (dropWhile (\<lambda>b. \<not> fits n b) bs) 0, prv lst (takeWhile (\<lambda>b. \<not> fits n b) bs))"
  using assms
proof (induction bs arbitrary: p lst)
  case Nil
  then show ?case by (subst find_free_block_from.simps) simp
next
  case (Cons b bs)
  obtain x k f where b: "b = (x, k, f)" by (cases b)
  have ih: "find_free_block_from s n x (nxt bs 0) =
     Some (nxt (dropWhile (\<lambda>b. \<not> fits n b) bs) 0, prv x (takeWhile (\<lambda>b. \<not> fits n b) bs))"
    using Cons by (intro Cons.IH [of x]) (simp_all add: b)
  show ?case
    using Cons.prems ih by (subst find_free_block_from.simps) (auto simp: b fits_def)
qed


section \<open>The invariant of the heap\<close>

definition coalesced :: "blk list \<Rightarrow> bool" where
  "coalesced = successively (\<lambda>b c. \<not> (snd (snd b) \<and> snd (snd c)))"

definition brk :: "alloc_state \<Rightarrow> nat" where
  "brk s = unat (heap_begin s) + unat (end_offset s)"

definition heap_inv :: "alloc_state \<Rightarrow> blk list \<Rightarrow> bool" where
  "heap_inv s bs \<longleftrightarrow> 32 \<le> unat (heap_begin s) \<and> tiled (unat (heap_begin s)) bs (brk s) \<and> brk s \<le> 0x3f00b000 \<and>
     linked s 0 bs 0 \<and> global_base s = nxt bs 0 \<and> coalesced bs"

lemma heap_inv_here:
  assumes "heap_inv s (xs @ (x, k, f) # ys)"
  shows "block_here (unat (heap_begin s)) xs x k f ys (brk s) s"
  using assms by (auto simp: heap_inv_def block_here_def unat_gt_0)

lemma heap_inv_mem:
  assumes "heap_inv s bs" and "b \<in> set bs"
  shows "hdr_ok (fst b)" "fst b \<noteq> 0" "unat (fst b) + 32 + unat (fst (snd b)) \<le> brk s"
proof -
  have "unat (heap_begin s) \<le> unat (fst b)" "unat (fst b) + 32 + unat (fst (snd b)) \<le> brk s"
    using tiled_mem [of "unat (heap_begin s)" bs "brk s" "fst b" "fst (snd b)" "snd (snd b)"] assms
    by (auto simp: heap_inv_def)
  moreover have "0 < unat (heap_begin s)" "brk s \<le> 0x3f00b000" using assms(1) by (auto simp: heap_inv_def)
  ultimately show "hdr_ok (fst b)" "fst b \<noteq> 0" "unat (fst b) + 32 + unat (fst (snd b)) \<le> brk s"
    by (auto simp: hdr_ok_def simp flip: unat_eq_0)
qed

text \<open>The result of \<open>extend_heap\<close> on a heap with blocks \<open>bs\<close>.\<close>

lemma extend_heap_spec:
  assumes inv: "heap_inv s bs" and n: "unat n + 32 \<le> 2 ^ 30"
  shows "if brk s + 32 + unat n \<le> 0x3f00b000
    then \<exists>s'. extend_heap (prv 0 bs) n s = Some (of_nat (brk s), s') \<and>
      linked s' 0 (bs @ [(of_nat (brk s), n, False)]) 0 \<and>
      headers_only (s\<lparr>end_offset := end_offset s + ucast (n + 32)\<rparr>) s' (bs @ [(of_nat (brk s), n, False)])
    else extend_heap (prv 0 bs) n s = None"
proof -
  define b :: u64 where "b = of_nat (brk s)"
  define s0 where "s0 = s\<lparr>end_offset := end_offset s + ucast (n + 32)\<rparr>"
  have hb: "heap_begin s > 0" "brk s \<le> 0x3f00b000" "unat (heap_begin s) \<ge> 32"
    using inv by (auto simp: heap_inv_def word_less_nat_alt)
  have ub: "unat b = brk s" using hb unfolding b_def by (simp add: unat_of_nat)
  have inc: "unat (ucast (n + 32) :: u32) = unat n + 32"
    using n by (simp add: unsigned_ucast_eq unat_word_ariths take_bit_nat_eq_self_iff)
  have b0: "b \<noteq> 0" "b \<noteq> - 1" "hdr_ok b"
    using hb ub by (auto simp: brk_def hdr_ok_def unsigned_minus_1_eq_mask mask_eq_exp_minus_1)
  have k0: "ksbrk 0 s = Some (b, s)" using ksbrk_up [of s 0] hb by (simp add: b_def brk_def)
  have k1: "ksbrk (ucast (n + 32)) s = (if brk s + 32 + unat n \<le> 0x3f00b000 then Some (b, s0) else None)"
    using ksbrk_up [of s "ucast (n + 32)"] hb n inc unfolding b_def s0_def brk_def by (simp add: ac_simps)
  show ?thesis
  proof (cases "brk s + 32 + unat n \<le> 0x3f00b000")
    case False
    then show ?thesis by (simp add: extend_heap_def k0 k1)
  next
    case True
    define l where "l = prv 0 bs"
    have lb: "bs = [] \<Longrightarrow> l = 0" "bs \<noteq> [] \<Longrightarrow> l = fst (last bs) \<and> last bs \<in> set bs" by (auto simp: l_def prv_def)
    have ll: "l \<noteq> 0 \<longleftrightarrow> bs \<noteq> []" "bs \<noteq> [] \<Longrightarrow> hdr_ok l" "bs \<noteq> [] \<Longrightarrow> unat l + 32 \<le> unat b"
      using lb heap_inv_mem [OF inv, of "last bs"] ub by (cases "bs = []"; simp)+
    have al: "apart l b" "apart b l" if "bs \<noteq> []" using ll(3) [OF that] by (auto simp: apart_def)
    define t where "t = (if bs = [] then set_prev b 0 s0 else set_prev b l (set_next l b (set_prev b 0 s0)))"
    define s' where "s' = set_free b 0 (set_next b 0 (set_size b n t))"
    have "block_at s0 = block_at s" by (simp add: fun_eq_iff block_at_def s0_def)
    moreover have nl: "ab_next (block_at s l) = 0" if "bs \<noteq> []"
    proof -
      obtain x k f where "last bs = (x, k, f)" by (cases "last bs")
      then have "bs = butlast bs @ [(x, k, f)]" "l = x" using that lb(2) append_butlast_last_id [of bs] by auto
      then show ?thesis using inv linked_append [of s 0 "butlast bs" "[(x, k, f)]" 0] by (simp add: heap_inv_def)
    qed
    have l32: "l + 32 \<le> b"
    proof (cases "bs = []")
      case True
      then show ?thesis using ub hb by (simp add: l_def word_le_nat_alt brk_def)
    next
      case False
      then have "unat (l + 32) = unat l + 32" using ll(3) ub hb(2) by (simp add: unat_word_ariths)
      then show ?thesis using ll(3) [OF False] by (simp add: word_le_nat_alt)
    qed
    have "extend_heap l n s = Some (b, s')"
      using hb(1) True b0 ll al nl \<open>block_at s0 = block_at s\<close> l32
      by (auto simp: extend_heap_def k0 k1 s'_def t_def Let_def assert_bind block_at_poke_other)
    moreover have "linked s' 0 (bs @ [(b, n, False)]) 0"
    proof -
      have "linked s' 0 bs b"
      proof (cases "bs = []")
        case False
        obtain x k f where "last bs = (x, k, f)" by (cases "last bs")
        then have bs: "bs = butlast bs @ [(x, k, f)]" and lx: "l = x"
          using False lb(2) append_butlast_last_id [of bs] by auto
        have h: "block_here (unat (heap_begin s)) (butlast bs) x k f [] (brk s) s"
          using inv bs by (intro heap_inv_here) simp
        have "block_at s' (fst c) = block_at s (fst c)" if "c \<in> set (butlast bs)" for c
        proof -
          have "apart (fst c) l" "apart (fst c) b"
            using block_here_order(1) [OF h that] ll(3) [OF False] lx by (auto simp: apart_def)
          then show ?thesis
            using False b0(3) ll(2) block_here_hdr(3) [OF h that] \<open>block_at s0 = block_at s\<close>
            by (simp add: s'_def t_def block_at_poke_other)
        qed
        then have "linked s' 0 (butlast bs) x = linked s 0 (butlast bs) x" by (rule linked_cong)
        moreover have "block_at s' x = (block_at s x)\<lparr>ab_next := b\<rparr>"
          using False b0(3) ll(2) al lx \<open>block_at s0 = block_at s\<close>
          by (simp add: s'_def t_def block_at_poke_other block_at_poke_same)
        ultimately show ?thesis
          using block_here_fields [OF h] by (subst bs) (simp add: linked_append)
      qed simp
      moreover have "block_at s' b = \<lparr>ab_size = n, ab_next = 0, ab_prev = l, ab_free = 0\<rparr>"
        using b0 ll al lb by (simp add: s'_def t_def block_at_poke_same block_at_poke_other)
      ultimately show ?thesis by (simp add: linked_append flip: l_def)
    qed
    moreover have "headers_only s0 s' (bs @ [(b, n, False)])"
    proof -
      have "headers_only s0 t (bs @ [(b, n, False)])"
        using b0(3) ll(2) lb(2) unfolding t_def by (auto intro!: headers_only_set)
      then show ?thesis using b0(3) by (simp add: s'_def headers_only_set)
    qed
    ultimately show ?thesis using True unfolding b_def s0_def l_def by auto
  qed
qed

end
