(* ===== verification/Malloc.thy ===== *)
theory Malloc
  imports Heap_Inv
begin

text \<open>
  Specifications of \<open>kmalloc\<close> and \<open>kfree\<close> of \<^verbatim>\<open>src/src/memory/alloc.c\<close> on the list of blocks:
  \<open>spec_kmalloc\<close> takes the first free block that is large enough and carves the request out of it,
  or appends a block at the program break; \<open>release\<close> frees a block and merges it with free
  neighbours. \<open>kmalloc_spec\<close> and \<open>kfree_spec\<close> show that the code implements them, keeps the
  invariant, and changes no byte of a block in use.
\<close>

section \<open>Payloads\<close>

text \<open>Addresses that are never part of a heap: those below its start, and those behind \<open>HEAP_MAX\<close>.\<close>

definition off_heap :: "alloc_state \<Rightarrow> u64 \<Rightarrow> bool" where
  "off_heap s y \<longleftrightarrow> unat y < unat (heap_begin s) \<or> 0x3f00b000 \<le> unat y"

lemma off_heap_begin: "heap_begin s' = heap_begin s \<Longrightarrow> off_heap s' = off_heap s"
  by (simp add: off_heap_def fun_eq_iff)

definition kept :: "alloc_state \<Rightarrow> alloc_state \<Rightarrow> blk list \<Rightarrow> bool" where
  "kept s s' bs \<longleftrightarrow> heap_begin s' = heap_begin s \<and> (\<forall>y. off_heap s y \<longrightarrow> heap s' y = heap s y) \<and>
     (\<forall>(x, k, f)\<in>set bs. \<not> f \<longrightarrow> (\<forall>y. span (x + 32) (unat k) y \<longrightarrow> heap s' y = heap s y))"

lemma keptD: "kept s s' bs \<Longrightarrow> (x, k, False) \<in> set bs \<Longrightarrow> span (x + 32) (unat k) y \<Longrightarrow> heap s' y = heap s y"
  by (fastforce simp: kept_def)

lemma kept_low:
  assumes "kept s s' bs"
  shows "heap_begin s' = heap_begin s" and "off_heap s y \<Longrightarrow> heap s' y = heap s y"
  using assms by (simp_all add: kept_def)

lemma keptI:
  assumes "heap_begin s' = heap_begin s" and "\<And>y. off_heap s y \<Longrightarrow> heap s' y = heap s y"
    and "\<And>x k y. (x, k, False) \<in> set bs \<Longrightarrow> span (x + 32) (unat k) y \<Longrightarrow> heap s' y = heap s y"
  shows "kept s s' bs"
  using assms by (auto simp: kept_def)

lemma kept_refl [simp]: "kept s s bs"
  by (simp add: kept_def)

lemma kept_trans: "kept s s' bs \<Longrightarrow> kept s' s'' bs \<Longrightarrow> kept s s'' bs"
  by (rule keptI) (simp_all add: keptD kept_low off_heap_begin [of s'])

lemma kept_mono: "kept s s' bs \<Longrightarrow> (\<And>x k. (x, k, False) \<in> set cs \<Longrightarrow> (x, k, False) \<in> set bs) \<Longrightarrow> kept s s' cs"
  by (rule keptI) (simp_all add: kept_low, blast dest: keptD)

lemma headers_only_same:
  assumes "headers_only s s' bs"
  shows "heap_begin s' = heap_begin s" "end_offset s' = end_offset s" "global_base s' = global_base s"
    "requests s' = requests s" "brk s' = brk s"
proof -
  have "s' = s\<lparr>heap := heap s'\<rparr>" using assms by (simp add: headers_only_def)
  then show "heap_begin s' = heap_begin s" "end_offset s' = end_offset s" "global_base s' = global_base s"
    "requests s' = requests s" "brk s' = brk s"
    by (cases s; cases s'; simp add: brk_def)+
qed

lemma headers_only_kept:
  assumes o: "headers_only s s' bs" and t: "tiled a bs e" and e: "e \<le> 0x3f00b000" and a: "unat (heap_begin s) \<le> a"
  shows "kept s s' bs"
proof (rule keptI)
  show "heap_begin s' = heap_begin s" by (rule headers_only_same [OF o])
  show "heap s' y = heap s y" if y: "off_heap s y" for y
  proof -
    have "\<not> in_header bs y" using tiled_mem [OF t] y a e by (fastforce simp: in_header_def span_def off_heap_def)
    with o show ?thesis by (simp add: headers_only_def)
  qed
  show "heap s' y = heap s y" if "(x, k, False) \<in> set bs" "span (x + 32) (unat k) y" for x k y
    using o payload_no_header [OF t that(1) _ that(2)] e by (simp add: headers_only_def)
qed

lemma set_free_spec:
  assumes h: "block_here a xs x k f ys e s"
  shows "block_here a xs x k ((ucast v :: u32) \<noteq> 0) ys e (set_free x v s)"
    and "headers_only s (set_free x v s) (xs @ (x, k, f) # ys)"
proof -
  note fld = block_here_fields [OF h] and hdr = block_here_hdr [OF h] and ord = block_here_order [OF h]
  have xs: "block_at (set_free x v s) (fst b) = block_at s (fst b)" if "b \<in> set xs" for b
    using ord(1) [OF that] hdr(1) hdr(3) [OF that] by (intro block_at_poke_other) (auto simp: apart_def)
  have ys: "block_at (set_free x v s) (fst b) = block_at s (fst b)" if "b \<in> set ys" for b
    using ord(2) [OF that] hdr(1) hdr(4) [OF that] by (intro block_at_poke_other) (auto simp: apart_def)
  have "linked (set_free x v s) 0 xs x" "linked (set_free x v s) x ys 0"
    using fld(5,6) linked_cong [of xs, OF xs, of 0 x] linked_cong [of ys, OF ys, of x 0] by simp_all
  then show "block_here a xs x k ((ucast v :: u32) \<noteq> 0) ys e (set_free x v s)"
    using h hdr(1) fld by (simp add: block_here_def linked_append block_at_poke_same tiled_append)
  show "headers_only s (set_free x v s) (xs @ (x, k, f) # ys)"
    using hdr(1) by (intro headers_only_set) simp_all
qed

section \<open>Specification of kmalloc\<close>

definition spec_kmalloc :: "u64 \<Rightarrow> nat \<Rightarrow> blk list \<Rightarrow> (u64 \<times> blk list) option" where
  "spec_kmalloc n e bs =
     (case dropWhile (\<lambda>b. \<not> fits n b) bs of
        [] \<Rightarrow> if e + 32 + unat n \<le> 0x3f00b000 then Some (of_nat e, bs @ [(of_nat e, n, False)]) else None
      | (x, k, _) # ys \<Rightarrow> Some (x, takeWhile (\<lambda>b. \<not> fits n b) bs @ carve n x k False @ ys))"

definition block_size :: "u64 \<Rightarrow> u64" where
  "block_size requested = next_power_of_2 (requested + 32) - 32"

lemma block_size_bounds:
  assumes "0 < requested" and "unat requested + 32 \<le> 2 ^ 30"
  shows "unat requested \<le> unat (block_size requested)" "unat (block_size requested) + 32 \<le> 2 ^ 30" "block_size requested > 0"
    "\<exists>k. unat (block_size requested) + 32 = 2 ^ k"
proof -
  have r: "unat (requested + 32) = unat requested + 32" using assms(2) by (simp add: unat_word_ariths)
  then have "0 < requested + 32" "unat (requested + 32) \<le> 2 ^ 32" using assms(2) by (simp_all add: word_less_nat_alt)
  then obtain k where k: "next_power_of_2 (requested + 32) = 2 ^ k" "unat (requested + 32) \<le> 2 ^ k" "k \<le> 32"
    "k = 0 \<or> 2 ^ (k - 1) < unat (requested + 32)"
    by (rule next_power_of_2_ex)
  have "k < 31"
  proof (rule ccontr)
    assume "\<not> ?thesis"
    then have "(2::nat) ^ 30 \<le> 2 ^ (k - 1)" by (intro power_increasing) auto
    then show False using k(4) r assms(2) \<open>\<not> k < 31\<close> by auto
  qed
  then have k30: "(2::nat) ^ k \<le> 2 ^ 30" by (intro power_increasing) auto
  have u: "unat (2 ^ k :: u64) = 2 ^ k" using \<open>k < 31\<close> by (intro unat_two_power) simp
  have "32 \<le> (2::nat) ^ k" using k(2) r by simp
  then have b: "unat (block_size requested) = 2 ^ k - 32"
    unfolding block_size_def k(1) using u by (simp add: unat_sub word_le_nat_alt)
  show "unat requested \<le> unat (block_size requested)" "unat (block_size requested) + 32 \<le> 2 ^ 30"
    "\<exists>k. unat (block_size requested) + 32 = 2 ^ k"
    using b k(2) r k30 \<open>32 \<le> 2 ^ k\<close> by auto
  then show "block_size requested > 0" using assms(1) by (simp add: word_less_nat_alt)
qed

lemma coalesced_Cons: "coalesced (b # bs) \<longleftrightarrow> (bs = [] \<or> \<not> (snd (snd b) \<and> snd (snd (hd bs)))) \<and> coalesced bs"
  by (cases bs) (auto simp: coalesced_def)

lemma coalesced_Nil [simp]: "coalesced []"
  by (simp add: coalesced_def)

lemma coalesced_append:
  "coalesced (xs @ ys) \<longleftrightarrow> coalesced xs \<and> coalesced ys \<and>
     (xs = [] \<or> ys = [] \<or> \<not> (snd (snd (last xs)) \<and> snd (snd (hd ys))))"
  unfolding coalesced_def successively_append_iff by blast

lemma coalesced_carve:
  assumes "coalesced (xs @ (x, k, True) # ys)"
  shows "coalesced (xs @ carve n x k False @ ys)"
  using assms by (auto simp: coalesced_append coalesced_Cons carve_def)

lemma kmalloc_fit:
  assumes inv: "heap_inv s (xs @ (x, k, True) # ys)" and xs: "\<forall>b\<in>set xs. \<not> fits n b" and k: "n \<le> k"
    and n: "n = block_size requested" "n > 0"
  shows "\<exists>s'. kmalloc requested s = Some (x + 32, s') \<and> heap_inv s' (xs @ carve n x k False @ ys) \<and> 
    kept s s' (xs @ (x, k, True) # ys)"
proof -
  let ?bs = "xs @ (x, k, True) # ys"
  note h = heap_inv_here [OF inv]
  have x0: "x \<noteq> 0" using block_here_hdr(2) [OF h] .
  have ft: "fits n (x, k, True)" using k by (simp add: fits_def)
  have tw: "takeWhile (\<lambda>b. \<not> fits n b) ?bs = xs" "dropWhile (\<lambda>b. \<not> fits n b) ?bs = (x, k, True) # ys"
    using xs ft by (simp_all add: takeWhile_append dropWhile_append)
  have gb: "global_base s = nxt ?bs 0" "global_base s \<noteq> 0"
    using inv heap_inv_mem(2) [OF inv hd_in_set] by (simp_all add: heap_inv_def nxt_def)
  have "find_free_block (global_base s) n s = Some (x, prv (global_base s) xs)"
    unfolding find_free_block_def gb(1)
    by (subst find_free_block_from_spec [where p = 0]) (use inv heap_inv_mem(2) [OF inv] tw in \<open>auto simp: heap_inv_def\<close>)
  then have km: "kmalloc requested s = do { s1 \<leftarrow> (let s1 = set_free x 0 s in
       if ab_size (block_at s1 x) > n then split_block x n s1 else Some s1); Some (x + 32, s1) }"
    using gb(2) x0 word_gt_0 [THEN iffD1, OF n(2)] unfolding kmalloc_def Let_def block_size_def [symmetric] n(1) [symmetric] by (simp add: not_le)
  have h1: "block_here (unat (heap_begin s)) xs x k False ys (brk s) (set_free x 0 s)"
    and o1: "headers_only s (set_free x 0 s) ?bs"
    using set_free_spec [OF h, of 0] by simp_all
  obtain s' where s': "split_block x n (set_free x 0 s) = Some s'" "linked s' 0 (xs @ carve n x k False @ ys) 0"
    "tiled (unat (heap_begin s)) (xs @ carve n x k False @ ys) (brk s)"
    "headers_only (set_free x 0 s) s' (xs @ carve n x k False @ ys)"
    using split_block_spec [OF h1 k] by blast
  have "split_block x n (set_free x 0 s) = Some (set_free x 0 s)" if "\<not> n < k"
    using that k block_here_fields(1) [OF h1] block_here_order(3) [OF h1]
    by (auto simp: split_block_def word_less_nat_alt word_le_nat_alt unat_word_ariths)
  then have "kmalloc requested s = Some (x + 32, s')"
    using km s'(1) block_here_fields(1) [OF h1] by (auto simp: Let_def)
  moreover have "heap_inv s' (xs @ carve n x k False @ ys)"
    using inv s'(2,3) headers_only_same [OF s'(4)] headers_only_same [OF o1] coalesced_carve [of xs x k ys n]
    by (simp add: heap_inv_def nxt_append)
  moreover have "kept s s' ?bs"
  proof (rule kept_trans)
    have e: "brk s \<le> 0x3f00b000" using inv by (simp add: heap_inv_def)
    show "kept s (set_free x 0 s) ?bs"
      using o1 by (rule headers_only_kept) (use inv e in \<open>auto simp: heap_inv_def\<close>)
    show "kept (set_free x 0 s) s' ?bs"
      by (rule kept_mono [OF headers_only_kept [OF s'(4,3) e]]) (auto simp: poke_def)
  qed
  ultimately show ?thesis by blast
qed


lemma kmalloc_extend:
  assumes inv: "heap_inv s bs" and bs: "\<forall>b\<in>set bs. \<not> fits n b"
    and n: "n = block_size requested" "n > 0" "unat n + 32 \<le> 2 ^ 30"
  shows "if brk s + 32 + unat n \<le> 0x3f00b000
    then \<exists>s'. kmalloc requested s = Some (of_nat (brk s) + 32, s') \<and>
      heap_inv s' (bs @ [(of_nat (brk s), n, False)]) \<and> kept s s' bs
    else kmalloc requested s = None"
proof -
  have tw: "takeWhile (\<lambda>b. \<not> fits n b) bs = bs" "dropWhile (\<lambda>b. \<not> fits n b) bs = []"
    using bs by simp_all
  have gb: "global_base s = nxt bs 0" "global_base s = 0 \<longleftrightarrow> bs = []"
    using inv heap_inv_mem(2) [OF inv hd_in_set] by (auto simp: heap_inv_def nxt_def)
  have "find_free_block (global_base s) n s = Some (0, prv (global_base s) bs)"
    unfolding find_free_block_def gb(1)
    by (subst find_free_block_from_spec [where p = 0], unfold tw) (use inv heap_inv_mem(2) [OF inv] in \<open>auto simp: heap_inv_def\<close>)
  moreover have "prv (global_base s) bs = prv 0 bs" if "bs \<noteq> []" using that by (simp add: prv_def)
  ultimately have km: "kmalloc requested s = do { (block, s1) \<leftarrow> extend_heap (prv 0 bs) n s;
       if block = 0 then Some (0, s1) else Some (block + 32, if bs = [] then s1\<lparr>global_base := block\<rparr> else s1) }"
    using word_gt_0 [THEN iffD1, OF n(2)] unfolding kmalloc_def Let_def block_size_def [symmetric] n(1) [symmetric] gb(2)
    by (cases "bs = []") (simp_all add: not_le cong: if_cong)
  define b :: u64 where "b = of_nat (brk s)"
  have top: "brk s \<le> 0x3f00b000" "32 \<le> brk s" using inv by (auto simp: heap_inv_def brk_def)
  have ub: "unat b = brk s" using top unfolding b_def by (simp add: unat_of_nat)
  have b0: "b \<noteq> 0" using ub top by auto
  show ?thesis
  proof (cases "brk s + 32 + unat n \<le> 0x3f00b000")
    case False
    then show ?thesis using extend_heap_spec [OF inv n(3)] km by simp
  next
    case True
    let ?s0 = "s\<lparr>end_offset := end_offset s + ucast (n + 32)\<rparr>"
    obtain s1 where s1: "extend_heap (prv 0 bs) n s = Some (b, s1)" "linked s1 0 (bs @ [(b, n, False)]) 0"
      "headers_only ?s0 s1 (bs @ [(b, n, False)])"
      using extend_heap_spec [OF inv n(3)] True unfolding b_def by auto
    have "unat (ucast (n + 32) :: u32) = unat n + 32"
      using n(3) by (simp add: unsigned_ucast_eq unat_word_ariths take_bit_nat_eq_self_iff)
    then have "unat (end_offset s + ucast (n + 32)) = unat (end_offset s) + 32 + unat n"
      using True by (simp add: unat_word_ariths brk_def)
    then have br: "brk s1 = brk s + 32 + unat n" using headers_only_same [OF s1(3)] by (simp add: brk_def)
    define s' where "s' = (if bs = [] then s1\<lparr>global_base := b\<rparr> else s1)"
    have "kmalloc requested s = Some (b + 32, s')" using km s1(1) b0 by (simp add: s'_def)
    moreover have t: "tiled (unat (heap_begin s)) (bs @ [(b, n, False)]) (brk s + 32 + unat n)"
      using inv ub by (auto simp: heap_inv_def tiled_append)
    have same: "block_at s' = block_at s1" "heap_begin s' = heap_begin s" "brk s' = brk s1" "heap s' = heap s1"
      "global_base s' = nxt (bs @ [(b, n, False)]) 0"
      using headers_only_same [OF s1(3)] gb(1) by (auto simp: s'_def brk_def block_at_def fun_eq_iff nxt_def)
    have "linked s' 0 (bs @ [(b, n, False)]) 0"
      using s1(2) linked_cong [of "bs @ [(b, n, False)]" s' s1 0 0] by (simp add: same)
    moreover have "coalesced (bs @ [(b, n, False)])"
      using inv by (simp add: heap_inv_def coalesced_append coalesced_Cons)
    ultimately have "heap_inv s' (bs @ [(b, n, False)])"
      using inv True t unfolding heap_inv_def same br by simp
    moreover have "kept s s' bs"
    proof -
      have "kept ?s0 s1 bs"
        by (rule kept_mono [OF headers_only_kept [OF s1(3) t]]) (use True in auto)
      then show ?thesis using headers_only_same(1) [OF s1(3)] by (auto simp: kept_def same off_heap_def)
    qed
    ultimately show ?thesis using True \<open>kmalloc requested s = Some (b + 32, s')\<close> unfolding b_def by auto
  qed
qed

lemma kmalloc_spec:
  assumes inv: "heap_inv s bs" and r: "0 < requested" "unat requested + 32 \<le> 2 ^ 30"
  shows "case spec_kmalloc (block_size requested) (brk s) bs of
       None \<Rightarrow> kmalloc requested s = None
     | Some (x, bs') \<Rightarrow> \<exists>s'. kmalloc requested s = Some (x + 32, s') \<and> heap_inv s' bs' \<and> kept s s' bs"
proof (cases "dropWhile (\<lambda>b. \<not> fits (block_size requested) b) bs")
  case Nil
  then have "\<forall>b\<in>set bs. \<not> fits (block_size requested) b" by (simp add: dropWhile_eq_Nil_conv)
  from kmalloc_extend [OF inv this refl block_size_bounds(3,2) [OF r]] show ?thesis
    unfolding spec_kmalloc_def Nil list.case by (auto split: if_splits)
next
  case (Cons b ys)
  obtain x k f where b: "b = (x, k, f)" by (cases b)
  let ?xs = "takeWhile (\<lambda>b. \<not> fits (block_size requested) b) bs"
  have "fits (block_size requested) b" using Cons hd_dropWhile [of "\<lambda>b. \<not> fits (block_size requested) b" bs] by simp
  then have f: "f" "block_size requested \<le> k" by (auto simp: fits_def b)
  have "?xs @ (x, k, f) # ys = bs" unfolding b [symmetric] Cons [symmetric] by (rule takeWhile_dropWhile_id)
  then have bs: "bs = ?xs @ (x, k, True) # ys" using f(1) by simp
  have "\<forall>b\<in>set ?xs. \<not> fits (block_size requested) b" by (auto dest: set_takeWhileD)
  moreover have "heap_inv s (?xs @ (x, k, True) # ys)" using inv bs by simp
  ultimately have "\<exists>s'. kmalloc requested s = Some (x + 32, s') \<and>
      heap_inv s' (?xs @ carve (block_size requested) x k False @ ys) \<and> kept s s' (?xs @ (x, k, True) # ys)"
    using kmalloc_fit f(2) block_size_bounds(3) [OF r] by blast
  then show ?thesis unfolding spec_kmalloc_def Cons b list.case prod.case option.case bs [symmetric] .
qed


section \<open>Specification of kfree\<close>

definition absorb :: "u64 \<Rightarrow> blk list \<Rightarrow> u64 \<times> blk list" where
  "absorb k ys = (case ys of (y, j, True) # zs \<Rightarrow> (k + 32 + j, zs) | _ \<Rightarrow> (k, ys))"

definition release :: "blk list \<Rightarrow> u64 \<Rightarrow> u64 \<Rightarrow> blk list \<Rightarrow> blk list" where
  "release xs x k ys =
     (let (k', zs) = absorb k ys in
      if xs \<noteq> [] \<and> snd (snd (last xs))
      then butlast xs @ (fst (last xs), fst (snd (last xs)) + 32 + k', True) # zs
      else xs @ (x, k', True) # zs)"

lemma absorb_cases:
  obtains (free) y j zs where "ys = (y, j, True) # zs" "absorb k ys = (k + 32 + j, zs)"
  | (used) "ys = [] \<or> \<not> snd (snd (hd ys))" "absorb k ys = (k, ys)"
proof (cases ys)
  case Nil
  then show ?thesis by (intro used) (simp_all add: absorb_def)
next
  case (Cons b zs)
  obtain y j f where "b = (y, j, f)" by (cases b)
  then show ?thesis using Cons free used by (cases f) (simp_all add: absorb_def)
qed

lemma coalesced_release:
  assumes "coalesced (xs @ (x, k, False) # ys)"
  shows "coalesced (release xs x k ys)"
proof -
  obtain k' zs where a: "absorb k ys = (k', zs)" by (cases "absorb k ys")
  have zs: "coalesced zs" "zs = [] \<or> \<not> snd (snd (hd zs))" and xs: "coalesced xs"
    using assms a by (cases ys k rule: absorb_cases; auto simp: coalesced_append coalesced_Cons)+
  show ?thesis
  proof (cases "xs \<noteq> [] \<and> snd (snd (last xs))")
    case True
    then have "coalesced (butlast xs @ [last xs])" using xs by simp
    from this [unfolded coalesced_append] True
    have "coalesced (butlast xs)" "butlast xs = [] \<or> \<not> snd (snd (last (butlast xs)))" by auto
    then show ?thesis using zs True by (auto simp: release_def a coalesced_append coalesced_Cons)
  next
    case False
    then show ?thesis using zs xs by (auto simp: release_def a coalesced_append coalesced_Cons)
  qed
qed

lemma free_step:
  assumes h: "block_here a xs x k True ys e s" and a: "absorb k ys = (k', zs)"
  shows "\<exists>s'. (let n = ab_next (block_at s x) in if n \<noteq> 0 \<and> ab_free (block_at s n) \<noteq> 0 then merge_block x s else Some s) =
      Some s' \<and> block_here a xs x k' True zs e s' \<and> headers_only s s' (xs @ (x, k, True) # ys)"
proof (cases ys k rule: absorb_cases)
  case (free y j zs')
  have "block_here a (xs @ [(x, k, True)]) y j True zs' e s" using h free by (simp add: block_here_def)
  from block_here_fields(4) [OF this] block_here_hdr(2) [OF this]
  have "ab_free (block_at s y) \<noteq> 0" "y \<noteq> 0" by simp_all
  moreover have "ab_next (block_at s x) = y" using block_here_fields(2) [OF h] free by simp
  moreover obtain s' where "merge_block x s = Some s'" "linked s' 0 (xs @ (x, k + 32 + j, True) # zs') 0"
    "tiled a (xs @ (x, k + 32 + j, True) # zs') e" "headers_only s s' (xs @ (x, k, True) # ys)"
    using merge_block_spec [OF h [unfolded free(1)]] free(1) by blast
  ultimately show ?thesis using a free h by (auto simp: block_here_def)
next
  case used
  have "\<not> (ab_next (block_at s x) \<noteq> 0 \<and> ab_free (block_at s (ab_next (block_at s x))) \<noteq> 0)"
  proof (cases ys)
    case (Cons b ws)
    obtain y j f where b: "b = (y, j, f)" by (cases b)
    have "block_here a (xs @ [(x, k, True)]) y j False ws e s" using h Cons b used by (simp add: block_here_def)
    from block_here_fields(4) [OF this] block_here_fields(2) [OF h] Cons b show ?thesis by simp
  qed (use block_here_fields(2) [OF h] in simp)
  then show ?thesis using h a used by (auto simp: Let_def)
qed


lemma back_step:
  assumes h: "block_here a xs x k True zs e s"
  defines "bs \<equiv> (if xs \<noteq> [] \<and> snd (snd (last xs))
      then butlast xs @ (fst (last xs), fst (snd (last xs)) + 32 + k, True) # zs else xs @ (x, k, True) # zs)"
  shows "\<exists>s'. (if prv 0 xs \<noteq> 0 \<and> ab_free (block_at s (prv 0 xs)) \<noteq> 0 then merge_block (prv 0 xs) s else Some s) = Some s' \<and>
      linked s' 0 bs 0 \<and> tiled a bs e \<and> headers_only s s' (xs @ (x, k, True) # zs) \<and> nxt bs 0 = nxt (xs @ [(x, k, True)]) 0"
proof (cases "xs = []")
  case True
  then show ?thesis using h by (auto simp: bs_def block_here_def)
next
  case False
  obtain w j g where w: "last xs = (w, j, g)" by (cases "last xs")
  then have xs: "xs = butlast xs @ [(w, j, g)]" using False append_butlast_last_id [of xs] by simp
  have all: "xs @ (x, k, True) # zs = butlast xs @ (w, j, g) # (x, k, True) # zs"
    using arg_cong [OF xs, of "\<lambda>l. l @ (x, k, True) # zs"] by (simp only: append.assoc append_Cons append_Nil)
  have h3: "block_here a (butlast xs) w j g ((x, k, True) # zs) e s"
    using h unfolding block_here_def all .
  have free: "prv 0 xs = w" "w \<noteq> 0" "(ab_free (block_at s w) \<noteq> 0) = g"
    using w False block_here_hdr(2) [OF h3] block_here_fields(4) [OF h3] by (simp_all add: prv_def)
  show ?thesis
  proof (cases g)
    case True
    obtain s' where "merge_block w s = Some s'" "linked s' 0 (butlast xs @ (w, j + 32 + k, True) # zs) 0"
      "tiled a (butlast xs @ (w, j + 32 + k, True) # zs) e" "headers_only s s' (xs @ (x, k, True) # zs)"
      using merge_block_spec [OF h3] unfolding all eqTrueI [OF True] by blast
    moreover have "nxt (butlast xs @ (w, j + 32 + k, True) # zs) 0 = nxt (xs @ [(x, k, True)]) 0"
      by (subst (2) xs) (cases "butlast xs"; simp add: nxt_def)
    moreover have "bs = butlast xs @ (w, j + 32 + k, True) # zs" using False True w by (simp add: bs_def)
    ultimately show ?thesis unfolding free(1) using free(2,3) True by (intro exI [of _ s']) simp
  next
    case ng: False
    then have "bs = xs @ (x, k, True) # zs" using w by (simp add: bs_def)
    then show ?thesis unfolding free(1) using free(3) ng h by (simp add: block_here_def nxt_append)
  qed
qed

lemma kfree_steps:
  assumes "x + 32 \<noteq> 0" and "ab_free (block_at s x) = 0"
    and "(let n = ab_next (block_at (set_free x 1 s) x) in if n \<noteq> 0 \<and> ab_free (block_at (set_free x 1 s) n) \<noteq> 0
        then merge_block x (set_free x 1 s) else Some (set_free x 1 s)) = Some s2"
    and "(let p = ab_prev (block_at s2 x) in if p \<noteq> 0 \<and> ab_free (block_at s2 p) \<noteq> 0 then merge_block p s2 else Some s2) = Some s'"
  shows "kfree (x + 32) s = Some s'"
proof -
  have x: "get_block_ptr (x + 32) = x" by (simp add: get_block_ptr_def)
  show ?thesis
    using assms(1,2) unfolding kfree_def Let_def [of "get_block_ptr _"] x Let_def [of "set_free _ _ _"]
    by (simp add: assms(3,4))
qed

lemma kfree_spec:
  assumes inv: "heap_inv s (xs @ (x, k, f) # ys)"
  shows "if f then kfree (x + 32) s = None
    else \<exists>s'. kfree (x + 32) s = Some s' \<and> heap_inv s' (release xs x k ys) \<and> kept s s' (xs @ ys)"
proof -
  note h = heap_inv_here [OF inv]
  have x32: "x + 32 \<noteq> 0" using block_here_order(3) [OF h] by (auto simp: word_unat_eq_iff unat_word_ariths)
  show ?thesis
  proof (cases f)
    case True
    then show ?thesis using block_here_fields(4) [OF h] x32 by (simp add: kfree_def get_block_ptr_def)
  next
    case False
    let ?a = "unat (heap_begin s)" and ?e = "brk s" and ?s1 = "set_free x 1 s"
    have e: "?e \<le> 0x3f00b000" using inv by (simp add: heap_inv_def)
    obtain k' zs where a: "absorb k ys = (k', zs)" by (cases "absorb k ys")
    have h1: "block_here ?a xs x k True ys ?e ?s1" and o1: "headers_only s ?s1 (xs @ (x, k, f) # ys)"
      using set_free_spec [OF h, of 1] by simp_all
    obtain s2 where s2: "(let n = ab_next (block_at ?s1 x) in
        if n \<noteq> 0 \<and> ab_free (block_at ?s1 n) \<noteq> 0 then merge_block x ?s1 else Some ?s1) = Some s2"
      and h2: "block_here ?a xs x k' True zs ?e s2" and o2: "headers_only ?s1 s2 (xs @ (x, k, True) # ys)"
      using free_step [OF h1 a] by blast
    obtain s' where s': "(if prv 0 xs \<noteq> 0 \<and> ab_free (block_at s2 (prv 0 xs)) \<noteq> 0 then merge_block (prv 0 xs) s2 else Some s2) = Some s'"
      "linked s' 0 (release xs x k ys) 0" "tiled ?a (release xs x k ys) ?e"
      and o3: "headers_only s2 s' (xs @ (x, k', True) # zs)"
      and nx: "nxt (release xs x k ys) 0 = nxt (xs @ [(x, k', True)]) 0"
      using back_step [OF h2] unfolding release_def a prod.case Let_def by blast
    have "kfree (x + 32) s = Some s'"
      using x32 block_here_fields(4) [OF h] False s'(1) unfolding block_here_fields(3) [OF h2, symmetric]
      by (intro kfree_steps [OF _ _ s2]) (simp_all add: Let_def)
    moreover have "heap_inv s' (release xs x k ys)"
      using inv False s'(2,3) nx headers_only_same [OF o1] headers_only_same [OF o2] headers_only_same [OF o3]
        coalesced_release [of xs x k ys] by (simp add: heap_inv_def nxt_append)
    moreover have "kept s s' (xs @ ys)"
    proof (rule kept_trans [OF _ kept_trans])
      have yz: "(y, j, False) \<in> set ys \<Longrightarrow> (y, j, False) \<in> set zs" for y j
        using a by (cases ys k rule: absorb_cases) auto
      show "kept s ?s1 (xs @ ys)"
        by (rule kept_mono [OF headers_only_kept [OF o1]]) (use h e in \<open>auto simp: block_here_def\<close>)
      show "kept ?s1 s2 (xs @ ys)"
        by (rule kept_mono [OF headers_only_kept [OF o2]]) (use h1 e in \<open>auto simp: block_here_def poke_def\<close>)
      show "kept s2 s' (xs @ ys)"
        by (rule kept_mono [OF headers_only_kept [OF o3]]) (use h2 e yz headers_only_same(1) [OF o2] in \<open>auto simp: block_here_def poke_def\<close>)
    qed
    ultimately show ?thesis using False by auto
  qed
qed

end
