(* ===== verification/Heap_Safety.thy ===== *)
theory Heap_Safety
  imports Malloc
begin

text \<open>
  The allocator as its clients see it: the locale \<open>allocator\<close> states what \<open>kmalloc\<close> and \<open>kfree\<close> promise
  about the blocks in use (\<open>live_blocks\<close>), and proves that a client that only frees what it holds
  never loses the contents of a block. The interpretation \<open>kernel_heap\<close> shows that the functions of
  \<^verbatim>\<open>src/src/memory/alloc.c\<close> keep these promises.
\<close>

section \<open>The contract of an allocator\<close>

datatype heap_op = Malloc u64 | Free u64

text \<open>A client performs a sequence of requests; \<open>None\<close> when one of them aborts.\<close>

primrec run_ops :: "(u64 \<Rightarrow> 's \<Rightarrow> (u64 \<times> 's) option) \<Rightarrow> (u64 \<Rightarrow> 's \<Rightarrow> 's option) \<Rightarrow> heap_op list \<Rightarrow> 's \<Rightarrow> 's option" where
  "run_ops alloc dealloc [] s = Some s"
| "run_ops alloc dealloc (op # ops) s =
     (case op of Malloc r \<Rightarrow> alloc r s \<bind> (\<lambda>(p, s'). run_ops alloc dealloc ops s')
      | Free p \<Rightarrow> dealloc p s \<bind> run_ops alloc dealloc ops)"

text \<open>The discipline of a client: it only frees what it holds, and only asks for reasonable sizes.\<close>

primrec well_behaved ::
    "(u64 \<Rightarrow> 's \<Rightarrow> (u64 \<times> 's) option) \<Rightarrow> (u64 \<Rightarrow> 's \<Rightarrow> 's option) \<Rightarrow> ('s \<Rightarrow> (u64 \<times> nat) set) \<Rightarrow> heap_op list \<Rightarrow> 's \<Rightarrow> bool" where
  "well_behaved alloc dealloc live [] s \<longleftrightarrow> True"
| "well_behaved alloc dealloc live (op # ops) s \<longleftrightarrow>
     (case op of Malloc r \<Rightarrow> 0 < r \<and> unat r + 32 \<le> 2 ^ 30 \<and>
          (case alloc r s of None \<Rightarrow> True | Some (p, s') \<Rightarrow> well_behaved alloc dealloc live ops s')
      | Free p \<Rightarrow> (\<exists>n. (p, n) \<in> live s) \<and>
          (case dealloc p s of None \<Rightarrow> True | Some s' \<Rightarrow> well_behaved alloc dealloc live ops s'))"

locale allocator =
  fixes inv :: "'s \<Rightarrow> bool" and live :: "'s \<Rightarrow> (u64 \<times> nat) set" and peek :: "'s \<Rightarrow> bytes"
    and alloc :: "u64 \<Rightarrow> 's \<Rightarrow> (u64 \<times> 's) option" and dealloc :: "u64 \<Rightarrow> 's \<Rightarrow> 's option"
  assumes live_apart: "inv s \<Longrightarrow> (p, n) \<in> live s \<Longrightarrow> (q, m) \<in> live s \<Longrightarrow> (p, n) \<noteq> (q, m) \<Longrightarrow> span p n y \<Longrightarrow> \<not> span q m y"
    and live_unique: "inv s \<Longrightarrow> (p, n) \<in> live s \<Longrightarrow> (p, m) \<in> live s \<Longrightarrow> n = m"
    and alloc_inv: "inv s \<Longrightarrow> 0 < r \<Longrightarrow> unat r + 32 \<le> 2 ^ 30 \<Longrightarrow> alloc r s = Some (p, s') \<Longrightarrow> inv s'"
    and alloc_live: "inv s \<Longrightarrow> 0 < r \<Longrightarrow> unat r + 32 \<le> 2 ^ 30 \<Longrightarrow> alloc r s = Some (p, s') \<Longrightarrow>
       \<exists>n\<ge>unat r. (p, n) \<notin> live s \<and> live s' = insert (p, n) (live s)"
    and alloc_kept: "inv s \<Longrightarrow> 0 < r \<Longrightarrow> unat r + 32 \<le> 2 ^ 30 \<Longrightarrow> alloc r s = Some (p, s') \<Longrightarrow>
       (q, m) \<in> live s \<Longrightarrow> span q m y \<Longrightarrow> peek s' y = peek s y"
    and dealloc_some: "inv s \<Longrightarrow> (p, n) \<in> live s \<Longrightarrow> \<exists>s'. dealloc p s = Some s'"
    and dealloc_inv: "inv s \<Longrightarrow> (p, n) \<in> live s \<Longrightarrow> dealloc p s = Some s' \<Longrightarrow> inv s'"
    and dealloc_live: "inv s \<Longrightarrow> (p, n) \<in> live s \<Longrightarrow> dealloc p s = Some s' \<Longrightarrow> live s' = live s - {(p, n)}"
    and dealloc_kept: "inv s \<Longrightarrow> (p, n) \<in> live s \<Longrightarrow> dealloc p s = Some s' \<Longrightarrow>
       (q, m) \<in> live s' \<Longrightarrow> span q m y \<Longrightarrow> peek s' y = peek s y"
begin

lemma step_inv:
  assumes "inv s" and "well_behaved alloc dealloc live (op # ops) s" and "run_ops alloc dealloc (op # ops) s = Some s'"
  obtains t where "inv t" "well_behaved alloc dealloc live ops t" "run_ops alloc dealloc ops t = Some s'"
    "\<And>p n. (p, n) \<in> live s \<Longrightarrow> op \<noteq> Free p \<Longrightarrow> (p, n) \<in> live t \<and> (\<forall>y. span p n y \<longrightarrow> peek t y = peek s y)"
proof (cases op)
  case (Malloc r)
  with assms obtain p t where t: "alloc r s = Some (p, t)" and r: "0 < r" "unat r + 32 \<le> 2 ^ 30"
    and "well_behaved alloc dealloc live ops t" "run_ops alloc dealloc ops t = Some s'"
    by (auto simp: bind_eq_Some_conv split: option.splits)
  then show thesis
    using that alloc_inv [OF assms(1) r t] alloc_live [OF assms(1) r t] alloc_kept [OF assms(1) r t] by blast
next
  case (Free p)
  with assms obtain n t where n: "(p, n) \<in> live s" and t: "dealloc p s = Some t"
    and "well_behaved alloc dealloc live ops t" "run_ops alloc dealloc ops t = Some s'"
    by (auto simp: bind_eq_Some_conv split: option.splits)
  moreover have "(q, m) \<in> live t \<and> (\<forall>y. span q m y \<longrightarrow> peek t y = peek s y)" if "(q, m) \<in> live s" "op \<noteq> Free q" for q m
    using that Free dealloc_live [OF assms(1) n t] dealloc_kept [OF assms(1) n t, of q m] by auto
  ultimately show thesis using dealloc_inv [OF assms(1) n t] that by blast
qed

lemma run_keeps:
  assumes "inv s" and "well_behaved alloc dealloc live ops s" and "run_ops alloc dealloc ops s = Some s'"
    and "(p, n) \<in> live s" and "Free p \<notin> set ops"
  shows "inv s' \<and> (p, n) \<in> live s' \<and> (\<forall>y. span p n y \<longrightarrow> peek s' y = peek s y)"
  using assms
proof (induction ops arbitrary: s)
  case (Cons op ops)
  obtain t where t: "inv t" "well_behaved alloc dealloc live ops t" "run_ops alloc dealloc ops t = Some s'"
    "(p, n) \<in> live t" "\<forall>y. span p n y \<longrightarrow> peek t y = peek s y"
    by (rule step_inv [OF Cons.prems(1-3)]) (use Cons.prems(4,5) that in force)
  from Cons.IH [OF t(1-4)] Cons.prems(5) t(5) show ?case by simp
qed simp

end

section \<open>The kernel heap meets the contract\<close>

definition heap_ok :: "alloc_state \<Rightarrow> bool" where
  "heap_ok s \<longleftrightarrow> (\<exists>bs. heap_inv s bs)"

definition live_blocks :: "alloc_state \<Rightarrow> (u64 \<times> nat) set" where
  "live_blocks s = {(x + 32, unat k) | x k bs. heap_inv s bs \<and> (x, k, False) \<in> set bs}"

definition used :: "blk list \<Rightarrow> (u64 \<times> nat) set" where
  "used bs = {(x + 32, unat k) | x k. (x, k, False) \<in> set bs}"

lemma linked_unique:
  "linked s p bs 0 \<Longrightarrow> linked s p cs 0 \<Longrightarrow> nxt bs 0 = nxt cs 0 \<Longrightarrow> \<forall>b\<in>set bs. fst b \<noteq> 0 \<Longrightarrow> \<forall>b\<in>set cs. fst b \<noteq> 0 \<Longrightarrow> bs = cs"
proof (induction bs arbitrary: p cs)
  case Nil
  then show ?case by (cases cs) auto
next
  case (Cons b bs)
  obtain x k f where b: "b = (x, k, f)" by (cases b)
  obtain c cs' where cs: "cs = c # cs'" using Cons.prems b by (cases cs) auto
  obtain k' f' where c: "c = (x, k', f')" using Cons.prems(3) by (cases c) (simp add: b cs)
  have "bs = cs'" by (rule Cons.IH [of x]) (use Cons.prems in \<open>simp_all add: b cs c\<close>)
  then show ?case using Cons.prems by (simp add: b cs c)
qed

lemma heap_inv_unique: "heap_inv s bs \<Longrightarrow> heap_inv s cs \<Longrightarrow> bs = cs"
  using linked_unique [of s 0 bs cs] heap_inv_mem(2) [of s bs] heap_inv_mem(2) [of s cs] by (auto simp: heap_inv_def)

lemma live_blocks_used: "heap_inv s bs \<Longrightarrow> live_blocks s = used bs"
  unfolding live_blocks_def used_def by (auto dest: heap_inv_unique)

lemma used_simps [simp]: "used [] = {}" "used ((x, k, True) # bs) = used bs"
  "used ((x, k, False) # bs) = insert (x + 32, unat k) (used bs)" "used (xs @ ys) = used xs \<union> used ys"
  by (auto simp: used_def)


lemma payload_start: "heap_inv s bs \<Longrightarrow> (x, k, f) \<in> set bs \<Longrightarrow> unat (x + 32) = unat x + 32"
  using heap_inv_mem(3) [of s bs "(x, k, f)"] by (simp add: heap_inv_def unat_word_ariths)

lemma blocks_apart:
  assumes "heap_inv s bs" and "(x, k, f) \<in> set bs" and "(y, j, g) \<in> set bs"
  shows "(x, k, f) = (y, j, g) \<or> unat x + 32 + unat k \<le> unat y \<or> unat y + 32 + unat j \<le> unat x"
proof -
  obtain xs ys where bs: "bs = xs @ (x, k, f) # ys" using assms(2) by (auto simp: in_set_conv_decomp)
  have "tiled (unat (heap_begin s)) (xs @ (x, k, f) # ys) (brk s)" using assms(1) bs by (simp add: heap_inv_def)
  from tiled_mid(1,2) [OF this, of y j g] assms(3) bs show ?thesis by auto
qed

lemma used_apart:
  assumes "heap_inv s bs" and "(p, n) \<in> used bs" and "(q, m) \<in> used bs"
  shows "(p, n) = (q, m) \<or> unat p + n + 32 \<le> unat q \<or> unat q + m + 32 \<le> unat p"
proof -
  obtain x k where x: "(x, k, False) \<in> set bs" "p = x + 32" "n = unat k" using assms(2) by (auto simp: used_def)
  obtain y j where y: "(y, j, False) \<in> set bs" "q = y + 32" "m = unat j" using assms(3) by (auto simp: used_def)
  show ?thesis
    using blocks_apart [OF assms(1) x(1) y(1)] x y payload_start [OF assms(1) x(1)] payload_start [OF assms(1) y(1)] by auto
qed

lemma used_release:
  assumes "heap_inv s (xs @ (x, k, False) # ys)"
  shows "used (release xs x k ys) = used (xs @ (x, k, False) # ys) - {(x + 32, unat k)}"
proof -
  have "(x + 32, unat k) \<notin> used (xs @ ys)"
  proof
    assume "(x + 32, unat k) \<in> used (xs @ ys)"
    then obtain y j where "(y, j, False) \<in> set xs \<union> set ys" "y + 32 = x + 32" by (auto simp: used_def)
    then have "(x, j, False) \<in> set xs \<union> set ys" by simp
    then show False using block_here_order(1,2) [OF heap_inv_here [OF assms], of "(x, j, False)"] by auto
  qed
  moreover have "used (release xs x k ys) = used (xs @ ys)"
  proof -
    have zs: "used zs = used ys" if "absorb k ys = (k', zs)" for k' zs
      using that by (cases ys k rule: absorb_cases) auto
    show ?thesis
    proof (cases "xs \<noteq> [] \<and> snd (snd (last xs))")
      case True
      then obtain w j where "last xs = (w, j, True)" by (cases "last xs") auto
      then have "xs = butlast xs @ [(w, j, True)]" using True append_butlast_last_id [of xs] by simp
      then have "used xs = used (butlast xs)" by (metis used_simps(1,2,4) sup_bot_right)
      then show ?thesis using True zs by (cases "absorb k ys") (simp add: release_def)
    next
      case False
      then show ?thesis using zs by (cases "absorb k ys") (auto simp: release_def)
    qed
  qed
  ultimately show ?thesis by auto
qed

lemma spec_kmalloc_used:
  assumes "spec_kmalloc n e bs = Some (x, bs')"
  shows "\<exists>k\<ge>n. used bs' = insert (x + 32, unat k) (used bs) \<and> (x, k, False) \<in> set bs'"
proof (cases "dropWhile (\<lambda>b. \<not> fits n b) bs")
  case Nil
  then show ?thesis using assms unfolding spec_kmalloc_def Nil by (auto split: if_splits)
next
  case (Cons b ys)
  obtain y k f where b: "b = (y, k, f)" by (cases b)
  have fb: "f" "n \<le> k" using Cons hd_dropWhile [of "\<lambda>b. \<not> fits n b" bs] by (auto simp: fits_def b)
  have "takeWhile (\<lambda>b. \<not> fits n b) bs @ (y, k, True) # ys = bs"
    using takeWhile_dropWhile_id [of "\<lambda>b. \<not> fits n b" bs] unfolding Cons b by (simp add: fb)
  then have u: "used bs = used (takeWhile (\<lambda>b. \<not> fits n b) bs) \<union> used ys"
    by (metis used_simps(2,4))
  have r: "x = y" "bs' = takeWhile (\<lambda>b. \<not> fits n b) bs @ carve n y k False @ ys"
    using assms unfolding spec_kmalloc_def Cons b by auto
  show ?thesis using fb(2) u r by (auto simp: carve_def)
qed


lemma spec_kmalloc_fresh:
  assumes "heap_inv s bs" and "spec_kmalloc n (brk s) bs = Some (x, bs')"
  shows "(x, k, False) \<notin> set bs"
proof (cases "dropWhile (\<lambda>b. \<not> fits n b) bs")
  case Nil
  have "unat (of_nat (brk s) :: u64) = brk s" using assms(1) by (simp add: unat_of_nat heap_inv_def)
  moreover have "x = of_nat (brk s)" using assms(2) unfolding spec_kmalloc_def Nil by (auto split: if_splits)
  ultimately show ?thesis using heap_inv_mem(3) [OF assms(1), of "(x, k, False)"] by auto
next
  case (Cons b ys)
  obtain y j f where b: "b = (y, j, f)" by (cases b)
  have "f" using Cons hd_dropWhile [of "\<lambda>b. \<not> fits n b" bs] by (auto simp: fits_def b)
  moreover have "b \<in> set bs" using Cons set_dropWhileD [of b "\<lambda>b. \<not> fits n b" bs] by simp
  moreover have "x = y" using assms(2) unfolding spec_kmalloc_def Cons b by auto
  ultimately show ?thesis using blocks_apart [OF assms(1), of x j True x k False] b by auto
qed

lemma kmalloc_cases:
  assumes "heap_inv s bs" and "0 < r" and "unat r + 32 \<le> 2 ^ 30" and "kmalloc r s = Some (p, s')"
  obtains x bs' where "spec_kmalloc (block_size r) (brk s) bs = Some (x, bs')" "p = x + 32" "heap_inv s' bs'" "kept s s' bs"
  using kmalloc_spec [OF assms(1-3)] assms(4) by (auto split: option.splits)

lemma live_cases:
  assumes "heap_ok s" and "(p, n) \<in> live_blocks s"
  obtains xs x k ys where "heap_inv s (xs @ (x, k, False) # ys)" "p = x + 32" "n = unat k"
proof -
  obtain x k bs where "heap_inv s bs" "(x, k, False) \<in> set bs" "p = x + 32" "n = unat k"
    using assms(2) by (auto simp: live_blocks_def)
  then show thesis using that by (metis in_set_conv_decomp)
qed

lemma kept_span: "kept s s' bs \<Longrightarrow> (q, m) \<in> used bs \<Longrightarrow> span q m y \<Longrightarrow> heap s' y = heap s y"
  by (auto simp: used_def dest: keptD)

interpretation kernel_heap: allocator heap_ok live_blocks heap kmalloc kfree
proof
  fix s :: alloc_state and p q n m y
  assume "heap_ok s" and l: "(p, n) \<in> live_blocks s" "(q, m) \<in> live_blocks s" "(p, n) \<noteq> (q, m)" "span p n y"
  then obtain bs where bs: "heap_inv s bs" by (auto simp: heap_ok_def)
  show "\<not> span q m y" using used_apart [OF bs, of p n q m] l by (auto simp: live_blocks_used [OF bs] span_def)
next
  fix s :: alloc_state and p n m
  assume "heap_ok s" and l: "(p, n) \<in> live_blocks s" "(p, m) \<in> live_blocks s"
  then obtain bs where bs: "heap_inv s bs" by (auto simp: heap_ok_def)
  show "n = m" using used_apart [OF bs, of p n p m] l by (auto simp: live_blocks_used [OF bs])
next
  fix s s' :: alloc_state and r p
  assume "heap_ok s" and r: "0 < r" "unat r + 32 \<le> 2 ^ 30" "kmalloc r s = Some (p, s')"
  then obtain bs where bs: "heap_inv s bs" by (auto simp: heap_ok_def)
  obtain x bs' where x: "spec_kmalloc (block_size r) (brk s) bs = Some (x, bs')" "p = x + 32" "heap_inv s' bs'" "kept s s' bs"
    using kmalloc_cases [OF bs r] .
  show "heap_ok s'" using x(3) by (auto simp: heap_ok_def)
  obtain k where k: "block_size r \<le> k" "used bs' = insert (x + 32, unat k) (used bs)"
    using spec_kmalloc_used [OF x(1)] by blast
  have "(x + 32, unat k) \<notin> used bs" using spec_kmalloc_fresh [OF bs x(1)] by (auto simp: used_def)
  moreover have "unat r \<le> unat k" using block_size_bounds(1) [OF r(1,2)] k(1) by (simp add: word_le_nat_alt)
  ultimately show "\<exists>n\<ge>unat r. (p, n) \<notin> live_blocks s \<and> live_blocks s' = insert (p, n) (live_blocks s)"
    using k(2) x(2) by (auto simp: live_blocks_used [OF bs] live_blocks_used [OF x(3)])
  show "heap s' y = heap s y" if "(q, m) \<in> live_blocks s" "span q m y" for q m y
    using that kept_span [OF x(4)] by (simp add: live_blocks_used [OF bs])
next
  fix s :: alloc_state and p n
  assume s: "heap_ok s" "(p, n) \<in> live_blocks s"
  then obtain xs x k ys where x: "heap_inv s (xs @ (x, k, False) # ys)" "p = x + 32" "n = unat k"
    by (rule live_cases)
  from kfree_spec [OF x(1)] obtain t where t: "kfree p s = Some t" "heap_inv t (release xs x k ys)" "kept s t (xs @ ys)"
    by (auto simp: x(2))
  then show "\<exists>s'. kfree p s = Some s'" by blast
  fix s' assume "kfree p s = Some s'"
  then have [simp]: "s' = t" using t by simp
  show "heap_ok s'" using t(2) by (auto simp: heap_ok_def)
  show lv: "live_blocks s' = live_blocks s - {(p, n)}"
    using used_release [OF x(1)] by (simp add: live_blocks_used [OF x(1)] live_blocks_used [OF t(2)] x)
  show "heap s' y = heap s y" if "(q, m) \<in> live_blocks s'" "span q m y" for q m y
  proof -
    have "(q, m) \<in> used (xs @ ys)"
      using that(1) unfolding lv by (auto simp: live_blocks_used [OF x(1)] x)
    then show ?thesis using kept_span [OF t(3)] that(2) by simp
  qed
qed

end
