(* ===== verification/Heap_Props.thy ===== *)
theory Heap_Props
  imports Heap_Safety
begin

text \<open>
  The properties of the allocator of \<^verbatim>\<open>src/src/memory/alloc.c\<close>, with \<open>krealloc\<close> and \<open>kcalloc\<close>, and heaps
  on which they are exercised.
\<close>

section \<open>Concrete heaps\<close>

definition fresh_heap :: alloc_state where
  "fresh_heap = \<lparr>heap_begin = 0x4400000, end_offset = 0, global_base = 0, heap = (\<lambda>_. 0), requests = []\<rparr>"

lemma fresh_heap_inv: "heap_inv fresh_heap []"
  by (simp add: heap_inv_def fresh_heap_def brk_def)

lemma fresh_brk: "brk fresh_heap = 0x4400000"
  by (simp add: fresh_heap_def brk_def)

text \<open>After a first allocation and its release the heap is one free block.\<close>

lemma block_size_values: "block_size 96 = 96" "block_size 20 = 32" "block_size 0 = 0" "block_size 150 = 224"
  by (simp_all add: block_size_def next_power_of_2_eq [of _ 7] next_power_of_2_eq [of _ 6] next_power_of_2_eq [of _ 5]
        next_power_of_2_eq [of _ 8])

lemma example_heap:
  obtains s where "heap_inv s [(0x4400000, 96, False), (0x4400080, 224, True)]" "brk s = 0x4400180"
proof -
  obtain s1 where s1: "heap_inv s1 [(0x4400000, 96, False)]"
    using kmalloc_spec [OF fresh_heap_inv, of 96] by (auto simp: spec_kmalloc_def block_size_values fresh_brk)
  then have b1: "brk s1 = 0x4400080" by (simp add: heap_inv_def)
  obtain s2 where s2: "heap_inv s2 ([(0x4400000, 96, False)] @ (0x4400080, 224, False) # [])"
    using kmalloc_spec [OF s1, of 150] by (auto simp: spec_kmalloc_def fits_def block_size_values b1)
  obtain s where s: "heap_inv s [(0x4400000, 96, False), (0x4400080, 224, True)]"
    using kfree_spec [OF s2] by (auto simp: release_def absorb_def)
  moreover have "brk s = 0x4400180" using s by (simp add: heap_inv_def)
  ultimately show thesis by (rule that)
qed

lemma release_carve:
  assumes "coalesced (xs @ (x, k, True) # ys)" and "n \<le> k"
  shows "\<exists>j zs. carve n x k False @ ys = (x, j, False) # zs \<and> release xs x j zs = xs @ (x, k, True) # ys"
proof -
  have nf: "\<not> (xs \<noteq> [] \<and> snd (snd (last xs)))" and ny: "ys = [] \<or> \<not> snd (snd (hd ys))"
    using assms(1) by (auto simp: coalesced_append coalesced_Cons)
  show ?thesis
  proof (cases "unat n + 32 < unat k")
    case True
    then show ?thesis using nf by (auto simp: carve_def release_def absorb_def)
  next
    case False
    moreover have "absorb k ys = (k, ys)" using ny by (cases ys k rule: absorb_cases) auto
    ultimately show ?thesis using nf by (auto simp: carve_def release_def)
  qed
qed

lemma kmalloc_zero: "kmalloc 0 s = Some (0, s)"
proof -
  have "next_power_of_2 32 - 32 = (0 :: u64)" using block_size_values(3) by (simp add: block_size_def)
  then show ?thesis by (simp add: kmalloc_def)
qed

section \<open>Writes into payloads\<close>

lemma heap_inv_write:
  assumes "heap_inv s bs" and "\<And>y. in_header bs y \<Longrightarrow> m y = heap s y"
  shows "heap_inv (s\<lparr>heap := m\<rparr>) bs"
proof -
  have "block_at (s\<lparr>heap := m\<rparr>) (fst b) = block_at s (fst b)" if b: "b \<in> set bs" for b
  proof -
    have ok: "hdr_ok (fst b)" using heap_inv_mem(1) [OF assms(1) b] .
    have hd: "m y = heap s y" if "span (fst b) 32 y" for y
      using that b by (intro assms(2)) (auto simp: in_header_def)
    have "load 8 m (fst b) = load 8 (heap s) (fst b)" "load 8 m (fst b + 8) = load 8 (heap s) (fst b + 8)"
      "load 8 m (fst b + 16) = load 8 (heap s) (fst b + 16)" "load 4 m (fst b + 24) = load 4 (heap s) (fst b + 24)"
      using hdr_fields [OF ok] ok by (intro load_cong hd; auto simp: hdr_ok_def span_def)+
    then show ?thesis by (simp add: block_at_def)
  qed
  then have "linked (s\<lparr>heap := m\<rparr>) 0 bs 0 = linked s 0 bs 0" by (rule linked_cong)
  then show ?thesis using assms(1) by (simp add: heap_inv_def brk_def)
qed

lemma heap_inv_payload:
  assumes "heap_inv s bs" and "(x, k, f) \<in> set bs" and "\<And>y. \<not> span (x + 32) (unat k) y \<Longrightarrow> m y = heap s y"
  shows "heap_inv (s\<lparr>heap := m\<rparr>) bs"
proof (rule heap_inv_write [OF assms(1)])
  have "tiled (unat (heap_begin s)) bs (brk s)" "brk s \<le> 2 ^ 63" using assms(1) by (auto simp: heap_inv_def)
  then show "m y = heap s y" if "in_header bs y" for y
    using payload_no_header [OF _ assms(2), of _ _ y] that assms(3) by blast
qed

lemma block_size_idem:
  assumes "0 < r" and "unat r + 32 \<le> 2 ^ 30"
  shows "block_size (block_size r) = block_size r"
proof -
  obtain k where k: "unat (block_size r) + 32 = 2 ^ k" using block_size_bounds(4) [OF assms] by blast
  have u: "unat (block_size r + 32) = unat (block_size r) + 32"
    using block_size_bounds(2) [OF assms] by (simp add: unat_word_ariths)
  have k32: "(2::nat) ^ k \<le> 2 ^ 30" using k block_size_bounds(2) [OF assms] by simp
  then have "k \<le> 30" by (rule power_le_imp_le_exp [rotated]) simp
  have "next_power_of_2 (block_size r + 32) = 2 ^ k"
  proof (rule next_power_of_2_eq)
    show "0 < block_size r + 32" using u by (simp add: word_less_nat_alt)
    show "k = 0 \<or> 2 ^ (k - 1) < unat (block_size r + 32)"
      unfolding u k by (cases k) auto
  qed (use u k \<open>k \<le> 30\<close> in simp_all)
  moreover have "block_size r + 32 = 2 ^ k"
    using u k \<open>k \<le> 30\<close> unat_two_power [of k] by (simp add: word_unat_eq_iff)
  ultimately show ?thesis by (simp add: block_size_def)
qed

section \<open>krealloc\<close>

lemma used_mem: "(x + 32, unat k) \<in> used bs \<Longrightarrow> (x, k, False) \<in> set bs"
  by (auto simp: used_def simp flip: word_unat_eq_iff)

lemma span_nth: "unat a + n \<le> 2 ^ 64 \<Longrightarrow> i < n \<Longrightarrow> span a n (a + of_nat i)"
  by (simp add: span_def unat_add_lt)

definition moved :: "alloc_state \<Rightarrow> alloc_state \<Rightarrow> u64 \<Rightarrow> u64 \<Rightarrow> u64 \<Rightarrow> blk list \<Rightarrow> u64 \<Rightarrow> bool" where
  "moved s s' x k sz bs q \<longleftrightarrow> (\<exists>n\<ge>unat sz. (q, n) \<in> live_blocks s') \<and> heap_ok s' \<and>
     (\<forall>i<unat k. heap s' (q + of_nat i) = heap s (x + 32 + of_nat i)) \<and> kept s s' (filter (\<lambda>b. fst b \<noteq> x) bs)"

lemma krealloc_merge:
  assumes inv: "heap_inv s (xs @ (x, k, False) # (y, j, True) # zs)" and sz: "sz \<le> j + 32 + k"
  shows "\<exists>s'. merge_block x s = Some s' \<and> moved s s' x k sz (xs @ (x, k, False) # (y, j, True) # zs) (x + 32)"
proof -
  let ?bs = "xs @ (x, k, False) # (y, j, True) # zs" and ?bs' = "xs @ (x, k + 32 + j, False) # zs"
  note h = heap_inv_here [OF inv]
  have e: "brk s \<le> 0x3f00b000" using inv by (simp add: heap_inv_def)
  obtain s' where s': "merge_block x s = Some s'" "linked s' 0 ?bs' 0" "tiled (unat (heap_begin s)) ?bs' (brk s)" "headers_only s s' ?bs"
    using merge_block_spec [OF h] by blast
  have kept: "kept s s' ?bs" by (rule headers_only_kept [OF s'(4), of "unat (heap_begin s)", OF _ e]) (use inv in \<open>simp_all add: heap_inv_def\<close>)
  have inv': "heap_inv s' ?bs'"
    using inv s'(2,3) headers_only_same [OF s'(4)] by (simp add: heap_inv_def nxt_append coalesced_append coalesced_Cons)
  have ps: "unat (x + 32) + unat k \<le> 2 ^ 64"
    using payload_start [OF inv, of x k False] block_here_order(3) [OF h] by simp
  have "heap s' (x + 32 + of_nat i) = heap s (x + 32 + of_nat i)" if "i < unat k" for i
    using keptD [OF kept, of x k] span_nth [OF ps that] by simp
  moreover have "(x + 32, unat (k + 32 + j)) \<in> live_blocks s'" by (simp add: live_blocks_used [OF inv'])
  moreover have "unat sz \<le> unat (k + 32 + j)" using sz by (simp add: word_le_nat_alt ac_simps)
  moreover have "kept s s' (filter (\<lambda>b. fst b \<noteq> x) ?bs)" by (rule kept_mono [OF kept]) (simp only: set_filter mem_Collect_eq)
  ultimately show ?thesis using s'(1) inv' unfolding moved_def heap_ok_def by blast
qed

lemma krealloc_move:
  assumes inv: "heap_inv s bs" and x: "(x, k, False) \<in> set bs" and r: "0 < sz" "unat sz + 32 \<le> 2 ^ 30" "k < sz"
    and km: "kmalloc (block_size sz) s = Some (q, s1)"
  shows "q \<noteq> 0 \<and> ab_size (block_at s1 x) = k \<and>
    (\<exists>s'. kfree (x + 32) (s1\<lparr>heap := memcpy q (x + 32) k (heap s1)\<rparr>) = Some s' \<and> moved s s' x k sz bs q)"
proof -
  note bsz = block_size_bounds [OF r(1,2)]
  obtain y bs1 where y: "spec_kmalloc (block_size (block_size sz)) (brk s) bs = Some (y, bs1)" "q = y + 32" "heap_inv s1 bs1" "kept s s1 bs"
    using kmalloc_cases [OF inv bsz(3,2) km] .
  obtain n where n: "block_size sz \<le> n" "used bs1 = insert (y + 32, unat n) (used bs)" "(y, n, False) \<in> set bs1"
    using spec_kmalloc_used [OF y(1)] unfolding block_size_idem [OF r(1,2)] by blast
  have x1: "(x, k, False) \<in> set bs1" using x n(2) by (intro used_mem) (auto simp: used_def)
  have yx: "y \<noteq> x" using spec_kmalloc_fresh [OF inv y(1)] x by blast
  have kn: "unat k < unat sz" "unat sz \<le> unat n" using r(3) n(1) bsz(1) by (auto simp: word_less_nat_alt word_le_nat_alt)
  have py: "unat q = unat y + 32" and px: "unat (x + 32) = unat x + 32"
    using payload_start [OF y(3) n(3)] payload_start [OF y(3) x1] y(2) by simp_all
  have top: "unat y + 32 + unat n \<le> 0x3f00b000" "unat x + 32 + unat k \<le> 0x3f00b000"
    using heap_inv_mem(3) [OF y(3) n(3)] heap_inv_mem(3) [OF y(3) x1] y(3) by (simp_all add: heap_inv_def)
  have ap: "unat x + 32 + unat k \<le> unat y \<or> unat y + 32 + unat n \<le> unat x"
    using blocks_apart [OF y(3) x1 n(3)] yx by auto
  define m where "m = memcpy q (x + 32) k (heap s1)"
  have m: "m = copied q (x + 32) (unat k) (heap s1)"
    unfolding m_def by (rule memcpy_copied) (use ap py px top kn in auto)
  have inv2: "heap_inv (s1\<lparr>heap := m\<rparr>) bs1"
    by (rule heap_inv_payload [OF y(3) n(3)]) (use kn y(2) in \<open>auto simp: m copied_def span_def\<close>)
  obtain xs ys where bs1: "bs1 = xs @ (x, k, False) # ys" using x1 by (auto simp: in_set_conv_decomp)
  obtain s' where s': "kfree (x + 32) (s1\<lparr>heap := m\<rparr>) = Some s'" "heap_inv s' (release xs x k ys)"
    "kept (s1\<lparr>heap := m\<rparr>) s' (xs @ ys)"
    using kfree_spec [OF inv2 [unfolded bs1]] by auto
  have live: "live_blocks s' = used bs1 - {(x + 32, unat k)}"
    using used_release [OF inv2 [unfolded bs1]] by (simp add: live_blocks_used [OF s'(2)] bs1)
  have "(q, unat n) \<in> live_blocks s'" unfolding live n(2) using y(2) yx by auto
  moreover have "heap s' (q + of_nat i) = heap s (x + 32 + of_nat i)" if i: "i < unat k" for i
  proof -
    have "span q (unat n) (q + of_nat i)" using py top kn i by (intro span_nth) auto
    then have "heap s' (q + of_nat i) = m (q + of_nat i)"
      using keptD [OF s'(3), of y n] n(3) yx bs1 y(2) by auto
    also have "\<dots> = heap s1 (x + 32 + of_nat i)"
      using span_nth [of q "unat k" i] py top kn i by (simp add: m copied_def)
    also have "\<dots> = heap s (x + 32 + of_nat i)"
      using keptD [OF y(4) x] span_nth [of "x + 32" "unat k" i] px top i by simp
    finally show ?thesis .
  qed
  moreover have "kept s s' (filter (\<lambda>b. fst b \<noteq> x) bs)"
  proof (rule keptI)
    show hb: "heap_begin s' = heap_begin s" using kept_low(1) [OF s'(3)] kept_low(1) [OF y(4)] by simp
    show "heap s' a = heap s a" if a: "off_heap s a" for a
    proof -
      have "unat (heap_begin s) \<le> unat q"
        using heap_inv_mem(3) [OF y(3) n(3)] py kept_low(1) [OF y(4)] tiled_mem [of "unat (heap_begin s1)" bs1 "brk s1" y n False] y(3) n(3)
        by (simp add: heap_inv_def)
      moreover have "unat q + unat k \<le> 0x3f00b000"
        using heap_inv_mem(3) [OF y(3) n(3)] y(3) py kn by (simp add: heap_inv_def)
      ultimately have "m a = heap s1 a" using a by (auto simp: m copied_def span_def off_heap_def)
      then show ?thesis using kept_low(2) [OF s'(3), of a] kept_low(2) [OF y(4), of a] kept_low(1) [OF y(4)] a
        by (simp add: off_heap_def)
    qed
    fix z l a assume z: "(z, l, False) \<in> set (filter (\<lambda>b. fst b \<noteq> x) bs)" and a: "span (z + 32) (unat l) a"
    then have z1: "(z, l, False) \<in> set bs1" using n(2) by (intro used_mem) (auto simp: used_def)
    have zy: "z \<noteq> y" using spec_kmalloc_fresh [OF inv y(1)] z by auto
    have "heap s' a = m a" using keptD [OF s'(3), of z l a] z z1 a bs1 by auto
    also have "m a = heap s1 a"
      using blocks_apart [OF y(3) z1 n(3)] zy a payload_start [OF y(3) z1] py kn by (auto simp: m copied_def span_def)
    also have "\<dots> = heap s a" using keptD [OF y(4), of z l a] z a by auto
    finally show "heap s' a = heap s a" .
  qed
  ultimately have "moved s s' x k sz bs q" using kn(2) s'(2) unfolding moved_def heap_ok_def by blast
  moreover have "q \<noteq> 0" using py by auto
  moreover have "ab_size (block_at s1 x) = k"
    using block_here_fields(1) [OF heap_inv_here [OF y(3) [unfolded bs1]]] .
  ultimately show ?thesis using s'(1) unfolding m_def by blast
qed

lemma krealloc_spec:
  assumes inv: "heap_inv s bs" and x: "(x, k, False) \<in> set bs" and r: "0 < sz" "unat sz + 32 \<le> 2 ^ 30"
  shows "case krealloc (x + 32) sz s of
       None \<Rightarrow> spec_kmalloc (block_size sz) (brk s) bs = None
     | Some (q, s') \<Rightarrow> q \<noteq> 0 \<and> moved s s' x k sz bs q"
proof -
  obtain xs ys where bs: "bs = xs @ (x, k, False) # ys" using x by (auto simp: in_set_conv_decomp)
  note h = heap_inv_here [OF inv [unfolded bs]]
  note fld = block_here_fields [OF h]
  have x32: "x + 32 \<noteq> 0" using payload_start [OF inv x] by auto
  have gb: "get_block_ptr (x + 32) = x" by (simp add: get_block_ptr_def)
  show ?thesis
  proof (cases "sz \<le> k")
    case True
    then have "krealloc (x + 32) sz s = Some (x + 32, s)" using x32 fld(1) by (simp add: krealloc_def gb Let_def)
    moreover have "(x + 32, unat k) \<in> live_blocks s" using x by (auto simp: live_blocks_used [OF inv] used_def)
    ultimately show ?thesis using inv True x32 by (auto simp: moved_def heap_ok_def word_le_nat_alt)
  next
    case False
    let ?merge = "\<exists>y j zs. ys = (y, j, True) # zs \<and> sz \<le> j + 32 + k"
    have cond: "(ab_next (block_at s x) \<noteq> 0 \<and> ab_free (block_at s (ab_next (block_at s x))) \<noteq> 0 \<and>
        ab_size (block_at s (ab_next (block_at s x))) + 32 + ab_size (block_at s x) \<ge> sz) = ?merge"
      using fld(1,2,6) block_here_hdr(5) [OF h] by (cases ys) auto
    show ?thesis
    proof (cases ?merge)
      case True
      then obtain y j zs where ys: "ys = (y, j, True) # zs" "sz \<le> j + 32 + k" by blast
      obtain s' where "merge_block x s = Some s'" "moved s s' x k sz bs (x + 32)"
        using krealloc_merge [OF inv [unfolded bs ys(1)] ys(2)] by (auto simp: bs ys(1))
      then show ?thesis using x32 False fld(1) True cond unfolding krealloc_def gb Let_def by simp
    next
      case nm: False
      have eq: "krealloc (x + 32) sz s = do { (q, s1) \<leftarrow> kmalloc (block_size sz) s; if q = 0 then Some (0, s1)
          else do { s1 \<leftarrow> kfree (x + 32) (s1\<lparr>heap := memcpy q (x + 32) (ab_size (block_at s1 x)) (heap s1)\<rparr>); Some (q, s1) } }"
      proof -
        have "\<not> (ab_next (block_at s x) \<noteq> 0 \<and> ab_free (block_at s (ab_next (block_at s x))) \<noteq> 0 \<and>
            ab_size (block_at s (ab_next (block_at s x))) + 32 + ab_size (block_at s x) \<ge> sz)"
          unfolding cond by (rule nm)
        moreover have "\<not> sz \<le> ab_size (block_at s x)" using False fld(1) by simp
        ultimately show ?thesis unfolding krealloc_def gb Let_def block_size_def if_not_P [OF x32] by (simp only: if_False)
      qed
      show ?thesis
      proof (cases "kmalloc (block_size sz) s")
        case None
        then have "spec_kmalloc (block_size (block_size sz)) (brk s) bs = None"
          using kmalloc_spec [OF inv block_size_bounds(3,2) [OF r]] by (auto split: option.splits)
        then show ?thesis using None by (simp add: eq block_size_idem [OF r])
      next
        case (Some res)
        obtain q s1 where res: "res = (q, s1)" by (cases res)
        from krealloc_move [OF inv x r _ Some [unfolded res]] False obtain s' where "q \<noteq> 0" "ab_size (block_at s1 x) = k"
          "kfree (x + 32) (s1\<lparr>heap := memcpy q (x + 32) k (heap s1)\<rparr>) = Some s'" "moved s s' x k sz bs q" by (auto simp: not_le)
        then show ?thesis by (simp add: eq Some res)
      qed
    qed
  qed
qed

text \<open>What a client may rely on after a successful \<open>kmalloc\<close>, whatever it then writes into its block.\<close>

lemma kmalloc_fresh_block:
  assumes inv: "heap_inv s bs" and r: "0 < r" "unat r + 32 \<le> 2 ^ 30" and km: "kmalloc r s = Some (q, s1)"
  obtains k where "unat r \<le> k" "unat q + k \<le> 0x3f00b000" "q \<noteq> 0" "kept s s1 bs"
    "\<And>p n. (p, n) \<in> used bs \<Longrightarrow> unat q + k \<le> unat p \<or> unat p + n \<le> unat q"
    "\<And>m. (\<And>y. \<not> span q k y \<Longrightarrow> m y = heap s1 y) \<Longrightarrow> heap_ok (s1\<lparr>heap := m\<rparr>) \<and> kept s (s1\<lparr>heap := m\<rparr>) bs \<and>
       (q, k) \<notin> live_blocks s \<and> live_blocks (s1\<lparr>heap := m\<rparr>) = insert (q, k) (live_blocks s)"
proof -
  obtain y bs1 where y: "spec_kmalloc (block_size r) (brk s) bs = Some (y, bs1)" "q = y + 32" "heap_inv s1 bs1" "kept s s1 bs"
    using kmalloc_cases [OF inv r km] .
  obtain k where k: "block_size r \<le> k" "used bs1 = insert (q, unat k) (used bs)" "(y, k, False) \<in> set bs1"
    using spec_kmalloc_used [OF y(1)] y(2) by blast
  have q: "unat q = unat y + 32" using payload_start [OF y(3) k(3)] y(2) by simp
  have fresh: "(q, unat k) \<notin> used bs" using spec_kmalloc_fresh [OF inv y(1)] y(2) by (auto simp: used_def)
  have apart: "unat q + unat k \<le> unat p \<or> unat p + n \<le> unat q" if "(p, n) \<in> used bs" for p n
    using used_apart [OF y(3), of q "unat k" p n] fresh k(2) that by auto
  show thesis
  proof
    show "unat r \<le> unat k" using block_size_bounds(1) [OF r] k(1) by (simp add: word_le_nat_alt)
    show "unat q + unat k \<le> 0x3f00b000" using heap_inv_mem(3) [OF y(3) k(3)] y(3) q by (simp add: heap_inv_def)
    show "q \<noteq> 0" using q by auto
    fix m assume m: "\<And>y. \<not> span q (unat k) y \<Longrightarrow> m y = heap s1 y"
    have inv2: "heap_inv (s1\<lparr>heap := m\<rparr>) bs1" using y(2) m by (intro heap_inv_payload [OF y(3) k(3)]) simp
    have "kept s1 (s1\<lparr>heap := m\<rparr>) bs"
    proof (rule keptI)
      show "heap (s1\<lparr>heap := m\<rparr>) a = heap s1 a" if "off_heap s1 a" for a
        using that m [of a] q tiled_mem [of "unat (heap_begin s1)" bs1 "brk s1" y k False] heap_inv_mem(3) [OF y(3) k(3)] y(3) k(3)
        by (auto simp: heap_inv_def span_def off_heap_def)
      fix z l a assume z: "(z, l, False) \<in> set bs" "span (z + 32) (unat l) a"
      then have "(z + 32, unat l) \<in> used bs" by (auto simp: used_def)
      from apart [OF this] z(2) have "\<not> span q (unat k) a" by (auto simp: span_def)
      then show "heap (s1\<lparr>heap := m\<rparr>) a = heap s1 a" using m by simp
    qed simp
    then show "heap_ok (s1\<lparr>heap := m\<rparr>) \<and> kept s (s1\<lparr>heap := m\<rparr>) bs \<and>
       (q, unat k) \<notin> live_blocks s \<and> live_blocks (s1\<lparr>heap := m\<rparr>) = insert (q, unat k) (live_blocks s)"
      using inv2 kept_trans [OF y(4)] fresh k(2) unfolding heap_ok_def live_blocks_used [OF inv] live_blocks_used [OF inv2] by blast
  qed (use y(4) apart in auto)
qed

lemma kcalloc_spec:
  assumes inv: "heap_inv s bs" and r: "0 < c * n" "unat (c * n) + 32 \<le> 2 ^ 30"
  shows "case kcalloc c n s of
       None \<Rightarrow> spec_kmalloc (block_size (c * n)) (brk s) bs = None
     | Some (q, s') \<Rightarrow> heap_ok s' \<and> (\<exists>k\<ge>unat (c * n). (q, k) \<notin> live_blocks s \<and> live_blocks s' = insert (q, k) (live_blocks s)) \<and>
         (\<forall>i<unat (c * n). heap s' (q + of_nat i) = 0) \<and> kept s s' bs"
proof (cases "kmalloc (c * n) s")
  case None
  then show ?thesis using kmalloc_spec [OF inv r] by (auto simp: kcalloc_def Let_def split: option.splits)
next
  case (Some res)
  obtain q s1 where res: "res = (q, s1)" by (cases res)
  note km = Some [unfolded res]
  define m where "m = memset q 0 (c * n) (heap s1)"
  obtain k where k: "unat (c * n) \<le> k" "unat q + k \<le> 0x3f00b000"
    and new: "(\<And>y. \<not> span q k y \<Longrightarrow> m y = heap s1 y) \<Longrightarrow> heap_ok (s1\<lparr>heap := m\<rparr>) \<and> kept s (s1\<lparr>heap := m\<rparr>) bs \<and>
       (q, k) \<notin> live_blocks s \<and> live_blocks (s1\<lparr>heap := m\<rparr>) = insert (q, k) (live_blocks s)"
    using kmalloc_fresh_block [OF inv r km] by metis
  have m: "m = (\<lambda>x. if span q (unat (c * n)) x then 0 else heap s1 x)"
    unfolding m_def by (subst memset_filled) (use k in auto)
  have "m y = heap s1 y" if "\<not> span q k y" for y using that k(1) by (auto simp: m span_def)
  moreover have "m (q + of_nat i) = 0" if "i < unat (c * n)" for i
    using span_nth [of q "unat (c * n)" i] that k by (simp add: m)
  moreover have "kcalloc c n s = Some (q, s1\<lparr>heap := m\<rparr>)" by (simp add: kcalloc_def Let_def km m_def)
  ultimately show ?thesis using new k(1) by auto
qed

section \<open>Properties\<close>

text \<open>
  C25. \<open>kmalloc\<close> implements its specification on the list of blocks: a request of size 0 returns a null
  pointer; any other takes the first free block that is large enough and splits it, or extends the
  heap by a block at the program break; it aborts exactly when the heap cannot grow. The list stays
  well formed and no byte of a block in use changes.
\<close>

theorem kmalloc_refines:
  assumes "heap_inv s bs" and "unat r + 32 \<le> 2 ^ 30"
  shows "if r = 0 then kmalloc r s = Some (0, s)
     else (case spec_kmalloc (block_size r) (brk s) bs of
        None \<Rightarrow> kmalloc r s = None
      | Some (x, bs') \<Rightarrow> \<exists>s'. kmalloc r s = Some (x + 32, s') \<and> heap_inv s' bs' \<and> kept s s' bs)"
  using kmalloc_spec [OF assms(1) _ assms(2)] by (simp add: word_gt_0 kmalloc_zero)

theorem kmalloc_refines_witness:
  "heap_inv fresh_heap [] \<and>
   (\<exists>s'. kmalloc 20 fresh_heap = Some (0x4400020, s') \<and> heap_inv s' [(0x4400000, 32, False)])"
  using kmalloc_refines [OF fresh_heap_inv, of 20] fresh_heap_inv
  by (auto simp: spec_kmalloc_def block_size_values fresh_brk)

text \<open>
  C26. \<open>kfree\<close> implements its specification: the block becomes free and is merged with the free blocks
  next to it, the list stays well formed, and no byte of another block in use changes. Freeing a
  block that is already free fails the assertion of the code.
\<close>

theorem kfree_refines:
  assumes "heap_inv s (xs @ (x, k, f) # ys)"
  shows "if f then kfree (x + 32) s = None
    else \<exists>s'. kfree (x + 32) s = Some s' \<and> heap_inv s' (release xs x k ys) \<and> kept s s' (xs @ ys)"
  by (rule kfree_spec [OF assms])

theorem kfree_refines_witness:
  "\<exists>s s'. heap_inv s [(0x4400000, 96, False), (0x4400080, 224, True)] \<and> kfree 0x4400020 s = Some s' \<and>
     heap_inv s' [(0x4400000, 352, True)]"
proof -
  obtain s where s: "heap_inv s ([] @ (0x4400000, 96, False) # [(0x4400080, 224, True)])"
    using example_heap by auto
  show ?thesis using kfree_refines [OF s] s by (auto simp: release_def absorb_def)
qed

text \<open>
  Freeing a block just allocated from the free list restores the list of blocks: what \<open>kmalloc\<close>
  carved off is merged again by \<open>kfree\<close>.
\<close>

theorem kmalloc_kfree_restores:
  assumes "heap_inv s bs" and "0 < r" and "unat r + 32 \<le> 2 ^ 30" and "\<exists>b\<in>set bs. fits (block_size r) b"
  shows "\<exists>p s1 s2. kmalloc r s = Some (p, s1) \<and> p \<noteq> 0 \<and> kfree p s1 = Some s2 \<and> heap_inv s2 bs \<and> kept s s2 bs"
proof -
  obtain xs b ys where bs: "bs = xs @ b # ys" and b: "fits (block_size r) b" and xs: "\<forall>b\<in>set xs. \<not> fits (block_size r) b"
    using split_list_first_propE [OF assms(4)] by metis
  obtain x k where xk: "b = (x, k, True)" "block_size r \<le> k" using b by (cases b) (auto simp: fits_def)
  obtain s1 where s1: "kmalloc r s = Some (x + 32, s1)" "heap_inv s1 (xs @ carve (block_size r) x k False @ ys)" "kept s s1 bs"
    using kmalloc_fit [OF _ xs xk(2) refl block_size_bounds(3) [OF assms(2,3)]] assms(1) bs xk(1) by blast
  have "coalesced (xs @ (x, k, True) # ys)" using assms(1) by (simp add: bs xk heap_inv_def)
  from release_carve [OF this xk(2)] obtain j zs where
    j: "carve (block_size r) x k False @ ys = (x, j, False) # zs" "release xs x j zs = bs" by (auto simp: bs xk)
  obtain s2 where "kfree (x + 32) s1 = Some s2" "heap_inv s2 bs" "kept s1 s2 (xs @ zs)"
    using kfree_spec [of s1 xs x j False zs] s1(2) j by auto
  moreover have "x + 32 \<noteq> 0"
    using payload_start [OF assms(1), of x k True] by (auto simp: bs xk)
  moreover have "kept s1 s2 bs"
  proof (rule kept_mono [OF \<open>kept s1 s2 (xs @ zs)\<close>])
    have "set ys \<subseteq> set zs" using j(1) by (auto simp: carve_def split: if_splits)
    then show "(y, i, False) \<in> set (xs @ zs)" if "(y, i, False) \<in> set bs" for y i using that by (auto simp: bs xk)
  qed
  ultimately show ?thesis using s1 kept_trans by blast
qed


theorem kmalloc_kfree_restores_witness:
  "\<exists>s p s1 s2. heap_inv s [(0x4400000, 96, False), (0x4400080, 224, True)] \<and> kmalloc 20 s = Some (p, s1) \<and>
     kfree p s1 = Some s2 \<and> heap_inv s2 [(0x4400000, 96, False), (0x4400080, 224, True)]"
proof -
  obtain s where s: "heap_inv s [(0x4400000, 96, False), (0x4400080, 224, True)]" using example_heap by auto
  show ?thesis using kmalloc_kfree_restores [OF s, of 20] s by (auto simp: fits_def block_size_values)
qed

text \<open>
  C24. Memory safety of the heap: whatever sequence of \<open>kmalloc\<close> and \<open>kfree\<close> a client performs that
  frees only blocks it holds, a block it does not free stays allocated, shares no byte with any
  other block in use, and keeps its contents.
\<close>

theorem heap_client_safety:
  assumes "heap_ok s" and "well_behaved kmalloc kfree live_blocks ops s" and "run_ops kmalloc kfree ops s = Some s'"
    and "(p, n) \<in> live_blocks s" and "Free p \<notin> set ops"
  shows "heap_ok s' \<and> (p, n) \<in> live_blocks s' \<and> (\<forall>y. span p n y \<longrightarrow> heap s' y = heap s y) \<and>
    (\<forall>q m y. (q, m) \<in> live_blocks s' \<and> (q, m) \<noteq> (p, n) \<and> span p n y \<longrightarrow> \<not> span q m y)"
proof -
  have k: "heap_ok s' \<and> (p, n) \<in> live_blocks s' \<and> (\<forall>y. span p n y \<longrightarrow> heap s' y = heap s y)"
    by (rule kernel_heap.run_keeps [OF assms])
  then show ?thesis using kernel_heap.live_apart [of s' p n] by blast
qed

theorem heap_client_safety_witness:
  "\<exists>s s'. heap_ok s \<and> run_ops kmalloc kfree [Malloc 20] s = Some s' \<and> (0x4400020, 96) \<in> live_blocks s \<and>
     (0x4400020, 96) \<in> live_blocks s'"
proof -
  obtain s where s: "heap_inv s [(0x4400000, 96, False), (0x4400080, 224, True)]" using example_heap by auto
  then have ok: "heap_ok s" and l: "(0x4400020, 96) \<in> live_blocks s"
    by (auto simp: heap_ok_def live_blocks_used [OF s] used_def)
  obtain p s' where s': "kmalloc 20 s = Some (p, s')"
    using kmalloc_spec [OF s, of 20] by (auto simp: spec_kmalloc_def fits_def block_size_values)
  show ?thesis using heap_client_safety [OF ok _ _ l, of "[Malloc 20]" s'] s' ok l by auto
qed

text \<open>
  \<open>next_power_of_2\<close> computes, for every number from 1 to \<open>2 ^ 32\<close>, the least power of two that is
  not below it.
\<close>

theorem next_power_of_2_least:
  assumes "0 < n" and "unat n \<le> 2 ^ 32"
  shows "\<exists>k. unat (next_power_of_2 n) = 2 ^ k \<and> unat n \<le> 2 ^ k \<and> (\<forall>j. unat n \<le> 2 ^ j \<longrightarrow> k \<le> j)"
proof -
  obtain k where k: "k \<le> 32" "next_power_of_2 n = 2 ^ k" "unat n \<le> 2 ^ k" "k = 0 \<or> 2 ^ (k - 1) < unat n"
    using next_power_of_2_ex [OF assms] .
  then have "unat (next_power_of_2 n) = 2 ^ k" using unat_two_power [of k] by simp
  moreover have "k \<le> j" if "unat n \<le> 2 ^ j" for j
  proof (rule ccontr)
    assume "\<not> k \<le> j"
    then have "(2::nat) ^ j \<le> 2 ^ (k - 1)" by (intro power_increasing) auto
    moreover have "2 ^ (k - 1) < unat n" using k(4) \<open>\<not> k \<le> j\<close> by auto
    ultimately show False using that by linarith
  qed
  ultimately show ?thesis using k(3) by blast
qed

theorem next_power_of_2_least_witness:
  "\<exists>k. unat (next_power_of_2 100) = 2 ^ k \<and> unat (100 :: u64) \<le> 2 ^ k \<and> (\<forall>j. unat (100 :: u64) \<le> 2 ^ j \<longrightarrow> k \<le> j)"
  by (rule next_power_of_2_least) simp_all


text \<open>
  C27. \<open>krealloc\<close> of a block in use returns a block in use of at least the requested size whose first
  bytes are those of the old block, and leaves every other block in use untouched, whether it keeps
  the block, merges it with its free successor or moves it. It aborts only when the heap is
  exhausted.
\<close>

theorem krealloc_keeps_contents:
  assumes "heap_inv s bs" and "(x, k, False) \<in> set bs" and "0 < sz" and "unat sz + 32 \<le> 2 ^ 30"
  shows "case krealloc (x + 32) sz s of
       None \<Rightarrow> spec_kmalloc (block_size sz) (brk s) bs = None
     | Some (q, s') \<Rightarrow> q \<noteq> 0 \<and> heap_ok s' \<and> (\<exists>n\<ge>unat sz. (q, n) \<in> live_blocks s') \<and>
         (\<forall>i<unat k. heap s' (q + of_nat i) = heap s (x + 32 + of_nat i)) \<and>
         kept s s' (filter (\<lambda>b. fst b \<noteq> x) bs)"
  using krealloc_spec [OF assms] by (auto simp: moved_def split: option.splits)

theorem krealloc_keeps_contents_witness:
  "\<exists>s q s'. heap_inv s [(0x4400000, 96, False), (0x4400080, 224, True)] \<and> krealloc 0x4400020 300 s = Some (q, s') \<and>
     (\<forall>i<96. heap s' (q + of_nat i) = heap s (0x4400020 + of_nat i))"
proof -
  obtain s where s: "heap_inv s [(0x4400000, 96, False), (0x4400080, 224, True)]" "brk s = 0x4400180" using example_heap .
  have "block_size 300 = 480" by (simp add: block_size_def next_power_of_2_eq [of _ 9])
  then show ?thesis using krealloc_keeps_contents [OF s(1), of "0x4400000" 96 300] s
    by (auto simp: spec_kmalloc_def fits_def split: option.splits)
qed

text \<open>
  \<open>kcalloc\<close> returns a null pointer for an empty array and otherwise a fresh block of at least the
  size of the array, filled with zeros; every other block in use keeps its contents. It aborts only
  when the heap is exhausted.
\<close>

theorem kcalloc_zeroed:
  assumes "heap_inv s bs" and "unat c * unat n + 32 \<le> 2 ^ 30"
  shows "case kcalloc c n s of
       None \<Rightarrow> spec_kmalloc (block_size (c * n)) (brk s) bs = None
     | Some (q, s') \<Rightarrow> if c * n = 0 then q = 0 \<and> s' = s
         else heap_ok s' \<and> (\<exists>k\<ge>unat c * unat n. (q, k) \<notin> live_blocks s \<and> live_blocks s' = insert (q, k) (live_blocks s)) \<and>
           (\<forall>i<unat c * unat n. heap s' (q + of_nat i) = 0) \<and> kept s s' bs"
proof -
  have u: "unat (c * n) = unat c * unat n" using assms(2) by (simp add: unat_word_ariths)
  show ?thesis
  proof (cases "c * n = 0")
    case True
    then show ?thesis by (simp add: kcalloc_def kmalloc_zero memset_def)
  next
    case False
    then have "0 < c * n" by (simp add: word_gt_0)
    from kcalloc_spec [OF assms(1) this] assms(2) False u show ?thesis by (auto split: option.splits)
  qed
qed

theorem kcalloc_zeroed_witness:
  "\<exists>q s'. kcalloc 3 8 fresh_heap = Some (q, s') \<and> (\<forall>i<24. heap s' (q + of_nat i) = 0)"
  using kcalloc_zeroed [OF fresh_heap_inv, of 3 8]
  by (auto simp: spec_kmalloc_def block_size_def next_power_of_2_eq [of _ 6] fresh_brk split: option.splits)


text \<open>
  The size of a request is narrowed to \<open>int\<close> on its way to \<open>ksbrk\<close>: a first request between 2 and 4
  GiB returns a pointer although the heap has not grown by a single byte, so that the block lies in
  memory the allocator will hand out again.
\<close>

theorem kmalloc_narrowed_size:
  assumes "heap_inv s []" and "2 ^ 31 < unat r + 32" and "unat r + 32 \<le> 2 ^ 32"
  shows "\<exists>s'. kmalloc r s = Some (heap_begin s + 32, s') \<and> end_offset s' = end_offset s \<and>
    ab_size (block_at s' (heap_begin s)) = 2 ^ 32 - 32"
proof -
  have hb: "32 \<le> unat (heap_begin s)" "end_offset s = 0" "global_base s = 0" "unat (heap_begin s) \<le> 0x3f00b000"
    using assms(1) by (auto simp: heap_inv_def brk_def unsigned_eq_0_iff)
  have "unat (r + 32) = unat r + 32" using assms(3) by (simp add: unat_word_ariths)
  then have "next_power_of_2 (r + 32) = 2 ^ 32"
    using assms(2,3) by (intro next_power_of_2_eq) (auto simp: word_less_nat_alt)
  then have sz: "next_power_of_2 (r + 32) - 32 = 2 ^ 32 - 32" by simp
  have k0: "ksbrk 0 s = Some (heap_begin s, s)" using ksbrk_up [of s 0] hb by simp
  have ok: "hdr_ok (heap_begin s)" "32 \<le> heap_begin s" "heap_begin s \<noteq> -1" "0 < heap_begin s"
    using hb by (auto simp: hdr_ok_def word_le_nat_alt word_less_nat_alt unsigned_minus_1_eq_mask mask_eq_exp_minus_1)
  define s' where "s' = set_free (heap_begin s) 0 (set_next (heap_begin s) 0 (set_size (heap_begin s) (2 ^ 32 - 32)
    (set_prev (heap_begin s) 0 s)))"
  have "(4294967296 :: u32) = 0" by (subst word_unat_eq_iff) simp
  then have "ksbrk 4294967296 s = Some (heap_begin s, s)" using k0 by metis
  then have "extend_heap 0 (2 ^ 32 - 32) s = Some (heap_begin s, s')"
    using ok k0 by (simp add: extend_heap_def s'_def)
  then have "kmalloc r s = Some (heap_begin s + 32, s'\<lparr>global_base := heap_begin s\<rparr>)"
    using hb(3) ok(4) by (simp add: kmalloc_def sz)
  moreover have "ab_size (block_at (s'\<lparr>global_base := heap_begin s\<rparr>) (heap_begin s)) = 2 ^ 32 - 32"
  proof -
    have "block_at (s'\<lparr>global_base := heap_begin s\<rparr>) = block_at s'" by (simp add: fun_eq_iff block_at_def)
    then show ?thesis using ok(1) by (simp add: s'_def block_at_poke_same)
  qed
  ultimately show ?thesis by (simp add: s'_def poke_def)
qed

theorem kmalloc_narrowed_size_witness:
  "\<exists>s'. kmalloc 0x90000000 fresh_heap = Some (0x4400020, s') \<and> end_offset s' = 0"
  using kmalloc_narrowed_size [OF fresh_heap_inv, of "0x90000000"] by (auto simp: fresh_heap_def)

end
