(* ===== verification/String_Alloc.thy ===== *)
theory String_Alloc
  imports Heap_Props
begin

text \<open>
  The string routines of \<^verbatim>\<open>src/src/libk/string.c\<close> that allocate their result with \<open>kmalloc\<close>. The
  arguments are strings held in blocks in use (\<open>inside\<close>), the result is a string in a fresh block.
\<close>

section \<open>Definitions\<close>

definition strcat :: "u64 \<Rightarrow> u64 \<Rightarrow> alloc_state \<Rightarrow> (u64 \<times> alloc_state) option" where
  "strcat str1 str2 s =
     do { len1 \<leftarrow> strlen str1 (heap s);
          len2 \<leftarrow> strlen str2 (heap s);
          (cat, s) \<leftarrow> kmalloc ((len1 + len2 + 1) * 1) s;
          let s = s\<lparr>heap := memcpy cat str1 len1 (heap s)\<rparr>;
          let s = s\<lparr>heap := memcpy (cat + len1) str2 (len2 + 1) (heap s)\<rparr>;
          Some (cat, s) }"

definition filename_join :: "u64 \<Rightarrow> u64 \<Rightarrow> alloc_state \<Rightarrow> (u64 \<times> alloc_state) option" where
  "filename_join str1 str2 s =
     do { len1 \<leftarrow> strlen str1 (heap s);
          len2 \<leftarrow> strlen str2 (heap s);
          (cat, s) \<leftarrow> kmalloc ((len1 + len2 + 2) * 1) s;
          let s = s\<lparr>heap := memcpy cat str1 len1 (heap s)\<rparr>;
          let s = s\<lparr>heap := memcpy (cat + len1 + 1) str2 (len2 + 1) (heap s)\<rparr>;
          let s = s\<lparr>heap := (heap s)(cat + len1 := 47)\<rparr>;
          Some (cat, s) }"

section \<open>Strings in memory\<close>

text \<open>\<open>n\<close> bytes from \<open>p\<close> on lie inside a block in use.\<close>

definition inside :: "u64 \<Rightarrow> nat \<Rightarrow> (u64 \<times> nat) set \<Rightarrow> bool" where
  "inside p n L \<longleftrightarrow> (\<exists>(b, k)\<in>L. unat b \<le> unat p \<and> unat p + n \<le> unat b + k)"

lemma inside_mono: "inside p n L \<Longrightarrow> k \<le> n \<Longrightarrow> inside p k L"
  unfolding inside_def by (erule bexE, rule bexI) auto

lemma two_copies:
  assumes inv: "heap_inv s bs" and r: "0 < r" "unat r + 32 \<le> 2 ^ 30" and km: "kmalloc r s = Some (q, s1)"
    and p: "inside p1 (unat n1) (used bs)" "inside p2 (unat n2) (used bs)"
    and d: "unat n1 \<le> d" "d + unat n2 \<le> unat r"
  defines "m \<equiv> memcpy (q + of_nat d) p2 n2 (memcpy q p1 n1 (heap s1))"
  shows "q \<noteq> 0" "i < unat n1 \<Longrightarrow> m (q + of_nat i) = heap s (p1 + of_nat i)"
    "i < unat n2 \<Longrightarrow> m (q + of_nat (d + i)) = heap s (p2 + of_nat i)"
    "(\<And>y. \<not> span q (unat r) y \<Longrightarrow> m' y = m y) \<Longrightarrow> heap_ok (s1\<lparr>heap := m'\<rparr>) \<and> kept s (s1\<lparr>heap := m'\<rparr>) bs \<and>
       (\<exists>k\<ge>unat r. (q, k) \<notin> live_blocks s \<and> live_blocks (s1\<lparr>heap := m'\<rparr>) = insert (q, k) (live_blocks s))"
proof -
  obtain k where k: "unat r \<le> k" "unat q + k \<le> 0x3f00b000" "q \<noteq> 0" "kept s s1 bs"
    and ap: "\<And>p n. (p, n) \<in> used bs \<Longrightarrow> unat q + k \<le> unat p \<or> unat p + n \<le> unat q"
    and new: "\<And>m. (\<And>y. \<not> span q k y \<Longrightarrow> m y = heap s1 y) \<Longrightarrow> heap_ok (s1\<lparr>heap := m\<rparr>) \<and> kept s (s1\<lparr>heap := m\<rparr>) bs \<and>
       (q, k) \<notin> live_blocks s \<and> live_blocks (s1\<lparr>heap := m\<rparr>) = insert (q, k) (live_blocks s)"
    using kmalloc_fresh_block [OF inv r km] by metis
  have src: "unat q + k \<le> unat p \<or> unat p + n \<le> unat q" "unat p + n \<le> 2 ^ 63"
    "\<And>i. i < n \<Longrightarrow> heap s1 (p + of_nat i) = heap s (p + of_nat i)" if ins: "inside p n (used bs)" for p n
  proof -
    obtain b l where b: "(b, l) \<in> used bs" "unat b \<le> unat p" "unat p + n \<le> unat b + l"
      using ins by (auto simp: inside_def)
    obtain x j where x: "(x, j, False) \<in> set bs" "b = x + 32" "l = unat j" using b(1) by (auto simp: used_def)
    show "unat q + k \<le> unat p \<or> unat p + n \<le> unat q" using ap [OF b(1)] b(2,3) by auto
    show top: "unat p + n \<le> 2 ^ 63"
      using heap_inv_mem(3) [OF inv x(1)] payload_start [OF inv x(1)] x inv b(3) by (simp add: heap_inv_def)
    show "heap s1 (p + of_nat i) = heap s (p + of_nat i)" if "i < n" for i
      using kept_span [OF k(4) b(1), of "p + of_nat i"] unat_add_lt [of p n i] top that b(2,3) by (simp add: span_def)
  qed
  have qd: "unat (q + of_nat d) = unat q + d" using k d by (simp add: unat_word_ariths unat_of_nat)
  have m: "m = copied (q + of_nat d) p2 (unat n2) (copied q p1 (unat n1) (heap s1))"
    unfolding m_def using src [OF p(1)] src [OF p(2)] k d qd
    by (subst memcpy_copied; (auto)?)+
  show "q \<noteq> 0" by (rule k)
  show "m (q + of_nat i) = heap s (p1 + of_nat i)" if "i < unat n1"
    using that k d qd unat_add_lt [of q k i] src(3) [OF p(1) that] by (simp add: m copied_def span_def)
  show "m (q + of_nat (d + i)) = heap s (p2 + of_nat i)" if "i < unat n2"
  proof -
    have "unat (q + of_nat d + of_nat i) = unat q + d + i" using unat_add_lt [of "q + of_nat d" "unat n2" i] that k d qd by simp
    moreover have "unat (p2 + of_nat i) = unat p2 + i" using unat_add_lt [of p2 "unat n2" i] that src(2) [OF p(2)] by simp
    ultimately show ?thesis
      using that k d qd src(1) [OF p(2)] src(3) [OF p(2) that]
      by (auto simp: m copied_def span_def add.assoc)
  qed
  show "heap_ok (s1\<lparr>heap := m'\<rparr>) \<and> kept s (s1\<lparr>heap := m'\<rparr>) bs \<and>
       (\<exists>k\<ge>unat r. (q, k) \<notin> live_blocks s \<and> live_blocks (s1\<lparr>heap := m'\<rparr>) = insert (q, k) (live_blocks s))"
    if m': "\<And>y. \<not> span q (unat r) y \<Longrightarrow> m' y = m y"
  proof -
    have "m' y = heap s1 y" if "\<not> span q k y" for y
      using that m' [of y] k d qd by (auto simp: m copied_def span_def)
    then show ?thesis using new k(1) by blast
  qed
qed

lemma cstring_joined:
  assumes c: "cstring m0 p xs" "cstring m0 q ys"
    and x: "\<And>i. i < length xs \<Longrightarrow> m (r + of_nat i) = m0 (p + of_nat i)"
    and z: "\<And>i. i < length zs \<Longrightarrow> m (r + of_nat (length xs + i)) = zs ! i \<and> zs ! i \<noteq> 0"
    and y: "\<And>i. i \<le> length ys \<Longrightarrow> m (r + of_nat (length xs + length zs + i)) = m0 (q + of_nat i)"
  shows "cstring m r (xs @ zs @ ys)"
  unfolding cstring_nth
proof (intro conjI allI impI)
  note nth = c [unfolded cstring_nth]
  fix j assume j: "j < length (xs @ zs @ ys)"
  consider (x) "j < length xs" | (z) i where "j = length xs + i" "i < length zs"
    | (y) i where "j = length xs + length zs + i" "i < length ys"
    using j by (metis add.assoc length_append less_diff_conv2 le_add_diff_inverse not_less add_less_cancel_left)
  then have "m (r + of_nat j) = (xs @ zs @ ys) ! j \<and> (xs @ zs @ ys) ! j \<noteq> 0"
  proof cases
    case x
    then show ?thesis using assms(3) [of j] nth(1) by (simp add: nth_append)
  next
    case (z i)
    then show ?thesis using assms(4) [of i] by (simp add: nth_append)
  next
    case (y i)
    then show ?thesis using assms(5) [of i] nth(2) by (simp add: nth_append)
  qed
  then show "m (r + of_nat j) = (xs @ zs @ ys) ! j" "(xs @ zs @ ys) ! j \<noteq> 0" by simp_all
next
  show "m (r + of_nat (length (xs @ zs @ ys))) = 0"
    using y [of "length ys"] c(2) [unfolded cstring_nth] by (simp add: add.assoc)
qed

lemma example_string:
  obtains s where "heap_inv s [(0x4400000, 96, False), (0x4400080, 224, True)]" "brk s = 0x4400180"
    "cstring (heap s) 0x4400020 [97]" "inside 0x4400020 (length [97 :: u8] + 1) (live_blocks s)"
proof -
  obtain s where s: "heap_inv s [(0x4400000, 96, False), (0x4400080, 224, True)]" "brk s = 0x4400180" using example_heap .
  let ?s = "s\<lparr>heap := (heap s)(0x4400020 := 97, 0x4400021 := 0)\<rparr>"
  have inv: "heap_inv ?s [(0x4400000, 96, False), (0x4400080, 224, True)]"
    by (rule heap_inv_payload [OF s(1), of "0x4400000" 96 False]) (auto simp: span_def)
  moreover have "brk ?s = 0x4400180" using s(2) by (simp add: brk_def)
  moreover have "inside 0x4400020 (length [97 :: u8] + 1) (live_blocks ?s)" unfolding live_blocks_used [OF inv] by (simp add: inside_def)
  moreover have "cstring (heap ?s) 0x4400020 [97]" by simp
  ultimately show thesis using that [of ?s] by blast
qed

section \<open>Properties\<close>

text \<open>
  \<open>strcat\<close> of two strings held in blocks in use returns a new block that holds their
  concatenation; the heap stays well formed and every block in use keeps its contents. It aborts
  only when the heap is exhausted.
\<close>

theorem strcat_appends:
  assumes inv: "heap_inv s bs" and c: "cstring (heap s) p xs" "cstring (heap s) q ys"
    and i: "inside p (length xs + 1) (live_blocks s)" "inside q (length ys + 1) (live_blocks s)"
    and len: "length xs + length ys + 33 \<le> 2 ^ 30"
  shows "case strcat p q s of
       None \<Rightarrow> spec_kmalloc (block_size (of_nat (length xs + length ys + 1))) (brk s) bs = None
     | Some (r, s') \<Rightarrow> cstring (heap s') r (xs @ ys) \<and> heap_ok s' \<and> kept s s' bs \<and>
         (\<exists>k\<ge>length xs + length ys + 1. (r, k) \<notin> live_blocks s \<and> live_blocks s' = insert (r, k) (live_blocks s))"
proof -
  define n :: u64 where "n = of_nat (length xs + length ys + 1)"
  have n: "unat n = length xs + length ys + 1" unfolding n_def unat_of_nat using len by simp
  then have n0: "0 < n" "unat n + 32 \<le> 2 ^ 30" using len by (simp_all add: word_less_nat_alt)
  have l: "unat (of_nat (length xs) :: u64) = length xs" "unat (of_nat (length ys) + 1 :: u64) = length ys + 1"
    using len by (simp_all add: unat_of_nat unat_word_ariths)
  have eq: "strcat p q s = do { (cat, s1) \<leftarrow> kmalloc n s; Some (cat, s1\<lparr>heap :=
      memcpy (cat + of_nat (length xs)) q (of_nat (length ys) + 1) (memcpy cat p (of_nat (length xs)) (heap s1))\<rparr>) }"
    using strlen_cstring [OF c(1)] strlen_cstring [OF c(2)] by (simp add: strcat_def n_def ac_simps)
  show ?thesis
  proof (cases "kmalloc n s")
    case None
    then show ?thesis using kmalloc_spec [OF inv n0] unfolding eq n_def [symmetric] by (auto split: option.splits)
  next
    case (Some res)
    obtain cat s1 where res: "res = (cat, s1)" by (cases res)
    have ins: "inside p (unat (of_nat (length xs) :: u64)) (used bs)" "inside q (unat (of_nat (length ys) + 1 :: u64)) (used bs)"
      using i unfolding l live_blocks_used [OF inv] by (auto elim: inside_mono)
    note copies = two_copies [OF inv n0 Some [unfolded res] ins, of "length xs", unfolded l n]
    define m where "m = memcpy (cat + of_nat (length xs)) q (of_nat (length ys) + 1) (memcpy cat p (of_nat (length xs)) (heap s1))"
    have "cstring m cat (xs @ [] @ ys)"
      by (rule cstring_joined [OF c]) (use copies(2,3) in \<open>simp_all add: m_def\<close>)
    then show ?thesis using copies(4) [of m] by (auto simp: eq Some res simp flip: m_def)
  qed
qed


theorem strcat_appends_witness:
  "\<exists>s r s'. cstring (heap s) 0x4400020 [97] \<and> strcat 0x4400020 0x4400020 s = Some (r, s') \<and> cstring (heap s') r [97, 97]"
proof -
  obtain s where s: "heap_inv s [(0x4400000, 96, False), (0x4400080, 224, True)]" "brk s = 0x4400180"
    "cstring (heap s) 0x4400020 [97]" "inside 0x4400020 (length [97 :: u8] + 1) (live_blocks s)" using example_string .
  have "block_size 3 = 32" by (simp add: block_size_def next_power_of_2_eq [of _ 6])
  then have "spec_kmalloc (block_size (of_nat 3)) (brk s) [(0x4400000, 96, False), (0x4400080, 224, True)] \<noteq> None"
    by (simp add: spec_kmalloc_def fits_def)
  then obtain r s' where "strcat 0x4400020 0x4400020 s = Some (r, s')" "cstring (heap s') r ([97] @ [97])"
    using strcat_appends [OF s(1,3,3,4,4)] by (cases "strcat 0x4400020 0x4400020 s") auto
  then show ?thesis using s(3) by auto
qed

text \<open>
  \<open>filename_join\<close> of two strings held in blocks in use returns a new block that holds the first, a
  slash and the second; the heap stays well formed and every block in use keeps its contents.
\<close>

theorem filename_join_joins:
  assumes inv: "heap_inv s bs" and c: "cstring (heap s) p xs" "cstring (heap s) q ys"
    and i: "inside p (length xs + 1) (live_blocks s)" "inside q (length ys + 1) (live_blocks s)"
    and len: "length xs + length ys + 34 \<le> 2 ^ 30"
  shows "case filename_join p q s of
       None \<Rightarrow> spec_kmalloc (block_size (of_nat (length xs + length ys + 2))) (brk s) bs = None
     | Some (r, s') \<Rightarrow> cstring (heap s') r (xs @ [47] @ ys) \<and> heap_ok s' \<and> kept s s' bs \<and>
         (\<exists>k\<ge>length xs + length ys + 2. (r, k) \<notin> live_blocks s \<and> live_blocks s' = insert (r, k) (live_blocks s))"
proof -
  define n :: u64 where "n = of_nat (length xs + length ys + 2)"
  have n: "unat n = length xs + length ys + 2" unfolding n_def unat_of_nat using len by simp
  then have n0: "0 < n" "unat n + 32 \<le> 2 ^ 30" using len by (simp_all add: word_less_nat_alt)
  have l: "unat (of_nat (length xs) :: u64) = length xs" "unat (of_nat (length ys) + 1 :: u64) = length ys + 1"
    using len by (simp_all add: unat_of_nat unat_word_ariths)
  define mm where "mm = (\<lambda>cat (s1 :: alloc_state). memcpy (cat + of_nat (length xs + 1)) q (of_nat (length ys) + 1)
      (memcpy cat p (of_nat (length xs)) (heap s1)))"
  have eq: "filename_join p q s = do { (cat, s1) \<leftarrow> kmalloc n s; Some (cat, s1\<lparr>heap := (mm cat s1)(cat + of_nat (length xs) := 47)\<rparr>) }"
    using strlen_cstring [OF c(1)] strlen_cstring [OF c(2)] by (simp add: filename_join_def n_def mm_def ac_simps)
  show ?thesis
  proof (cases "kmalloc n s")
    case None
    then show ?thesis using kmalloc_spec [OF inv n0] unfolding eq n_def [symmetric] by (auto split: option.splits)
  next
    case (Some res)
    obtain cat s1 where res: "res = (cat, s1)" by (cases res)
    have ins: "inside p (unat (of_nat (length xs) :: u64)) (used bs)" "inside q (unat (of_nat (length ys) + 1 :: u64)) (used bs)"
      using i unfolding l live_blocks_used [OF inv] by (auto elim: inside_mono)
    note copies = two_copies [OF inv n0 Some [unfolded res] ins, of "length xs + 1", unfolded l n]
    obtain k where "unat n \<le> k" "unat cat + k \<le> 0x3f00b000" using kmalloc_fresh_block [OF inv n0 Some [unfolded res]] .
    then have cat: "unat cat + unat n \<le> 2 ^ 64" by simp
    have ne: "cat + of_nat j \<noteq> cat + of_nat (length xs)" if "j < length xs + length ys + 2" "j \<noteq> length xs" for j
      using unat_add_lt [OF cat, of j] unat_add_lt [OF cat, of "length xs"] that n by (auto simp: word_unat_eq_iff)
    define m where "m = (mm cat s1)(cat + of_nat (length xs) := 47)"
    have "cstring m cat (xs @ [47] @ ys)"
    proof (rule cstring_joined [OF c])
      show "m (cat + of_nat j) = heap s (p + of_nat j)" if "j < length xs" for j
        using that ne [of j] copies(2) [of j] by (simp add: m_def mm_def)
      show "m (cat + of_nat (length xs + length [47::u8] + j)) = heap s (q + of_nat j)" if "j \<le> length ys" for j
        using that ne [of "length xs + 1 + j"] copies(3) [of j] by (simp add: m_def mm_def)
    qed (simp add: m_def)
    moreover have "m y = mm cat s1 y" if "\<not> span cat (length xs + length ys + 2) y" for y
      using that span_nth [of cat "length xs + length ys + 2" "length xs"] cat n by (auto simp: m_def)
    moreover have "filename_join p q s = Some (cat, s1\<lparr>heap := m\<rparr>)" by (simp add: eq Some res m_def)
    ultimately show ?thesis using copies(4) [of m] by (auto simp: mm_def)
  qed
qed


theorem filename_join_joins_witness:
  "\<exists>s r s'. cstring (heap s) 0x4400020 [97] \<and> filename_join 0x4400020 0x4400020 s = Some (r, s') \<and>
     cstring (heap s') r [97, 47, 97]"
proof -
  obtain s where s: "heap_inv s [(0x4400000, 96, False), (0x4400080, 224, True)]" "brk s = 0x4400180"
    "cstring (heap s) 0x4400020 [97]" "inside 0x4400020 (length [97 :: u8] + 1) (live_blocks s)" using example_string .
  have "block_size 4 = 32" by (simp add: block_size_def next_power_of_2_eq [of _ 6])
  then have "spec_kmalloc (block_size (of_nat 4)) (brk s) [(0x4400000, 96, False), (0x4400080, 224, True)] \<noteq> None"
    by (simp add: spec_kmalloc_def fits_def)
  then obtain r s' where "filename_join 0x4400020 0x4400020 s = Some (r, s')" "cstring (heap s') r ([97] @ [47] @ [97])"
    using filename_join_joins [OF s(1,3,3,4,4)] by (cases "filename_join 0x4400020 0x4400020 s") auto
  then show ?thesis using s(3) by auto
qed

end
