(* ===== verification/Heap_Clients.thy ===== *)
theory Heap_Clients
  imports String_Alloc
begin

text \<open>
  The heap as seen by code that allocates a block, works in it and frees it again, as the file system
  does for every block of the disk it touches. \<open>owned\<close> are the bytes that the allocator never
  touches: those that no heap contains and those of the blocks in use. \<open>scratch_block\<close>: between \<open>kmalloc\<close> and
  \<open>kfree\<close> the client may write to its block and to the bytes it owns, and after \<open>kfree\<close> the owned
  bytes hold what it wrote, the blocks in use are those of before, and the same request succeeds again.
\<close>

definition owned :: "alloc_state \<Rightarrow> u64 \<Rightarrow> bool" where
  "owned s y \<longleftrightarrow> off_heap s y \<or> (\<exists>(p, n)\<in>live_blocks s. span p n y)"

lemma owned_kept:
  assumes "heap_inv s bs" and "kept s s' bs" and "owned s y"
  shows "heap s' y = heap s y"
  using assms kept_low(2) [OF assms(2), of y] kept_span [OF assms(2)] by (auto simp: owned_def live_blocks_used [OF assms(1)])

lemma owned_eq:
  assumes "heap_inv s bs" and "heap_inv s' bs'" and "used bs' = used bs" and "heap_begin s' = heap_begin s"
  shows "owned s' = owned s"
  using assms(3,4) by (simp add: fun_eq_iff owned_def off_heap_def live_blocks_used [OF assms(1)] live_blocks_used [OF assms(2)])

lemma in_header_not_owned:
  assumes "heap_inv s bs" and "in_header bs y"
  shows "\<not> owned s y"
proof -
  have tile: "tiled (unat (heap_begin s)) bs (brk s)" "brk s \<le> 2 ^ 63" using assms(1) by (auto simp: heap_inv_def)
  obtain x k f where x: "(x, k, f) \<in> set bs" "span x 32 y" using assms(2) by (auto simp: in_header_def)
  have "\<not> span p n y" if "(p, n) \<in> used bs" for p n
    using that payload_no_header [OF tile(1) _ tile(2), of _ _ False y] assms(2) by (auto simp: used_def)
  moreover have "\<not> off_heap s y" using tiled_mem [OF tile(1) x(1)] x(2) assms(1) by (simp add: span_def off_heap_def heap_inv_def)
  ultimately show ?thesis by (auto simp: owned_def live_blocks_used [OF assms(1)])
qed

lemma kmalloc_fits:
  assumes "heap_inv s bs" and "0 < r" and "unat r + 32 \<le> 2 ^ 30" and "\<exists>b\<in>set bs. fits (block_size r) b"
  shows "kmalloc r s \<noteq> None"
proof -
  have "dropWhile (\<lambda>b. \<not> fits (block_size r) b) bs \<noteq> []" using assms(4) by (auto simp: dropWhile_eq_Nil_conv)
  then have "spec_kmalloc (block_size r) (brk s) bs \<noteq> None" by (auto simp: spec_kmalloc_def split: list.splits)
  then show ?thesis using kmalloc_spec [OF assms(1-3)] by auto
qed

lemma kfree_heap_only: 
  assumes "kfree p s = Some s'"
  shows "brk s' = brk s"
proof -
  have m: "\<exists>m. s' = s\<lparr>heap := m\<rparr>" if "merge_block b s = Some s'" for b and s s' :: alloc_state
    using that by (cases s) (auto simp: merge_block_def poke_def Let_def assert_bind split: if_splits)
  show ?thesis using assms by (auto simp: kfree_def poke_def Let_def assert_bind bind_eq_Some_conv brk_def dest!: m split: if_splits)
qed

lemma tiled_end: "tiled a bs e \<Longrightarrow> tiled a bs e' \<Longrightarrow> e = e'"
  by (induction a bs e rule: tiled.induct) auto

text \<open>How far a block reaches that \<open>kmalloc\<close> hands out, and what becomes of the program break.\<close>

lemma spec_kmalloc_extent:
  assumes inv: "heap_inv s bs" and n: "spec_kmalloc n (brk s) bs = Some (x, bs1)" and inv1: "heap_inv s1 bs1" "heap_begin s1 = heap_begin s"
  shows "brk s \<le> brk s1" "\<exists>k. (x, k, False) \<in> set bs1 \<and> used bs1 = insert (x + 32, unat k) (used bs) \<and> unat n \<le> unat k \<and> unat k \<le> unat n + 32"
proof -
  have t: "tiled (unat (heap_begin s)) bs (brk s)" "tiled (unat (heap_begin s)) bs1 (brk s1)" using inv inv1 by (simp_all add: heap_inv_def)
  have "brk s \<le> brk s1 \<and> (\<exists>k. (x, k, False) \<in> set bs1 \<and> used bs1 = insert (x + 32, unat k) (used bs) \<and> unat n \<le> unat k \<and> unat k \<le> unat n + 32)"
  proof (cases "dropWhile (\<lambda>b. \<not> fits n b) bs")
    case Nil
    have bs1: "bs1 = bs @ [(x, n, False)]" using n unfolding spec_kmalloc_def Nil by (auto split: if_splits)
    then obtain m where m: "tiled (unat (heap_begin s)) bs m" "tiled m [(x, n, False)] (brk s1)" using t(2) by (auto simp: tiled_append)
    have "m = brk s" using tiled_end [OF m(1) t(1)] .
    then show ?thesis using m(2) by (intro conjI exI [of _ n]) (simp_all add: bs1)
  next
    case (Cons b ys)
    obtain y k f where b: "b = (y, k, f)" by (cases b)
    have fb: "f" "n \<le> k" using Cons hd_dropWhile [of "\<lambda>b. \<not> fits n b" bs] by (auto simp: fits_def b)
    let ?xs = "takeWhile (\<lambda>b. \<not> fits n b) bs"
    have r: "x = y" "bs1 = ?xs @ carve n y k False @ ys" using n unfolding spec_kmalloc_def Cons b by auto
    have bs: "bs = ?xs @ (y, k, True) # ys" using takeWhile_dropWhile_id [of "\<lambda>b. \<not> fits n b" bs] unfolding Cons b using fb(1) by simp
    have u: "used bs = used ?xs \<union> used ys" using arg_cong [OF bs, of used] by simp
    show ?thesis
    proof (cases "unat n + 32 < unat k")
      case True
      have "unat (k - n - 32) = unat k - unat n - 32" using True fb(2) by (simp add: unat_sub word_le_nat_alt)
      then have "tiled (unat (heap_begin s)) bs1 (brk s)" using t True unfolding r(2)
        by (subst (asm) (1) bs) (auto simp: tiled_append carve_def ac_simps)
      then have "brk s1 = brk s" using tiled_end t(2) by blast
      then show ?thesis using True by (auto simp: r u carve_def)
    next
      case False
      then have "tiled (unat (heap_begin s)) bs1 (brk s)" using t(1) unfolding r(2) by (subst (asm) bs) (simp add: tiled_append carve_def)
      then have "brk s1 = brk s" using tiled_end t(2) by blast
      then show ?thesis using False fb(2) by (auto simp: r u carve_def word_le_nat_alt)
    qed
  qed
  then show "brk s \<le> brk s1" "\<exists>k. (x, k, False) \<in> set bs1 \<and> used bs1 = insert (x + 32, unat k) (used bs) \<and> unat n \<le> unat k \<and> unat k \<le> unat n + 32"
    by blast+
qed

section \<open>Free regions\<close>

text \<open>\<open>n\<close> bytes of the heap from \<open>u\<close> on that no block in use touches, with its header.\<close>

definition free_region :: "alloc_state \<Rightarrow> nat \<Rightarrow> nat \<Rightarrow> bool" where
  "free_region s u n \<longleftrightarrow> unat (heap_begin s) \<le> u \<and> u + n \<le> brk s \<and>
     (\<forall>(p, k)\<in>live_blocks s. u + n + 32 \<le> unat p \<or> unat p + k \<le> u)"

lemma region_fits:
  assumes "tiled a bs e" and "coalesced bs" and "a \<le> u" and "u + 32 + unat n \<le> e"
    and "\<And>x k. (x, k, False) \<in> set bs \<Longrightarrow> u + 32 + unat n \<le> unat x \<or> unat x + 32 + unat k \<le> u"
  shows "\<exists>b\<in>set bs. fits n b"
  using assms
proof (induction a bs e rule: tiled.induct)
  case (2 a x k f bs e)
  show ?case
  proof (cases "a + 32 + unat k \<le> u")
    case True
    then have "\<exists>b\<in>set bs. fits n b" using 2 by (intro "2.IH") (auto simp: coalesced_Cons)
    then show ?thesis by auto
  next
    case False
    then have f: "f" using "2.prems"(1,3) "2.prems"(5) [of x k] by fastforce
    have "u + 32 + unat n \<le> a + 32 + unat k"
    proof (cases bs)
      case Nil
      then show ?thesis using "2.prems"(1,4) by simp
    next
      case (Cons b cs)
      obtain y j g where b: "b = (y, j, g)" by (cases b)
      have "\<not> g" "unat y = a + 32 + unat k" using "2.prems"(1,2) f by (auto simp: coalesced_Cons Cons b)
      then show ?thesis using "2.prems"(5) [of y j] False by (auto simp: Cons b)
    qed
    then show ?thesis using f "2.prems"(3) by (auto simp: fits_def word_le_nat_alt)
  qed
qed simp

lemma free_region_kmalloc:
  assumes "heap_ok s" and "free_region s u n" and "0 < r" and "unat r + 32 \<le> 2 ^ 30" and "unat (block_size r) + 32 \<le> n"
  shows "kmalloc r s \<noteq> None"
proof -
  obtain bs where bs: "heap_inv s bs" using assms(1) by (auto simp: heap_ok_def)
  have "\<exists>b\<in>set bs. fits (block_size r) b"
  proof (rule region_fits)
    show "tiled (unat (heap_begin s)) bs (brk s)" "coalesced bs" using bs by (simp_all add: heap_inv_def)
    show "unat (heap_begin s) \<le> u" "u + 32 + unat (block_size r) \<le> brk s" using assms(2,5) by (simp_all add: free_region_def)
    fix x k assume x: "(x, k, False) \<in> set bs"
    then have "(x + 32, unat k) \<in> live_blocks s" by (force simp: live_blocks_used [OF bs] used_def)
    then show "u + 32 + unat (block_size r) \<le> unat x \<or> unat x + 32 + unat k \<le> u"
      using assms(2,5) payload_start [OF bs x] by (auto simp: free_region_def)
  qed
  then show ?thesis using kmalloc_fits [OF bs assms(3,4)] by blast
qed

text \<open>One more block in use leaves one of the halves of a region free.\<close>

lemma free_region_split:
  assumes "free_region s u (2 * n + d)" and "brk s \<le> brk s'" "heap_begin s' = heap_begin s"
    and "live_blocks s' = insert (p, k) (live_blocks s)" and "32 + k \<le> d"
  shows "\<exists>v. free_region s' v n"
proof (cases "u + n + 32 \<le> unat p \<or> unat p + k \<le> u")
  case True
  then have "free_region s' u n" using assms by (fastforce simp: free_region_def)
  then show ?thesis by blast
next
  case False
  then have "free_region s' (u + n + d) n" using assms by (fastforce simp: free_region_def)
  then show ?thesis by blast
qed

lemma free_region_mono:
  assumes "free_region s u n" and "brk s \<le> brk s'" "heap_begin s' = heap_begin s" "live_blocks s' = live_blocks s"
  shows "free_region s' u n"
  using assms by (auto simp: free_region_def)

section \<open>Blocks of clients\<close>

lemma fresh_block:
  assumes ok: "heap_ok s" and r: "0 < r" "unat r + 32 \<le> 2 ^ 30" and km: "kmalloc r s = Some (q, s1)"
  obtains k where "unat r \<le> k" "unat (block_size r) \<le> k" "k \<le> unat (block_size r) + 32" "unat q + k \<le> 0x3f00b000" "unat (heap_begin s) + 32 \<le> unat q" "unat q + k \<le> brk s1" "heap_ok s1"
    "(q, k) \<notin> live_blocks s" "live_blocks s1 = insert (q, k) (live_blocks s)" "heap_begin s1 = heap_begin s" "brk s \<le> brk s1"
    "\<And>y. owned s y \<Longrightarrow> heap s1 y = heap s y" "\<And>y. span q k y \<Longrightarrow> \<not> owned s y"
    "\<And>p n. (p, n) \<in> live_blocks s \<Longrightarrow> unat q + k + 32 \<le> unat p \<or> unat p + n + 32 \<le> unat q"
proof -
  obtain bs where inv: "heap_inv s bs" using ok by (auto simp: heap_ok_def)
  obtain x bs1 where x: "spec_kmalloc (block_size r) (brk s) bs = Some (x, bs1)" "q = x + 32" "heap_inv s1 bs1" "kept s s1 bs"
    using kmalloc_cases [OF inv r km] .
  have hb: "heap_begin s1 = heap_begin s" using kept_low(1) [OF x(4)] .
  obtain k where k: "unat r \<le> k" "unat q + k \<le> 0x3f00b000" "\<And>p n. (p, n) \<in> used bs \<Longrightarrow> unat q + k \<le> unat p \<or> unat p + n \<le> unat q"
    "(q, k) \<notin> live_blocks s \<and> live_blocks s1 = insert (q, k) (live_blocks s)"
  proof (rule kmalloc_fresh_block [OF inv r km], goal_cases)
    case (1 k)
    then show ?case using "1"(7) [of "heap s1"] by simp
  qed
  obtain k' where k': "(x, k', False) \<in> set bs1" "used bs1 = insert (x + 32, unat k') (used bs)" "unat (block_size r) \<le> unat k' \<and> unat k' \<le> unat (block_size r) + 32"
    using spec_kmalloc_extent(2) [OF inv x(1,3) hb] by blast
  have kk: "k = unat k'" using k(4) k'(2) x(2) unfolding live_blocks_used [OF inv] live_blocks_used [OF x(3)] by blast
  have q: "unat (heap_begin s) + 32 \<le> unat q" "unat q + k \<le> brk s1"
    using payload_start [OF x(3) k'(1)] tiled_mem [OF _ k'(1), of "unat (heap_begin s1)" "brk s1"] x(2,3) hb kk by (simp_all add: heap_inv_def)
  moreover have "unat q + k + 32 \<le> unat p \<or> unat p + n + 32 \<le> unat q" if "(p, n) \<in> live_blocks s" for p n
    using used_apart [OF x(3), of q k p n] that k(4) by (auto simp: live_blocks_used [OF x(3), symmetric])
  moreover have "\<not> owned s y" if "span q k y" for y
    using that k(2,3) q by (force simp: owned_def off_heap_def span_def live_blocks_used [OF inv])
  ultimately show thesis
    using that [of k] k k'(3) kk x(3) hb spec_kmalloc_extent(1) [OF inv x(1,3) hb] owned_kept [OF inv x(4)] by (auto simp: heap_ok_def)
qed

lemma held_block:
  assumes ok: "heap_ok s" "heap_ok t" and l: "(q, k) \<notin> live_blocks s" "live_blocks t = insert (q, k) (live_blocks s)"
    and b: "heap_begin t = heap_begin s" "brk s \<le> brk t" and m: "\<And>y. \<not> span q k y \<Longrightarrow> \<not> owned s y \<Longrightarrow> m y = heap t y"
  shows "\<exists>t'. kfree q (t\<lparr>heap := m\<rparr>) = Some t' \<and> heap_ok t' \<and> owned t' = owned s \<and> live_blocks t' = live_blocks s \<and>
         heap_begin t' = heap_begin s \<and> brk s \<le> brk t' \<and> (\<forall>y. owned s y \<longrightarrow> heap t' y = m y)"
proof -
  obtain bs where inv: "heap_inv s bs" using ok by (auto simp: heap_ok_def)
  obtain xs x k' ys where x: "heap_inv t (xs @ (x, k', False) # ys)" "q = x + 32" "k = unat k'"
    using live_cases [OF ok(2), of q k] l(2) by blast
  let ?cs = "xs @ (x, k', False) # ys"
  have u: "used ?cs = insert (q, k) (used bs)" using l(2) by (simp only: live_blocks_used [OF inv] live_blocks_used [OF x(1)])
  have u': "used (xs @ ys) \<supseteq> used bs" using u l(1) x(2,3) unfolding live_blocks_used [OF inv] by simp (metis subset_insert subset_insertI)
  have inv1: "heap_inv (t\<lparr>heap := m\<rparr>) ?cs"
  proof (rule heap_inv_write [OF x(1)])
    fix y assume "in_header ?cs y"
    then have "\<not> owned t y" by (rule in_header_not_owned [OF x(1)])
    then show "m y = heap t y" using l(2) b(1) by (intro m) (auto simp: owned_def off_heap_def)
  qed
  obtain t' where t': "kfree q (t\<lparr>heap := m\<rparr>) = Some t'" "heap_inv t' (release xs x k' ys)" "kept (t\<lparr>heap := m\<rparr>) t' (xs @ ys)"
    using kfree_spec [OF inv1] x(2) by auto
  have hb: "heap_begin t' = heap_begin s" using kept_low(1) [OF t'(3)] b(1) by simp
  have ur: "used (release xs x k' ys) = used bs" using used_release [OF x(1)] l(1) unfolding u x(2,3) live_blocks_used [OF inv] by simp
  have "heap t' y = m y" if "owned s y" for y
    using that kept_low(2) [OF t'(3), of y] kept_span [OF t'(3), of _ _ y] b(1) u'
    by (auto simp: owned_def off_heap_def live_blocks_used [OF inv])
  then show ?thesis
    using t'(1,2) hb ur owned_eq [OF inv t'(2) ur hb] kfree_heap_only [OF t'(1)] b(2)
    by (auto simp: heap_ok_def live_blocks_used [OF inv] live_blocks_used [OF t'(2)] brk_def)
qed

lemma scratch_block:
  assumes inv: "heap_inv s bs" and r: "0 < r" "unat r + 32 \<le> 2 ^ 30" and km: "kmalloc r s = Some (q, s1)"
  shows "unat (heap_begin s) \<le> unat q" "unat q + unat r \<le> 0x3f00b000" "\<And>y. owned s y \<Longrightarrow> heap s1 y = heap s y"
    "\<And>y. span q (unat r) y \<Longrightarrow> \<not> owned s y"
    "\<And>m. (\<And>y. \<not> span q (unat r) y \<Longrightarrow> \<not> owned s y \<Longrightarrow> m y = heap s1 y) \<Longrightarrow>
       \<exists>s2. kfree q (s1\<lparr>heap := m\<rparr>) = Some s2 \<and> heap_ok s2 \<and> owned s2 = owned s \<and> live_blocks s2 = live_blocks s \<and>
         heap_begin s2 = heap_begin s \<and> brk s \<le> brk s2 \<and> kmalloc r s2 \<noteq> None \<and> (\<forall>y. owned s y \<longrightarrow> heap s2 y = m y)"
proof -
  have ok: "heap_ok s" using inv by (auto simp: heap_ok_def)
  obtain k where k: "unat r \<le> k" "unat q + k \<le> 0x3f00b000" "unat (heap_begin s) + 32 \<le> unat q" "unat q + k \<le> brk s1" "heap_ok s1"
    "(q, k) \<notin> live_blocks s" "live_blocks s1 = insert (q, k) (live_blocks s)" "heap_begin s1 = heap_begin s" "brk s \<le> brk s1"
    "\<And>y. owned s y \<Longrightarrow> heap s1 y = heap s y" "\<And>y. span q k y \<Longrightarrow> \<not> owned s y" "unat (block_size r) \<le> k"
    "\<And>p n. (p, n) \<in> live_blocks s \<Longrightarrow> unat q + k + 32 \<le> unat p \<or> unat p + n + 32 \<le> unat q"
    by (rule fresh_block [OF ok r km]) blast
  show "unat (heap_begin s) \<le> unat q" "unat q + unat r \<le> 0x3f00b000" using k(1-3) by simp_all
  show "\<And>y. owned s y \<Longrightarrow> heap s1 y = heap s y" by (rule k(10))
  show "\<not> owned s y" if "span q (unat r) y" for y using that k(1) by (intro k(11)) (simp add: span_def)
  fix m assume m: "\<And>y. \<not> span q (unat r) y \<Longrightarrow> \<not> owned s y \<Longrightarrow> m y = heap s1 y"
  have "m y = heap s1 y" if "\<not> span q k y" "\<not> owned s y" for y using that k(1) by (intro m) (auto simp: span_def)
  from held_block [OF ok k(5-9) this] obtain s2 where s2: "kfree q (s1\<lparr>heap := m\<rparr>) = Some s2" "heap_ok s2" "owned s2 = owned s"
    "live_blocks s2 = live_blocks s" "heap_begin s2 = heap_begin s" "brk s \<le> brk s2" "\<forall>y. owned s y \<longrightarrow> heap s2 y = m y" by blast
  have "brk s2 = brk s1" using kfree_heap_only [OF s2(1)] by (simp add: brk_def)
  then have "free_region s2 (unat q - 32) (32 + k)"
    unfolding free_region_def using k(3,4,13) s2(4,5) by (fastforce dest: k(13))
  then have "kmalloc r s2 \<noteq> None" by (rule free_region_kmalloc [OF s2(2) _ r]) (use k(12) in simp)
  then show "\<exists>s2. kfree q (s1\<lparr>heap := m\<rparr>) = Some s2 \<and> heap_ok s2 \<and> owned s2 = owned s \<and> live_blocks s2 = live_blocks s \<and>
         heap_begin s2 = heap_begin s \<and> brk s \<le> brk s2 \<and> kmalloc r s2 \<noteq> None \<and> (\<forall>y. owned s y \<longrightarrow> heap s2 y = m y)"
    using s2 by blast
qed

end
