(* ===== verification/Filesystem.thy ===== *)
theory Filesystem
  imports Heap_Clients
begin

text \<open>
  The file system of \<^verbatim>\<open>src/src/libk/filesystem.c\<close>. The image of the disk is a region of the
  byte-addressed memory; the globals \<open>filesystem\<close> and \<open>file_descriptor_table\<close> are records. Numbers on
  the disk are big endian. C's \<open>int\<close> and \<open>uint32_t\<close> are 32-bit words, read as signed where the
  code compares them as \<open>int\<close>. A file descriptor outside of its table is undefined behaviour, \<open>None\<close>;
  so is a failed assertion, and a loop that does not end.
\<close>

section \<open>Data\<close>

abbreviation (input) DIRECTORY_ENTRY_SIZE :: u64 where "DIRECTORY_ENTRY_SIZE \<equiv> 32"
abbreviation (input) FILENAME_MAX_SIZE :: nat where "FILENAME_MAX_SIZE \<equiv> 28"
abbreviation (input) MAX_FILE_DESCRIPTORS :: nat where "MAX_FILE_DESCRIPTORS \<equiv> 64"

datatype seek_t = SEEK_SET | SEEK_CUR | SEEK_END

record inode_t =
  i_index :: u32
  i_kind :: u32
  i_nlink :: u32
  i_size :: u32
  i_blocks :: u64

record file_descriptor =
  fd_inode :: inode_t
  fd_pos :: u32
  fd_closed :: u32
  owner_pid :: u32

record filesystem_t =
  fs_start :: u64
  fs_end :: u64
  superblock :: u64
  inode_count :: u32
  last_free_inode :: u32
  free_block_list :: u32
  free_block_count :: u32
  root_inode :: u32
  fs_block_size :: u32
  block_count :: u32
  block_word_size :: u32
  blocktable_size :: u32
  blocktable_offset :: u32
  max_file_size :: u32
  fs_type :: u64
  seek_cursor :: u64

record fs_state =
  fs_mem :: alloc_state
  filesystem :: filesystem_t
  file_descriptor_table :: "nat \<Rightarrow> file_descriptor"

record dirent_t =
  d_inode :: u32
  d_name :: u64

definition load32 :: "bytes \<Rightarrow> u64 \<Rightarrow> u32" where
  "load32 m a = ucast (load 4 m a)"

definition store32 :: "u64 \<Rightarrow> u32 \<Rightarrow> bytes \<Rightarrow> bytes" where
  "store32 a v = store 4 a (ucast v)"

definition fs_bytes :: "fs_state \<Rightarrow> bytes" where
  "fs_bytes s = heap (fs_mem s)"

definition upd_bytes :: "(bytes \<Rightarrow> bytes) \<Rightarrow> fs_state \<Rightarrow> fs_state" where
  "upd_bytes f s = s\<lparr>fs_mem := (fs_mem s)\<lparr>heap := f (heap (fs_mem s))\<rparr>\<rparr>"

definition fs_kmalloc :: "u64 \<Rightarrow> fs_state \<Rightarrow> (u64 \<times> fs_state) option" where
  "fs_kmalloc n s = map_option (\<lambda>(p, a). (p, s\<lparr>fs_mem := a\<rparr>)) (kmalloc n (fs_mem s))"

definition fs_kfree :: "u64 \<Rightarrow> fs_state \<Rightarrow> fs_state option" where
  "fs_kfree p s = map_option (\<lambda>a. s\<lparr>fs_mem := a\<rparr>) (kfree p (fs_mem s))"

definition fd_at :: "u32 \<Rightarrow> fs_state \<Rightarrow> file_descriptor option" where
  "fd_at n s = (if unat n < MAX_FILE_DESCRIPTORS then Some (file_descriptor_table s (unat n)) else None)"

definition fd_upd :: "u32 \<Rightarrow> (file_descriptor \<Rightarrow> file_descriptor) \<Rightarrow> fs_state \<Rightarrow> fs_state" where
  "fd_upd n f s = s\<lparr>file_descriptor_table := (file_descriptor_table s)(unat n := f (file_descriptor_table s (unat n)))\<rparr>"

section \<open>Blocks\<close>

definition fs_min :: "u32 \<Rightarrow> u32 \<Rightarrow> u32" where
  "fs_min a b = (if sint a > sint b then b else a)"

definition switch_endianness :: "u32 \<Rightarrow> u32" where
  "switch_endianness n =
     (drop_bit 24 n AND 0xff) OR (drop_bit 8 n AND 0xff00) OR (push_bit 8 n AND 0xff0000) OR (push_bit 24 n AND 0xff000000)"

definition seek_block :: "u32 \<Rightarrow> fs_state \<Rightarrow> fs_state option" where
  "seek_block n s =
     do { assert (n < block_count (filesystem s));
          Some (s\<lparr>filesystem := (filesystem s)\<lparr>seek_cursor :=
            fs_start (filesystem s) + ucast (n * fs_block_size (filesystem s))\<rparr>\<rparr>) }"

definition read_block :: "u32 \<Rightarrow> fs_state \<Rightarrow> (u64 \<times> fs_state) option" where
  "read_block n s =
     do { s \<leftarrow> seek_block n s;
          let bs = fs_block_size (filesystem s);
          (content, s) \<leftarrow> fs_kmalloc (ucast (bs + 1)) s;
          let s = upd_bytes (\<lambda>m. m(content + ucast bs := 0)) s;
          Some (content, upd_bytes (memcpy content (seek_cursor (filesystem s)) (ucast bs)) s) }"

definition write_block :: "u32 \<Rightarrow> u64 \<Rightarrow> fs_state \<Rightarrow> fs_state option" where
  "write_block n content s =
     do { s \<leftarrow> seek_block n s;
          Some (upd_bytes (memcpy (seek_cursor (filesystem s)) content (ucast (fs_block_size (filesystem s)))) s) }"

text \<open>
  The loop that looks for the last entry of the block index. \<open>read_big_endian_int\<close> is applied to the
  result of the comparison, which does not change whether it is zero.
\<close>

partial_function (option) last_entry :: "bytes \<Rightarrow> u64 \<Rightarrow> u32 \<Rightarrow> u32 \<Rightarrow> u32 option" where
  "last_entry m block_index bs offset =
     (if offset + 1 < bs div 4 \<and>
         switch_endianness (if load32 m (block_index + 4 * ucast (offset + 1)) \<noteq> 0 then 1 else 0) \<noteq> 0
      then last_entry m block_index bs (offset + 1) else Some offset)"

definition fs_alloc_block :: "fs_state \<Rightarrow> (u32 \<times> fs_state) option" where
  "fs_alloc_block s =
     do { (block_index, s) \<leftarrow> read_block (free_block_list (filesystem s)) s;
          if switch_endianness (load32 (fs_bytes s) (block_index + 4)) = 0 then
            let last_free_block_list = free_block_list (filesystem s) in
            Some (last_free_block_list, s\<lparr>filesystem := (filesystem s)\<lparr>free_block_list :=
              switch_endianness (load32 (fs_bytes s) block_index)\<rparr>\<rparr>)
          else
            do { offset \<leftarrow> last_entry (fs_bytes s) block_index (fs_block_size (filesystem s)) 1;
                 let free_block = switch_endianness (load32 (fs_bytes s) (block_index + 4 * ucast offset));
                 let s = upd_bytes (store32 (block_index + 4 * ucast offset) (switch_endianness 0)) s;
                 s \<leftarrow> write_block (free_block_list (filesystem s)) block_index s;
                 s \<leftarrow> fs_kfree block_index s;
                 Some (free_block, s) } }"

section \<open>Inodes\<close>

definition read_inode :: "u32 \<Rightarrow> fs_state \<Rightarrow> (inode_t \<times> fs_state) option" where
  "read_inode n s =
     do { s \<leftarrow> seek_block n s;
          let c = seek_cursor (filesystem s);
          let inode = \<lparr>i_index = n, i_kind = switch_endianness (load32 (fs_bytes s) c),
                       i_nlink = switch_endianness (load32 (fs_bytes s) (c + 4)),
                       i_size = switch_endianness (load32 (fs_bytes s) (c + 8)), i_blocks = c + 12\<rparr>;
          assert (i_size inode \<le> max_file_size (filesystem s));
          Some (inode, s) }"

definition write_inode :: "inode_t \<Rightarrow> fs_state \<Rightarrow> fs_state option" where
  "write_inode inode s =
     do { s \<leftarrow> seek_block (i_index inode) s;
          let c = seek_cursor (filesystem s);
          Some (upd_bytes (store32 (c + 8) (switch_endianness (i_size inode)))
                 (upd_bytes (store32 (c + 4) (switch_endianness (i_nlink inode)))
                   (upd_bytes (store32 c (switch_endianness (i_kind inode))) s))) }"

section \<open>File descriptors\<close>

definition get_next_available_file_descriptor_slot :: "fs_state \<Rightarrow> u32" where
  "get_next_available_file_descriptor_slot s =
     (case List.find (\<lambda>i. fd_closed (file_descriptor_table s i) \<noteq> 0) [0..<MAX_FILE_DESCRIPTORS] of
        Some i \<Rightarrow> of_nat i | None \<Rightarrow> -1)"

definition is_at_end_of_file :: "u32 \<Rightarrow> fs_state \<Rightarrow> bool option" where
  "is_at_end_of_file n s = map_option (\<lambda>fd. i_size (fd_inode fd) \<le> fd_pos fd) (fd_at n s)"

text \<open>The loop of \<open>extend_file\<close>; the numbers of the new blocks are stored as they are, little endian.\<close>

partial_function (option) extend_loop :: "u32 \<Rightarrow> u32 \<Rightarrow> u32 \<Rightarrow> fs_state \<Rightarrow> fs_state option" where
  "extend_loop n len index_of_last_block s =
     fd_at n s \<bind> (\<lambda>fd.
       if i_size (fd_inode fd) < fd_pos fd + len then
         (let sz = i_size (fd_inode fd);
              s1 = fd_upd n (fd_inode_update (i_size_update (\<lambda>_. sz + fs_min (fd_pos fd + len - sz) (fs_block_size (filesystem s))))) s
          in fs_alloc_block s1 \<bind> (\<lambda>r.
            extend_loop n len (index_of_last_block + 1)
              (upd_bytes (store32 (i_blocks (fd_inode fd) + 4 * scast (index_of_last_block + 1)) (fst r)) (snd r))))
       else Some s)"

definition extend_file :: "u32 \<Rightarrow> u32 \<Rightarrow> fs_state \<Rightarrow> fs_state option" where
  "extend_file n len s =
     do { fd \<leftarrow> fd_at n s;
          if i_size (fd_inode fd) \<ge> fd_pos fd + len then Some s
          else do {
            let bs = fs_block_size (filesystem s);
            let sz = i_size (fd_inode fd) + fs_min len (bs - i_size (fd_inode fd) mod bs);
            let s = fd_upd n (fd_inode_update (i_size_update (\<lambda>_. sz))) s;
            s \<leftarrow> extend_loop n len (sz div bs) s;
            fd \<leftarrow> fd_at n s;
            write_inode (fd_inode fd) s } }"

definition fclose :: "u32 \<Rightarrow> fs_state \<Rightarrow> (u32 \<times> fs_state) option" where
  "fclose n s = do { fd_at n s; Some (0, fd_upd n (fd_closed_update (\<lambda>_. 1)) s) }"

definition iopen :: "u32 \<Rightarrow> fs_state \<Rightarrow> (u32 \<times> fs_state) option" where
  "iopen inode_number s =
     (let slot = get_next_available_file_descriptor_slot s in
      if slot = -1 \<or> inode_number = -1 then Some (-1, s)
      else do { (inode, s) \<leftarrow> read_inode inode_number s;
                Some (slot, fd_upd slot (\<lambda>fd. fd\<lparr>fd_inode := inode, fd_pos := 0, fd_closed := 0\<rparr>) s) })"

definition fseek :: "u32 \<Rightarrow> u32 \<Rightarrow> seek_t \<Rightarrow> fs_state \<Rightarrow> fs_state option" where
  "fseek n offset whence s =
     do { fd \<leftarrow> fd_at n s;
          pos \<leftarrow> (case whence of
                    SEEK_SET \<Rightarrow> Some offset
                  | SEEK_CUR \<Rightarrow> Some (fd_pos fd + offset)
                  | SEEK_END \<Rightarrow> do { assert (sint offset \<le> 0); Some (i_size (fd_inode fd) + offset) });
          assert (pos \<ge> 0);
          assert (pos \<le> i_size (fd_inode fd));
          Some (fd_upd n (fd_pos_update (\<lambda>_. pos)) s) }"

section \<open>Reading and writing\<close>

definition block_number :: "file_descriptor \<Rightarrow> fs_state \<Rightarrow> u32" where
  "block_number fd s = switch_endianness (load32 (fs_bytes s)
     (i_blocks (fd_inode fd) + 4 * ucast (fd_pos fd div fs_block_size (filesystem s))))"

text \<open>One round of the loop of \<open>read\<close>: the bytes copied, and the state.\<close>

definition read_step :: "u32 \<Rightarrow> u64 \<Rightarrow> u32 \<Rightarrow> file_descriptor \<Rightarrow> fs_state \<Rightarrow> (u32 \<times> fs_state) option" where
  "read_step n buffer len fd s =
     do { let bs = fs_block_size (filesystem s);
          (block, s) \<leftarrow> read_block (block_number fd s) s;
          let copy_len = fs_min len (bs - fd_pos fd mod bs);
          let s = upd_bytes (memcpy buffer (block + ucast (fd_pos fd mod bs)) (scast copy_len)) s;
          let s = fd_upd n (fd_pos_update (\<lambda>p. p + copy_len)) s;
          s \<leftarrow> fs_kfree block s;
          Some (copy_len, s) }"

partial_function (option) read_loop :: "u32 \<Rightarrow> u32 \<Rightarrow> u64 \<Rightarrow> u32 \<Rightarrow> fs_state \<Rightarrow> fs_state option" where
  "read_loop n end_pos buffer len s =
     fd_at n s \<bind> (\<lambda>fd.
       if fd_pos fd < end_pos then
         read_step n buffer len fd s \<bind> (\<lambda>r. read_loop n end_pos (buffer + scast (fst r)) len (snd r))
       else Some s)"

definition read_file :: "u32 \<Rightarrow> u64 \<Rightarrow> u32 \<Rightarrow> fs_state \<Rightarrow> (u32 \<times> fs_state) option" where
  "read_file n buffer len s =
     do { assert (sint len \<ge> 0);
          fd \<leftarrow> fd_at n s;
          let len = fs_min len (i_size (fd_inode fd) - fd_pos fd);
          s \<leftarrow> read_loop n (fd_pos fd + len) buffer len s;
          Some (len, s) }"

definition fread :: "u32 \<Rightarrow> u64 \<Rightarrow> u64 \<Rightarrow> fs_state \<Rightarrow> (u64 \<times> fs_state) option" where
  "fread n buffer len s = map_option (\<lambda>(r, s). (scast r, s)) (read_file n buffer (ucast len) s)"

definition write_step :: "u32 \<Rightarrow> u64 \<Rightarrow> u32 \<Rightarrow> file_descriptor \<Rightarrow> fs_state \<Rightarrow> (u32 \<times> fs_state) option" where
  "write_step n buffer end_pos fd s =
     do { let bs = fs_block_size (filesystem s);
          let number = block_number fd s;
          (block, s) \<leftarrow> read_block number s;
          let copy_len = fs_min (end_pos - fd_pos fd) (bs - fd_pos fd mod bs);
          let s = upd_bytes (memcpy (block + ucast (fd_pos fd mod bs)) buffer (scast copy_len)) s;
          s \<leftarrow> write_block number block s;
          let s = fd_upd n (fd_pos_update (\<lambda>p. p + copy_len)) s;
          s \<leftarrow> fs_kfree block s;
          Some (copy_len, s) }"

partial_function (option) write_loop :: "u32 \<Rightarrow> u32 \<Rightarrow> u64 \<Rightarrow> fs_state \<Rightarrow> fs_state option" where
  "write_loop n end_pos buffer s =
     fd_at n s \<bind> (\<lambda>fd.
       if fd_pos fd < end_pos then
         write_step n buffer end_pos fd s \<bind> (\<lambda>r. write_loop n end_pos (buffer + scast (fst r)) (snd r))
       else Some s)"

definition write_file :: "u32 \<Rightarrow> u64 \<Rightarrow> u32 \<Rightarrow> fs_state \<Rightarrow> (u32 \<times> fs_state) option" where
  "write_file n buffer len s =
     do { assert (sint len \<ge> 0);
          s \<leftarrow> extend_file n len s;
          fd \<leftarrow> fd_at n s;
          assert (len \<le> i_size (fd_inode fd) - fd_pos fd);
          s \<leftarrow> write_loop n (fd_pos fd + len) buffer s;
          Some (len, s) }"

definition fwrite :: "u32 \<Rightarrow> u64 \<Rightarrow> u64 \<Rightarrow> fs_state \<Rightarrow> (u64 \<times> fs_state) option" where
  "fwrite n buffer len s = map_option (\<lambda>(r, s). (scast r, s)) (write_file n buffer (ucast len) s)"

section \<open>Directories\<close>

definition read_dirent :: "u32 \<Rightarrow> fs_state \<Rightarrow> (dirent_t \<times> fs_state) option" where
  "read_dirent n s =
     do { (dir, s) \<leftarrow> fs_kmalloc (DIRECTORY_ENTRY_SIZE * 1) s;
          (_, s) \<leftarrow> read_file n dir (ucast DIRECTORY_ENTRY_SIZE) s;
          let inode = switch_endianness (load32 (fs_bytes s) (dir + of_nat FILENAME_MAX_SIZE));
          Some (\<lparr>d_inode = inode, d_name = dir\<rparr>, upd_bytes (\<lambda>m. m(dir + of_nat FILENAME_MAX_SIZE := 0)) s) }"

text \<open>\<open>filename_match\<close>: \<open>fuel\<close> is the number of rounds that the bound of the loop leaves.\<close>

fun match_from :: "nat \<Rightarrow> bytes \<Rightarrow> u64 \<Rightarrow> u64 \<Rightarrow> nat \<Rightarrow> int" where
  "match_from 0 m path dirname cur =
     (if m (path + of_nat cur) = 47 \<or> m (path + of_nat cur) = 0 then int cur else -1)"
| "match_from (Suc fuel) m path dirname cur =
     (if (m (path + of_nat cur) = 47 \<or> m (path + of_nat cur) = 0) \<and> m (dirname + of_nat cur) = 0 then int cur
      else if m (path + of_nat cur) \<noteq> m (dirname + of_nat cur) then -1
      else match_from fuel m path dirname (Suc cur))"

definition filename_match :: "u64 \<Rightarrow> u64 \<Rightarrow> bytes \<Rightarrow> int" where
  "filename_match path dirname m = match_from FILENAME_MAX_SIZE m path dirname 0"

text \<open>One round of the loop of \<open>inode_of_path\<close>: the number found, or the rest of the path.\<close>

definition path_step :: "u32 \<Rightarrow> u64 \<Rightarrow> fs_state \<Rightarrow> ((u32 + u64) \<times> fs_state) option" where
  "path_step fdesc path s =
     do { (dirent, s) \<leftarrow> read_dirent fdesc s;
          let match = filename_match path (d_name dirent) (fs_bytes s);
          if match > 0 then
            let path = path + word_of_int match in
            if fs_bytes s path = 0 then do { s \<leftarrow> fs_kfree (d_name dirent) s; Some (Inl (d_inode dirent), s) }
            else do { (inode, s) \<leftarrow> read_inode (d_inode dirent) s;
                      let s = fd_upd fdesc (\<lambda>fd. fd\<lparr>fd_inode := inode, fd_pos := 0\<rparr>) s;
                      s \<leftarrow> fs_kfree (d_name dirent) s;
                      Some (Inr (path + 1), s) }
          else do { s \<leftarrow> fs_kfree (d_name dirent) s; Some (Inr path, s) } }"

partial_function (option) path_loop :: "u32 \<Rightarrow> u64 \<Rightarrow> fs_state \<Rightarrow> (u32 \<times> fs_state) option" where
  "path_loop fdesc path s =
     is_at_end_of_file fdesc s \<bind> (\<lambda>at_end.
       if \<not> at_end then
         path_step fdesc path s \<bind> (\<lambda>r.
           case fst r of Inl inode \<Rightarrow> Some (inode, snd r) | Inr path \<Rightarrow> path_loop fdesc path (snd r))
       else fclose fdesc s \<bind> (\<lambda>r. Some (-1, snd r)))"

definition inode_of_path :: "u64 \<Rightarrow> fs_state \<Rightarrow> (u32 \<times> fs_state) option" where
  "inode_of_path path s =
     (let path = (if fs_bytes s path = 47 then path + 1 else path) in
      do { (fdesc, s) \<leftarrow> iopen (root_inode (filesystem s)) s;
           path_loop fdesc path s })"

definition fopen :: "u64 \<Rightarrow> fs_state \<Rightarrow> (u32 \<times> fs_state) option" where
  "fopen path s = do { (inode, s) \<leftarrow> inode_of_path path s; iopen inode s }"

definition is_special_directory :: "u64 \<Rightarrow> bytes \<Rightarrow> bool" where
  "is_special_directory name m = (m name = 46 \<and> (m (name + 1) = 0 \<or> (m (name + 1) = 46 \<and> m (name + 2) = 0)))"

section \<open>Start\<close>

definition get_filesystem_type :: "fs_state \<Rightarrow> (u64 \<times> fs_state) option" where
  "get_filesystem_type s =
     do { (fstype, s) \<leftarrow> fs_kmalloc 5 s;
          let src = superblock (filesystem s) + ucast (fs_block_size (filesystem s)) - 4;
          Some (fstype, upd_bytes (\<lambda>m. m(fstype + 5 := 0)) (upd_bytes (memcpy fstype src 4) s)) }"

definition init_file_descriptor_table :: "fs_state \<Rightarrow> fs_state" where
  "init_file_descriptor_table s = s\<lparr>file_descriptor_table :=
     (\<lambda>i. if i < MAX_FILE_DESCRIPTORS then (file_descriptor_table s i)\<lparr>fd_closed := 1\<rparr> else file_descriptor_table s i)\<rparr>"

definition init_filesystem :: "u64 \<Rightarrow> u64 \<Rightarrow> fs_state \<Rightarrow> fs_state option" where
  "init_filesystem filesystem_start filesystem_end s =
     (let be = (\<lambda>a. switch_endianness (load32 (fs_bytes s) a));
          bs = be (filesystem_end - 4);
          s = s\<lparr>filesystem := (filesystem s)\<lparr>fs_start := filesystem_start, fs_end := filesystem_end, superblock := filesystem_start,
                fs_block_size := bs,
                inode_count := be filesystem_start, last_free_inode := be (filesystem_start + 4),
                free_block_list := be (filesystem_start + 8), free_block_count := be (filesystem_start + 12),
                root_inode := be (filesystem_start + 16)\<rparr>\<rparr>
      in do { (ty, s) \<leftarrow> get_filesystem_type s;
              let sz = (ucast (filesystem_end - filesystem_start) :: u32);
              let table_size = (bs - 12) div 4;
              Some (init_file_descriptor_table (s\<lparr>filesystem := (filesystem s)\<lparr>fs_type := ty,
                block_count := (sz - 4) div bs, blocktable_offset := 12, blocktable_size := table_size,
                max_file_size := bs * table_size, block_word_size := bs div 4, seek_cursor := filesystem_start\<rparr>\<rparr>)) })"

end
