(* ===== verification/Fs_Service.thy ===== *)
theory Fs_Service
  imports Sys Filesystem
begin

text \<open>
  Files of user programs: the manager of \<^verbatim>\<open>src/src/usr/fs_manager.c\<close>, which owns the file system, and the
  library \<^verbatim>\<open>src/src/libk/user_filesystem.c\<close>, which sends requests to it. An \<open>fs_request_t\<close> has its code at
  offset 0, the file descriptor at 4, the numbers at 8 and 16 and the buffers at 24 and 524, in 1024 bytes.
\<close>

abbreviation (input) FS_MANAGER_PID :: u32 where "FS_MANAGER_PID \<equiv> 4"

section \<open>The manager\<close>

text \<open>The file system of the manager works in the memory of the manager.\<close>

type_synonym 'k fs_manager = "('k, fs_state) manager"

definition fs_of :: "'k fs_manager \<Rightarrow> fs_state" where
  "fs_of s = upd_bytes (\<lambda>_. con_mem s) (globals (device s))"

definition put_fs :: "fs_state \<Rightarrow> 'k fs_manager \<Rightarrow> 'k fs_manager" where
  "put_fs t s = \<lparr>con_mem = fs_bytes t, device = (device s)\<lparr>globals := t\<rparr>\<rparr>"

definition on_fs :: "(fs_state \<Rightarrow> ('r \<times> fs_state) option) \<Rightarrow> 'k fs_manager \<Rightarrow> ('r \<times> 'k fs_manager) option" where
  "on_fs f s = map_option (\<lambda>(r, t). (r, put_fs t s)) (f (fs_of s))"

definition seek_of :: "u64 \<Rightarrow> seek_t option" where
  "seek_of x = (let w = (ucast x :: u32) in if w = 0 then Some SEEK_SET else if w = 1 then Some SEEK_CUR
     else if w = 2 then Some SEEK_END else None)"

text \<open>
  The \<open>switch\<close> on the code of a request; the result is the status of \<open>acknowledge\<close>. A value of \<open>whence\<close> that is
  none of the three fails an assertion. \<open>move\<close> does nothing and leaves the status of the last round, 0.
\<close>

definition fs_switch :: "nat \<Rightarrow> frame \<Rightarrow> ('k, fs_state) manager_dev svc_instr \<Rightarrow> u32 \<Rightarrow> 'k fs_manager \<Rightarrow> (u32 \<times> 'k fs_manager) option" where
  "fs_switch LOG_LEVEL fr svc sender s =
     (let request = fr_request fr; code = load 4 (con_mem s) request; fd = (ucast (load 4 (con_mem s) (request + 4)) :: u32);
          data1 = load 8 (con_mem s) (request + 8); data2 = load 8 (con_mem s) (request + 16) in
      if code = 0 then
        do { s \<leftarrow> log_verbose LOG_LEVEL fr ''FS: Fclose from %d'' [ucast sender] s;
             (status, s) \<leftarrow> on_fs (fclose fd) s;
             acknowledge svc status 0 0 s }
      else if code = 1 then
        do { s \<leftarrow> log_verbose LOG_LEVEL fr ''FS: Fopen from %d'' [ucast sender] s;
             (status, s) \<leftarrow> on_fs (fopen (request + 24)) s;
             acknowledge svc status 0 0 s }
      else if code = 2 then
        do { s \<leftarrow> log_verbose LOG_LEVEL fr ''FS: Fseek from %d'' [ucast sender] s;
             whence \<leftarrow> seek_of data2;
             (_, s) \<leftarrow> on_fs (\<lambda>t. map_option (Pair ()) (fseek fd (ucast data1) whence t)) s;
             acknowledge svc 0 0 0 s }
      else if code = 3 then
        do { s \<leftarrow> log_verbose LOG_LEVEL fr ''FS: Fread from %d'' [ucast sender] s;
             (n, s) \<leftarrow> on_fs (fread fd (fr_response fr) data1) s;
             acknowledge svc (ucast n) (fr_response fr) 500 s }
      else if code = 4 then
        do { s \<leftarrow> log_verbose LOG_LEVEL fr ''FS: Fwrite from %d'' [ucast sender] s;
             (n, s) \<leftarrow> on_fs (fwrite fd (request + 24) data1) s;
             acknowledge svc (ucast n) 0 0 s }
      else if code = 5 then
        do { s \<leftarrow> log_verbose LOG_LEVEL fr ''FS: move from %d'' [ucast sender] s;
             acknowledge svc 0 0 0 s }
      else
        do { s \<leftarrow> log_error LOG_LEVEL fr ''FS processs reached over unknown requestby %d'' [ucast sender] s;
             acknowledge svc (-1) 0 0 s })"

definition fs_round :: "nat \<Rightarrow> frame \<Rightarrow> ('k, fs_state) manager_dev svc_instr \<Rightarrow> 'k fs_manager \<Rightarrow> 'k fs_manager option" where
  "fs_round LOG_LEVEL fr svc s =
     do { (sender, s) \<leftarrow> receive svc (fr_request fr) 1024 s;
          (status, s) \<leftarrow> fs_switch LOG_LEVEL fr svc sender s;
          assert (status = 0);
          Some s }"

definition main_fs_manager :: "nat \<Rightarrow> nat \<Rightarrow> nat \<Rightarrow> frame \<Rightarrow> u64 \<Rightarrow> u64 \<Rightarrow> ('k, fs_state) manager_dev svc_instr \<Rightarrow> 'k fs_manager \<Rightarrow> 'k fs_manager option" where
  "main_fs_manager n self LOG_LEVEL fr filesystem_start filesystem_end svc s =
     do { assert (self = 4);
          (_, s) \<leftarrow> on_fs (\<lambda>t. map_option (Pair ()) (init_filesystem filesystem_start filesystem_end t)) s;
          s \<leftarrow> log_verbose LOG_LEVEL fr ''sizeof(request): %d'' [1024] s;
          rounds n (fs_round LOG_LEVEL fr svc) (upd_mem (\<lambda>m. zeroed (fr_response fr) 500 (zeroed (fr_request fr) 1024 m)) s) }"

section \<open>The library\<close>

text \<open>\<open>req\<close> and \<open>resp\<close> are the addresses of the local structures, \<open>err\<close> that of the error variable of the process.\<close>

definition fs_request :: "u64 \<Rightarrow> u64 \<Rightarrow> u32 \<Rightarrow> u64 \<Rightarrow> u64 \<Rightarrow> bytes \<Rightarrow> bytes" where
  "fs_request req code fd data1 data2 m =
     store 8 (req + 16) data2 (store 8 (req + 8) data1 (store 4 (req + 4) (ucast fd) (store 4 req code (zeroed req 1024 m))))"

definition uclose :: "'d svc_instr \<Rightarrow> u64 \<Rightarrow> u32 \<Rightarrow> 'd con_state \<Rightarrow> (u32 \<times> 'd con_state) option" where
  "uclose svc req fd s = send svc FS_MANAGER_PID req 1024 0 0 True (upd_mem (fs_request req 0 fd 0 0) s)"

definition uopen :: "'d svc_instr \<Rightarrow> u64 \<Rightarrow> u64 \<Rightarrow> u64 \<Rightarrow> 'd con_state \<Rightarrow> (u32 \<times> 'd con_state) option" where
  "uopen svc req err path s =
     do { n \<leftarrow> strsize path (con_mem s);
          if n > 500 then Some (-1, upd_mem (store 4 err (ucast SEND_DATA_TOO_LARGE)) s)
          else send svc FS_MANAGER_PID req 1024 0 0 True
                 (upd_mem (\<lambda>m. memmove (req + 24) path n (fs_request req 1 0 0 0 m)) s) }"

definition useek :: "'d svc_instr \<Rightarrow> u64 \<Rightarrow> u32 \<Rightarrow> u32 \<Rightarrow> u32 \<Rightarrow> 'd con_state \<Rightarrow> 'd con_state option" where
  "useek svc req fd offset whence s =
     map_option snd (send svc FS_MANAGER_PID req 1024 0 0 True (upd_mem (fs_request req 2 fd (scast offset) (ucast whence)) s))"

definition uread :: "'d svc_instr \<Rightarrow> u64 \<Rightarrow> u64 \<Rightarrow> u32 \<Rightarrow> u64 \<Rightarrow> u64 \<Rightarrow> 'd con_state \<Rightarrow> (u64 \<times> 'd con_state) option" where
  "uread svc req resp fd buf byte_count s =
     do { (n, s) \<leftarrow> send svc FS_MANAGER_PID req 1024 resp 500 True
            (upd_mem (\<lambda>m. zeroed resp 500 (fs_request req 3 fd byte_count 0 m)) s);
          Some (scast n, upd_mem (memmove buf resp (scast n)) s) }"

definition uwrite :: "'d svc_instr \<Rightarrow> u64 \<Rightarrow> u64 \<Rightarrow> u32 \<Rightarrow> u64 \<Rightarrow> u64 \<Rightarrow> 'd con_state \<Rightarrow> (u64 \<times> 'd con_state) option" where
  "uwrite svc req err fd buf byte_count s =
     (let s = upd_mem (fs_request req 4 fd byte_count 0) s in
      if byte_count > 500 then Some (-1, upd_mem (store 4 err (ucast SEND_DATA_TOO_LARGE)) s)
      else map_option (\<lambda>(r, s). (scast r, s)) (send svc FS_MANAGER_PID req 1024 0 0 True (upd_mem (memmove (req + 24) buf byte_count) s)))"

text \<open>Both paths go to the second buffer.\<close>

definition umove :: "'d svc_instr \<Rightarrow> u64 \<Rightarrow> u64 \<Rightarrow> u64 \<Rightarrow> 'd con_state \<Rightarrow> (u32 \<times> 'd con_state) option" where
  "umove svc req src_path dst_path s =
     do { let s = upd_mem (fs_request req 5 0 0 0) s;
          n \<leftarrow> strsize src_path (con_mem s);
          if n > 500 then Some (-1, s)
          else do {
            let s = upd_mem (memmove (req + 524) src_path n) s;
            n \<leftarrow> strsize dst_path (con_mem s);
            if n > 500 then Some (-1, s)
            else send svc FS_MANAGER_PID req 1024 0 0 True (upd_mem (memmove (req + 524) dst_path n) s) } }"

end
