(* ===== verification/Fs_Blocks.thy ===== *)
theory Fs_Blocks
  imports Filesystem
begin

text \<open>
  The blocks of the file system: where block \<open>k\<close> of the disk lies in memory (\<open>disk_addr\<close>), the invariant
  \<open>fs_ok\<close> (the disk lies below a well-formed heap that has room for a copy of a block), and the effect of
  one round of the loops of \<open>read\<close> and \<open>write\<close>, which copy a block to the heap, copy from or to a part
  of it, and free it again.
\<close>

section \<open>The disk in memory\<close>

abbreviation bsz :: "fs_state \<Rightarrow> nat" where "bsz s \<equiv> unat (fs_block_size (filesystem s))"
abbreviation nblocks :: "fs_state \<Rightarrow> nat" where "nblocks s \<equiv> unat (block_count (filesystem s))"

definition disk_addr :: "fs_state \<Rightarrow> nat \<Rightarrow> nat \<Rightarrow> u64" where
  "disk_addr s k i = fs_start (filesystem s) + of_nat (k * bsz s + i)"

definition fs_ok :: "fs_state \<Rightarrow> bool" where
  "fs_ok s \<longleftrightarrow> heap_ok (fs_mem s) \<and> 16 \<le> bsz s \<and> bsz s \<le> 2 ^ 16 \<and> nblocks s * bsz s \<le> 2 ^ 32 \<and>
     unat (fs_start (filesystem s)) + nblocks s * bsz s \<le> unat (heap_begin (fs_mem s)) \<and>
     kmalloc (ucast (fs_block_size (filesystem s) + 1)) (fs_mem s) \<noteq> None"

text \<open>The geometry of the disk stays as it is; only the cursor moves.\<close>

definition same_disk :: "fs_state \<Rightarrow> fs_state \<Rightarrow> bool" where
  "same_disk s s' \<longleftrightarrow> filesystem s' = (filesystem s)\<lparr>seek_cursor := seek_cursor (filesystem s')\<rparr>"

lemma same_diskD:
  assumes "same_disk s s'"
  shows "fs_block_size (filesystem s') = fs_block_size (filesystem s)" "fs_start (filesystem s') = fs_start (filesystem s)"
    "max_file_size (filesystem s') = max_file_size (filesystem s)" "block_count (filesystem s') = block_count (filesystem s)"
    "disk_addr s' = disk_addr s"
proof -
  have f: "filesystem s' = (filesystem s)\<lparr>seek_cursor := seek_cursor (filesystem s')\<rparr>" using assms by (simp add: same_disk_def)
  show g: "fs_block_size (filesystem s') = fs_block_size (filesystem s)" "fs_start (filesystem s') = fs_start (filesystem s)"
    "max_file_size (filesystem s') = max_file_size (filesystem s)" "block_count (filesystem s') = block_count (filesystem s)"
    by (subst f, simp)+
  show "disk_addr s' = disk_addr s" using g by (simp add: fun_eq_iff disk_addr_def)
qed

lemma same_disk_trans: "same_disk s s' \<Longrightarrow> same_disk s' s'' \<Longrightarrow> same_disk s s''"
  unfolding same_disk_def by (cases "filesystem s"; cases "filesystem s'"; cases "filesystem s''") simp

definition stays :: "fs_state \<Rightarrow> fs_state \<Rightarrow> bool" where
  "stays s s' \<longleftrightarrow> fs_ok s' \<and> same_disk s s' \<and> owned (fs_mem s') = owned (fs_mem s) \<and> live_blocks (fs_mem s') = live_blocks (fs_mem s) \<and>
     heap_begin (fs_mem s') = heap_begin (fs_mem s) \<and> brk (fs_mem s) \<le> brk (fs_mem s')"

lemma stays_same_disk: "stays s s' \<Longrightarrow> same_disk s s'"
  by (simp add: stays_def)

lemma staysD:
  assumes "stays s s'"
  shows "fs_ok s'" "bsz s' = bsz s" "nblocks s' = nblocks s" "disk_addr s' = disk_addr s" "owned (fs_mem s') = owned (fs_mem s)"
    "max_file_size (filesystem s') = max_file_size (filesystem s)" "fs_block_size (filesystem s') = fs_block_size (filesystem s)"
    "block_count (filesystem s') = block_count (filesystem s)" "fs_start (filesystem s') = fs_start (filesystem s)"
  using assms same_diskD [OF stays_same_disk [OF assms]] by (simp_all add: stays_def)

lemma stays_refl: "fs_ok s \<Longrightarrow> stays s s"
  by (simp add: stays_def same_disk_def)

lemma stays_trans: "stays s s' \<Longrightarrow> stays s' s'' \<Longrightarrow> stays s s''"
  using same_disk_trans by (auto simp: stays_def)

lemma stays_tables [simp]: "stays s (s'\<lparr>file_descriptor_table := t\<rparr>) = stays s s'" "stays (s\<lparr>file_descriptor_table := t\<rparr>) s' = stays s s'"
  by (simp_all add: stays_def fs_ok_def same_disk_def)

lemma heap_ok_begin:
  assumes "heap_ok s"
  shows "unat (heap_begin s) \<le> 0x3f00b000"
  using assms tiled_le by (force simp: heap_ok_def heap_inv_def)

lemma disk_addr_unat:
  assumes "fs_ok s" and "k < nblocks s" and "i \<le> bsz s"
  shows "unat (disk_addr s k i) = unat (fs_start (filesystem s)) + k * bsz s + i" "k * bsz s + bsz s \<le> nblocks s * bsz s"
    "unat (disk_addr s k i) + (bsz s - i) \<le> unat (heap_begin (fs_mem s))"
proof -
  have "Suc k * bsz s \<le> nblocks s * bsz s" using assms(2) by (intro mult_right_mono) auto
  then show *: "k * bsz s + bsz s \<le> nblocks s * bsz s" by simp
  have "unat (heap_begin (fs_mem s)) \<le> 0x3f00b000" using assms(1) heap_ok_begin by (auto simp: fs_ok_def)
  then have "unat (fs_start (filesystem s)) + (k * bsz s + i) < 2 ^ 64" using assms * by (auto simp: fs_ok_def)
  then show **: "unat (disk_addr s k i) = unat (fs_start (filesystem s)) + k * bsz s + i"
    by (simp only: disk_addr_def unat_word_ariths unat_of_nat mod_add_right_eq) (simp add: add.assoc)
  show "unat (disk_addr s k i) + (bsz s - i) \<le> unat (heap_begin (fs_mem s))" using * ** assms by (auto simp: fs_ok_def)
qed

lemma disk_owned:
  assumes "fs_ok s" and "k < nblocks s" and "i < bsz s"
  shows "unat (disk_addr s k i) < unat (heap_begin (fs_mem s))" "owned (fs_mem s) (disk_addr s k i)"
proof -
  have "unat (disk_addr s k i) + (bsz s - i) \<le> unat (heap_begin (fs_mem s))"
    using disk_addr_unat(3) [OF assms(1,2)] assms(3) by simp
  then show "unat (disk_addr s k i) < unat (heap_begin (fs_mem s))" using assms(3) by linarith
  then show "owned (fs_mem s) (disk_addr s k i)" by (simp add: owned_def off_heap_def)
qed

lemma block_addr:
  assumes "fs_ok s" and "unat n < nblocks s"
  shows "fs_start (filesystem s) + ucast (n * fs_block_size (filesystem s)) = disk_addr s (unat n) 0"
proof -
  have "unat n * bsz s + bsz s \<le> nblocks s * bsz s" using disk_addr_unat(2) [OF assms, of 0] by simp
  then have "unat (n * fs_block_size (filesystem s)) = unat n * bsz s"
    using assms(1) by (simp add: unat_word_ariths fs_ok_def)
  then have "ucast (n * fs_block_size (filesystem s)) = (of_nat (unat n * bsz s) :: u64)" by (metis of_nat_unat)
  then show ?thesis by (simp add: disk_addr_def)
qed

lemma seek_block_spec:
  assumes "fs_ok s" and "unat n < nblocks s"
  shows "seek_block n s = Some (s\<lparr>filesystem := (filesystem s)\<lparr>seek_cursor := disk_addr s (unat n) 0\<rparr>\<rparr>)"
  using block_addr [OF assms] assms(2) by (simp add: seek_block_def assert_bind word_less_nat_alt)

lemma disjoint_spans: "(\<And>y. span a n y \<Longrightarrow> \<not> span b n y) \<Longrightarrow> unat a \<le> unat b \<or> unat b + n \<le> unat a"
  using not_less by (fastforce simp: span_def)

text \<open>A copy of block \<open>k\<close> of the disk, in a block of the heap at \<open>q\<close> that the caller is going to free.\<close>

definition borrowed :: "fs_state \<Rightarrow> nat \<Rightarrow> u64 \<Rightarrow> alloc_state \<Rightarrow> bool" where
  "borrowed s k q a \<longleftrightarrow> (\<forall>i<bsz s. heap a (q + of_nat i) = fs_bytes s (disk_addr s k i)) \<and>
     (\<forall>y. owned (fs_mem s) y \<longrightarrow> heap a y = fs_bytes s y) \<and> (\<forall>y. span q (bsz s + 1) y \<longrightarrow> \<not> owned (fs_mem s) y) \<and>
     unat q + (bsz s + 1) \<le> 0x3f00b000 \<and> unat (heap_begin (fs_mem s)) \<le> unat q \<and>
     (\<forall>m. (\<forall>y. \<not> span q (bsz s + 1) y \<longrightarrow> \<not> owned (fs_mem s) y \<longrightarrow> m y = heap a y) \<longrightarrow>
       (\<exists>a'. kfree q (a\<lparr>heap := m\<rparr>) = Some a' \<and>
         (\<forall>c t. stays s (s\<lparr>filesystem := (filesystem s)\<lparr>seek_cursor := c\<rparr>, file_descriptor_table := t, fs_mem := a'\<rparr>)) \<and>
         (\<forall>y. owned (fs_mem s) y \<longrightarrow> heap a' y = m y)))"

lemma borrowedD:
  assumes "borrowed s k q a"
  shows "i < bsz s \<Longrightarrow> heap a (q + of_nat i) = fs_bytes s (disk_addr s k i)"
    "owned (fs_mem s) y \<Longrightarrow> heap a y = fs_bytes s y" "span q (bsz s + 1) y \<Longrightarrow> \<not> owned (fs_mem s) y"
    "unat q + (bsz s + 1) \<le> 0x3f00b000" "unat (heap_begin (fs_mem s)) \<le> unat q"
  using assms by (simp_all add: borrowed_def)

lemma borrowed_kfree:
  assumes "borrowed s k q a" and "\<And>y. \<not> span q (bsz s + 1) y \<Longrightarrow> \<not> owned (fs_mem s) y \<Longrightarrow> m y = heap a y"
  obtains a' where "kfree q (a\<lparr>heap := m\<rparr>) = Some a'" "\<And>y. owned (fs_mem s) y \<Longrightarrow> heap a' y = m y"
    "\<And>c t. stays s (s\<lparr>filesystem := (filesystem s)\<lparr>seek_cursor := c\<rparr>, file_descriptor_table := t, fs_mem := a'\<rparr>)"
  using assms unfolding borrowed_def by blast

lemma read_block_spec:
  assumes ok: "fs_ok s" and n: "unat n < nblocks s"
  obtains q a where "read_block n s = Some (q, s\<lparr>filesystem := (filesystem s)\<lparr>seek_cursor := disk_addr s (unat n) 0\<rparr>, fs_mem := a\<rparr>)"
    "borrowed s (unat n) q a"
proof -
  define r :: u64 where "r = ucast (fs_block_size (filesystem s) + 1)"
  have b: "16 \<le> bsz s" "bsz s \<le> 2 ^ 16" using ok by (auto simp: fs_ok_def)
  then have ur: "unat r = bsz s + 1" unfolding r_def
    by (simp add: unsigned_ucast_eq take_bit_eq_mod unat_word_ariths)
  obtain bs where inv: "heap_inv (fs_mem s) bs" using ok by (auto simp: fs_ok_def heap_ok_def)
  obtain q a1 where km: "kmalloc r (fs_mem s) = Some (q, a1)" using ok by (force simp: fs_ok_def r_def)
  have r0: "0 < r" "unat r + 32 \<le> 2 ^ 30" using ur b by (simp_all add: word_less_nat_alt)
  note sc = scratch_block [OF inv r0 km, unfolded ur]
  define d where "d = disk_addr s (unat n) 0"
  note da = disk_addr_unat [OF ok n]
  have d: "unat d + bsz s \<le> unat (heap_begin (fs_mem s))" using da(3) [of 0] by (simp add: d_def)
  define m where "m = copied q d (bsz s) ((heap a1)(q + of_nat (bsz s) := 0))"
  have same: "m y = heap a1 y" if "\<not> span q (bsz s + 1) y" for y
    using that unat_add_lt [of q "bsz s + 1" "bsz s"] sc(2) by (auto simp: m_def copied_def span_def)
  have "read_block n s = Some (q, s\<lparr>filesystem := (filesystem s)\<lparr>seek_cursor := d\<rparr>, fs_mem := a1\<lparr>heap := m\<rparr>\<rparr>)"
  proof -
    have ub: "unat (ucast (fs_block_size (filesystem s)) :: u64) = bsz s" using b by (simp add: unsigned_ucast_eq take_bit_eq_mod)
    have ub': "ucast (fs_block_size (filesystem s)) = (of_nat (bsz s) :: u64)" by (simp only: of_nat_unat)
    have "memcpy q d (ucast (fs_block_size (filesystem s))) h = copied q d (bsz s) h" for h
      using memcpy_copied [of q "ucast (fs_block_size (filesystem s))" d] d sc(1,2) unfolding ub by simp
    then show ?thesis
      by (simp add: read_block_def seek_block_spec [OF ok n] fs_kmalloc_def r_def [symmetric] km upd_bytes_def m_def Let_def
            ub' [symmetric] del: of_nat_unat flip: d_def)
  qed
  moreover have "borrowed s (unat n) q (a1\<lparr>heap := m\<rparr>)"
    unfolding borrowed_def
  proof (intro conjI allI impI)
    have ow: "heap a1 y = fs_bytes s y" if "owned (fs_mem s) y" for y
      using sc(3) [OF that] by (simp add: fs_bytes_def)
    show "heap (a1\<lparr>heap := m\<rparr>) y = fs_bytes s y" if "owned (fs_mem s) y" for y
      using that sc(4) [of y] same [of y] ow [of y] by auto
    show "heap (a1\<lparr>heap := m\<rparr>) (q + of_nat i) = fs_bytes s (disk_addr s (unat n) i)" if i: "i < bsz s" for i
    proof -
      have "unat (q + of_nat i) = unat q + i" using unat_add_lt [of q "bsz s" i] i sc(2) by simp
      moreover have "d + of_nat i = disk_addr s (unat n) i" by (simp add: d_def disk_addr_def)
      moreover have "owned (fs_mem s) (disk_addr s (unat n) i)" using disk_owned [OF ok n i] by simp
      moreover have "disk_addr s (unat n) i \<noteq> q + of_nat (bsz s)" using disk_owned(1) [OF ok n i] sc(1,2) unat_add_lt [of q "bsz s + 1" "bsz s"]
        by auto
      ultimately show ?thesis using i ow by (simp add: m_def copied_def span_def)
    qed
    show "\<exists>a'. kfree q (a1\<lparr>heap := m\<rparr>\<lparr>heap := m'\<rparr>) = Some a' \<and>
         (\<forall>c t. stays s (s\<lparr>filesystem := (filesystem s)\<lparr>seek_cursor := c\<rparr>, file_descriptor_table := t, fs_mem := a'\<rparr>)) \<and>
         (\<forall>y. owned (fs_mem s) y \<longrightarrow> heap a' y = m' y)"
      if "\<forall>y. \<not> span q (bsz s + 1) y \<longrightarrow> \<not> owned (fs_mem s) y \<longrightarrow> m' y = heap (a1\<lparr>heap := m\<rparr>) y" for m'
    proof -
      have "m' y = heap a1 y" if "\<not> span q (bsz s + 1) y" "\<not> owned (fs_mem s) y" for y
        using \<open>\<forall>y. _ y\<close> that same [OF that(1)] by simp
      from sc(5) [OF this] obtain a' where "kfree q (a1\<lparr>heap := m'\<rparr>) = Some a'" "heap_ok a'" "owned a' = owned (fs_mem s)"
        "live_blocks a' = live_blocks (fs_mem s)" "heap_begin a' = heap_begin (fs_mem s)" "brk (fs_mem s) \<le> brk a'" "kmalloc r a' \<noteq> None" "\<forall>y. owned (fs_mem s) y \<longrightarrow> heap a' y = m' y"
        by blast
      then show ?thesis using ok by (auto simp: stays_def same_disk_def fs_ok_def r_def)
    qed
  qed (use sc in auto)
  ultimately show thesis using that by (simp add: d_def)
qed

section \<open>One round of reading and writing\<close>

lemma fs_min_nat:
  assumes "unat a < 2 ^ 31" and "unat b < 2 ^ 31"
  shows "unat (fs_min a b) = min (unat a) (unat b)"
  unfolding fs_min_def sint_small [OF assms(1)] sint_small [OF assms(2)] of_nat_less_iff by auto

lemma sint_nonneg:
  assumes "0 \<le> sint (len :: u32)"
  shows "unat len < 2 ^ 31"
proof -
  have "\<not> bit len 31" using assms bit_last_iff [of len] by simp
  then have "take_bit 31 len = len"
    by (intro bit_word_eqI) (auto simp: bit_simps less_Suc_eq numeral_eq_Suc)
  then have "unat len = take_bit 31 (unat len)" by (metis unsigned_take_bit_eq)
  then show ?thesis by (metis take_bit_nat_less_exp)
qed

lemma fd_atD: "fd_at n s = Some fd \<Longrightarrow> unat n < MAX_FILE_DESCRIPTORS \<and> fd = file_descriptor_table s (unat n)"
  by (auto simp: fd_at_def split: if_splits)

lemma fd_pos_add: "fd_pos_update (\<lambda>p. p + x) fd = fd\<lparr>fd_pos := fd_pos fd + x\<rparr>"
  by (cases fd) simp

lemma block_part:
  assumes "fs_ok s"
  shows "unat (fs_block_size (filesystem s) - p mod fs_block_size (filesystem s)) = bsz s - unat p mod bsz s"
    "unat p mod bsz s < bsz s" "bsz s - unat p mod bsz s \<le> 2 ^ 29"
proof -
  have b: "0 < bsz s" "bsz s \<le> 2 ^ 29" using assms by (auto simp: fs_ok_def)
  then show lt: "unat p mod bsz s < bsz s" by simp
  then have "p mod fs_block_size (filesystem s) \<le> fs_block_size (filesystem s)" by (simp add: word_le_nat_alt unat_mod)
  then show "unat (fs_block_size (filesystem s) - p mod fs_block_size (filesystem s)) = bsz s - unat p mod bsz s"
    by (simp add: unat_sub unat_mod)
  show "bsz s - unat p mod bsz s \<le> 2 ^ 29" using b by simp
qed

lemma copy_len:
  fixes p :: u32
  assumes "fs_ok s" and "unat len < 2 ^ 31"
  defines "off \<equiv> unat p mod bsz s"
  defines "c \<equiv> min (unat len) (bsz s - off)"
  shows "fs_min len (fs_block_size (filesystem s) - p mod fs_block_size (filesystem s)) = of_nat c"
    "scast (of_nat c :: u32) = (of_nat c :: u64)" "ucast (p mod fs_block_size (filesystem s)) = (of_nat off :: u64)"
    "off + c \<le> bsz s" "unat (of_nat c :: u64) = c"
proof -
  let ?w = "fs_min len (fs_block_size (filesystem s) - p mod fs_block_size (filesystem s))"
  note bp = block_part [OF assms(1), of p, folded off_def]
  have c: "c < 2 ^ 31" "unat ?w = c" using fs_min_nat [OF assms(2)] bp by (auto simp: c_def)
  show "?w = of_nat c" using c(2) by (metis of_nat_unat ucast_id)
  show "scast (of_nat c :: u32) = (of_nat c :: u64)" using scast_small [of "of_nat c"] c(1) by (simp add: unat_of_nat)
  show "ucast (p mod fs_block_size (filesystem s)) = (of_nat off :: u64)" by (metis of_nat_unat unat_mod off_def)
  show "off + c \<le> bsz s" using bp(2) by (simp add: c_def)
  show "unat (of_nat c :: u64) = c" using c(1) by (simp add: unat_of_nat)
qed

lemma read_step_spec:
  assumes ok: "fs_ok s" and fd: "fd_at n s = Some fd" and k: "unat (block_number fd s) < nblocks s" and len: "unat len < 2 ^ 31"
  defines "off \<equiv> unat (fd_pos fd) mod bsz s"
  defines "c \<equiv> min (unat len) (bsz s - off)"
  assumes buf: "unat buffer + c \<le> 2 ^ 64" "\<And>y. span buffer c y \<Longrightarrow> owned (fs_mem s) y"
  shows "\<exists>s'. read_step n buffer len fd s = Some (of_nat c, s') \<and> stays s s' \<and>
     file_descriptor_table s' = (file_descriptor_table s)(unat n := fd\<lparr>fd_pos := fd_pos fd + of_nat c\<rparr>) \<and>
     (\<forall>y. owned (fs_mem s) y \<longrightarrow> fs_bytes s' y =
       (if span buffer c y then fs_bytes s (disk_addr s (unat (block_number fd s)) (off + unat (y - buffer))) else fs_bytes s y))"
proof -
  let ?b = "block_number fd s"
  note c = copy_len [OF ok len, of "fd_pos fd", folded off_def, folded c_def]
  obtain q a where rb: "read_block ?b s = Some (q, s\<lparr>filesystem := (filesystem s)\<lparr>seek_cursor := disk_addr s (unat ?b) 0\<rparr>, fs_mem := a\<rparr>)"
    and bor: "borrowed s (unat ?b) q a" using read_block_spec [OF ok k] .
  note q = borrowedD [OF bor]
  have qo: "unat (q + of_nat off) = unat q + off" using unat_add_lt [of q "bsz s + 1" off] q(4) c(4) by simp
  define m where "m = copied buffer (q + of_nat off) c (heap a)"
  have mc: "memcpy buffer (q + of_nat off) (of_nat c) (heap a) = m"
  proof -
    have "\<not> span (q + of_nat off) c y" if "span buffer c y" for y
      using q(3) [of y] buf(2) [OF that] qo c(4) unfolding span_def by linarith
    from disjoint_spans [OF this] show ?thesis unfolding m_def using qo q(4) c(4,5) buf(1) by (subst memcpy_copied) auto
  qed
  have "m y = heap a y" if "\<not> owned (fs_mem s) y" for y using buf(2) that by (auto simp: m_def copied_def)
  then obtain a' where a': "kfree q (a\<lparr>heap := m\<rparr>) = Some a'" "\<And>y. owned (fs_mem s) y \<Longrightarrow> heap a' y = m y"
    "\<And>c t. stays s (s\<lparr>filesystem := (filesystem s)\<lparr>seek_cursor := c\<rparr>, file_descriptor_table := t, fs_mem := a'\<rparr>)"
    using borrowed_kfree [OF bor, of m] by blast
  have "m y = (if span buffer c y then fs_bytes s (disk_addr s (unat ?b) (off + unat (y - buffer))) else fs_bytes s y)"
    if "owned (fs_mem s) y" for y
  proof (cases "span buffer c y")
    case True
    then have "unat (y - buffer) < c" using unat_diff_span [OF True] by (auto simp: span_def)
    then have "heap a (q + of_nat (off + unat (y - buffer))) = fs_bytes s (disk_addr s (unat ?b) (off + unat (y - buffer)))"
      using c(4) by (intro q(1)) simp
    then show ?thesis using True by (simp add: m_def copied_def add.assoc)
  qed (use q(2) [OF that] in \<open>simp add: m_def copied_def\<close>)
  moreover have "read_step n buffer len fd s = Some (of_nat c, s\<lparr>filesystem := (filesystem s)\<lparr>seek_cursor := disk_addr s (unat ?b) 0\<rparr>,
      file_descriptor_table := (file_descriptor_table s)(unat n := fd\<lparr>fd_pos := fd_pos fd + of_nat c\<rparr>), fs_mem := a'\<rparr>)"
    using fd_atD [OF fd, THEN conjunct2, symmetric] a'(1)
    by (simp add: read_step_def Let_def rb c(1-3) upd_bytes_def mc fd_upd_def fs_kfree_def fd_pos_add)
  ultimately show ?thesis using a'(2,3) by (auto simp: fs_bytes_def)
qed

text \<open>Copying a block out, changing a part of it and copying it back.\<close>

lemma block_patch:
  assumes q: "unat q + n \<le> 2 ^ 64" and d: "unat d + n \<le> 2 ^ 64" and off: "off + c \<le> n" and y: "\<not> span q n y"
    and h: "\<And>i. i < n \<Longrightarrow> h (q + of_nat i) = h (d + of_nat i)"
  shows "copied d q n (copied (q + of_nat off) buffer c h) y =
    (if span (d + of_nat off) c y then h (buffer + (y - (d + of_nat off))) else h y)"
proof (cases "n = off")
  case True
  then have "c = 0" using off by simp
  then have "copied d q n (copied (q + of_nat off) buffer c h) y = (if span d n y then h (q + (y - d)) else h y)"
    by (auto simp: copied_def span_def)
  moreover have "h (q + (y - d)) = h y" if "span d n y"
    using h [of "unat (y - d)"] unat_diff_span [OF that] that by (simp add: span_def less_diff_conv2)
  ultimately show ?thesis using \<open>c = 0\<close> by (auto simp: span_def)
next
  case False
  then have o: "unat (q + of_nat off) = unat q + off" "unat (d + of_nat off) = unat d + off"
    using off unat_add_lt [OF q, of off] unat_add_lt [OF d, of off] by auto
  show ?thesis
  proof (cases "span d n y")
    case False
    then have "\<not> span (d + of_nat off) c y" using off o by (auto simp: span_def)
    moreover have "\<not> span (q + of_nat off) c y" using off o y by (auto simp: span_def)
    ultimately show ?thesis using False by (simp add: copied_def)
  next
    case True
    define i where "i = unat (y - d)"
    have i: "i < n" "y = d + of_nat i" using True unat_diff_span [OF True] by (auto simp: i_def span_def)
    have sp: "span (q + of_nat off) c (q + of_nat i) \<longleftrightarrow> off \<le> i \<and> i < off + c" "span (d + of_nat off) c y \<longleftrightarrow> off \<le> i \<and> i < off + c"
      using i unat_add_lt [OF q i(1)] unat_add_lt [OF d i(1)] o by (auto simp: span_def)
    have "q + of_nat i - (q + of_nat off) = y - (d + of_nat off)" by (simp add: i)
    then show ?thesis using True sp h [OF i(1)] i by (auto simp: copied_def)
  qed
qed

lemma write_step_spec:
  assumes ok: "fs_ok s" and fd: "fd_at n s = Some fd" and k: "unat (block_number fd s) < nblocks s"
    and len: "unat (end_pos - fd_pos fd) < 2 ^ 31"
  defines "off \<equiv> unat (fd_pos fd) mod bsz s"
  defines "c \<equiv> min (unat (end_pos - fd_pos fd)) (bsz s - off)"
  defines "d \<equiv> disk_addr s (unat (block_number fd s)) off"
  assumes buf: "unat buffer + c \<le> 2 ^ 64" "\<And>y. span buffer c y \<Longrightarrow> owned (fs_mem s) y"
  shows "\<exists>s'. write_step n buffer end_pos fd s = Some (of_nat c, s') \<and> stays s s' \<and>
     file_descriptor_table s' = (file_descriptor_table s)(unat n := fd\<lparr>fd_pos := fd_pos fd + of_nat c\<rparr>) \<and>
     (\<forall>y. owned (fs_mem s) y \<longrightarrow> fs_bytes s' y = (if span d c y then fs_bytes s (buffer + (y - d)) else fs_bytes s y))"
proof -
  let ?b = "block_number fd s"
  note c = copy_len [OF ok len, of "fd_pos fd", folded off_def, folded c_def]
  obtain q a where rb: "read_block ?b s = Some (q, s\<lparr>filesystem := (filesystem s)\<lparr>seek_cursor := disk_addr s (unat ?b) 0\<rparr>, fs_mem := a\<rparr>)"
    and bor: "borrowed s (unat ?b) q a" using read_block_spec [OF ok k] .
  note q = borrowedD [OF bor]
  define d0 where "d0 = disk_addr s (unat ?b) 0"
  have du: "unat d0 + bsz s \<le> unat (heap_begin (fs_mem s))" "disk_addr s (unat ?b) i = d0 + of_nat i" for i
    using disk_addr_unat(3) [OF ok k, of 0] by (simp_all add: d0_def disk_addr_def)
  have low: "unat d0 + bsz s \<le> 2 ^ 64" "unat q + bsz s \<le> 2 ^ 64" using du(1) q(4,5) by simp_all
  have qo: "unat (q + of_nat off) = unat q + off" using unat_add_lt [of q "bsz s + 1" off] q(4) c(4) by simp
  define m1 where "m1 = copied (q + of_nat off) buffer c (heap a)"
  define m where "m = copied d0 q (bsz s) m1"
  have m1: "memcpy (q + of_nat off) buffer (of_nat c) (heap a) = m1"
  proof -
    have "\<not> span buffer c y" if "span (q + of_nat off) c y" for y
      using q(3) [of y] buf(2) [of y] that qo c(4) unfolding span_def by linarith
    then have "unat (q + of_nat off) \<le> unat buffer \<or> unat buffer + c \<le> unat (q + of_nat off)" by (rule disjoint_spans)
    then show ?thesis unfolding m1_def using qo q(4) c(4,5) buf(1) by (subst memcpy_copied) auto
  qed
  have m2: "memcpy d0 q (ucast (fs_block_size (filesystem s))) m1 = m"
  proof -
    have "unat (ucast (fs_block_size (filesystem s)) :: u64) = bsz s" using ok by (simp add: fs_ok_def unsigned_ucast_eq take_bit_eq_mod)
    then show ?thesis unfolding m_def using du(1) q(4,5) by (subst memcpy_copied) simp_all
  qed
  have dow: "owned (fs_mem s) y" if "span d0 (bsz s) y" for y using that du(1) by (simp add: span_def owned_def off_heap_def)
  have "m y = heap a y" if "\<not> span q (bsz s + 1) y" "\<not> owned (fs_mem s) y" for y
    using that dow [of y] c(4) qo by (auto simp: m_def m1_def copied_def span_def)
  then obtain a' where a': "kfree q (a\<lparr>heap := m\<rparr>) = Some a'" "\<And>y. owned (fs_mem s) y \<Longrightarrow> heap a' y = m y"
    "\<And>c t. stays s (s\<lparr>filesystem := (filesystem s)\<lparr>seek_cursor := c\<rparr>, file_descriptor_table := t, fs_mem := a'\<rparr>)"
    using borrowed_kfree [OF bor, of m] by blast
  have "m y = (if span d c y then fs_bytes s (buffer + (y - d)) else fs_bytes s y)" if y: "owned (fs_mem s) y" for y
  proof -
    have "heap a (q + of_nat i) = heap a (d0 + of_nat i)" if "i < bsz s" for i
      using q(1) [OF that] q(2) [of "d0 + of_nat i"] disk_owned(2) [OF ok k that] by (simp add: du(2))
    moreover have "\<not> span q (bsz s) y" using q(3) [of y] y by (auto simp: span_def)
    ultimately have "m y = (if span d c y then heap a (buffer + (y - d)) else heap a y)"
      using block_patch [OF low(2,1) c(4), of y "heap a" buffer] by (simp add: m_def m1_def d_def du(2))
    moreover have "owned (fs_mem s) (buffer + (y - d))" if "span d c y"
      using that unat_diff_span [OF that] unat_add_lt [OF buf(1), of "unat (y - d)"] by (intro buf(2)) (auto simp: span_def)
    ultimately show ?thesis using q(2) y by simp
  qed
  moreover have "write_step n buffer end_pos fd s = Some (of_nat c, s\<lparr>filesystem := (filesystem s)\<lparr>seek_cursor := d0\<rparr>,
      file_descriptor_table := (file_descriptor_table s)(unat n := fd\<lparr>fd_pos := fd_pos fd + of_nat c\<rparr>), fs_mem := a'\<rparr>)"
  proof -
    have "write_block ?b q (s\<lparr>filesystem := (filesystem s)\<lparr>seek_cursor := d0\<rparr>, fs_mem := a\<lparr>heap := m1\<rparr>\<rparr>) =
       Some (s\<lparr>filesystem := (filesystem s)\<lparr>seek_cursor := d0\<rparr>, fs_mem := a\<lparr>heap := m\<rparr>\<rparr>)"
      using block_addr [OF ok k] k
      by (simp add: write_block_def seek_block_def assert_bind word_less_nat_alt d0_def upd_bytes_def m2 [unfolded d0_def])
    then show ?thesis
      using fd_atD [OF fd, THEN conjunct2, symmetric] a'(1)
      by (simp add: write_step_def Let_def rb c(1-3) upd_bytes_def m1 fd_upd_def fs_kfree_def fd_pos_add flip: d0_def)
  qed
  ultimately show ?thesis using a'(2,3) by (auto simp: fs_bytes_def)
qed

end
