(* ===== verification/Fs_Files.thy ===== *)
theory Fs_Files
  imports Fs_Blocks
begin

text \<open>
  Files as sequences of bytes: \<open>file_addr\<close> follows the table of blocks of an inode, \<open>contents\<close> is the list
  of bytes of a file, and \<open>file_ok\<close> says that its blocks are distinct blocks of the disk. The loops of
  \<open>read\<close> and \<open>write\<close> are shown to end and to copy the bytes they should.
\<close>

section \<open>Files\<close>

definition file_block :: "fs_state \<Rightarrow> inode_t \<Rightarrow> nat \<Rightarrow> nat" where
  "file_block s ino j = unat (switch_endianness (load32 (fs_bytes s) (i_blocks ino + 4 * of_nat j)))"

definition file_addr :: "fs_state \<Rightarrow> inode_t \<Rightarrow> nat \<Rightarrow> u64" where
  "file_addr s ino i = disk_addr s (file_block s ino (i div bsz s)) (i mod bsz s)"

definition contents :: "fs_state \<Rightarrow> inode_t \<Rightarrow> u8 list" where
  "contents s ino = map (\<lambda>i. fs_bytes s (file_addr s ino i)) [0..<unat (i_size ino)]"

text \<open>
  An inode read from block \<open>k\<close> of the disk: its size is within the limit, and the blocks of its data are
  blocks of the disk, different from each other and from \<open>k\<close>.
\<close>

definition file_ok :: "fs_state \<Rightarrow> inode_t \<Rightarrow> bool" where
  "file_ok s ino \<longleftrightarrow> (\<exists>k<nblocks s. i_blocks ino = disk_addr s k 12 \<and>
     unat (i_size ino) \<le> bsz s * ((bsz s - 12) div 4) \<and>
     (\<forall>j. j * bsz s < unat (i_size ino) \<longrightarrow> file_block s ino j < nblocks s \<and> file_block s ino j \<noteq> k) \<and>
     inj_on (file_block s ino) {j. j * bsz s < unat (i_size ino)})"

lemma div_mult_less: "i < n \<Longrightarrow> i div b * b < (n :: nat)"
  by (meson div_times_less_eq_dividend le_less_trans)

lemma file_okD:
  assumes "file_ok s ino" and "i < unat (i_size ino)"
  shows "file_block s ino (i div bsz s) < nblocks s"
  using assms(1) div_mult_less [OF assms(2), of "bsz s"] by (auto simp: file_ok_def)

lemma disk_addr_inj:
  assumes "fs_ok s" and "k < nblocks s" "k' < nblocks s" and "i < bsz s" "i' < bsz s" and "disk_addr s k i = disk_addr s k' i'"
  shows "k = k'" "i = i'"
proof -
  have e: "k * bsz s + i = k' * bsz s + i'"
    using disk_addr_unat(1) [OF assms(1,2), of i] disk_addr_unat(1) [OF assms(1,3), of i'] assms(4-6) by simp
  then have "(k * bsz s + i) div bsz s = (k' * bsz s + i') div bsz s" by simp
  then show "k = k'" using assms(4,5) by simp
  then show "i = i'" using e by simp
qed

lemma file_addr_inj:
  assumes "fs_ok s" and "file_ok s ino" and "i < unat (i_size ino)" "i' < unat (i_size ino)" and "file_addr s ino i = file_addr s ino i'"
  shows "i = i'"
proof -
  have b: "0 < bsz s" using assms(1) by (simp add: fs_ok_def)
  have e: "file_block s ino (i div bsz s) = file_block s ino (i' div bsz s)" "i mod bsz s = i' mod bsz s"
    using disk_addr_inj [OF assms(1) file_okD [OF assms(2,3)] file_okD [OF assms(2,4)], of "i mod bsz s" "i' mod bsz s"] assms(5) b
    by (simp_all add: file_addr_def)
  then have "i div bsz s = i' div bsz s"
    using assms(2) div_mult_less [OF assms(3)] div_mult_less [OF assms(4)] by (auto simp: file_ok_def dest: inj_onD)
  then show ?thesis using e(2) by (metis div_mult_mod_eq)
qed

lemma file_addr_range:
  assumes "fs_ok s" and "p mod bsz s + c \<le> bsz s" and "j < c"
  shows "file_addr s ino (p + j) = disk_addr s (file_block s ino (p div bsz s)) (p mod bsz s) + of_nat j"
proof -
  have "p + j = p div bsz s * bsz s + (p mod bsz s + j)" by simp
  then have "(p + j) div bsz s = p div bsz s" "(p + j) mod bsz s = p mod bsz s + j"
    using assms(2,3) by (simp_all only: div_mult_self3 mod_mult_self3) simp_all
  then show ?thesis by (simp add: file_addr_def disk_addr_def)
qed

lemma block_number_file:
  "unat (block_number fd s) = file_block s (fd_inode fd) (unat (fd_pos fd) div bsz s)"
proof -
  have "ucast (fd_pos fd div fs_block_size (filesystem s)) = (of_nat (unat (fd_pos fd) div bsz s) :: u64)"
    by (metis of_nat_unat unat_div)
  then show ?thesis by (simp add: block_number_def file_block_def)
qed

definition on_disk :: "fs_state \<Rightarrow> u64 \<Rightarrow> bool" where
  "on_disk s = span (fs_start (filesystem s)) (nblocks s * bsz s)"

lemma on_disk_block:
  assumes "fs_ok s" and "k < nblocks s" and "i < bsz s"
  shows "on_disk s (disk_addr s k i)"
  using disk_addr_unat(1,2) [OF assms(1,2), of i] assms(3) by (simp add: on_disk_def span_def)

lemma file_addr_disk:
  assumes "fs_ok s" and "file_ok s ino" and "i < unat (i_size ino)"
  shows "owned (fs_mem s) (file_addr s ino i)" "on_disk s (file_addr s ino i)"
proof -
  have "i mod bsz s < bsz s" using assms(1) by (simp add: fs_ok_def)
  then show "owned (fs_mem s) (file_addr s ino i)" "on_disk s (file_addr s ino i)"
    using disk_owned(2) [OF assms(1) file_okD [OF assms(2,3)]] on_disk_block [OF assms(1) file_okD [OF assms(2,3)]]
    by (simp_all add: file_addr_def)
qed

text \<open>The table of blocks of a file is not among its data, so writing the data leaves it alone.\<close>

lemma file_table_kept:
  assumes ok: "fs_ok s" and f: "file_ok s ino" and st: "same_disk s s'"
    and eq: "\<And>y. owned (fs_mem s) y \<Longrightarrow> on_disk s y \<Longrightarrow> (\<And>i. i < unat (i_size ino) \<Longrightarrow> y \<noteq> file_addr s ino i) \<Longrightarrow> fs_bytes s' y = fs_bytes s y"
  shows "file_ok s' ino" "i div bsz s * bsz s < unat (i_size ino) \<Longrightarrow> file_addr s' ino i = file_addr s ino i"
proof -
  obtain k where k: "k < nblocks s" "i_blocks ino = disk_addr s k 12" "unat (i_size ino) \<le> bsz s * ((bsz s - 12) div 4)"
    "\<And>j. j * bsz s < unat (i_size ino) \<Longrightarrow> file_block s ino j < nblocks s \<and> file_block s ino j \<noteq> k"
    "inj_on (file_block s ino) {j. j * bsz s < unat (i_size ino)}"
    using f unfolding file_ok_def by blast
  have b: "16 \<le> bsz s" "bsz s \<le> 2 ^ 16" using ok by (simp_all add: fs_ok_def)
  have fb: "file_block s' ino j = file_block s ino j" if j: "j * bsz s < unat (i_size ino)" for j
  proof -
    have "j * bsz s < (bsz s - 12) div 4 * bsz s" using less_le_trans [OF j k(3)] by (subst (2) mult.commute)
    then have "j < (bsz s - 12) div 4" by simp
    then have j4: "12 + 4 * j + 4 \<le> bsz s" by linarith
    have a: "i_blocks ino + 4 * of_nat j = disk_addr s k (12 + 4 * j)" by (simp add: k(2) disk_addr_def)
    note u = disk_addr_unat(1) [OF ok k(1), of "12 + 4 * j"]
    have "load 4 (fs_bytes s') (disk_addr s k (12 + 4 * j)) = load 4 (fs_bytes s) (disk_addr s k (12 + 4 * j))"
    proof (rule load_cong)
      show top: "unat (disk_addr s k (12 + 4 * j)) + 4 \<le> 2 ^ 64"
        using disk_addr_unat(3) [OF ok k(1), of "12 + 4 * j"] j4 heap_ok_begin [of "fs_mem s"] ok by (auto simp: fs_ok_def)
      fix y assume y: "span (disk_addr s k (12 + 4 * j)) 4 y"
      then obtain o' where o': "y = disk_addr s k (12 + 4 * j) + of_nat o'" "o' < 4" using span_ex [OF top, of y] by blast
      have y': "y = disk_addr s k (12 + 4 * j + o')" using o' by (simp add: disk_addr_def)
      have lt: "12 + 4 * j + o' < bsz s" using o' j4 by simp
      show "fs_bytes s' y = fs_bytes s y"
      proof (rule eq)
        show "owned (fs_mem s) y" "on_disk s y" using disk_owned(2) [OF ok k(1) lt] on_disk_block [OF ok k(1) lt] y' by simp_all
        fix i assume i: "i < unat (i_size ino)"
        have "file_block s ino (i div bsz s) \<noteq> k" using k(4) div_mult_less [OF i] by blast
        then show "y \<noteq> file_addr s ino i" using disk_addr_inj(1) [OF ok k(1) file_okD [OF f i] lt, of "i mod bsz s"] b
          by (auto simp: y' file_addr_def)
      qed
    qed
    then show ?thesis by (simp add: file_block_def load32_def a)
  qed
  note S = same_diskD [OF st]
  have "inj_on (file_block s' ino) {j. j * bsz s < unat (i_size ino)}" using k(5) by (rule inj_on_cong [THEN iffD1, rotated]) (simp add: fb)
  then show "file_ok s' ino" unfolding file_ok_def S using k(1-4) fb by (intro exI [of _ k]) auto
  show "file_addr s' ino i = file_addr s ino i" if "i div bsz s * bsz s < unat (i_size ino)"
    using fb [OF that] by (simp add: file_addr_def S)
qed

lemma file_size:
  assumes "fs_ok s" and "file_ok s ino"
  shows "unat (i_size ino) \<le> 2 ^ 30" "bsz s \<le> 2 ^ 16" "0 < bsz s"
proof -
  have "unat (i_size ino) \<le> bsz s * ((bsz s - 12) div 4)" using assms(2) by (auto simp: file_ok_def)
  also have "\<dots> \<le> 2 ^ 16 * 2 ^ 14" using assms(1) by (intro mult_mono) (auto simp: fs_ok_def)
  finally show "unat (i_size ino) \<le> 2 ^ 30" by simp
  show "bsz s \<le> 2 ^ 16" "0 < bsz s" using assms(1) by (auto simp: fs_ok_def)
qed

lemma write_round:
  assumes ok: "fs_ok s" and fd: "fd_at n s = Some fd" and f: "file_ok s (fd_inode fd)"
    and e: "unat (fd_pos fd) < unat end_pos" "unat end_pos \<le> unat (i_size (fd_inode fd))"
  defines "c \<equiv> min (unat end_pos - unat (fd_pos fd)) (bsz s - unat (fd_pos fd) mod bsz s)"
  assumes buf: "unat buffer + c \<le> 2 ^ 64" "\<And>y. span buffer c y \<Longrightarrow> owned (fs_mem s) y"
  obtains s1 where "write_step n buffer end_pos fd s = Some (of_nat c, s1)" "stays s s1"
    "file_descriptor_table s1 = (file_descriptor_table s)(unat n := fd\<lparr>fd_pos := fd_pos fd + of_nat c\<rparr>)"
    "file_ok s1 (fd_inode fd)" "\<And>i. i < unat (i_size (fd_inode fd)) \<Longrightarrow> file_addr s1 (fd_inode fd) i = file_addr s (fd_inode fd) i"
    "\<And>j. j < c \<Longrightarrow> fs_bytes s1 (file_addr s (fd_inode fd) (unat (fd_pos fd) + j)) = fs_bytes s (buffer + of_nat j)"
    "\<And>y. owned (fs_mem s) y \<Longrightarrow> (\<And>j. j < c \<Longrightarrow> y \<noteq> file_addr s (fd_inode fd) (unat (fd_pos fd) + j)) \<Longrightarrow> fs_bytes s1 y = fs_bytes s y"
proof -
  let ?ino = "fd_inode fd" and ?p = "unat (fd_pos fd)"
  note sz = file_size [OF ok f]
  have sub: "unat (end_pos - fd_pos fd) = unat end_pos - ?p" using e by (simp add: unat_sub word_le_nat_alt)
  have lt: "unat (end_pos - fd_pos fd) < 2 ^ 31" using sub sz e by simp
  have blk: "unat (block_number fd s) < nblocks s" using file_okD [OF f, of ?p] e by (simp add: block_number_file)
  define d where "d = disk_addr s (file_block s ?ino (?p div bsz s)) (?p mod bsz s)"
  obtain s1 where s1: "write_step n buffer end_pos fd s = Some (of_nat c, s1)" "stays s s1"
    "file_descriptor_table s1 = (file_descriptor_table s)(unat n := fd\<lparr>fd_pos := fd_pos fd + of_nat c\<rparr>)"
    "\<And>y. owned (fs_mem s) y \<Longrightarrow> fs_bytes s1 y = (if span d c y then fs_bytes s (buffer + (y - d)) else fs_bytes s y)"
    using write_step_spec [OF ok fd blk lt, unfolded sub block_number_file, folded c_def d_def, OF buf] by blast
  have fit: "?p mod bsz s + c \<le> bsz s" using sz(3) by (auto simp: c_def min_def le_diff_conv2)
  note fa = file_addr_range [OF ok fit, of _ ?ino, folded d_def]
  have pos: "?p + j < unat (i_size ?ino)" if "j < c" for j
    using that e min.cobounded1 [of "unat end_pos - ?p" "bsz s - ?p mod bsz s", folded c_def] by linarith
  have top: "unat d + c \<le> 2 ^ 64"
    using disk_addr_unat(3) [OF ok blk [unfolded block_number_file], of "?p mod bsz s", folded d_def] fit heap_ok_begin [of "fs_mem s"] ok
    by (auto simp: fs_ok_def)
  have data: "fs_bytes s1 (file_addr s ?ino (?p + j)) = fs_bytes s (buffer + of_nat j)" if "j < c" for j
    using s1(4) [OF file_addr_disk(1) [OF ok f pos [OF that]]] span_nth [OF top that] by (simp add: fa [OF that])
  have rest: "fs_bytes s1 y = fs_bytes s y"
    if y: "owned (fs_mem s) y" "\<And>j. j < c \<Longrightarrow> y \<noteq> file_addr s ?ino (?p + j)" for y
  proof -
    have "\<not> span d c y" using y(2) span_ex [OF top, of y] fa by auto
    then show ?thesis using s1(4) [OF y(1)] by simp
  qed
  have "fs_bytes s1 y = fs_bytes s y" if "owned (fs_mem s) y" "\<And>i. i < unat (i_size ?ino) \<Longrightarrow> y \<noteq> file_addr s ?ino i" for y
    using that pos by (intro rest) auto
  note kept = file_table_kept [OF ok f stays_same_disk [OF s1(2)] this]
  show thesis by (rule that [OF s1(1-3)]) (use kept data rest div_mult_less in blast)+
qed

section \<open>Writing a file\<close>

text \<open>\<open>wrote s s' ino p k buffer\<close>: bytes \<open>p\<close> to \<open>p + k\<close> of the file were replaced by those of the buffer, and no other owned byte changed.\<close>

definition wrote :: "fs_state \<Rightarrow> fs_state \<Rightarrow> inode_t \<Rightarrow> nat \<Rightarrow> nat \<Rightarrow> u64 \<Rightarrow> bool" where
  "wrote s s' ino p k buffer \<longleftrightarrow> (\<forall>j<k. fs_bytes s' (file_addr s ino (p + j)) = fs_bytes s (buffer + of_nat j)) \<and>
     (\<forall>y. owned (fs_mem s) y \<longrightarrow> (\<forall>j<k. y \<noteq> file_addr s ino (p + j)) \<longrightarrow> fs_bytes s' y = fs_bytes s y)"

lemma wroteD:
  assumes "wrote s s' ino p k buffer"
  shows "j < k \<Longrightarrow> fs_bytes s' (file_addr s ino (p + j)) = fs_bytes s (buffer + of_nat j)"
    "owned (fs_mem s) y \<Longrightarrow> (\<And>j. j < k \<Longrightarrow> y \<noteq> file_addr s ino (p + j)) \<Longrightarrow> fs_bytes s' y = fs_bytes s y"
  using assms by (auto simp: wrote_def)

lemma wrote_append:
  assumes ok: "fs_ok s" and f: "file_ok s ino" and sz: "p + (c + r) \<le> unat (i_size ino)"
    and st: "stays s s1" "\<And>i. i < unat (i_size ino) \<Longrightarrow> file_addr s1 ino i = file_addr s ino i"
    and buf: "unat buffer + (c + r) \<le> 2 ^ 64" "\<And>y. span buffer (c + r) y \<Longrightarrow> owned (fs_mem s) y \<and> \<not> on_disk s y"
    and w1: "wrote s s1 ino p c buffer" and w2: "wrote s1 s2 ino (p + c) r (buffer + of_nat c)"
  shows "wrote s s2 ino p (c + r) buffer"
  unfolding wrote_def
proof (intro conjI allI impI)
  have sub: "fs_bytes s1 (buffer + of_nat j) = fs_bytes s (buffer + of_nat j)" if j: "j < c + r" for j
  proof (rule wroteD(2) [OF w1])
    have b: "owned (fs_mem s) (buffer + of_nat j) \<and> \<not> on_disk s (buffer + of_nat j)"
      using buf(2) [OF span_nth [OF buf(1) j]] .
    then show "owned (fs_mem s) (buffer + of_nat j)" by simp
    show "buffer + of_nat j \<noteq> file_addr s ino (p + i)" if "i < c" for i
      using file_addr_disk(2) [OF ok f, of "p + i"] that sz b by auto
  qed
  have eq: "file_addr s1 ino (p + j) = file_addr s ino (p + j)" if "j < c + r" for j using st(2) that sz by simp
  show "fs_bytes s2 (file_addr s ino (p + j)) = fs_bytes s (buffer + of_nat j)" if j: "j < c + r" for j
  proof (cases "j < c")
    case True
    have "fs_bytes s2 (file_addr s ino (p + j)) = fs_bytes s1 (file_addr s ino (p + j))"
    proof (rule wroteD(2) [OF w2])
      show "owned (fs_mem s1) (file_addr s ino (p + j))" using file_addr_disk(1) [OF ok f, of "p + j"] staysD(5) [OF st(1)] sz j by simp
      show "file_addr s ino (p + j) \<noteq> file_addr s1 ino (p + c + i)" if "i < r" for i
        using file_addr_inj [OF ok f, of "p + j" "p + (c + i)"] eq [of "c + i"] that True sz by (auto simp: add.assoc)
    qed
    then show ?thesis using wroteD(1) [OF w1 True] by simp
  next
    case False
    then obtain i where i: "j = c + i" "i < r" using j by (metis add_less_cancel_left le_add_diff_inverse not_less)
    have "fs_bytes s2 (file_addr s1 ino (p + c + i)) = fs_bytes s1 (buffer + of_nat c + of_nat i)" by (rule wroteD(1) [OF w2 i(2)])
    then show ?thesis using sub [OF j] eq [OF j] by (simp add: i add.assoc)
  qed
  fix y assume y: "owned (fs_mem s) y" "\<forall>j<c + r. y \<noteq> file_addr s ino (p + j)"
  have "fs_bytes s2 y = fs_bytes s1 y"
  proof (rule wroteD(2) [OF w2])
    show "owned (fs_mem s1) y" using y(1) staysD(5) [OF st(1)] by simp
    show "y \<noteq> file_addr s1 ino (p + c + i)" if "i < r" for i using y(2) eq [of "c + i"] that by (auto simp: add.assoc)
  qed
  also have "\<dots> = fs_bytes s y" by (rule wroteD(2) [OF w1 y(1)]) (use y(2) in auto)
  finally show "fs_bytes s2 y = fs_bytes s y" .
qed

lemma on_disk_stays: "stays s s' \<Longrightarrow> on_disk s' = on_disk s"
  by (simp add: on_disk_def staysD)

lemma fd_at_upd: "fd_at n s = Some fd \<Longrightarrow> file_descriptor_table s' = (file_descriptor_table s)(unat n := fd') \<Longrightarrow> fd_at n s' = Some fd'"
  by (auto simp: fd_at_def split: if_splits)

lemma write_loop_spec:
  assumes "fs_ok s" and "fd_at n s = Some fd" and "file_ok s (fd_inode fd)"
    and "unat (fd_pos fd) + r = unat end_pos" "unat end_pos \<le> unat (i_size (fd_inode fd))"
    and "unat buffer + r \<le> 2 ^ 64" "\<And>y. span buffer r y \<Longrightarrow> owned (fs_mem s) y \<and> \<not> on_disk s y"
  shows "\<exists>s'. write_loop n end_pos buffer s = Some s' \<and> stays s s' \<and> file_ok s' (fd_inode fd) \<and>
     (\<forall>i<unat (i_size (fd_inode fd)). file_addr s' (fd_inode fd) i = file_addr s (fd_inode fd) i) \<and>
     file_descriptor_table s' = (file_descriptor_table s)(unat n := fd\<lparr>fd_pos := end_pos\<rparr>) \<and>
     wrote s s' (fd_inode fd) (unat (fd_pos fd)) r buffer"
  using assms
proof (induction r arbitrary: s fd buffer rule: less_induct)
  case (less r)
  note ok = less.prems(1) and fd = less.prems(2) and f = less.prems(3)
  show ?case
  proof (cases "r = 0")
    case True
    then have "fd_pos fd = end_pos" using less.prems(4) by (simp add: word_unat_eq_iff)
    then show ?thesis using fd fd_atD [OF fd] stays_refl [OF ok] f True
      by (auto simp: write_loop.simps [of n end_pos buffer s] wrote_def)
  next
    case False
    define c where "c = min r (bsz s - unat (fd_pos fd) mod bsz s)"
    note sz = file_size [OF ok f]
    have c: "0 < c" "c \<le> r" "unat (fd_pos fd) + c < 2 ^ 32" using False sz less.prems(4,5) by (auto simp: c_def)
    have r: "unat end_pos - unat (fd_pos fd) = r" using less.prems(4) by simp
    have p': "unat (fd_pos fd + of_nat c) = unat (fd_pos fd) + c" using c(3) by (simp add: unat_word_ariths unat_of_nat)
    obtain s1 where s1: "write_step n buffer end_pos fd s = Some (of_nat c, s1)" "stays s s1"
      "file_descriptor_table s1 = (file_descriptor_table s)(unat n := fd\<lparr>fd_pos := fd_pos fd + of_nat c\<rparr>)"
      "file_ok s1 (fd_inode fd)" "\<And>i. i < unat (i_size (fd_inode fd)) \<Longrightarrow> file_addr s1 (fd_inode fd) i = file_addr s (fd_inode fd) i"
      "wrote s s1 (fd_inode fd) (unat (fd_pos fd)) c buffer"
    proof (rule write_round [OF ok fd f, of end_pos buffer, unfolded r, folded c_def])
      show "owned (fs_mem s) y" if "span buffer c y" for y using less.prems(7) [of y] that c(2) by (simp add: span_def)
    qed (use less.prems c False in \<open>auto simp: wrote_def\<close>)
    note S = staysD [OF s1(2)]
    define fd1 where "fd1 = fd\<lparr>fd_pos := fd_pos fd + of_nat c\<rparr>"
    have fd1: "fd_at n s1 = Some fd1" using fd_at_upd [OF fd s1(3)] by (simp add: fd1_def)
    have cc: "scast (of_nat c :: u32) = (of_nat c :: u64)" using scast_small [of "of_nat c"] c(2) less.prems(4,5) sz by (simp add: unat_of_nat)
    have bc: "unat (buffer + of_nat c) = unat buffer + c \<or> r = c"
      using unat_add_lt [OF less.prems(6), of c] c(2) by auto
    have ub: "unat (buffer + of_nat c) < 2 ^ 64" using unsigned_less [of "buffer + of_nat c"] by simp
    obtain s' where s': "write_loop n end_pos (buffer + of_nat c) s1 = Some s'" "stays s1 s'" "file_ok s' (fd_inode fd1)"
       "\<And>i. i<unat (i_size (fd_inode fd1)) \<Longrightarrow> file_addr s' (fd_inode fd1) i = file_addr s1 (fd_inode fd1) i"
       "file_descriptor_table s' = (file_descriptor_table s1)(unat n := fd1\<lparr>fd_pos := end_pos\<rparr>)"
       "wrote s1 s' (fd_inode fd1) (unat (fd_pos fd1)) (r - c) (buffer + of_nat c)"
    proof -
      have "\<exists>s'. write_loop n end_pos (buffer + of_nat c) s1 = Some s' \<and> stays s1 s' \<and> file_ok s' (fd_inode fd1) \<and>
         (\<forall>i<unat (i_size (fd_inode fd1)). file_addr s' (fd_inode fd1) i = file_addr s1 (fd_inode fd1) i) \<and>
         file_descriptor_table s' = (file_descriptor_table s1)(unat n := fd1\<lparr>fd_pos := end_pos\<rparr>) \<and>
         wrote s1 s' (fd_inode fd1) (unat (fd_pos fd1)) (r - c) (buffer + of_nat c)"
      proof (rule less.IH [OF _ S(1) fd1])
        show "owned (fs_mem s1) y \<and> \<not> on_disk s1 y" if "span (buffer + of_nat c) (r - c) y" for y
          using less.prems(7) [of y] that bc S(5) on_disk_stays [OF s1(2)] c(2) by (auto simp: span_def)
        show "unat (buffer + of_nat c) + (r - c) \<le> 2 ^ 64" using bc less.prems(6) c(2) ub by auto
      qed (use c s1(4) less.prems(4,5) p' in \<open>auto simp: fd1_def\<close>)
      then show thesis using that by blast
    qed
    have "wrote s s' (fd_inode fd) (unat (fd_pos fd)) (c + (r - c)) buffer"
      using s'(6) p' c(2) less.prems(4-7) s1(5) by (intro wrote_append [OF ok f _ s1(2) _ _ _ s1(6)]) (auto simp: fd1_def)
    moreover have "write_loop n end_pos buffer s = Some s'"
      using fd s1(1) s'(1) False less.prems(4) by (subst write_loop.simps) (simp add: word_less_nat_alt cc)
    ultimately show ?thesis using s'(2-5) s1(2,3,5) c(2) stays_trans by (auto simp: fd1_def)
  qed
qed

lemma write_file_spec:
  assumes ok: "fs_ok s" and fd: "fd_at n s = Some fd" and f: "file_ok s (fd_inode fd)"
    and len: "unat (fd_pos fd) + unat len \<le> unat (i_size (fd_inode fd))"
    and buf: "unat buffer + unat len \<le> 2 ^ 64" "\<And>y. span buffer (unat len) y \<Longrightarrow> owned (fs_mem s) y \<and> \<not> on_disk s y"
  shows "\<exists>s'. write_file n buffer len s = Some (len, s') \<and> stays s s' \<and> file_ok s' (fd_inode fd) \<and>
     (\<forall>i<unat (i_size (fd_inode fd)). file_addr s' (fd_inode fd) i = file_addr s (fd_inode fd) i) \<and>
     file_descriptor_table s' = (file_descriptor_table s)(unat n := fd\<lparr>fd_pos := fd_pos fd + len\<rparr>) \<and>
     wrote s s' (fd_inode fd) (unat (fd_pos fd)) (unat len) buffer"
proof -
  note sz = file_size [OF ok f]
  have e: "unat (fd_pos fd + len) = unat (fd_pos fd) + unat len" using len sz by (simp add: unat_word_ariths)
  have "0 \<le> sint len" using sint_small [of len] len sz by simp
  moreover have "fd_pos fd + len \<le> i_size (fd_inode fd)" using e len by (simp add: word_le_nat_alt)
  moreover have "len \<le> i_size (fd_inode fd) - fd_pos fd" using len by (simp add: word_le_nat_alt unat_sub)
  moreover obtain s' where "write_loop n (fd_pos fd + len) buffer s = Some s'" "stays s s'" "file_ok s' (fd_inode fd)"
     "\<forall>i<unat (i_size (fd_inode fd)). file_addr s' (fd_inode fd) i = file_addr s (fd_inode fd) i"
     "file_descriptor_table s' = (file_descriptor_table s)(unat n := fd\<lparr>fd_pos := fd_pos fd + len\<rparr>)"
     "wrote s s' (fd_inode fd) (unat (fd_pos fd)) (unat len) buffer"
    using write_loop_spec [OF ok fd f e [symmetric] _ buf] e len by auto
  ultimately show ?thesis by (simp add: write_file_def extend_file_def fd assert_bind)
qed

lemma contents_wrote:
  assumes ok: "fs_ok s" and f: "file_ok s ino" and k: "p + k \<le> unat (i_size ino)"
    and a: "\<forall>i<unat (i_size ino). file_addr s' ino i = file_addr s ino i" and w: "wrote s s' ino p k buffer"
  shows "contents s' ino = take p (contents s ino) @ map (\<lambda>j. fs_bytes s (buffer + of_nat j)) [0..<k] @ drop (p + k) (contents s ino)"
proof (rule nth_equalityI)
  show "length (contents s' ino) = length (take p (contents s ino) @ map (\<lambda>j. fs_bytes s (buffer + of_nat j)) [0..<k] @ drop (p + k) (contents s ino))"
    using k by (simp add: contents_def)
  fix i assume "i < length (contents s' ino)"
  then have i: "i < unat (i_size ino)" by (simp add: contents_def)
  consider (mid) j where "i = p + j" "j < k" | (out) "\<And>j. j < k \<Longrightarrow> i \<noteq> p + j" by blast
  then have "fs_bytes s' (file_addr s ino i) =
     (if p \<le> i \<and> i < p + k then fs_bytes s (buffer + of_nat (i - p)) else fs_bytes s (file_addr s ino i))"
  proof cases
    case mid
    then show ?thesis using wroteD(1) [OF w mid(2)] by simp
  next
    case out
    have "fs_bytes s' (file_addr s ino i) = fs_bytes s (file_addr s ino i)"
    proof (rule wroteD(2) [OF w file_addr_disk(1) [OF ok f i]])
      show "file_addr s ino i \<noteq> file_addr s ino (p + j)" if "j < k" for j
        using file_addr_inj [OF ok f i, of "p + j"] out [OF that] that k by auto
    qed
    moreover have "\<not> (p \<le> i \<and> i < p + k)" using out [of "i - p"] by linarith
    ultimately show ?thesis by auto
  qed
  then show "contents s' ino ! i = (take p (contents s ino) @ map (\<lambda>j. fs_bytes s (buffer + of_nat j)) [0..<k] @ drop (p + k) (contents s ino)) ! i"
    using i k a by (auto simp: contents_def nth_append)
qed

section \<open>Reading a file\<close>

definition got :: "fs_state \<Rightarrow> fs_state \<Rightarrow> inode_t \<Rightarrow> nat \<Rightarrow> nat \<Rightarrow> u64 \<Rightarrow> bool" where
  "got s s' ino p k buffer \<longleftrightarrow> (\<forall>j<k. fs_bytes s' (buffer + of_nat j) = fs_bytes s (file_addr s ino (p + j))) \<and>
     (\<forall>y. owned (fs_mem s) y \<longrightarrow> \<not> span buffer k y \<longrightarrow> fs_bytes s' y = fs_bytes s y)"

lemma gotD:
  assumes "got s s' ino p k buffer"
  shows "j < k \<Longrightarrow> fs_bytes s' (buffer + of_nat j) = fs_bytes s (file_addr s ino (p + j))"
    "owned (fs_mem s) y \<Longrightarrow> \<not> span buffer k y \<Longrightarrow> fs_bytes s' y = fs_bytes s y"
  using assms by (auto simp: got_def)

lemma read_round:
  assumes ok: "fs_ok s" and fd: "fd_at n s = Some fd" and f: "file_ok s (fd_inode fd)"
    and p: "unat (fd_pos fd) < unat (i_size (fd_inode fd))" and len: "unat len < 2 ^ 31"
  defines "c \<equiv> min (unat len) (bsz s - unat (fd_pos fd) mod bsz s)"
  assumes buf: "unat buffer + c \<le> 2 ^ 64" "\<And>y. span buffer c y \<Longrightarrow> owned (fs_mem s) y \<and> \<not> on_disk s y"
  obtains s1 where "read_step n buffer len fd s = Some (of_nat c, s1)" "stays s s1"
    "file_descriptor_table s1 = (file_descriptor_table s)(unat n := fd\<lparr>fd_pos := fd_pos fd + of_nat c\<rparr>)"
    "got s s1 (fd_inode fd) (unat (fd_pos fd)) c buffer"
proof -
  let ?ino = "fd_inode fd" and ?p = "unat (fd_pos fd)"
  note sz = file_size [OF ok f]
  have blk: "unat (block_number fd s) < nblocks s" using file_okD [OF f p] by (simp add: block_number_file)
  have "\<And>y. span buffer c y \<Longrightarrow> owned (fs_mem s) y" using buf(2) by blast
  then obtain s1 where s1: "read_step n buffer len fd s = Some (of_nat c, s1)" "stays s s1"
    "file_descriptor_table s1 = (file_descriptor_table s)(unat n := fd\<lparr>fd_pos := fd_pos fd + of_nat c\<rparr>)"
    "\<And>y. owned (fs_mem s) y \<Longrightarrow> fs_bytes s1 y = (if span buffer c y
       then fs_bytes s (disk_addr s (file_block s ?ino (?p div bsz s)) (?p mod bsz s + unat (y - buffer))) else fs_bytes s y)"
    using read_step_spec [OF ok fd blk len, unfolded block_number_file, folded c_def, OF buf(1)] by blast
  have fit: "?p mod bsz s + c \<le> bsz s" using sz(3) by (auto simp: c_def min_def le_diff_conv2)
  have "fs_bytes s1 (buffer + of_nat j) = fs_bytes s (file_addr s ?ino (?p + j))" if j: "j < c" for j
  proof -
    note sp = span_nth [OF buf(1) j]
    have "unat (buffer + of_nat j - buffer) = j" using unat_diff_span [OF sp] unat_add_lt [OF buf(1) j] by simp
    then show ?thesis using s1(4) [of "buffer + of_nat j"] buf(2) [OF sp] sp file_addr_range [OF ok fit j, of ?ino]
      by (simp add: disk_addr_def add.assoc)
  qed
  then have "got s s1 ?ino ?p c buffer" using s1(4) by (simp add: got_def)
  then show thesis by (rule that [OF s1(1-3)])
qed

lemma got_file:
  assumes ok: "fs_ok s" and f: "file_ok s ino" and st: "stays s s1" and g: "got s s1 ino' p c buffer"
    and buf: "\<And>y. span buffer c y \<Longrightarrow> \<not> on_disk s y"
  shows "file_ok s1 ino" "i div bsz s * bsz s < unat (i_size ino) \<Longrightarrow> file_addr s1 ino i = file_addr s ino i"
    "k < nblocks s \<Longrightarrow> o' < bsz s \<Longrightarrow> fs_bytes s1 (disk_addr s k o') = fs_bytes s (disk_addr s k o')"
proof -
  have same: "fs_bytes s1 y = fs_bytes s y" if "owned (fs_mem s) y" "on_disk s y" for y using gotD(2) [OF g that(1)] buf that(2) by blast
  then show "k < nblocks s \<Longrightarrow> o' < bsz s \<Longrightarrow> fs_bytes s1 (disk_addr s k o') = fs_bytes s (disk_addr s k o')"
    using disk_owned(2) [OF ok] on_disk_block [OF ok] by blast
  show "file_ok s1 ino" "i div bsz s * bsz s < unat (i_size ino) \<Longrightarrow> file_addr s1 ino i = file_addr s ino i"
    by (rule file_table_kept [OF ok f stays_same_disk [OF st]]; use same in blast)+
qed

lemma got_append:
  assumes ok: "fs_ok s" and f: "file_ok s ino" and st: "stays s s1"
    and sz: "\<And>j. j < c + r \<Longrightarrow> (p + j) div bsz s * bsz s < unat (i_size ino)"
    and buf: "unat buffer + (c + r) \<le> 2 ^ 64" "\<And>y. span buffer (c + r) y \<Longrightarrow> owned (fs_mem s) y \<and> \<not> on_disk s y"
    and g1: "got s s1 ino p c buffer" and g2: "got s1 s2 ino (p + c) r (buffer + of_nat c)"
  shows "got s s2 ino p (c + r) buffer"
  unfolding got_def
proof (intro conjI allI impI)
  have nd: "\<not> on_disk s y" if "span buffer c y" for y using buf(2) [of y] that by (auto simp: span_def)
  have F2: "file_addr s1 ino i = file_addr s ino i" if "i div bsz s * bsz s < unat (i_size ino)" for i
    by (rule got_file(2) [OF ok f st g1 _ that]) (rule nd)
  have F3: "fs_bytes s1 (disk_addr s k o') = fs_bytes s (disk_addr s k o')" if "k < nblocks s" "o' < bsz s" for k o'
    by (rule got_file(3) [OF ok f st g1 _ that]) (rule nd)
  have sp: "span (buffer + of_nat c) r y \<longleftrightarrow> span buffer (c + r) y \<and> \<not> span buffer c y" if "r \<noteq> 0" for y
    using unat_add_lt [OF buf(1), of c] that by (auto simp: span_def)
  show "fs_bytes s2 (buffer + of_nat j) = fs_bytes s (file_addr s ino (p + j))" if j: "j < c + r" for j
  proof (cases "j < c")
    case True
    have b: "span buffer c (buffer + of_nat j)" by (rule span_nth) (use buf(1) True in auto)
    then have "owned (fs_mem s) (buffer + of_nat j)" using buf(2) by (auto simp: span_def)
    then have "fs_bytes s2 (buffer + of_nat j) = fs_bytes s1 (buffer + of_nat j)"
      using sp [of "buffer + of_nat j"] b staysD(5) [OF st] by (intro gotD(2) [OF g2]) (auto simp: span_def)
    then show ?thesis using gotD(1) [OF g1 True] by simp
  next
    case False
    then obtain i where i: "j = c + i" "i < r" using j by (metis add_less_cancel_left le_add_diff_inverse not_less)
    have b: "0 < bsz s" using ok by (simp add: fs_ok_def)
    have "file_block s ino ((p + j) div bsz s) < nblocks s" using f sz [OF j] by (auto simp: file_ok_def)
    then have "fs_bytes s1 (file_addr s ino (p + j)) = fs_bytes s (file_addr s ino (p + j))"
      using F3 b by (simp add: file_addr_def)
    then show ?thesis using gotD(1) [OF g2 i(2)] F2 [OF sz [OF j]] by (simp add: i add.assoc)
  qed
  fix y assume y: "owned (fs_mem s) y" "\<not> span buffer (c + r) y"
  then have "fs_bytes s2 y = fs_bytes s1 y"
    using sp [of y] staysD(5) [OF st] by (intro gotD(2) [OF g2]) (auto simp: span_def)
  then show "fs_bytes s2 y = fs_bytes s y" using gotD(2) [OF g1 y(1)] y(2) by (auto simp: span_def)
qed

lemma whole_rounds:
  assumes "0 < (r :: nat)" and "0 < b" and "r \<le> len" and "b dvd p + r \<or> r = 0 \<or> (r = len \<and> p mod b + r \<le> b)"
  defines "c \<equiv> min len (b - p mod b)"
  shows "c = min r (b - p mod b)" "0 < c" "b dvd p + r \<or> r - c = 0"
proof -
  have b: "p mod b < b" using assms(2) by simp
  have "b - p mod b \<le> r" if "b dvd p + r"
  proof -
    have "b dvd p mod b + r" using that by (metis dvd_eq_mod_eq_0 mod_add_left_eq)
    then have "b \<le> p mod b + r" using assms(1) by (intro dvd_imp_le) auto
    then show ?thesis by simp
  qed
  then show "c = min r (b - p mod b)" "b dvd p + r \<or> r - c = 0" using assms by (auto simp: c_def)
  show "0 < c" using b assms by (auto simp: c_def)
qed

lemma read_loop_spec:
  assumes "fs_ok s" and "fd_at n s = Some fd" and "file_ok s (fd_inode fd)"
    and "unat (fd_pos fd) + r = unat end_pos" "unat end_pos \<le> unat (i_size (fd_inode fd))"
    and "r \<le> unat len" "unat len < 2 ^ 31"
    and "bsz s dvd unat (fd_pos fd) + r \<or> r = 0 \<or> (r = unat len \<and> unat (fd_pos fd) mod bsz s + r \<le> bsz s)"
    and "unat buffer + r \<le> 2 ^ 64" "\<And>y. span buffer r y \<Longrightarrow> owned (fs_mem s) y \<and> \<not> on_disk s y"
  shows "\<exists>s'. read_loop n end_pos buffer len s = Some s' \<and> stays s s' \<and>
     file_descriptor_table s' = (file_descriptor_table s)(unat n := fd\<lparr>fd_pos := end_pos\<rparr>) \<and>
     got s s' (fd_inode fd) (unat (fd_pos fd)) r buffer"
  using assms
proof (induction r arbitrary: s fd buffer rule: less_induct)
  case (less r)
  note ok = less.prems(1) and fd = less.prems(2) and f = less.prems(3)
  show ?case
  proof (cases "r = 0")
    case True
    then have "fd_pos fd = end_pos" using less.prems(4) by (simp add: word_unat_eq_iff)
    then show ?thesis using fd fd_atD [OF fd] stays_refl [OF ok] True
      by (auto simp: read_loop.simps [of n end_pos buffer len s] got_def)
  next
    case False
    define c where "c = min (unat len) (bsz s - unat (fd_pos fd) mod bsz s)"
    note sz = file_size [OF ok f]
    have r0: "0 < r" using False by simp
    note wr = whole_rounds [OF r0 sz(3) less.prems(6,8), folded c_def]
    have c: "c \<le> r" "unat (fd_pos fd) + c < 2 ^ 32" "c < 2 ^ 31" using wr(1) sz less.prems(4,5) by auto
    have p': "unat (fd_pos fd + of_nat c) = unat (fd_pos fd) + c" using c(2) by (simp add: unat_word_ariths unat_of_nat)
    have nd: "owned (fs_mem s) y \<and> \<not> on_disk s y" if "span buffer c y" for y using less.prems(10) [of y] that c(1) by (simp add: span_def)
    have p0: "unat (fd_pos fd) < unat (i_size (fd_inode fd))" using r0 less.prems(4,5) by simp
    have b0: "unat buffer + c \<le> 2 ^ 64" using less.prems(9) c(1) by simp
    obtain s1 where s1: "read_step n buffer len fd s = Some (of_nat c, s1)" "stays s s1"
      "file_descriptor_table s1 = (file_descriptor_table s)(unat n := fd\<lparr>fd_pos := fd_pos fd + of_nat c\<rparr>)"
      "got s s1 (fd_inode fd) (unat (fd_pos fd)) c buffer"
      by (rule read_round [OF ok fd f p0 less.prems(7), folded c_def, OF b0]) (use nd in auto)
    note S = staysD [OF s1(2)]
    have f1: "file_ok s1 (fd_inode fd)" by (rule got_file(1) [OF ok f s1(2,4)]) (use nd in blast)
    define fd1 where "fd1 = fd\<lparr>fd_pos := fd_pos fd + of_nat c\<rparr>"
    have fd1: "fd_at n s1 = Some fd1" using fd_at_upd [OF fd s1(3)] by (simp add: fd1_def)
    have cc: "scast (of_nat c :: u32) = (of_nat c :: u64)" using scast_small [of "of_nat c"] c(3) by (simp add: unat_of_nat)
    have bc: "unat (buffer + of_nat c) = unat buffer + c \<or> r = c"
      using unat_add_lt [OF less.prems(9), of c] c(1) by auto
    have ub: "unat (buffer + of_nat c) < 2 ^ 64" using unsigned_less [of "buffer + of_nat c"] by simp
    have "\<exists>s'. read_loop n end_pos (buffer + of_nat c) len s1 = Some s' \<and> stays s1 s' \<and>
       file_descriptor_table s' = (file_descriptor_table s1)(unat n := fd1\<lparr>fd_pos := end_pos\<rparr>) \<and>
       got s1 s' (fd_inode fd1) (unat (fd_pos fd1)) (r - c) (buffer + of_nat c)"
    proof (rule less.IH [OF _ S(1) fd1])
      show "owned (fs_mem s1) y \<and> \<not> on_disk s1 y" if "span (buffer + of_nat c) (r - c) y" for y
        using less.prems(10) [of y] that bc S(5) on_disk_stays [OF s1(2)] c(1) by (auto simp: span_def)
      show "unat (buffer + of_nat c) + (r - c) \<le> 2 ^ 64" using bc less.prems(9) c(1) ub by auto
      show "bsz s1 dvd unat (fd_pos fd1) + (r - c) \<or> r - c = 0 \<or>
          (r - c = unat len \<and> unat (fd_pos fd1) mod bsz s1 + (r - c) \<le> bsz s1)"
        using wr(3) p' c(1) S(2) by (auto simp: fd1_def)
    qed (use wr(2) c(1) f1 less.prems(4-7) p' in \<open>simp_all add: fd1_def\<close>)
    then obtain s' where s': "read_loop n end_pos (buffer + of_nat c) len s1 = Some s'" "stays s1 s'"
       "file_descriptor_table s' = (file_descriptor_table s1)(unat n := fd1\<lparr>fd_pos := end_pos\<rparr>)"
       "got s1 s' (fd_inode fd1) (unat (fd_pos fd1)) (r - c) (buffer + of_nat c)" by blast
    have "got s s' (fd_inode fd) (unat (fd_pos fd)) (c + (r - c)) buffer"
    proof (rule got_append [OF ok f s1(2) _ _ _ s1(4)])
      show "(unat (fd_pos fd) + j) div bsz s * bsz s < unat (i_size (fd_inode fd))" if "j < c + (r - c)" for j
        using that c(1) less.prems(4,5) by (intro div_mult_less) simp
    qed (use s'(4) p' c(1) less.prems(9,10) in \<open>auto simp: fd1_def\<close>)
    moreover have "read_loop n end_pos buffer len s = Some s'"
      using fd s1(1) s'(1) r0 less.prems(4) by (subst read_loop.simps) (simp add: word_less_nat_alt cc)
    ultimately show ?thesis using s'(2,3) s1(2,3) c(1) stays_trans by (auto simp: fd1_def)
  qed
qed

definition read_size :: "file_descriptor \<Rightarrow> u32 \<Rightarrow> nat" where
  "read_size fd len = min (unat len) (unat (i_size (fd_inode fd)) - unat (fd_pos fd))"

lemma read_file_spec:
  assumes ok: "fs_ok s" and fd: "fd_at n s = Some fd" and f: "file_ok s (fd_inode fd)"
    and p: "unat (fd_pos fd) \<le> unat (i_size (fd_inode fd))" and len: "0 \<le> sint len"
  defines "r \<equiv> read_size fd len"
  assumes al: "bsz s dvd unat (fd_pos fd) + r \<or> unat (fd_pos fd) mod bsz s + r \<le> bsz s"
    and buf: "unat buffer + r \<le> 2 ^ 64" "\<And>y. span buffer r y \<Longrightarrow> owned (fs_mem s) y \<and> \<not> on_disk s y"
  shows "\<exists>s'. read_file n buffer len s = Some (of_nat r, s') \<and> stays s s' \<and>
     file_descriptor_table s' = (file_descriptor_table s)(unat n := fd\<lparr>fd_pos := fd_pos fd + of_nat r\<rparr>) \<and>
     got s s' (fd_inode fd) (unat (fd_pos fd)) r buffer"
proof -
  note sz = file_size [OF ok f]
  have sub: "unat (i_size (fd_inode fd) - fd_pos fd) = unat (i_size (fd_inode fd)) - unat (fd_pos fd)"
    using p by (simp add: unat_sub word_le_nat_alt)
  then have "unat (fs_min len (i_size (fd_inode fd) - fd_pos fd)) = r"
    using fs_min_nat [OF sint_nonneg [OF len], of "i_size (fd_inode fd) - fd_pos fd"] sz by (simp add: r_def read_size_def)
  then have m: "fs_min len (i_size (fd_inode fd) - fd_pos fd) = of_nat r" by (metis of_nat_unat ucast_id)
  have r: "unat (of_nat r :: u32) = r" "r \<le> 2 ^ 30" "unat (fd_pos fd) + r \<le> unat (i_size (fd_inode fd))"
    using sz p by (auto simp: unat_of_nat r_def read_size_def)
  then have "unat (fd_pos fd + of_nat r) = unat (fd_pos fd) + r" using sz by (simp add: unat_word_ariths)
  then obtain s' where "read_loop n (fd_pos fd + of_nat r) buffer (of_nat r) s = Some s'" "stays s s'"
     "file_descriptor_table s' = (file_descriptor_table s)(unat n := fd\<lparr>fd_pos := fd_pos fd + of_nat r\<rparr>)"
     "got s s' (fd_inode fd) (unat (fd_pos fd)) r buffer"
    using read_loop_spec [OF ok fd f, of r "fd_pos fd + of_nat r" "of_nat r" buffer] r al buf by auto
  then show ?thesis using len by (simp add: read_file_def fd m assert_bind)
qed

definition usable :: "fs_state \<Rightarrow> u64 \<Rightarrow> nat \<Rightarrow> bool" where
  "usable s buffer k \<longleftrightarrow> unat buffer + k \<le> 2 ^ 64 \<and> (\<forall>y. span buffer k y \<longrightarrow> owned (fs_mem s) y \<and> \<not> on_disk s y)"

lemma usableD:
  assumes "usable s buffer k"
  shows "unat buffer + k \<le> 2 ^ 64" "span buffer k y \<Longrightarrow> owned (fs_mem s) y \<and> \<not> on_disk s y"
  using assms by (simp_all add: usable_def)

lemma usable_stays: "stays s s' \<Longrightarrow> usable s' buffer k = usable s buffer k"
  by (simp add: usable_def on_disk_stays staysD)

lemma usable_tail: "usable s buffer (c + r) \<Longrightarrow> 0 < r \<Longrightarrow> usable s (buffer + of_nat c) r"
  using unat_add_lt [of buffer "c + r" c] by (auto simp: usable_def span_def)

lemma usable_mono: "usable s buffer k \<Longrightarrow> j \<le> k \<Longrightarrow> usable s buffer j"
  by (auto simp: usable_def span_def)

lemma two_blocks:
  fixes b p :: nat
  assumes "0 < b"
  defines "c \<equiv> b - p mod b"
  shows "(p + c) mod b = 0" "j < c + k \<Longrightarrow> k < b \<Longrightarrow> (p + j) div b * b \<le> p + c"
proof -
  have al: "p + c = Suc (p div b) * b"
    using div_mult_mod_eq [of p b] mod_less_divisor [OF assms(1), of p] unfolding c_def mult_Suc by linarith
  then show "(p + c) mod b = 0" by (metis mod_mult_self2_is_0)
  assume "j < c + k" "k < b"
  then have "p + j < Suc (Suc (p div b)) * b" using al by simp
  then have "(p + j) div b < Suc (Suc (p div b))" by (rule less_mult_imp_div_less)
  then show "(p + j) div b * b \<le> p + c" unfolding al by (intro mult_right_mono) auto
qed

text \<open>A read that spans two blocks: the second round copies as many bytes as the whole request.\<close>

lemma read_two_blocks:
  assumes ok: "fs_ok s" and fd: "fd_at n s = Some fd" and f: "file_ok s (fd_inode fd)"
    and e: "unat (fd_pos fd) + unat len \<le> unat (i_size (fd_inode fd))"
  defines "c \<equiv> bsz s - unat (fd_pos fd) mod bsz s"
  assumes len: "c < unat len" "unat len < bsz s" and buf: "usable s buffer (c + unat len)"
  shows "\<exists>s'. read_file n buffer len s = Some (len, s') \<and> stays s s' \<and>
     file_descriptor_table s' = (file_descriptor_table s)(unat n := fd\<lparr>fd_pos := fd_pos fd + of_nat (c + unat len)\<rparr>) \<and>
     got s s' (fd_inode fd) (unat (fd_pos fd)) (c + unat len) buffer"
proof -
  let ?p = "unat (fd_pos fd)" and ?ino = "fd_inode fd"
  note sz = file_size [OF ok f]
  have c: "0 < c" "c \<le> bsz s" "min (unat len) c = c" using sz(3) len by (auto simp: c_def)
  have l31: "unat len < 2 ^ 31" using len sz by simp
  define fd1 where "fd1 = fd\<lparr>fd_pos := fd_pos fd + of_nat c\<rparr>"
  have p1: "unat (fd_pos fd1) = ?p + c" using c e sz len by (simp add: fd1_def unat_word_ariths unat_of_nat)
  have b1: "usable s buffer c" using usable_mono [OF buf] by simp
  have p0: "?p < unat (i_size ?ino)" using e len by simp
  obtain s1 where s1: "read_step n buffer len fd s = Some (of_nat c, s1)" "stays s s1"
      "file_descriptor_table s1 = (file_descriptor_table s)(unat n := fd1)" "got s s1 ?ino ?p c buffer"
    using read_round [OF ok fd f p0 l31, folded c_def, unfolded c(3), OF usableD [OF b1]] unfolding fd1_def by blast
  note S = staysD [OF s1(2)]
  have f1: "file_ok s1 (fd_inode fd1)" using got_file(1) [OF ok f s1(2,4)] usableD(2) [OF b1] by (auto simp: fd1_def)
  have fd1: "fd_at n s1 = Some fd1" using fd_at_upd [OF fd s1(3)] .
  note two = two_blocks [OF sz(3), where p = ?p, folded c_def]
  have b2: "usable s1 (buffer + of_nat c) (unat len)"
    using usable_tail [OF buf] len usable_stays [OF s1(2)] by simp
  have c2: "min (unat len) (bsz s1 - unat (fd_pos fd1) mod bsz s1) = unat len" using two(1) len S(2) p1 by simp
  have p1': "unat (fd_pos fd1) < unat (i_size (fd_inode fd1))" using p1 e len by (simp add: fd1_def)
  obtain s2 where s2: "read_step n (buffer + of_nat c) len fd1 s1 = Some (len, s2)" "stays s1 s2"
      "file_descriptor_table s2 = (file_descriptor_table s1)(unat n := fd1\<lparr>fd_pos := fd_pos fd1 + len\<rparr>)"
      "got s1 s2 (fd_inode fd1) (?p + c) (unat len) (buffer + of_nat c)"
    using read_round [OF staysD(1) [OF s1(2)] fd1 f1 p1' l31, unfolded c2, unfolded p1, OF usableD [OF b2]]
    by (simp del: of_nat_add) blast
  define fd2 where "fd2 = fd1\<lparr>fd_pos := fd_pos fd1 + len\<rparr>"
  have fd2: "fd_at n s2 = Some fd2" using fd_at_upd [OF fd1 s2(3)] by (simp add: fd2_def)
  have "got s s2 ?ino ?p (c + unat len) buffer"
  proof (rule got_append [OF ok f s1(2) _ usableD [OF buf] s1(4)])
    show "(?p + j) div bsz s * bsz s < unat (i_size ?ino)" if "j < c + unat len" for j
      using two(2) [OF that len(2)] e len(1) by linarith
  qed (use s2(4) in \<open>simp_all add: fd1_def\<close>)
  moreover have "read_loop n (fd_pos fd + len) buffer len s = Some s2"
  proof -
    have e1: "unat (fd_pos fd + len) = ?p + unat len" using e sz by (simp add: unat_word_ariths)
    have e2: "unat (fd_pos fd2) = ?p + c + unat len" using p1 e sz len by (simp add: fd2_def unat_word_ariths)
    have cc: "scast (of_nat c :: u32) = (of_nat c :: u64)" using scast_small [of "of_nat c"] c sz by (simp add: unat_of_nat)
    have lt: "fd_pos fd < fd_pos fd + len" "fd_pos fd1 < fd_pos fd + len" "\<not> fd_pos fd2 < fd_pos fd + len"
      using e1 e2 p1 c len by (simp_all add: word_less_nat_alt)
    have "read_loop n (fd_pos fd + len) (buffer + of_nat c + scast len) len s2 = Some s2"
      by (subst read_loop.simps) (simp add: fd2 lt)
    then have "read_loop n (fd_pos fd + len) (buffer + of_nat c) len s1 = Some s2"
      by (subst read_loop.simps) (simp add: fd1 lt s2(1))
    then show ?thesis by (subst read_loop.simps) (simp add: fd lt s1(1) cc)
  qed
  moreover have "fs_min len (i_size ?ino - fd_pos fd) = len" "0 \<le> sint len"
  proof -
    have "unat (i_size ?ino - fd_pos fd) = unat (i_size ?ino) - ?p" using e by (simp add: unat_sub word_le_nat_alt)
    then have "unat (fs_min len (i_size ?ino - fd_pos fd)) = unat len" using fs_min_nat [OF l31, of "i_size ?ino - fd_pos fd"] e sz by simp
    then show "fs_min len (i_size ?ino - fd_pos fd) = len" by (simp only: word_unat_eq_iff)
    show "0 \<le> sint len" using sint_small [OF l31] by simp
  qed
  ultimately show ?thesis using s1(3) s2(3) stays_trans [OF s1(2) s2(2)]
    by (auto simp: read_file_def fd assert_bind fd1_def add.assoc)
qed

section \<open>Writing to memory that the file system does not use\<close>

lemma fs_ok_write:
  assumes ok: "fs_ok s" and m: "\<And>y. \<not> owned (fs_mem s) y \<Longrightarrow> m y = fs_bytes s y"
  shows "stays s (upd_bytes (\<lambda>_. m) s)"
proof -
  let ?a = "(fs_mem s)\<lparr>heap := m\<rparr>" and ?r = "ucast (fs_block_size (filesystem s) + 1) :: u64"
  obtain bs where inv: "heap_inv (fs_mem s) bs" using ok by (auto simp: fs_ok_def heap_ok_def)
  have inv': "heap_inv ?a bs"
    by (rule heap_inv_write [OF inv]) (use m in_header_not_owned [OF inv] in \<open>simp add: fs_bytes_def\<close>)
  have b: "16 \<le> bsz s" "bsz s \<le> 2 ^ 16" using ok by (auto simp: fs_ok_def)
  then have ur: "unat ?r = bsz s + 1" by (simp add: unsigned_ucast_eq take_bit_eq_mod unat_word_ariths)
  have r: "0 < ?r" "unat ?r + 32 \<le> 2 ^ 30" using ur b by (simp_all add: word_gt_0_no word_less_nat_alt)
  have "brk ?a = brk (fs_mem s)" by (simp add: brk_def)
  then have "kmalloc ?r ?a \<noteq> None"
    using kmalloc_spec [OF inv r] kmalloc_spec [OF inv' r] ok by (auto simp: fs_ok_def split: option.splits)
  moreover have "owned ?a = owned (fs_mem s)" using owned_eq [OF inv inv'] by simp
  moreover have "live_blocks ?a = live_blocks (fs_mem s)" by (simp add: live_blocks_used [OF inv] live_blocks_used [OF inv'])
  ultimately show ?thesis using ok inv' by (auto simp: stays_def same_disk_def upd_bytes_def fs_ok_def heap_ok_def brk_def)
qed

lemma file_write_elsewhere:
  assumes "fs_ok s" and "file_ok s ino" and "same_disk s s'" and "\<And>y. on_disk s y \<Longrightarrow> fs_bytes s' y = fs_bytes s y"
  shows "file_ok s' ino" "contents s' ino = contents s ino"
proof -
  show "file_ok s' ino" by (rule file_table_kept(1) [OF assms(1-3)]) (use assms(4) in blast)
  have "fs_bytes s' (file_addr s' ino i) = fs_bytes s (file_addr s ino i)" if i: "i < unat (i_size ino)" for i
  proof -
    have "file_addr s' ino i = file_addr s ino i"
      by (rule file_table_kept(2) [OF assms(1-3) _ div_mult_less [OF i]]) (use assms(4) in blast)
    then show ?thesis using assms(4) file_addr_disk(2) [OF assms(1,2) i] by simp
  qed
  then show "contents s' ino = contents s ino" by (simp add: contents_def)
qed

end
