(* ===== verification/Fs_Props.thy ===== *)
theory Fs_Props
  imports Fs_Files
begin

text \<open>
  What the file system guarantees: \<open>write\<close> and \<open>read\<close> as updates and slices of the contents of a file,
  the round trips of data and of inodes, the comparison of names, and the overrun of \<open>read\<close> on
  requests that span two blocks. A disk of four blocks with one file serves as the example.
\<close>

section \<open>A small disk\<close>

definition example_disk :: "bytes \<Rightarrow> bytes" where
  "example_disk m y = (if span 0x4000000 256 y then if y = 0x400004f then 2 else if y = 0x4000053 then 3 else 0 else m y)"

definition example_fd :: "u32 \<Rightarrow> file_descriptor" where
  "example_fd p = \<lparr>fd_inode = \<lparr>i_index = 1, i_kind = 0, i_nlink = 1, i_size = 100, i_blocks = 0x400004c\<rparr>,
     fd_pos = p, fd_closed = 0, owner_pid = 0\<rparr>"

definition example_fs :: "alloc_state \<Rightarrow> u32 \<Rightarrow> fs_state" where
  "example_fs a p = \<lparr>fs_mem = a\<lparr>heap := example_disk (heap a)\<rparr>,
     filesystem = \<lparr>fs_start = 0x4000000, fs_end = 0x4000104, superblock = 0x4000000, inode_count = 1, last_free_inode = 0,
       free_block_list = 0, free_block_count = 0, root_inode = 1, fs_block_size = 64, block_count = 4, block_word_size = 16,
       blocktable_size = 13, blocktable_offset = 12, max_file_size = 832, fs_type = 0, seek_cursor = 0x4000000\<rparr>,
     file_descriptor_table = (\<lambda>_. example_fd p)\<rparr>"

lemma example_geometry [simp]:
  "bsz (example_fs a p) = 64" "nblocks (example_fs a p) = 4" "disk_addr (example_fs a p) k i = 0x4000000 + of_nat (k * 64 + i)"
  "i_size (fd_inode (example_fd p)) = 100" "i_blocks (fd_inode (example_fd p)) = 0x400004c" "fd_pos (example_fd p) = p"
  "unat n < 64 \<Longrightarrow> fd_at n (example_fs a p) = Some (example_fd p)"
  by (simp_all add: example_fs_def example_fd_def disk_addr_def fd_at_def)

lemma load4: "load 4 m a = ucast (m a) OR push_bit 8 (ucast (m (a + 1)) OR push_bit 8 (ucast (m (a + 2)) OR push_bit 8 (ucast (m (a + 3)))))"
  by (simp add: numeral_eq_Suc add.assoc)

lemma example_block:
  "file_block (example_fs a p) (fd_inode (example_fd q)) 0 = 2" "file_block (example_fs a p) (fd_inode (example_fd q)) 1 = 3"
proof -
  have b: "fs_bytes (example_fs a p) x = example_disk (heap a) x" for x by (simp add: fs_bytes_def example_fs_def)
  have m: "example_disk h 0x400004c = 0" "example_disk h 0x400004d = 0" "example_disk h 0x400004e = 0" "example_disk h 0x400004f = 2"
    "example_disk h 0x4000050 = 0" "example_disk h 0x4000051 = 0" "example_disk h 0x4000052 = 0" "example_disk h 0x4000053 = 3" for h
    by (simp_all add: example_disk_def span_def)
  show "file_block (example_fs a p) (fd_inode (example_fd q)) 0 = 2" "file_block (example_fs a p) (fd_inode (example_fd q)) 1 = 3"
    by (simp_all add: file_block_def load32_def load4 b m switch_endianness_def)
qed

lemma example_fs_ok:
  obtains a where "fs_ok (example_fs a p)" "file_ok (example_fs a p) (fd_inode (example_fd q))" "usable (example_fs a p) 0x4400020 96"
proof -
  obtain a where a: "heap_inv a [(0x4400000, 96, False), (0x4400080, 224, True)]" using example_heap by blast
  have hb: "unat (heap_begin a) = 0x4400000" using a by (simp add: heap_inv_def)
  let ?s = "example_fs a p"
  have inv: "heap_inv (fs_mem ?s) [(0x4400000, 96, False), (0x4400080, 224, True)]"
    unfolding example_fs_def fs_state.simps
    by (rule heap_inv_write [OF a]) (auto simp: in_header_def span_def example_disk_def)
  have "block_size 65 = 96" by (simp add: block_size_def next_power_of_2_eq [of _ 7])
  then have km: "kmalloc 65 (fs_mem ?s) \<noteq> None" by (intro kmalloc_fits [OF inv]) (simp_all add: fits_def)
  then have ok: "fs_ok ?s" using inv hb by (auto simp: fs_ok_def heap_ok_def example_fs_def)
  moreover have "file_ok ?s (fd_inode (example_fd q))"
  proof -
    have "16 * j < 25 \<longleftrightarrow> j = 0 \<or> j = Suc 0" for j :: nat by auto
    then show ?thesis using example_block [of a p q]
      unfolding file_ok_def by (intro exI [of _ 1]) (auto simp: inj_on_def)
  qed
  moreover have "usable ?s 0x4400020 96"
    unfolding usable_def on_disk_def owned_def live_blocks_used [OF inv] by (auto simp: span_def example_fs_def)
  ultimately show thesis by (rule that)
qed


section \<open>Numbers on the disk\<close>

lemma bit_switch: "bit (switch_endianness n) i \<longleftrightarrow> i < 32 \<and> bit n (8 * (3 - i div 8) + i mod 8)"
proof (cases "i < 32")
  case True
  have "\<forall>i\<in>set [0..<32]. bit (switch_endianness n) i = bit n (8 * (3 - i div 8) + i mod 8)"
    by (simp add: upt_conv_Cons switch_endianness_def bit_simps flip: numeral_2_eq_2)
  with True show ?thesis by simp
qed (auto dest: bit_imp_le_length)

lemma switch_endianness_inverse [simp]: "switch_endianness (switch_endianness n) = n"
proof (rule bit_word_eqI)
  fix i assume "i < LENGTH(32)"
  then have i: "i div 8 \<le> 3" by simp
  have "(8 * (3 - i div 8) + i mod 8) div 8 = 3 - i div 8" "(8 * (3 - i div 8) + i mod 8) mod 8 = i mod 8" by simp_all
  moreover have "8 * (3 - (3 - i div 8)) + i mod 8 = i" "8 * (3 - i div 8) + i mod 8 < 32" using i by (simp, presburger)
  ultimately show "bit (switch_endianness (switch_endianness n)) i = bit n i" using \<open>i < LENGTH(32)\<close> by (simp add: bit_switch)
qed

lemma load32_store32: "load32 (store32 a v m) a = v"
proof -
  have "ucast (ucast v :: u64) = v" by (rule bit_word_eqI) (simp add: bit_simps)
  then show ?thesis by (simp add: load32_def store32_def load_store_same unsigned_take_bit_eq take_bit_word_eq_self)
qed

lemma load32_store32_other:
  assumes "unat a + 4 \<le> 2 ^ 64" "unat b + 4 \<le> 2 ^ 64" "unat a + 4 \<le> unat b \<or> unat b + 4 \<le> unat a"
  shows "load32 (store32 a v m) b = load32 m b"
  using load_store_other [OF assms] by (simp add: load32_def store32_def)

lemma match_from_spec:
  assumes "cstring m (p + of_nat cur) xs" and "cstring m (d + of_nat cur) ys" and "length ys \<le> fuel" and "47 \<notin> set ys"
  shows "match_from fuel m p d cur = (if takeWhile (\<lambda>c. c \<noteq> 47) xs = ys then int (cur + length ys) else -1)"
  using assms
proof (induction fuel arbitrary: cur xs ys)
  case 0
  then show ?case by (cases xs) auto
next
  case (Suc fuel)
  have eq: "p + (1 + of_nat cur) = p + of_nat (Suc cur)" "d + (1 + of_nat cur) = d + of_nat (Suc cur)" by simp_all
  show ?case
  proof (cases "xs = [] \<or> ys = []")
    case True
    then show ?thesis using Suc.prems by (cases xs; cases ys) auto
  next
    case False
    then obtain x xs' y ys' where xy: "xs = x # xs'" "ys = y # ys'" by (auto simp: neq_Nil_conv)
    have "match_from fuel m p d (Suc cur) = (if takeWhile (\<lambda>c. c \<noteq> 47) xs' = ys' then int (Suc cur + length ys') else -1)"
      by (rule Suc.IH) (use Suc.prems xy in \<open>simp_all add: ac_simps\<close>)
    then show ?thesis using Suc.prems xy by auto
  qed
qed


section \<open>Properties\<close>

definition buffer_bytes :: "fs_state \<Rightarrow> u64 \<Rightarrow> nat \<Rightarrow> u8 list" where
  "buffer_bytes s buffer k = map (\<lambda>j. fs_bytes s (buffer + of_nat j)) [0..<k]"

lemma got_contents:
  assumes "got s s' ino p r buffer" and "p + r \<le> unat (i_size ino)"
  shows "buffer_bytes s' buffer r = take r (drop p (contents s ino))"
  by (rule nth_equalityI) (use assms(2) gotD(1) [OF assms(1)] in \<open>auto simp: buffer_bytes_def contents_def\<close>)

lemma got_same_contents:
  assumes "fs_ok s" and "file_ok s ino" and "stays s s'" and "got s s' ino' p r buffer" and "usable s buffer r"
  shows "contents s' ino = contents s ino"
proof -
  have nd: "\<not> on_disk s y" if "span buffer r y" for y using usableD(2) [OF assms(5) that] by simp
  have "fs_bytes s' (file_addr s' ino i) = fs_bytes s (file_addr s ino i)" if i: "i < unat (i_size ino)" for i
  proof -
    have "file_addr s' ino i = file_addr s ino i"
      by (rule got_file(2) [OF assms(1-4) _ div_mult_less [OF i]]) (rule nd)
    moreover have "i mod bsz s < bsz s" using file_size(3) [OF assms(1,2)] by simp
    then have "fs_bytes s' (file_addr s ino i) = fs_bytes s (file_addr s ino i)"
      unfolding file_addr_def by (intro got_file(3) [OF assms(1-4) _ file_okD [OF assms(2) i]]) (rule nd)
    ultimately show ?thesis by simp
  qed
  then show ?thesis by (simp add: contents_def)
qed

text \<open>
  C35. \<open>write\<close> within a file replaces the bytes at the position of the descriptor by those of the buffer,
  across the borders of blocks, returns the length, and advances the position by it. The file system
  stays well formed and no other byte below the heap or in a block in use changes.
\<close>

theorem write_updates_contents:
  assumes "fs_ok s" and "fd_at n s = Some fd" and "file_ok s (fd_inode fd)"
    and "unat (fd_pos fd) + unat len \<le> unat (i_size (fd_inode fd))" and "usable s buffer (unat len)"
  shows "\<exists>s'. write_file n buffer len s = Some (len, s') \<and> fs_ok s' \<and> file_ok s' (fd_inode fd) \<and>
     contents s' (fd_inode fd) = take (unat (fd_pos fd)) (contents s (fd_inode fd)) @ buffer_bytes s buffer (unat len) @
       drop (unat (fd_pos fd) + unat len) (contents s (fd_inode fd)) \<and>
     fd_at n s' = Some (fd\<lparr>fd_pos := fd_pos fd + len\<rparr>) \<and>
     (\<forall>y. owned (fs_mem s) y \<and> y \<notin> file_addr s (fd_inode fd) ` {unat (fd_pos fd)..<unat (fd_pos fd) + unat len} \<longrightarrow>
       fs_bytes s' y = fs_bytes s y)"
proof -
  obtain s' where s': "write_file n buffer len s = Some (len, s')" "stays s s'" "file_ok s' (fd_inode fd)"
     "\<forall>i<unat (i_size (fd_inode fd)). file_addr s' (fd_inode fd) i = file_addr s (fd_inode fd) i"
     "file_descriptor_table s' = (file_descriptor_table s)(unat n := fd\<lparr>fd_pos := fd_pos fd + len\<rparr>)"
     "wrote s s' (fd_inode fd) (unat (fd_pos fd)) (unat len) buffer"
    using write_file_spec [OF assms(1-4) usableD [OF assms(5)]] by blast
  have "fs_bytes s' y = fs_bytes s y"
    if "owned (fs_mem s) y" "y \<notin> file_addr s (fd_inode fd) ` {unat (fd_pos fd)..<unat (fd_pos fd) + unat len}" for y
    by (rule wroteD(2) [OF s'(6) that(1)]) (use that(2) in auto)
  then show ?thesis
    using s' staysD(1) [OF s'(2)] contents_wrote [OF assms(1,3,4) s'(4,6)] fd_at_upd [OF assms(2) s'(5)]
    by (auto simp: buffer_bytes_def)
qed

theorem write_updates_contents_witness:
  "\<exists>s s'. fs_ok s \<and> file_ok s (fd_inode (example_fd 50)) \<and> write_file 0 0x4400020 40 s = Some (40, s') \<and>
     contents s' (fd_inode (example_fd 50)) = take 50 (contents s (fd_inode (example_fd 50))) @ buffer_bytes s 0x4400020 40 @
       drop 90 (contents s (fd_inode (example_fd 50)))"
proof -
  obtain a where a: "fs_ok (example_fs a 50)" "file_ok (example_fs a 50) (fd_inode (example_fd 50))" "usable (example_fs a 50) 0x4400020 96"
    using example_fs_ok .
  have u: "usable (example_fs a 50) 0x4400020 (unat (40 :: u32))" using usable_mono [OF a(3)] by simp
  show ?thesis using write_updates_contents [OF a(1) _ a(2) _ u, of 0] a by auto
qed

text \<open>
  C36. \<open>read\<close> of a request that stays within one block, or that ends at the end of a block, copies to the
  buffer the bytes of the file from the position on, at most up to the end of the file, returns their
  number and advances the position by it. The file and every other owned byte stay as they are.
\<close>

theorem read_returns_contents:
  assumes "fs_ok s" and "fd_at n s = Some fd" and "file_ok s (fd_inode fd)"
    and "unat (fd_pos fd) \<le> unat (i_size (fd_inode fd))" and "0 \<le> sint len"
    and "bsz s dvd unat (fd_pos fd) + read_size fd len \<or> unat (fd_pos fd) mod bsz s + read_size fd len \<le> bsz s"
    and "usable s buffer (read_size fd len)"
  shows "\<exists>s'. read_file n buffer len s = Some (of_nat (read_size fd len), s') \<and> fs_ok s' \<and>
     buffer_bytes s' buffer (read_size fd len) = take (unat len) (drop (unat (fd_pos fd)) (contents s (fd_inode fd))) \<and>
     contents s' (fd_inode fd) = contents s (fd_inode fd) \<and>
     fd_at n s' = Some (fd\<lparr>fd_pos := fd_pos fd + of_nat (read_size fd len)\<rparr>) \<and>
     (\<forall>y. owned (fs_mem s) y \<and> \<not> span buffer (read_size fd len) y \<longrightarrow> fs_bytes s' y = fs_bytes s y)"
proof -
  let ?r = "read_size fd len"
  obtain s' where s': "read_file n buffer len s = Some (of_nat ?r, s')" "stays s s'"
     "file_descriptor_table s' = (file_descriptor_table s)(unat n := fd\<lparr>fd_pos := fd_pos fd + of_nat ?r\<rparr>)"
     "got s s' (fd_inode fd) (unat (fd_pos fd)) ?r buffer"
    using read_file_spec [OF assms(1-6) usableD [OF assms(7)]] by blast
  have "take ?r (drop (unat (fd_pos fd)) (contents s (fd_inode fd))) = take (unat len) (drop (unat (fd_pos fd)) (contents s (fd_inode fd)))"
    by (auto simp: read_size_def contents_def min_def)
  then show ?thesis
    using s'(1) staysD(1) [OF s'(2)] fd_at_upd [OF assms(2) s'(3)] got_contents [OF s'(4)] gotD(2) [OF s'(4)]
      got_same_contents [OF assms(1,3) s'(2,4) assms(7)] assms(4) by (auto simp: read_size_def)
qed

theorem read_returns_contents_witness:
  "\<exists>s s'. fs_ok s \<and> file_ok s (fd_inode (example_fd 70)) \<and> read_file 0 0x4400020 80 s = Some (30, s') \<and>
     buffer_bytes s' 0x4400020 30 = drop 70 (contents s (fd_inode (example_fd 70)))"
proof -
  obtain a where a: "fs_ok (example_fs a 70)" "file_ok (example_fs a 70) (fd_inode (example_fd 70))" "usable (example_fs a 70) 0x4400020 96"
    using example_fs_ok .
  have r: "read_size (example_fd 70) 80 = 30" by (simp add: read_size_def)
  have u: "usable (example_fs a 70) 0x4400020 (read_size (example_fd 70) 80)" using usable_mono [OF a(3)] by (simp add: r)
  have l: "length (contents (example_fs a 70) (fd_inode (example_fd 70))) = 100" by (simp add: contents_def)
  show ?thesis using read_returns_contents [OF a(1) _ a(2) _ _ _ u, of 0] a l by (auto simp: r)
qed

text \<open>
  What is written comes back: after \<open>write\<close> within a file, \<open>fseek\<close> back to where it began and a \<open>read\<close>
  of the same length that ends within the block or at a border of blocks, the second buffer holds
  the bytes of the first.
\<close>

theorem write_seek_read:
  assumes "fs_ok s" and "fd_at n s = Some fd" and "file_ok s (fd_inode fd)"
    and "unat (fd_pos fd) + unat len \<le> unat (i_size (fd_inode fd))" and "usable s buffer (unat len)" "usable s target (unat len)"
    and "bsz s dvd unat (fd_pos fd) + unat len \<or> unat (fd_pos fd) mod bsz s + unat len \<le> bsz s"
  shows "\<exists>s1 s2 s3. write_file n buffer len s = Some (len, s1) \<and> fseek n (fd_pos fd) SEEK_SET s1 = Some s2 \<and>
     read_file n target len s2 = Some (len, s3) \<and> buffer_bytes s3 target (unat len) = buffer_bytes s buffer (unat len)"
proof -
  let ?ino = "fd_inode fd" and ?p = "unat (fd_pos fd)"
  obtain s1 where s1: "write_file n buffer len s = Some (len, s1)" "stays s s1" "file_ok s1 ?ino"
     "\<forall>i<unat (i_size ?ino). file_addr s1 ?ino i = file_addr s ?ino i"
     "file_descriptor_table s1 = (file_descriptor_table s)(unat n := fd\<lparr>fd_pos := fd_pos fd + len\<rparr>)"
     "wrote s s1 ?ino ?p (unat len) buffer"
    using write_file_spec [OF assms(1-4) usableD [OF assms(5)]] by blast
  define s2 where "s2 = s1\<lparr>file_descriptor_table := (file_descriptor_table s)(unat n := fd)\<rparr>"
  have fd1: "fd_at n s1 = Some (fd\<lparr>fd_pos := fd_pos fd + len\<rparr>)" using fd_at_upd [OF assms(2) s1(5)] .
  have sk: "fseek n (fd_pos fd) SEEK_SET s1 = Some s2"
    using fd1 assms(4) s1(5) by (simp add: fseek_def assert_bind word_le_nat_alt fd_upd_def s2_def)
  have s2: "stays s s2" "fs_ok s2" "fs_bytes s2 = fs_bytes s1" using s1(2) staysD(1) [of s s2] by (simp_all add: s2_def fs_bytes_def)
  have f2: "file_ok s2 ?ino" "contents s2 ?ino = contents s1 ?ino"
    using s1(3) by (simp_all add: file_ok_def s2_def file_block_def[abs_def] fs_bytes_def contents_def file_addr_def disk_addr_def)
  have fd2: "fd_at n s2 = Some fd" using assms(2) by (auto simp: fd_at_def s2_def split: if_splits)
  have len: "0 \<le> sint len" "read_size fd len = unat len"
    using sint_small [of len] file_size [OF assms(1,3)] assms(4) by (auto simp: read_size_def)
  obtain s3 where s3: "read_file n target len s2 = Some (len, s3)" "got s2 s3 ?ino ?p (unat len) target"
    using read_file_spec [OF s2(2) fd2 f2(1) _ len(1), unfolded len(2)] usableD [OF assms(6) [folded usable_stays [OF s2(1)]]]
      assms(4,7) staysD(2) [OF s2(1)] by auto
  have "buffer_bytes s3 target (unat len) = take (unat len) (drop ?p (contents s1 ?ino))"
    using got_contents [OF s3(2) assms(4)] f2(2) by simp
  also have "\<dots> = buffer_bytes s buffer (unat len)"
    unfolding contents_wrote [OF assms(1,3,4) s1(4,6)] using assms(4) by (simp add: buffer_bytes_def contents_def)
  finally show ?thesis using s1(1) sk s3(1) by blast
qed

theorem write_seek_read_witness:
  "\<exists>s s1 s2 s3. fs_ok s \<and> write_file 0 0x4400020 40 s = Some (40, s1) \<and> fseek 0 10 SEEK_SET s1 = Some s2 \<and>
     read_file 0 0x4400048 40 s2 = Some (40, s3) \<and> buffer_bytes s3 0x4400048 40 = buffer_bytes s 0x4400020 40"
proof -
  obtain a where a: "fs_ok (example_fs a 10)" "file_ok (example_fs a 10) (fd_inode (example_fd 10))" "usable (example_fs a 10) 0x4400020 96"
    using example_fs_ok .
  have u: "usable (example_fs a 10) 0x4400020 (unat (40 :: u32))" using usable_mono [OF a(3)] by simp
  have v: "usable (example_fs a 10) 0x4400048 (unat (40 :: u32))"
    using usable_tail [of "example_fs a 10" "0x4400020" 40 56] a(3) by (auto intro: usable_mono)
  show ?thesis using write_seek_read [OF a(1) _ a(2) _ u v, of 0] a by auto
qed

text \<open>
  C37. \<open>read\<close> of a request shorter than a block that spans two blocks copies too much: the second round
  copies as many bytes as the whole request asks for, so the bytes behind the buffer are overwritten
  and the position moves past the request, while the length asked for is returned.
\<close>

theorem read_overruns_buffer:
  assumes "fs_ok s" and "fd_at n s = Some fd" and "file_ok s (fd_inode fd)"
    and "unat (fd_pos fd) + unat len \<le> unat (i_size (fd_inode fd))"
    and "excess = bsz s - unat (fd_pos fd) mod bsz s" and "excess < unat len" "unat len < bsz s"
    and "usable s buffer (excess + unat len)"
  shows "\<exists>s'. read_file n buffer len s = Some (len, s') \<and> 0 < excess \<and>
     fd_at n s' = Some (fd\<lparr>fd_pos := fd_pos fd + len + of_nat excess\<rparr>) \<and>
     buffer_bytes s' buffer (unat len + excess) =
       map (\<lambda>j. fs_bytes s (file_addr s (fd_inode fd) (unat (fd_pos fd) + j))) [0..<unat len + excess]"
proof -
  obtain s' where s': "read_file n buffer len s = Some (len, s')"
     "file_descriptor_table s' = (file_descriptor_table s)(unat n := fd\<lparr>fd_pos := fd_pos fd + of_nat (excess + unat len)\<rparr>)"
     "got s s' (fd_inode fd) (unat (fd_pos fd)) (excess + unat len) buffer"
    using read_two_blocks [OF assms(1-4), folded assms(5), OF assms(6-8)] by blast
  have "0 < excess" using assms(5) file_size(3) [OF assms(1,3)] by simp
  then show ?thesis using s'(1) fd_at_upd [OF assms(2) s'(2)] gotD(1) [OF s'(3)] by (auto simp: buffer_bytes_def ac_simps)
qed

theorem read_overruns_buffer_witness:
  "\<exists>s s'. fs_ok s \<and> read_file 0 0x4400020 40 s = Some (40, s') \<and> fd_at 0 s' = Some (example_fd 104)"
proof -
  obtain a where a: "fs_ok (example_fs a 50)" "file_ok (example_fs a 50) (fd_inode (example_fd 50))" "usable (example_fs a 50) 0x4400020 96"
    using example_fs_ok .
  have u: "usable (example_fs a 50) 0x4400020 (14 + unat (40 :: u32))" using usable_mono [OF a(3)] by simp
  have "(example_fd 50)\<lparr>fd_pos := 104\<rparr> = example_fd 104" by (simp add: example_fd_def)
  then show ?thesis using read_overruns_buffer [OF a(1) _ a(2) _ _ _ _ u, of 0] a by auto
qed

text \<open>
  What \<open>write_inode\<close> stores is what \<open>read_inode\<close> reads: kind, links and size come back, converted
  to big endian and back, and the table of blocks is found behind them.
\<close>

theorem write_inode_read_inode:
  assumes "fs_ok s" and "unat (i_index inode) < nblocks s" and "i_size inode \<le> max_file_size (filesystem s)"
  shows "\<exists>s1 s2. write_inode inode s = Some s1 \<and>
     read_inode (i_index inode) s1 = Some (inode\<lparr>i_blocks := disk_addr s (unat (i_index inode)) 12\<rparr>, s2) \<and> fs_bytes s2 = fs_bytes s1"
proof -
  define c where "c = disk_addr s (unat (i_index inode)) 0"
  have "16 \<le> bsz s" using assms(1) by (simp add: fs_ok_def)
  then have top: "unat c + 16 \<le> 2 ^ 63"
    using disk_addr_unat(3) [OF assms(1,2), of 0] heap_ok_begin [of "fs_mem s"] assms(1) by (auto simp: c_def fs_ok_def)
  have u: "unat (c + 4) = unat c + 4" "unat (c + 8) = unat c + 8" using top by (simp_all add: unat_word_ariths)
  define m where "m = store32 (c + 8) (switch_endianness (i_size inode)) (store32 (c + 4) (switch_endianness (i_nlink inode))
     (store32 c (switch_endianness (i_kind inode)) (fs_bytes s)))"
  have m: "load32 m c = switch_endianness (i_kind inode)" "load32 m (c + 4) = switch_endianness (i_nlink inode)"
    "load32 m (c + 8) = switch_endianness (i_size inode)"
    using u top by (simp_all add: m_def load32_store32 load32_store32_other)
  note a = block_addr [OF assms(1,2), folded c_def]
  define s1 where "s1 = s\<lparr>filesystem := (filesystem s)\<lparr>seek_cursor := c\<rparr>, fs_mem := (fs_mem s)\<lparr>heap := m\<rparr>\<rparr>"
  have "write_inode inode s = Some s1"
    using assms(2) by (simp add: write_inode_def seek_block_def assert_bind word_less_nat_alt a upd_bytes_def s1_def m_def fs_bytes_def)
  moreover have "disk_addr s (unat (i_index inode)) 12 = c + 12" by (simp add: c_def disk_addr_def)
  then have "read_inode (i_index inode) s1 = Some (inode\<lparr>i_blocks := disk_addr s (unat (i_index inode)) 12\<rparr>, s1)"
    using assms(2,3)
    by (simp add: read_inode_def seek_block_def assert_bind word_less_nat_alt a s1_def fs_bytes_def m)
  ultimately show ?thesis by blast
qed

theorem write_inode_read_inode_witness:
  "\<exists>s s1 s2. fs_ok s \<and> write_inode (fd_inode (example_fd 0)) s = Some s1 \<and>
     read_inode 1 s1 = Some (fd_inode (example_fd 0), s2)"
proof -
  obtain a where a: "fs_ok (example_fs a 0)" using example_fs_ok .
  have i: "i_index (fd_inode (example_fd 0)) = 1" "max_file_size (filesystem (example_fs a 0)) = 832" by (simp_all add: example_fd_def example_fs_def)
  have "(fd_inode (example_fd 0))\<lparr>i_blocks := 0x400004c\<rparr> = fd_inode (example_fd 0)" by (simp add: example_fd_def)
  then show ?thesis using write_inode_read_inode [OF a, of "fd_inode (example_fd 0)"] a by (auto simp: i)
qed

text \<open>
  \<open>filename_match\<close> compares the first component of a path, up to a slash or its end, with a name of
  at most 28 characters without a slash: it returns the length of the name when they are equal, and
  otherwise \<open>-1\<close>.
\<close>

theorem filename_match_component:
  assumes "cstring m path xs" and "cstring m dirname ys" and "length ys \<le> FILENAME_MAX_SIZE" and "47 \<notin> set ys"
  shows "filename_match path dirname m = (if takeWhile (\<lambda>c. c \<noteq> 47) xs = ys then int (length ys) else -1)"
  using match_from_spec [of m path 0 xs dirname ys] assms by (simp add: filename_match_def)

theorem filename_match_component_witness:
  "\<exists>m. cstring m 100 [97, 98, 47, 99] \<and> cstring m 200 [97, 98] \<and> filename_match 100 200 m = 2"
proof -
  define m :: bytes where "m = (\<lambda>_. 0)(100 := 97, 101 := 98, 102 := 47, 103 := 99, 200 := 97, 201 := 98)"
  have c: "cstring m 100 [97, 98, 47, 99]" "cstring m 200 [97, 98]" by (simp_all add: m_def)
  show ?thesis using filename_match_component [OF c] c by auto
qed

end
