(* ===== verification/Fs_Service_Props.thy ===== *)
theory Fs_Service_Props
  imports Fs_Service Fs_Props
begin

text \<open>
  Programs and the manager of the file system together. \<open>serving\<close> is the state of the manager in which a
  descriptor is open; each call of the library keeps it and acts on the contents of the file.
\<close>

section \<open>Requests\<close>

lemma load_fs_request:
  assumes "unat q + 1024 \<le> 2 ^ 64"
  shows "load 4 (fs_request q code fd data1 data2 m) q = take_bit 32 code"
    "load 4 (fs_request q code fd data1 data2 m) (q + 4) = ucast fd"
    "load 8 (fs_request q code fd data1 data2 m) (q + 8) = data1"
    "load 8 (fs_request q code fd data1 data2 m) (q + 16) = data2"
    "\<not> span q 1024 x \<Longrightarrow> fs_request q code fd data1 data2 m x = m x"
proof -
  have u: "unat (q + 4) = unat q + 4" "unat (q + 8) = unat q + 8" "unat (q + 16) = unat q + 16"
    using assms by (simp_all add: unat_word_ariths)
  note [simp] = load_store_other load_store_same take_bit_word_eq_self
  show "load 4 (fs_request q code fd data1 data2 m) q = take_bit 32 code" using assms u by (simp add: fs_request_def)
  have "take_bit 32 (ucast fd :: u64) = ucast fd" by (rule bit_word_eqI) (auto simp: bit_simps dest: bit_imp_le_length)
  then show "load 4 (fs_request q code fd data1 data2 m) (q + 4) = ucast fd" using assms u by (simp add: fs_request_def)
  show "load 8 (fs_request q code fd data1 data2 m) (q + 8) = data1" using assms u by (simp add: fs_request_def)
  show "load 8 (fs_request q code fd data1 data2 m) (q + 16) = data2" by (simp add: fs_request_def)
  show "fs_request q code fd data1 data2 m x = m x" if "\<not> span q 1024 x"
  proof -
    have "\<not> span (q + 16) 8 x" "\<not> span (q + 8) 8 x" "\<not> span (q + 4) 4 x" "\<not> span q 4 x" using that u by (auto simp: span_def)
    then show ?thesis using that assms u by (simp add: fs_request_def store_outside zeroed_def)
  qed
qed

section \<open>The manager at work on an open file\<close>

definition serving :: "frame \<Rightarrow> u32 \<Rightarrow> file_descriptor \<Rightarrow> 'k fs_manager \<Rightarrow> bool" where
  "serving fr n fd d \<longleftrightarrow> fr_request fr \<noteq> 0 \<and> fr_response fr \<noteq> 0 \<and> fs_ok (fs_of d) \<and> fd_at n (fs_of d) = Some fd \<and>
     file_ok (fs_of d) (fd_inode fd) \<and> usable (fs_of d) (fr_request fr) 1024 \<and> usable (fs_of d) (fr_response fr) 500"

definition delivered :: "frame \<Rightarrow> u8 list \<Rightarrow> (mailbox, fs_state) manager \<Rightarrow> (mailbox, fs_state) manager" where
  "delivered fr msg d = \<lparr>con_mem = put_message (fr_request fr) msg (con_mem d),
     device = (device d)\<lparr>world := \<lparr>pending = [], replies = []\<rparr>\<rparr>\<rparr>"

lemma fs_of_simps [simp]: "fs_bytes (fs_of d) = con_mem d" "fs_of (put_fs t d) = t" "con_mem (put_fs t d) = fs_bytes t"
    "fs_of (s\<lparr>device := (device s)\<lparr>world := w\<rparr>\<rparr>) = fs_of s"
  by (simp_all add: fs_of_def put_fs_def fs_bytes_def upd_bytes_def)

lemma serving_delivered:
  assumes "serving fr n fd d" and "length msg = 1024"
  shows "serving fr n fd (delivered fr msg d)" "contents (fs_of (delivered fr msg d)) (fd_inode fd) = contents (fs_of d) (fd_inode fd)"
    "stays (fs_of d) (fs_of (delivered fr msg d))"
proof -
  let ?m = "put_message (fr_request fr) msg (con_mem d)"
  have e: "fs_of (delivered fr msg d) = upd_bytes (\<lambda>_. ?m) (fs_of d)" by (simp add: fs_of_def delivered_def upd_bytes_def)
  note A = assms(1) [unfolded serving_def]
  have u: "unat (fr_request fr) + 1024 \<le> 2 ^ 64" "\<And>y. span (fr_request fr) 1024 y \<Longrightarrow> owned (fs_mem (fs_of d)) y \<and> \<not> on_disk (fs_of d) y"
    using A usableD by blast+
  have out: "?m y = con_mem d y" if "\<not> span (fr_request fr) 1024 y" for y
    using put_message_outside [of "fr_request fr" msg y] u(1) assms(2) that by simp
  show st: "stays (fs_of d) (fs_of (delivered fr msg d))"
    unfolding e by (rule fs_ok_write) (use A u(2) out in auto)
  have "fs_bytes (fs_of (delivered fr msg d)) y = fs_bytes (fs_of d) y" if "on_disk (fs_of d) y" for y
    using out u(2) that by (auto simp: delivered_def)
  note F = file_write_elsewhere [OF _ _ stays_same_disk [OF st] this, of "fd_inode fd"]
  show "contents (fs_of (delivered fr msg d)) (fd_inode fd) = contents (fs_of d) (fd_inode fd)" using F A by simp
  have "fd_at n (fs_of (delivered fr msg d)) = Some fd" using A by (auto simp: e fd_at_def upd_bytes_def split: if_splits)
  then show "serving fr n fd (delivered fr msg d)" unfolding serving_def using A F(1) usable_stays [OF st] staysD(1) [OF st] by simp
qed

lemma fs_call:
  assumes "q \<noteq> 0" and "fs_switch LOG_LEVEL fr manager_svc (ucast (of_nat self :: u64)) (delivered fr (message_bytes (con_mem s) q 1024) (device s)) = Some (0, d)"
    and "replies (world (device d)) = [(code, ack)]"
  shows "send (rendezvous (fs_round LOG_LEVEL fr manager_svc) self) 4 q 1024 a asz True s =
     Some (ucast code, \<lparr>con_mem = put_message a (take (unat asz) ack) (con_mem s), device = d\<rparr>)"
  using assms by (simp add: send_def svc_int_def rendezvous_def fs_round_def receive_def manager_svc_def length_message delivered_def)

text \<open>A request to the manager with code \<open>code\<close>, from a client whose request is at \<open>q\<close>.\<close>

lemma delivered_request:
  fixes d0 :: "(mailbox, fs_state) manager" and n :: u32
  assumes "fr_request fr \<noteq> 0" and "q \<noteq> 0" and "load 4 m q = code" "load 4 m (q + 4) = ucast n" "load 8 m (q + 8) = data1" "load 8 m (q + 16) = data2"
  defines "d \<equiv> delivered fr (message_bytes m q 1024) d0"
  shows "load 4 (con_mem d) (fr_request fr) = code" "ucast (load 4 (con_mem d) (fr_request fr + 4)) = n"
    "load 8 (con_mem d) (fr_request fr + 8) = data1" "load 8 (con_mem d) (fr_request fr + 16) = data2"
    "i < 1024 \<Longrightarrow> con_mem d (fr_request fr + of_nat i) = m (q + of_nat i)"
proof -
  have u: "ucast (ucast n :: u64) = n" by (rule bit_word_eqI) (auto simp: bit_simps)
  show "load 4 (con_mem d) (fr_request fr) = code" "ucast (load 4 (con_mem d) (fr_request fr + 4)) = n"
    "load 8 (con_mem d) (fr_request fr + 8) = data1" "load 8 (con_mem d) (fr_request fr + 16) = data2"
    using delivered_load [OF assms(2,1), of 0 4 1024 m "con_mem d0"] delivered_load [OF assms(2,1), of 4 4 1024 m "con_mem d0"]
      delivered_load [OF assms(2,1), of 8 8 1024 m "con_mem d0"] delivered_load [OF assms(2,1), of 16 8 1024 m "con_mem d0"] assms(3-6) u
    by (simp_all add: d_def delivered_def)
  show "i < 1024 \<Longrightarrow> con_mem d (fr_request fr + of_nat i) = m (q + of_nat i)"
    using delivered_at [OF assms(2,1), of i 1024 m "con_mem d0"] by (simp add: d_def delivered_def)
qed

lemma usable_part:
  assumes "usable s a n" and "i + k \<le> n" 
  shows "usable s (a + of_nat i) k"
proof (cases "k = 0")
  case False
  then have "unat (a + of_nat i) = unat a + i" using unat_add_lt [of a n i] usableD(1) [OF assms(1)] assms(2) by simp
  then show ?thesis using assms by (auto simp: usable_def span_def)
next
  case True
  have "unat (a + of_nat i) < 2 ^ 64" using unsigned_less [of "a + of_nat i"] by simp
  then show ?thesis using True by (auto simp: usable_def span_def)
qed

lemma fs_switch_write:
  assumes sv: "serving fr n fd d" and log: "LOG_LEVEL < 5"
    and code: "load 4 (con_mem d) (fr_request fr) = 4" "ucast (load 4 (con_mem d) (fr_request fr + 4)) = n"
      "load 8 (con_mem d) (fr_request fr + 8) = b"
    and b: "unat b \<le> 500" "unat (fd_pos fd) + unat b \<le> unat (i_size (fd_inode fd))"
  shows "\<exists>d'. fs_switch LOG_LEVEL fr manager_svc sender d = Some (0, d') \<and>
     replies (world (device d')) = replies (world (device d)) @ [(b, [])] \<and> serving fr n (fd\<lparr>fd_pos := fd_pos fd + ucast b\<rparr>) d' \<and> bsz (fs_of d') = bsz (fs_of d) \<and>
     contents (fs_of d') (fd_inode fd) = take (unat (fd_pos fd)) (contents (fs_of d) (fd_inode fd)) @
       map (\<lambda>j. con_mem d (fr_request fr + 24 + of_nat j)) [0..<unat b] @ drop (unat (fd_pos fd) + unat b) (contents (fs_of d) (fd_inode fd))"
proof -
  note A = sv [unfolded serving_def]
  let ?len = "ucast b :: u32"
  have lb: "unat ?len = unat b" "scast ?len = b" using small_casts [of b] b(1) by simp_all
  have us: "usable (fs_of d) (fr_request fr + 24) (unat ?len)"
    using usable_part [of "fs_of d" "fr_request fr" 1024 24 "unat ?len"] A lb(1) b(1) by simp
  have le: "unat (fd_pos fd) + unat ?len \<le> unat (i_size (fd_inode fd))" using b(2) lb(1) by simp
  have A': "fs_ok (fs_of d)" "fd_at n (fs_of d) = Some fd" "file_ok (fs_of d) (fd_inode fd)" using A by simp_all
  obtain t where t: "write_file n (fr_request fr + 24) ?len (fs_of d) = Some (?len, t)" "stays (fs_of d) t" "file_ok t (fd_inode fd)"
     "\<forall>i<unat (i_size (fd_inode fd)). file_addr t (fd_inode fd) i = file_addr (fs_of d) (fd_inode fd) i"
     "file_descriptor_table t = (file_descriptor_table (fs_of d))(unat n := fd\<lparr>fd_pos := fd_pos fd + ?len\<rparr>)"
     "wrote (fs_of d) t (fd_inode fd) (unat (fd_pos fd)) (unat ?len) (fr_request fr + 24)"
    using write_file_spec [OF A' le usableD [OF us]] by blast
  define d' where "d' = (put_fs t d)\<lparr>device := (device (put_fs t d))\<lparr>world := (world (device d))\<lparr>replies := replies (world (device d)) @ [(b, [])]\<rparr>\<rparr>\<rparr>"
  have "fs_switch LOG_LEVEL fr manager_svc sender d = Some (0, d')"
    using t(1) lb(2) by (simp add: fs_switch_def code log_verbose_off [OF log] on_fs_def fwrite_def acknowledge_manager cast_back d'_def put_fs_def)
  moreover have "fs_of d' = t" by (simp add: d'_def)
  moreover have "fd_at n t = Some (fd\<lparr>fd_pos := fd_pos fd + ?len\<rparr>)" using fd_at_upd [OF A'(2) t(5)] .
  ultimately show ?thesis
    using A t(3) usable_stays [OF t(2)] staysD(1,2) [OF t(2)] contents_wrote [OF A'(1,3) le t(4,6)]
    by (simp add: serving_def lb(1) d'_def put_fs_def)
qed

lemma fs_switch_seek:
  assumes sv: "serving fr n fd d" and log: "LOG_LEVEL < 5"
    and code: "load 4 (con_mem d) (fr_request fr) = 2" "ucast (load 4 (con_mem d) (fr_request fr + 4)) = n"
      "load 8 (con_mem d) (fr_request fr + 8) = scast off" "load 8 (con_mem d) (fr_request fr + 16) = 0"
    and off: "off \<le> i_size (fd_inode fd)"
  shows "\<exists>d'. fs_switch LOG_LEVEL fr manager_svc sender d = Some (0, d') \<and>
     replies (world (device d')) = replies (world (device d)) @ [(0, [])] \<and> serving fr n (fd\<lparr>fd_pos := off\<rparr>) d' \<and> bsz (fs_of d') = bsz (fs_of d) \<and>
     contents (fs_of d') (fd_inode fd) = contents (fs_of d) (fd_inode fd)"
proof -
  note A = sv [unfolded serving_def]
  define t where "t = (fs_of d)\<lparr>file_descriptor_table := (file_descriptor_table (fs_of d))(unat n := fd\<lparr>fd_pos := off\<rparr>)\<rparr>"
  have fd: "fd_at n (fs_of d) = Some fd" using A by simp
  have sk: "fseek n off SEEK_SET (fs_of d) = Some t"
    using fd off fd_atD [OF fd] by (simp add: fseek_def assert_bind fd_upd_def t_def)
  define d' where "d' = (put_fs t d)\<lparr>device := (device (put_fs t d))\<lparr>world := (world (device d))\<lparr>replies := replies (world (device d)) @ [(0, [])]\<rparr>\<rparr>\<rparr>"
  have "fs_switch LOG_LEVEL fr manager_svc sender d = Some (0, d')"
    using sk by (simp add: fs_switch_def code log_verbose_off [OF log] seek_of_def on_fs_def acknowledge_manager cast_back d'_def put_fs_def)
  moreover have "fs_of d' = t" by (simp add: d'_def)
  moreover have "stays (fs_of d) t" using stays_refl [of "fs_of d"] A by (simp add: t_def)
  moreover have "fd_at n t = Some (fd\<lparr>fd_pos := off\<rparr>)" using fd_atD [OF fd] by (simp add: fd_at_def t_def)
  moreover have "file_ok t (fd_inode fd)" "contents t (fd_inode fd) = contents (fs_of d) (fd_inode fd)"
    using A by (simp_all add: file_ok_def t_def file_block_def [abs_def] fs_bytes_def contents_def file_addr_def disk_addr_def)
  ultimately show ?thesis using A usable_stays [of "fs_of d" t] staysD(1,2) [of "fs_of d" t]
    by (simp add: serving_def d'_def put_fs_def)
qed

lemma fs_switch_read:
  assumes sv: "serving fr n fd d" and log: "LOG_LEVEL < 5"
    and code: "load 4 (con_mem d) (fr_request fr) = 3" "ucast (load 4 (con_mem d) (fr_request fr + 4)) = n"
      "load 8 (con_mem d) (fr_request fr + 8) = b"
    and b: "unat b \<le> 500" "unat (fd_pos fd) + unat b \<le> unat (i_size (fd_inode fd))"
      "bsz (fs_of d) dvd unat (fd_pos fd) + unat b \<or> unat (fd_pos fd) mod bsz (fs_of d) + unat b \<le> bsz (fs_of d)"
  shows "\<exists>d' ack. fs_switch LOG_LEVEL fr manager_svc sender d = Some (0, d') \<and>
     replies (world (device d')) = replies (world (device d)) @ [(b, ack)] \<and> length ack = 500 \<and>
     take (unat b) ack = take (unat b) (drop (unat (fd_pos fd)) (contents (fs_of d) (fd_inode fd))) \<and>
     serving fr n (fd\<lparr>fd_pos := fd_pos fd + ucast b\<rparr>) d' \<and> contents (fs_of d') (fd_inode fd) = contents (fs_of d) (fd_inode fd)"
proof -
  note A = sv [unfolded serving_def]
  let ?len = "ucast b :: u32"
  have lb: "unat ?len = unat b" "scast ?len = b" using small_casts [of b] b(1) by simp_all
  have A': "fs_ok (fs_of d)" "fd_at n (fs_of d) = Some fd" "file_ok (fs_of d) (fd_inode fd)" using A by simp_all
  have len: "0 \<le> sint ?len" "read_size fd ?len = unat b"
    using sint_small [of ?len] b lb by (auto simp: read_size_def)
  have us: "usable (fs_of d) (fr_response fr) (unat b)"
    using usable_part [of "fs_of d" "fr_response fr" 500 0 "unat b"] A b(1) by simp
  have r: "(of_nat (unat b) :: u32) = ?len" using lb(1) by (metis of_nat_unat ucast_id)
  obtain t where t: "read_file n (fr_response fr) ?len (fs_of d) = Some (?len, t)" "stays (fs_of d) t"
     "file_descriptor_table t = (file_descriptor_table (fs_of d))(unat n := fd\<lparr>fd_pos := fd_pos fd + ?len\<rparr>)"
     "got (fs_of d) t (fd_inode fd) (unat (fd_pos fd)) (unat b) (fr_response fr)"
    using read_file_spec [OF A' _ len(1), unfolded len(2) r] usableD [OF us] b by auto
  define ack where "ack = message_bytes (fs_bytes t) (fr_response fr) 500"
  define d' where "d' = (put_fs t d)\<lparr>device := (device (put_fs t d))\<lparr>world := (world (device d))\<lparr>replies := replies (world (device d)) @ [(b, ack)]\<rparr>\<rparr>\<rparr>"
  have "fs_switch LOG_LEVEL fr manager_svc sender d = Some (0, d')"
    using t(1) lb(2) by (simp add: fs_switch_def code log_verbose_off [OF log] on_fs_def fread_def acknowledge_manager cast_back d'_def put_fs_def ack_def)
  moreover have "fs_of d' = t" by (simp add: d'_def)
  moreover have "fd_at n t = Some (fd\<lparr>fd_pos := fd_pos fd + ?len\<rparr>)" using fd_at_upd [OF A'(2) t(3)] .
  moreover have "file_ok t (fd_inode fd)" by (rule got_file(1) [OF A'(1,3) t(2,4)]) (use usableD(2) [OF us] in blast)
  moreover have "contents t (fd_inode fd) = contents (fs_of d) (fd_inode fd)" by (rule got_same_contents [OF A'(1,3) t(2,4) us])
  moreover have "take (unat b) ack = buffer_bytes t (fr_response fr) (unat b)"
    using A b(1) by (simp add: ack_def message_bytes_def buffer_bytes_def take_map min_def)
  then have "take (unat b) ack = take (unat b) (drop (unat (fd_pos fd)) (contents (fs_of d) (fd_inode fd)))"
    using got_contents [OF t(4) b(2)] by simp
  moreover have "length ack = 500" using A by (simp add: ack_def length_message)
  ultimately show ?thesis
    using A usable_stays [OF t(2)] staysD(1) [OF t(2)] by (intro exI [of _ d'] exI [of _ ack]) (simp add: serving_def d'_def put_fs_def)
qed

section \<open>Clients\<close>

definition fs_client :: "u64 \<Rightarrow> nat \<Rightarrow> bool" where
  "fs_client req LOG_LEVEL \<longleftrightarrow> req \<noteq> 0 \<and> unat req + 1024 \<le> 2 ^ 64 \<and> LOG_LEVEL < 5"

abbreviation (input) fs_svc :: "nat \<Rightarrow> frame \<Rightarrow> nat \<Rightarrow> (mailbox, fs_state) manager svc_instr" where
  "fs_svc LOG_LEVEL fr self \<equiv> rendezvous (fs_round LOG_LEVEL fr manager_svc) self"

lemma useek_serves:
  assumes c: "fs_client req LOG_LEVEL" and sv: "serving fr n fd (device s)" and off: "off \<le> i_size (fd_inode fd)"
  shows "\<exists>s'. useek (fs_svc LOG_LEVEL fr self) req n off 0 s = Some s' \<and> serving fr n (fd\<lparr>fd_pos := off\<rparr>) (device s') \<and>
     bsz (fs_of (device s')) = bsz (fs_of (device s)) \<and> contents (fs_of (device s')) (fd_inode fd) = contents (fs_of (device s)) (fd_inode fd) \<and>
     (\<forall>y. \<not> span req 1024 y \<longrightarrow> con_mem s' y = con_mem s y)"
proof -
  have q: "req \<noteq> 0" "unat req + 1024 \<le> 2 ^ 64" "LOG_LEVEL < 5" using c by (simp_all add: fs_client_def)
  have R: "fr_request fr \<noteq> 0" using sv by (simp add: serving_def)
  define m where "m = fs_request req 2 n (scast off) 0 (con_mem s)"
  note L = load_fs_request(1-4) [OF q(2), of 2 n "scast off" 0 "con_mem s", folded m_def]
  define d where "d = delivered fr (message_bytes m req 1024) (device s)"
  note D = serving_delivered [OF sv, of "message_bytes m req 1024", folded d_def]
  note G = delivered_request(1-4) [OF R q(1) L, of "device s", folded d_def]
  have len: "length (message_bytes m req 1024) = 1024" using length_message [OF q(1)] by simp
  obtain d' where d': "fs_switch LOG_LEVEL fr manager_svc (ucast (of_nat self :: u64)) d = Some (0, d')"
     "replies (world (device d')) = replies (world (device d)) @ [(0, [])]" "serving fr n (fd\<lparr>fd_pos := off\<rparr>) d'" "bsz (fs_of d') = bsz (fs_of d)"
     "contents (fs_of d') (fd_inode fd) = contents (fs_of d) (fd_inode fd)"
    using fs_switch_seek [OF D(1) [OF len] q(3) _ G(2-4) off] G(1) by (auto simp: take_bit_eq_mod)
  have "send (fs_svc LOG_LEVEL fr self) 4 req 1024 0 0 True (s\<lparr>con_mem := m\<rparr>) = Some (0, \<lparr>con_mem = m, device = d'\<rparr>)"
    using fs_call [OF q(1), of LOG_LEVEL fr self "s\<lparr>con_mem := m\<rparr>" d' 0 "[]" 0 0] d'(1,2)
    by (simp add: d_def delivered_def put_message_def)
  then show ?thesis using d' D(2) [OF len] staysD(2) [OF D(3) [OF len]] load_fs_request(5) [OF q(2)] by (simp add: useek_def upd_mem_def m_def)
qed

lemma uwrite_serves:
  assumes c: "fs_client req LOG_LEVEL" and sv: "serving fr n fd (device s)"
    and b: "unat b \<le> 500" "unat (fd_pos fd) + unat b \<le> unat (i_size (fd_inode fd))"
    and buf: "\<And>i. i < unat b \<Longrightarrow> \<not> span req 1024 (buf + of_nat i)"
  shows "\<exists>s'. uwrite (fs_svc LOG_LEVEL fr self) req err n buf b s = Some (b, s') \<and>
     serving fr n (fd\<lparr>fd_pos := fd_pos fd + ucast b\<rparr>) (device s') \<and> bsz (fs_of (device s')) = bsz (fs_of (device s)) \<and>
     contents (fs_of (device s')) (fd_inode fd) = take (unat (fd_pos fd)) (contents (fs_of (device s)) (fd_inode fd)) @
       map (\<lambda>j. con_mem s (buf + of_nat j)) [0..<unat b] @ drop (unat (fd_pos fd) + unat b) (contents (fs_of (device s)) (fd_inode fd)) \<and>
     (\<forall>y. \<not> span req 1024 y \<longrightarrow> con_mem s' y = con_mem s y)"
proof -
  have q: "req \<noteq> 0" "unat req + 1024 \<le> 2 ^ 64" "LOG_LEVEL < 5" using c by (simp_all add: fs_client_def)
  have R: "fr_request fr \<noteq> 0" using sv by (simp add: serving_def)
  define m0 where "m0 = fs_request req 4 n b 0 (con_mem s)"
  define m where "m = memmove (req + 24) buf b m0"
  have rq: "unat (req + of_nat j) = unat req + j" if "j < 1024" for j using unat_add_lt [OF q(2) that] .
  have rs: "span req 1024 (req + of_nat j)" if "j < 1024" for j using rq [OF that] that by (simp add: span_def)
  have "buf + of_nat i \<noteq> req + 24 + of_nat j" if "i < unat b" "j < unat b" for i j
    using buf [OF that(1)] rs [of "24 + j"] that(2) b(1) by (auto simp: add.assoc)
  note mv = memmove_disjoint [of b buf "req + 24" m0, OF this, folded m_def]
  have m_out: "m y = m0 y" if "\<not> span (req + 24) (unat b) y" for y
  proof -
    have "unat (req + 24) + unat b \<le> 2 ^ 64" using rq [of 24] q(2) b(1) by simp
    from unat_sub_ge [OF this that] show ?thesis using mv [of y] by simp
  qed
  have m_in: "m (req + 24 + of_nat j) = con_mem s (buf + of_nat j)" if "j < unat b" for j
  proof -
    have "unat (of_nat j :: u64) = j" using that b(1) by (simp add: unat_of_nat)
    then show ?thesis using mv [of "req + 24 + of_nat j"] load_fs_request(5) [OF q(2) buf [OF that]] that by (simp add: m0_def)
  qed
  have out: "m y = con_mem s y" if "\<not> span req 1024 y" for y
  proof -
    have "\<not> span (req + 24) (unat b) y" using that rq [of 24] b(1) by (auto simp: span_def)
    then show ?thesis using m_out load_fs_request(5) [OF q(2) that] by (simp add: m0_def)
  qed
  have ld: "load k m (req + of_nat j) = load k m0 (req + of_nat j)" if "j + k \<le> 24" for j k
  proof (rule load_cong)
    show "unat (req + of_nat j) + k \<le> 2 ^ 64" using rq [of j] that q(2) by simp
    show "m x = m0 x" if "span (req + of_nat j) k x" for x
      by (rule m_out) (use that \<open>j + k \<le> 24\<close> rq [of j] rq [of 24] in \<open>auto simp: span_def\<close>)
  qed
  note L0 = load_fs_request(1-4) [OF q(2), of 4 n b 0 "con_mem s", folded m0_def]
  have L: "load 4 m req = 4" "load 4 m (req + 4) = ucast n" "load 8 m (req + 8) = b" "load 8 m (req + 16) = 0"
    using ld [of 0 4] ld [of 4 4] ld [of 8 8] ld [of 16 8] L0 by (simp_all add: take_bit_eq_mod)
  define d where "d = delivered fr (message_bytes m req 1024) (device s)"
  note D = serving_delivered [OF sv, of "message_bytes m req 1024", folded d_def]
  note G = delivered_request(1-4) [OF R q(1) L, of "device s", folded d_def]
  have len: "length (message_bytes m req 1024) = 1024" using length_message [OF q(1)] by simp
  obtain d' where d': "fs_switch LOG_LEVEL fr manager_svc (ucast (of_nat self :: u64)) d = Some (0, d')"
     "replies (world (device d')) = replies (world (device d)) @ [(b, [])]" "serving fr n (fd\<lparr>fd_pos := fd_pos fd + ucast b\<rparr>) d'" "bsz (fs_of d') = bsz (fs_of d)"
     "contents (fs_of d') (fd_inode fd) = take (unat (fd_pos fd)) (contents (fs_of d) (fd_inode fd)) @
       map (\<lambda>j. con_mem d (fr_request fr + 24 + of_nat j)) [0..<unat b] @ drop (unat (fd_pos fd) + unat b) (contents (fs_of d) (fd_inode fd))"
    using fs_switch_write [OF D(1) [OF len] q(3) G(1-3) b] by blast
  have "con_mem d (fr_request fr + 24 + of_nat j) = con_mem s (buf + of_nat j)" if "j < unat b" for j
    using delivered_request(5) [OF R q(1) L, of "24 + j" "device s"] m_in [OF that] that b(1) by (simp add: d_def add.assoc)
  then have "map (\<lambda>j. con_mem d (fr_request fr + 24 + of_nat j)) [0..<unat b] = map (\<lambda>j. con_mem s (buf + of_nat j)) [0..<unat b]" by simp
  moreover have "send (fs_svc LOG_LEVEL fr self) 4 req 1024 0 0 True (s\<lparr>con_mem := m\<rparr>) = Some (ucast b, \<lparr>con_mem = m, device = d'\<rparr>)"
    using fs_call [OF q(1), of LOG_LEVEL fr self "s\<lparr>con_mem := m\<rparr>" d' b "[]" 0 0] d'(1,2)
    by (simp add: d_def delivered_def put_message_def)
  moreover have "\<not> b > 500" using b(1) by (simp add: word_less_nat_alt)
  ultimately show ?thesis using d' D(2) [OF len] staysD(2) [OF D(3) [OF len]] out small_casts(2) [of b] b(1)
    by (simp add: uwrite_def upd_mem_def m_def m0_def)
qed

lemma uread_serves:
  assumes c: "fs_client req LOG_LEVEL" and sv: "serving fr n fd (device s)"
    and b: "unat b \<le> 500" "unat (fd_pos fd) + unat b \<le> unat (i_size (fd_inode fd))"
      "bsz (fs_of (device s)) dvd unat (fd_pos fd) + unat b \<or> unat (fd_pos fd) mod bsz (fs_of (device s)) + unat b \<le> bsz (fs_of (device s))"
    and resp: "resp \<noteq> 0" "unat resp + 500 \<le> 2 ^ 64" "\<And>y. span req 1024 y \<Longrightarrow> \<not> span resp 500 y"
    and buf: "\<And>i. i < unat b \<Longrightarrow> \<not> span resp 500 (buf + of_nat i)"
  shows "\<exists>s'. uread (fs_svc LOG_LEVEL fr self) req resp n buf b s = Some (b, s') \<and>
     serving fr n (fd\<lparr>fd_pos := fd_pos fd + ucast b\<rparr>) (device s') \<and>
     contents (fs_of (device s')) (fd_inode fd) = contents (fs_of (device s)) (fd_inode fd) \<and>
     map (\<lambda>j. con_mem s' (buf + of_nat j)) [0..<unat b] = take (unat b) (drop (unat (fd_pos fd)) (contents (fs_of (device s)) (fd_inode fd)))"
proof -
  have q: "req \<noteq> 0" "unat req + 1024 \<le> 2 ^ 64" "LOG_LEVEL < 5" using c by (simp_all add: fs_client_def)
  have R: "fr_request fr \<noteq> 0" using sv by (simp add: serving_def)
  define m0 where "m0 = fs_request req 3 n b 0 (con_mem s)"
  define m where "m = zeroed resp 500 m0"
  have rq: "unat (req + of_nat j) = unat req + j" if "j < 1024" for j using unat_add_lt [OF q(2) that] .
  have ld: "load k m (req + of_nat j) = load k m0 (req + of_nat j)" if "j + k \<le> 24" for j k
  proof (rule load_cong)
    show "unat (req + of_nat j) + k \<le> 2 ^ 64" using rq [of j] that q(2) by simp
    show "m x = m0 x" if "span (req + of_nat j) k x" for x
      using that \<open>j + k \<le> 24\<close> rq [of j] resp(3) [of x] by (auto simp: span_def m_def zeroed_def)
  qed
  note L0 = load_fs_request(1-4) [OF q(2), of 3 n b 0 "con_mem s", folded m0_def]
  have L: "load 4 m req = 3" "load 4 m (req + 4) = ucast n" "load 8 m (req + 8) = b" "load 8 m (req + 16) = 0"
    using ld [of 0 4] ld [of 4 4] ld [of 8 8] ld [of 16 8] L0 by (simp_all add: take_bit_eq_mod)
  define d where "d = delivered fr (message_bytes m req 1024) (device s)"
  note D = serving_delivered [OF sv, of "message_bytes m req 1024", folded d_def]
  note G = delivered_request(1-4) [OF R q(1) L, of "device s", folded d_def]
  have len: "length (message_bytes m req 1024) = 1024" using length_message [OF q(1)] by simp
  have b3: "bsz (fs_of d) dvd unat (fd_pos fd) + unat b \<or> unat (fd_pos fd) mod bsz (fs_of d) + unat b \<le> bsz (fs_of d)"
    using b(3) staysD(2) [OF D(3) [OF len]] by simp
  obtain d' ack where d': "fs_switch LOG_LEVEL fr manager_svc (ucast (of_nat self :: u64)) d = Some (0, d')"
     "replies (world (device d')) = replies (world (device d)) @ [(b, ack)]" "length ack = 500"
     "take (unat b) ack = take (unat b) (drop (unat (fd_pos fd)) (contents (fs_of d) (fd_inode fd)))"
     "serving fr n (fd\<lparr>fd_pos := fd_pos fd + ucast b\<rparr>) d'" "contents (fs_of d') (fd_inode fd) = contents (fs_of d) (fd_inode fd)"
    using fs_switch_read [OF D(1) [OF len] q(3) G(1-3) b(1,2) b3] by blast
  define m1 where "m1 = put_message resp ack m"
  define m2 where "m2 = memmove buf resp b m1"
  have sd: "send (fs_svc LOG_LEVEL fr self) 4 req 1024 resp 500 True (s\<lparr>con_mem := m\<rparr>) = Some (ucast b, \<lparr>con_mem = m1, device = d'\<rparr>)"
    using fs_call [OF q(1), of LOG_LEVEL fr self "s\<lparr>con_mem := m\<rparr>" d' b ack resp 500] d'(1-3)
    by (simp add: d_def delivered_def m1_def)
  have "resp + of_nat i \<noteq> buf + of_nat j" if "i < unat b" "j < unat b" for i j
    using buf [OF that(2)] unat_add_lt [OF resp(2), of i] that(1) b(1) by (auto simp: span_def)
  note mv = memmove_disjoint [of b resp buf m1, OF this, folded m2_def]
  have "m2 (buf + of_nat j) = take (unat b) ack ! j" if "j < unat b" for j
  proof -
    have "unat (of_nat j :: u64) = j" using that b(1) by (simp add: unat_of_nat)
    then show ?thesis using mv [of "buf + of_nat j"] put_message_at [OF resp(1), of ack j] that b(1) d'(3) by (simp add: m1_def)
  qed
  then have "map (\<lambda>j. m2 (buf + of_nat j)) [0..<unat b] = take (unat b) ack"
    using d'(3) b(1) by (intro nth_equalityI) auto
  moreover have "uread (fs_svc LOG_LEVEL fr self) req resp n buf b s = Some (b, \<lparr>con_mem = m2, device = d'\<rparr>)"
    using sd small_casts(2) [of b] b(1) by (simp add: uread_def upd_mem_def m_def m0_def m2_def)
  ultimately show ?thesis using d'(4-6) D(2) [OF len] by auto
qed

text \<open>
  C28. Files as user programs see them: what a program writes with \<open>uwrite\<close> to an open file, it reads back
  with \<open>uread\<close> after \<open>useek\<close> to where it began. The request has at most 500 bytes, lies inside the file (it does not
  append, where \<open>extend_file\<close> goes wrong) and ends within the block where it begins or at a border of blocks (where
  \<open>read\<close> does not go too far). Each call is a message to the manager of the file system over the abstract channel
  \<open>rendezvous\<close>, which works on its disk and replies; \<open>Channel_Kernel\<close> relates the channel to the kernel.
\<close>

theorem file_service_write_read:
  assumes "fs_client req LOG_LEVEL" and "serving fr n fd (device s)"
    and "unat b \<le> 500" and "unat (fd_pos fd) + unat b \<le> unat (i_size (fd_inode fd))"
    and "bsz (fs_of (device s)) dvd unat (fd_pos fd) + unat b \<or> unat (fd_pos fd) mod bsz (fs_of (device s)) + unat b \<le> bsz (fs_of (device s))"
    and "\<forall>i<unat b. \<not> span req 1024 (buf + of_nat i)" and "\<forall>i<unat b. \<not> span resp 500 (target + of_nat i)"
    and "resp \<noteq> 0" and "unat resp + 500 \<le> 2 ^ 64" and "\<forall>y. span req 1024 y \<longrightarrow> \<not> span resp 500 y"
  shows "\<exists>s1 s2 s3. let svc = rendezvous (fs_round LOG_LEVEL fr manager_svc) self in
     uwrite svc req err n buf b s = Some (b, s1) \<and> useek svc req n (fd_pos fd) 0 s1 = Some s2 \<and>
     uread svc req resp n target b s2 = Some (b, s3) \<and>
     (\<forall>i<unat b. con_mem s3 (target + of_nat i) = con_mem s (buf + of_nat i))"
proof -
  let ?ino = "fd_inode fd" and ?p = "unat (fd_pos fd)" and ?w = "map (\<lambda>j. con_mem s (buf + of_nat j)) [0..<unat b]"
  obtain s1 where s1: "uwrite (fs_svc LOG_LEVEL fr self) req err n buf b s = Some (b, s1)"
    "serving fr n (fd\<lparr>fd_pos := fd_pos fd + ucast b\<rparr>) (device s1)" "bsz (fs_of (device s1)) = bsz (fs_of (device s))"
    "contents (fs_of (device s1)) ?ino = take ?p (contents (fs_of (device s)) ?ino) @ ?w @ drop (?p + unat b) (contents (fs_of (device s)) ?ino)"
    using uwrite_serves [OF assms(1-4), of buf] assms(6) by blast
  have "fd_pos fd \<le> i_size (fd_inode (fd\<lparr>fd_pos := fd_pos fd + ucast b\<rparr>))" using assms(4) by (simp add: word_le_nat_alt)
  from useek_serves [OF assms(1) s1(2) this] obtain s2 where s2: "useek (fs_svc LOG_LEVEL fr self) req n (fd_pos fd) 0 s1 = Some s2"
    "serving fr n fd (device s2)" "bsz (fs_of (device s2)) = bsz (fs_of (device s))" "contents (fs_of (device s2)) ?ino = contents (fs_of (device s1)) ?ino"
    using s1(3) by auto
  obtain s3 where s3: "uread (fs_svc LOG_LEVEL fr self) req resp n target b s2 = Some (b, s3)"
    "map (\<lambda>j. con_mem s3 (target + of_nat j)) [0..<unat b] = take (unat b) (drop ?p (contents (fs_of (device s2)) ?ino))"
    using uread_serves [OF assms(1) s2(2) assms(3,4) _ assms(8,9), where self = self and buf = target] assms(5,7,10) s2(3) by auto
  have "take (unat b) (drop ?p (contents (fs_of (device s2)) ?ino)) = ?w"
  proof -
    have "length (contents (fs_of (device s)) ?ino) = unat (i_size ?ino)" by (simp add: contents_def)
    then show ?thesis using assms(4) by (simp add: s2(4) s1(4))
  qed
  then have "con_mem s3 (target + of_nat i) = con_mem s (buf + of_nat i)" if "i < unat b" for i
    using that s3(2) by (simp add: map_eq_conv)
  then show ?thesis using s1(1) s2(1) s3(1) unfolding Let_def by blast
qed

lemma usable_high:
  assumes "fs_ok s" and "0x3f00b000 \<le> unat a" and "unat a + k \<le> 2 ^ 64"
  shows "usable s a k"
proof -
  have "unat (heap_begin (fs_mem s)) \<le> 0x3f00b000" using assms(1) heap_ok_begin by (auto simp: fs_ok_def)
  then show ?thesis using assms by (auto simp: usable_def on_disk_def span_def owned_def off_heap_def fs_ok_def)
qed

theorem file_service_write_read_witness:
  "\<exists>(s :: (mailbox, fs_state) manager con_state) fr s1 s2 s3. let svc = rendezvous (fs_round 2 fr manager_svc) 5 in
     uwrite svc 0x5000 0x6000 0 0x9000 40 s = Some (40, s1) \<and> useek svc 0x5000 0 10 0 s1 = Some s2 \<and>
     uread svc 0x5000 0x7000 0 0xa000 40 s2 = Some (40, s3) \<and> con_mem s (0x9000 + of_nat 39) = 77 \<and> con_mem s3 (0xa000 + of_nat 39) = 77"
proof -
  obtain a where a: "fs_ok (example_fs a 10)" "file_ok (example_fs a 10) (fd_inode (example_fd 10))" using example_fs_ok by metis
  define fr where "fr = \<lparr>fr_request = 0x3fff0000, fr_response = 0x3fff1000, fr_buff = 0x3fff2000, lit = (\<lambda>_. 0)\<rparr>"
  define d :: "(mailbox, fs_state) manager" where "d = \<lparr>con_mem = fs_bytes (example_fs a 10),
     device = \<lparr>uart = \<lparr>sent = [], arriving = []\<rparr>, globals = example_fs a 10, world = \<lparr>pending = [], replies = []\<rparr>\<rparr>\<rparr>"
  define s where "s = \<lparr>con_mem = (\<lambda>_. 77), device = d\<rparr>"
  have fs: "fs_of d = example_fs a 10" by (simp add: fs_of_def d_def upd_bytes_def fs_bytes_def)
  have "serving fr 0 (example_fd 10) (device s)"
    using a by (auto simp: serving_def s_def fs fr_def intro: usable_high)
  moreover have "bsz (fs_of (device s)) = 64" by (simp add: s_def fs)
  moreover have "\<not> span 0x5000 1024 (0x9000 + of_nat i)" "\<not> span 0x7000 500 (0xa000 + of_nat i)" if "i < 40" for i
    using that by (simp_all add: span_def unat_word_ariths unat_of_nat)
  moreover have "\<not> span 0x7000 500 y" if "span 0x5000 1024 y" for y using that by (simp add: span_def)
  ultimately have "\<exists>s1 s2 s3. let svc = rendezvous (fs_round 2 fr manager_svc) 5 in
     uwrite svc 0x5000 0x6000 0 0x9000 40 s = Some (40, s1) \<and> useek svc 0x5000 0 (fd_pos (example_fd 10)) 0 s1 = Some s2 \<and>
     uread svc 0x5000 0x7000 0 0xa000 40 s2 = Some (40, s3) \<and> (\<forall>i<unat (40 :: u64). con_mem s3 (0xa000 + of_nat i) = con_mem s (0x9000 + of_nat i))"
    by (intro file_service_write_read) (simp_all add: fs_client_def)
  then obtain s1 s2 s3 where *: "uwrite (fs_svc 2 fr 5) 0x5000 0x6000 0 0x9000 40 s = Some (40, s1)" "useek (fs_svc 2 fr 5) 0x5000 0 10 0 s1 = Some s2"
     "uread (fs_svc 2 fr 5) 0x5000 0x7000 0 0xa000 40 s2 = Some (40, s3)" "\<forall>i<40. con_mem s3 (0xa000 + of_nat i) = con_mem s (0x9000 + of_nat i)"
    by (auto simp: Let_def)
  moreover have "con_mem s (0x9000 + of_nat 39) = 77" "con_mem s3 (0xa000 + of_nat 39) = 77" using *(4) [rule_format, of 39] by (simp_all add: s_def)
  ultimately show ?thesis unfolding Let_def by blast
qed

end
