(* ===== verification/Format_Text.thy ===== *)
theory Format_Text
  imports Console
begin

text \<open>
  What formatted output stands for. \<open>number_text\<close> is the text of a number in a base, \<open>render\<close> the text of a
  format string with its arguments; neither knows the buffer of \<open>internal_printf\<close>. The locale
  \<open>printer_laws\<close> states what \<open>internal_printf\<close> expects of the functions it prints with, and proves that
  the code, which collects characters in its buffer, then prints the text of \<open>render\<close>.
\<close>

section \<open>Numbers as text\<close>

fun digits :: "nat \<Rightarrow> nat \<Rightarrow> nat list" where
  "digits b n = (if n = 0 \<or> b < 2 then [] else digits b (n div b) @ [n mod b])"

declare digits.simps [simp del]

definition horner :: "nat \<Rightarrow> nat list \<Rightarrow> nat" where
  "horner b = foldl (\<lambda>v d. v * b + d) 0"

lemma digits_0 [simp]: "digits b 0 = []"
  by (simp add: digits.simps)

lemma digits_step: "0 < n \<Longrightarrow> 2 \<le> b \<Longrightarrow> digits b n = digits b (n div b) @ [n mod b]"
  by (subst digits.simps) auto

lemma horner_digits: "2 \<le> b \<Longrightarrow> horner b (digits b n) = n"
proof (induction n rule: less_induct)
  case (less n)
  then show ?case by (cases "n = 0") (simp_all add: horner_def digits_step)
qed

lemma digits_less: "2 \<le> b \<Longrightarrow> d \<in> set (digits b n) \<Longrightarrow> d < b"
proof (induction n rule: less_induct)
  case (less n)
  then show ?case using less.IH [of "n div b"] by (cases "n = 0") (auto simp: digits_step)
qed

lemma digits_hd: "2 \<le> b \<Longrightarrow> 0 < n \<Longrightarrow> digits b n \<noteq> [] \<and> hd (digits b n) \<noteq> 0"
proof (induction n rule: less_induct)
  case (less n)
  show ?case
  proof (cases "n div b = 0")
    case True
    then have "n mod b = n" using less.prems by (simp add: div_eq_0_iff)
    then show ?thesis using True less.prems by (simp add: digits_step)
  next
    case False
    then have "digits b (n div b) \<noteq> [] \<and> hd (digits b (n div b)) \<noteq> 0" using less.prems by (intro less.IH) auto
    then show ?thesis using less.prems by (simp add: digits_step)
  qed
qed

definition digit_text :: "bool \<Rightarrow> nat \<Rightarrow> u8" where
  "digit_text upper d = of_nat (if d \<le> 9 then 48 + d else if upper then 55 + d else 87 + d)"

definition number_text :: "u64 \<Rightarrow> nat \<Rightarrow> bool \<Rightarrow> bool \<Rightarrow> u8 list" where
  "number_text x b unsign upper =
     (if x = 0 then [48]
      else if sint x < 0 \<and> \<not> unsign then 45 # map (digit_text upper) (digits b (nat (- sint x)))
      else map (digit_text upper) (digits b (unat x)))"

section \<open>Formatted text\<close>

text \<open>
  What a format string stands for, without a buffer: the text, and whether the format ends regularly.
  \<open>strs\<close> gives the string that a pointer argument refers to.
\<close>

definition arg_text :: "(u64 \<Rightarrow> u8 list option) \<Rightarrow> u8 \<Rightarrow> u64 \<Rightarrow> u8 list option" where
  "arg_text strs c a =
     (if c = 100 then Some (number_text (scast (ucast a :: u32)) 10 False False)
      else if c = 88 then Some (number_text (scast (ucast a :: u32)) 16 False True)
      else if c = 111 then Some (number_text a 8 True False)
      else if c = 117 then Some (number_text a 10 True False)
      else if c = 120 then Some (number_text a 16 True False)
      else if c = 98 then Some (number_text a 2 True False)
      else if c = 99 then Some [ucast a]
      else strs a)"

abbreviation takes_arg :: "u8 \<Rightarrow> bool" where
  "takes_arg c \<equiv> c \<in> {100, 88, 111, 117, 120, 98, 99, 115}"

fun render :: "bool \<Rightarrow> (u64 \<Rightarrow> u8 list option) \<Rightarrow> u8 list \<Rightarrow> u64 list \<Rightarrow> (u8 list \<times> bool) option" where
  "render label strs [] as = Some ([], True)"
| "render label strs (c # xs) as =
     (if c = 37 then
        case xs of [] \<Rightarrow> Some ([], False)
        | d # ys \<Rightarrow>
            if d = 37 then map_option (apfst ((@) [37])) (render label strs ys as)
            else if takes_arg d then
              case as of [] \<Rightarrow> None
              | a # bs \<Rightarrow> arg_text strs d a \<bind> (\<lambda>cs. map_option (apfst ((@) cs)) (render label strs ys bs))
            else Some ([], False)
      else if c = 10 \<and> xs \<noteq> [] \<and> label then map_option (apfst ((@) [10, 9, 32, 32])) (render label strs xs as)
      else map_option (apfst ((@) [c])) (render label strs xs as))"

text \<open>
  The memory that a call relies on: format, arguments and the newline literal lie outside of the
  working area, which is the buffer and the memory that the printing functions use for themselves.
\<close>

definition outside :: "(u64 \<Rightarrow> bool) \<Rightarrow> bytes \<Rightarrow> u64 \<Rightarrow> u8 list \<Rightarrow> bool" where
  "outside U m a xs \<longleftrightarrow> cstring m a xs \<and> (\<forall>i\<le>length xs. \<not> U (a + of_nat i))"

definition same_outside :: "(u64 \<Rightarrow> bool) \<Rightarrow> 'd con_state \<Rightarrow> 'd con_state \<Rightarrow> bool" where
  "same_outside U s s' \<longleftrightarrow> (\<forall>y. \<not> U y \<longrightarrow> con_mem s' y = con_mem s y)"

definition work_area :: "u64 \<Rightarrow> (u64 \<Rightarrow> bool) \<Rightarrow> u64 \<Rightarrow> bool" where
  "work_area buff own y \<longleftrightarrow> span buff IO_BUFF_SIZE y \<or> own y"

definition held :: "u64 \<Rightarrow> bytes \<Rightarrow> u8 list \<Rightarrow> bool" where
  "held buff m zs \<longleftrightarrow> (\<forall>j<length zs. m (buff + of_nat j) = zs ! j \<and> zs ! j \<noteq> 0)"

definition buffer_ok :: "(u64 \<Rightarrow> bool) \<Rightarrow> u64 \<Rightarrow> bool" where
  "buffer_ok own buff \<longleftrightarrow> unat buff + IO_BUFF_SIZE \<le> 2 ^ 64 \<and> (\<forall>j<IO_BUFF_SIZE. \<not> own (buff + of_nat j))"

definition printf_env :: "(u64 \<Rightarrow> bool) \<Rightarrow> (nat \<Rightarrow> bool) \<Rightarrow> u64 \<Rightarrow> u64 \<Rightarrow> (u64 \<Rightarrow> u8 list option) \<Rightarrow> bytes \<Rightarrow> bool" where
  "printf_env own fits buff newline strs m \<longleftrightarrow> buffer_ok own buff \<and> outside (work_area buff own) m newline [10, 9, 32, 32] \<and>
     (\<forall>a xs. strs a = Some xs \<longrightarrow> outside (work_area buff own) m a xs \<and> fits (length xs))"

text \<open>The device shows \<open>xs\<close> more than before, and memory has changed in the area \<open>U\<close> only.\<close>

definition emits :: "('d \<Rightarrow> u8 list) \<Rightarrow> ('d \<Rightarrow> bool) \<Rightarrow> (u64 \<Rightarrow> bool) \<Rightarrow> u8 list \<Rightarrow> 'd con_state \<Rightarrow> 'd con_state \<Rightarrow> bool" where
  "emits out ready U xs s s' \<longleftrightarrow> out (device s') = out (device s) @ xs \<and> ready (device s') \<and> same_outside U s s'"

lemma emits_trans: "emits out ready U xs s s' \<Longrightarrow> emits out ready U ys s' s'' \<Longrightarrow> emits out ready U (xs @ ys) s s''"
  by (simp add: emits_def same_outside_def)

lemma emits_area: "emits out ready own xs s s' \<Longrightarrow> emits out ready (work_area buff own) xs s s'"
  by (simp add: emits_def same_outside_def work_area_def)

lemma outside_same: "same_outside U s s' \<Longrightarrow> outside U (con_mem s) a xs \<Longrightarrow> outside U (con_mem s') a xs"
  unfolding outside_def same_outside_def using cstring_cong [of xs "con_mem s'" a "con_mem s" a] by blast

lemma outside_own: "outside (work_area buff own) m a xs \<Longrightarrow> outside own m a xs"
  by (auto simp: outside_def work_area_def)

lemma env_same: "same_outside (work_area buff own) s s' \<Longrightarrow> printf_env own fits buff newline strs (con_mem s) \<Longrightarrow>
    printf_env own fits buff newline strs (con_mem s')"
  unfolding printf_env_def using outside_same by blast

lemma emits_same: "emits out ready U xs s s' \<Longrightarrow> same_outside U s s'"
  by (simp add: emits_def)

lemma emits_ready: "emits out ready U xs s s' \<Longrightarrow> ready (device s')"
  by (simp add: emits_def)

lemma buff_addr:
  assumes "buffer_ok own buff" and "j < IO_BUFF_SIZE"
  shows "unat (buff + of_nat j) = unat buff + j" "span buff IO_BUFF_SIZE (buff + of_nat j)" "\<not> own (buff + of_nat j)"
  using unat_add_lt [of buff IO_BUFF_SIZE j] assms by (simp_all add: span_def buffer_ok_def)

lemma emits_poke:
  assumes "buffer_ok own buff" and "j < IO_BUFF_SIZE" and "ready (device s)"
  shows "emits out ready (work_area buff own) [] s (poke_con (buff + of_nat j) c s)"
  using buff_addr(2) [OF assms(1,2)] assms(3) by (auto simp: emits_def same_outside_def poke_con_def work_area_def)

lemma held_poke:
  assumes "held buff (con_mem s) zs" and "length zs < IO_BUFF_SIZE" and "buffer_ok own buff"
  shows "held buff (con_mem (poke_con (buff + of_nat (length zs)) c s)) zs" "con_mem (poke_con (buff + of_nat (length zs)) c s) (buff + of_nat (length zs)) = c"
proof -
  have "buff + of_nat j \<noteq> buff + of_nat (length zs)" if "j < length zs" for j
    using buff_addr(1) [OF assms(3), of j] buff_addr(1) [OF assms(3,2)] that assms(2) by (auto simp: word_unat_eq_iff)
  then show "held buff (con_mem (poke_con (buff + of_nat (length zs)) c s)) zs" using assms(1) by (simp add: held_def poke_con_def)
qed (simp add: poke_con_def)

lemma held_terminated:
  assumes "held buff (con_mem s) zs" and "length zs < IO_BUFF_SIZE" and "buffer_ok own buff"
  shows "outside own (con_mem (poke_con (buff + of_nat (length zs)) 0 s)) buff zs"
  using held_poke [OF assms, of 0] buff_addr(3) [OF assms(3)] assms(2) by (simp add: cstring_nth held_def outside_def)

locale printer_laws =
  fixes p :: "'d printer" and out :: "'d \<Rightarrow> u8 list" and ready :: "'d \<Rightarrow> bool" and own :: "u64 \<Rightarrow> bool" and fits :: "nat \<Rightarrow> bool"
  assumes fits: "n < IO_BUFF_SIZE \<Longrightarrow> fits n"
    and putc: "ready (device s) \<Longrightarrow> \<exists>s'. pr_putc p c s = Some s' \<and> emits out ready own [c] s s'"
    and puts: "ready (device s) \<Longrightarrow> outside own (con_mem s) a xs \<Longrightarrow> fits (length xs) \<Longrightarrow>
       \<exists>w s'. pr_puts p a s = Some (w, s') \<and> emits out ready own xs s s'"
    and put_int: "ready (device s) \<Longrightarrow> 2 \<le> unat base \<Longrightarrow> unat base \<le> 16 \<Longrightarrow>
       \<exists>w s'. pr_put_int p x base u h s = Some (w, s') \<and> emits out ready own (number_text x (unat base) u h) s s'"
begin

abbreviation prints :: "u64 \<Rightarrow> u8 list \<Rightarrow> 'd con_state \<Rightarrow> 'd con_state \<Rightarrow> bool" where
  "prints buff \<equiv> emits out ready (work_area buff own)"

lemma printf_conv_text:
  assumes "ready (device s)" and "d \<noteq> 37" and "takes_arg d" and "arg_text strs d a = Some cs"
    and "d = 115 \<Longrightarrow> outside own (con_mem s) a cs \<and> fits (length cs)"
  shows "\<exists>w s'. printf_conv p d (a # as) written s = Some (Inr (as, w, s')) \<and> emits out ready own cs s s'"
proof -
  have num: "\<exists>w s'. put_arg p i base u h (a # as) written s = Some (Inr (as, w, s')) \<and>
      emits out ready own (number_text (if i then scast (ucast a :: u32) else a) (unat base) u h) s s'"
    if "2 \<le> unat base" "unat base \<le> 16" for i base u h
    using put_int [OF assms(1) that, of "if i then scast (ucast a :: u32) else a" u h] by (auto simp: put_arg_def va_arg_def)
  show ?thesis
    using assms(2-5) num [of 10 True False False] num [of 16 True False True] num [of 8 False True False] num [of 10 False True False]
      num [of 16 False True False] num [of 2 False True False] puts [OF assms(1), of a cs] putc [OF assms(1), of "ucast a"]
    by (auto simp: printf_conv_def arg_text_def va_arg_def split: if_splits)
qed

lemma flush_text:
  assumes h: "held buff (con_mem s) zs" and "length zs \<le> limit" and "limit < IO_BUFF_SIZE" and b: "buffer_ok own buff" and "ready (device s)"
  shows "\<exists>w s'. printf_flush p buff limit (length zs) written s = Some (w, s') \<and> prints buff zs s s'"
proof (cases "zs = []")
  case True
  then show ?thesis using assms(5) by (simp add: printf_flush_def emits_def same_outside_def)
next
  case False
  define s1 where "s1 = poke_con (buff + of_nat (length zs)) 0 s"
  have s1: "prints buff [] s s1" unfolding s1_def by (rule emits_poke [OF b]) (use assms(2,3,5) in simp_all)
  have "outside own (con_mem s1) buff zs" using held_terminated [OF h _ b] assms(2,3) by (simp add: s1_def)
  then obtain w s' where "pr_puts p buff s1 = Some (w, s')" "emits out ready own zs s1 s'"
    using puts [OF emits_ready [OF s1]] fits [of "length zs"] assms(2,3) by fastforce
  then show ?thesis using False assms(2) emits_trans [OF s1 emits_area] by (simp add: printf_flush_def flip: s1_def)
qed

lemma char_text:
  assumes h: "held buff (con_mem s) zs" and "length zs \<le> 498" and "c \<noteq> 0" and b: "buffer_ok own buff" and "ready (device s)"
  shows "\<exists>ds ys s'. printf_char p buff c (length zs) s = Some (length ys, s') \<and> ds @ ys = zs @ [c] \<and> prints buff ds s s' \<and>
     held buff (con_mem s') ys \<and> length ys \<le> 498"
proof -
  define s1 where "s1 = poke_con (buff + of_nat (length zs)) c s"
  have h1: "held buff (con_mem s1) (zs @ [c])"
    using held_poke [OF h _ b, of c] assms(2,3) unfolding s1_def [symmetric]
    by (auto simp: held_def nth_append less_Suc_eq)
  have s1: "prints buff [] s s1" unfolding s1_def by (rule emits_poke [OF b]) (use assms(2,5) in simp_all)
  show ?thesis
  proof (cases "length zs = 498")
    case False
    then show ?thesis using h1 s1 assms(2)
      by (intro exI [of _ "[]"] exI [of _ "zs @ [c]"] exI [of _ s1]) (simp add: printf_char_def flip: s1_def)
  next
    case True
    define s2 where "s2 = poke_con (buff + of_nat 499) 0 s1"
    have s2: "prints buff [] s s2" 
      using emits_trans [OF s1] emits_poke [OF b, of 499 ready s1] emits_ready [OF s1] by (simp add: s2_def)
    have "outside own (con_mem s2) buff (zs @ [c])"
      using held_terminated [OF h1 _ b] True by (simp add: s2_def)
    then obtain w s' where s': "pr_puts p buff s2 = Some (w, s')" "emits out ready own (zs @ [c]) s2 s'"
      using puts [OF emits_ready [OF s2]] fits [of "length (zs @ [c])"] True by fastforce
    have "prints buff (zs @ [c]) s s'" using emits_trans [OF s2 emits_area [OF s'(2)]] by simp
    moreover have "printf_char p buff c (length zs) s = Some (0, s')" using True s'(1) by (simp add: printf_char_def s1_def s2_def)
    ultimately show ?thesis by (intro exI [of _ "zs @ [c]"] exI [of _ "[]"] exI [of _ s']) (simp add: held_def)
  qed
qed

lemma breaks_line_string: "cstring m f (c # xs) \<Longrightarrow> breaks_line m f label \<longleftrightarrow> c = 10 \<and> xs \<noteq> [] \<and> label"
  by (cases xs) (auto simp: breaks_line_def)

lemma outside_tl: "outside U m f (c # xs) \<Longrightarrow> outside U m (f + 1) xs"
proof -
  assume a: "outside U m f (c # xs)"
  have "\<not> U (f + 1 + of_nat i)" if "i \<le> length xs" for i
    using a that unfolding outside_def by (auto dest!: spec [of _ "Suc i"] simp: add.assoc)
  then show ?thesis using a by (simp add: outside_def)
qed

lemma conv_text:
  assumes o: "outside (work_area buff own) (con_mem s) f (37 # xs)" and env: "printf_env own fits buff newline strs (con_mem s)"
    and r: "render label strs (37 # xs) as = Some (cs, ok)" and rdy: "ready (device s)"
  shows "printf_conv p (con_mem s (f + 1)) as written s = Some (Inl s) \<and> \<not> ok \<and> cs = [] \<or>
     (\<exists>bs w s' ds cs' ys. printf_conv p (con_mem s (f + 1)) as written s = Some (Inr (bs, w, s')) \<and>
       prints buff ds s s' \<and> cs = ds @ cs' \<and> render label strs ys bs = Some (cs', ok) \<and>
       outside (work_area buff own) (con_mem s') (f + 2) ys \<and> length ys \<le> length xs)"
proof (cases xs)
  case Nil
  then have "con_mem s (f + 1) = 0" using o by (simp add: outside_def)
  then show ?thesis using r Nil by (auto simp: printf_conv_def)
next
  case (Cons d ys)
  have d: "con_mem s (f + 1) = d" "d \<noteq> 0" using o Cons by (auto simp: outside_def)
  have o2: "outside (work_area buff own) (con_mem s) (f + 2) ys" using outside_tl [OF outside_tl [OF o [unfolded Cons]]] by (simp add: add.assoc)
  consider (percent) "d = 37" | (arg) "d \<noteq> 37" "takes_arg d" | (other) "d \<noteq> 37" "\<not> takes_arg d" by blast
  then show ?thesis
  proof cases
    case percent
    obtain cs' where "cs = [37] @ cs'" "render label strs ys as = Some (cs', ok)" using r Cons percent by auto
    moreover obtain s' where "pr_putc p 37 s = Some s'" "prints buff [37] s s'" using putc [OF rdy] emits_area by blast
    ultimately show ?thesis using d percent Cons outside_same [OF emits_same o2]
      by (intro disjI2 exI [of _ as] exI [of _ written] exI [of _ s'] exI [of _ "[37]"] exI [of _ cs'] exI [of _ ys])
        (simp add: printf_conv_def)
  next
    case arg
    obtain a bs ds cs' where a: "as = a # bs" "arg_text strs d a = Some ds" "cs = ds @ cs'" "render label strs ys bs = Some (cs', ok)"
      using r Cons arg by (auto simp: bind_eq_Some_conv split: list.splits)
    have "outside own (con_mem s) a ds \<and> fits (length ds)" if "d = 115"
      using a(2) that env outside_own [of buff own "con_mem s" a ds] by (auto simp: arg_text_def printf_env_def)
    from printf_conv_text [OF rdy arg a(2) this] obtain w s' where
      "printf_conv p d (a # bs) written s = Some (Inr (bs, w, s'))" "prints buff ds s s'" using emits_area by blast
    then show ?thesis using d a outside_same [OF emits_same o2] Cons
      by (intro disjI2 exI [of _ bs] exI [of _ w] exI [of _ s'] exI [of _ ds] exI [of _ cs'] exI [of _ ys]) simp
  next
    case other
    then show ?thesis using d r Cons by (auto simp: printf_conv_def)
  qed
qed

lemma special_text:
  assumes o: "outside (work_area buff own) (con_mem s) f (c # xs)" and h: "held buff (con_mem s) zs" "length zs \<le> 498"
    and env: "printf_env own fits buff newline strs (con_mem s)" and r: "render label strs (c # xs) as = Some (cs, ok)"
    and c: "c = 37 \<or> breaks_line (con_mem s) f label" and rdy: "ready (device s)"
  shows "(\<exists>s'. printf_special p buff newline f label (length zs) as written s = Some (Inl s') \<and> \<not> ok \<and> cs = [] \<and> prints buff zs s s') \<or>
     (\<exists>k bs w s' ds cs' ys. printf_special p buff newline f label (length zs) as written s = Some (Inr (k, bs, w, s')) \<and>
       prints buff (zs @ ds) s s' \<and> cs = ds @ cs' \<and> render label strs ys bs = Some (cs', ok) \<and>
       outside (work_area buff own) (con_mem s') (f + k) ys \<and> length ys \<le> length xs)"
proof -
  have b: "buffer_ok own buff" using env by (simp add: printf_env_def)
  obtain w1 s1 where s1: "printf_flush p buff 499 (length zs) written s = Some (w1, s1)" "prints buff zs s s1"
    using flush_text [OF h(1) _ _ b rdy, of 499 written] h(2) by auto
  note o1 = outside_same [OF emits_same [OF s1(2)] o] and env1 = env_same [OF emits_same [OF s1(2)] env] and r1 = emits_ready [OF s1(2)]
  have brk: "breaks_line (con_mem s1) f label \<longleftrightarrow> c = 10 \<and> xs \<noteq> [] \<and> label"
    using breaks_line_string [of "con_mem s1" f c xs label] o1 by (simp add: outside_def)
  have brk0: "breaks_line (con_mem s) f label \<longleftrightarrow> c = 10 \<and> xs \<noteq> [] \<and> label"
    using breaks_line_string [of "con_mem s" f c xs label] o by (simp add: outside_def)
  show ?thesis
  proof (cases "breaks_line (con_mem s1) f label")
    case True
    have "outside own (con_mem s1) newline [10, 9, 32, 32]" by (rule outside_own [of buff]) (use env1 in \<open>simp add: printf_env_def\<close>)
    from puts [OF r1 this] fits obtain w2 s2 where s2: "pr_puts p newline s1 = Some (w2, s2)" "prints buff [10, 9, 32, 32] s1 s2"
      using emits_area by fastforce
    have "printf_special p buff newline f label (length zs) as written s = Some (Inr (1, as, w1 + w2, s2))"
      using True s1(1) s2(1) by (simp add: printf_special_def)
    moreover obtain cs' where "cs = [10, 9, 32, 32] @ cs'" "render label strs xs as = Some (cs', ok)"
      using r True brk by auto
    ultimately show ?thesis using emits_trans [OF s1(2) s2(2)] outside_same [OF emits_same [OF s2(2)] outside_tl [OF o1]]
      by (intro disjI2 exI [of _ 1] exI [of _ as] exI [of _ "w1 + w2"] exI [of _ s2] exI [of _ "[10, 9, 32, 32]"] exI [of _ cs'] exI [of _ xs]) simp
  next
    case False
    then have c37: "c = 37" using c brk brk0 by auto
    have sp: "printf_special p buff newline f label (length zs) as written s =
       map_option (map_sum (\<lambda>s. s) (Pair 2)) (printf_conv p (con_mem s1 (f + 1)) as w1 s1)"
      using False s1(1) by (simp add: printf_special_def)
    from conv_text [OF o1 [unfolded c37] env1 r [unfolded c37] r1, of w1] show ?thesis
    proof (elim disjE exE conjE)
      assume "printf_conv p (con_mem s1 (f + 1)) as w1 s1 = Some (Inl s1)" "\<not> ok" "cs = []"
      then show ?thesis using sp s1(2) by auto
    next
      fix bs w s' ds cs' ys
      assume *: "printf_conv p (con_mem s1 (f + 1)) as w1 s1 = Some (Inr (bs, w, s'))" "prints buff ds s1 s'"
        "cs = ds @ cs'" "render label strs ys bs = Some (cs', ok)" "outside (work_area buff own) (con_mem s') (f + 2) ys" "length ys \<le> length xs"
      then show ?thesis using sp emits_trans [OF s1(2) *(2)]
        by (intro disjI2 exI [of _ 2] exI [of _ bs] exI [of _ w] exI [of _ s'] exI [of _ ds] exI [of _ cs'] exI [of _ ys]) simp
    qed
  qed
qed

lemma printf_loop_text:
  assumes "outside (work_area buff own) (con_mem s) f xs" and "held buff (con_mem s) zs" and "length zs \<le> 498"
    and "printf_env own fits buff newline strs (con_mem s)" and "render label strs xs as = Some (cs, ok)" and "ready (device s)"
  shows "\<exists>w s'. printf_loop p buff newline label f (length zs) as written s = Some (w, s') \<and> (ok \<or> w = -1) \<and> prints buff (zs @ cs) s s'"
  using assms
proof (induction xs arbitrary: f s zs as written cs rule: length_induct)
  case (1 xs)
  note prems = "1.prems"
  have b: "buffer_ok own buff" using prems(4) by (simp add: printf_env_def)
  show ?case
  proof (cases xs)
    case Nil
    then have "con_mem s f = 0" "cs = []" "ok" using prems by (auto simp: outside_def)
    then show ?thesis using flush_text [OF prems(2) prems(3) _ b prems(6), of written] by (subst printf_loop.simps) auto
  next
    case (Cons c ys)
    have c: "con_mem s f = c" "c \<noteq> 0" using prems(1) Cons by (auto simp: outside_def)
    have brk: "breaks_line (con_mem s) f label \<longleftrightarrow> c = 10 \<and> ys \<noteq> [] \<and> label"
      using breaks_line_string [of "con_mem s" f c ys label] prems(1) Cons by (simp add: outside_def)
    show ?thesis
    proof (cases "c = 37 \<or> breaks_line (con_mem s) f label")
      case False
      obtain ds zs' s1 where s1: "printf_char p buff c (length zs) s = Some (length zs', s1)" "ds @ zs' = zs @ [c]" "prints buff ds s s1"
        "held buff (con_mem s1) zs'" "length zs' \<le> 498"
        using char_text [OF prems(2,3) c(2) b prems(6)] by blast
      obtain cs' where cs': "cs = [c] @ cs'" "render label strs ys as = Some (cs', ok)" using prems(5) Cons False brk by auto
      note same = emits_same [OF s1(3)]
      have "\<exists>w s'. printf_loop p buff newline label (f + 1) (length zs') as written s1 = Some (w, s') \<and> (ok \<or> w = -1) \<and>
         prints buff (zs' @ cs') s1 s'"
        using "1.IH" [rule_format, of ys s1 "f + 1" zs' as cs' written] Cons outside_same [OF same outside_tl [OF prems(1) [unfolded Cons]]]
          s1(4,5) env_same [OF same prems(4)] cs'(2) emits_ready [OF s1(3)] by simp
      then obtain w s' where s': "printf_loop p buff newline label (f + 1) (length zs') as written s1 = Some (w, s')" "ok \<or> w = -1"
         "prints buff (zs' @ cs') s1 s'" by auto
      have "printf_loop p buff newline label f (length zs) as written s = Some (w, s')"
        using False c s1(1) s'(1) by (subst printf_loop.simps) simp
      moreover have "prints buff (zs @ cs) s s'"
        using emits_trans [OF s1(3) s'(3)] s1(2) cs'(1) by (metis append_assoc)
      ultimately show ?thesis using s'(2) by blast
    next
      case True
      from special_text [OF prems(1) [unfolded Cons] prems(2-4) prems(5) [unfolded Cons] True prems(6), of written]
      show ?thesis
      proof (elim disjE exE conjE)
        fix s' assume "printf_special p buff newline f label (length zs) as written s = Some (Inl s')" "\<not> ok" "cs = []" "prints buff zs s s'"
        then show ?thesis using c True by (subst printf_loop.simps) auto
      next
        fix k bs w1 s1 ds cs' us
        assume s1: "printf_special p buff newline f label (length zs) as written s = Some (Inr (k, bs, w1, s1))"
          "prints buff (zs @ ds) s s1" "cs = ds @ cs'" "render label strs us bs = Some (cs', ok)"
          "outside (work_area buff own) (con_mem s1) (f + k) us" "length us \<le> length ys"
        have "\<exists>w s'. printf_loop p buff newline label (f + k) (length []) bs w1 s1 = Some (w, s') \<and> (ok \<or> w = -1) \<and>
           prints buff ([] @ cs') s1 s'"
          using "1.IH" [rule_format, of us s1 "f + k" "[]" bs cs' w1] Cons s1(4-6) env_same [OF emits_same [OF s1(2)] prems(4)]
            emits_ready [OF s1(2)] by (simp add: held_def)
        then obtain w s' where s': "printf_loop p buff newline label (f + k) 0 bs w1 s1 = Some (w, s')" "ok \<or> w = -1"
           "prints buff cs' s1 s'" by auto
        have "printf_loop p buff newline label f (length zs) as written s = Some (w, s')"
          using True c s1(1) s'(1) by (subst printf_loop.simps) auto
        then show ?thesis using s'(2) emits_trans [OF s1(2) s'(3)] s1(3) by auto
      qed
    qed
  qed
qed

lemma internal_printf_text:
  assumes "printf_env own fits buff newline strs (con_mem s)" and "outside (work_area buff own) (con_mem s) format xs"
    and "render label strs xs adpar = Some (cs, ok)" and "ready (device s)"
  shows "\<exists>w s'. internal_printf p buff newline format adpar label s = Some (w, s') \<and> (ok \<or> w = -1) \<and> prints buff cs s s'"
  using printf_loop_text [OF assms(2), of "[]"] assms by (simp add: internal_printf_def held_def)

end

end
