(* ===== verification/Console_Props.thy ===== *)
theory Console_Props
  imports Format_Text
begin

text \<open>
  The serial line as a printer: \<open>uart_putc\<close>, \<open>uart_puts\<close> and \<open>uart_put_int\<close> satisfy \<open>printer_laws\<close>. Numbers can be
  read back from their text, formatted output is the rendered text, and lines that are read lose
  their terminating zero to the place behind.
\<close>

section \<open>Sending numbers and strings\<close>

lemma digit_char_text:
  assumes "unat y < 2 ^ 32"
  shows "digit_char upper y = digit_text upper (unat y)"
proof -
  have "ucast (k + y) = (of_nat (unat k + unat y) :: u8)" if "unat k < 100" for k :: u64
  proof -
    have "unat (k + y) = unat k + unat y" using that assms by (simp add: unat_word_ariths)
    then show ?thesis by (metis of_nat_unat)
  qed
  from this [of 48] this [of 55] this [of 87] show ?thesis
    by (simp add: digit_char_def digit_text_def word_le_nat_alt del: of_nat_add)
qed

definition sends :: "u8 list \<Rightarrow> uart_t con_state \<Rightarrow> uart_t con_state" where
  "sends xs s = s\<lparr>device := (device s)\<lparr>sent := sent (device s) @ xs\<rparr>\<rparr>"

lemma sends_simps [simp]: "sends [] s = s" "sends ys (sends xs s) = sends (xs @ ys) s" "uart_putc c (sends xs s) = sends (xs @ [c]) s"
  "uart_putc c s = sends [c] s" "con_mem (sends xs s) = con_mem s" "sent (device (sends xs s)) = sent (device s) @ xs"
  by (simp_all add: sends_def uart_putc_def)

lemma uart_put_uint_digits:
  assumes "2 \<le> unat base"
  shows "uart_put_uint x base upper s =
    Some (of_nat (length (digits (unat base) (unat x))), sends (map (digit_text upper) (digits (unat base) (unat x))) s)"
proof (induction "unat x" arbitrary: x rule: less_induct)
  case less
  have bl: "unat base < 2 ^ 32" using unsigned_less [of base] by simp
  then have ub: "unat (ucast base :: u64) = unat base" by (simp add: unsigned_ucast_eq take_bit_eq_mod)
  show ?case
  proof (cases "x = 0")
    case True
    then show ?thesis by (subst uart_put_uint.simps) simp
  next
    case False
    then have x: "0 < unat x" by (simp add: unat_gt_0)
    have b: "base \<noteq> 0" using assms by auto
    have dv: "unat (x div ucast base) = unat x div unat base" "unat (x mod ucast base) = unat x mod unat base"
      by (simp_all add: unat_div unat_mod ub)
    have "unat x div unat base < unat x" using x assms by simp
    then have ih: "uart_put_uint (x div ucast base) base upper s =
      Some (of_nat (length (digits (unat base) (unat x div unat base))), sends (map (digit_text upper) (digits (unat base) (unat x div unat base))) s)"
      using less [of "x div ucast base"] dv by simp
    have "unat (x mod ucast base) < 2 ^ 32" 
      using dv(2) assms bl mod_less_divisor [of "unat base" "unat x"] by linarith
    then have "digit_char upper (x mod ucast base) = digit_text upper (unat x mod unat base)" using digit_char_text dv(2) by metis
    then show ?thesis using False b by (subst uart_put_uint.simps) (simp add: ih digits_step [OF x assms])
  qed
qed

lemma uart_put_int_text:
  assumes "2 \<le> unat base"
  shows "uart_put_int x base unsign upper s =
    Some (of_nat (length (number_text x (unat base) unsign upper)), sends (number_text x (unat base) unsign upper) s)"
proof -
  have "unat (1 + NOT x) = nat (- sint x)" if "sint x < 0"
  proof -
    have "1 + NOT x = of_int (- sint x)" 
      unfolding of_int_minus of_int_sint by (simp add: minus_eq_not_plus_1 [of x])
    moreover have "- (2 ^ 63) \<le> sint x" using sint_greater_eq [of x] by simp
    then have "uint (of_int (- sint x) :: u64) = - sint x" using that unfolding uint_word_of_int by (intro mod_pos_pos_trivial) simp_all
    ultimately show ?thesis by (metis unat_eq_nat_uint)
  qed
  then show ?thesis by (auto simp: uart_put_int_def number_text_def uart_put_uint_digits [OF assms])
qed


lemma puts_from_text:
  "cstring (con_mem s) (str + of_nat i) xs \<Longrightarrow> puts_from str i s = Some (sends xs s)"
proof (induction xs arbitrary: i s)
  case Nil
  then show ?case by (subst puts_from.simps) simp
next
  case (Cons x xs)
  then have "puts_from str (Suc i) (sends [x] s) = Some (sends (x # xs) s)" using Cons.IH [of "sends [x] s" "Suc i"] by (simp add: ac_simps)
  then show ?case using Cons.prems by (subst puts_from.simps) simp
qed

interpretation uart: printer_laws uart_printer sent "\<lambda>_. True" "\<lambda>_. False" "\<lambda>_. True"
proof
  show "\<exists>s'. pr_putc uart_printer c s = Some s' \<and> emits sent (\<lambda>_. True) (\<lambda>_. False) [c] s s'" for c s
    by (simp add: uart_printer_def emits_def same_outside_def)
  show "\<exists>w s'. pr_puts uart_printer a s = Some (w, s') \<and> emits sent (\<lambda>_. True) (\<lambda>_. False) xs s s'"
    if "outside (\<lambda>_. False) (con_mem s) a xs" for s a xs
    using puts_from_text [of s a 0 xs] that by (simp add: uart_printer_def uart_puts_def outside_def emits_def same_outside_def)
  show "\<exists>w s'. pr_put_int uart_printer x base u h s = Some (w, s') \<and>
       emits sent (\<lambda>_. True) (\<lambda>_. False) (number_text x (unat base) u h) s s'"
    if "2 \<le> unat base" for base x u h s
    using uart_put_int_text [OF that] by (simp add: uart_printer_def emits_def same_outside_def)
qed simp

section \<open>Properties\<close>

definition digit_value :: "u8 \<Rightarrow> nat" where
  "digit_value c = (if unat c \<le> 57 then unat c - 48 else if unat c \<le> 90 then unat c - 55 else unat c - 87)"

definition read_number :: "nat \<Rightarrow> u8 list \<Rightarrow> int" where
  "read_number b cs = (case cs of c # ds \<Rightarrow> if c = 45 then - int (horner b (map digit_value ds)) else int (horner b (map digit_value cs)) | [] \<Rightarrow> 0)"

lemma digit_value_text: "d < 36 \<Longrightarrow> digit_value (digit_text upper d) = d" "d < 36 \<Longrightarrow> digit_text upper d \<noteq> 45"
  by (auto simp: digit_value_def digit_text_def unat_of_nat word_unat_eq_iff)

lemma horner_text:
  assumes "2 \<le> b" and "b \<le> 36"
  shows "horner b (map digit_value (map (digit_text upper) (digits b n))) = n"
proof -
  have "map digit_value (map (digit_text upper) (digits b n)) = digits b n"
    unfolding map_map by (rule map_idI) (use digits_less [OF assms(1)] assms(2) digit_value_text in fastforce)
  then show ?thesis using horner_digits [OF assms(1)] by simp
qed

lemma number_text_value:
  assumes "2 \<le> b" and "b \<le> 36"
  shows "read_number b (number_text x b unsign upper) = (if unsign then uint x else sint x)"
proof -
  have pos: "read_number b (map (digit_text upper) (digits b n)) = int n" for n
  proof (cases "digits b n")
    case (Cons d ds)
    then have "d < 36" using digits_less [OF assms(1), of d n] assms(2) by simp
    then show ?thesis using horner_text [OF assms, of upper n] Cons digit_value_text(2) by (simp add: read_number_def)
  next
    case Nil
    then show ?thesis using horner_digits [OF assms(1), of n] by (simp add: read_number_def horner_def)
  qed
  have "uint x = sint x" if "0 \<le> sint x"
  proof -
    have "uint (of_int (sint x) :: u64) = sint x" using that sint_less [of x] unfolding uint_word_of_int by (intro mod_pos_pos_trivial) simp_all
    then show ?thesis by simp
  qed
  moreover have "read_number b [48] = 0" by (simp add: read_number_def horner_def digit_value_def)
  ultimately show ?thesis using pos horner_text [OF assms, of upper "nat (- sint x)"]
    by (auto simp: number_text_def read_number_def not_less)
qed

text \<open>
  \<open>uart_put_int\<close> prints a number so that it can be read back: for every base from 2 to 36 the
  text it sends, read with its sign in that base, is the value of the argument, read as signed or
  unsigned as requested; it has no leading zeros, and its length is returned.
\<close>

theorem uart_put_int_reads_back:
  assumes "2 \<le> unat base" and "unat base \<le> 36"
  shows "\<exists>cs. uart_put_int x base unsign upper_hexa s = Some (of_nat (length cs), sends cs s) \<and>
     read_number (unat base) cs = (if unsign then uint x else sint x) \<and>
     (x \<noteq> 0 \<longrightarrow> hd (dropWhile (\<lambda>c. c = 45) cs) \<noteq> 48)"
proof -
  have "hd (dropWhile (\<lambda>c. c = 45) (map (digit_text upper_hexa) (digits (unat base) n))) \<noteq> 48" if n: "0 < n" for n
  proof -
    obtain d ds where d: "digits (unat base) n = d # ds" "d \<noteq> 0" using digits_hd [OF assms(1) n] by (cases "digits (unat base) n") auto
    then have "d < 36" using digits_less [OF assms(1), of d n] assms(2) by simp
    then show ?thesis using d digit_value_text [of d upper_hexa] by (auto simp: digit_value_def)
  qed
  moreover have "0 < unat x" "sint x < 0 \<Longrightarrow> 0 < nat (- sint x)" if "x \<noteq> 0" using that by (simp_all add: unat_gt_0)
  ultimately show ?thesis using uart_put_int_text [OF assms(1)] number_text_value [OF assms]
    by (intro exI [of _ "number_text x (unat base) unsign upper_hexa"]) (auto simp: number_text_def)
qed

theorem uart_put_int_reads_back_witness:
  "\<exists>cs. uart_put_int (- 26) 16 False True \<lparr>con_mem = (\<lambda>_. 0), device = \<lparr>sent = [], arriving = []\<rparr>\<rparr> =
     Some (of_nat (length cs), sends cs \<lparr>con_mem = (\<lambda>_. 0), device = \<lparr>sent = [], arriving = []\<rparr>\<rparr>) \<and> read_number 16 cs = - 26"
  using uart_put_int_reads_back [of 16 "- 26" False True "\<lparr>con_mem = (\<lambda>_. 0), device = \<lparr>sent = [], arriving = []\<rparr>\<rparr>"] by auto

text \<open>
  C39. \<open>uart_printf\<close> with its buffer of 500 characters sends exactly the text that \<open>render\<close>, which knows
  no buffer, gives the format and its arguments, and it returns -1 where the format ends with an
  unknown conversion. It changes no memory outside of its buffer.
\<close>

theorem printf_renders:
  assumes "printf_env (\<lambda>_. False) (\<lambda>_. True) buff newline strs (con_mem s)" and "outside (span buff IO_BUFF_SIZE) (con_mem s) format xs"
    and "render label strs xs adpar = Some (cs, ok)"
  shows "\<exists>w s'. internal_printf uart_printer buff newline format adpar label s = Some (w, s') \<and> (ok \<or> w = -1) \<and>
     sent (device s') = sent (device s) @ cs \<and> (\<forall>y. \<not> span buff IO_BUFF_SIZE y \<longrightarrow> con_mem s' y = con_mem s y)"
  using uart.internal_printf_text [OF assms(1), of format xs label adpar cs ok] assms(2,3)
  by (auto simp: work_area_def [abs_def] emits_def same_outside_def)

definition example_console :: "uart_t con_state" where
  "example_console = \<lparr>con_mem = (\<lambda>_. 0)(0x1000 := 37, 0x1001 := 100, 0x2000 := 10, 0x2001 := 9, 0x2002 := 32, 0x2003 := 32),
     device = \<lparr>sent = [], arriving = [97, 98, 13]\<rparr>\<rparr>"

theorem printf_renders_witness:
  "\<exists>w s'. internal_printf uart_printer 0x3000 0x2000 0x1000 [42] True example_console = Some (w, s') \<and> sent (device s') = [52, 50]"
proof -
  have o: "outside (span 0x3000 500) (con_mem example_console) 0x1000 [37, 100]" "outside (span 0x3000 500) (con_mem example_console) 0x2000 [10, 9, 32, 32]"
    by (auto simp: outside_def example_console_def span_def le_Suc_eq)
  then have env: "printf_env (\<lambda>_. False) (\<lambda>_. True) 0x3000 0x2000 (\<lambda>_. None) (con_mem example_console)"
    by (simp add: printf_env_def buffer_ok_def work_area_def [abs_def])
  have "number_text 42 10 False False = [52, 50]" by (simp add: number_text_def digits_step digit_text_def)
  then have "render True (\<lambda>_. None) [37, 100] [42] = Some ([52, 50], True)" by (simp add: arg_text_def)
  from printf_renders [OF env o(1) this] show ?thesis by (auto simp: example_console_def)
qed

section \<open>Reading a line\<close>

lemma get_line_text:
  assumes "c # arriving (device s) = cs @ e # rest" and "\<forall>c\<in>set cs. \<not> line_end c" and "line_end e"
    and "unat i + length cs < unat sz" and "unat buff + unat sz \<le> 2 ^ 64"
  shows "\<exists>s'. get_line buff sz i c s = Some (i + of_nat (length cs), e, s') \<and> arriving (device s') = rest \<and>
     sent (device s') = sent (device s) @ tl (cs @ [e]) \<and>
     (\<forall>j<length cs. con_mem s' (buff + i + of_nat j) = cs ! j) \<and>
     (\<forall>y. \<not> span (buff + i) (length cs) y \<longrightarrow> con_mem s' y = con_mem s y)"
  using assms
proof (induction cs arbitrary: c s i)
  case Nil
  then show ?case by (subst get_line.simps) simp
next
  case (Cons d ds)
  obtain c' cs' where c': "ds @ e # rest = c' # cs'" by (cases ds) auto
  define s1 where "s1 = uart_putc c' ((poke_con (buff + i) c s)\<lparr>device := (device s)\<lparr>arriving := cs'\<rparr>\<rparr>)"
  have c: "c = d" "arriving (device s) = c' # cs'" using Cons.prems(1) c' by simp_all
  have i1: "unat (i + 1) = unat i + 1" "unat (buff + i) = unat buff + unat i"
    "unat (buff + (i + 1)) = unat buff + unat i + 1"
    using Cons.prems(4,5) unsigned_less [of sz] by (simp_all add: unat_word_ariths)
  have "unat (sz - 1) = unat sz - 1" using Cons.prems(4) by (simp add: unat_sub word_le_nat_alt)
  then have lt: "i < sz - 1" using Cons.prems(4) by (simp add: word_less_nat_alt)
  obtain s' where s': "get_line buff sz (i + 1) c' s1 = Some (i + 1 + of_nat (length ds), e, s')" "arriving (device s') = rest"
     "\<And>j. j<length ds \<Longrightarrow> con_mem s' (buff + (i + 1) + of_nat j) = ds ! j"
     "\<And>y. \<not> span (buff + (i + 1)) (length ds) y \<Longrightarrow> con_mem s' y = con_mem s1 y"
     and sent': "sent (device s') = sent (device s1) @ tl (ds @ [e])"
    using Cons.IH [of c' s1 "i + 1"] Cons.prems c' i1(1) by (auto simp: s1_def sends_def)
  have "get_line buff sz i c s = Some (i + of_nat (length (d # ds)), e, s')"
    using c Cons.prems(2) lt s'(1) by (subst get_line.simps) (simp add: uart_getc_def poke_con_def s1_def add.assoc)
  moreover have "con_mem s' (buff + i + of_nat j) = (d # ds) ! j" if "j < length (d # ds)" for j
  proof (cases j)
    case 0
    then show ?thesis using s'(4) [of "buff + i"] i1 c by (simp add: span_def s1_def poke_con_def add.assoc)
  next
    case (Suc k)
    then show ?thesis using s'(3) [of k] that by (simp add: ac_simps)
  qed
  moreover have "con_mem s' y = con_mem s y" if "\<not> span (buff + i) (length (d # ds)) y" for y
    using s'(4) [of y] that i1 by (auto simp: span_def s1_def poke_con_def add.assoc)
  moreover have "sent (device s') = sent (device s) @ tl ((d # ds) @ [e])"
  proof -
    have "c' # tl (ds @ [e]) = ds @ [e]" using c' by (cases ds) auto
    then show ?thesis using sent' by (simp add: s1_def poke_con_def)
  qed
  ultimately show ?case using s'(2) by blast
qed

lemma discard_line_end: "line_end e \<Longrightarrow> discard_line n e s = Some (n, s)"
  by (subst discard_line.simps) simp

text \<open>What \<open>uart_get_string\<close> does with a line that fits: the zero is written one place behind the end of the line.\<close>

lemma get_string_line:
  assumes "arriving (device s) = cs @ e # rest" and "\<forall>c\<in>set cs. \<not> line_end c" and "line_end e"
    and "length cs + 1 < unat sz" and "unat buff + unat sz \<le> 2 ^ 64"
  shows "\<exists>s'. uart_get_string buff sz s = Some (0, s') \<and> arriving (device s') = rest \<and>
     sent (device s') = sent (device s) @ cs @ [e] \<and> (\<forall>j<length cs. con_mem s' (buff + of_nat j) = cs ! j) \<and>
     con_mem s' (buff + of_nat (length cs + 1)) = 0 \<and>
     (\<forall>y. \<not> span buff (length cs) y \<and> y \<noteq> buff + of_nat (length cs + 1) \<longrightarrow> con_mem s' y = con_mem s y)"
proof -
  obtain c cs' where c: "cs @ e # rest = c # cs'" by (cases cs) auto
  define s1 where "s1 = uart_putc c (s\<lparr>device := (device s)\<lparr>arriving := cs'\<rparr>\<rparr>)"
  have "c # arriving (device s1) = cs @ e # rest" using c by (simp add: s1_def sends_def)
  from get_line_text [OF this, of 0 sz buff] assms(2-5) obtain s2 where
    s2: "get_line buff sz 0 c s1 = Some (of_nat (length cs), e, s2)" "arriving (device s2) = rest"
      "sent (device s2) = sent (device s1) @ tl (cs @ [e])" "\<And>j. j < length cs \<Longrightarrow> con_mem s2 (buff + of_nat j) = cs ! j"
      "\<And>y. \<not> span buff (length cs) y \<Longrightarrow> con_mem s2 y = con_mem s1 y" by auto
  define s' where "s' = poke_con (buff + (of_nat (length cs) + 1)) 0 s2"
  have "uart_get_string buff sz s = Some (0, s')"
    using assms(1,3) c s2(1) by (simp add: uart_get_string_def uart_getc_def s1_def s'_def discard_line_end)
  moreover have "buff + of_nat j \<noteq> buff + (of_nat (length cs) + 1)" if "j \<le> length cs" for j
  proof
    assume "buff + of_nat j = buff + (of_nat (length cs) + 1)"
    then have "unat (buff + of_nat j) = unat (buff + of_nat (length cs + 1))" by (simp add: ac_simps)
    then show False using unat_add_lt [OF assms(5), of j] unat_add_lt [OF assms(5), of "length cs + 1"] that assms(4) by simp
  qed
  then have "con_mem s' (buff + of_nat j) = cs ! j" if "j < length cs" for j using s2(4) [OF that] that by (simp add: s'_def poke_con_def)
  moreover have "c # tl (cs @ [e]) = cs @ [e]" using c by (cases cs) auto
  then have "sent (device s') = sent (device s) @ cs @ [e]" using s2(3) by (simp add: s'_def poke_con_def s1_def)
  moreover have "con_mem s' y = con_mem s y" if "\<not> span buff (length cs) y" "y \<noteq> buff + of_nat (length cs + 1)" for y
    using that s2(5) [of y] by (simp add: s'_def poke_con_def s1_def sends_def add.commute)
  moreover have "arriving (device s') = rest" using s2(2) by (simp add: s'_def poke_con_def)
  moreover have "con_mem s' (buff + of_nat (length cs + 1)) = 0" by (simp add: s'_def poke_con_def add.commute)
  ultimately show ?thesis by blast
qed

text \<open>
  \<open>uart_get_string\<close> of a line that fits stores its characters but puts the terminating zero one place
  too far: the byte right behind the characters keeps its old value, so the buffer holds the line as
  a string exactly when that byte was zero before the call.
\<close>

theorem get_string_terminator_misplaced:
  assumes "arriving (device s) = cs @ e # rest" and "\<forall>c\<in>set cs. \<not> line_end c \<and> c \<noteq> 0" and "line_end e"
    and "length cs + 1 < unat sz" and "unat buff + unat sz \<le> 2 ^ 64"
  shows "\<exists>s'. uart_get_string buff sz s = Some (0, s') \<and> arriving (device s') = rest \<and>
     con_mem s' (buff + of_nat (length cs)) = con_mem s (buff + of_nat (length cs)) \<and>
     (cstring (con_mem s') buff cs \<longleftrightarrow> con_mem s (buff + of_nat (length cs)) = 0)"
proof -
  obtain s' where s': "uart_get_string buff sz s = Some (0, s')" "arriving (device s') = rest" "\<And>j. j < length cs \<Longrightarrow> con_mem s' (buff + of_nat j) = cs ! j"
     "\<And>y. \<not> span buff (length cs) y \<Longrightarrow> y \<noteq> buff + of_nat (length cs + 1) \<Longrightarrow> con_mem s' y = con_mem s y"
    using get_string_line [OF assms(1) _ assms(3-5)] assms(2) by blast
  have u: "unat (buff + of_nat j) = unat buff + j" if "j \<le> length cs + 1" for j
    using unat_add_lt [OF assms(5), of j] that assms(4) by simp
  then have "buff + of_nat (length cs) \<noteq> buff + of_nat (length cs + 1)" by (metis add_left_cancel le_add1 n_not_Suc_n Suc_eq_plus1 order_refl)
  then have "con_mem s' (buff + of_nat (length cs)) = con_mem s (buff + of_nat (length cs))"
    using u [of "length cs"] by (intro s'(4)) (simp_all add: span_def)
  then show ?thesis using s' assms(2) by (auto simp: cstring_nth)
qed

theorem get_string_terminator_misplaced_witness:
  "\<exists>s s'. uart_get_string 0x3000 500 s = Some (0, s') \<and> arriving (device s) = [97, 98, 13] \<and> \<not> cstring (con_mem s') 0x3000 [97, 98]"
proof -
  let ?s = "example_console\<lparr>con_mem := (\<lambda>_. 99)\<rparr>"
  have "arriving (device ?s) = [97, 98] @ 13 # []" by (simp add: example_console_def)
  from get_string_terminator_misplaced [OF this, of 500 "0x3000"] obtain s' where
    "uart_get_string 0x3000 500 ?s = Some (0, s')" "\<not> cstring (con_mem s') 0x3000 [97, 98]"
    by (auto simp: line_end_def simp del: cstring.simps)
  moreover have "arriving (device ?s) = [97, 98, 13]" by (simp add: example_console_def)
  ultimately show ?thesis by blast
qed


end
