(* ===== verification/Fs_Paths.thy ===== *)
theory Fs_Paths
  imports Fs_Props
begin

text \<open>
  Directories and paths: \<open>listing\<close> is a directory as a list of names and inodes, \<open>resolve\<close> says what a path
  means. \<open>read_dirent\<close> returns the entries one by one in blocks of the heap (\<open>holding\<close>), and the loop of
  \<open>inode_of_path\<close> finds what \<open>resolve\<close> finds. A disk with two directories serves as the example.
\<close>

section \<open>Entries of directories\<close>

text \<open>An entry has 32 bytes: a name of at most 28 characters, filled up with zeros, and the number of an inode.\<close>

definition big_endian :: "u8 list \<Rightarrow> u32" where
  "big_endian cs = foldl (\<lambda>n c. push_bit 8 n OR ucast c) 0 cs"

definition dirent_of :: "u8 list \<Rightarrow> u8 list \<times> u32" where
  "dirent_of cs = (takeWhile (\<lambda>c. c \<noteq> 0) (take FILENAME_MAX_SIZE cs), big_endian (take 4 (drop FILENAME_MAX_SIZE cs)))"

lemma big_endian_load:
  "switch_endianness (load32 m a) = big_endian [m a, m (a + 1), m (a + 2), m (a + 3)]"
proof (rule bit_word_eqI)
  fix i assume "i < LENGTH(32)"
  then have i: "i \<in> set [0..<32]" by simp
  have top: "8 \<le> n \<Longrightarrow> \<not> bit (x :: u8) n" for x n using bit_imp_le_length [of x n] by auto
  have "\<forall>i\<in>set [0..<32]. bit (switch_endianness (load32 m a)) i = bit (big_endian [m a, m (a + 1), m (a + 2), m (a + 3)]) i"
    by (simp add: upt_conv_Cons switch_endianness_def big_endian_def load32_def load4 bit_simps top flip: numeral_2_eq_2)
  then show "bit (switch_endianness (load32 m a)) i = bit (big_endian [m a, m (a + 1), m (a + 2), m (a + 3)]) i" using i by blast
qed

lemma cstring_prefix:
  assumes "\<And>i. i < length cs \<Longrightarrow> m (p + of_nat i) = cs ! i" and "m (p + of_nat (length cs)) = 0"
  shows "cstring m p (takeWhile (\<lambda>c. c \<noteq> 0) cs)"
  using assms
proof (induction cs arbitrary: p)
  case (Cons c cs)
  have "cstring m (p + 1) (takeWhile (\<lambda>c. c \<noteq> 0) cs)"
  proof (rule Cons.IH)
    show "m (p + 1 + of_nat i) = cs ! i" if "i < length cs" for i using Cons.prems(1) [of "Suc i"] that by (simp add: ac_simps)
    show "m (p + 1 + of_nat (length cs)) = 0" using Cons.prems(2) by (simp add: ac_simps)
  qed
  then show ?case using Cons.prems(1) [of 0] by simp
qed simp

definition chunk :: "fs_state \<Rightarrow> inode_t \<Rightarrow> nat \<Rightarrow> u8 list" where
  "chunk s ino p = take 32 (drop p (contents s ino))"

text \<open>Room on the heap for an entry and, apart from it, for \<open>n\<close> bytes, which is at least a block of the disk.\<close>

definition spare :: "nat \<Rightarrow> fs_state \<Rightarrow> bool" where
  "spare n s \<longleftrightarrow> unat (block_size (ucast (fs_block_size (filesystem s) + 1))) + 32 \<le> n \<and> (\<exists>u. free_region (fs_mem s) u (2 * n + 96))"

lemma spare_stays: "stays s s' \<Longrightarrow> spare n s \<Longrightarrow> spare n s'"
  using free_region_mono by (fastforce simp: spare_def stays_def dest: same_diskD)

lemma block_request:
  assumes "fs_ok s"
  shows "unat (ucast (fs_block_size (filesystem s) + 1) :: u64) = bsz s + 1" "0 < (ucast (fs_block_size (filesystem s) + 1) :: u64)"
    "unat (ucast (fs_block_size (filesystem s) + 1) :: u64) + 32 \<le> 2 ^ 30"
proof -
  have b: "16 \<le> bsz s" "bsz s \<le> 2 ^ 16" using assms by (auto simp: fs_ok_def)
  then show *: "unat (ucast (fs_block_size (filesystem s) + 1) :: u64) = bsz s + 1"
    by (simp add: unsigned_ucast_eq take_bit_eq_mod unat_word_ariths)
  show "0 < (ucast (fs_block_size (filesystem s) + 1) :: u64)" "unat (ucast (fs_block_size (filesystem s) + 1) :: u64) + 32 \<le> 2 ^ 30"
    using b by (simp_all add: word_less_nat_alt *)
qed

text \<open>The disk and the other bytes that belong to somebody are as they were.\<close>

definition same :: "fs_state \<Rightarrow> fs_state \<Rightarrow> bool" where
  "same s t \<longleftrightarrow> stays s t \<and> (\<forall>y. owned (fs_mem s) y \<longrightarrow> fs_bytes t y = fs_bytes s y)"

lemma same_trans: "same s t \<Longrightarrow> same t u \<Longrightarrow> same s u"
  using stays_trans [of s t u] staysD(5) [of s t] by (simp add: same_def)

lemma disk_is_owned: "fs_ok s \<Longrightarrow> on_disk s y \<Longrightarrow> owned (fs_mem s) y"
  by (auto simp: on_disk_def owned_def off_heap_def span_def fs_ok_def)

text \<open>The states between \<open>read_dirent\<close> and the release of the entry.\<close>

definition holding :: "nat \<Rightarrow> fs_state \<Rightarrow> u64 \<Rightarrow> fs_state \<Rightarrow> bool" where
  "holding n s q s' \<longleftrightarrow> (\<exists>v. free_region (fs_mem s') v n) \<and> fs_ok s' \<and> same_disk s s' \<and> (\<forall>y. owned (fs_mem s) y \<longrightarrow> fs_bytes s' y = fs_bytes s y) \<and>
     (\<exists>k\<ge>32. (q, k) \<notin> live_blocks (fs_mem s) \<and> live_blocks (fs_mem s') = insert (q, k) (live_blocks (fs_mem s)) \<and> unat q + k \<le> 0x3f00b000) \<and>
     unat (heap_begin (fs_mem s)) + 32 \<le> unat q \<and> heap_begin (fs_mem s') = heap_begin (fs_mem s) \<and> brk (fs_mem s) \<le> brk (fs_mem s')"

lemma new_entry:
  assumes ok: "fs_ok s" and sp: "spare n s"
  obtains q s' where "fs_kmalloc 32 s = Some (q, s')" "holding n s q s'" "file_descriptor_table s' = file_descriptor_table s"
proof -
  have hok: "heap_ok (fs_mem s)" using ok by (simp add: fs_ok_def)
  let ?r = "ucast (fs_block_size (filesystem s) + 1) :: u64"
  have n: "unat (block_size ?r) + 32 \<le> n" using sp by (simp add: spare_def)
  obtain u where u: "free_region (fs_mem s) u (2 * n + 96)" using sp by (auto simp: spare_def)
  have b32: "block_size 32 = 32" by (simp add: block_size_def next_power_of_2_eq [of _ 6])
  obtain q a where km: "kmalloc 32 (fs_mem s) = Some (q, a)"
    using free_region_kmalloc [OF hok u, of 32] b32 by fastforce
  have r32: "0 < (32 :: u64)" "unat (32 :: u64) + 32 \<le> 2 ^ 30" by simp_all
  obtain k where k: "unat (32 :: u64) \<le> k" "k \<le> 64" "unat q + k \<le> 0x3f00b000" "unat (heap_begin (fs_mem s)) + 32 \<le> unat q" "heap_ok a"
    "(q, k) \<notin> live_blocks (fs_mem s)" "live_blocks a = insert (q, k) (live_blocks (fs_mem s))" "heap_begin a = heap_begin (fs_mem s)" "brk (fs_mem s) \<le> brk a"
    "\<And>y. owned (fs_mem s) y \<Longrightarrow> heap a y = fs_bytes s y"
    by (rule fresh_block [OF hok r32 km]) (simp add: b32 fs_bytes_def)
  have "32 + k \<le> 96" using k(2) by simp
  then obtain v where v: "free_region a v n" using free_region_split [OF u k(9,8,7)] by blast
  have "kmalloc ?r a \<noteq> None" by (rule free_region_kmalloc [OF k(5) v block_request(2,3) [OF ok]]) (rule n)
  then have "fs_ok (s\<lparr>fs_mem := a\<rparr>)" using ok k(5,8) by (simp add: fs_ok_def)
  then have "holding n s q (s\<lparr>fs_mem := a\<rparr>)" using k v by (auto simp: holding_def same_disk_def fs_bytes_def)
  then show thesis using that [of q "s\<lparr>fs_mem := a\<rparr>"] km by (simp add: fs_kmalloc_def)
qed

lemma holding_owned:
  assumes "holding n s q s'"
  shows "owned (fs_mem s) y \<Longrightarrow> owned (fs_mem s') y" "span q 32 y \<Longrightarrow> owned (fs_mem s') y" "span q 32 y \<Longrightarrow> \<not> owned (fs_mem s) y"
proof -
  obtain k where k: "32 \<le> k" "(q, k) \<notin> live_blocks (fs_mem s)" "live_blocks (fs_mem s') = insert (q, k) (live_blocks (fs_mem s))"
    "unat q + k \<le> 0x3f00b000" "unat (heap_begin (fs_mem s)) + 32 \<le> unat q" "heap_begin (fs_mem s') = heap_begin (fs_mem s)" "heap_ok (fs_mem s')"
    using assms by (auto simp: holding_def fs_ok_def)
  show "owned (fs_mem s) y \<Longrightarrow> owned (fs_mem s') y" "span q 32 y \<Longrightarrow> owned (fs_mem s') y"
    using k by (auto simp: owned_def off_heap_def span_def)
  assume y: "span q 32 y"
  obtain bs where bs: "heap_inv (fs_mem s') bs" using k(7) by (auto simp: heap_ok_def)
  have "\<not> span p n y" if "(p, n) \<in> live_blocks (fs_mem s)" for p n
    using used_apart [OF bs, of q k p n] that k(1-3) y by (auto simp: live_blocks_used [OF bs, symmetric] span_def)
  then show "\<not> owned (fs_mem s) y" using y k by (auto simp: owned_def off_heap_def span_def)
qed

lemma holding_stays:
  assumes "holding n s q s'" and "stays s' s''" and "\<And>y. owned (fs_mem s) y \<Longrightarrow> fs_bytes s'' y = fs_bytes s' y"
  shows "holding n s q s''"
proof -
  obtain v where "free_region (fs_mem s') v n" using assms(1) by (auto simp: holding_def)
  then have "free_region (fs_mem s'') v n" by (rule free_region_mono) (use assms(2) in \<open>simp_all add: stays_def\<close>)
  then have "\<exists>v. free_region (fs_mem s'') v n" ..
  moreover have "same_disk s s''" using assms(1,2) by (auto simp: holding_def stays_def intro: same_disk_trans)
  ultimately show ?thesis using assms by (simp add: holding_def stays_def)
qed

lemma holding_kfree:
  assumes ok: "fs_ok s" and sp: "spare n s" and h: "holding n s q s'"
  obtains s'' where "fs_kfree q s' = Some s''" "same s s''" "file_descriptor_table s'' = file_descriptor_table s'"
proof -
  let ?r = "ucast (fs_block_size (filesystem s) + 1) :: u64"
  obtain k where k: "(q, k) \<notin> live_blocks (fs_mem s)" "live_blocks (fs_mem s') = insert (q, k) (live_blocks (fs_mem s))"
    "heap_begin (fs_mem s') = heap_begin (fs_mem s)" "brk (fs_mem s) \<le> brk (fs_mem s')" "heap_ok (fs_mem s')" "heap_ok (fs_mem s)"
    using h ok by (auto simp: holding_def fs_ok_def)
  obtain a where a: "kfree q (fs_mem s') = Some a" "heap_ok a" "owned a = owned (fs_mem s)" "live_blocks a = live_blocks (fs_mem s)"
    "heap_begin a = heap_begin (fs_mem s)" "brk (fs_mem s) \<le> brk a" "\<forall>y. owned (fs_mem s) y \<longrightarrow> heap a y = fs_bytes s' y"
    using held_block [OF k(6,5,1-4), of "heap (fs_mem s')"] by (auto simp: fs_bytes_def)
  obtain u where u: "free_region (fs_mem s) u (2 * n + 96)" "unat (block_size ?r) + 32 \<le> n" using sp by (auto simp: spare_def)
  then have "free_region a u (2 * n + 96)" using free_region_mono [OF _ a(6,5,4)] by blast
  then have "kmalloc ?r a \<noteq> None" by (rule free_region_kmalloc [OF a(2) _ block_request(2,3) [OF ok]]) (use u(2) in simp)
  moreover have sd: "same_disk s s'" "\<And>y. owned (fs_mem s) y \<Longrightarrow> fs_bytes s' y = fs_bytes s y" using h by (simp_all add: holding_def)
  ultimately have "stays s (s'\<lparr>fs_mem := a\<rparr>)" 
    using ok a same_diskD [OF sd(1)] by (simp add: stays_def fs_ok_def) (simp add: same_disk_def)
  then show thesis using that [of "s'\<lparr>fs_mem := a\<rparr>"] a sd by (simp add: fs_kfree_def fs_bytes_def same_def)
qed

text \<open>
  \<open>read_dirent\<close> at a position that is a multiple of 32: the entry that the directory holds there, with
  its name in a new block.
\<close>

lemma read_dirent_spec:
  assumes ok: "fs_ok s" and sp: "spare room s" and fd: "fd_at n s = Some fd" and f: "file_ok s (fd_inode fd)"
    and al: "32 dvd bsz s" "32 dvd unat (fd_pos fd)" and p: "unat (fd_pos fd) + 32 \<le> unat (i_size (fd_inode fd))"
  defines "e \<equiv> dirent_of (chunk s (fd_inode fd) (unat (fd_pos fd)))"
  obtains q s' where "read_dirent n s = Some (\<lparr>d_inode = snd e, d_name = q\<rparr>, s')" "holding room s q s'" "cstring (fs_bytes s') q (fst e)"
    "file_descriptor_table s' = (file_descriptor_table s)(unat n := fd\<lparr>fd_pos := fd_pos fd + 32\<rparr>)"
proof -
  let ?ino = "fd_inode fd" and ?p = "unat (fd_pos fd)"
  obtain q s1 where s1: "fs_kmalloc 32 s = Some (q, s1)" "holding room s q s1" "file_descriptor_table s1 = file_descriptor_table s"
    using new_entry [OF ok sp] .
  have h1: "fs_ok s1" "same_disk s s1" "\<And>y. owned (fs_mem s) y \<Longrightarrow> fs_bytes s1 y = fs_bytes s y" "unat q + 32 \<le> 0x3f00b000"
    "unat (heap_begin (fs_mem s)) \<le> unat q"
    using s1(2) by (auto simp: holding_def)
  have od: "owned (fs_mem s) y" if "on_disk s y" for y using that ok by (auto simp: on_disk_def owned_def off_heap_def span_def fs_ok_def)
  note F = file_write_elsewhere [OF ok f h1(2) h1(3) [OF od]]
  have fd1: "fd_at n s1 = Some fd" using fd s1(3) by (auto simp: fd_at_def split: if_splits)
  have rs: "read_size fd 32 = 32" using p by (simp add: read_size_def)
  have d1: "on_disk s1 = on_disk s" using same_diskD [OF h1(2)] by (simp add: on_disk_def)
  have buf: "owned (fs_mem s1) y \<and> \<not> on_disk s1 y" if "span q 32 y" for y 
    using holding_owned(2,3) [OF s1(2) that] od [of y] d1 by auto
  have "?p mod bsz s + 32 \<le> bsz s"
  proof -
    have "0 < bsz s" using ok by (simp add: fs_ok_def)
    then have "?p mod bsz s < bsz s" "32 dvd ?p mod bsz s" using al by (simp_all add: dvd_mod)
    then show ?thesis using al(1) by (auto elim!: dvdE)
  qed
  then have al1: "bsz s1 dvd ?p + read_size fd 32 \<or> ?p mod bsz s1 + read_size fd 32 \<le> bsz s1"
    using same_diskD(1) [OF h1(2)] by (simp add: rs)
  obtain s2 where s2: "read_file n q 32 s1 = Some (of_nat 32, s2)" "stays s1 s2"
     "file_descriptor_table s2 = (file_descriptor_table s1)(unat n := fd\<lparr>fd_pos := fd_pos fd + 32\<rparr>)" "got s1 s2 ?ino ?p 32 q"
    using read_file_spec [OF h1(1) fd1 F(1) _ _ al1, of q] p h1(4) buf by (auto simp: rs)
  have g: "buffer_bytes s2 q 32 = chunk s ?ino ?p" using got_contents [OF s2(4)] p F(2) by (simp add: chunk_def)
  have bt: "fs_bytes s2 (q + of_nat j) = chunk s ?ino ?p ! j" if "j < 32" for j
    using arg_cong [OF g, of "\<lambda>cs. cs ! j"] that by (simp add: buffer_bytes_def)
  define s3 where "s3 = upd_bytes (\<lambda>m. m(q + 28 := 0)) s2"
  have b3: "fs_bytes s3 = (fs_bytes s2)(q + 28 := 0)" by (simp add: s3_def upd_bytes_def fs_bytes_def)
  have q28: "span q 32 (q + 28)" "unat (q + of_nat j) = unat q + j" if "j \<le> 32" for j
    using h1(4) that unat_add_lt [of q 33 28] unat_add_lt [of q 33 j] by (simp_all add: span_def)
  have "stays s2 (upd_bytes (\<lambda>_. fs_bytes s3) s2)"
    using holding_owned(2) [OF s1(2) q28(1)] staysD(1,5) [OF s2(2)] by (intro fs_ok_write) (auto simp: b3)
  moreover have "upd_bytes (\<lambda>_. fs_bytes s3) s2 = s3" by (simp add: s3_def upd_bytes_def fs_bytes_def)
  ultimately have st: "stays s1 s3" using stays_trans [OF s2(2)] by simp
  have "fs_bytes s3 y = fs_bytes s1 y" if "owned (fs_mem s) y" for y
    using holding_owned(1) [OF s1(2) that] holding_owned(3) [OF s1(2)] gotD(2) [OF s2(4), of y] q28(1) that by (auto simp: b3)
  then have h3: "holding room s q s3" by (rule holding_stays [OF s1(2) st])
  have len: "length (chunk s ?ino ?p) = 32" using p by (simp add: chunk_def contents_def)
  have "cstring (fs_bytes s3) q (fst e)" unfolding e_def dirent_of_def fst_conv
  proof (rule cstring_prefix)
    fix i assume "i < length (take FILENAME_MAX_SIZE (chunk s ?ino ?p))"
    then have i: "i < 28" using len by simp
    then have "q + of_nat i \<noteq> q + 28" using q28(2) [of i] q28(2) [of 28] by auto
    then show "fs_bytes s3 (q + of_nat i) = take FILENAME_MAX_SIZE (chunk s ?ino ?p) ! i" using bt [of i] i by (simp add: b3)
  qed (simp add: b3 len)
  moreover have "read_dirent n s = Some (\<lparr>d_inode = snd e, d_name = q\<rparr>, s3)"
  proof -
    have "take 4 (drop 28 (chunk s ?ino ?p)) = map ((!) (chunk s ?ino ?p)) [28, 29, 30, 31]"
      by (rule nth_equalityI) (auto simp: len less_Suc_eq numeral_eq_Suc)
    then have "switch_endianness (load32 (fs_bytes s2) (q + 28)) = snd e"
      using bt [of 28] bt [of 29] bt [of 30] bt [of 31] by (simp add: big_endian_load e_def dirent_of_def add.assoc)
    then show ?thesis using s1(1) s2(1) by (simp add: read_dirent_def s3_def)
  qed
  moreover have "file_descriptor_table s3 = (file_descriptor_table s)(unat n := fd\<lparr>fd_pos := fd_pos fd + 32\<rparr>)"
    using s2(3) s1(3) by (simp add: s3_def upd_bytes_def)
  ultimately show thesis using that h3 by blast
qed

section \<open>Directories\<close>

text \<open>The inode in block \<open>n\<close> of the disk, and the entries of a directory.\<close>

definition inode_at :: "fs_state \<Rightarrow> u32 \<Rightarrow> inode_t" where
  "inode_at s n = (let c = disk_addr s (unat n) 0 in
     \<lparr>i_index = n, i_kind = switch_endianness (load32 (fs_bytes s) c), i_nlink = switch_endianness (load32 (fs_bytes s) (c + 4)),
      i_size = switch_endianness (load32 (fs_bytes s) (c + 8)), i_blocks = c + 12\<rparr>)"

definition listing :: "fs_state \<Rightarrow> u32 \<Rightarrow> (u8 list \<times> u32) list" where
  "listing s n = map (\<lambda>j. dirent_of (chunk s (inode_at s n) (32 * j))) [0..<unat (i_size (inode_at s n)) div 32]"

definition dir_ok :: "fs_state \<Rightarrow> u32 \<Rightarrow> bool" where
  "dir_ok s n \<longleftrightarrow> unat n < nblocks s \<and> i_size (inode_at s n) \<le> max_file_size (filesystem s) \<and> file_ok s (inode_at s n) \<and>
     32 dvd unat (i_size (inode_at s n)) \<and> (\<forall>e\<in>set (listing s n). 47 \<notin> set (fst e))"

lemma inode_at_cong:
  assumes ok: "fs_ok s" and d: "same_disk s t" and e: "\<And>y. on_disk s y \<Longrightarrow> fs_bytes t y = fs_bytes s y" and n: "unat n < nblocks s"
  shows "inode_at t n = inode_at s n"
proof -
  let ?c = "disk_addr s (unat n) 0"
  have b: "16 \<le> bsz s" using ok by (simp add: fs_ok_def)
  have top: "unat ?c + 16 \<le> unat (heap_begin (fs_mem s))" using disk_addr_unat(3) [OF ok n, of 0] b by simp
  moreover have "unat (heap_begin (fs_mem s)) \<le> 0x3f00b000" using heap_ok_begin ok by (simp add: fs_ok_def)
  ultimately have u: "unat (?c + 4) = unat ?c + 4" "unat (?c + 8) = unat ?c + 8" by (simp_all add: unat_word_ariths)
  have "load 4 (fs_bytes t) a = load 4 (fs_bytes s) a" if "unat ?c \<le> unat a" "unat a + 4 \<le> unat ?c + 16" for a
    using that top heap_ok_begin [of "fs_mem s"] ok disk_addr_unat(1,2) [OF ok n, of 0] b
    by (intro load_cong e) (auto simp: span_def on_disk_def fs_ok_def)
  then have "load32 (fs_bytes t) ?c = load32 (fs_bytes s) ?c" "load32 (fs_bytes t) (?c + 4) = load32 (fs_bytes s) (?c + 4)"
    "load32 (fs_bytes t) (?c + 8) = load32 (fs_bytes s) (?c + 8)" using u by (simp_all add: load32_def)
  then show ?thesis using same_diskD(5) [OF d] by (simp add: inode_at_def)
qed

lemma read_inode_spec:
  assumes ok: "fs_ok s" and n: "unat n < nblocks s" and sz: "i_size (inode_at s n) \<le> max_file_size (filesystem s)"
  shows "read_inode n s = Some (inode_at s n, s\<lparr>filesystem := (filesystem s)\<lparr>seek_cursor := disk_addr s (unat n) 0\<rparr>\<rparr>)"
  using sz by (simp add: read_inode_def seek_block_spec [OF ok n] inode_at_def Let_def assert_bind fs_bytes_def)

lemma dir_same:
  assumes ok: "fs_ok s" and d: "same_disk s t" and e: "\<And>y. on_disk s y \<Longrightarrow> fs_bytes t y = fs_bytes s y" and n: "dir_ok s n"
  shows "dir_ok t n" "inode_at t n = inode_at s n" "listing t n = listing s n"
proof -
  have n': "unat n < nblocks s" "file_ok s (inode_at s n)" using n by (auto simp: dir_ok_def)
  show i: "inode_at t n = inode_at s n" by (rule inode_at_cong [OF ok d e n'(1)])
  have F: "file_ok t (inode_at s n)" "contents t (inode_at s n) = contents s (inode_at s n)"
    using file_write_elsewhere [OF ok n'(2) d] e by blast+
  show l: "listing t n = listing s n" by (simp add: listing_def i chunk_def F(2))
  show "dir_ok t n" using n F(1) same_diskD [OF d] by (simp add: dir_ok_def i l)
qed

section \<open>Resolution of paths\<close>

text \<open>
  What a path means: its components, separated by slashes, are looked up one after the other; the first
  entry of a name counts, and an empty component matches no entry.
\<close>

fun components :: "u8 list \<Rightarrow> u8 list list" where
  "components [] = [[]]"
| "components (c # cs) = (if c = 47 then [] # components cs else (c # hd (components cs)) # tl (components cs))"

definition find_name :: "(u8 list \<times> u32) list \<Rightarrow> u8 list \<Rightarrow> u32 option" where
  "find_name es c = (if c = [] then None else map_of es c)"

fun resolve :: "(u32 \<Rightarrow> (u8 list \<times> u32) list) \<Rightarrow> (u8 list \<times> u32) list \<Rightarrow> u8 list list \<Rightarrow> u32 option" where
  "resolve ls es [] = None"
| "resolve ls es (c # cs) = (case find_name es c of None \<Rightarrow> None | Some i \<Rightarrow> if cs = [] then Some i else resolve ls (ls i) cs)"

text \<open>The directories that the resolution opens after the first one.\<close>

fun visited :: "(u32 \<Rightarrow> (u8 list \<times> u32) list) \<Rightarrow> (u8 list \<times> u32) list \<Rightarrow> u8 list list \<Rightarrow> u32 list" where
  "visited ls es [] = []"
| "visited ls es (c # cs) = (case find_name es c of None \<Rightarrow> [] | Some i \<Rightarrow> if cs = [] then [] else i # visited ls (ls i) cs)"

lemma components_eq:
  "components xs = takeWhile (\<lambda>c. c \<noteq> 47) xs # (case dropWhile (\<lambda>c. c \<noteq> 47) xs of [] \<Rightarrow> [] | _ # ys \<Rightarrow> components ys)"
  by (induction xs) (auto split: list.splits)

lemma components_ne: "components xs \<noteq> []"
  by (subst components_eq) simp

lemma cstring_drop:
  assumes "cstring m p (xs @ ys)"
  shows "cstring m (p + of_nat (length xs)) ys"
  using assms
proof (induction xs arbitrary: p)
  case (Cons x xs)
  then have "cstring m (p + 1 + of_nat (length xs)) ys" by (intro Cons.IH) simp
  then show ?case by (simp add: add.assoc)
qed simp

definition path_at :: "fs_state \<Rightarrow> u64 \<Rightarrow> u8 list \<Rightarrow> bool" where
  "path_at s p xs \<longleftrightarrow> cstring (fs_bytes s) p xs \<and> (\<forall>i\<le>length xs. owned (fs_mem s) (p + of_nat i))"

lemma path_at_same:
  assumes "path_at s p xs" and "\<And>y. owned (fs_mem s) y \<Longrightarrow> fs_bytes t y = fs_bytes s y"
  shows "cstring (fs_bytes t) p xs"
  using cstring_cong [of xs "fs_bytes t" p "fs_bytes s" p] assms by (simp add: path_at_def)

lemma path_at_drop: "path_at s p (xs @ ys) \<Longrightarrow> path_at s (p + of_nat (length xs)) ys"
proof -
  assume a: "path_at s p (xs @ ys)"
  have "owned (fs_mem s) (p + of_nat (length xs) + of_nat i)" if "i \<le> length ys" for i
    using a that spec [of "\<lambda>i. i \<le> length (xs @ ys) \<longrightarrow> owned (fs_mem s) (p + of_nat i)" "length xs + i"] by (simp add: path_at_def add.assoc)
  then show ?thesis using a cstring_drop by (simp add: path_at_def)
qed

lemma path_step_spec:
  assumes ok: "fs_ok s" and sp: "spare room s" and fd: "fd_at n s = Some fd" and f: "file_ok s (fd_inode fd)"
    and al: "32 dvd bsz s" "32 dvd unat (fd_pos fd)" and p: "unat (fd_pos fd) + 32 \<le> unat (i_size (fd_inode fd))"
    and path: "path_at s path xs" and e: "dirent_of (chunk s (fd_inode fd) (unat (fd_pos fd))) = (name, i)" "47 \<notin> set name"
  defines "c \<equiv> takeWhile (\<lambda>c. c \<noteq> 47) xs" and "rest \<equiv> dropWhile (\<lambda>c. c \<noteq> 47) xs"
    and "next_fd \<equiv> fd\<lparr>fd_pos := fd_pos fd + 32\<rparr>"
  shows "name = [] \<or> c \<noteq> name \<Longrightarrow> \<exists>s'. path_step n path s = Some (Inr path, s') \<and> same s s' \<and>
      file_descriptor_table s' = (file_descriptor_table s)(unat n := next_fd)"
    "name \<noteq> [] \<Longrightarrow> c = name \<Longrightarrow> rest = [] \<Longrightarrow> \<exists>s'. path_step n path s = Some (Inl i, s') \<and> same s s' \<and>
      file_descriptor_table s' = (file_descriptor_table s)(unat n := next_fd)"
    "name \<noteq> [] \<Longrightarrow> c = name \<Longrightarrow> rest = x # ys \<Longrightarrow> dir_ok s i \<Longrightarrow>
      \<exists>s'. path_step n path s = Some (Inr (path + of_nat (length name) + 1), s') \<and> same s s' \<and>
        file_descriptor_table s' = (file_descriptor_table s)(unat n := fd\<lparr>fd_inode := inode_at s i, fd_pos := 0\<rparr>)"
proof -
  obtain q s1 where r: "read_dirent n s = Some (\<lparr>d_inode = i, d_name = q\<rparr>, s1)" and h: "holding room s q s1" and cs: "cstring (fs_bytes s1) q name"
    and t: "file_descriptor_table s1 = (file_descriptor_table s)(unat n := next_fd)"
    using read_dirent_spec [OF ok sp fd f al p] by (auto simp: e next_fd_def)
  have b: "fs_ok s1" "same_disk s s1" "\<And>y. owned (fs_mem s) y \<Longrightarrow> fs_bytes s1 y = fs_bytes s y" using h by (auto simp: holding_def)
  note cp = path_at_same [OF path b(3)]
  have "length name \<le> 28" using e(1) length_takeWhile_le [of "\<lambda>c. c \<noteq> 0" "take 28 (chunk s (fd_inode fd) (unat (fd_pos fd)))"] by (auto simp: dirent_of_def)
  then have m: "filename_match path q (fs_bytes s1) = (if c = name then int (length name) else -1)"
    using filename_match_component [OF cp cs] e(2) by (simp add: c_def)
  obtain s2 where s2: "fs_kfree q s1 = Some s2" "same s s2" "file_descriptor_table s2 = file_descriptor_table s1"
    using holding_kfree [OF ok sp h] .
  show "\<exists>s'. path_step n path s = Some (Inr path, s') \<and> same s s' \<and> file_descriptor_table s' = (file_descriptor_table s)(unat n := next_fd)"
    if "name = [] \<or> c \<noteq> name"
    using that m s2 t by (auto simp: path_step_def r)
  have xs: "xs = c @ rest" by (simp add: c_def rest_def)
  have at: "cstring (fs_bytes s1) (path + of_nat (length name)) rest" if "c = name" using cp that cstring_drop unfolding xs by blast
  show "\<exists>s'. path_step n path s = Some (Inl i, s') \<and> same s s' \<and> file_descriptor_table s' = (file_descriptor_table s)(unat n := next_fd)"
    if "name \<noteq> []" "c = name" "rest = []"
    using that m s2 t at by (auto simp: path_step_def r)
  assume d: "name \<noteq> []" "c = name" "rest = x # ys" "dir_ok s i"
  have di: "dir_ok s1 i" "inode_at s1 i = inode_at s i" using dir_same [OF ok b(2) b(3) [OF disk_is_owned [OF ok]] d(4)] by auto
  define s3 where "s3 = fd_upd n (\<lambda>fd. fd\<lparr>fd_inode := inode_at s i, fd_pos := 0\<rparr>)
     (s1\<lparr>filesystem := (filesystem s1)\<lparr>seek_cursor := disk_addr s1 (unat i) 0\<rparr>\<rparr>)"
  have ri: "read_inode i s1 = Some (inode_at s i, s1\<lparr>filesystem := (filesystem s1)\<lparr>seek_cursor := disk_addr s1 (unat i) 0\<rparr>\<rparr>)"
    using read_inode_spec [OF b(1), of i] di by (auto simp: dir_ok_def)
  have "stays s1 s3" using b(1) by (simp add: stays_def s3_def fd_upd_def same_disk_def fs_ok_def)
  then have h3: "holding room s q s3" by (rule holding_stays [OF h]) (simp add: s3_def fd_upd_def fs_bytes_def)
  obtain s4 where s4: "fs_kfree q s3 = Some s4" "same s s4" "file_descriptor_table s4 = file_descriptor_table s3"
    using holding_kfree [OF ok sp h3] .
  have "file_descriptor_table s3 = (file_descriptor_table s)(unat n := fd\<lparr>fd_inode := inode_at s i, fd_pos := 0\<rparr>)"
    by (simp add: s3_def fd_upd_def t next_fd_def)
  moreover have "path_step n path s = Some (Inr (path + of_nat (length name) + 1), s4)"
    using d at m ri s4(1) by (simp add: path_step_def r Let_def s3_def add.assoc)
  ultimately show "\<exists>s'. path_step n path s = Some (Inr (path + of_nat (length name) + 1), s') \<and> same s s' \<and>
        file_descriptor_table s' = (file_descriptor_table s)(unat n := fd\<lparr>fd_inode := inode_at s i, fd_pos := 0\<rparr>)"
    using s4 by auto
qed

text \<open>
  The loop of \<open>inode_of_path\<close>, in a directory of which the entries from the \<open>j\<close>-th on are left.
\<close>

lemma dir_entry:
  assumes ok: "fs_ok s" and b: "same_disk s t" "\<And>y. on_disk s y \<Longrightarrow> fs_bytes t y = fs_bytes s y"
    and d: "dir_ok s d" and j: "j < length (listing s d)"
  shows "file_ok t (inode_at s d)" "dirent_of (chunk t (inode_at s d) (32 * j)) = listing s d ! j" 
    "32 * j + 32 \<le> unat (i_size (inode_at s d))" "47 \<notin> set (fst (listing s d ! j))"
proof -
  have f: "file_ok s (inode_at s d)" using d by (simp add: dir_ok_def)
  have F: "file_ok t (inode_at s d)" "contents t (inode_at s d) = contents s (inode_at s d)"
    using file_write_elsewhere [OF ok f b(1)] b(2) by blast+
  show "file_ok t (inode_at s d)" by (rule F)
  have jd: "j < unat (i_size (inode_at s d)) div 32" using j by (simp add: listing_def)
  then show "32 * j + 32 \<le> unat (i_size (inode_at s d))" by simp
  show "dirent_of (chunk t (inode_at s d) (32 * j)) = listing s d ! j" using jd by (simp add: listing_def chunk_def F(2))
  show "47 \<notin> set (fst (listing s d ! j))" using d nth_mem [OF j] by (auto simp: dir_ok_def)
qed

lemma path_at_still: "path_at s p xs \<Longrightarrow> same s t \<Longrightarrow> path_at t p xs"
  using path_at_same [of s p xs t] staysD(5) [of s t] by (simp add: path_at_def same_def)

lemma resolve_skip:
  assumes "name = [] \<or> c \<noteq> name"
  shows "resolve ls ((name, i) # es) (c # cs) = resolve ls es (c # cs)" "visited ls ((name, i) # es) (c # cs) = visited ls es (c # cs)"
  using assms by (auto simp: find_name_def)

text \<open>
  The loop searches the entries of directory \<open>d\<close> from the \<open>j\<close>-th on for the first component of \<open>xs\<close>; what is
  left to find is \<open>target\<close>.
\<close>

definition target :: "fs_state \<Rightarrow> u32 \<Rightarrow> nat \<Rightarrow> u8 list \<Rightarrow> u32 option" where
  "target s d j xs = resolve (listing s) (drop j (listing s d)) (components xs)"

definition searching :: "fs_state \<Rightarrow> u32 \<Rightarrow> u64 \<Rightarrow> u8 list \<Rightarrow> u32 \<Rightarrow> nat \<Rightarrow> file_descriptor \<Rightarrow> fs_state \<Rightarrow> bool" where
  "searching s n path xs d j fd t \<longleftrightarrow> same s t \<and> fd_at n t = Some fd \<and> fd_inode fd = inode_at s d \<and> dir_ok s d \<and>
     unat (fd_pos fd) = 32 * j \<and> j \<le> length (listing s d) \<and> path_at s path xs \<and>
     (\<forall>i\<in>set (visited (listing s) (drop j (listing s d)) (components xs)). dir_ok s i)"

definition finds :: "fs_state \<Rightarrow> u32 \<Rightarrow> u64 \<Rightarrow> fs_state \<Rightarrow> file_descriptor \<Rightarrow> u32 option \<Rightarrow> bool" where
  "finds s n path t fd r \<longleftrightarrow> (\<exists>t' fd'. path_loop n path t = Some (case r of None \<Rightarrow> -1 | Some i \<Rightarrow> i, t') \<and> same s t' \<and>
     file_descriptor_table t' = (file_descriptor_table t)(unat n := fd') \<and> fd_closed fd' = (if r = None then 1 else fd_closed fd))"

lemma searchingD:
  assumes "searching s n path xs d j fd t"
  shows "same s t" "fd_at n t = Some fd" "fd_inode fd = inode_at s d" "dir_ok s d" "unat (fd_pos fd) = 32 * j" "j \<le> length (listing s d)"
    "path_at s path xs" "\<forall>i\<in>set (visited (listing s) (drop j (listing s d)) (components xs)). dir_ok s i"
  using assms by (simp_all add: searching_def)

lemma search_end:
  assumes "searching s n path xs d j fd t" and "j = length (listing s d)"
  shows "finds s n path t fd (target s d j xs)"
proof -
  note P = searchingD [OF assms(1)]
  have "32 * length (listing s d) = unat (i_size (inode_at s d))" using P(4) by (simp add: dir_ok_def listing_def)
  then have "is_at_end_of_file n t = Some True" using P assms(2) by (simp add: is_at_end_of_file_def word_le_nat_alt)
  then have "path_loop n path t = Some (-1, fd_upd n (fd_closed_update (\<lambda>_. 1)) t)"
    using P(2) by (subst path_loop.simps) (simp add: fclose_def)
  moreover have "target s d j xs = None"
    using assms(2) unfolding target_def by (subst components_eq) (simp add: find_name_def)
  moreover have "same s (fd_upd n (fd_closed_update (\<lambda>_. 1)) t)" using P(1) by (simp add: same_def fd_upd_def fs_bytes_def)
  ultimately show ?thesis using fd_atD [OF P(2)] unfolding finds_def
    by (intro exI [of _ "fd_upd n (fd_closed_update (\<lambda>_. 1)) t"] exI [of _ "fd\<lparr>fd_closed := 1\<rparr>"]) (auto simp: fd_upd_def)
qed

lemma finds_next:
  assumes "finds s n path' t1 fd1 r" and "path_step n path t = Some (Inr path', t1)" and "is_at_end_of_file n t = Some False"
    and "file_descriptor_table t1 = (file_descriptor_table t)(unat n := fd1)" and "fd_closed fd1 = fd_closed fd"
  shows "finds s n path t fd r"
  using assms unfolding finds_def by (subst path_loop.simps) auto

text \<open>A round of the search: the entry is not the one, it is what the path names, or it is a directory to go on in.\<close>

lemma search_round:
  assumes ok: "fs_ok s" and sp: "spare room s" and al: "32 dvd bsz s" and se: "searching s n path xs d j fd t" and j: "j < length (listing s d)"
  obtains (skip) t1 where "path_step n path t = Some (Inr path, t1)" "target s d (Suc j) xs = target s d j xs"
    "searching s n path xs d (Suc j) (fd\<lparr>fd_pos := fd_pos fd + 32\<rparr>) t1"
    "file_descriptor_table t1 = (file_descriptor_table t)(unat n := fd\<lparr>fd_pos := fd_pos fd + 32\<rparr>)"
  | (found) t1 i where "path_step n path t = Some (Inl i, t1)" "target s d j xs = Some i" "same s t1"
    "file_descriptor_table t1 = (file_descriptor_table t)(unat n := fd\<lparr>fd_pos := fd_pos fd + 32\<rparr>)"
  | (down) t1 i path' ys where "path_step n path t = Some (Inr path', t1)" "length ys < length xs" "target s i 0 ys = target s d j xs"
    "searching s n path' ys i 0 (fd\<lparr>fd_inode := inode_at s i, fd_pos := 0\<rparr>) t1"
    "file_descriptor_table t1 = (file_descriptor_table t)(unat n := fd\<lparr>fd_inode := inode_at s i, fd_pos := 0\<rparr>)"
proof -
  note P = searchingD [OF se]
  have sd: "same_disk s t" "\<And>y. on_disk s y \<Longrightarrow> fs_bytes t y = fs_bytes s y"
    using P(1) stays_same_disk disk_is_owned [OF ok] by (auto simp: same_def)
  note T = staysD [OF P(1) [unfolded same_def, THEN conjunct1]] and E = dir_entry [OF ok sd P(4) j]
  have sp': "spare room t" using spare_stays sp P(1) by (auto simp: same_def)
  obtain name i where e: "listing s d ! j = (name, i)" by (cases "listing s d ! j")
  define c where "c = takeWhile (\<lambda>c. c \<noteq> 47) xs"
  define rest where "rest = dropWhile (\<lambda>c. c \<noteq> 47) xs"
  have dj: "drop j (listing s d) = (name, i) # drop (Suc j) (listing s d)" using Cons_nth_drop_Suc [OF j] e by simp
  have cm: "components xs = c # (case rest of [] \<Rightarrow> [] | _ # ys \<Rightarrow> components ys)" using components_eq by (simp add: c_def rest_def)
  have f: "file_ok t (fd_inode fd)" "32 dvd bsz t" "32 dvd unat (fd_pos fd)" "unat (fd_pos fd) + 32 \<le> unat (i_size (fd_inode fd))"
    "dirent_of (chunk t (fd_inode fd) (unat (fd_pos fd))) = (name, i)" "47 \<notin> set name"
    using P(3,5) E e al T(2) by simp_all
  note step = path_step_spec [OF T(1) sp' P(2) f(1-4) path_at_still [OF P(7,1)] f(5,6), folded c_def rest_def]
  consider "name = [] \<or> c \<noteq> name" | "name \<noteq> []" "c = name" "rest = []" | x ys where "name \<noteq> []" "c = name" "rest = x # ys"
    by (cases rest) auto
  then show thesis
  proof cases
    case 1
    then obtain t1 where t1: "path_step n path t = Some (Inr path, t1)" "same t t1"
        "file_descriptor_table t1 = (file_descriptor_table t)(unat n := fd\<lparr>fd_pos := fd_pos fd + 32\<rparr>)" using step(1) by blast
    have "unat (fd_pos fd + 32) = 32 * Suc j" using P(5) f(4) file_size(1) [OF T(1) f(1)] by (simp add: unat_word_ariths)
    moreover note rs = resolve_skip [OF 1, of "listing s" i "drop (Suc j) (listing s d)", folded dj]
    ultimately have "searching s n path xs d (Suc j) (fd\<lparr>fd_pos := fd_pos fd + 32\<rparr>) t1"
      using P j fd_at_upd [OF P(2) t1(3)] same_trans [OF P(1) t1(2)] by (simp add: searching_def cm)
    then show thesis using skip t1(1,3) rs(1) by (simp add: target_def cm)
  next
    case 2
    then obtain t1 where "path_step n path t = Some (Inl i, t1)" "same t t1"
        "file_descriptor_table t1 = (file_descriptor_table t)(unat n := fd\<lparr>fd_pos := fd_pos fd + 32\<rparr>)" using step(2) by blast
    then show thesis using found 2 same_trans [OF P(1)] by (simp add: target_def cm dj find_name_def)
  next
    case 3
    have xs: "xs = (name @ [x]) @ ys" using 3 by (metis append.assoc append_Cons append_Nil c_def rest_def takeWhile_dropWhile_id)
    have rs: "target s d j xs = target s i 0 ys"
      "visited (listing s) (drop j (listing s d)) (components xs) = i # visited (listing s) (listing s i) (components ys)"
      unfolding target_def cm dj using 3 components_ne by (simp_all add: find_name_def)
    have di: "dir_ok s i" using P(8) rs(2) by simp
    have D: "dir_ok t i" "inode_at t i = inode_at s i" using dir_same [OF ok sd di] by blast+
    obtain t1 where t1: "path_step n path t = Some (Inr (path + of_nat (length name) + 1), t1)" "same t t1"
        "file_descriptor_table t1 = (file_descriptor_table t)(unat n := fd\<lparr>fd_inode := inode_at s i, fd_pos := 0\<rparr>)"
      using step(3) [OF 3 D(1), unfolded D(2)] by (elim exE conjE)
    have "path_at s (path + of_nat (length name) + 1) ys" using path_at_drop [of s path "name @ [x]" ys] P(7) by (simp add: xs ac_simps)
    then have "searching s n (path + of_nat (length name) + 1) ys i 0 (fd\<lparr>fd_inode := inode_at s i, fd_pos := 0\<rparr>) t1"
      using P(8) rs(2) di fd_at_upd [OF P(2) t1(3)] same_trans [OF P(1) t1(2)] by (simp add: searching_def)
    then show thesis using t1(3) by (intro down [OF t1(1) _ rs(1) [symmetric]]) (simp_all add: xs)
  qed
qed

lemma path_loop_spec:
  assumes "fs_ok s" "spare room s" "32 dvd bsz s" "searching s n path xs d j fd t"
  shows "finds s n path t fd (target s d j xs)"
  using assms(4)
proof (induction xs arbitrary: t fd d j path rule: length_induct)
  case (1 xs)
  show ?case
    using "1.prems"
  proof (induction "length (listing s d) - j" arbitrary: t fd j)
    case 0
    then show ?case using search_end [OF "0.prems"] searchingD(6) [OF "0.prems"] by simp
  next
    case (Suc m)
    have j: "j < length (listing s d)" using Suc(2) by simp
    note P = searchingD [OF Suc.prems]
    have "32 * j < unat (i_size (inode_at s d))" using j P(4) by (simp add: dir_ok_def listing_def)
    then have lt: "is_at_end_of_file n t = Some False" using P by (simp add: is_at_end_of_file_def word_le_nat_alt)
    show ?case
    proof (rule search_round [OF assms(1-3) Suc.prems j], goal_cases skip found down)
      case (skip t1)
      have "finds s n path t1 (fd\<lparr>fd_pos := fd_pos fd + 32\<rparr>) (target s d (Suc j) xs)" by (rule Suc(1)) (use Suc(2) skip in simp_all)
      then show ?case using finds_next [OF _ skip(1) lt skip(4)] skip(2) by simp
    next
      case (found t1 i)
      then have "path_loop n path t = Some (i, t1)" using lt by (subst path_loop.simps) simp
      then show ?case using found by (auto simp: finds_def)
    next
      case (down t1 i path' ys)
      have "finds s n path' t1 (fd\<lparr>fd_inode := inode_at s i, fd_pos := 0\<rparr>) (target s i 0 ys)" using "1.IH" down(2,4) by blast
      then show ?case using finds_next [OF _ down(1) lt down(5)] down(3) by simp
    qed
  qed
qed

section \<open>Opening files\<close>

definition strip_slash :: "u8 list \<Rightarrow> u8 list" where
  "strip_slash xs = (case xs of c # cs \<Rightarrow> if c = 47 then cs else xs | [] \<Rightarrow> [])"

text \<open>The path \<open>xs\<close> can be resolved: every directory on the way is well formed.\<close>

definition path_ok :: "fs_state \<Rightarrow> u8 list \<Rightarrow> bool" where
  "path_ok s xs \<longleftrightarrow> dir_ok s (root_inode (filesystem s)) \<and>
     (\<forall>i\<in>set (visited (listing s) (listing s (root_inode (filesystem s))) (components (strip_slash xs))). dir_ok s i)"

definition resolved :: "fs_state \<Rightarrow> u8 list \<Rightarrow> u32 option" where
  "resolved s xs = resolve (listing s) (listing s (root_inode (filesystem s))) (components (strip_slash xs))"

lemma free_slot:
  assumes "get_next_available_file_descriptor_slot s \<noteq> -1"
  shows "unat (get_next_available_file_descriptor_slot s) < MAX_FILE_DESCRIPTORS"
    "fd_closed (file_descriptor_table s (unat (get_next_available_file_descriptor_slot s))) \<noteq> 0"
proof -
  obtain i where i: "List.find (\<lambda>i. fd_closed (file_descriptor_table s i) \<noteq> 0) [0..<MAX_FILE_DESCRIPTORS] = Some i"
    using assms by (auto simp: get_next_available_file_descriptor_slot_def split: option.splits)
  then have "i < MAX_FILE_DESCRIPTORS" "fd_closed (file_descriptor_table s i) \<noteq> 0"
    by (auto simp: find_Some_iff)
  moreover from this have "unat (of_nat i :: u32) = i" by (simp add: unat_of_nat)
  ultimately show "unat (get_next_available_file_descriptor_slot s) < MAX_FILE_DESCRIPTORS"
    "fd_closed (file_descriptor_table s (unat (get_next_available_file_descriptor_slot s))) \<noteq> 0"
    by (simp_all add: get_next_available_file_descriptor_slot_def i)
qed

lemma iopen_spec:
  assumes ok: "fs_ok s" and n: "unat k < nblocks s" "i_size (inode_at s k) \<le> max_file_size (filesystem s)"
    and slot: "slot = get_next_available_file_descriptor_slot s" "slot \<noteq> -1"
  obtains t fd where "iopen k s = Some (slot, t)" "same s t" "fd_at slot t = Some fd" "fd_inode fd = inode_at s k" "fd_pos fd = 0" "fd_closed fd = 0"
    "file_descriptor_table t = (file_descriptor_table s)(unat slot := fd)"
proof -
  have "nblocks s \<le> 2 ^ 28"
  proof -
    have "nblocks s * 16 \<le> nblocks s * bsz s" using ok by (intro mult_left_mono) (auto simp: fs_ok_def)
    moreover have "nblocks s * bsz s \<le> 2 ^ 32" using ok by (simp add: fs_ok_def)
    ultimately have "nblocks s * 16 \<le> 2 ^ 32" by (rule le_trans)
    then show ?thesis by simp
  qed
  then have "k \<noteq> -1" using n(1) by (auto simp: unsigned_minus_1_eq_mask mask_eq_exp_minus_1)
  let ?fd = "(file_descriptor_table s (unat slot))\<lparr>fd_inode := inode_at s k, fd_pos := 0, fd_closed := 0\<rparr>"
  define t where "t = s\<lparr>filesystem := (filesystem s)\<lparr>seek_cursor := disk_addr s (unat k) 0\<rparr>, 
     file_descriptor_table := (file_descriptor_table s)(unat slot := ?fd)\<rparr>"
  have "iopen k s = Some (slot, t)" using slot(2) \<open>k \<noteq> -1\<close> read_inode_spec [OF ok n] by (simp add: iopen_def slot(1) [symmetric] t_def fd_upd_def)
  moreover have "same s t" using ok by (simp add: same_def t_def stays_def same_disk_def fs_ok_def fs_bytes_def)
  moreover have "fd_at slot t = Some ?fd" using free_slot(1) slot by (simp add: fd_at_def t_def)
  ultimately show thesis using that by (simp add: t_def)
qed

section \<open>A disk with two directories\<close>

text \<open>
  The root directory, inode 1, holds the directory \<open>a\<close>, inode 3, and that holds the file \<open>b\<close>, inode 5. The path
  \<open>/a/b\<close>, an empty string and the literals for printing entries are in memory.
\<close>

definition tree_bytes :: "(u64 \<times> u8) list" where
  "tree_bytes = [(0x4000043, 1), (0x400004b, 32), (0x400004f, 2), (0x4000080, 97), (0x400009f, 3),
     (0x40000c3, 1), (0x40000cb, 32), (0x40000cf, 4), (0x4000100, 98), (0x400011f, 5),
     (0x1000, 47), (0x1001, 97), (0x1002, 47), (0x1003, 98), (0x4400020, 0), (0x3000, 10), (0x3001, 9), (0x3002, 32), (0x3003, 32),
     (0x3010, 37), (0x3011, 100), (0x3012, 32), (0x3013, 58), (0x3014, 32), (0x3015, 37), (0x3016, 115), (0x3017, 47), (0x3018, 37),
     (0x3019, 115), (0x301a, 13), (0x301b, 10)]"

definition tree_disk :: "bytes \<Rightarrow> bytes" where
  "tree_disk m y = (case map_of tree_bytes y of Some v \<Rightarrow> v | None \<Rightarrow> if unat y < 0x4400000 then 0 else m y)"

definition tree_fs :: "alloc_state \<Rightarrow> fs_state" where
  "tree_fs a = \<lparr>fs_mem = a\<lparr>heap := tree_disk (heap a)\<rparr>,
     filesystem = \<lparr>fs_start = 0x4000000, fs_end = 0x4000184, superblock = 0x4000000, inode_count = 3, last_free_inode = 0,
       free_block_list = 0, free_block_count = 0, root_inode = 1, fs_block_size = 64, block_count = 6, block_word_size = 16,
       blocktable_size = 13, blocktable_offset = 12, max_file_size = 832, fs_type = 0, seek_cursor = 0x4000000\<rparr>,
     file_descriptor_table = (\<lambda>_. (example_fd 0)\<lparr>fd_closed := 1\<rparr>)\<rparr>"

lemma tree_geometry [simp]:
  "bsz (tree_fs a) = 64" "nblocks (tree_fs a) = 6" "disk_addr (tree_fs a) k i = 0x4000000 + of_nat (k * 64 + i)"
  "root_inode (filesystem (tree_fs a)) = 1" "max_file_size (filesystem (tree_fs a)) = 832" "fs_bytes (tree_fs a) = tree_disk (heap a)"
  by (simp_all add: tree_fs_def disk_addr_def fs_bytes_def)

lemma tree_inode:
  "inode_at (tree_fs a) 1 = \<lparr>i_index = 1, i_kind = 1, i_nlink = 0, i_size = 32, i_blocks = 0x400004c\<rparr>"
  "inode_at (tree_fs a) 3 = \<lparr>i_index = 3, i_kind = 1, i_nlink = 0, i_size = 32, i_blocks = 0x40000cc\<rparr>"
  by (simp_all add: inode_at_def load32_def load4 tree_disk_def tree_bytes_def switch_endianness_def)

lemma tree_block:
  "i_blocks ino = 0x400004c \<Longrightarrow> file_block (tree_fs a) ino 0 = 2" "i_blocks ino = 0x40000cc \<Longrightarrow> file_block (tree_fs a) ino 0 = 4"
  by (simp_all add: file_block_def load32_def load4 tree_disk_def tree_bytes_def switch_endianness_def)

lemma tree_rows:
  "map (\<lambda>i. tree_disk m (0x4000080 + of_nat i)) [0..<32] = 97 # replicate 30 0 @ [3]"
  "map (\<lambda>i. tree_disk m (0x4000100 + of_nat i)) [0..<32] = 98 # replicate 30 0 @ [5]"
proof -
  have u: "[0..<32] = [0, 1, 2, 3, 4, 5, 6, 7, 8, 9, 10, 11, 12, 13, 14, 15, 16, 17, 18, 19, 20, 21, 22, 23, 24, 25, 26, 27, 28, 29, 30, 31]"
    by code_simp
  have r: "replicate 30 (0 :: u8) = [0, 0, 0, 0, 0, 0, 0, 0, 0, 0, 0, 0, 0, 0, 0, 0, 0, 0, 0, 0, 0, 0, 0, 0, 0, 0, 0, 0, 0, 0]"
    by code_simp
  show "map (\<lambda>i. tree_disk m (0x4000080 + of_nat i)) [0..<32] = 97 # replicate 30 0 @ [3]"
    "map (\<lambda>i. tree_disk m (0x4000100 + of_nat i)) [0..<32] = 98 # replicate 30 0 @ [5]"
    unfolding u r list.map by (simp_all add: tree_disk_def tree_bytes_def)
qed

lemma tree_chunk:
  assumes "i_size ino = 32"
  shows "i_blocks ino = 0x400004c \<Longrightarrow> chunk (tree_fs a) ino 0 = 97 # replicate 30 0 @ [3]"
    "i_blocks ino = 0x40000cc \<Longrightarrow> chunk (tree_fs a) ino 0 = 98 # replicate 30 0 @ [5]"
proof -
  have c: "chunk (tree_fs a) ino 0 = map (\<lambda>i. tree_disk (heap a) (0x4000000 + of_nat (file_block (tree_fs a) ino 0 * 64 + i))) [0..<32]"
    by (rule nth_equalityI) (simp_all add: chunk_def contents_def file_addr_def assms)
  show "i_blocks ino = 0x400004c \<Longrightarrow> chunk (tree_fs a) ino 0 = 97 # replicate 30 0 @ [3]"
    "i_blocks ino = 0x40000cc \<Longrightarrow> chunk (tree_fs a) ino 0 = 98 # replicate 30 0 @ [5]"
    using tree_rows [of "heap a"] by (simp_all add: c tree_block add.assoc [symmetric])
qed

lemma tree_listing: "listing (tree_fs a) 1 = [([97], 3)]" "listing (tree_fs a) 3 = [([98], 5)]"
proof -
  have "replicate 3 (0 :: u8) = [0, 0, 0]" by code_simp
  then show "listing (tree_fs a) 1 = [([97], 3)]" "listing (tree_fs a) 3 = [([98], 5)]"
    by (simp_all add: listing_def tree_inode tree_chunk dirent_of_def big_endian_def)
qed

lemma tree_dir_ok: "dir_ok (tree_fs a) 1" "dir_ok (tree_fs a) 3"
proof -
  have "file_ok (tree_fs a) (inode_at (tree_fs a) 1)" "file_ok (tree_fs a) (inode_at (tree_fs a) 3)"
    unfolding file_ok_def by (intro exI [of _ 1], simp add: tree_inode tree_block) (intro exI [of _ 3], simp add: tree_inode tree_block)
  then show "dir_ok (tree_fs a) 1" "dir_ok (tree_fs a) 3" by (simp_all add: dir_ok_def tree_listing) (simp_all add: tree_inode)
qed

lemma tree_fs_ok:
  obtains a where "fs_ok (tree_fs a)" "spare 128 (tree_fs a)" "path_at (tree_fs a) 0x1000 [47, 97, 47, 98]"
    "unat (heap_begin a) = 0x4400000" "live_blocks (fs_mem (tree_fs a)) = {(0x4400020, 96)}"
proof -
  have bv: "block_size 480 = 480" "block_size 65 = 96" by (simp_all add: block_size_def next_power_of_2_eq [of _ 9] next_power_of_2_eq [of _ 7])
  obtain s1 where s1: "heap_inv s1 [(0x4400000, 96, False)]"
    using kmalloc_spec [OF fresh_heap_inv, of 96] by (auto simp: spec_kmalloc_def block_size_values fresh_brk)
  then have b1: "brk s1 = 0x4400080" by (simp add: heap_inv_def)
  obtain s2 where s2: "heap_inv s2 ([(0x4400000, 96, False)] @ (0x4400080, 480, False) # [])"
    using kmalloc_spec [OF s1, of 480] by (auto simp: spec_kmalloc_def fits_def bv b1)
  obtain a where a: "heap_inv a [(0x4400000, 96, False), (0x4400080, 480, True)]"
    using kfree_spec [OF s2] by (auto simp: release_def absorb_def)
  let ?s = "tree_fs a"
  have hb: "unat (heap_begin a) = 0x4400000" "brk a = 0x4400280" using a by (simp_all add: heap_inv_def)
  have inv: "heap_inv (fs_mem ?s) [(0x4400000, 96, False), (0x4400080, 480, True)]"
    unfolding tree_fs_def fs_state.simps
    by (rule heap_inv_write [OF a]) (auto simp: in_header_def span_def tree_disk_def tree_bytes_def)
  have "kmalloc 65 (fs_mem ?s) \<noteq> None" by (intro kmalloc_fits [OF inv]) (simp_all add: fits_def bv)
  then have "fs_ok ?s" using inv hb by (auto simp: fs_ok_def heap_ok_def tree_fs_def)
  moreover have "spare 128 ?s"
    unfolding spare_def free_region_def live_blocks_used [OF inv]
    by (intro conjI exI [of _ "0x4400080"]) (use hb in \<open>simp_all add: tree_fs_def bv brk_def\<close>)
  moreover have "path_at ?s 0x1000 [47, 97, 47, 98]"
  proof -
    have "heap_begin (fs_mem ?s) = heap_begin a" by (simp add: tree_fs_def)
    moreover have "unat (0x1000 + of_nat i :: u64) = 0x1000 + i" if "i \<le> 4" for i using that by (simp add: unat_word_ariths unat_of_nat)
    ultimately have "owned (fs_mem ?s) (0x1000 + of_nat i)" if "i \<le> 4" for i using that hb by (simp add: owned_def off_heap_def)
    then show ?thesis by (simp add: path_at_def) (simp add: tree_disk_def tree_bytes_def)
  qed
  moreover have "live_blocks (fs_mem ?s) = {(0x4400020, 96)}" by (simp add: live_blocks_used [OF inv])
  ultimately show thesis using that hb(1) by blast
qed

text \<open>
  C33. \<open>inode_of_path\<close> returns, on every disk whose directories on the way are well formed, the inode that the
  path stands for, and \<open>-1\<close> when one of its components is not found; it ends, gives back what it borrows
  from the heap and changes no byte that belongs to somebody. The descriptor that it opens is closed again
  only when the path is not found: a successful lookup leaves it open.
\<close>

theorem inode_of_path_resolves:
  assumes ok: "fs_ok s" and sp: "spare room s" and al: "32 dvd bsz s" and path: "path_at s path xs" and pok: "path_ok s xs"
    and slot: "slot = get_next_available_file_descriptor_slot s" "slot \<noteq> -1"
  shows "\<exists>s'. inode_of_path path s = Some (case resolved s xs of None \<Rightarrow> -1 | Some i \<Rightarrow> i, s') \<and> fs_ok s' \<and>
     (\<forall>y. owned (fs_mem s) y \<longrightarrow> fs_bytes s' y = fs_bytes s y) \<and>
     (\<forall>k. k \<noteq> unat slot \<longrightarrow> file_descriptor_table s' k = file_descriptor_table s k) \<and>
     fd_closed (file_descriptor_table s' (unat slot)) = (if resolved s xs = None then 1 else 0)"
proof -
  let ?d = "root_inode (filesystem s)"
  have d: "dir_ok s ?d" using pok by (simp add: path_ok_def)
  then have d': "unat ?d < nblocks s" "i_size (inode_at s ?d) \<le> max_file_size (filesystem s)" by (simp_all add: dir_ok_def)
  obtain t fd where t: "iopen ?d s = Some (slot, t)" "same s t" "fd_at slot t = Some fd" "fd_inode fd = inode_at s ?d" "fd_pos fd = 0" "fd_closed fd = 0"
    "file_descriptor_table t = (file_descriptor_table s)(unat slot := fd)" using iopen_spec [OF ok d' slot] .
  define path' where "path' = (if fs_bytes s path = 47 then path + 1 else path)"
  have "path_at s path' (strip_slash xs)" using path path_at_drop [of s path "[47]"]
    by (cases xs) (auto simp: path'_def strip_slash_def path_at_def)
  then have "searching s slot path' (strip_slash xs) ?d 0 fd t" using t pok by (simp add: searching_def path_ok_def)
  from path_loop_spec [OF ok sp al this] have "finds s slot path' t fd (resolved s xs)" by (simp add: resolved_def target_def)
  then obtain t' fd' where "path_loop slot path' t = Some (case resolved s xs of None \<Rightarrow> -1 | Some i \<Rightarrow> i, t')" "same s t'"
     "file_descriptor_table t' = (file_descriptor_table t)(unat slot := fd')" "fd_closed fd' = (if resolved s xs = None then 1 else fd_closed fd)"
    unfolding finds_def by blast
  then show ?thesis using t(1,6,7) staysD(1) [of s t'] by (auto simp: inode_of_path_def path'_def [symmetric] Let_def same_def)
qed


theorem inode_of_path_resolves_witness:
  "\<exists>s s'. fs_ok s \<and> path_at s 0x1000 [47, 97, 47, 98] \<and> inode_of_path 0x1000 s = Some (5, s') \<and> fd_closed (file_descriptor_table s' 0) = 0"
proof -
  obtain a where a: "fs_ok (tree_fs a)" "spare 128 (tree_fs a)" "path_at (tree_fs a) 0x1000 [47, 97, 47, 98]" using tree_fs_ok .
  have r: "resolved (tree_fs a) [47, 97, 47, 98] = Some 5" "path_ok (tree_fs a) [47, 97, 47, 98]"
    by (simp_all add: resolved_def path_ok_def strip_slash_def tree_listing tree_dir_ok find_name_def)
  have slot: "get_next_available_file_descriptor_slot (tree_fs a) = 0"
    by (simp add: get_next_available_file_descriptor_slot_def tree_fs_def upt_conv_Cons)
  show ?thesis using inode_of_path_resolves [OF a(1,2) _ a(3) r(2), of 0] a by (auto simp: r slot)
qed
end
