(* ===== verification/Fs_Listing.thy ===== *)
theory Fs_Listing
  imports Sys Console_Props Fs_Paths
begin

text \<open>
  \<open>print_directory\<close> and \<open>print_filesystem_info\<close> of \<^verbatim>\<open>src/src/libk/filesystem.c\<close>, which read directories and print
  to the serial line. The state is that of the file system with the line; \<open>frame\<close> gives the addresses
  of the buffer of \<open>uart_printf\<close> and of the literals, which are named by their first line.
\<close>

section \<open>Printing\<close>

type_synonym fs_con = "fs_state \<times> uart_t"

definition on_fs :: "(fs_state \<Rightarrow> ('r \<times> fs_state) option) \<Rightarrow> fs_con \<Rightarrow> ('r \<times> fs_con) option" where
  "on_fs f st = map_option (\<lambda>(r, s). (r, s, snd st)) (f (fst st))"

definition fs_printf :: "frame \<Rightarrow> string \<Rightarrow> u64 list \<Rightarrow> fs_con \<Rightarrow> fs_con option" where
  "fs_printf fr fmt args st = map_option (\<lambda>(_, c). (upd_bytes (\<lambda>_. con_mem c) (fst st), device c))
     (uart_printf (fr_buff fr) (lit fr []) (lit fr fmt) args \<lparr>con_mem = fs_bytes (fst st), device = snd st\<rparr>)"

definition fs_free :: "u64 \<Rightarrow> fs_con \<Rightarrow> fs_con option" where
  "fs_free p st = map_option (\<lambda>s. (s, snd st)) (fs_kfree p (fst st))"

definition fs_join :: "u64 \<Rightarrow> u64 \<Rightarrow> fs_state \<Rightarrow> (u64 \<times> fs_state) option" where
  "fs_join dirname name s = map_option (\<lambda>(p, a). (p, s\<lparr>fs_mem := a\<rparr>)) (filename_join dirname name (fs_mem s))"

section \<open>Directories\<close>

text \<open>One round of the loop of \<open>print_directory\<close>; \<open>sub\<close> is the call for a directory inside.\<close>

definition print_entry :: "frame \<Rightarrow> (u32 \<Rightarrow> u64 \<Rightarrow> fs_con \<Rightarrow> fs_con option) \<Rightarrow> u32 \<Rightarrow> u64 \<Rightarrow> fs_con \<Rightarrow> fs_con option" where
  "print_entry fr sub fd dirname st =
     do { (dirent, st) \<leftarrow> on_fs (read_dirent fd) st;
          (dir_inode, st) \<leftarrow> on_fs (read_inode (d_inode dirent)) st;
          st \<leftarrow> fs_printf fr ''%d : %s/%s'' [ucast (d_inode dirent), dirname, d_name dirent] st;
          st \<leftarrow> (if i_kind dir_inode = 1 \<and> \<not> is_special_directory (d_name dirent) (fs_bytes (fst st)) then
                  do { (filename, st) \<leftarrow> on_fs (fs_join dirname (d_name dirent)) st;
                       st \<leftarrow> sub (d_inode dirent) filename st;
                       fs_free filename st }
                else Some st);
          fs_free (d_name dirent) st }"

partial_function (option) print_entries :: "frame \<Rightarrow> (u32 \<Rightarrow> u64 \<Rightarrow> fs_con \<Rightarrow> fs_con option) \<Rightarrow> u32 \<Rightarrow> u64 \<Rightarrow> fs_con \<Rightarrow> fs_con option" where
  "print_entries fr sub fd dirname st =
     is_at_end_of_file fd (fst st) \<bind> (\<lambda>at_end.
       if \<not> at_end then print_entry fr sub fd dirname st \<bind> print_entries fr sub fd dirname
       else on_fs (fclose fd) st \<bind> (\<lambda>r. Some (snd r)))"

text \<open>The recursion goes as many levels deep as \<open>max_depth\<close> says, which is a signed number.\<close>

primrec print_levels :: "frame \<Rightarrow> nat \<Rightarrow> u32 \<Rightarrow> u64 \<Rightarrow> fs_con \<Rightarrow> fs_con option" where
  "print_levels fr 0 inode dirname st = Some st"
| "print_levels fr (Suc d) inode dirname st =
     do { (fd, st) \<leftarrow> on_fs (iopen inode) st;
          print_entries fr (print_levels fr d) fd dirname st }"

definition print_directory :: "frame \<Rightarrow> u32 \<Rightarrow> u64 \<Rightarrow> u32 \<Rightarrow> fs_con \<Rightarrow> fs_con option" where
  "print_directory fr inode dirname max_depth = print_levels fr (nat (sint max_depth)) inode dirname"

definition print_filesystem_info :: "frame \<Rightarrow> fs_con \<Rightarrow> fs_con option" where
  "print_filesystem_info fr st =
     do { (p, st) \<leftarrow> on_fs (fs_kmalloc 100) st;
          st \<leftarrow> fs_free p st;
          st \<leftarrow> fs_printf fr ''Partition default (alive)'' [] st;
          st \<leftarrow> fs_printf fr ''  block_size: %d'' [ucast (fs_block_size (filesystem (fst st)))] st;
          st \<leftarrow> fs_printf fr ''  block_count: %d'' [ucast (block_count (filesystem (fst st)))] st;
          st \<leftarrow> fs_printf fr ''  block_word_size: %d'' [ucast (block_word_size (filesystem (fst st)))] st;
          st \<leftarrow> fs_printf fr ''  i-nodes'' [] st;
          st \<leftarrow> fs_printf fr ''    blocktable_size: %d'' [ucast (blocktable_size (filesystem (fst st)))] st;
          st \<leftarrow> fs_printf fr ''    max_file_size: %d'' [ucast (max_file_size (filesystem (fst st)))] st;
          st \<leftarrow> fs_printf fr ''    blocktable_offset: %d'' [ucast (blocktable_offset (filesystem (fst st)))] st;
          st \<leftarrow> fs_printf fr ''  superblock'' [] st;
          st \<leftarrow> fs_printf fr ''    inode_count: %d'' [ucast (inode_count (filesystem (fst st)))] st;
          st \<leftarrow> fs_printf fr ''    last_free_inode: %d'' [ucast (last_free_inode (filesystem (fst st)))] st;
          st \<leftarrow> fs_printf fr ''    free_block_list: %d'' [ucast (free_block_list (filesystem (fst st)))] st;
          st \<leftarrow> fs_printf fr ''    free_block_count: %d'' [ucast (free_block_count (filesystem (fst st)))] st;
          st \<leftarrow> fs_printf fr ''    fstype: %s'' [fs_type (filesystem (fst st))] st;
          st \<leftarrow> fs_printf fr ''    root_inode: %d''
                  [ucast (switch_endianness (load32 (fs_bytes (fst st)) (superblock (filesystem (fst st)) + 16)))] st;
          st \<leftarrow> fs_printf fr ''Printing directory tree'' [] st;
          (root, st) \<leftarrow> on_fs (fs_kmalloc 1) st;
          print_directory fr 1 root 1 (upd_bytes (\<lambda>m. m(root := 0)) (fst st), snd st) }"

section \<open>Joining names\<close>

lemma filename_join_brk:
  assumes inv: "heap_inv s bs" and c: "cstring (heap s) p xs" "cstring (heap s) q ys" and len: "length xs + length ys + 34 \<le> 2 ^ 30"
    and j: "filename_join p q s = Some (r, s')"
  shows "brk s \<le> brk s'"
proof -
  define n :: u64 where "n = of_nat (length xs + length ys + 2)"
  have n: "unat n = length xs + length ys + 2" unfolding n_def unat_of_nat using len by simp
  then have n0: "0 < n" "unat n + 32 \<le> 2 ^ 30" using len by (simp_all add: word_less_nat_alt)
  have "(of_nat (length xs) + of_nat (length ys) + 2) * 1 = n" by (simp add: n_def)
  then obtain a where a: "kmalloc n s = Some (r, a)" "brk s' = brk a"
    using j strlen_cstring [OF c(1)] strlen_cstring [OF c(2)] by (auto simp: filename_join_def Let_def bind_eq_Some_conv brk_def)
  obtain x bs' where x: "spec_kmalloc (block_size n) (brk s) bs = Some (x, bs')" "heap_inv a bs'" "kept s a bs"
    using kmalloc_cases [OF inv n0 a(1)] by blast
  show ?thesis using spec_kmalloc_extent(1) [OF inv x(1,2) kept_low(1) [OF x(3)]] a(2) by simp
qed

lemma join_and_free:
  assumes ok: "fs_ok s" and v: "free_region (fs_mem s) v room" "unat (block_size (ucast (fs_block_size (filesystem s) + 1))) + 32 \<le> room"
    and r: "unat (block_size (of_nat (length xs + length ys + 2))) + 32 \<le> room" and len: "length xs + length ys + 34 \<le> 2 ^ 30"
    and c: "cstring (fs_bytes s) p xs" "cstring (fs_bytes s) q ys"
    and i: "inside p (length xs + 1) (live_blocks (fs_mem s))" "inside q (length ys + 1) (live_blocks (fs_mem s))"
  obtains f s1 s2 where "fs_join p q s = Some (f, s1)" "fs_kfree f s1 = Some s2" "same s s2" "file_descriptor_table s2 = file_descriptor_table s"
proof -
  have hok: "heap_ok (fs_mem s)" using ok by (simp add: fs_ok_def)
  then obtain bs where inv: "heap_inv (fs_mem s) bs" by (auto simp: heap_ok_def)
  note c' = c [unfolded fs_bytes_def]
  define n :: u64 where "n = of_nat (length xs + length ys + 2)"
  have n: "unat n = length xs + length ys + 2" unfolding n_def unat_of_nat using len by simp
  then have n0: "0 < n" "unat n + 32 \<le> 2 ^ 30" using len by (simp_all add: word_less_nat_alt)
  have "kmalloc n (fs_mem s) \<noteq> None" by (rule free_region_kmalloc [OF hok v(1) n0]) (use r in \<open>simp add: n_def\<close>)
  then have sp: "spec_kmalloc (block_size n) (brk (fs_mem s)) bs \<noteq> None" using kmalloc_spec [OF inv n0] by (auto split: option.splits)
  obtain f a where fa: "filename_join p q (fs_mem s) = Some (f, a)"
    using filename_join_joins [OF inv c' i len] sp unfolding n_def by (auto split: option.splits)
  then obtain k where k: "heap_ok a" "kept (fs_mem s) a bs" "(f, k) \<notin> live_blocks (fs_mem s)" "live_blocks a = insert (f, k) (live_blocks (fs_mem s))"
    using filename_join_joins [OF inv c' i len] by auto
  have b: "heap_begin a = heap_begin (fs_mem s)" "brk (fs_mem s) \<le> brk a" using kept_low(1) [OF k(2)] filename_join_brk [OF inv c' len fa] by auto
  obtain a' where a': "kfree f a = Some a'" "heap_ok a'" "owned a' = owned (fs_mem s)" "live_blocks a' = live_blocks (fs_mem s)"
    "heap_begin a' = heap_begin (fs_mem s)" "brk (fs_mem s) \<le> brk a'" "\<forall>y. owned (fs_mem s) y \<longrightarrow> heap a' y = heap a y"
    using held_block [OF hok k(1,3,4) b, of "heap a"] by auto
  have "free_region a' v room" by (rule free_region_mono [OF v(1) a'(6,5,4)])
  then have "kmalloc (ucast (fs_block_size (filesystem s) + 1)) a' \<noteq> None" by (rule free_region_kmalloc [OF a'(2) _ block_request(2,3) [OF ok] v(2)])
  then have "same s (s\<lparr>fs_mem := a'\<rparr>)"
    using ok a' owned_kept [OF inv k(2)] by (simp add: same_def stays_def same_disk_def fs_ok_def fs_bytes_def)
  then show thesis using that [of f "s\<lparr>fs_mem := a\<rparr>" "s\<lparr>fs_mem := a'\<rparr>"] fa a'(1) by (simp add: fs_join_def fs_kfree_def)
qed

section \<open>Printing a line\<close>

definition fixed :: "frame \<Rightarrow> fs_state \<Rightarrow> u64 \<Rightarrow> u8 list \<Rightarrow> bool" where
  "fixed fr s a xs \<longleftrightarrow> path_at s a xs \<and> (\<forall>i\<le>length xs. \<not> span (fr_buff fr) IO_BUFF_SIZE (a + of_nat i))"

definition entry_format :: "u8 list" where
  "entry_format = [37, 100, 32, 58, 32, 37, 115, 47, 37, 115, 13, 10]"

text \<open>The buffer of \<open>uart_printf\<close> is off the disk and off the free parts of the heap, and the literals are in place.\<close>

definition printable :: "frame \<Rightarrow> fs_state \<Rightarrow> bool" where
  "printable fr s \<longleftrightarrow> unat (fr_buff fr) + IO_BUFF_SIZE \<le> 2 ^ 64 \<and>
     (\<forall>y. span (fr_buff fr) IO_BUFF_SIZE y \<longrightarrow> owned (fs_mem s) y \<and> \<not> on_disk s y) \<and>
     fixed fr s (lit fr []) [10, 9, 32, 32] \<and> fixed fr s (lit fr ''%d : %s/%s'') entry_format"

definition entry_line :: "u8 list \<Rightarrow> u8 list \<times> u32 \<Rightarrow> u8 list" where
  "entry_line dn e = number_text (scast (snd e)) 10 False False @ [32, 58, 32] @ dn @ [47] @ fst e @ [13, 10]"

text \<open>Nothing but the buffer has changed.\<close>

definition same_but :: "frame \<Rightarrow> fs_state \<Rightarrow> fs_state \<Rightarrow> bool" where
  "same_but fr s t \<longleftrightarrow> stays s t \<and> (\<forall>y. owned (fs_mem s) y \<longrightarrow> \<not> span (fr_buff fr) IO_BUFF_SIZE y \<longrightarrow> fs_bytes t y = fs_bytes s y)"

lemma same_but_trans: "same_but fr s t \<Longrightarrow> same_but fr t u \<Longrightarrow> same_but fr s u"
  using stays_trans [of s t u] staysD(5) [of s t] by (simp add: same_but_def)

lemma same_but_same: "same s t \<Longrightarrow> same_but fr s t"
  by (simp add: same_def same_but_def)

lemma fixed_still: "same_but fr s t \<Longrightarrow> fixed fr s a xs \<Longrightarrow> fixed fr t a xs"
  unfolding fixed_def path_at_def same_but_def using cstring_cong [of xs "fs_bytes t" a "fs_bytes s" a] staysD(5) [of s t] by auto

lemma printable_still: "same_but fr s t \<Longrightarrow> printable fr s \<Longrightarrow> printable fr t"
  using fixed_still [of fr s t] staysD(5) [of s t] on_disk_stays [of s t] by (auto simp: printable_def same_but_def)

lemma print_line:
  assumes ok: "fs_ok s" and b: "unat (fr_buff fr) + IO_BUFF_SIZE \<le> 2 ^ 64" "\<And>y. span (fr_buff fr) IO_BUFF_SIZE y \<Longrightarrow> owned (fs_mem s) y"
    and f: "fixed fr s (lit fr []) [10, 9, 32, 32]" "fixed fr s (lit fr ''%d : %s/%s'') entry_format" "fixed fr s p dn" "fixed fr s q name" and pq: "p \<noteq> q"
  obtains m d' where "fs_printf fr ''%d : %s/%s'' [ucast i, p, q] (s, d) = Some (upd_bytes (\<lambda>_. m) s, d')" "sent d' = sent d @ entry_line dn (name, i)"
    "\<forall>y. \<not> span (fr_buff fr) IO_BUFF_SIZE y \<longrightarrow> m y = fs_bytes s y"
proof -
  let ?c = "\<lparr>con_mem = fs_bytes s, device = d\<rparr>"
  define strs where "strs = [p \<mapsto> dn, q \<mapsto> name]"
  have o: "outside (work_area (fr_buff fr) (\<lambda>_. False)) (fs_bytes s) a xs" if "fixed fr s a xs" for a xs
    using that by (simp add: fixed_def path_at_def outside_def work_area_def)
  have env: "printf_env (\<lambda>_. False) (\<lambda>_. True) (fr_buff fr) (lit fr []) strs (con_mem ?c)"
    using o f b(1) by (auto simp: printf_env_def buffer_ok_def strs_def)
  have "ucast (ucast i :: u64) = i" by (rule bit_word_eqI) (simp add: bit_simps)
  then have "render False strs entry_format [ucast i, p, q] = Some (entry_line dn (name, i), True)"
    using pq by (simp add: entry_format_def entry_line_def strs_def arg_text_def)
  from uart.internal_printf_text [OF env _ this] o [OF f(2)] obtain w c where
    c: "uart_printf (fr_buff fr) (lit fr []) (lit fr ''%d : %s/%s'') [ucast i, p, q] ?c = Some (w, c)"
    "emits sent (\<lambda>_. True) (work_area (fr_buff fr) (\<lambda>_. False)) (entry_line dn (name, i)) ?c c"
    unfolding uart_printf_def by fastforce
  show thesis
    by (rule that [of "con_mem c" "device c"]) (use c in \<open>auto simp: fs_printf_def emits_def same_outside_def work_area_def\<close>)
qed

section \<open>One entry\<close>

text \<open>The state in which the same bytes of the buffer are changed before the entry is read.\<close>

lemma rebase:
  assumes ok: "fs_ok s" and h: "holding room s q s1" and b: "\<And>y. span (fr_buff fr) IO_BUFF_SIZE y \<Longrightarrow> owned (fs_mem s) y"
    and m: "\<And>y. \<not> span (fr_buff fr) IO_BUFF_SIZE y \<Longrightarrow> m y = fs_bytes s1 y"
  obtains s' where "same_but fr s s'" "holding room s' q (upd_bytes (\<lambda>_. m) s1)"
proof -
  define m0 where "m0 = (\<lambda>y. if span (fr_buff fr) IO_BUFF_SIZE y then m y else fs_bytes s y)"
  define s' where "s' = upd_bytes (\<lambda>_. m0) s"
  have st: "stays s s'" unfolding s'_def by (rule fs_ok_write [OF ok]) (use b in \<open>auto simp: m0_def\<close>)
  have by': "fs_bytes s' = m0" by (simp add: s'_def fs_bytes_def upd_bytes_def)
  have h1: "fs_ok s1" "same_disk s s1" "\<And>y. owned (fs_mem s) y \<Longrightarrow> fs_bytes s1 y = fs_bytes s y" using h by (auto simp: holding_def)
  have st1: "stays s1 (upd_bytes (\<lambda>_. m) s1)"
    by (rule fs_ok_write [OF h1(1)]) (use m b holding_owned(1) [OF h] in blast)
  obtain v where "free_region (fs_mem s1) v room" using h by (auto simp: holding_def)
  then have "free_region (fs_mem (upd_bytes (\<lambda>_. m) s1)) v room" by (rule free_region_mono) (use st1 in \<open>simp_all add: stays_def\<close>)
  then have "\<exists>v. free_region (fs_mem (upd_bytes (\<lambda>_. m) s1)) v room" ..
  moreover have "same_disk s' (upd_bytes (\<lambda>_. m) s1)" using h1(2) by (simp add: s'_def upd_bytes_def same_disk_def)
  moreover have "fs_bytes (upd_bytes (\<lambda>_. m) s1) y = fs_bytes s' y" if "owned (fs_mem s') y" for y
    using that m h1(3) staysD(5) [OF st] by (simp add: by' m0_def) (simp add: upd_bytes_def fs_bytes_def)
  moreover have "brk (fs_mem s') = brk (fs_mem s)" by (simp add: s'_def upd_bytes_def brk_def)
  ultimately have "holding room s' q (upd_bytes (\<lambda>_. m) s1)" using h st st1 by (simp add: holding_def stays_def)
  moreover have "same_but fr s s'" using st by (simp add: same_but_def by' m0_def)
  ultimately show thesis using that by blast
qed

text \<open>The part of a round that is for directories inside, where the limit of the depth is reached.\<close>

lemma entry_subdir:
  assumes ok: "fs_ok s" "spare room s" and h: "holding room s q s3" and c: "cstring (fs_bytes s3) dirname dn" "cstring (fs_bytes s3) q name"
    and dn: "inside dirname (length dn + 1) (live_blocks (fs_mem s))" "length dn \<le> 2 ^ 20" and nl: "length name \<le> 28"
    and r: "unat (block_size (of_nat (length dn + length name + 2))) + 32 \<le> room" and sub: "\<And>i f st. sub i f st = Some st"
  obtains s4 where "(if b then do { (filename, st) \<leftarrow> on_fs (fs_join dirname q) (s3, d); st \<leftarrow> sub i filename st; fs_free filename st } else Some (s3, d)) =
      Some (s4, d)" "holding room s q s4" "file_descriptor_table s4 = file_descriptor_table s3"
proof (cases b)
  case True
  obtain v where v: "free_region (fs_mem s3) v room" using h by (auto simp: holding_def)
  have q: "fs_ok s3" "same_disk s s3" using h by (auto simp: holding_def)
  have bl: "unat (block_size (ucast (fs_block_size (filesystem s3) + 1))) + 32 \<le> room" using ok(2) same_diskD(1) [OF q(2)] by (simp add: spare_def)
  have "inside dirname (length dn + 1) (live_blocks (fs_mem s3))" using dn(1) h by (auto simp: holding_def inside_def)
  moreover have "inside q (length name + 1) (live_blocks (fs_mem s3))" using h nl by (force simp: holding_def inside_def)
  ultimately obtain f s4 s5 where j: "fs_join dirname q s3 = Some (f, s4)" "fs_kfree f s4 = Some s5" "same s3 s5"
     "file_descriptor_table s5 = file_descriptor_table s3"
    using join_and_free [OF q(1) v bl r _ c] dn(2) nl by auto
  have "holding room s q s5" using j(3) holding_owned(1) [OF h] by (intro holding_stays [OF h]) (auto simp: same_def)
  then show thesis using that [of s5] True j by (simp add: on_fs_def fs_free_def sub)
qed (use h that in auto)

lemma print_entry_spec:
  assumes ok: "fs_ok s" and sp: "spare room s" and fd: "fd_at n s = Some fd" and f: "file_ok s (fd_inode fd)"
    and al: "32 dvd bsz s" "32 dvd unat (fd_pos fd)" and p: "unat (fd_pos fd) + 32 \<le> unat (i_size (fd_inode fd))"
    and pr: "printable fr s" and dn: "fixed fr s dirname dn" "inside dirname (length dn + 1) (live_blocks (fs_mem s))" "length dn \<le> 2 ^ 20"
    and e: "dirent_of (chunk s (fd_inode fd) (unat (fd_pos fd))) = (name, i)"
    and i: "unat i < nblocks s" "i_size (inode_at s i) \<le> max_file_size (filesystem s)"
    and r: "unat (block_size (of_nat (length dn + length name + 2))) + 32 \<le> room" and sub: "\<And>i f st. sub i f st = Some st"
  obtains s' d' where "print_entry fr sub n dirname (s, d) = Some (s', d')" "same_but fr s s'" "sent d' = sent d @ entry_line dn (name, i)"
    "file_descriptor_table s' = (file_descriptor_table s)(unat n := fd\<lparr>fd_pos := fd_pos fd + 32\<rparr>)"
proof -
  let ?t = "(file_descriptor_table s)(unat n := fd\<lparr>fd_pos := fd_pos fd + 32\<rparr>)"
  obtain q s1 where rd: "read_dirent n s = Some (\<lparr>d_inode = i, d_name = q\<rparr>, s1)" and h1: "holding room s q s1" and cs: "cstring (fs_bytes s1) q name"
    and t1: "file_descriptor_table s1 = ?t"
    using read_dirent_spec [OF ok sp fd f al p] by (auto simp: e)
  have b1: "fs_ok s1" "same_disk s s1" "\<And>y. owned (fs_mem s) y \<Longrightarrow> fs_bytes s1 y = fs_bytes s y" using h1 by (auto simp: holding_def)
  have ia: "inode_at s1 i = inode_at s i" by (rule inode_at_cong [OF ok b1(2) b1(3) [OF disk_is_owned [OF ok]] i(1)])
  define s2 where "s2 = s1\<lparr>filesystem := (filesystem s1)\<lparr>seek_cursor := disk_addr s1 (unat i) 0\<rparr>\<rparr>"
  have ri: "read_inode i s1 = Some (inode_at s i, s2)" unfolding s2_def ia [symmetric]
    by (rule read_inode_spec [OF b1(1)]) (use i same_diskD [OF b1(2)] ia in simp_all)
  have "stays s1 s2" using b1(1) by (simp add: stays_def s2_def same_disk_def fs_ok_def)
  then have h2: "holding room s q s2" by (rule holding_stays [OF h1]) (simp add: s2_def fs_bytes_def)
  have y2: "fs_bytes s2 = fs_bytes s1" "file_descriptor_table s2 = ?t" by (simp_all add: s2_def fs_bytes_def t1)
  have b2: "fs_ok s2" "\<And>y. owned (fs_mem s) y \<Longrightarrow> owned (fs_mem s2) y" using h2 holding_owned(1) [OF h2] by (auto simp: holding_def)
  have fx: "fixed fr s2 a xs" if "fixed fr s a xs" for a xs
    using that path_at_same [of s a xs s2] b1(3) b2(2) by (auto simp: fixed_def path_at_def y2)
  have buf: "unat (fr_buff fr) + IO_BUFF_SIZE \<le> 2 ^ 64" "\<And>y. span (fr_buff fr) IO_BUFF_SIZE y \<Longrightarrow> owned (fs_mem s) y"
    using pr by (auto simp: printable_def)
  have pr': "fixed fr s (lit fr []) [10, 9, 32, 32]" "fixed fr s (lit fr ''%d : %s/%s'') entry_format" using pr by (auto simp: printable_def)
  have nl: "length name \<le> 28" using e length_takeWhile_le [of "\<lambda>c. c \<noteq> 0" "take 28 (chunk s (fd_inode fd) (unat (fd_pos fd)))"] by (auto simp: dirent_of_def)
  have qs: "span q 32 (q + of_nat j)" if "j \<le> length name" for j
    using that nl h1 span_nth [of q 32 j] by (auto simp: holding_def)
  have fq: "fixed fr s2 q name"
    using cs qs holding_owned(2,3) [OF h2] buf(2) by (auto simp: fixed_def path_at_def y2)
  have "owned (fs_mem s) dirname" using dn(1) by (auto simp: fixed_def path_at_def dest: spec [of _ 0])
  then have pq: "dirname \<noteq> q" using holding_owned(3) [OF h2 qs [of 0]] by auto
  obtain m d' where m: "fs_printf fr ''%d : %s/%s'' [ucast i, dirname, q] (s2, d) = Some (upd_bytes (\<lambda>_. m) s2, d')"
    "sent d' = sent d @ entry_line dn (name, i)" "\<forall>y. \<not> span (fr_buff fr) IO_BUFF_SIZE y \<longrightarrow> m y = fs_bytes s2 y"
    using print_line [OF b2(1) buf(1) b2(2) [OF buf(2)] fx [OF pr'(1)] fx [OF pr'(2)] fx [OF dn(1)] fq pq, of i d] .
  obtain s0 where s0: "same_but fr s s0" "holding room s0 q (upd_bytes (\<lambda>_. m) s2)"
    by (rule rebase [OF ok h2 buf(2) m(3) [rule_format]])
  define s3 where "s3 = upd_bytes (\<lambda>_. m) s2"
  note h3 = s0(2) [folded s3_def]
  have y3: "fs_bytes s3 = m" "file_descriptor_table s3 = ?t" by (simp_all add: s3_def upd_bytes_def fs_bytes_def y2)
  have ok0: "fs_ok s0" "spare room s0" using s0(1) staysD(1) spare_stays sp by (auto simp: same_but_def)
  have c3: "cstring (fs_bytes s3) a xs" if "fixed fr s2 a xs" for a xs
    using that m(3) cstring_cong [of xs m a "fs_bytes s2" a] by (simp add: fixed_def path_at_def y3)
  have in0: "inside dirname (length dn + 1) (live_blocks (fs_mem s0))" using dn(2) s0(1) by (simp add: same_but_def stays_def)
  let ?sub = "i_kind (inode_at s i) = 1 \<and> \<not> is_special_directory q (fs_bytes s3)"
  obtain s4 where s4: "(if ?sub then do { (filename, st) \<leftarrow> on_fs (fs_join dirname q) (s3, d'); st \<leftarrow> sub i filename st; fs_free filename st } else Some (s3, d')) =
      Some (s4, d')" "holding room s0 q s4" "file_descriptor_table s4 = ?t"
    using entry_subdir [OF ok0 h3 c3 [OF fx [OF dn(1)]] c3 [OF fq] in0 dn(3) nl r sub] unfolding y3(2) .
  obtain s5 where s5: "fs_kfree q s4 = Some s5" "same s0 s5" "file_descriptor_table s5 = ?t"
    using holding_kfree [OF ok0 s4(2)] unfolding s4(3) .
  have "print_entry fr sub n dirname (s, d) = Some (s5, d')"
  proof -
    have "on_fs (read_dirent n) (s, d) = Some (\<lparr>d_inode = i, d_name = q\<rparr>, s1, d)" "on_fs (read_inode i) (s1, d) = Some (inode_at s i, s2, d)"
      "fs_free q (s4, d') = Some (s5, d')" using rd ri s5(1) by (simp_all add: on_fs_def fs_free_def)
    then show ?thesis
      using m(1) s4(1) by (simp only: print_entry_def bind.bind_lunit prod.case dirent_t.simps s3_def [symmetric] fst_conv)
  qed
  then show thesis using that s5(3) m(2) same_but_trans [OF s0(1) same_but_same [OF s5(2)]] by blast
qed

section \<open>A directory\<close>

text \<open>The entries of directory \<open>d\<close> name inodes of the disk, and there is room to join their names to \<open>dn\<close>.\<close>

definition entries_ok :: "nat \<Rightarrow> u8 list \<Rightarrow> fs_state \<Rightarrow> u32 \<Rightarrow> bool" where
  "entries_ok room dn s d \<longleftrightarrow> (\<forall>(name, i)\<in>set (listing s d). unat i < nblocks s \<and> i_size (inode_at s i) \<le> max_file_size (filesystem s) \<and>
     unat (block_size (of_nat (length dn + length name + 2))) + 32 \<le> room)"

lemma print_entries_spec:
  assumes ok: "fs_ok s" and sp: "spare room s" and al: "32 dvd bsz s" and d: "dir_ok s d" "entries_ok room dn s d" and pr: "printable fr s"
    and dn: "fixed fr s dirname dn" "inside dirname (length dn + 1) (live_blocks (fs_mem s))" "length dn \<le> 2 ^ 20"
    and sub: "\<And>i f st. sub i f st = Some st"
    and "same_but fr s t" "fd_at n t = Some fd" "fd_inode fd = inode_at s d" "unat (fd_pos fd) = 32 * j" "j \<le> length (listing s d)"
  shows "\<exists>t' dev' fd'. print_entries fr sub n dirname (t, dev) = Some (t', dev') \<and> same_but fr s t' \<and>
     sent dev' = sent dev @ concat (map (entry_line dn) (drop j (listing s d))) \<and>
     file_descriptor_table t' = (file_descriptor_table t)(unat n := fd') \<and> fd_closed fd' = 1"
  using assms(11-15)
proof (induction "length (listing s d) - j" arbitrary: t fd j dev)
  case 0
  have "32 * length (listing s d) = unat (i_size (inode_at s d))" using d(1) by (simp add: dir_ok_def listing_def)
  then have "is_at_end_of_file n t = Some True" using 0 by (simp add: is_at_end_of_file_def word_le_nat_alt)
  then have "print_entries fr sub n dirname (t, dev) = Some (fd_upd n (fd_closed_update (\<lambda>_. 1)) t, dev)"
    using "0.prems"(2) by (subst print_entries.simps) (simp add: fclose_def on_fs_def)
  moreover have "same_but fr s (fd_upd n (fd_closed_update (\<lambda>_. 1)) t)" using "0.prems"(1) by (simp add: same_but_def fd_upd_def fs_bytes_def)
  ultimately show ?case using 0 fd_atD [OF "0.prems"(2)]
    by (intro exI [of _ "fd_upd n (fd_closed_update (\<lambda>_. 1)) t"] exI [of _ dev] exI [of _ "fd\<lparr>fd_closed := 1\<rparr>"]) (auto simp: fd_upd_def)
next
  case (Suc m)
  note P = Suc.prems
  have j: "j < length (listing s d)" using Suc(2) by simp
  have st: "stays s t" using P(1) by (simp add: same_but_def)
  have sd: "same_disk s t" "\<And>y. on_disk s y \<Longrightarrow> fs_bytes t y = fs_bytes s y"
    using P(1) stays_same_disk [OF st] disk_is_owned [OF ok] pr by (auto simp: same_but_def printable_def)
  note T = staysD [OF st] and E = dir_entry [OF ok sd d(1) j]
  obtain name i where e: "listing s d ! j = (name, i)" by (cases "listing s d ! j")
  have dj: "drop j (listing s d) = (name, i) # drop (Suc j) (listing s d)" using Cons_nth_drop_Suc [OF j] e by simp
  have i: "unat i < nblocks s" "i_size (inode_at s i) \<le> max_file_size (filesystem s)" "unat (block_size (of_nat (length dn + length name + 2))) + 32 \<le> room"
    using d(2) nth_mem [OF j] e by (auto simp: entries_ok_def)
  have i': "unat i < nblocks t" "i_size (inode_at t i) \<le> max_file_size (filesystem t)"
    using i T inode_at_cong [OF ok sd i(1)] by simp_all
  have f: "file_ok t (fd_inode fd)" "32 dvd bsz t" "32 dvd unat (fd_pos fd)" "unat (fd_pos fd) + 32 \<le> unat (i_size (fd_inode fd))"
    "dirent_of (chunk t (fd_inode fd) (unat (fd_pos fd))) = (name, i)"
    using P(3,4) E e al T(2) by simp_all
  have in': "inside dirname (length dn + 1) (live_blocks (fs_mem t))" using dn(2) st by (simp add: stays_def)
  obtain t1 dev1 where t1: "print_entry fr sub n dirname (t, dev) = Some (t1, dev1)" "same_but fr t t1" "sent dev1 = sent dev @ entry_line dn (name, i)"
    "file_descriptor_table t1 = (file_descriptor_table t)(unat n := fd\<lparr>fd_pos := fd_pos fd + 32\<rparr>)"
    using print_entry_spec [OF T(1) spare_stays [OF st sp] P(2) f(1-4) printable_still [OF P(1) pr] fixed_still [OF P(1) dn(1)] in' dn(3) f(5) i' i(3), where sub = sub and d = dev] sub by blast
  have p1: "unat (fd_pos fd + 32) = 32 * Suc j" using P(4) f(4) file_size(1) [OF T(1) f(1)] by (simp add: unat_word_ariths)
  have "\<exists>t' dev' fd'. print_entries fr sub n dirname (t1, dev1) = Some (t', dev') \<and> same_but fr s t' \<and>
     sent dev' = sent dev1 @ concat (map (entry_line dn) (drop (Suc j) (listing s d))) \<and>
     file_descriptor_table t' = (file_descriptor_table t1)(unat n := fd') \<and> fd_closed fd' = 1"
    by (rule Suc(1) [OF _ same_but_trans [OF P(1) t1(2)] fd_at_upd [OF P(2) t1(4)]]) (use Suc(2) P j p1 in simp_all)
  moreover have "is_at_end_of_file n t = Some False" using P(2) f(4) by (simp add: is_at_end_of_file_def word_le_nat_alt)
  ultimately show ?case using t1(1,3,4) by (subst print_entries.simps) (auto simp: dj)
qed

text \<open>The literals of the example disk.\<close>

definition tree_frame :: frame where
  "tree_frame = \<lparr>fr_request = 0, fr_response = 0, fr_buff = 0x2000, lit = (\<lambda>l. if l = [] then 0x3000 else 0x3010)\<rparr>"

lemma tree_low:
  assumes "unat (heap_begin a) = 0x4400000" and "unat p + length xs < 0x4000000" and "cstring (tree_disk (heap a)) p xs" and "0x2200 \<le> unat p"
  shows "fixed tree_frame (tree_fs a) p xs"
proof -
  have "heap_begin (fs_mem (tree_fs a)) = heap_begin a" by (simp add: tree_fs_def)
  moreover have "unat (p + of_nat i) = unat p + i" if "i \<le> length xs" for i using that assms(2) unat_add_lt [of p "length xs + 1" i] by simp
  ultimately show ?thesis using assms by (simp add: fixed_def path_at_def owned_def off_heap_def tree_frame_def span_def)
qed

text \<open>
  C34. \<open>print_directory\<close> with the depth 1, as \<open>print_filesystem_info\<close> calls it, prints one line for each entry of
  the directory, in order, with the number of the inode, the name of the directory and the name of the
  entry. Whatever it borrows from the heap it gives back, also for the entries that are directories: the blocks
  in use are those of the beginning. No byte that belongs to somebody changes but those of the buffer of
  \<open>uart_printf\<close>, and the descriptor is closed.
\<close>

theorem print_directory_lists:
  assumes ok: "fs_ok s" and sp: "spare room s" and al: "32 dvd bsz s" and d: "dir_ok s d" "entries_ok room dn s d" and pr: "printable fr s"
    and dn: "fixed fr s dirname dn" "inside dirname (length dn + 1) (live_blocks (fs_mem s))" "length dn \<le> 2 ^ 20"
    and slot: "slot = get_next_available_file_descriptor_slot s" "slot \<noteq> -1"
  shows "\<exists>s' dev'. print_directory fr d dirname 1 (s, dev) = Some (s', dev') \<and> fs_ok s' \<and> live_blocks (fs_mem s') = live_blocks (fs_mem s) \<and>
     sent dev' = sent dev @ concat (map (entry_line dn) (listing s d)) \<and>
     (\<forall>y. owned (fs_mem s) y \<and> \<not> span (fr_buff fr) IO_BUFF_SIZE y \<longrightarrow> fs_bytes s' y = fs_bytes s y) \<and>
     (\<forall>k. k \<noteq> unat slot \<longrightarrow> file_descriptor_table s' k = file_descriptor_table s k) \<and> fd_closed (file_descriptor_table s' (unat slot)) = 1"
proof -
  have d': "unat d < nblocks s" "i_size (inode_at s d) \<le> max_file_size (filesystem s)" using d(1) by (simp_all add: dir_ok_def)
  obtain t fd where t: "iopen d s = Some (slot, t)" "same s t" "fd_at slot t = Some fd" "fd_inode fd = inode_at s d" "fd_pos fd = 0"
    "fd_closed fd = 0" "file_descriptor_table t = (file_descriptor_table s)(unat slot := fd)" using iopen_spec [OF ok d' slot] .
  obtain t' dev' fd' where t': "print_entries fr (print_levels fr 0) slot dirname (t, dev) = Some (t', dev')" "same_but fr s t'"
     "sent dev' = sent dev @ concat (map (entry_line dn) (listing s d))" "file_descriptor_table t' = (file_descriptor_table t)(unat slot := fd')" "fd_closed fd' = 1"
    using print_entries_spec [OF ok sp al d pr dn _ same_but_same [OF t(2)] t(3,4), of "print_levels fr 0" 0 dev] t(5) by auto
  have "print_directory fr d dirname 1 (s, dev) = Some (t', dev')" using t(1) t'(1) by (simp add: print_directory_def on_fs_def)
  moreover have "live_blocks (fs_mem t') = live_blocks (fs_mem s)" using t'(2) by (simp add: same_but_def stays_def)
  ultimately show ?thesis using t' t(7) staysD(1) [of s t'] by (auto simp: same_but_def)
qed

theorem print_directory_lists_witness:
  "\<exists>s s' dev'. fs_ok s \<and> print_directory tree_frame 1 0x4400020 1 (s, \<lparr>sent = [], arriving = []\<rparr>) = Some (s', dev') \<and>
     live_blocks (fs_mem s') = live_blocks (fs_mem s) \<and> sent dev' = [51, 32, 58, 32, 47, 97, 13, 10]"
proof -
  obtain a where a: "fs_ok (tree_fs a)" "spare 128 (tree_fs a)" "unat (heap_begin a) = 0x4400000" "live_blocks (fs_mem (tree_fs a)) = {(0x4400020, 96)}"
    using tree_fs_ok by blast
  let ?s = "tree_fs a"
  have hb: "heap_begin (fs_mem ?s) = heap_begin a" by (simp add: tree_fs_def)
  have "block_size 3 = 32" by (simp add: block_size_def next_power_of_2_eq [of _ 6])
  then have e: "entries_ok 128 [] ?s 1" by (simp add: entries_ok_def tree_listing) (simp add: tree_inode)
  have "fixed tree_frame ?s 0x3000 [10, 9, 32, 32]" "fixed tree_frame ?s 0x3010 entry_format"
    by (rule tree_low [OF a(3)]; simp add: entry_format_def; simp add: tree_disk_def tree_bytes_def)+
  then have pr: "printable tree_frame ?s"
    using a(3) hb by (auto simp: printable_def tree_frame_def span_def owned_def off_heap_def on_disk_def tree_fs_def)
  have dn: "fixed tree_frame ?s 0x4400020 []" "inside 0x4400020 (length [] + 1) (live_blocks (fs_mem ?s))" "length [] \<le> 2 ^ 20"
    by (simp_all add: fixed_def path_at_def owned_def a(4) inside_def span_def tree_frame_def) (simp add: tree_disk_def tree_bytes_def)
  have slot: "get_next_available_file_descriptor_slot ?s = 0"
    by (simp add: get_next_available_file_descriptor_slot_def tree_fs_def upt_conv_Cons)
  have l: "concat (map (entry_line []) (listing ?s 1)) = [51, 32, 58, 32, 47, 97, 13, 10]"
    by (simp add: tree_listing entry_line_def number_text_def digits_step digit_text_def)
  show ?thesis
    using print_directory_lists [OF a(1,2) _ tree_dir_ok(1) e pr dn, of 0 "\<lparr>sent = [], arriving = []\<rparr>"] a(1) unfolding l slot by auto
qed

end
