(* ===== verification/Io_Service.thy ===== *)
theory Io_Service
  imports Sys Format_Text
begin

text \<open>
  Input and output of user programs: the manager of \<^verbatim>\<open>src/src/usr/io.c\<close>, which owns the serial line, and the
  library \<^verbatim>\<open>src/src/libk/io_lib.c\<close>, which sends requests to it. An \<open>io_request_t\<close> has its code at offset 0, the
  data at offset 8 and the buffer at offset 16, in 520 bytes.
\<close>

abbreviation (input) IO_MANAGER_PID :: u32 where "IO_MANAGER_PID \<equiv> 3"

section \<open>The manager\<close>

text \<open>The \<open>switch\<close> on the code of a request; the result is the status of \<open>acknowledge\<close>.\<close>

definition io_switch :: "nat \<Rightarrow> frame \<Rightarrow> ('k, 'g) manager_dev svc_instr \<Rightarrow> u32 \<Rightarrow> ('k, 'g) manager \<Rightarrow> (u32 \<times> ('k, 'g) manager) option" where
  "io_switch LOG_LEVEL fr svc sender s =
     (let request = fr_request fr; code = load 4 (con_mem s) request; data = load 8 (con_mem s) (request + 8) in
      if code = 0 then
        do { s \<leftarrow> log_verbose LOG_LEVEL fr ''IO_Manager: Putc'' [] s;
             (_, s) \<leftarrow> on_uart (\<lambda>s. Some ((), uart_putc (ucast data) s)) s;
             acknowledge svc 0 0 0 s }
      else if code = 1 then
        do { s \<leftarrow> log_verbose LOG_LEVEL fr ''IO_Manager: Put_int'' [] s;
             (status, s) \<leftarrow> on_uart (uart_put_int data (ucast (con_mem s (request + 16)))
                (con_mem s (request + 17) \<noteq> 0) (con_mem s (request + 18) \<noteq> 0)) s;
             acknowledge svc status 0 0 s }
      else if code = 2 then
        do { s \<leftarrow> log_verbose LOG_LEVEL fr ''IO_Manager: Puts'' [] s;
             (status, s) \<leftarrow> on_uart (uart_puts (request + 16)) s;
             acknowledge svc status 0 0 s }
      else if code = 3 then
        do { s \<leftarrow> log_verbose LOG_LEVEL fr ''IO_Manager: Get_string'' [] s;
             (status, s) \<leftarrow> on_uart (uart_get_string (fr_response fr) (of_nat IO_BUFF_SIZE)) s;
             acknowledge svc status (fr_response fr) 500 s }
      else
        do { s \<leftarrow> log_error LOG_LEVEL fr ''IO processs reached over unknown requestby %d'' [ucast sender] s;
             acknowledge svc (-1) 0 0 s })"

text \<open>One round of the loop, and the process up to the end of round \<open>n\<close> of its endless loop.\<close>

definition io_round :: "nat \<Rightarrow> frame \<Rightarrow> ('k, 'g) manager_dev svc_instr \<Rightarrow> ('k, 'g) manager \<Rightarrow> ('k, 'g) manager option" where
  "io_round LOG_LEVEL fr svc s =
     do { (sender, s) \<leftarrow> receive svc (fr_request fr) 520 s;
          (status, s) \<leftarrow> io_switch LOG_LEVEL fr svc sender s;
          assert (status = 0);
          Some s }"

definition main_io_manager :: "nat \<Rightarrow> nat \<Rightarrow> nat \<Rightarrow> frame \<Rightarrow> ('k, 'g) manager_dev svc_instr \<Rightarrow> ('k, 'g) manager \<Rightarrow> ('k, 'g) manager option" where
  "main_io_manager n self LOG_LEVEL fr svc s =
     do { assert (self = 3);
          rounds n (io_round LOG_LEVEL fr svc) (upd_mem (\<lambda>m. zeroed (fr_response fr) 500 (zeroed (fr_request fr) 520 m)) s) }"

section \<open>The library\<close>

text \<open>\<open>request\<close> and \<open>response\<close> are the addresses of the local structures.\<close>

definition io_request :: "u64 \<Rightarrow> u64 \<Rightarrow> u64 \<Rightarrow> bytes \<Rightarrow> bytes" where
  "io_request request code data m = store 8 (request + 8) data (store 4 request code (zeroed request 520 m))"

definition io_putc :: "'d svc_instr \<Rightarrow> u64 \<Rightarrow> u8 \<Rightarrow> 'd con_state \<Rightarrow> 'd con_state option" where
  "io_putc svc request c s =
     map_option snd (send svc IO_MANAGER_PID request 520 0 0 True (upd_mem (io_request request 0 (ucast c)) s))"

definition io_puts :: "'d svc_instr \<Rightarrow> u64 \<Rightarrow> u64 \<Rightarrow> 'd con_state \<Rightarrow> (u32 \<times> 'd con_state) option" where
  "io_puts svc request str s =
     do { n \<leftarrow> strsize str (con_mem s);
          let sz = (ucast n :: u32);
          if sint sz > int IO_BUFF_SIZE then Some (-1, s)
          else send svc IO_MANAGER_PID request 520 0 0 True
                 (upd_mem (\<lambda>m. store 4 request 2 (memmove (request + 16) str (scast sz) m)) s) }"

definition io_get_string :: "'d svc_instr \<Rightarrow> u64 \<Rightarrow> u64 \<Rightarrow> u64 \<Rightarrow> u64 \<Rightarrow> 'd con_state \<Rightarrow> (u32 \<times> 'd con_state) option" where
  "io_get_string svc request response buff sz s =
     do { (status, s) \<leftarrow> send svc IO_MANAGER_PID request 520 response 500 True (upd_mem (io_request request 3 0) s);
          if sint status \<ge> 0 then
            do { size_resp \<leftarrow> strsize response (con_mem s);
                 let s = upd_mem (memmove buff response (if size_resp > sz then sz else size_resp)) s;
                 if size_resp > sz then Some (ucast (scast status + size_resp - sz :: u64), poke_con (buff + (sz - 1)) 0 s)
                 else Some (status, s) }
          else Some (status, s) }"

definition io_put_int :: "'d svc_instr \<Rightarrow> u64 \<Rightarrow> u64 \<Rightarrow> u32 \<Rightarrow> bool \<Rightarrow> bool \<Rightarrow> 'd con_state \<Rightarrow> (u32 \<times> 'd con_state) option" where
  "io_put_int svc request x base unsign upper_hexa s =
     (let s = upd_mem (io_request request 1 x) s in
      if base > 255 then Some (-1, s)
      else send svc IO_MANAGER_PID request 520 0 0 True (upd_mem (\<lambda>m. m(request + 16 := ucast base,
             request + 17 := of_bool unsign, request + 18 := of_bool upper_hexa)) s))"

definition io_printer :: "'d svc_instr \<Rightarrow> u64 \<Rightarrow> 'd printer" where
  "io_printer svc request = \<lparr>pr_putc = io_putc svc request, pr_puts = io_puts svc request, pr_put_int = io_put_int svc request\<rparr>"

definition io_printf :: "'d svc_instr \<Rightarrow> u64 \<Rightarrow> u64 \<Rightarrow> u64 \<Rightarrow> u64 \<Rightarrow> u64 list \<Rightarrow> 'd con_state \<Rightarrow> (u32 \<times> 'd con_state) option" where
  "io_printf svc request buff newline format adpar s =
     internal_printf (io_printer svc request) buff newline format adpar False s"

definition io_labelled :: "bool \<Rightarrow> 'd svc_instr \<Rightarrow> u64 \<Rightarrow> u64 \<Rightarrow> u64 \<Rightarrow> u64 \<Rightarrow> u64 \<Rightarrow> u64 list \<Rightarrow> 'd con_state \<Rightarrow> (u32 \<times> 'd con_state) option" where
  "io_labelled on svc request label buff newline format adpar s =
     (if on then do { (_, s) \<leftarrow> io_puts svc request label s;
                      internal_printf (io_printer svc request) buff newline format adpar True s }
      else Some (0, s))"

definition io_verbose :: "nat \<Rightarrow> 'd svc_instr \<Rightarrow> u64 \<Rightarrow> u64 \<Rightarrow> u64 \<Rightarrow> u64 \<Rightarrow> u64 \<Rightarrow> u64 list \<Rightarrow> 'd con_state \<Rightarrow> (u32 \<times> 'd con_state) option" where
  "io_verbose LOG_LEVEL = io_labelled (LOG_LEVEL \<ge> 5)"

definition io_debug :: "nat \<Rightarrow> 'd svc_instr \<Rightarrow> u64 \<Rightarrow> u64 \<Rightarrow> u64 \<Rightarrow> u64 \<Rightarrow> u64 \<Rightarrow> u64 list \<Rightarrow> 'd con_state \<Rightarrow> (u32 \<times> 'd con_state) option" where
  "io_debug LOG_LEVEL = io_labelled (LOG_LEVEL \<ge> 4)"

definition io_info :: "nat \<Rightarrow> 'd svc_instr \<Rightarrow> u64 \<Rightarrow> u64 \<Rightarrow> u64 \<Rightarrow> u64 \<Rightarrow> u64 \<Rightarrow> u64 list \<Rightarrow> 'd con_state \<Rightarrow> (u32 \<times> 'd con_state) option" where
  "io_info LOG_LEVEL = io_labelled (LOG_LEVEL \<ge> 3)"

definition io_warning :: "nat \<Rightarrow> 'd svc_instr \<Rightarrow> u64 \<Rightarrow> u64 \<Rightarrow> u64 \<Rightarrow> u64 \<Rightarrow> u64 \<Rightarrow> u64 list \<Rightarrow> 'd con_state \<Rightarrow> (u32 \<times> 'd con_state) option" where
  "io_warning LOG_LEVEL = io_labelled (LOG_LEVEL \<ge> 2)"

definition io_error :: "nat \<Rightarrow> 'd svc_instr \<Rightarrow> u64 \<Rightarrow> u64 \<Rightarrow> u64 \<Rightarrow> u64 \<Rightarrow> u64 \<Rightarrow> u64 list \<Rightarrow> 'd con_state \<Rightarrow> (u32 \<times> 'd con_state) option" where
  "io_error LOG_LEVEL = io_labelled (LOG_LEVEL \<ge> 1)"

definition io_wtf :: "nat \<Rightarrow> 'd svc_instr \<Rightarrow> u64 \<Rightarrow> u64 \<Rightarrow> u64 \<Rightarrow> u64 \<Rightarrow> u64 \<Rightarrow> u64 list \<Rightarrow> 'd con_state \<Rightarrow> (u32 \<times> 'd con_state) option" where
  "io_wtf LOG_LEVEL = io_labelled (LOG_LEVEL \<ge> 0)"

end
