(* ===== verification/Programs.thy ===== *)
theory Programs
  imports Io_Service Fs_Service Mmu_Faults
begin

text \<open>
  The user programs of \<^verbatim>\<open>src/src/usr\<close> besides the managers of input, output and files: the memory manager,
  the shell and the first process. Loops that do not end are given up to the end of a round. Tests that
  the shell can start are a parameter, given by name.
\<close>

section \<open>The memory manager\<close>

text \<open>
  \<^verbatim>\<open>usr/mem_manager.c\<close>. A \<open>mem_request_t\<close> has its code at offset 0 and the data at offset 8, in 16 bytes. The
  tables and the process table lie in memory that all processes map.
\<close>

definition mem_switch :: "frame \<Rightarrow> ('k, system_state \<times> mmu_state) manager_dev svc_instr \<Rightarrow> u32 \<Rightarrow>
    ('k, system_state \<times> mmu_state) manager \<Rightarrow> ('k, system_state \<times> mmu_state) manager option" where
  "mem_switch fr svc sender s =
     (if load 4 (con_mem s) (fr_request fr) = 1 then
        do { let (sys, m) = globals (device s);
             (status, m) \<leftarrow> mem_manager_free_virtual_page sys (load 8 (con_mem s) (fr_request fr + 8)) (unat sender) m;
             (status, s) \<leftarrow> acknowledge svc (word_of_int status) 0 0 (s\<lparr>device := (device s)\<lparr>globals := (sys, m)\<rparr>\<rparr>);
             assert (status = 0);
             Some s }
      else map_option snd (acknowledge svc (-1) 0 0 s))"

definition mem_round :: "frame \<Rightarrow> ('k, system_state \<times> mmu_state) manager_dev svc_instr \<Rightarrow>
    ('k, system_state \<times> mmu_state) manager \<Rightarrow> ('k, system_state \<times> mmu_state) manager option" where
  "mem_round fr svc s =
     do { (sender, s) \<leftarrow> receive svc (fr_request fr) 16 s;
          mem_switch fr svc sender s }"

definition main_mem_manager :: "nat \<Rightarrow> nat \<Rightarrow> frame \<Rightarrow> ('k, system_state \<times> mmu_state) manager_dev svc_instr \<Rightarrow>
    ('k, system_state \<times> mmu_state) manager \<Rightarrow> ('k, system_state \<times> mmu_state) manager option" where
  "main_mem_manager n self fr svc s =
     do { assert (self = 2);
          rounds n (mem_round fr svc) (upd_mem (zeroed (fr_request fr) 16) s) }"

section \<open>The shell\<close>

text \<open>\<^verbatim>\<open>usr/shell.c\<close>. \<open>test\<close> runs a test program with its arguments.\<close>

type_synonym tests = "string \<Rightarrow> u64 list \<Rightarrow> uart_t con_state \<Rightarrow> uart_t con_state option"

definition run_test :: "tests \<Rightarrow> u8 \<Rightarrow> uart_t con_state \<Rightarrow> uart_t con_state option" where
  "run_test test c s =
     (if c = 48 then test ''time_send'' [] s
      else if c = 49 then test ''print_io_formatting_tests'' [] s \<bind> test ''test_io_get_string'' [5]
      else if c = 50 then test ''print_filesystem_info'' [] s
      else if c = 51 then test ''fs_test1'' [] s
      else if c = 52 then test ''fs_test2'' [] s
      else if c = 53 then test ''a_page_s_file'' [] s
      else if c = 54 then test ''sched_test1'' [] s
      else Some s)"

text \<open>The command line is the format of \<open>uart_printf\<close>, which gets no further arguments.\<close>

definition execute_command :: "tests \<Rightarrow> nat \<Rightarrow> frame \<Rightarrow> u64 \<Rightarrow> uart_t con_state \<Rightarrow> uart_t con_state option" where
  "execute_command test LOG_LEVEL fr str s =
     (let fail = map_option snd (uart_error LOG_LEVEL (lit fr ''[ ERROR ]'') (fr_buff fr) (lit fr []) (lit fr ''Shell: Unknown command'') [] s) in
      if con_mem s str = 101 then
        if memcmp str (lit fr ''echo '') 5 (con_mem s) \<noteq> 0 then fail
        else map_option snd (uart_printf (fr_buff fr) (lit fr []) (str + 5) [] s)
      else if con_mem s str = 116 then
        if memcmp str (lit fr ''test '') 5 (con_mem s) \<noteq> 0 then fail
        else run_test test (con_mem s (str + 5)) s
      else fail)"

definition shell_round :: "tests \<Rightarrow> nat \<Rightarrow> frame \<Rightarrow> u64 \<Rightarrow> uart_t con_state \<Rightarrow> uart_t con_state option" where
  "shell_round test LOG_LEVEL fr line s =
     do { (_, s) \<leftarrow> uart_puts (lit fr ''[root@raspi /]# '') s;
          (status, s) \<leftarrow> uart_get_string line (of_nat IO_BUFF_SIZE) s;
          assert (sint status \<ge> 0);
          if sint status > 0 then
            map_option snd (uart_warning LOG_LEVEL (lit fr ''[WARNING]'') (fr_buff fr) (lit fr []) (lit fr ''Shell: %d characters lost'') [] s)
          else do { len \<leftarrow> strlen line (con_mem s);
                    if len > 0 then execute_command test LOG_LEVEL fr line s else Some s } }"

definition shell :: "nat \<Rightarrow> tests \<Rightarrow> nat \<Rightarrow> frame \<Rightarrow> u64 \<Rightarrow> uart_t con_state \<Rightarrow> uart_t con_state option" where
  "shell n test LOG_LEVEL fr line s = rounds n (shell_round test LOG_LEVEL fr line) s"

section \<open>The first process\<close>

text \<open>
  \<^verbatim>\<open>usr/init.c\<close>. A round of \<open>listen_shutdown\<close> gives whether the system halts. \<open>code\<close> is the address of the
  local variable of that name; \<open>f\<close> is the program of a manager and \<open>prog\<close> is the shell, which do not return.
\<close>

definition log_info :: "nat \<Rightarrow> frame \<Rightarrow> string \<Rightarrow> u64 list \<Rightarrow> ('k, 'g) manager \<Rightarrow> ('k, 'g) manager option" where
  "log_info LOG_LEVEL fr msg args s = map_option snd
     (on_uart (uart_info LOG_LEVEL (lit fr ''[ INFO  ]'') (fr_buff fr) (lit fr []) (lit fr msg) args) s)"

definition shutdown_round :: "nat \<Rightarrow> frame \<Rightarrow> u64 \<Rightarrow> ('k, 'g) manager_dev svc_instr \<Rightarrow> ('k, 'g) manager \<Rightarrow> (bool \<times> ('k, 'g) manager) option" where
  "shutdown_round LOG_LEVEL fr code svc s =
     do { (sender, s) \<leftarrow> receive svc code 4 s;
          let v = load 4 (con_mem s) code;
          if v = 0 then
            map_option (Pair True) (log_info LOG_LEVEL fr ''System halting at the request of process %d'' [ucast sender] s)
          else if v = 1 then
            do { (status, s) \<leftarrow> acknowledge svc 0 0 0 s; assert (status = 0); Some (False, s) }
          else do { (_, s) \<leftarrow> acknowledge svc (-1) 0 0 s; Some (False, s) } }"

primrec shutdown_loop :: "nat \<Rightarrow> nat \<Rightarrow> frame \<Rightarrow> u64 \<Rightarrow> ('k, 'g) manager_dev svc_instr \<Rightarrow> ('k, 'g) manager \<Rightarrow> (bool \<times> ('k, 'g) manager) option" where
  "shutdown_loop 0 LOG_LEVEL fr code svc s = Some (False, s)"
| "shutdown_loop (Suc n) LOG_LEVEL fr code svc s =
     shutdown_round LOG_LEVEL fr code svc s \<bind> (\<lambda>(halted, s). if halted then Some (True, s) else shutdown_loop n LOG_LEVEL fr code svc s)"

definition listen_shutdown :: "nat \<Rightarrow> nat \<Rightarrow> frame \<Rightarrow> u64 \<Rightarrow> ('k, 'g) manager_dev svc_instr \<Rightarrow> ('k, 'g) manager \<Rightarrow> (bool \<times> ('k, 'g) manager) option" where
  "listen_shutdown n LOG_LEVEL fr code svc s = shutdown_loop n LOG_LEVEL fr code svc (upd_mem (store 4 code 1) s)"

definition start_manager_process :: "'d svc_instr \<Rightarrow> ('d con_state \<Rightarrow> 'd con_state option) \<Rightarrow> u32 \<Rightarrow> 'd con_state \<Rightarrow> 'd con_state option" where
  "start_manager_process svc f desired_pid s =
     do { (ret, s) \<leftarrow> fork svc 15 s;
          assert (ret \<noteq> -1);
          s \<leftarrow> (if ret = 0 then f s else Some s);
          assert (ret = desired_pid);
          Some s }"

definition start_test_process :: "'d svc_instr \<Rightarrow> ('d con_state \<Rightarrow> 'd con_state option) \<Rightarrow> 'd con_state \<Rightarrow> 'd con_state option" where
  "start_test_process svc prog s =
     do { (ret, s) \<leftarrow> fork svc 15 s;
          assert (ret \<noteq> -1);
          if ret \<noteq> 0 then Some s else prog s }"

definition main_init :: "nat \<Rightarrow> nat \<Rightarrow> frame \<Rightarrow> u64 \<Rightarrow> ('k, 'g) manager_dev svc_instr \<Rightarrow> (u32 \<Rightarrow> ('k, 'g) manager \<Rightarrow> ('k, 'g) manager option) \<Rightarrow>
    (('k, 'g) manager \<Rightarrow> ('k, 'g) manager option) \<Rightarrow> ('k, 'g) manager \<Rightarrow> (bool \<times> ('k, 'g) manager) option" where
  "main_init n LOG_LEVEL fr code svc main_of prog s =
     do { s \<leftarrow> log_info LOG_LEVEL fr ''Init process running'' [] s;
          s \<leftarrow> start_manager_process svc (main_of 2) 2 s;
          s \<leftarrow> start_manager_process svc (main_of 3) 3 s;
          s \<leftarrow> start_manager_process svc (main_of 4) 4 s;
          s \<leftarrow> start_test_process svc prog s;
          listen_shutdown n LOG_LEVEL fr code svc s }"

end
