(* ===== verification/Io_Props.thy ===== *)
theory Io_Props
  imports Io_Service Console_Props
begin

text \<open>
  Programs and the manager of input and output together. \<open>request_text\<close> says what a request to print asks
  for; the manager serves it, and the functions of the library, which build such requests, satisfy the
  laws of a printer, so that formatted output of programs is the rendered text on the serial line.
\<close>

section \<open>What a request asks for\<close>

definition message_mem :: "u8 list \<Rightarrow> bytes" where
  "message_mem msg x = (if unat x < length msg then msg ! unat x else 0)"

definition request_text :: "u8 list \<Rightarrow> (u8 list \<times> u64) option" where
  "request_text msg =
     (let m = message_mem msg; code = load 4 m 0 in
      if length msg \<noteq> 520 then None
      else if code = 0 then Some ([ucast (load 8 m 8)], 0)
      else if code = 1 then
        if 2 \<le> unat (m 16) then
          let xs = number_text (load 8 m 8) (unat (m 16)) (m 17 \<noteq> 0) (m 18 \<noteq> 0) in Some (xs, scast (of_nat (length xs) :: u32))
        else None
      else if code = 2 then if 0 \<in> set (drop 16 msg) then Some (takeWhile (\<lambda>c. c \<noteq> 0) (drop 16 msg), 0) else None
      else None)"

definition served :: "u8 list \<Rightarrow> u64 \<Rightarrow> (mailbox, 'g) manager \<Rightarrow> (mailbox, 'g) manager \<Rightarrow> bool" where
  "served xs code s s' \<longleftrightarrow> sent (uart (device s')) = sent (uart (device s)) @ xs \<and>
     pending (world (device s')) = tl (pending (world (device s))) \<and>
     replies (world (device s')) = replies (world (device s)) @ [(code, [])]"

lemma switch_text:
  assumes m: "\<And>i. i < 520 \<Longrightarrow> con_mem s (fr_request fr + of_nat i) = msg ! i"
    and r: "request_text msg = Some (xs, code)" and log: "LOG_LEVEL < 5"
  shows "\<exists>s'. io_switch LOG_LEVEL fr manager_svc sender s = Some (0, s') \<and>
     sent (uart (device s')) = sent (uart (device s)) @ xs \<and> pending (world (device s')) = pending (world (device s)) \<and>
     replies (world (device s')) = replies (world (device s)) @ [(code, [])]"
proof -
  let ?R = "fr_request fr" and ?u = "\<lparr>con_mem = con_mem s, device = uart (device s)\<rparr>"
  have len: "length msg = 520" using r by (auto simp: request_text_def Let_def split: if_splits)
  have mm: "message_mem msg (of_nat i) = con_mem s (?R + of_nat i)" if "i < 520" for i
    using that m len by (simp add: message_mem_def unat_of_nat)
  have byte: "con_mem s (?R + x) = message_mem msg x" if "unat x < 520" for x
    using mm [of "unat x"] that by simp
  have "load k (con_mem s) (?R + of_nat j) = load k (message_mem msg) (of_nat j)" if "j + k \<le> 520" for k j
  proof (rule load_shift)
    fix i assume "i < k"
    then show "con_mem s (?R + of_nat j + of_nat i) = message_mem msg (of_nat j + of_nat i)"
      using mm [of "j + i"] that by (simp add: add.assoc)
  qed
  from this [of 0 4] this [of 8 8] have at: "load 4 (con_mem s) ?R = load 4 (message_mem msg) 0"
    "load 8 (con_mem s) (?R + 8) = load 8 (message_mem msg) 8" by simp_all
  note [simp] = log_verbose_off [OF log] acknowledge_manager
  consider (putc) "load 4 (message_mem msg) 0 = 0" | (int) "load 4 (message_mem msg) 0 = 1" | (puts) "load 4 (message_mem msg) 0 = 2"
    using r by (auto simp: request_text_def Let_def split: if_splits)
  then show ?thesis
  proof cases
    case putc
    then show ?thesis using r len
      by (auto simp: io_switch_def Let_def at request_text_def on_uart_eq)
  next
    case int
    have "unat (message_mem msg 16) < 2 ^ 8" using unsigned_less [of "message_mem msg 16"] by simp
    then have b: "unat (ucast (message_mem msg 16) :: u32) = unat (message_mem msg 16)" 
      by (simp add: unsigned_ucast_eq take_bit_nat_eq_self)
    have "2 \<le> unat (message_mem msg 16)" using r len int by (auto simp: request_text_def Let_def split: if_splits)
    note p = uart_put_int_text [of "ucast (message_mem msg 16)", unfolded b, OF this, of "load 8 (message_mem msg) 8" _ _ ?u]
    show ?thesis using r len int p byte [of 16] byte [of 17] byte [of 18]
      by (auto simp: io_switch_def Let_def at request_text_def on_uart_eq split: if_splits)
  next
    case puts
    have *: "takeWhile (\<lambda>c. c \<noteq> 0) (drop 16 msg) = xs" "0 \<in> set (drop 16 msg)" "code = 0"
      using r len puts by (auto simp: request_text_def Let_def split: if_splits)
    have "cstring (con_mem s) (?R + 16) xs"
      unfolding *(1) [symmetric] by (rule takeWhile_string [OF _ *(2)]) (use m [of "16 + _"] len in \<open>simp add: add.assoc\<close>)
    then have "uart_puts (?R + 16) ?u = Some (0, sends xs ?u)" using puts_from_text [of ?u "?R + 16" 0 xs] by (simp add: uart_puts_def)
    then show ?thesis using *(3) puts by (auto simp: io_switch_def Let_def at on_uart_eq)
  qed
qed

lemma round_text:
  assumes "fr_request fr \<noteq> 0" and "pending (world (device s)) = (sender, msg) # rest"
    and "request_text msg = Some (xs, code)" and "LOG_LEVEL < 5"
  shows "\<exists>s'. io_round LOG_LEVEL fr manager_svc s = Some s' \<and> served xs code s s'"
proof -
  have len: "length msg = 520" using assms(3) by (auto simp: request_text_def Let_def split: if_splits)
  define s1 where "s1 = \<lparr>con_mem = put_message (fr_request fr) msg (con_mem s),
     device = (device s)\<lparr>world := (world (device s))\<lparr>pending := rest\<rparr>\<rparr>\<rparr>"
  have "receive manager_svc (fr_request fr) 520 s = Some (ucast (of_nat sender :: u64), s1)"
    using assms(2) len by (simp add: receive_def svc_int_def manager_svc_def s1_def)
  moreover have "con_mem s1 (fr_request fr + of_nat i) = msg ! i" if "i < 520" for i
    using put_message_at [OF assms(1), of msg i] that len by (simp add: s1_def)
  from switch_text [OF this assms(3,4)] obtain s' where "io_switch LOG_LEVEL fr manager_svc (ucast (of_nat sender :: u64)) s1 = Some (0, s')"
     "sent (uart (device s')) = sent (uart (device s1)) @ xs" "pending (world (device s')) = pending (world (device s1))"
     "replies (world (device s')) = replies (world (device s1)) @ [(code, [])]" by blast
  ultimately show ?thesis using assms(2) by (simp add: io_round_def served_def s1_def)
qed

section \<open>Clients\<close>

lemma message_mem_bytes: "q \<noteq> 0 \<Longrightarrow> i < 520 \<Longrightarrow> message_mem (message_bytes m q 520) (of_nat i) = m (q + of_nat i)"
  by (simp add: message_mem_def length_message nth_message unat_of_nat)

lemma message_load:
  assumes "q \<noteq> 0" and "j + k \<le> 520"
  shows "load k (message_mem (message_bytes m q 520)) (of_nat j) = load k m (q + of_nat j)"
proof (rule load_shift)
  fix i assume "i < k"
  then show "message_mem (message_bytes m q 520) (of_nat j + of_nat i) = m (q + of_nat j + of_nat i)"
    using message_mem_bytes [OF assms(1), of "j + i"] assms(2) by (simp add: add.assoc)
qed

lemma request_text_string:
  assumes "q \<noteq> 0" and "load 4 m q = 2" and "cstring m (q + 16) xs" and "length xs < 504"
  shows "request_text (message_bytes m q 520) = Some (xs, 0)"
proof -
  have "drop 16 (message_bytes m q 520) = map (\<lambda>i. m (q + 16 + of_nat i)) [0..<504]"
    using assms(1) by (auto simp: message_bytes_def list_eq_iff_nth_eq add.assoc)
  then show ?thesis
    using assms takeWhile_cstring [OF assms(3,4)] message_load [OF assms(1), of 0 4 m]
    by (simp add: request_text_def length_message)
qed

abbreviation (input) io_svc :: "nat \<Rightarrow> frame \<Rightarrow> nat \<Rightarrow> (mailbox, 'g) manager svc_instr" where
  "io_svc LOG_LEVEL fr self \<equiv> rendezvous (io_round LOG_LEVEL fr manager_svc) self"

definition shown :: "(mailbox, 'g) manager \<Rightarrow> u8 list" where
  "shown d = sent (uart (device d))"

lemma send_text:
  assumes "fr_request fr \<noteq> 0" and "LOG_LEVEL < 5" and "request_text (message_bytes (con_mem s) q 520) = Some (xs, code)"
  shows "\<exists>s'. send (io_svc LOG_LEVEL fr self) 3 q 520 0 0 True s = Some (ucast code, s') \<and>
     shown (device s') = shown (device s) @ xs \<and> con_mem s' = con_mem s"
proof -
  define d where "d = (device s)\<lparr>device := (device (device s))\<lparr>world := \<lparr>pending = [(self, message_bytes (con_mem s) q 520)], replies = []\<rparr>\<rparr>\<rparr>"
  have "\<exists>d'. io_round LOG_LEVEL fr manager_svc d = Some d' \<and> served xs code d d'"
    by (rule round_text [OF assms(1) _ assms(3,2)]) (simp add: d_def)
  then obtain d' where d': "io_round LOG_LEVEL fr manager_svc d = Some d'" "served xs code d d'" by blast
  have "replies (world (device d')) = [(code, [])]" "shown d' = shown (device s) @ xs"
    using d'(2) by (simp_all add: served_def shown_def d_def)
  then show ?thesis using d'(1)
    by (simp add: send_def svc_int_def rendezvous_def put_message_def flip: d_def)
qed

lemma load_request:
  assumes "unat q + 520 \<le> 2 ^ 64"
  shows "load 4 (io_request q code data m) q = take_bit 32 code" "load 8 (io_request q code data m) (q + 8) = data"
    "\<not> span q 520 x \<Longrightarrow> io_request q code data m x = m x"
proof -
  have u: "unat (q + 8) = unat q + 8" using assms by (simp add: unat_word_ariths)
  show "load 4 (io_request q code data m) q = take_bit 32 code"
    using assms u by (simp add: io_request_def load_store_other load_store_same)
  show "load 8 (io_request q code data m) (q + 8) = data"
    by (simp add: io_request_def load_store_same take_bit_word_eq_self)
  show "io_request q code data m x = m x" if "\<not> span q 520 x"
  proof -
    have "\<not> span (q + 8) 8 x" "\<not> span q 4 x" using that u by (auto simp: span_def)
    then show ?thesis using that assms u by (simp add: io_request_def store_outside zeroed_def)
  qed
qed

definition io_client :: "u64 \<Rightarrow> frame \<Rightarrow> nat \<Rightarrow> bool" where
  "io_client request fr LOG_LEVEL \<longleftrightarrow> request \<noteq> 0 \<and> unat request + 520 \<le> 2 ^ 64 \<and> fr_request fr \<noteq> 0 \<and> LOG_LEVEL < 5"

abbreviation io_emits :: "u64 \<Rightarrow> u8 list \<Rightarrow> (mailbox, 'g) manager con_state \<Rightarrow> (mailbox, 'g) manager con_state \<Rightarrow> bool" where
  "io_emits request \<equiv> emits shown (\<lambda>_. True) (span request 520)"

lemma io_putc_text:
  assumes "io_client request fr LOG_LEVEL"
  shows "\<exists>s'. io_putc (io_svc LOG_LEVEL fr self) request c s = Some s' \<and> io_emits request [c] s s'"
proof -
  define m where "m = io_request request 0 (ucast c) (con_mem s)"
  have q: "request \<noteq> 0" "unat request + 520 \<le> 2 ^ 64" "fr_request fr \<noteq> 0" "LOG_LEVEL < 5" using assms by (simp_all add: io_client_def)
  have "ucast (ucast c :: u64) = c" by (rule bit_word_eqI) (auto simp: bit_simps)
  then have "request_text (message_bytes m request 520) = Some ([c], 0)"
    using message_load [OF q(1), of 0 4 m] message_load [OF q(1), of 8 8 m] load_request(1,2) [OF q(2), of 0 "ucast c" "con_mem s"]
    by (simp add: request_text_def length_message q(1) m_def)
  from send_text [OF q(3,4), of "s\<lparr>con_mem := m\<rparr>" request, simplified, OF this, of self]
  show ?thesis using load_request(3) [OF q(2)] by (auto simp: io_putc_def upd_mem_def emits_def same_outside_def m_def)
qed

lemma io_puts_text:
  assumes "io_client request fr LOG_LEVEL" and "outside (span request 520) (con_mem s) a xs" and "length xs < 500"
  shows "\<exists>w s'. io_puts (io_svc LOG_LEVEL fr self) request a s = Some (w, s') \<and> io_emits request xs s s'"
proof -
  define n :: u64 where "n = of_nat (length xs) + 1"
  define m1 where "m1 = memmove (request + 16) a n (con_mem s)"
  define m where "m = store 4 request 2 m1"
  have q: "request \<noteq> 0" "unat request + 520 \<le> 2 ^ 64" "fr_request fr \<noteq> 0" "LOG_LEVEL < 5" using assms by (simp_all add: io_client_def)
  have c: "cstring (con_mem s) a xs" and o: "\<And>i. i \<le> length xs \<Longrightarrow> \<not> span request 520 (a + of_nat i)" using assms(2) by (auto simp: outside_def)
  have n: "unat n = length xs + 1" using assms(3) by (simp add: n_def unat_word_ariths unat_of_nat)
  have r: "unat (request + of_nat j) = unat request + j" if "j < 520" for j using unat_add_lt [OF q(2) that] .
  have rs: "span request 520 (request + of_nat j)" if "j < 520" for j using r [OF that] that by (simp add: span_def)
  have "a + of_nat i \<noteq> request + 16 + of_nat j" if "i < unat n" "j < unat n" for i j
    using o [of i] rs [of "16 + j"] that n assms(3) by (auto simp: add.assoc)
  note mv = memmove_disjoint [of n a "request + 16" "con_mem s", OF this, folded m1_def]
  have m1: "m1 (request + 16 + of_nat i) = con_mem s (a + of_nat i)" if "i \<le> length xs" for i
    using mv [of "request + 16 + of_nat i"] that n assms(3) by (simp add: unat_of_nat)
  have mm: "m (request + 16 + of_nat i) = con_mem s (a + of_nat i)" if "i \<le> length xs" for i
  proof -
    have "unat (request + 16 + of_nat i) = unat request + 16 + i" using r [of "16 + i"] that assms(3) by (simp add: add.assoc)
    then show ?thesis using m1 [OF that] q(2) by (simp add: m_def store_outside span_def)
  qed
  have "cstring m (request + 16) xs" using cstring_cong [of xs m "request + 16" "con_mem s" a] mm c by simp
  moreover have "load 4 m request = 2" by (simp add: m_def load_store_same take_bit_eq_mod)
  ultimately have rt: "request_text (message_bytes m request 520) = Some (xs, 0)"
    using assms(3) by (intro request_text_string q) simp_all
  have out: "m x = con_mem s x" if "\<not> span request 520 x" for x
  proof -
    have "\<not> unat (x - (request + 16)) < unat n"
    proof
      assume "unat (x - (request + 16)) < unat n"
      then have "span request 520 (request + of_nat (16 + unat (x - (request + 16))))" using n assms(3) by (intro rs) simp
      then show False using that by (simp add: add.assoc [symmetric])
    qed
    moreover have "\<not> span request 4 x" using that by (auto simp: span_def)
    ultimately show ?thesis using q(2) mv [of x] by (simp add: m_def store_outside)
  qed
  have u: "unat (ucast n :: u32) = length xs + 1" using assms(3) n by (simp add: unsigned_ucast_eq take_bit_nat_eq_self)
  then have "sint (ucast n :: u32) = int (length xs + 1)" "scast (ucast n :: u32) = n"
    using sint_small [of "ucast n"] scast_small [of "ucast n"] assms(3) by (simp_all add: n_def)
  then show ?thesis
    using send_text [OF q(3,4), of "s\<lparr>con_mem := m\<rparr>" request, simplified, OF rt, of self] strlen_cstring [OF c] assms(3) out
    by (auto simp: io_puts_def strsize_def upd_mem_def emits_def same_outside_def m_def m1_def n_def)
qed

lemma io_put_int_text:
  assumes "io_client request fr LOG_LEVEL" and "2 \<le> unat base" and "unat base \<le> 16"
  shows "\<exists>w s'. io_put_int (io_svc LOG_LEVEL fr self) request x base u h s = Some (w, s') \<and>
     io_emits request (number_text x (unat base) u h) s s'"
proof -
  define m0 where "m0 = io_request request 1 x (con_mem s)"
  define m where "m = m0(request + 16 := ucast base, request + 17 := of_bool u, request + 18 := of_bool h)"
  have q: "request \<noteq> 0" "unat request + 520 \<le> 2 ^ 64" "fr_request fr \<noteq> 0" "LOG_LEVEL < 5" using assms by (simp_all add: io_client_def)
  have r: "unat (request + 8) = unat request + 8" "unat (request + 16) = unat request + 16" "unat (request + 17) = unat request + 17"
    "unat (request + 18) = unat request + 18" using q(2) by (simp_all add: unat_word_ariths)
  have m: "m y = m0 y" if "\<not> span (request + 16) 3 y" for y
    using that r by (auto simp: m_def span_def)
  have l0: "load 4 m0 request = 1" "load 8 m0 (request + 8) = x"
    using load_request(1,2) [OF q(2), of 1 x "con_mem s"] by (simp_all add: m0_def take_bit_eq_mod)
  have l: "load 4 m request = 1" "load 8 m (request + 8) = x"
    using load_cong [of request 4 m m0] load_cong [of "request + 8" 8 m m0] q(2) r m l0 by (auto simp: span_def)
  have b: "unat (ucast base :: u8) = unat base" using assms(3) by (simp add: unsigned_ucast_eq take_bit_nat_eq_self)
  have v: "m (request + 16) = ucast base" "m (request + 17) = of_bool u" "m (request + 18) = of_bool h"
    by (simp_all add: m_def)
  have "request_text (message_bytes m request 520) =
      Some (number_text x (unat base) u h, scast (of_nat (length (number_text x (unat base) u h)) :: u32))"
    using message_load [OF q(1), of 0 4 m] message_load [OF q(1), of 8 8 m] l v assms(2) message_mem_bytes [OF q(1), of 16 m]
      message_mem_bytes [OF q(1), of 17 m] message_mem_bytes [OF q(1), of 18 m]
    by (simp add: request_text_def length_message q(1) b Let_def)
  from send_text [OF q(3,4), of "s\<lparr>con_mem := m\<rparr>" request, simplified, OF this, of self]
  obtain w s' where s': "send (io_svc LOG_LEVEL fr self) 3 request 520 0 0 True (s\<lparr>con_mem := m\<rparr>) = Some (w, s')"
    "shown (device s') = shown (device s) @ number_text x (unat base) u h" "con_mem s' = m" by blast
  have "\<not> span (request + 16) 3 y" if "\<not> span request 520 y" for y using that r by (auto simp: span_def)
  then have "con_mem s' y = con_mem s y" if "\<not> span request 520 y" for y
    using m load_request(3) [OF q(2) that] that s'(3) by (simp add: m0_def)
  moreover have "\<not> base > 255" using assms(3) by (simp add: word_less_nat_alt)
  ultimately show ?thesis using s' by (simp add: io_put_int_def upd_mem_def emits_def same_outside_def m_def m0_def)
qed

lemma io_printer_laws:
  assumes "io_client request fr LOG_LEVEL"
  shows "printer_laws (io_printer (io_svc LOG_LEVEL fr self) request) shown (\<lambda>_. True) (span request 520) (\<lambda>n. n < 500)"
  by unfold_locales (use io_putc_text [OF assms] io_puts_text [OF assms] io_put_int_text [OF assms] in \<open>simp_all add: io_printer_def\<close>)

section \<open>Properties\<close>

text \<open>
  C29. Formatted output of a user program: \<open>io_printf\<close>, which sends every piece of its text as a request to
  the manager, makes the manager send exactly the text of \<open>render\<close> on the serial line; the memory of the
  program changes in its buffer and its request only. Arguments for \<open>%s\<close> have at most 499 characters.
\<close>

theorem io_printf_renders:
  assumes "io_client request fr LOG_LEVEL" and "printf_env (span request 520) (\<lambda>n. n < 500) buff newline strs (con_mem s)"
    and "outside (work_area buff (span request 520)) (con_mem s) format xs" and "render False strs xs adpar = Some (cs, ok)"
  shows "\<exists>w s'. io_printf (rendezvous (io_round LOG_LEVEL fr manager_svc) self) request buff newline format adpar s = Some (w, s') \<and>
     (ok \<or> w = -1) \<and> sent (uart (device (device s'))) = sent (uart (device (device s))) @ cs \<and>
     (\<forall>y. \<not> span buff IO_BUFF_SIZE y \<and> \<not> span request 520 y \<longrightarrow> con_mem s' y = con_mem s y)"
  using printer_laws.internal_printf_text [OF io_printer_laws [OF assms(1), of self] assms(2-4)]
  by (auto simp: io_printf_def emits_def shown_def same_outside_def work_area_def)

theorem io_printf_renders_witness:
  "\<exists>(s :: (mailbox, unit) manager con_state) fr w s'. sent (uart (device (device s))) = [] \<and>
     io_printf (rendezvous (io_round 2 fr manager_svc) 5) 0x5000 0x3000 0x2000 0x1000 [42] s = Some (w, s') \<and>
     sent (uart (device (device s'))) = [52, 50]"
proof -
  define fr where "fr = \<lparr>fr_request = 0x7000, fr_response = 0x8000, fr_buff = 0x9000, lit = (\<lambda>_. 0)\<rparr>"
  define d :: "(mailbox, unit) manager" where
    "d = \<lparr>con_mem = (\<lambda>_. 0), device = \<lparr>uart = \<lparr>sent = [], arriving = []\<rparr>, globals = (), world = \<lparr>pending = [], replies = []\<rparr>\<rparr>\<rparr>"
  define s where "s = \<lparr>con_mem = con_mem example_console, device = d\<rparr>"
  have c: "io_client 0x5000 fr 2" by (simp add: io_client_def fr_def)
  have o: "outside (work_area 0x3000 (span 0x5000 520)) (con_mem s) 0x1000 [37, 100]"
    "outside (work_area 0x3000 (span 0x5000 520)) (con_mem s) 0x2000 [10, 9, 32, 32]"
    by (auto simp: outside_def s_def example_console_def span_def le_Suc_eq work_area_def)
  have b: "buffer_ok (span 0x5000 520) 0x3000"
    by (auto simp: buffer_ok_def span_def unat_word_ariths unat_of_nat)
  have env: "printf_env (span 0x5000 520) (\<lambda>n. n < 500) 0x3000 0x2000 (\<lambda>_. None) (con_mem s)"
    using o(2) b by (simp add: printf_env_def)
  have "number_text 42 10 False False = [52, 50]" by (simp add: number_text_def digits_step digit_text_def)
  then have r: "render False (\<lambda>_. None) [37, 100] [42] = Some ([52, 50], True)" by (simp add: arg_text_def)
  have "sent (uart (device (device s))) = []" by (simp add: s_def d_def)
  then show ?thesis using io_printf_renders [OF c env o(1) r, of 5] by auto
qed

lemma rounds_text:
  assumes "fr_request fr \<noteq> 0" and "LOG_LEVEL < 5" and "pending (world (device s)) = reqs"
    and "\<And>r. r \<in> set reqs \<Longrightarrow> request_text (snd r) = Some (tx r, code r)"
  shows "\<exists>s'. rounds (length reqs) (io_round LOG_LEVEL fr manager_svc) s = Some s' \<and> pending (world (device s')) = [] \<and>
     replies (world (device s')) = replies (world (device s)) @ map (\<lambda>r. (code r, [])) reqs \<and>
     sent (uart (device s')) = sent (uart (device s)) @ concat (map tx reqs)"
  using assms(3,4)
proof (induction reqs arbitrary: s)
  case (Cons r reqs)
  obtain s1 where s1: "io_round LOG_LEVEL fr manager_svc s = Some s1" "served (tx r) (code r) s s1"
    using round_text [OF assms(1) _ _ assms(2), of s "fst r" "snd r" reqs "tx r" "code r"] Cons.prems by auto
  then show ?case using Cons.IH [of s1] Cons.prems by (auto simp: served_def)
qed simp

text \<open>
  C30. The manager of input and output serves the requests to print: with any number of requests waiting, each to
  print a character, a number with a base of at least 2 or a string that ends inside the message, after as many rounds
  none is left, each has got its reply, and the serial line has shown the text of each, in the order in which the
  channel \<open>manager_svc\<close> hands them over. Requests for input (which wait for the user), unknown codes and a base below
  2 (for which the conversion does not end) have no \<open>request_text\<close> and are excluded.
\<close>

theorem io_manager_answers:
  assumes "fr_request fr \<noteq> 0" and "LOG_LEVEL < 5" and "pending (world (device s)) = reqs"
    and "\<forall>r\<in>set reqs. request_text (snd r) \<noteq> None"
  shows "\<exists>s'. main_io_manager (length reqs) 3 LOG_LEVEL fr manager_svc s = Some s' \<and> pending (world (device s')) = [] \<and>
     replies (world (device s')) = replies (world (device s)) @ map (\<lambda>r. (snd (the (request_text (snd r))), [])) reqs \<and>
     sent (uart (device s')) = sent (uart (device s)) @ concat (map (\<lambda>r. fst (the (request_text (snd r)))) reqs)"
proof -
  let ?s = "upd_mem (\<lambda>m. zeroed (fr_response fr) 500 (zeroed (fr_request fr) 520 m)) s"
  have "device ?s = device s" by (simp add: upd_mem_def)
  then show ?thesis
    using rounds_text [OF assms(1,2), of ?s reqs "\<lambda>r. fst (the (request_text (snd r)))" "\<lambda>r. snd (the (request_text (snd r)))"] assms(3,4)
    by (auto simp: main_io_manager_def)
qed

definition example_request :: "u8 \<Rightarrow> u8 list" where
  "example_request c = replicate 8 0 @ [c] @ replicate 511 0"

lemma example_request_text: "request_text (example_request 65) = Some ([65], 0)"
proof -
  have *: "message_mem (example_request 65) (of_nat i) = (if i = 8 then 65 else 0)" if "i < 520" for i
    using that by (auto simp: message_mem_def example_request_def nth_append nth_Cons unat_of_nat split: nat.splits)
  have "length (example_request 65) = 520" by (simp add: example_request_def)
  then show ?thesis
    using * [of 0] * [of 1] * [of 2] * [of 3] * [of 8] * [of 9] * [of 10] * [of 11] * [of 12] * [of 13] * [of 14] * [of 15]
    by (simp add: request_text_def load_numeral)
qed

theorem io_manager_answers_witness:
  "\<exists>(s :: (mailbox, unit) manager) fr s'. map snd (pending (world (device s))) = [example_request 65, example_request 65] \<and>
     main_io_manager 2 3 2 fr manager_svc s = Some s' \<and> sent (uart (device s')) = [65, 65] \<and> length (replies (world (device s'))) = 2"
proof -
  define fr where "fr = \<lparr>fr_request = 0x7000, fr_response = 0x8000, fr_buff = 0x9000, lit = (\<lambda>_. 0)\<rparr>"
  define s :: "(mailbox, unit) manager" where "s = \<lparr>con_mem = (\<lambda>_. 0), device = \<lparr>uart = \<lparr>sent = [], arriving = []\<rparr>, globals = (),
     world = \<lparr>pending = [(5, example_request 65), (6, example_request 65)], replies = []\<rparr>\<rparr>\<rparr>"
  have "fr_request fr \<noteq> 0" by (simp add: fr_def)
  from io_manager_answers [OF this, of 2 s "[(5, example_request 65), (6, example_request 65)]"]
  obtain s' where "main_io_manager 2 3 2 fr manager_svc s = Some s'" "sent (uart (device s')) = [65, 65]" "length (replies (world (device s'))) = 2"
    by (auto simp: s_def example_request_text numeral_2_eq_2)
  moreover have "map snd (pending (world (device s))) = [example_request 65, example_request 65]" by (simp add: s_def)
  ultimately show ?thesis by (intro exI [of _ s] exI [of _ fr] exI [of _ s']) simp
qed

end
