(* ===== verification/Program_Props.thy ===== *)
theory Program_Props
  imports Programs Io_Props
begin

text \<open>
  What the shell and the first process do with their input: a command line is echoed and executed, and a
  request to shut down ends the loop of the first process.
\<close>

section \<open>The shell\<close>

lemma uart_printer_input: "printer_laws uart_printer sent (\<lambda>d. arriving d = input) (\<lambda>_. False) (\<lambda>_. True)"
proof
  show "\<exists>s'. pr_putc uart_printer c s = Some s' \<and> emits sent (\<lambda>d. arriving d = input) (\<lambda>_. False) [c] s s'"
    if "arriving (device s) = input" for c s
    using that by (simp add: uart_printer_def emits_def same_outside_def sends_def)
  show "\<exists>w s'. pr_puts uart_printer a s = Some (w, s') \<and> emits sent (\<lambda>d. arriving d = input) (\<lambda>_. False) xs s s'"
    if "outside (\<lambda>_. False) (con_mem s) a xs" "arriving (device s) = input" for s a xs
    using puts_from_text [of s a 0 xs] that by (simp add: uart_printer_def uart_puts_def outside_def emits_def same_outside_def sends_def)
  show "\<exists>w s'. pr_put_int uart_printer x base u h s = Some (w, s') \<and>
       emits sent (\<lambda>d. arriving d = input) (\<lambda>_. False) (number_text x (unat base) u h) s s'"
    if "2 \<le> unat base" "arriving (device s) = input" for base x u h s
    using uart_put_int_text [OF that(1)] that(2) by (simp add: uart_printer_def emits_def same_outside_def sends_def)
qed simp

lemma outside_mono: "outside U m a xs \<Longrightarrow> (\<And>y. U' y \<Longrightarrow> U y) \<Longrightarrow> outside U' m a xs"
  by (auto simp: outside_def)

lemma render_plain: "37 \<notin> set xs \<Longrightarrow> render False strs xs as = Some (xs, True)"
  by (induction xs) auto

lemma memcmp_from_equal: "(\<And>i. i < n \<Longrightarrow> m (a + of_nat i) = m (b + of_nat i)) \<Longrightarrow> memcmp_from n m a b = 0"
proof (induction n arbitrary: a b)
  case (Suc n)
  have "memcmp_from n m (a + 1) (b + 1) = 0"
    by (rule Suc.IH) (use Suc.prems [of "Suc _"] in \<open>simp add: add.assoc\<close>)
  then show ?case using Suc.prems [of 0] by simp
qed simp

abbreviation (input) echo :: "u8 list" where "echo \<equiv> [101, 99, 104, 111, 32]"

text \<open>Where the shell finds things in memory: its line, the buffer of \<open>internal_printf\<close> and its literals are apart.\<close>

definition shell_memory :: "frame \<Rightarrow> u64 \<Rightarrow> u8 list \<Rightarrow> bytes \<Rightarrow> bool" where
  "shell_memory fr line prompt m \<longleftrightarrow> unat line + 500 \<le> 2 ^ 64 \<and> unat (fr_buff fr) + 500 \<le> 2 ^ 64 \<and>
     (\<forall>y. span line 500 y \<longrightarrow> \<not> span (fr_buff fr) 500 y) \<and> cstring m (lit fr ''[root@raspi /]# '') prompt \<and>
     outside (\<lambda>y. span line 500 y \<or> span (fr_buff fr) 500 y) m (lit fr []) [10, 9, 32, 32] \<and>
     outside (\<lambda>y. span line 500 y \<or> span (fr_buff fr) 500 y) m (lit fr ''echo '') echo"

lemma execute_echo:
  assumes mem: "shell_memory fr line prompt m" and m': "\<And>y. \<not> span line 500 y \<Longrightarrow> con_mem s y = m y"
    and line: "cstring (con_mem s) line (echo @ xs)" and xs: "37 \<notin> set xs" "length xs + 6 \<le> 500"
  shows "\<exists>s'. execute_command test LOG_LEVEL fr line s = Some s' \<and> sent (device s') = sent (device s) @ xs \<and> arriving (device s') = arriving (device s)"
proof -
  note M = mem [unfolded shell_memory_def]
  let ?U = "\<lambda>y. span line 500 y \<or> span (fr_buff fr) 500 y" and ?echo = "lit fr ''echo ''"
  have keep: "outside ?U (con_mem s) a ys" if "outside ?U m a ys" for a ys
    using that cstring_cong [of ys "con_mem s" a m a] m' by (auto simp: outside_def)
  have lits: "outside ?U m (lit fr []) [10, 9, 32, 32]" "outside ?U m ?echo echo" using M by blast+
  have e: "cstring (con_mem s) ?echo echo" using keep [OF lits(2)] unfolding outside_def by blast
  have b: "con_mem s (line + of_nat i) = (echo @ xs) ! i" if "i < length (echo @ xs)" for i
    using line that unfolding cstring_nth by blast
  have "con_mem s (line + of_nat i) = con_mem s (?echo + of_nat i)" if "i < 5" for i
  proof -
    have i: "i < length echo" using that by simp
    have "con_mem s (?echo + of_nat i) = echo ! i" using e i unfolding cstring_nth by blast
    moreover have "(echo @ xs) ! i = echo ! i" unfolding nth_append using i by (rule if_P)
    ultimately show ?thesis using b [of i] i by simp
  qed
  then have "memcmp line ?echo 5 (con_mem s) = 0" by (simp add: memcmp_def memcmp_from_equal)
  moreover have "con_mem s line = 101" using b [of 0] by simp
  moreover have "cstring (con_mem s) (line + 5) xs" using line by (simp add: add.assoc)
  then have o: "outside (work_area (fr_buff fr) (\<lambda>_. False)) (con_mem s) (line + 5) xs"
  proof -
    have "span line 500 (line + 5 + of_nat i)" if "i \<le> length xs" for i
      using unat_add_lt [of line 500 "5 + i"] M that xs(2) by (simp add: span_def add.assoc)
    then show ?thesis using M \<open>cstring (con_mem s) (line + 5) xs\<close> by (auto simp: outside_def work_area_def)
  qed
  moreover have "outside (work_area (fr_buff fr) (\<lambda>_. False)) (con_mem s) (lit fr []) [10, 9, 32, 32]"
    by (rule outside_mono [OF keep [OF lits(1)]]) (simp add: work_area_def)
  then have env: "printf_env (\<lambda>_. False) (\<lambda>_. True) (fr_buff fr) (lit fr []) (\<lambda>_. None) (con_mem s)"
    using M by (simp add: printf_env_def buffer_ok_def)
  ultimately show ?thesis
    using printer_laws.internal_printf_text [OF uart_printer_input env o render_plain [OF xs(1)], of "arriving (device s)" "[]"]
    by (auto simp: execute_command_def uart_printf_def emits_def)
qed

text \<open>What \<open>uart_get_string\<close> leaves of a line with the command \<open>echo\<close>: the byte behind the line is what it was before.\<close>

lemma echo_line:
  assumes "shell_memory fr line prompt (con_mem s)" and "arriving (device s) = echo @ xs @ e # rest" and "line_end e"
    and "\<forall>c\<in>set xs. \<not> line_end c \<and> c \<noteq> 0" and "length xs + 6 < 500"
    and stale: "stale = con_mem s (line + of_nat (length xs + 5))" and ys: "ys = xs @ (if stale = 0 then [] else [stale])"
  obtains s1 where "uart_get_string line 500 s = Some (0, s1)" and "arriving (device s1) = rest"
    and "sent (device s1) = sent (device s) @ (echo @ xs) @ [e]" and "cstring (con_mem s1) line (echo @ ys)"
    and "\<And>y. \<not> span line 500 y \<Longrightarrow> con_mem s1 y = con_mem s y"
proof -
  note M = assms(1) [unfolded shell_memory_def]
  let ?cs = "echo @ xs"
  obtain s1 where s1: "uart_get_string line 500 s = Some (0, s1)" "arriving (device s1) = rest"
     "sent (device s1) = sent (device s) @ ?cs @ [e]" "\<And>j. j < length ?cs \<Longrightarrow> con_mem s1 (line + of_nat j) = ?cs ! j"
     "\<And>y. \<not> span line (length ?cs) y \<Longrightarrow> y \<noteq> line + of_nat (length ?cs + 1) \<Longrightarrow> con_mem s1 y = con_mem s y"
     "con_mem s1 (line + of_nat (length ?cs + 1)) = 0"
    using get_string_line [of s ?cs e rest 500 line] assms(2-5) M by (auto simp: line_end_def)
  have u: "unat (line + of_nat j) = unat line + j" if "j < 500" for j using unat_add_lt [of line 500 j] M that by simp
  have "line + of_nat (length ?cs) \<noteq> line + of_nat (length ?cs + 1)"
    using u [of "length ?cs"] u [of "length ?cs + 1"] assms(5) by (auto simp: word_unat_eq_iff)
  then have behind: "con_mem s1 (line + of_nat (length ?cs)) = stale"
    using s1(5) [of "line + of_nat (length ?cs)"] u [of "length ?cs"] assms(5) by (simp add: span_def stale add.commute)
  have nz: "0 \<notin> set (echo @ ys)" using assms(4) by (auto simp: ys)
  have "con_mem s1 (line + of_nat j) = (echo @ ys) ! j" if "j < length (echo @ ys)" for j
  proof (cases "j < length ?cs")
    case True
    then show ?thesis using s1(4) [of j] unfolding ys append_assoc [symmetric] by (simp only: nth_append if_True)
  next
    case False
    then have "j = length ?cs" "stale \<noteq> 0" using that by (auto simp: ys split: if_splits)
    then show ?thesis using behind unfolding ys append_assoc [symmetric] by (simp only: nth_append_length if_False)
  qed
  moreover have "con_mem s1 (line + of_nat (length (echo @ ys))) = 0" using s1(6) behind by (auto simp: ys)
  ultimately have "cstring (con_mem s1) line (echo @ ys)" unfolding cstring_nth using nz nth_mem by metis
  moreover have "con_mem s1 y = con_mem s y" if "\<not> span line 500 y" for y
    using that u [of "length ?cs + 1"] assms(5) by (intro s1(5)) (auto simp: span_def)
  ultimately show thesis using that s1(1-3) by blast
qed

text \<open>
  C31. A round of the shell on the command \<open>echo\<close>, for a line of at most 493 characters of text without a percent
  sign (the shell takes the line as a format): it prints the prompt, echoes the characters as they are typed, and
  then sends the rest of the line. As \<open>uart_get_string\<close> leaves the byte behind the line as it was and puts the
  terminator one place further, that byte is sent too when an earlier line has left something other than zero there.
\<close>

theorem shell_echoes:
  assumes "shell_memory fr line prompt (con_mem s)" and "arriving (device s) = echo @ xs @ e # rest" and "line_end e"
    and "\<forall>c\<in>set xs. \<not> line_end c \<and> c \<noteq> 0 \<and> c \<noteq> 37" and "length xs + 6 < 500"
    and "stale = con_mem s (line + of_nat (length xs + 5))" and "stale \<noteq> 37"
  shows "\<exists>s'. shell_round test LOG_LEVEL fr line s = Some s' \<and> arriving (device s') = rest \<and>
     sent (device s') = sent (device s) @ prompt @ (echo @ xs @ [e]) @ xs @ (if stale = 0 then [] else [stale])"
proof -
  let ?s = "sends prompt s"
  define ys where "ys = xs @ (if stale = 0 then [] else [stale])"
  have p: "uart_puts (lit fr ''[root@raspi /]# '') s = Some (0, ?s)"
    using puts_from_text [of s "lit fr ''[root@raspi /]# ''" 0 prompt] assms(1) by (simp add: uart_puts_def shell_memory_def)
  obtain s1 where s1: "uart_get_string line 500 ?s = Some (0, s1)" "arriving (device s1) = rest"
     "sent (device s1) = sent (device ?s) @ (echo @ xs) @ [e]" "cstring (con_mem s1) line (echo @ ys)"
     "\<And>y. \<not> span line 500 y \<Longrightarrow> con_mem s1 y = con_mem ?s y"
    using echo_line [of fr line prompt ?s xs e rest stale ys] assms by (auto simp: sends_def ys_def)
  have "37 \<notin> set ys" "length ys + 6 \<le> 500" using assms(4,5,7) by (auto simp: ys_def)
  moreover have "con_mem s1 y = con_mem s y" if "\<not> span line 500 y" for y using s1(5) [OF that] by (simp add: sends_def)
  ultimately obtain s' where "execute_command test LOG_LEVEL fr line s1 = Some s'" "sent (device s') = sent (device s1) @ ys"
    "arriving (device s') = arriving (device s1)"
    using execute_echo [OF assms(1), of s1 ys test LOG_LEVEL] s1(4) by blast
  moreover have "strlen line (con_mem s1) = Some (of_nat (length (echo @ ys)))" using strlen_cstring [OF s1(4)] .
  moreover have "(0 :: u64) < of_nat (length (echo @ ys))"
    unfolding word_less_nat_alt unat_of_nat using assms(5) by (simp add: ys_def)
  ultimately show ?thesis using p s1(1-3) by (simp add: shell_round_def ys_def)
qed

theorem shell_echoes_witness:
  "\<exists>fr s s'. arriving (device s) = echo @ [104, 105] @ [13] \<and> shell_round (\<lambda>_ _ s. Some s) 2 fr 0x3000 s = Some s' \<and>
     sent (device s) = [] \<and> con_mem s 0x3007 = 90 \<and> sent (device s') = [35] @ (echo @ [104, 105] @ [13]) @ [104, 105, 90]"
proof -
  define fr where "fr = \<lparr>fr_request = 0, fr_response = 0, fr_buff = 0x4000,
    lit = (\<lambda>k. if k = [] then 0x1000 else if k = ''echo '' then 0x1100 else 0x1200)\<rparr>"
  define s where "s = \<lparr>con_mem = (\<lambda>_. 0)(0x1000 := 10, 0x1001 := 9, 0x1002 := 32, 0x1003 := 32,
      0x1100 := 101, 0x1101 := 99, 0x1102 := 104, 0x1103 := 111, 0x1104 := 32, 0x1200 := 35, 0x3007 := 90),
    device = \<lparr>sent = [], arriving = echo @ [104, 105] @ [13]\<rparr>\<rparr>"
  have "shell_memory fr 0x3000 [35] (con_mem s)"
    by (auto simp: shell_memory_def fr_def s_def outside_def span_def le_Suc_eq)
  moreover have "arriving (device s) = echo @ [104, 105] @ 13 # []" "90 = con_mem s (0x3000 + of_nat (length [104 :: u8, 105] + 5))"
    by (simp_all add: s_def)
  ultimately obtain s' where
    "shell_round (\<lambda>_ _ s. Some s) 2 fr 0x3000 s = Some s'" "sent (device s') = sent (device s) @ [35] @ (echo @ [104, 105] @ [13]) @ [104, 105, 90]"
    using shell_echoes [of fr "0x3000" "[35]" s "[104, 105]" 13 "[]" 90 "\<lambda>_ _ s. Some s" 2] by (auto simp: line_end_def)
  moreover have "arriving (device s) = echo @ [104, 105] @ [13]" "sent (device s) = []" "con_mem s 0x3007 = 90" by (simp_all add: s_def)
  ultimately show ?thesis by auto
qed

section \<open>Shutting down\<close>

definition shutdown_code :: "u8 list \<Rightarrow> u64" where
  "shutdown_code msg = load 4 (message_mem msg) 0"

lemma shutdown_round_spec:
  assumes "code \<noteq> 0" and "pending (world (device s)) = (sender, msg) # rest" and "length msg = 4" and "LOG_LEVEL < 3"
  shows "\<exists>s'. shutdown_round LOG_LEVEL fr code manager_svc s = Some (shutdown_code msg = 0, s') \<and> pending (world (device s')) = rest \<and>
     replies (world (device s')) = replies (world (device s)) @
       (if shutdown_code msg = 0 then [] else [(if shutdown_code msg = 1 then 0 else -1, [])])"
proof -
  have "load 4 (put_message code msg (con_mem s)) code = shutdown_code msg"
    unfolding shutdown_code_def
    by (rule load_shift) (use put_message_at [OF assms(1), of msg] assms(3) in \<open>simp add: message_mem_def unat_of_nat\<close>)
  then show ?thesis using assms(2-4)
    by (auto simp: shutdown_round_def receive_def svc_int_def manager_svc_def log_info_def on_uart_def uart_info_def labelled_def acknowledge_def)
qed

text \<open>
  C32. The system can be shut down: when a request with code 0 reaches the first process, after any number of
  other requests, its loop ends there by halting the system. Every earlier request has got its reply,
  0 for code 1 and -1 for any other code.
\<close>

theorem shutdown_halts:
  assumes "code \<noteq> 0" and "LOG_LEVEL < 3" and "pending (world (device s)) = reqs @ (p, msg) # rest"
    and "\<forall>r\<in>set reqs. length (snd r) = 4 \<and> shutdown_code (snd r) \<noteq> 0" and "length msg = 4" and "shutdown_code msg = 0" and "length reqs < n"
  shows "\<exists>s'. listen_shutdown n LOG_LEVEL fr code manager_svc s = Some (True, s') \<and> pending (world (device s')) = rest \<and>
     replies (world (device s')) = replies (world (device s)) @ map (\<lambda>r. (if shutdown_code (snd r) = 1 then 0 else -1, [])) reqs"
proof -
  have "\<exists>s'. shutdown_loop n LOG_LEVEL fr code manager_svc s = Some (True, s') \<and> pending (world (device s')) = rest \<and>
     replies (world (device s')) = replies (world (device s)) @ map (\<lambda>r. (if shutdown_code (snd r) = 1 then 0 else -1, [])) reqs"
    if "pending (world (device s)) = reqs @ (p, msg) # rest" for s :: "(mailbox, 'a) manager"
    using that assms(4,7)
  proof (induction reqs arbitrary: s n)
    case Nil
    then obtain k where "n = Suc k" using gr0_implies_Suc by auto
    then show ?case using shutdown_round_spec [OF assms(1) _ assms(5,2), of s p rest fr] Nil assms(6) by auto
  next
    case (Cons r reqs)
    then obtain k where k: "n = Suc k" "length reqs < k" using Suc_less_eq2 by auto
    from shutdown_round_spec [OF assms(1) _ _ assms(2), of s "fst r" "snd r" "reqs @ (p, msg) # rest" fr] Cons.prems
    obtain s1 where s1: "shutdown_round LOG_LEVEL fr code manager_svc s = Some (False, s1)" "pending (world (device s1)) = reqs @ (p, msg) # rest"
      "replies (world (device s1)) = replies (world (device s)) @ [(if shutdown_code (snd r) = 1 then 0 else -1, [])]" by auto
    then show ?case using Cons.IH [OF s1(2), of k] Cons.prems k by auto
  qed
  from this [of "upd_mem (store 4 code 1) s"] assms(3) show ?thesis by (simp add: listen_shutdown_def upd_mem_def)
qed

theorem shutdown_halts_witness:
  "\<exists>(s :: (mailbox, unit) manager) s'. pending (world (device s)) = [(5, [1, 0, 0, 0]), (6, [0, 0, 0, 0])] \<and>
     listen_shutdown 7 2 \<lparr>fr_request = 0, fr_response = 0, fr_buff = 0x4000, lit = (\<lambda>_. 0)\<rparr> 0x5000 manager_svc s = Some (True, s') \<and>
     replies (world (device s')) = [(0, [])]"
proof -
  define s :: "(mailbox, unit) manager" where "s = \<lparr>con_mem = (\<lambda>_. 0), device = \<lparr>uart = \<lparr>sent = [], arriving = []\<rparr>, globals = (),
     world = \<lparr>pending = [(5, [1, 0, 0, 0]), (6, [0, 0, 0, 0])], replies = []\<rparr>\<rparr>\<rparr>"
  have "shutdown_code [1, 0, 0, 0] = 1" "shutdown_code [0, 0, 0, 0] = 0"
    by (simp_all add: shutdown_code_def load_numeral message_mem_def)
  then obtain s' where "listen_shutdown 7 2 \<lparr>fr_request = 0, fr_response = 0, fr_buff = 0x4000, lit = (\<lambda>_. 0)\<rparr> 0x5000 manager_svc s = Some (True, s')"
     "replies (world (device s')) = [(0, [])]"
    using shutdown_halts [of "0x5000" 2 s "[(5, [1, 0, 0, 0])]" 6 "[0, 0, 0, 0]" "[]" 7 "\<lparr>fr_request = 0, fr_response = 0, fr_buff = 0x4000, lit = (\<lambda>_. 0)\<rparr>"]
    by (auto simp: s_def)
  moreover have "pending (world (device s)) = [(5, [1, 0, 0, 0]), (6, [0, 0, 0, 0])]" by (simp add: s_def)
  ultimately show ?thesis by blast
qed

end
