(* ===== verification/Exception_Report.thy ===== *)
theory Exception_Report
  imports Sys
begin

text \<open>
  Reports of exceptions that the kernel does not handle: \<^verbatim>\<open>src/src/interrupt/interrupt.c\<close> and \<open>abort\<close> of
  \<^verbatim>\<open>src/src/libk/debug.c\<close>. They print to the console and halt; \<open>Some s\<close> is the state in which the machine
  halts. Literals of several lines are named by the first one.
\<close>

section \<open>Printing\<close>

definition say_info :: "nat \<Rightarrow> frame \<Rightarrow> string \<Rightarrow> u64 list \<Rightarrow> uart_t con_state \<Rightarrow> uart_t con_state option" where
  "say_info LOG_LEVEL fr msg args s = map_option snd
     (uart_info LOG_LEVEL (lit fr ''[ INFO  ]'') (fr_buff fr) (lit fr []) (lit fr msg) args s)"

definition say_error :: "nat \<Rightarrow> frame \<Rightarrow> string \<Rightarrow> u64 list \<Rightarrow> uart_t con_state \<Rightarrow> uart_t con_state option" where
  "say_error LOG_LEVEL fr msg args s = map_option snd
     (uart_error LOG_LEVEL (lit fr ''[ ERROR ]'') (fr_buff fr) (lit fr []) (lit fr msg) args s)"

definition uart_simple_put_reg :: "frame \<Rightarrow> u64 \<Rightarrow> uart_t con_state \<Rightarrow> uart_t con_state option" where
  "uart_simple_put_reg fr r s = map_option snd (uart_printf (fr_buff fr) (lit fr []) (lit fr ''Reg : 0x%x'') [r] s)"

text \<open>\<open>ra\<close> is the return address of the call of \<open>abort\<close>.\<close>

definition abort :: "nat \<Rightarrow> frame \<Rightarrow> u64 \<Rightarrow> uart_t con_state \<Rightarrow> uart_t con_state option" where
  "abort LOG_LEVEL fr ra s = say_error LOG_LEVEL fr ''Kernel Panic'' [ra - 4] s"

section \<open>Decoding the registers\<close>

definition esr_args :: "u64 \<Rightarrow> u64 list" where
  "esr_args esr_eln =
     (let exception_class = drop_bit 26 (esr_eln AND 0xfc000000);
          il = (drop_bit 25 (esr_eln AND 0x2000000) \<noteq> 0);
          instr_specific_syndrom = (ucast (esr_eln AND 0x1fffff) :: u16)
      in [exception_class, of_bool il, ucast instr_specific_syndrom, ucast instr_specific_syndrom])"

definition display_esr_eln_info :: "nat \<Rightarrow> frame \<Rightarrow> u64 \<Rightarrow> uart_t con_state \<Rightarrow> uart_t con_state option" where
  "display_esr_eln_info LOG_LEVEL fr esr_eln = say_info LOG_LEVEL fr ''ESR_ELn info :'' (esr_args esr_eln)"

text \<open>A flag is tested with the mask \<open>1 << k\<close>, which is an \<open>int\<close> and is extended with its sign.\<close>

definition flag :: "u64 \<Rightarrow> nat \<Rightarrow> bool" where
  "flag pstate k \<longleftrightarrow> drop_bit k (pstate AND scast (push_bit k 1 :: u32)) \<noteq> 0"

definition pstate_args :: "u64 \<Rightarrow> u64 list" where
  "pstate_args pstate =
     (let n = flag pstate 31; z = flag pstate 30; c = flag pstate 29; v = flag pstate 28; ua = flag pstate 23; ss = flag pstate 21;
          il = flag pstate 20; d = flag pstate 9; a = flag pstate 8; i = flag pstate 7; f = flag pstate 6; ar = flag pstate 5;
          m = (ucast (drop_bit 2 (pstate AND 12)) :: u32); sp = (pstate AND 1 \<noteq> 0)
      in map of_bool [n, z, c, v, d, a, i, f, ss, ua, il, ar] @ [scast m, of_bool sp])"

definition display_pstate_info :: "nat \<Rightarrow> frame \<Rightarrow> u64 \<Rightarrow> uart_t con_state \<Rightarrow> uart_t con_state option" where
  "display_pstate_info LOG_LEVEL fr pstate = say_info LOG_LEVEL fr ''PSTATE info :'' (pstate_args pstate)"

section \<open>Handlers\<close>

text \<open>\<open>msg\<close> is the address of a string. The last call is given the return address instead of the program status.\<close>

definition display_error :: "nat \<Rightarrow> frame \<Rightarrow> u64 \<Rightarrow> u64 \<Rightarrow> u64 \<Rightarrow> u64 \<Rightarrow> u64 \<Rightarrow> u64 \<Rightarrow> u64 \<Rightarrow> uart_t con_state \<Rightarrow> uart_t con_state option" where
  "display_error LOG_LEVEL fr msg el nb spsr_el elr_el esr_el far_el s =
     do { s \<leftarrow> say_error LOG_LEVEL fr ''%s :'' [msg, el, nb, elr_el, spsr_el, esr_el, far_el] s;
          s \<leftarrow> display_esr_eln_info LOG_LEVEL fr esr_el s;
          display_pstate_info LOG_LEVEL fr elr_el s }"

definition c_serror_handler :: "nat \<Rightarrow> frame \<Rightarrow> u64 \<Rightarrow> u64 \<Rightarrow> u64 \<Rightarrow> u64 \<Rightarrow> u64 \<Rightarrow> u64 \<Rightarrow> u64 \<Rightarrow> uart_t con_state \<Rightarrow> uart_t con_state option" where
  "c_serror_handler LOG_LEVEL fr ra el nb elr_el spsr_el esr_el far_el s =
     do { s \<leftarrow> say_error LOG_LEVEL fr '' System Error :'' [el, nb, elr_el, spsr_el, esr_el, far_el] s;
          s \<leftarrow> display_esr_eln_info LOG_LEVEL fr esr_el s;
          s \<leftarrow> display_pstate_info LOG_LEVEL fr elr_el s;
          abort LOG_LEVEL fr ra s }"

definition c_irq_handler :: "nat \<Rightarrow> frame \<Rightarrow> u64 \<Rightarrow> u64 \<Rightarrow> u64 \<Rightarrow> uart_t con_state \<Rightarrow> uart_t con_state option" where
  "c_irq_handler LOG_LEVEL fr ra el nb s =
     do { s \<leftarrow> say_error LOG_LEVEL fr '' IRQ :'' [el, nb] s;
          abort LOG_LEVEL fr ra s }"

definition c_fiq_handler :: "nat \<Rightarrow> frame \<Rightarrow> u64 \<Rightarrow> u64 \<Rightarrow> u64 \<Rightarrow> uart_t con_state \<Rightarrow> uart_t con_state option" where
  "c_fiq_handler LOG_LEVEL fr ra el nb s =
     do { s \<leftarrow> say_error LOG_LEVEL fr '' FIQ :'' [el, nb] s;
          abort LOG_LEVEL fr ra s }"

definition c_el2_handler :: "nat \<Rightarrow> frame \<Rightarrow> u64 \<Rightarrow> uart_t con_state \<Rightarrow> uart_t con_state option" where
  "c_el2_handler LOG_LEVEL fr ra s =
     do { s \<leftarrow> say_error LOG_LEVEL fr ''Interrupt handled at EL2 : non supported'' [] s;
          abort LOG_LEVEL fr ra s }"

section \<open>The reported values\<close>

lemma word_neq_bit: "(w :: u64) \<noteq> 0 \<longleftrightarrow> (\<exists>n. bit w n)"
  by (metis bit_0_eq bit_word_eqI bot_apply bot_bool_def)

lemma flag_bits: 
  assumes "k < 32"
  shows "flag x k \<longleftrightarrow> (\<exists>n. bit x n \<and> (if k = 31 then 31 \<le> n else n = k))"
proof -
  have M: "bit (scast (push_bit k 1 :: u32) :: u64) n \<longleftrightarrow> n < 64 \<and> (if k = 31 then 31 \<le> n else n = k)" for n
    using assms by (auto simp: bit_simps bit_1_iff min_def split: if_splits)
  have "flag x k \<longleftrightarrow> (\<exists>n. bit (drop_bit k (x AND scast (push_bit k 1 :: u32))) n)" 
    unfolding flag_def word_neq_bit by simp
  also have "\<dots> \<longleftrightarrow> (\<exists>n. bit x (k + n) \<and> k + n < 64 \<and> (if k = 31 then 31 \<le> k + n else k + n = k))"
    unfolding bit_drop_bit_eq comp_def bit_and_iff M by blast
  also have "\<dots> \<longleftrightarrow> (\<exists>n. bit x n \<and> (if k = 31 then 31 \<le> n else n = k))"
  proof
    assume "\<exists>n. bit x n \<and> (if k = 31 then 31 \<le> n else n = k)"
    then obtain n where n: "bit x n" "if k = 31 then 31 \<le> n else n = k" by blast
    then have "k + (n - k) = n" by (auto split: if_splits)
    moreover have "n < 64" using bit_imp_le_length [OF n(1)] by simp
    ultimately show "\<exists>n. bit x (k + n) \<and> k + n < 64 \<and> (if k = 31 then 31 \<le> k + n else k + n = k)" using n by (intro exI [of _ "n - k"]) simp
  qed blast
  finally show ?thesis .
qed

lemma flag_simps: "k < 31 \<Longrightarrow> flag x k = bit x k" "flag x 31 \<longleftrightarrow> x \<ge> 2 ^ 31"
proof -
  show "k < 31 \<Longrightarrow> flag x k = bit x k" by (auto simp: flag_bits)
  have "x < 2 ^ 31 \<longleftrightarrow> take_bit 31 x = x" 
    by (simp add: word_less_nat_alt word_unat_eq_iff unsigned_take_bit_eq take_bit_nat_eq_self_iff)
  also have "\<dots> \<longleftrightarrow> (\<forall>n. bit x n \<longrightarrow> n < 31)" 
    by (metis bit_take_bit_iff bit_word_eqI)
  finally show "flag x 31 \<longleftrightarrow> x \<ge> 2 ^ 31" by (auto simp: flag_bits not_le [symmetric])
qed

text \<open>
  What the report of an exception says about the saved registers. The status flags are the bits of the
  register, but the negative flag is also shown for any value with one of the bits 32 to 63 set;
  exception class and instruction length are decoded as they should, but of the syndrome, which has 21
  bits, only the low 16 are shown.
\<close>

theorem exception_registers_decoded:
  "pstate_args x = map of_bool [x \<ge> 2 ^ 31, bit x 30, bit x 29, bit x 28, bit x 9, bit x 8, bit x 7, bit x 6, bit x 21, bit x 23, bit x 20, bit x 5] @
     [drop_bit 2 x mod 4, of_bool (bit x 0)] \<and>
   esr_args x = [drop_bit 26 x mod 64, of_bool (bit x 25), x mod 2 ^ 16, x mod 2 ^ 16]"
proof -
  have low: "y AND 63 = y mod 64" "y AND 3 = y mod 4" "y AND 1 = y mod 2" for y :: u64
    using take_bit_eq_mask [of 6 y] take_bit_eq_mask [of 2 y] take_bit_eq_mask [of 1 y] by (simp_all add: mask_eq_exp_minus_1 take_bit_eq_mod)
  have m: "scast (ucast (drop_bit 2 (x AND 12)) :: u32) = drop_bit 2 x mod 4"
  proof -
    have e: "drop_bit 2 (x AND 12) = drop_bit 2 x mod 4" using low(2) by simp
    have "unat (drop_bit 2 x mod 4) < 4" by (simp add: unat_mod)
    then show ?thesis unfolding e using small_casts(2) [of "drop_bit 2 x mod 4"] by simp
  qed
  have s: "x AND 1 \<noteq> 0 \<longleftrightarrow> bit x 0" by (simp add: and_one_eq bit_0 odd_iff_mod_2_eq_one)
  have "drop_bit 25 (x AND 0x2000000) \<noteq> 0 \<longleftrightarrow> bit x 25" using low(3) [of "drop_bit 25 x"] by (simp add: bit_iff_odd_drop_bit odd_iff_mod_2_eq_one)
  moreover have "ucast (ucast (x AND 0x1fffff) :: u16) = take_bit 16 x"
  proof -
    have "x AND 0x1fffff = take_bit 21 x" by (simp add: take_bit_eq_mask mask_eq_exp_minus_1)
    then show ?thesis by (auto intro!: bit_word_eqI simp: bit_simps)
  qed
  moreover have "drop_bit 26 (x AND 0xfc000000) = drop_bit 26 x mod 64" using low(1) by simp
  ultimately show ?thesis using m s by (simp add: pstate_args_def esr_args_def flag_simps Let_def take_bit_eq_mod)
qed

end
