(* ===== verification/Boot.thy ===== *)
theory Boot
  imports Kernel_Loop
begin

text \<open>
  The start of the kernel: \<open>kernel_main\<close> on the zeroed globals that the boot code leaves, after
  the assembly has called \<open>c_init_mmu\<close> for the kernel, ends in the process \<open>init\<close>, in a state that
  satisfies the invariant of the kernel.
\<close>

section \<open>The table that \<open>init_proc\<close> builds\<close>

text \<open>The zero-initialised globals of \<^verbatim>\<open>proc.c\<close>, as far as the code relies on them.\<close>

definition bss_zero :: "system_state \<Rightarrow> bool" where
  "bss_zero s \<longleftrightarrow> prio_proc s = (\<lambda>_. None) \<and> prio_proc_n s = (\<lambda>_. 0) \<and> n_runnable_procs s = 0 \<and>
     pid (procs s 0) = 0 \<and> priority (procs s 0) = 0 \<and> source_pid (receiver_data (procs s 0)) = 0 \<and> child (procs s 0) = None"

definition boot_table :: "proc_descriptor \<Rightarrow> proc_descriptor \<Rightarrow> system_state \<Rightarrow> system_state" where
  "boot_table d0 d1 s = s\<lparr>curr_pid := 0, n_runnable_procs := 1,
     prio_proc := (\<lambda>_. None)(15 := Some 1), prio_proc_n := (\<lambda>_. 0)(15 := 1),
     procs := (\<lambda>q. if q < MAX_PROC then (procs s q)\<lparr>state := FREE\<rparr> else procs s q)(0 := d0, 1 := d1)\<rparr>"

definition boot_abs :: "proc_descriptor \<Rightarrow> proc_descriptor \<Rightarrow> system_state \<Rightarrow> abs_state" where
  "boot_abs d0 d1 s = \<lparr>a_last = last_pid s, a_procs = (\<lambda>q. proc_data (procs (boot_table d0 d1 s) q)),
     a_ready = (\<lambda>_. [])(15 := [1]), a_kids = (\<lambda>_. [])\<rparr>"

definition kernel_desc_ok :: "proc_descriptor \<Rightarrow> bool" where
  "kernel_desc_ok d \<longleftrightarrow> state d = KERNEL \<and> pid d = 0 \<and> priority d = 0 \<and> source_pid (receiver_data d) = 0 \<and> child d = None"

definition init_desc_ok :: "proc_descriptor \<Rightarrow> bool" where
  "init_desc_ok d \<longleftrightarrow> state d = RUNNABLE \<and> pid d = 1 \<and> parent_pid d = 1 \<and> priority d = 15 \<and>
     source_pid (receiver_data d) = 0 \<and> child d = None \<and> next_same_prio d = Some 1 \<and> prev_same_prio d = Some 1 \<and>
     initialized d \<and> \<not> preempt (sched_conf d) \<and> used_size (buffer d) = 0 \<and> write_addr (buffer d) = 0"

lemma boot_table_simps [simp]:
  "procs (boot_table d0 d1 s) q = (if q = 0 then d0 else if q = 1 then d1 else
     if q < MAX_PROC then (procs s q)\<lparr>state := FREE\<rparr> else procs s q)"
  "prio_proc (boot_table d0 d1 s) = (\<lambda>_. None)(15 := Some 1)" "prio_proc_n (boot_table d0 d1 s) = (\<lambda>_. 0)(15 := 1)"
  "n_runnable_procs (boot_table d0 d1 s) = 1" "curr_pid (boot_table d0 d1 s) = 0" "last_pid (boot_table d0 d1 s) = last_pid s"
  by (simp_all add: boot_table_def)

lemma boot_sched:
  assumes "kernel_desc_ok d0" and "init_desc_ok d1"
  shows "sched_rel ((\<lambda>_. [])(15 := [1])) (boot_table d0 d1 s)"
  unfolding sched_rel_def
proof (intro conjI allI impI)
  show "queue_ok (((\<lambda>_. [])(15 := [1])) k) k (boot_table d0 d1 s)" for k
    using assms by (cases "k = 15") (auto simp: queue_ok_def sched_ring_def ring_singleton kernel_desc_ok_def init_desc_ok_def)
  show "prio_ok (priority (procs (boot_table d0 d1 s) p))" if "state (procs (boot_table d0 d1 s) p) = RUNNABLE" "p < MAX_PROC" for p
    using that assms by (auto simp: prio_ok_def kernel_desc_ok_def init_desc_ok_def split: if_splits)
  have "{..MAX_PRIO} = insert 15 {..<15}" by auto
  then show "n_runnable_procs (boot_table d0 d1 s) = of_nat (\<Sum>k\<le>MAX_PRIO. length (((\<lambda>_. [])(15 := [1::nat])) k))" by simp
qed

lemma boot_valid:
  assumes d: "kernel_desc_ok d0" "init_desc_ok d1"
  shows "abs_rel (boot_abs d0 d1 s) (boot_table d0 d1 s)" and "a_wf (boot_abs d0 d1 s)" and "all_ok (boot_abs d0 d1 s)"
proof -
  have no: "\<not> user_proc (boot_table d0 d1 s) q" for q by (simp add: user_proc_def)
  have "q = 0 \<or> q = 1" if "q \<in> a_live (boot_abs d0 d1 s)" for q
    using that by (auto simp: a_live_def boot_abs_def split: if_splits)
  then have "kids (boot_table d0 d1 s) q []" if "q \<in> a_live (boot_abs d0 d1 s)" for q
    using that d by (fastforce simp: kids_def sring_def kernel_desc_ok_def init_desc_ok_def)
  then have "tree_on (a_live (boot_abs d0 d1 s)) (\<lambda>_. []) (boot_table d0 d1 s)"
    using no by (simp add: tree_on_def)
  then show "abs_rel (boot_abs d0 d1 s) (boot_table d0 d1 s)"
    using boot_sched [OF d, of s] by (simp add: abs_rel_def abs_on_def) (simp add: boot_abs_def)
  show "a_wf (boot_abs d0 d1 s)" "all_ok (boot_abs d0 d1 s)"
    using d by (auto simp: a_wf_def all_ok_def boot_abs_def proc_ok_def desc_ok_def prio_ok_def msg_ok_def
        kernel_desc_ok_def init_desc_ok_def)
qed

section \<open>\<open>init_proc\<close>\<close>

lemma init_proc_eq:
  assumes z: "bss_zero (k_sys k)" and e: "0 < end_addr ll"
    and mmu: "\<And>s. c_init_mmu ll s INIT_PID (k_mmu k) = Some (lvl2, m)"
  obtains d0 d1 k' where "init_proc ll main_init k = Some k'" and "k_sys k' = boot_table d0 d1 (k_sys k)"
    and "k_mmu k' = m" and "kernel_desc_ok d0" and "init_desc_ok d1" and "pc (saved_context d1) = main_init"
    and "ttbr0_el1 (mem_conf d1) = push_bit 48 1 OR (lvl2 AND MASK 47 1)" and "conf_heap_begin (mem_conf d1) = end_addr ll"
    and "conf_end_offset (mem_conf d1) = 0"
proof -
  define s1 where "s1 = (k_sys k)\<lparr>curr_pid := 0, procs := (\<lambda>q. if q < MAX_PROC
                 then (procs (k_sys k) q)\<lparr>state := FREE\<rparr> else procs (k_sys k) q)\<rparr>"
  define s2 where "s2 = set_state 0 KERNEL s1"
  define s5 where "s5 = proc_upd INIT_PID (saved_context_update (sctlr_el1_update (\<lambda>x. x OR push_bit 18 1)))
     (proc_upd INIT_PID (\<lambda>_. new_proc_descriptor INIT_PID INIT_PID 15 main_init)
       (proc_upd KERNEL_PID (mem_conf_update (ttbr0_el1_update (\<lambda>_. TTBR0_EL1 (k_mmu k)))) s2))"
  have c2: "change_state 0 KERNEL s1 = Some s2"
    by (simp add: change_state_def s1_def s2_def)
  have s5: "procs s5 1 = saved_context_update (sctlr_el1_update (\<lambda>x. x OR push_bit 18 1)) (new_proc_descriptor 1 1 15 main_init)"
    "prio_proc s5 = (\<lambda>_. None)" "prio_proc_n s5 = (\<lambda>_. 0)" "n_runnable_procs s5 = 0"
    using z by (simp_all add: s5_def s2_def s1_def bss_zero_def)
  note s5' = s5(1) [unfolded One_nat_def]
  define s6 where "s6 = set_state 1 RUNNABLE ((set_prio_proc 15 (Some 1) (set_prev_same_prio 1 (Some 1) (set_next_same_prio 1 (Some 1) s5)))
     \<lparr>n_runnable_procs := 1, prio_proc_n := (\<lambda>_. 0)(15 := 1)\<rparr>)"
  have c6: "change_state 1 RUNNABLE s5 = Some s6"
    using s5 by (simp add: change_state_def new_proc_descriptor_def prio_index_def s6_def kernel_defs)
  define k6 where "k6 = k\<lparr>k_sys := s6\<rparr>"
  define k7 where "k7 = k_proc_upd INIT_PID (mem_conf_update (ttbr0_el1_update (\<lambda>_. push_bit 48 1 OR (lvl2 AND MASK 47 1)))) (k6\<lparr>k_mmu := m\<rparr>)"
  define k8 where "k8 = save_alloc_conf KERNEL_PID k7"
  define k9 where "k9 = save_alloc_conf INIT_PID (k8\<lparr>k_alloc := (k_alloc k8)\<lparr>heap_begin := end_addr ll, end_offset := 0, global_base := 0\<rparr>\<rparr>)"
  define k11 where "k11 = k_proc_upd INIT_PID (initialized_update (\<lambda>_. True)) (restore_alloc_conf KERNEL_PID k9)"
  have pid6: "pid (procs s6 1) = 1" by (simp add: s6_def kernel_defs s5' new_proc_descriptor_def)
  have k7: "set_up_memory_new_proc ll INIT_PID k6 = Some k7"
    by (simp add: set_up_memory_new_proc_def k6_def k7_def mmu [unfolded One_nat_def] pid6 [unfolded One_nat_def])
  have step2: "on_sys (change_state 0 KERNEL) (k\<lparr>k_sys := s1\<rparr>) = Some (k\<lparr>k_sys := s2\<rparr>)"
    by (simp add: on_sys_def c2)
  have step6: "on_sys (change_state INIT_PID RUNNABLE) (k_proc_upd INIT_PID (saved_context_update (sctlr_el1_update (\<lambda>x. x OR push_bit 18 1)))
     (k_proc_upd INIT_PID (\<lambda>_. new_proc_descriptor INIT_PID INIT_PID 15 main_init)
       (k_proc_upd KERNEL_PID (mem_conf_update (ttbr0_el1_update (\<lambda>_. TTBR0_EL1 (k_mmu (k\<lparr>k_sys := s2\<rparr>))))) (k\<lparr>k_sys := s2\<rparr>)))) = Some k6"
    using c6 unfolding s5_def by (simp add: on_sys_def k_proc_upd_def k6_def)
  have step9: "init_alloc (end_addr ll) (k_alloc k8) = Some ((k_alloc k8)\<lparr>heap_begin := end_addr ll, end_offset := 0, global_base := 0\<rparr>)"
    using e by (simp add: init_alloc_def)
  have "0 < conf_heap_begin (mem_conf (procs (k_sys k9) INIT_PID))"
    using e by (simp add: k9_def save_alloc_conf_def)
  then have step10: "assert (0 < conf_heap_begin (mem_conf (procs (k_sys k9) INIT_PID))) = Some ()" by simp
  have code: "init_proc ll main_init k = Some k11"
    by (simp only: init_proc_def Let_def s1_def [symmetric] step2 bind.bind_lunit step6 k7 k8_def [symmetric] step9 k9_def [symmetric]
         step10 k11_def)
  define d0 where "d0 = procs (k_sys k11) 0"
  define d1 where "d1 = procs (k_sys k11) 1"
  have k11: "k_sys k11 = proc_upd INIT_PID (initialized_update (\<lambda>_. True)) (proc_upd INIT_PID (mem_conf_update (\<lambda>c. c\<lparr>conf_heap_begin := end_addr ll,
       conf_end_offset := 0, conf_global_base := 0\<rparr>)) (proc_upd KERNEL_PID (mem_conf_update (\<lambda>c. c\<lparr>conf_heap_begin := heap_begin (k_alloc k),
       conf_end_offset := end_offset (k_alloc k), conf_global_base := global_base (k_alloc k)\<rparr>))
        (proc_upd INIT_PID (mem_conf_update (ttbr0_el1_update (\<lambda>_. push_bit 48 1 OR (lvl2 AND MASK 47 1)))) s6)))"
    by (simp add: k11_def restore_alloc_conf_def k9_def k8_def k7_def k6_def save_alloc_conf_def Let_def)
  have "k_sys k11 = boot_table d0 d1 (k_sys k)"
    by (rule system_state.equality) (simp_all add: d0_def d1_def boot_table_def fun_eq_iff k11 s6_def kernel_defs s5_def s2_def s1_def
         z [unfolded bss_zero_def])
  moreover have "kernel_desc_ok d0" using z by (simp add: d0_def k11 s6_def kernel_defs s5_def s2_def s1_def bss_zero_def kernel_desc_ok_def)
  moreover have d1: "d1 = (new_proc_descriptor 1 1 15 main_init)\<lparr>state := RUNNABLE, initialized := True,
      saved_context := saved_context d1, mem_conf := mem_conf d1, next_same_prio := Some 1, prev_same_prio := Some 1\<rparr>"
    by (simp add: d1_def k11 s6_def kernel_defs s5' new_proc_descriptor_def)
  have "init_desc_ok d1" by (subst d1) (simp add: init_desc_ok_def new_proc_descriptor_def)
  moreover have "pc (saved_context d1) = main_init" "ttbr0_el1 (mem_conf d1) = push_bit 48 1 OR (lvl2 AND MASK 47 1)"
    "conf_heap_begin (mem_conf d1) = end_addr ll" "conf_end_offset (mem_conf d1) = 0"
    by (simp_all add: d1_def k11 s6_def kernel_defs s5' new_proc_descriptor_def)
  moreover have "k_mmu k11 = m"
    by (simp add: k11_def restore_alloc_conf_def k9_def k8_def k7_def save_alloc_conf_def Let_def k_proc_upd_def)
  ultimately show ?thesis using code that by blast
qed

section \<open>Properties\<close>

lemma init_mmu_sys: "c_init_mmu ll s INIT_PID m = c_init_mmu ll s' INIT_PID m"
  by (simp add: c_init_mmu_def)

lemma exec_init:
  assumes sys: "k_sys k = boot_table d0 d1 s" and d: "kernel_desc_ok d0" "init_desc_ok d1"
  obtains k' where "exec_proc INIT_PID k = Some (Running, k')" and "loaded d1 k k'"
    and "in_user (a_enter (k_alloc k) INIT_PID (boot_abs d0 d1 s)) k'" and "curr_pid (k_sys k') = INIT_PID"
    and "saved_context (procs (k_sys k') INIT_PID) = saved_context d1"
proof -
  obtain k' where k': "run_process 1 k = Some (Running, k')" "loaded d1 k k'"
    "k_sys k' = (proc_upd 1 entered (proc_upd KERNEL_PID (mem_conf_update (load_conf (k_alloc k))) (k_sys k)))\<lparr>curr_pid := 1\<rparr>"
    by (rule run_process_loaded [of d1 k 1]) (use d sys in \<open>auto simp: init_desc_ok_def msg_ok_def\<close>)
  note v = boot_valid [OF d, of s]
  have "abs_rel (a_enter (k_alloc k) 1 (boot_abs d0 d1 s)) (k_sys k')"
    using enter_abs [OF v(1) [unfolded abs_rel_def], of "k_alloc k" 1] sys by (simp add: abs_rel_def k'(3))
  moreover have "a_procs (a_enter (k_alloc k) 1 (boot_abs d0 d1 s)) 1 = entered (proc_data d1)"
    by (simp add: a_enter_def boot_abs_def)
  ultimately have "in_user (a_enter (k_alloc k) 1 (boot_abs d0 d1 s)) k'"
    using a_wf_enter [OF v(2)] all_ok_enter [OF v(3)] k'(3) d(2)
    by (simp add: in_user_def valid_def) (simp add: entered_def init_desc_ok_def)
  moreover have "curr_pid (k_sys k') = 1" "saved_context (procs (k_sys k') 1) = saved_context d1"
    unfolding k'(3) by (simp_all add: sys entered_def)
  ultimately show thesis
    using that k'(1,2) unfolding exec_proc_def by blast
qed

text \<open>
  C9. The kernel boots. For every image that the linker script can lay out, when the boot code has
  zeroed the globals and set up the kernel's own translation tables with \<open>c_init_mmu\<close>, \<open>kernel_main\<close>
  does not fail an assertion: it ends in \<open>init\<close> (process 1, at \<open>main_init\<close>), which runs in an
  address space of its own with an empty heap behind the kernel image, and the invariant of
  the kernel holds.
\<close>

theorem kernel_boots:
  assumes "aligned ds" and "ds \<le> de" and "de \<le> 0x3a000000" and ll: "ll = linker_symbols ds de"
    and z: "bss_zero (k_sys k)" and mmu: "c_init_mmu ll sys KERNEL_PID m0 = Some (lvl2, m)"
    and km: "k_mmu k = m\<lparr>TTBR0_EL1 := lvl2\<rparr>"
  shows "\<exists>k' a. kernel_main ll main_init k = Some (Running, k') \<and> in_user a k' \<and> curr_pid (k_sys k') = INIT_PID \<and>
     pc (saved_context (procs (k_sys k') INIT_PID)) = main_init \<and>
     TTBR0_EL1 (k_mmu k') = push_bit 48 1 OR ((mmu_tables_start ll + 0x200000) AND MASK 47 1) \<and>
     heap_begin (k_alloc k') = end_addr ll \<and> end_offset (k_alloc k') = 0 \<and>
     (\<forall>va. valid_va va \<longrightarrow> translate (k_mmu k') va =
        own_space ll (end_addr ll + 2 * GRANULE) (end_addr ll + 3 * GRANULE) va)"
proof -
  from linker_layout [OF assms(1-3)] obtain b where b: "layout_ok ll" "unat (end_addr ll) = 4096 * b" "b \<le> 0x3f000"
    "unat (physical_memory_map_addr ll) + 0x140000 \<le> unat (end_addr ll)"
    unfolding ll .
  obtain m' where m': "c_init_mmu ll sys KERNEL_PID m0 = Some (mmu_tables_start ll, m')" "id_paging_size m' = end_addr ll"
    "pool_wf (0x3fffd - b) m'" "pool (0x3fffd - b) m' = free_after (b + 2)"
    "\<And>q. b \<le> q \<Longrightarrow> q < 0x40000 \<Longrightarrow> counter_ok (page_addr q) m'"
    using kernel_mmu_init_spec [OF b] by blast
  then have [simp]: "m' = m" "lvl2 = mmu_tables_start ll" using mmu by simp_all
  define mk where "mk = m\<lparr>TTBR0_EL1 := lvl2\<rparr>"
  have mk: "pool_wf (0x3fffd - b) mk" "pool (0x3fffd - b) mk = free_after (b + 2)" "id_paging_size mk = end_addr ll"
    "\<And>q. b \<le> q \<Longrightarrow> q < 0x40000 \<Longrightarrow> counter_ok (page_addr q) mk"
    using m' by (simp_all add: mk_def pool_wf_def pool_def map_entry_def counter_ok_def get_bind_counter_address_def)
  have bb: "b \<le> b + 2" "b + 2 < 0x3f00a" using b(3) by simp_all
  obtain mi where mi: "c_init_mmu ll sys INIT_PID mk = Some (mmu_tables_start ll + 0x200000, mi)"
    and tr: "\<forall>va. valid_va va \<longrightarrow> translate mi va = own_space ll (page_addr (b + 2)) (page_addr (Suc (b + 2))) va"
    using init_mmu_spec [OF b(1-3) mk(1,2) bb mk(3,4), of sys] by blast
  have e: "0 < end_addr ll" using b(4) by (simp add: word_less_nat_alt)
  define k1 where "k1 = k\<lparr>k_alloc := (k_alloc k)\<lparr>heap_begin := end_addr ll, end_offset := 0, global_base := 0\<rparr>\<rparr>"
  have mmu1: "c_init_mmu ll s INIT_PID (k_mmu k1) = Some (mmu_tables_start ll + 0x200000, mi)" for s
    using mi init_mmu_sys [of ll s mk sys] km by (simp add: k1_def mk_def)
  have z1: "bss_zero (k_sys k1)" using z by (simp add: k1_def)
  obtain d0 d1 k2 where k2: "init_proc ll main_init k1 = Some k2" "k_sys k2 = boot_table d0 d1 (k_sys k1)" "k_mmu k2 = mi"
    and d: "kernel_desc_ok d0" "init_desc_ok d1" "pc (saved_context d1) = main_init"
    "ttbr0_el1 (mem_conf d1) = push_bit 48 1 OR ((mmu_tables_start ll + 0x200000) AND MASK 47 1)"
    "conf_heap_begin (mem_conf d1) = end_addr ll" "conf_end_offset (mem_conf d1) = 0"
    by (rule init_proc_eq [OF z1 e mmu1]) blast
  define k3 where "k3 = k2\<lparr>k_timer := init_timer_irq (k_timer k2)\<rparr>"
  have k3: "k_sys k3 = boot_table d0 d1 (k_sys k1)" "k_mmu k3 = mi" using k2 by (simp_all add: k3_def)
  have "kernel_init ll main_init k = Some k3"
    using e k2(1) by (simp add: kernel_init_def init_alloc_def k1_def k3_def)
  moreover obtain k4 where k4: "exec_proc INIT_PID k3 = Some (Running, k4)" "loaded d1 k3 k4"
    "in_user (a_enter (k_alloc k3) INIT_PID (boot_abs d0 d1 (k_sys k1))) k4" "curr_pid (k_sys k4) = INIT_PID"
    "saved_context (procs (k_sys k4) INIT_PID) = saved_context d1"
    by (rule exec_init [OF k3(1) d(1,2)]) blast
  ultimately have "kernel_main ll main_init k = Some (Running, k4)" by (simp add: kernel_main_def)
  moreover have "translate (k_mmu k4) va = translate mi va" for va
    using k4(2) k3(2) by (simp add: loaded_def translate_def pt_def lvl2_entry_def lvl3_table_def AT_def)
  moreover have "page_addr b = end_addr ll" using b(2,3) by (simp add: word_unat_eq_iff unat_page_addr)
  then have "page_addr (b + 2) = end_addr ll + 2 * GRANULE" "page_addr (Suc (b + 2)) = end_addr ll + 3 * GRANULE"
    by (simp_all add: page_addr_def algebra_simps)
  ultimately show ?thesis
    using k4 d tr by (intro exI [of _ k4] exI [of _ "a_enter (k_alloc k3) INIT_PID (boot_abs d0 d1 (k_sys k1))"])
      (simp add: loaded_def)
qed

definition zero_sys :: system_state where
  "zero_sys = \<lparr>curr_pid = 0, last_pid = 0, procs = (\<lambda>_. new_proc_descriptor 0 0 0 0),
     prio_proc_n = (\<lambda>_. 0), n_runnable_procs = 0, prio_proc = (\<lambda>_. None)\<rparr>"

definition boot_kernel :: "u64 \<Rightarrow> mmu_state \<Rightarrow> kernel_state" where
  "boot_kernel lvl2 m = example_kernel\<lparr>k_sys := zero_sys, k_mmu := m\<lparr>TTBR0_EL1 := lvl2\<rparr>\<rparr>"

theorem kernel_boots_witness:
  "\<exists>lvl2 m. c_init_mmu (linker_symbols 0x100000 0x200000) zero_sys KERNEL_PID example_mmu = Some (lvl2, m) \<and>
     bss_zero (k_sys (boot_kernel lvl2 m)) \<and>
     (\<exists>k' a. kernel_main (linker_symbols 0x100000 0x200000) 0x80000 (boot_kernel lvl2 m) = Some (Running, k') \<and>
        in_user a k' \<and> curr_pid (k_sys k') = INIT_PID \<and> pc (saved_context (procs (k_sys k') INIT_PID)) = 0x80000)"
proof -
  have al: "aligned (0x100000 :: u64)" "0x100000 \<le> (0x200000 :: u64)" "0x200000 \<le> (0x3a000000 :: u64)"
    by (simp_all add: aligned_unat)
  from linker_layout [OF al] obtain b where "layout_ok (linker_symbols 0x100000 0x200000)"
    "unat (end_addr (linker_symbols 0x100000 0x200000)) = 4096 * b" "b \<le> 0x3f000"
    "unat (physical_memory_map_addr (linker_symbols 0x100000 0x200000)) + 0x140000 \<le> unat (end_addr (linker_symbols 0x100000 0x200000))" .
  from kernel_mmu_init_spec [OF this, of zero_sys example_mmu] obtain lvl2 m where
    m: "c_init_mmu (linker_symbols 0x100000 0x200000) zero_sys KERNEL_PID example_mmu = Some (lvl2, m)" by blast
  have z: "bss_zero (k_sys (boot_kernel lvl2 m))" "k_mmu (boot_kernel lvl2 m) = m\<lparr>TTBR0_EL1 := lvl2\<rparr>"
    by (simp_all add: bss_zero_def boot_kernel_def zero_sys_def new_proc_descriptor_def)
  from kernel_boots [OF al refl z(1) m z(2), of "0x80000"] m z(1) show ?thesis by blast
qed

end
