(* ===== verification/Spec2Isabelle.thy ===== *)
theory Spec2Isabelle
  imports Buffer_Faults Channel_Kernel Copy_On_Write Serial_Port Fs_Service_Props Fs_Listing Program_Props Exception_Report Boot
begin

text \<open>
  Verification library for \<^emph>\<open>sysres-os\<close>, a small operating system kernel for the Raspberry Pi 3
  (AArch64). The C sources lie in \<^verbatim>\<open>src/src\<close>.

  \<^bold>\<open>The program.\<close> The kernel runs at EL1 and keeps one global table of at most 32 processes
  (\<^verbatim>\<open>proc/proc.h\<close>). Processes enter it through \<open>svc\<close> (\<open>fork\<close>, \<open>wait\<close>, \<open>exit\<close>, \<open>send\<close>, \<open>receive\<close>,
  \<open>acknowledge\<close>, ...; \<^verbatim>\<open>proc/proc.c\<close>), through memory faults and through the timer interrupt. The
  scheduler keeps a circular list of runnable processes per priority. Memory is managed in pages
  with two levels of translation tables, a stack of free pages and reference counters for pages
  shared by copy on write (\<^verbatim>\<open>memory/mmu.c\<close>). Each process has a heap (\<^verbatim>\<open>memory/alloc.c\<close>). Everything else
  runs in processes that exchange messages: managers of memory, of input and output and of files
  (\<^verbatim>\<open>usr\<close>), their client libraries (\<^verbatim>\<open>libk\<close>) and a shell.

  \<^bold>\<open>Conventions.\<close> A C function that can fail an \<open>assert\<close> or dereference a null pointer is a function
  into \<open>option\<close>, and \<open>None\<close> is that outcome; state is passed explicitly; unsigned C integers are
  words of their width. Walks along linked structures of the process table carry \<open>MAX_PROC\<close> steps of
  fuel, which the well-formedness of the table shows to be enough (the refinement theorems conclude
  that the calls return). Loops over strings, files and the free list, the polling of devices and the retry
  of \<open>bind_address\<close> are \<open>partial_function (option)\<close>, and their properties state that they return. The
  endless loops of the managers and of the shell are given by the number of their rounds.

  \<^bold>\<open>Foundations.\<close>
  \<^item> \<open>Prelude\<close>: integer types, \<open>MASK\<close>, \<open>assert\<close>, error numbers, counted loops, facts on words.
  \<^item> \<open>Ring\<close>: circular doubly linked lists over a store, as the locale \<open>ring_fields\<close>; \<open>Proc_State\<close>
    interprets it for the ready lists and for the sibling lists.
  \<^item> \<open>Bytes\<close>, \<open>Strings\<close>: byte-addressed memory and \<^verbatim>\<open>libk/string.c\<close>.

  \<^bold>\<open>Processes.\<close>
  \<^item> \<open>Timer\<close>: \<^verbatim>\<open>interrupt/timer.c\<close>, with the weighted random choice of the scheduler.
  \<^item> \<open>Proc_State\<close>, \<open>Ready_Queue\<close>, \<open>Process_Tree\<close>, \<open>Syscalls\<close>: the process table of \<^verbatim>\<open>proc/proc.c\<close>, its
    operations and the system calls. \<open>Abstract_Procs\<close> abstracts the table to sets of processes, ready
    queues and lists of children; \<open>Lifecycle\<close> and \<open>Channels\<close> prove that \<open>wait\<close>, \<open>exit\<close> and the message
    calls refine their specifications on it. \<open>Example_System\<close> is a concrete table.
  \<^item> \<open>Kernel_State\<close>: the globals of all modules in one record; entry and exit of the kernel
    (\<^verbatim>\<open>proc/proc_mmu.c\<close>), \<open>fork\<close>, the scheduler, the dispatch of exceptions (\<^verbatim>\<open>interrupt/interrupt.c\<close>) and the
    start (\<^verbatim>\<open>proc/kernel.c\<close>). \<open>Scheduler\<close> and \<open>Fork\<close> refine the scheduler and \<open>fork\<close>; \<open>Kernel_Loop\<close> composes
    them: one step of the machine is the inductive relation \<open>kernel_step\<close>, its reachable states satisfy
    the invariant \<open>in_user\<close>. \<open>Boot\<close> shows that the start of the kernel establishes that invariant.
  \<^item> \<open>Messages\<close>: a message and its answer reach the memory of their receivers unchanged, over any run of
    the machine (\<open>runs_next\<close>) between the trap and the next time the receiver runs.
  \<^item> \<open>Buffer_Faults\<close>: the copies that the kernel makes at addresses named by processes. \<open>Kernel_State\<close> and the theories above
    copy as if these addresses were mapped and writable; here every byte is looked up in the page tables and a fault is
    handled as the vectors and \<open>c_sync_handler\<close> do. The kernel comes back from a trap exactly when its copies meet no
    fault, and then with the result of the unchecked functions; a process that names memory it does not have, or that it
    shares for copy on write, stops the kernel. Runs of this machine are runs of \<open>kernel_step\<close>.
  \<^item> \<open>Exception_Report\<close>: the reports on exceptions that the kernel does not handle.

  \<^bold>\<open>Memory.\<close>
  \<^item> \<open>Mmu_Tables\<close>, \<open>Mmu_Walk\<close>, \<open>Page_Pool\<close>: \<^verbatim>\<open>memory/mmu.c\<close>, table entries, the table walk as a function
    \<open>translate\<close>, \<open>bind_address\<close>, and the free pages as a stack (locale \<open>page_stack\<close>).
  \<^item> \<open>Mmu_Init\<close>, \<open>Identity_Paging\<close>, \<open>Free_Pages\<close>, \<open>Kernel_Mmu\<close>: the start of the memory management for every
    kernel image that \<^verbatim>\<open>linker.ld\<close> can lay out. \<open>Mmu_Faults\<close>: the fault handlers.
  \<^item> \<open>Address_Spaces\<close>, \<open>Fork_Space\<close>, \<open>Copy_On_Write\<close>: several address spaces with tables of their own. The space of a forked
    process reads as that of its parent and shares no writable frame with it; a write to a shared
    page gives the writer a copy that no other address space sees.
  \<^item> \<open>Alloc\<close>, \<open>Block_List\<close>, \<open>Heap_Inv\<close>, \<open>Malloc\<close>, \<open>Heap_Safety\<close>, \<open>Heap_Props\<close>, \<open>String_Alloc\<close>: the allocator.
    Headers lie in the byte memory; the invariant is that headers and payloads tile the heap and
    form a doubly linked list without adjacent free blocks. \<open>kmalloc\<close> and \<open>kfree\<close> refine operations on
    the list of blocks and satisfy the client contract \<open>allocator\<close>. \<open>Heap_Clients\<close> is the view of code that takes
    blocks and gives them back: what such code may rely on is told by the blocks in use and the free
    regions between them.

  \<^bold>\<open>Files, console and user programs.\<close>
  \<^item> \<open>Filesystem\<close>, \<open>Fs_Blocks\<close>, \<open>Fs_Files\<close>, \<open>Fs_Props\<close>: \<^verbatim>\<open>libk/filesystem.c\<close> over the disk image in memory; reading and
    writing act on the contents of a file as on a list of bytes. \<open>Fs_Paths\<close>: directories as lists of names and
    inodes; the search along a path finds what a definition of path resolution says. \<open>Fs_Listing\<close>: the
    functions that print directories, which use the heap, the disk and the serial line together.
  \<^item> \<open>Console\<close>, \<open>Format_Text\<close>, \<open>Console_Props\<close>: \<^verbatim>\<open>libk/uart.c\<close>, numbers and formatted output, equal to a reference
    rendering of the format. \<open>Serial_Port\<close>: the driver below, over a device given by its registers; what the
    devices promise is the hypothesis \<open>serial_port\<close>.
  \<^item> \<open>Sys\<close>: the system call wrappers of \<^verbatim>\<open>libk/sys.c\<close>, and the kernel as a client and a manager see it (\<open>rendezvous\<close> and
    \<open>manager_svc\<close>: an abstract kernel with one client at a time). \<open>Channel_Kernel\<close>: after the traps of the kernel model, a
    process goes on with the register and the memory that these abstract calls give.
    \<open>Io_Service\<close>, \<open>Io_Props\<close>: \<^verbatim>\<open>usr/io.c\<close> and \<^verbatim>\<open>libk/io_lib.c\<close>; \<open>Fs_Service\<close>, \<open>Fs_Service_Props\<close>: \<^verbatim>\<open>usr/fs_manager.c\<close> and
    \<^verbatim>\<open>libk/user_filesystem.c\<close>, up to what a program reads back through requests to the manager.
  \<^item> \<open>Programs\<close>, \<open>Program_Props\<close>: the memory manager, the shell and the first process.

  \<^bold>\<open>Conditions.\<close> What is shown of files holds for writes inside a file; extending a file stores block numbers in the wrong
  byte order, and reading over a border of blocks copies too much, which is a theorem of its own. The services are shown for
  well-formed requests over the abstract channel, with debug output of the managers switched off (\<open>LOG_LEVEL\<close>).

  \<^bold>\<open>Not modelled.\<close> TLB and cache maintenance and memory barriers (test 7 of the shell only does that);
  assembly code (boot, the pushing and popping of registers in the exception vectors, whose frame is a parameter, \<^verbatim>\<open>libk/misc.c\<close>); debug output inside of the
  kernel that is compiled out (\<open>proc_verbose\<close>, \<open>mmu_verbose\<close>, the dumps of the heap and of descriptors);
  the programs of \<^verbatim>\<open>test\<close>, which the shell starts by name. Listings that go down more than one level, which no
  caller asks for, are defined without a property. The copy of the table zone that only
  the memory manager gets at its fork is defined, without a property.
  Accesses of the memory management code through 64-, 32- and 8-bit pointers go to separate stores:
  tables, map of free pages and counters lie in disjoint parts of memory. The bytes that processes read and write
  are those of \<open>k_alloc\<close> in the kernel's theories and of \<open>frame\<close> in those of address spaces; they are kept apart from the
  process table, so a process that makes the kernel write into the kernel's own data, which no check prevents, is
  not covered.
\<close>

end
